(* ===== verification/Prelude.thy ===== *)
theory Prelude
  imports Main "HOL-Library.Word"
begin

text \<open>
  Shared vocabulary of the development: the machine-integer types of the kernel, the result
  type of operations that can stop the machine, the bit-scan instruction, and generic lemmas
  about words, aligned blocks and lists that the component theories use.

  A kernel operation that can hit a failed \<open>KASSERT\<close>, spin forever on a lock or touch
  memory it must not touch returns a value of \<open>'a res\<close>: \<open>Inl\<close> names how the
  machine stopped, \<open>Inr\<close> carries the new state and the C return value.
\<close>

unbundle bit_operations_syntax

type_synonym u8 = "8 word"
type_synonym u16 = "16 word"
type_synonym u32 = "32 word"
type_synonym u64 = "64 word"

datatype kerror = KAssert | Deadlock | Fault

type_synonym 'a res = "kerror + 'a"

definition bnd :: "'a res \<Rightarrow> ('a \<Rightarrow> 'b res) \<Rightarrow> 'b res" where
  "bnd m f = (case m of Inl e \<Rightarrow> Inl e | Inr x \<Rightarrow> f x)"

definition kassert :: "bool \<Rightarrow> 'a res \<Rightarrow> 'a res" where
  "kassert c k = (if c then k else Inl KAssert)"

named_theorems word_facts \<open>moving word arithmetic to natural numbers\<close>
named_theorems res_facts \<open>inversion of results of the error monad\<close>

lemma bnd_simps [simp]:
  "bnd (Inl e) f = Inl e"
  "bnd (Inr x) f = f x"
  by (simp_all add: bnd_def)

lemma bnd_eq_Inr [res_facts]: "bnd m f = Inr y \<longleftrightarrow> (\<exists>x. m = Inr x \<and> f x = Inr y)"
  by (cases m) simp_all

lemma bnd_eq_Inl [res_facts]:
  "bnd m f = Inl e \<longleftrightarrow> m = Inl e \<or> (\<exists>x. m = Inr x \<and> f x = Inl e)"
  by (cases m) simp_all

lemma kassert_simps [simp]:
  "kassert True k = k"
  "kassert False k = Inl KAssert"
  by (simp_all add: kassert_def)

lemma bnd_cong [fundef_cong]:
  "m = m' \<Longrightarrow> (\<And>x. m' = Inr x \<Longrightarrow> f x = f' x) \<Longrightarrow> bnd m f = bnd m' f'"
  by (cases m') (simp_all add: bnd_def)

lemma kassert_cong [fundef_cong]:
  "c = c' \<Longrightarrow> (c' \<Longrightarrow> k = k') \<Longrightarrow> kassert c k = kassert c' k'"
  by (simp add: kassert_def)

lemma kassert_eq_Inr [res_facts]: "kassert c k = Inr y \<longleftrightarrow> c \<and> k = Inr y"
  by (simp add: kassert_def)

lemma nth_upd: "xs[i := v] ! j = (if i = j \<and> j < length xs then v else xs ! j)"
  by (cases "i < length xs") (auto simp: list_update_beyond)

subsection \<open>Powers of two as words\<close>

definition pow2 :: "nat \<Rightarrow> u64" where
  "pow2 k = push_bit k 1"

lemma pow2_eq: "pow2 k = 2 ^ k"
  by (simp add: pow2_def push_bit_eq_mult)

lemma unat_pow2 [word_facts]: "k < 64 \<Longrightarrow> unat (pow2 k) = 2 ^ k"
proof -
  assume k: "k < 64"
  have "unat (push_bit k (1 :: u64)) = take_bit LENGTH(64) (push_bit k (unat (1 :: u64)))"
    by (rule unsigned_push_bit_eq)
  also have "\<dots> = 2 ^ k"
    using k by (simp add: push_bit_eq_mult take_bit_nat_eq_self)
  finally show ?thesis by (simp add: pow2_def)
qed

lemma bit_pow2: "bit (pow2 k) i \<longleftrightarrow> i = k \<and> k < 64"
  using bit_exp_iff [where ?'a = u64, of k i] by (auto simp: pow2_eq)

lemma unat_less_64 [word_facts]: "unat (w :: u64) < 2 ^ 64"
  using unsigned_less [of w, where ?'a = nat] by simp

lemma unat_add_u64 [word_facts]:
  "unat (a :: u64) + unat b < 2 ^ 64 \<Longrightarrow> unat (a + b) = unat a + unat b"
  by (simp add: unat_word_ariths)

lemma unat_sub_u64 [word_facts]: "(b :: u64) \<le> a \<Longrightarrow> unat (a - b) = unat a - unat b"
  by (rule unat_sub)

lemma unat_of_nat_u64 [word_facts]: "n < 2 ^ 64 \<Longrightarrow> unat (of_nat n :: u64) = n"
  by (simp add: unat_of_nat)

subsection \<open>The bit-scan-forward instruction\<close>

text \<open>
  \<open>bsfq\<close> returns the index of the lowest set bit. Its destination is undefined when
  the operand is zero, which is the value \<open>None\<close>.
\<close>

definition bsfq :: "u64 \<Rightarrow> nat option" where
  "bsfq w = List.find (\<lambda>i. bit w i) [0..<64]"

lemma find_upt_Some:
  "List.find P [0..<n] = Some i \<longleftrightarrow> i < n \<and> P i \<and> (\<forall>j < i. \<not> P j)"
  by (auto simp: find_Some_iff)

lemma bsfq_Some_iff: "bsfq w = Some i \<longleftrightarrow> bit w i \<and> (\<forall>j < i. \<not> bit w j)"
  unfolding bsfq_def find_upt_Some using bit_imp_le_length [of w i] by auto

lemma bsfq_None_iff: "bsfq w = None \<longleftrightarrow> w = 0"
proof -
  have "bsfq w = None \<longleftrightarrow> (\<forall>i < 64. \<not> bit w i)"
    by (auto simp: bsfq_def find_None_iff)
  also have "\<dots> \<longleftrightarrow> w = 0"
    using bit_imp_le_length [of w] by (auto simp: bit_eq_iff)
  finally show ?thesis .
qed

lemma bsfq_less: "bsfq w = Some i \<Longrightarrow> i < 64"
  using bit_imp_le_length [of w i] by (simp add: bsfq_Some_iff)

lemma bsfq_exists: "w \<noteq> 0 \<Longrightarrow> \<exists>i. bsfq w = Some i"
  using bsfq_None_iff [of w] by auto

subsection \<open>Single-bit updates of a bitmap word\<close>

lemma bit_clear_bit_word: "bit (w AND NOT (pow2 k)) i \<longleftrightarrow> bit w i \<and> i \<noteq> k" for w :: u64
proof (cases "i < 64")
  case True
  then show ?thesis by (auto simp: bit_and_iff bit_not_iff bit_pow2)
next
  case False
  then have "\<not> bit w i" using bit_imp_le_length [of w i] by auto
  then show ?thesis by (simp add: bit_and_iff)
qed

lemma bit_set_bit_word: "k < 64 \<Longrightarrow> bit (w OR pow2 k) i \<longleftrightarrow> bit w i \<or> i = k" for w :: u64
  by (auto simp: bit_or_iff bit_pow2)

lemma and_pow2_eq_0: "k < 64 \<Longrightarrow> w AND pow2 k = 0 \<longleftrightarrow> \<not> bit w k" for w :: u64
  by (simp add: pow2_eq and_exp_eq_0_iff_not_bit)

end
