(* ===== verification/Bitmap_Alloc.thy ===== *)
theory Bitmap_Alloc
  imports Prelude
begin

text \<open>
  The bitmap resource allocator of \<open>kernel/bitmap_alloc.h\<close>, which hands out small
  integer identifiers from one 64-bit word (a set bit is a free identifier), and the contract
  such an allocator offers its clients as the locale \<open>slot_allocator\<close>. The scheduler's
  task-control-block pool (\<open>alloc_tcb\<close>/\<open>free_tcb\<close>) keeps the same contract.

  Each operation is one critical section under the pool's own spinlock, so the model makes it
  one atomic step on the word.
\<close>

record id_pool =
  bitmap :: u64

definition ID_POOL_BITS :: int where
  "ID_POOL_BITS = 64"

definition id_pool_init :: id_pool where
  "id_pool_init = \<lparr>bitmap = NOT 0\<rparr>"

definition id_alloc :: "id_pool \<Rightarrow> id_pool \<times> int" where
  "id_alloc pool =
     (if bitmap pool = 0 then (pool, -1)
      else case bsfq (bitmap pool) of
          None \<Rightarrow> (pool, -1)
        | Some i \<Rightarrow> (pool\<lparr>bitmap := bitmap pool AND NOT (pow2 i)\<rparr>, int i))"

definition id_free :: "id_pool \<Rightarrow> int \<Rightarrow> id_pool" where
  "id_free pool i =
     (if i < 0 \<or> ID_POOL_BITS \<le> i then pool
      else pool\<lparr>bitmap := bitmap pool OR pow2 (nat i)\<rparr>)"

definition id_is_used :: "id_pool \<Rightarrow> int \<Rightarrow> bool" where
  "id_is_used pool i =
     (if i < 0 \<or> ID_POOL_BITS \<le> i then False
      else bitmap pool AND pow2 (nat i) = 0)"

definition id_pool_count_free :: "id_pool \<Rightarrow> nat" where
  "id_pool_count_free pool = length (filter (bit (bitmap pool)) [0..<64])"

subsection \<open>The contract of a slot allocator\<close>

locale slot_allocator =
  fixes alloc :: "'s \<Rightarrow> 's \<times> nat option"
    and free :: "'s \<Rightarrow> nat \<Rightarrow> 's"
    and avail :: "'s \<Rightarrow> nat set"
    and cap :: nat
  assumes avail_bounded: "avail s \<subseteq> {..<cap}"
    and alloc_None: "avail s = {} \<Longrightarrow> alloc s = (s, None)"
    and alloc_Some: "avail s \<noteq> {} \<Longrightarrow>
          \<exists>s'. alloc s = (s', Some (Min (avail s))) \<and> avail s' = avail s - {Min (avail s)}"
    and free_avail: "i < cap \<Longrightarrow> avail (free s i) = insert i (avail s)"
begin

lemma finite_avail [simp]: "finite (avail s)"
  using avail_bounded finite_subset by blast

text \<open>\<open>n\<close> allocations in a row, with the identifiers they hand out.\<close>

fun alloc_many :: "nat \<Rightarrow> 's \<Rightarrow> 's \<times> nat list" where
  "alloc_many 0 s = (s, [])"
| "alloc_many (Suc n) s =
     (case alloc s of
        (s', None) \<Rightarrow> (s', [])
      | (s', Some i) \<Rightarrow> (case alloc_many n s' of (s'', ids) \<Rightarrow> (s'', i # ids)))"

lemma alloc_spec:
  assumes "alloc s = (s', Some i)"
  shows "i \<in> avail s" "avail s' = avail s - {i}" "i < cap" "i = Min (avail s)"
proof -
  have ne: "avail s \<noteq> {}" using assms alloc_None by fastforce
  then have "i = Min (avail s) \<and> avail s' = avail s - {i}"
    using alloc_Some [OF ne] assms by auto
  moreover have "Min (avail s) \<in> avail s" using ne by simp
  ultimately show "i \<in> avail s" "avail s' = avail s - {i}" "i < cap" "i = Min (avail s)"
    using avail_bounded [of s] by auto
qed

lemma alloc_fails_iff: "snd (alloc s) = None \<longleftrightarrow> avail s = {}"
  using alloc_None alloc_Some [of s] by force

lemma alloc_free_avail: "alloc s = (s', Some i) \<Longrightarrow> avail (free s' i) = avail s"
  using alloc_spec [of s s' i] free_avail [of i s'] by auto

lemma alloc_many_spec:
  "alloc_many n s = (s', ids) \<Longrightarrow>
     distinct ids \<and> set ids \<subseteq> avail s \<and> avail s' = avail s - set ids \<and>
     length ids = min n (card (avail s))"
proof (induction n arbitrary: s s' ids)
  case 0
  then show ?case by simp
next
  case (Suc n)
  show ?case
  proof (cases "avail s = {}")
    case True
    with Suc.prems alloc_None show ?thesis by auto
  next
    case False
    then obtain s1 i where a: "alloc s = (s1, Some i)"
      using alloc_Some by blast
    obtain s2 js where b: "alloc_many n s1 = (s2, js)" by force
    have "ids = i # js" "s' = s2" using Suc.prems a b by auto
    moreover have "card (avail s) = Suc (card (avail s1))"
      using alloc_spec [OF a] by (metis card.remove finite_avail)
    ultimately show ?thesis using Suc.IH [OF b] alloc_spec [OF a] by auto
  qed
qed

end

subsection \<open>The identifier pool keeps the contract\<close>

definition pool_avail :: "id_pool \<Rightarrow> nat set" where
  "pool_avail pool = {i. bit (bitmap pool) i}"

definition pool_alloc :: "id_pool \<Rightarrow> id_pool \<times> nat option" where
  "pool_alloc pool =
     (case id_alloc pool of (pool', r) \<Rightarrow> (pool', if r < 0 then None else Some (nat r)))"

lemma bits_Min:
  assumes "bsfq w = Some i"
  shows "i = Min {j. bit w j}"
proof -
  have "finite {j. bit w j}"
    by (rule finite_subset [of _ "{..<64}"]) (use bit_imp_le_length [of w] in auto)
  moreover have "bit w i" and "\<And>j. bit w j \<Longrightarrow> i \<le> j"
    using assms unfolding bsfq_Some_iff by (auto intro: leI)
  ultimately have "Min {j. bit w j} = i"
    by (intro Min_eqI) auto
  then show ?thesis by simp
qed

lemma pool_avail_empty: "pool_avail pool = {} \<longleftrightarrow> bitmap pool = 0"
  using bit_imp_le_length [of "bitmap pool"] by (auto simp: pool_avail_def bit_eq_iff)

lemma id_alloc_Some:
  assumes "bitmap pool \<noteq> 0"
  obtains i where "bsfq (bitmap pool) = Some i"
    and "id_alloc pool = (pool\<lparr>bitmap := bitmap pool AND NOT (pow2 i)\<rparr>, int i)"
  using bsfq_exists [OF assms] assms by (auto simp: id_alloc_def)

interpretation pool: slot_allocator pool_alloc "\<lambda>p i. id_free p (int i)" pool_avail 64
proof
  fix s :: id_pool and i :: nat
  show "pool_avail s \<subseteq> {..<64}"
    using bit_imp_le_length [of "bitmap s"] by (auto simp: pool_avail_def)
  show "pool_avail s = {} \<Longrightarrow> pool_alloc s = (s, None)"
    by (simp add: pool_avail_empty pool_alloc_def id_alloc_def)
  show "\<exists>s'. pool_alloc s = (s', Some (Min (pool_avail s))) \<and>
             pool_avail s' = pool_avail s - {Min (pool_avail s)}"
    if ne: "pool_avail s \<noteq> {}"
  proof -
    from ne have "bitmap s \<noteq> 0" by (simp add: pool_avail_empty)
    then obtain k where k: "bsfq (bitmap s) = Some k"
      and a: "id_alloc s = (s\<lparr>bitmap := bitmap s AND NOT (pow2 k)\<rparr>, int k)"
      by (rule id_alloc_Some)
    have "k = Min (pool_avail s)"
      using bits_Min [OF k] by (simp add: pool_avail_def)
    with a show ?thesis
      by (auto simp: pool_alloc_def pool_avail_def bit_clear_bit_word)
  qed
  show "i < 64 \<Longrightarrow> pool_avail (id_free s (int i)) = insert i (pool_avail s)"
    by (auto simp: id_free_def ID_POOL_BITS_def pool_avail_def bit_set_bit_word)
qed

lemma pool_init_avail: "pool_avail id_pool_init = {..<64}"
  by (auto simp: pool_avail_def id_pool_init_def)

lemma id_is_used_iff: "0 \<le> i \<Longrightarrow> i < 64 \<Longrightarrow> id_is_used pool i \<longleftrightarrow> nat i \<notin> pool_avail pool"
  by (simp add: id_is_used_def ID_POOL_BITS_def pool_avail_def and_pow2_eq_0)

lemma id_pool_count_free_card: "id_pool_count_free pool = card (pool_avail pool)"
proof -
  have "id_pool_count_free pool = card (set (filter (bit (bitmap pool)) [0..<64]))"
    unfolding id_pool_count_free_def by (rule distinct_card [symmetric]) simp
  also have "set (filter (bit (bitmap pool)) [0..<64]) = pool_avail pool"
    using bit_imp_le_length [of "bitmap pool"] by (auto simp: pool_avail_def)
  finally show ?thesis .
qed

end
