(* ===== verification/Pmm.thy ===== *)
theory Pmm
  imports Prelude
begin

text \<open>
  The physical memory manager of \<open>kernel/pmm.c\<close> and \<open>kernel/pmm.h\<close>: a buddy
  allocator over an array of page descriptors, with one doubly linked free list per order.

  Pointers to \<open>struct page\<close> are indices into the page array, \<open>NULL\<close> is
  \<open>None\<close>. Page frame numbers are natural numbers: each is a 64-bit address shifted
  right by 12, so it is below \<open>2^52\<close> and the sums with \<open>2^order\<close> the code forms
  do not wrap. Addresses, flags, counters and reference counts are machine words. A failed
  \<open>PMM_ASSERT\<close> is \<open>Inl KAssert\<close>.
\<close>

subsection \<open>Data\<close>

record page =
  pg_next :: "nat option"
  pg_prev :: "nat option"
  pg_order :: nat
  pg_flags :: u32
  ref_count :: u32

record free_area =
  fa_head :: "nat option"
  fa_count :: u64

record pmm_state =
  pages :: "page list"
  total_pfns :: nat
  max_phys_addr :: u64
  free_lists :: "free_area list"
  free_pages :: u64
  used_pages :: u64
  reserved_pages :: u64
  peak_used :: u64

definition PMM_MAX_ORDER :: nat where
  "PMM_MAX_ORDER = 10"

definition PMM_NUM_ORDERS :: nat where
  "PMM_NUM_ORDERS = 11"

definition PAGE_FREE :: u32 where "PAGE_FREE = 0"
definition PAGE_USED :: u32 where "PAGE_USED = 1"
definition PAGE_RESERVED :: u32 where "PAGE_RESERVED = 2"
definition PAGE_BUDDY_HEAD :: u32 where "PAGE_BUDDY_HEAD = 4"

definition PAGE_SIZE :: u64 where
  "PAGE_SIZE = 4096"

subsection \<open>Free list operations\<close>

definition list_add :: "page list \<Rightarrow> free_area \<Rightarrow> nat \<Rightarrow> page list \<times> free_area" where
  "list_add ps area pg =
     (let ps1 = ps[pg := (ps ! pg)\<lparr>pg_prev := None, pg_next := fa_head area\<rparr>];
          ps2 = (case fa_head area of
                   None \<Rightarrow> ps1
                 | Some h \<Rightarrow> ps1[h := (ps1 ! h)\<lparr>pg_prev := Some pg\<rparr>])
      in (ps2, \<lparr>fa_head = Some pg, fa_count = fa_count area + 1\<rparr>))"

definition list_remove :: "page list \<Rightarrow> free_area \<Rightarrow> nat \<Rightarrow> page list \<times> free_area" where
  "list_remove ps area pg =
     (let (ps1, area1) =
            (case pg_prev (ps ! pg) of
               Some q \<Rightarrow> (ps[q := (ps ! q)\<lparr>pg_next := pg_next (ps ! pg)\<rparr>], area)
             | None \<Rightarrow> (ps, area\<lparr>fa_head := pg_next (ps ! pg)\<rparr>));
          ps2 = (case pg_next (ps1 ! pg) of
                   Some n \<Rightarrow> ps1[n := (ps1 ! n)\<lparr>pg_prev := pg_prev (ps1 ! pg)\<rparr>]
                 | None \<Rightarrow> ps1)
      in (ps2[pg := (ps2 ! pg)\<lparr>pg_prev := None, pg_next := None\<rparr>],
          area1\<lparr>fa_count := fa_count area1 - 1\<rparr>))"

subsection \<open>Frame numbers and buddies\<close>

definition pfn_to_phys :: "nat \<Rightarrow> u64" where
  "pfn_to_phys pfn = push_bit 12 (of_nat pfn)"

definition phys_to_pfn :: "u64 \<Rightarrow> nat" where
  "phys_to_pfn phys = unat (drop_bit 12 phys)"

definition buddy_pfn :: "nat \<Rightarrow> nat \<Rightarrow> nat" where
  "buddy_pfn pfn order = pfn XOR push_bit order 1"

definition is_buddy_free :: "pmm_state \<Rightarrow> nat \<Rightarrow> nat \<Rightarrow> bool" where
  "is_buddy_free s bpfn order =
     (if total_pfns s \<le> bpfn then False
      else pg_flags (pages s ! bpfn) AND PAGE_BUDDY_HEAD \<noteq> 0 \<and> pg_order (pages s ! bpfn) = order)"

subsection \<open>Fragments shared by allocation and freeing\<close>

text \<open>Unlink a free block and clear its head flag; link a block into the list of its order.\<close>

definition take_block :: "pmm_state \<Rightarrow> nat \<Rightarrow> nat \<Rightarrow> pmm_state" where
  "take_block s k pg =
     (case list_remove (pages s) (free_lists s ! k) pg of
        (ps, area) \<Rightarrow>
          s\<lparr>pages := ps[pg := (ps ! pg)\<lparr>pg_flags := pg_flags (ps ! pg) AND NOT PAGE_BUDDY_HEAD\<rparr>],
            free_lists := (free_lists s)[k := area]\<rparr>)"

definition put_block :: "pmm_state \<Rightarrow> nat \<Rightarrow> nat \<Rightarrow> pmm_state" where
  "put_block s k pg =
     (case list_add (pages s) (free_lists s ! k) pg of
        (ps, area) \<Rightarrow> s\<lparr>pages := ps, free_lists := (free_lists s)[k := area]\<rparr>)"

definition set_head :: "pmm_state \<Rightarrow> nat \<Rightarrow> nat \<Rightarrow> pmm_state" where
  "set_head s k pg =
     s\<lparr>pages := (pages s)[pg := (pages s ! pg)\<lparr>pg_order := k,
                                              pg_flags := PAGE_FREE OR PAGE_BUDDY_HEAD\<rparr>]\<rparr>"

subsection \<open>Allocation\<close>

function find_order :: "pmm_state \<Rightarrow> nat \<Rightarrow> nat" where
  "find_order s c =
     (if c \<le> PMM_MAX_ORDER then
        (if fa_head (free_lists s ! c) \<noteq> None then c else find_order s (c + 1))
      else c)"
  by pat_completeness auto
termination
  by (relation "measure (\<lambda>(s, c). PMM_MAX_ORDER + 1 - c)") auto

fun split_loop :: "pmm_state \<Rightarrow> nat \<Rightarrow> nat \<Rightarrow> nat \<Rightarrow> pmm_state res" where
  "split_loop s block 0 order = Inr s"
| "split_loop s block (Suc c) order =
     (if order < Suc c then
        let split_pfn = block + 2 ^ c in
        kassert (split_pfn < total_pfns s)
          (let s1 = put_block (set_head s c split_pfn) c split_pfn
           in split_loop (s1\<lparr>free_pages := free_pages s1 + pow2 c\<rparr>) block c order)
      else Inr s)"

definition pmm_alloc_pages :: "pmm_state \<Rightarrow> nat \<Rightarrow> (pmm_state \<times> u64) res" where
  "pmm_alloc_pages s order =
     kassert (order \<le> PMM_MAX_ORDER)
       (let c = find_order s order in
        if PMM_MAX_ORDER < c then Inr (s, 0)
        else case fa_head (free_lists s ! c) of
            None \<Rightarrow> Inl Fault
          | Some block \<Rightarrow>
              let s1 = take_block s c block;
                  s2 = s1\<lparr>free_pages := free_pages s1 - pow2 c\<rparr>
              in bnd (split_loop s2 block c order)
                (\<lambda>s3.
                  let s4 = s3\<lparr>pages := (pages s3)[block := (pages s3 ! block)
                               \<lparr>pg_order := order, pg_flags := PAGE_USED, ref_count := 1\<rparr>],
                             used_pages := used_pages s3 + pow2 order\<rparr>;
                      s5 = (if peak_used s4 < used_pages s4
                            then s4\<lparr>peak_used := used_pages s4\<rparr> else s4)
                  in Inr (s5, pfn_to_phys block)))"

subsection \<open>Freeing with coalescing\<close>

function coalesce_loop :: "pmm_state \<Rightarrow> nat \<Rightarrow> nat \<Rightarrow> pmm_state \<times> nat \<times> nat" where
  "coalesce_loop s pfn order =
     (if order < PMM_MAX_ORDER then
        let bpfn = buddy_pfn pfn order in
        if \<not> is_buddy_free s bpfn order then (s, pfn, order)
        else
          let s1 = take_block s order bpfn;
              pfn' = (if bpfn < pfn then bpfn else pfn)
          in coalesce_loop (set_head s1 (order + 1) pfn') pfn' (order + 1)
      else (s, pfn, order))"
  by pat_completeness auto
termination
  by (relation "measure (\<lambda>(s, pfn, order). PMM_MAX_ORDER - order)") auto

definition pmm_free_pages :: "pmm_state \<Rightarrow> u64 \<Rightarrow> nat \<Rightarrow> pmm_state res" where
  "pmm_free_pages s phys_addr order =
     kassert (order \<le> PMM_MAX_ORDER)
       (kassert (phys_addr AND (PAGE_SIZE - 1) = 0)
         (let pfn = phys_to_pfn phys_addr in
          kassert (pfn < total_pfns s)
           (kassert (pg_flags (pages s ! pfn) AND PAGE_USED \<noteq> 0)
             (let s1 = set_head s order pfn;
                  s2 = s1\<lparr>pages := (pages s1)[pfn := (pages s1 ! pfn)\<lparr>ref_count := 0\<rparr>],
                          free_pages := free_pages s1 + pow2 order,
                          used_pages := used_pages s1 - pow2 order\<rparr>
              in case coalesce_loop s2 pfn order of
                   (s3, pfn', order') \<Rightarrow> Inr (put_block s3 order' pfn')))))"

subsection \<open>Diagnostics and reference counts\<close>

definition pmm_free_count :: "pmm_state \<Rightarrow> u64" where
  "pmm_free_count s = free_pages s"

definition pmm_used_count :: "pmm_state \<Rightarrow> u64" where
  "pmm_used_count s = used_pages s"

definition pmm_peak_used :: "pmm_state \<Rightarrow> u64" where
  "pmm_peak_used s = peak_used s"

definition pmm_ref_inc :: "pmm_state \<Rightarrow> u64 \<Rightarrow> pmm_state res" where
  "pmm_ref_inc s phys_addr =
     kassert (phys_addr AND (PAGE_SIZE - 1) = 0)
       (let pfn = phys_to_pfn phys_addr in
        kassert (pfn < total_pfns s)
          (Inr (s\<lparr>pages := (pages s)[pfn := (pages s ! pfn)
                   \<lparr>ref_count := ref_count (pages s ! pfn) + 1\<rparr>]\<rparr>)))"

definition pmm_ref_dec :: "pmm_state \<Rightarrow> u64 \<Rightarrow> (pmm_state \<times> u32) res" where
  "pmm_ref_dec s phys_addr =
     kassert (phys_addr AND (PAGE_SIZE - 1) = 0)
       (let pfn = phys_to_pfn phys_addr in
        kassert (pfn < total_pfns s)
          (kassert (0 < ref_count (pages s ! pfn))
            (let new_count = ref_count (pages s ! pfn) - 1 in
             Inr (s\<lparr>pages := (pages s)[pfn := (pages s ! pfn)\<lparr>ref_count := new_count\<rparr>]\<rparr>,
                  new_count))))"

definition pmm_ref_get :: "pmm_state \<Rightarrow> u64 \<Rightarrow> u32 res" where
  "pmm_ref_get s phys_addr =
     kassert (phys_addr AND (PAGE_SIZE - 1) = 0)
       (let pfn = phys_to_pfn phys_addr in
        kassert (pfn < total_pfns s) (Inr (ref_count (pages s ! pfn))))"

subsection \<open>Initialisation: feeding regions of frames to the buddy system\<close>

function block_order :: "nat \<Rightarrow> nat \<Rightarrow> nat \<Rightarrow> nat" where
  "block_order pfn end_pfn order =
     (if order < PMM_MAX_ORDER then
        let block_pages = 2 ^ (order + 1) in
        if pfn AND (block_pages - 1) \<noteq> 0 then order
        else if end_pfn < pfn + block_pages then order
        else block_order pfn end_pfn (order + 1)
      else order)"
  by pat_completeness auto
termination
  by (relation "measure (\<lambda>(pfn, end_pfn, order). PMM_MAX_ORDER - order)") auto

declare find_order.simps [simp del] coalesce_loop.simps [simp del] block_order.simps [simp del]

definition mark_used :: "page list \<Rightarrow> nat \<Rightarrow> nat \<Rightarrow> page list" where
  "mark_used ps pfn n =
     foldl (\<lambda>qs i. qs[i := (qs ! i)\<lparr>pg_flags := PAGE_USED\<rparr>]) ps [pfn..<pfn + n]"

function feed_region :: "pmm_state \<Rightarrow> nat \<Rightarrow> nat \<Rightarrow> pmm_state res" where
  "feed_region s pfn end_pfn =
     (if pfn < end_pfn then
        let order = block_order pfn end_pfn 0;
            block_pages = 2 ^ order;
            s1 = s\<lparr>pages := mark_used (pages s) pfn block_pages,
                   reserved_pages := reserved_pages s - pow2 order,
                   used_pages := used_pages s + pow2 order\<rparr>
        in bnd (pmm_free_pages s1 (pfn_to_phys pfn) order)
             (\<lambda>s2. feed_region s2 (pfn + block_pages) end_pfn)
      else Inr s)"
  by pat_completeness auto
termination
  by (relation "measure (\<lambda>(s, pfn, end_pfn). end_pfn - pfn)") (auto simp: Let_def intro: diff_less_mono2)

declare feed_region.simps [simp del]

definition reserved_page :: page where
  "reserved_page = \<lparr>pg_next = None, pg_prev = None, pg_order = 0,
                    pg_flags = PAGE_RESERVED, ref_count = 0\<rparr>"

definition pmm_reset :: "nat \<Rightarrow> u64 \<Rightarrow> pmm_state" where
  "pmm_reset n max_addr =
     \<lparr>pages = replicate n reserved_page, total_pfns = n, max_phys_addr = max_addr,
      free_lists = replicate PMM_NUM_ORDERS \<lparr>fa_head = None, fa_count = 0\<rparr>,
      free_pages = 0, used_pages = 0, reserved_pages = of_nat n, peak_used = 0\<rparr>"

definition pmm_init_test :: "u64 \<Rightarrow> u64 \<Rightarrow> nat \<Rightarrow> pmm_state res" where
  "pmm_init_test base_phys sz n =
     (let start_pfn = phys_to_pfn base_phys;
          end_pfn = phys_to_pfn (base_phys + sz);
          end_pfn' = (if n < end_pfn then n else end_pfn)
      in feed_region (pmm_reset n (of_nat n * PAGE_SIZE)) start_pfn end_pfn')"

text \<open>
  The boot-time initialisation takes the boot loader's memory map, a list of entries. Type 0
  is usable memory. Three passes: the highest usable address, the largest usable region (the
  page array is placed at its start), and the feeding of every usable region.
\<close>

record memmap_entry =
  me_base :: u64
  me_length :: u64
  me_type :: u64

definition max_usable :: "memmap_entry list \<Rightarrow> u64" where
  "max_usable es =
     foldl (\<lambda>m e. if me_type e \<noteq> 0 then m
                 else if m < me_base e + me_length e then me_base e + me_length e else m) 0 es"

fun find_steal :: "memmap_entry list \<Rightarrow> nat \<Rightarrow> u64 \<Rightarrow> u64 \<Rightarrow> nat \<Rightarrow> u64 \<times> u64 \<times> nat" where
  "find_steal [] i base sz idx = (base, sz, idx)"
| "find_steal (e # es) i base sz idx =
     (if me_type e = 0 \<and> sz < me_length e
      then find_steal es (i + 1) (me_base e) (me_length e) i
      else find_steal es (i + 1) base sz idx)"

fun feed_entries ::
  "pmm_state \<Rightarrow> memmap_entry list \<Rightarrow> nat \<Rightarrow> nat \<Rightarrow> u64 \<Rightarrow> pmm_state res" where
  "feed_entries s [] i steal_idx metadata_pages = Inr s"
| "feed_entries s (e # es) i steal_idx metadata_pages =
     (if me_type e \<noteq> 0 then feed_entries s es (i + 1) steal_idx metadata_pages
      else
        let region_end = me_base e + me_length e;
            region_base = (if i = steal_idx then me_base e + metadata_pages * PAGE_SIZE
                           else me_base e)
        in if i = steal_idx \<and> region_end \<le> region_base
           then feed_entries s es (i + 1) steal_idx metadata_pages
           else
             let start_pfn = unat ((region_base + PAGE_SIZE - 1) div PAGE_SIZE);
                 end_pfn = unat (region_end div PAGE_SIZE);
                 end_pfn' = (if total_pfns s < end_pfn then total_pfns s else end_pfn)
             in if end_pfn \<le> start_pfn
                then feed_entries s es (i + 1) steal_idx metadata_pages
                else bnd (feed_region s start_pfn end_pfn')
                       (\<lambda>s1. feed_entries s1 es (i + 1) steal_idx metadata_pages))"

definition pmm_init :: "memmap_entry list \<Rightarrow> pmm_state res" where
  "pmm_init es =
     (let max_addr = max_usable es;
          n = unat (max_addr div PAGE_SIZE);
          metadata_size = of_nat n * 32;
          metadata_pages = (metadata_size + PAGE_SIZE - 1) div PAGE_SIZE;
          (steal_base, steal_size, steal_idx) = find_steal es 0 0 0 0
      in kassert (metadata_size \<le> steal_size)
           (feed_entries (pmm_reset n max_addr) es 0 steal_idx metadata_pages))"

end
