(* ===== verification/Pmm_Lists.thy ===== *)
theory Pmm_Lists
  imports Pmm
begin

text \<open>
  The free lists of the page allocator as linked structures: \<open>dlist ps h xs\<close> says that
  from head \<open>h\<close> the \<open>next\<close> links of the page array visit exactly \<open>xs\<close> and the
  \<open>prev\<close> links lead back. \<open>list_add\<close> and \<open>list_remove\<close> refine pushing to the
  front and deleting from the middle of \<open>xs\<close>, and leave every other page untouched.
\<close>

primrec dseg ::
  "page list \<Rightarrow> nat option \<Rightarrow> nat option \<Rightarrow> nat list \<Rightarrow> nat option \<Rightarrow> nat option \<Rightarrow> bool" where
  "dseg ps a h [] e t = (e = a \<and> t = h)"
| "dseg ps a h (x # xs) e t =
     (h = Some x \<and> x < length ps \<and> pg_prev (ps ! x) = a \<and>
      dseg ps (Some x) (pg_next (ps ! x)) xs e t)"

definition dlist :: "page list \<Rightarrow> nat option \<Rightarrow> nat list \<Rightarrow> bool" where
  "dlist ps h xs = (\<exists>e. dseg ps None h xs e None)"

definition links_eq :: "page \<Rightarrow> page \<Rightarrow> bool" where
  "links_eq p q \<longleftrightarrow> pg_next p = pg_next q \<and> pg_prev p = pg_prev q"

definition info_eq :: "page \<Rightarrow> page \<Rightarrow> bool" where
  "info_eq p q \<longleftrightarrow> pg_order p = pg_order q \<and> pg_flags p = pg_flags q \<and> ref_count p = ref_count q"

lemma info_eq_refl [simp]: "info_eq p p"
  by (simp add: info_eq_def)

lemma dseg_append:
  "dseg ps a h (xs @ ys) e t \<longleftrightarrow> (\<exists>b g. dseg ps a h xs b g \<and> dseg ps b g ys e t)"
  by (induction xs arbitrary: a h) auto

lemma dseg_end: "dseg ps a h xs e t \<Longrightarrow> e = (if xs = [] then a else Some (last xs))"
  by (induction xs arbitrary: a h) auto

lemma dseg_bound: "dseg ps a h xs e t \<Longrightarrow> x \<in> set xs \<Longrightarrow> x < length ps"
  by (induction xs arbitrary: a h) auto

lemma dseg_frame:
  "length ps' = length ps \<Longrightarrow> \<forall>x \<in> set xs. links_eq (ps' ! x) (ps ! x) \<Longrightarrow>
   dseg ps' a h xs e t = dseg ps a h xs e t"
  by (induction xs arbitrary: a h) (auto simp: links_eq_def)

lemma dlist_frame:
  "length ps' = length ps \<Longrightarrow> \<forall>x \<in> set xs. links_eq (ps' ! x) (ps ! x) \<Longrightarrow>
   dlist ps' h xs = dlist ps h xs"
  by (simp add: dlist_def dseg_frame)

lemma dlist_bound: "dlist ps h xs \<Longrightarrow> x \<in> set xs \<Longrightarrow> x < length ps"
  by (auto simp: dlist_def dest: dseg_bound)

lemma dlist_Nil [simp]: "dlist ps h [] \<longleftrightarrow> h = None"
  by (auto simp: dlist_def)

lemma dlist_head: "dlist ps h xs \<Longrightarrow> h = (if xs = [] then None else Some (hd xs))"
  by (cases xs) (auto simp: dlist_def)

lemma links_update_other: "x \<noteq> y \<Longrightarrow> links_eq (ps[y := p] ! x) (ps ! x)"
  by (simp add: links_eq_def)

text \<open>Relinking the first node of a segment to another predecessor.\<close>

lemma dseg_relink:
  assumes "dseg ps a h xs e None" "distinct xs" "ps' = (case h of
      None \<Rightarrow> ps | Some n \<Rightarrow> ps[n := (ps ! n)\<lparr>pg_prev := b\<rparr>])"
  shows "\<exists>e. dseg ps' b h xs e None"
proof (cases xs)
  case Nil
  then show ?thesis using assms by auto
next
  case (Cons n ys)
  then have h: "h = Some n" and n: "n < length ps"
    and ys: "dseg ps (Some n) (pg_next (ps ! n)) ys e None"
    using assms by auto
  have "dseg ps' (Some n) (pg_next (ps ! n)) ys e None"
  proof (rule dseg_frame [THEN iffD2, OF _ _ ys])
    show "\<forall>x \<in> set ys. links_eq (ps' ! x) (ps ! x)"
      using assms(2,3) Cons h by (auto simp: links_eq_def nth_upd)
  qed (use assms(3) h in simp)
  then show ?thesis using Cons h n assms(3) by auto
qed

lemma list_add_dlist:
  assumes l: "dlist ps (fa_head area) xs" and pg: "pg < length ps" "pg \<notin> set xs"
    and d: "distinct xs" and eq: "list_add ps area pg = (ps', area')"
  shows "dlist ps' (fa_head area') (pg # xs)"
proof -
  let ?ps1 = "ps[pg := (ps ! pg)\<lparr>pg_prev := None, pg_next := fa_head area\<rparr>]"
  have ps': "ps' = (case fa_head area of None \<Rightarrow> ?ps1
      | Some n \<Rightarrow> ?ps1[n := (?ps1 ! n)\<lparr>pg_prev := Some pg\<rparr>])"
    and h': "fa_head area' = Some pg"
    using eq by (auto simp: list_add_def Let_def)
  from l obtain e where "dseg ps None (fa_head area) xs e None" by (auto simp: dlist_def)
  then have "dseg ?ps1 None (fa_head area) xs e None"
    by (rule dseg_frame [THEN iffD2, rotated 2]) (use pg in \<open>auto simp: links_eq_def nth_upd\<close>)
  then obtain e' where e': "dseg ps' (Some pg) (fa_head area) xs e' None"
    using dseg_relink [OF _ d ps'] by blast
  have "fa_head area \<noteq> Some pg"
    using dlist_head [OF l] pg(2) by (auto split: if_splits)
  then have "pg_next (ps' ! pg) = fa_head area" "pg_prev (ps' ! pg) = None" "length ps' = length ps"
    using pg(1) by (auto simp: ps' nth_upd split: option.splits)
  then show ?thesis using e' h' pg(1) by (auto simp: dlist_def)
qed

lemma list_add_info:
  assumes "list_add ps area pg = (ps', area')"
  shows "length ps' = length ps" "info_eq (ps' ! x) (ps ! x)"
    "fa_count area' = fa_count area + 1"
  using assms
  by (auto simp: list_add_def Let_def info_eq_def nth_upd split: option.splits)

lemma list_add_frame:
  assumes l: "dlist ps (fa_head area) xs" and eq: "list_add ps area pg = (ps', area')"
    and x: "x \<notin> set (pg # xs)"
  shows "ps' ! x = ps ! x"
  using eq x dlist_head [OF l]
  by (cases xs) (auto simp: list_add_def Let_def nth_upd)

lemma list_remove_info:
  assumes "list_remove ps area pg = (ps', area')"
  shows "length ps' = length ps" "info_eq (ps' ! x) (ps ! x)"
    "fa_count area' = fa_count area - 1"
  using assms
  by (auto simp: list_remove_def Let_def info_eq_def nth_upd split: option.splits)

lemma dlist_split:
  assumes "dlist ps h (xs @ pg # ys)"
  obtains e where "dseg ps None h xs (pg_prev (ps ! pg)) (Some pg)" "pg < length ps"
    "dseg ps (Some pg) (pg_next (ps ! pg)) ys e None"
    "pg_prev (ps ! pg) = (if xs = [] then None else Some (last xs))"
proof -
  from assms obtain e where *: "dseg ps None h xs (pg_prev (ps ! pg)) (Some pg)"
    "pg < length ps" "dseg ps (Some pg) (pg_next (ps ! pg)) ys e None"
    by (auto simp: dlist_def dseg_append)
  show thesis by (rule that [OF * dseg_end [OF *(1)]])
qed

lemma dlist_next_in: "dlist ps h (xs @ pg # ys) \<Longrightarrow>
   pg_next (ps ! pg) = (if ys = [] then None else Some (hd ys))"
  by (cases ys) (auto simp: dlist_def dseg_append)

lemma list_remove_eqs:
  assumes l: "dlist ps (fa_head area) (xs @ pg # ys)" and d: "distinct (xs @ pg # ys)"
    and eq: "list_remove ps area pg = (ps', area')"
  shows "ps' = (let ps1 = (if xs = [] then ps
                           else ps[last xs := (ps ! last xs)\<lparr>pg_next := pg_next (ps ! pg)\<rparr>]);
                    ps2 = (case pg_next (ps ! pg) of None \<Rightarrow> ps1
                           | Some n \<Rightarrow> ps1[n := (ps1 ! n)\<lparr>pg_prev := pg_prev (ps ! pg)\<rparr>])
                in ps2[pg := (ps2 ! pg)\<lparr>pg_prev := None, pg_next := None\<rparr>])"
    and "fa_head area' = (if xs = [] then pg_next (ps ! pg) else fa_head area)"
proof -
  have prev: "pg_prev (ps ! pg) = (if xs = [] then None else Some (last xs))"
    using l by (rule dlist_split)
  have ne: "xs \<noteq> [] \<Longrightarrow> last xs \<noteq> pg" using d by auto
  show "ps' = (let ps1 = (if xs = [] then ps
                           else ps[last xs := (ps ! last xs)\<lparr>pg_next := pg_next (ps ! pg)\<rparr>]);
                    ps2 = (case pg_next (ps ! pg) of None \<Rightarrow> ps1
                           | Some n \<Rightarrow> ps1[n := (ps1 ! n)\<lparr>pg_prev := pg_prev (ps ! pg)\<rparr>])
                in ps2[pg := (ps2 ! pg)\<lparr>pg_prev := None, pg_next := None\<rparr>])"
    using eq prev ne
    by (cases "xs = []"; cases "pg_next (ps ! pg)") (auto simp: list_remove_def Let_def)
  show "fa_head area' = (if xs = [] then pg_next (ps ! pg) else fa_head area)"
    using eq prev by (cases "xs = []") (auto simp: list_remove_def Let_def)
qed

lemma list_remove_frame:
  assumes l: "dlist ps (fa_head area) (xs @ pg # ys)" and d: "distinct (xs @ pg # ys)"
    and eq: "list_remove ps area pg = (ps', area')" and x: "x \<notin> set (xs @ pg # ys)"
  shows "ps' ! x = ps ! x"
  using list_remove_eqs(1) [OF l d eq] x dlist_next_in [OF l]
  by (cases ys; cases "xs = []") (auto simp: Let_def nth_upd)

lemma list_remove_dlist:
  assumes l: "dlist ps (fa_head area) (xs @ pg # ys)" and d: "distinct (xs @ pg # ys)"
    and eq: "list_remove ps area pg = (ps', area')"
  shows "dlist ps' (fa_head area') (xs @ ys)"
proof -
  let ?a = "pg_prev (ps ! pg)" and ?n = "pg_next (ps ! pg)"
  obtain e where xs: "dseg ps None (fa_head area) xs ?a (Some pg)" and pg: "pg < length ps"
    and ys: "dseg ps (Some pg) ?n ys e None" and a: "?a = (if xs = [] then None else Some (last xs))"
    using l by (rule dlist_split)
  define ps1 where "ps1 = (if xs = [] then ps
      else ps[last xs := (ps ! last xs)\<lparr>pg_next := ?n\<rparr>])"
  define ps2 where "ps2 = (case ?n of None \<Rightarrow> ps1
      | Some n \<Rightarrow> ps1[n := (ps1 ! n)\<lparr>pg_prev := ?a\<rparr>])"
  have ps': "ps' = ps2[pg := (ps2 ! pg)\<lparr>pg_prev := None, pg_next := None\<rparr>]"
    and h': "fa_head area' = (if xs = [] then ?n else fa_head area)"
    by (rule list_remove_eqs(1) [OF l d eq, unfolded Let_def, folded ps1_def, folded ps2_def],
        rule list_remove_eqs(2) [OF l d eq])
  have len: "length ps1 = length ps" "length ps2 = length ps" "length ps' = length ps"
    by (simp_all add: ps' ps1_def ps2_def split: option.splits)
  have n: "?n = (if ys = [] then None else Some (hd ys))"
    using dlist_next_in [OF l] .
  have "xs \<noteq> [] \<Longrightarrow> last xs \<notin> set ys" using d by (cases xs rule: rev_cases) auto
  then have "dseg ps1 (Some pg) ?n ys e None"
    by (intro dseg_frame [THEN iffD2, OF _ _ ys])
      (use d in \<open>auto simp: ps1_def links_eq_def nth_upd\<close>)
  then obtain e2 where e2: "dseg ps2 ?a ?n ys e2 None"
    using dseg_relink [OF _ _ ps2_def, of "Some pg" ys e] d by auto
  have ys': "dseg ps' ?a ?n ys e2 None"
    by (rule dseg_frame [THEN iffD2, OF _ _ e2])
      (use d in \<open>auto simp: ps' links_eq_def nth_upd\<close>)
  have "dseg ps' None (fa_head area') xs ?a ?n"
  proof (cases xs rule: rev_cases)
    case Nil
    with a h' show ?thesis by simp
  next
    case (snoc zs q)
    with xs obtain b where zs: "dseg ps None (fa_head area) zs b (Some q)"
      and q: "q < length ps" "pg_prev (ps ! q) = b"
      by (auto simp: dseg_append)
    have neq: "q \<noteq> pg" "q \<notin> set ys" "q \<notin> set zs" "\<forall>x \<in> set zs. x \<noteq> pg \<and> x \<notin> set ys"
      using d snoc by auto
    have links: "links_eq (ps' ! x) (ps1 ! x)" if "x \<noteq> pg" "x \<notin> set ys" for x
      using that n by (cases ys) (auto simp: ps' ps2_def links_eq_def nth_upd)
    have "links_eq (ps' ! x) (ps ! x)" if "x \<in> set zs" for x
      using links [of x] neq that snoc by (auto simp: links_eq_def ps1_def nth_upd)
    then have "dseg ps' None (fa_head area) zs b (Some q)"
      by (intro dseg_frame [THEN iffD2, OF _ _ zs]) (auto simp: len)
    moreover have "pg_prev (ps' ! q) = b" "pg_next (ps' ! q) = ?n"
      using links [of q] neq q snoc by (auto simp: links_eq_def ps1_def nth_upd)
    ultimately show ?thesis
      using snoc h' a q len by (auto simp: dseg_append)
  qed
  with ys' show ?thesis by (auto simp: dlist_def dseg_append)
qed

end
