(* ===== verification/Pmm_Buddy.thy ===== *)
theory Pmm_Buddy
  imports Pmm_Lists
begin

text \<open>
  Block arithmetic of the buddy system, independent of the page array: a block is a pair of a
  first frame and an order; a set of blocks is well formed when every block is naturally
  aligned, inside the array and disjoint from the others. Splitting a block and merging two
  buddies keep this and the set of frames covered.
\<close>

type_synonym block = "nat \<times> nat"

definition bset :: "block \<Rightarrow> nat set" where
  "bset b = {fst b..<fst b + 2 ^ snd b}"

definition wf_block :: "nat \<Rightarrow> block \<Rightarrow> bool" where
  "wf_block n b \<longleftrightarrow> snd b \<le> PMM_MAX_ORDER \<and> 2 ^ snd b dvd fst b \<and> fst b + 2 ^ snd b \<le> n"

definition wf_blocks :: "nat \<Rightarrow> block set \<Rightarrow> bool" where
  "wf_blocks n Bs \<longleftrightarrow> (\<forall>b \<in> Bs. wf_block n b) \<and>
     (\<forall>b \<in> Bs. \<forall>c \<in> Bs. \<forall>x. x \<in> bset b \<longrightarrow> x \<in> bset c \<longrightarrow> b = c)"

definition cover :: "block set \<Rightarrow> nat set" where
  "cover Bs = (\<Union>b \<in> Bs. bset b)"

lemma bset_head [simp]: "p \<in> bset (p, k)"
  by (simp add: bset_def)

lemma card_bset [simp]: "card (bset (p, k)) = 2 ^ k"
  by (simp add: bset_def)

lemma finite_bset [simp]: "finite (bset b)"
  by (simp add: bset_def)

lemma cover_simps [simp]:
  "cover {} = {}"
  "cover (insert b Bs) = bset b \<union> cover Bs"
  "cover (Bs \<union> Cs) = cover Bs \<union> cover Cs"
  by (auto simp: cover_def)

lemma cover_head: "(p, k) \<in> Bs \<Longrightarrow> p \<in> cover Bs"
  by (force simp: cover_def)

lemma wf_blocks_subset: "wf_blocks n Bs \<Longrightarrow> Cs \<subseteq> Bs \<Longrightarrow> wf_blocks n Cs"
  unfolding wf_blocks_def by blast

lemma wf_blocks_mono: "wf_blocks n Bs \<Longrightarrow> n \<le> m \<Longrightarrow> wf_blocks m Bs"
  unfolding wf_blocks_def wf_block_def by fastforce

lemma wf_blocks_insert:
  "b \<notin> Bs \<Longrightarrow> wf_blocks n (insert b Bs) \<longleftrightarrow> wf_block n b \<and> wf_blocks n Bs \<and> bset b \<inter> cover Bs = {}"
  unfolding wf_blocks_def cover_def by blast

lemma wf_blocks_cover: "wf_blocks n Bs \<Longrightarrow> cover Bs \<subseteq> {..<n}"
  by (force simp: wf_blocks_def wf_block_def cover_def bset_def)

lemma wf_blocks_finite_cover: "wf_blocks n Bs \<Longrightarrow> finite (cover Bs)"
  using wf_blocks_cover finite_subset by blast

lemma wf_blocks_same_head:
  "wf_blocks n Bs \<Longrightarrow> (p, j) \<in> Bs \<Longrightarrow> (p, k) \<in> Bs \<Longrightarrow> j = k"
  unfolding wf_blocks_def using bset_head by blast

lemma wf_blocks_disj_cover:
  assumes "wf_blocks n (Bs \<union> Cs)" "Bs \<inter> Cs = {}"
  shows "cover Bs \<inter> cover Cs = {}"
  using assms unfolding wf_blocks_def cover_def by blast

subsection \<open>Buddies\<close>

lemma buddy_eq:
  assumes "2 ^ k dvd p"
  shows "buddy_pfn p k = (if 2 ^ Suc k dvd p then p + 2 ^ k else p - 2 ^ k)"
proof -
  from assms obtain m where m: "p = 2 ^ k * m" by (elim dvdE)
  have "buddy_pfn p k = push_bit k m XOR push_bit k 1"
    by (simp add: buddy_pfn_def m push_bit_eq_mult mult.commute)
  also have "\<dots> = push_bit k (m XOR 1)"
    by (simp only: push_bit_xor)
  also have "m XOR 1 = (if even m then m + 1 else m - 1)"
    by (simp add: xor_Suc_0_eq)
  finally have "buddy_pfn p k = 2 ^ k * (if even m then m + 1 else m - 1)"
    by (simp add: push_bit_eq_mult mult.commute)
  moreover have "2 ^ Suc k dvd p \<longleftrightarrow> even m"
    by (simp add: m mult.commute [of 2])
  ultimately show ?thesis
    by (auto simp: m algebra_simps)
qed

lemma buddy_cases:
  assumes "2 ^ k dvd p"
  obtains (lower) "2 ^ Suc k dvd p" "buddy_pfn p k = p + 2 ^ k"
  | (upper) "\<not> 2 ^ Suc k dvd p" "2 ^ k \<le> p" "buddy_pfn p k = p - 2 ^ k" "2 ^ Suc k dvd p - 2 ^ k"
proof (cases "2 ^ Suc k dvd p")
  case True
  then show ?thesis using lower buddy_eq [OF assms] by simp
next
  case False
  from assms obtain m where m: "p = 2 ^ k * m" by (elim dvdE)
  with False have "odd m" by (auto simp: mult.commute [of 2])
  then obtain r where r: "m = 2 * r + 1" by (elim oddE)
  have "2 ^ k \<le> p" "p - 2 ^ k = 2 ^ Suc k * r" by (simp_all add: m r algebra_simps)
  then show ?thesis using upper False buddy_eq [OF assms] by simp
qed

lemma buddy_neq: "2 ^ k dvd p \<Longrightarrow> buddy_pfn p k \<noteq> p"
  by (erule buddy_cases) auto

lemma buddy_aligned: "2 ^ k dvd p \<Longrightarrow> 2 ^ k dvd buddy_pfn p k"
  by (erule buddy_cases) (auto simp: dvd_diff_nat)

lemma buddy_involution: "2 ^ k dvd p \<Longrightarrow> buddy_pfn (buddy_pfn p k) k = p"
  by (simp add: buddy_pfn_def xor.assoc)

lemma buddy_merge:
  assumes "2 ^ k dvd p"
  shows "bset (min p (buddy_pfn p k), Suc k) = bset (p, k) \<union> bset (buddy_pfn p k, k)"
    and "bset (p, k) \<inter> bset (buddy_pfn p k, k) = {}"
    and "2 ^ Suc k dvd min p (buddy_pfn p k)"
proof -
  have "bset (min p (buddy_pfn p k), Suc k) = bset (p, k) \<union> bset (buddy_pfn p k, k) \<and>
        bset (p, k) \<inter> bset (buddy_pfn p k, k) = {} \<and> 2 ^ Suc k dvd min p (buddy_pfn p k)"
    using assms
  proof (cases rule: buddy_cases)
    case lower
    then have "min p (buddy_pfn p k) = p" by simp
    with lower show ?thesis by (auto simp: bset_def)
  next
    case upper
    then obtain q where "p = q + 2 ^ k" by (metis le_add_diff_inverse2)
    moreover from this upper have "buddy_pfn p k = q" "min p (buddy_pfn p k) = q" by simp_all
    ultimately show ?thesis using upper by (auto simp: bset_def)
  qed
  then show "bset (min p (buddy_pfn p k), Suc k) = bset (p, k) \<union> bset (buddy_pfn p k, k)"
    "bset (p, k) \<inter> bset (buddy_pfn p k, k) = {}" "2 ^ Suc k dvd min p (buddy_pfn p k)"
    by blast+
qed

lemma min_buddy: "(if buddy_pfn p k < p then buddy_pfn p k else p) = min p (buddy_pfn p k)"
  by (simp add: min_def)

subsection \<open>Splitting and merging\<close>

lemma wf_blocks_split:
  assumes wf: "wf_blocks n (insert (p, Suc k) Bs)" and new: "(p, Suc k) \<notin> Bs"
  shows "wf_blocks n (insert (p, k) (insert (p + 2 ^ k, k) Bs))"
    and "(p, k) \<notin> insert (p + 2 ^ k, k) Bs" and "(p + 2 ^ k, k) \<notin> Bs"
    and "bset (p, Suc k) = bset (p, k) \<union> bset (p + 2 ^ k, k)"
proof -
  have b: "wf_block n (p, Suc k)" "wf_blocks n Bs" "bset (p, Suc k) \<inter> cover Bs = {}"
    using wf new by (simp_all add: wf_blocks_insert)
  show u: "bset (p, Suc k) = bset (p, k) \<union> bset (p + 2 ^ k, k)"
    by (auto simp: bset_def)
  then show n1: "(p + 2 ^ k, k) \<notin> Bs" using b(3) cover_head bset_head by blast
  have "(p, k) \<notin> Bs" using u b(3) cover_head bset_head by blast
  then show n2: "(p, k) \<notin> insert (p + 2 ^ k, k) Bs" by simp
  have d: "2 ^ k dvd p" using b(1) by (auto simp: wf_block_def intro: dvd_mult_right)
  have "wf_block n (p, k)" "wf_block n (p + 2 ^ k, k)"
    using b(1) d by (auto simp: wf_block_def)
  moreover have "bset (p, k) \<inter> bset (p + 2 ^ k, k) = {}" by (auto simp: bset_def)
  ultimately show "wf_blocks n (insert (p, k) (insert (p + 2 ^ k, k) Bs))"
    using b u n1 n2 by (auto simp: wf_blocks_insert)
qed

lemma wf_blocks_merge:
  assumes wf: "wf_blocks n (insert (p, k) (insert (buddy_pfn p k, k) Bs))"
    and new: "(p, k) \<notin> Bs" "(buddy_pfn p k, k) \<notin> Bs" and k: "k < PMM_MAX_ORDER"
  shows "wf_blocks n (insert (min p (buddy_pfn p k), Suc k) Bs)"
    and "(min p (buddy_pfn p k), Suc k) \<notin> Bs"
proof -
  have p: "2 ^ k dvd p" using wf by (auto simp: wf_blocks_def wf_block_def)
  have "(p, k) \<notin> insert (buddy_pfn p k, k) Bs" using buddy_neq [OF p] new by auto
  then have b: "wf_block n (p, k)" "wf_block n (buddy_pfn p k, k)" "wf_blocks n Bs"
    "bset (p, k) \<inter> cover Bs = {}" "bset (buddy_pfn p k, k) \<inter> cover Bs = {}"
    using wf new by (auto simp: wf_blocks_insert)
  then have disj: "bset (min p (buddy_pfn p k), Suc k) \<inter> cover Bs = {}"
    using buddy_merge(1) [OF p] by auto
  then show nb: "(min p (buddy_pfn p k), Suc k) \<notin> Bs"
    using cover_head bset_head by blast
  have "min p (buddy_pfn p k) + 2 ^ Suc k \<le> n"
    using p
  proof (cases rule: buddy_cases)
    case lower
    with b(2) show ?thesis by (simp add: wf_block_def)
  next
    case upper
    with b(1) show ?thesis by (simp add: wf_block_def)
  qed
  then have "wf_block n (min p (buddy_pfn p k), Suc k)"
    using k buddy_merge(3) [OF p] by (simp add: wf_block_def)
  then show "wf_blocks n (insert (min p (buddy_pfn p k), Suc k) Bs)"
    using b(3) disj nb by (simp add: wf_blocks_insert)
qed

text \<open>
  The dyadic fact behind the merge test: if the buddy of a block lies in the covered memory,
  a block of at most the same order starts exactly there. So the flags of a frame inside a
  block, which the allocator leaves stale, are never consulted.
\<close>

lemma aligned_block_head:
  assumes "2 ^ j dvd q" "2 ^ j dvd p" "p \<in> bset (q, j)"
  shows "p = (q :: nat)"
proof -
  from assms(1,2) obtain a b where "q = 2 ^ j * a" "p = 2 ^ j * b" by (elim dvdE)
  with assms(3) have "2 ^ j * a \<le> 2 ^ j * b" "2 ^ j * b < 2 ^ j * Suc a"
    by (auto simp: bset_def)
  then have "a \<le> b" "b < Suc a" by (simp, metis mult_less_cancel1)
  then show ?thesis using \<open>q = 2 ^ j * a\<close> \<open>p = 2 ^ j * b\<close> by simp
qed

lemma large_block_contains:
  assumes "2 ^ j dvd q" "k < j" "x \<in> bset (q, j)" "2 ^ Suc k dvd m" "x \<in> bset (m, Suc k)"
  shows "bset (m, Suc k) \<subseteq> bset (q, j)"
proof -
  from assms(2) have "(2 :: nat) ^ Suc k dvd 2 ^ j" by (intro le_imp_power_dvd) simp
  then obtain d where d: "(2 :: nat) ^ j = 2 ^ Suc k * d" by (elim dvdE)
  from assms(1) obtain a where "q = 2 ^ j * a" by (elim dvdE)
  with d have q: "q = 2 ^ Suc k * (d * a)" by simp
  from assms(4) obtain c where m: "m = 2 ^ Suc k * c" by (elim dvdE)
  have "2 ^ Suc k * (d * a) < 2 ^ Suc k * Suc c" "2 ^ Suc k * c < 2 ^ Suc k * (d * a + d)"
    using assms(3,5) unfolding bset_def q m fst_conv snd_conv d by (auto simp: distrib_left)
  then have "d * a \<le> c" "Suc c \<le> d * a + d" by (simp_all only: mult_less_cancel1) auto
  then have "2 ^ Suc k * (d * a) \<le> 2 ^ Suc k * c" "2 ^ Suc k * Suc c \<le> 2 ^ Suc k * (d * a + d)"
    by (simp_all only: mult_le_mono2)
  then show ?thesis unfolding bset_def q m fst_conv snd_conv d by (auto simp: distrib_left)
qed

lemma buddy_is_head:
  assumes wf: "wf_blocks n Bs" and b: "(p, k) \<in> Bs" and c: "buddy_pfn p k \<in> cover Bs"
  obtains j where "j \<le> k" "(buddy_pfn p k, j) \<in> Bs"
proof -
  let ?b = "buddy_pfn p k"
  from c obtain q j where qj: "(q, j) \<in> Bs" "?b \<in> bset (q, j)" by (auto simp: cover_def)
  have al: "2 ^ k dvd p" "2 ^ j dvd q" using wf b qj by (auto simp: wf_blocks_def wf_block_def)
  have "j \<le> k"
  proof (rule ccontr)
    assume "\<not> j \<le> k"
    then have "bset (min p ?b, Suc k) \<subseteq> bset (q, j)"
      using large_block_contains [OF al(2) _ qj(2) buddy_merge(3) [OF al(1)]]
        buddy_merge(1) [OF al(1)] bset_head by auto
    then have "p \<in> bset (q, j)" using buddy_merge(1) [OF al(1)] bset_head by blast
    moreover have "(q, j) \<noteq> (p, k)" using \<open>\<not> j \<le> k\<close> by auto
    ultimately show False using wf b qj(1) bset_head unfolding wf_blocks_def by blast
  qed
  moreover have "?b = q"
    using aligned_block_head [OF al(2) _ qj(2)] \<open>j \<le> k\<close> buddy_aligned [OF al(1)]
    by (meson dvd_trans le_imp_power_dvd)
  ultimately show thesis using that qj(1) by blast
qed

end
