(* ===== verification/Pmm_Steps.thy ===== *)
theory Pmm_Steps
  imports Pmm_Buddy
begin

text \<open>
  The link invariant of the free lists and what the three list fragments of the allocator
  (\<open>take_block\<close>, \<open>put_block\<close>, \<open>set_head\<close>) do to it. \<open>FL k\<close> is the list of
  block heads that the linked list of order \<open>k\<close> holds.
\<close>

definition flg :: "pmm_state \<Rightarrow> nat \<Rightarrow> u32" where
  "flg s p = pg_flags (pages s ! p)"

definition ord :: "pmm_state \<Rightarrow> nat \<Rightarrow> nat" where
  "ord s p = pg_order (pages s ! p)"

definition is_head :: "pmm_state \<Rightarrow> nat \<Rightarrow> bool" where
  "is_head s p \<longleftrightarrow> flg s p AND PAGE_BUDDY_HEAD \<noteq> 0"

definition links_ok :: "pmm_state \<Rightarrow> (nat \<Rightarrow> nat list) \<Rightarrow> bool" where
  "links_ok s FL \<longleftrightarrow>
     length (free_lists s) = PMM_NUM_ORDERS \<and> length (pages s) = total_pfns s \<and>
     (\<forall>k \<le> PMM_MAX_ORDER. dlist (pages s) (fa_head (free_lists s ! k)) (FL k) \<and> distinct (FL k) \<and>
        fa_count (free_lists s ! k) = of_nat (length (FL k))) \<and>
     (\<forall>k \<le> PMM_MAX_ORDER. \<forall>p \<in> set (FL k). is_head s p \<and> ord s p = k)"

definition free_blocks :: "(nat \<Rightarrow> nat list) \<Rightarrow> block set" where
  "free_blocks FL = {(p, k). k \<le> PMM_MAX_ORDER \<and> p \<in> set (FL k)}"

lemma order_bound [simp]: "k \<le> PMM_MAX_ORDER \<longleftrightarrow> k < PMM_NUM_ORDERS"
  by (auto simp: PMM_MAX_ORDER_def PMM_NUM_ORDERS_def)

lemma orders_pos [simp]: "0 < PMM_NUM_ORDERS"
  by (simp add: PMM_NUM_ORDERS_def)

lemma links_okD:
  assumes "links_ok s FL"
  shows "length (free_lists s) = PMM_NUM_ORDERS" "length (pages s) = total_pfns s"
    "k < PMM_NUM_ORDERS \<Longrightarrow> dlist (pages s) (fa_head (free_lists s ! k)) (FL k)"
    "k < PMM_NUM_ORDERS \<Longrightarrow> distinct (FL k)"
    "k < PMM_NUM_ORDERS \<Longrightarrow> fa_count (free_lists s ! k) = of_nat (length (FL k))"
    "k < PMM_NUM_ORDERS \<Longrightarrow> p \<in> set (FL k) \<Longrightarrow> is_head s p"
    "k < PMM_NUM_ORDERS \<Longrightarrow> p \<in> set (FL k) \<Longrightarrow> ord s p = k"
  using assms by (auto simp: links_ok_def)

lemma links_ok_bound: "links_ok s FL \<Longrightarrow> k < PMM_NUM_ORDERS \<Longrightarrow> p \<in> set (FL k) \<Longrightarrow> p < total_pfns s"
  using dlist_bound links_okD(2,3) by metis

lemma head_word_facts:
  "(f AND NOT PAGE_BUDDY_HEAD) AND PAGE_BUDDY_HEAD = 0"
  "(f AND NOT PAGE_BUDDY_HEAD) AND PAGE_USED = f AND PAGE_USED"
  "(PAGE_FREE OR PAGE_BUDDY_HEAD) AND PAGE_BUDDY_HEAD \<noteq> 0"
  "PAGE_USED AND PAGE_BUDDY_HEAD = 0" "PAGE_USED AND PAGE_USED \<noteq> 0"
  "PAGE_RESERVED AND PAGE_BUDDY_HEAD = 0"
proof -
  show "(f AND NOT PAGE_BUDDY_HEAD) AND PAGE_BUDDY_HEAD = 0"
    by (simp add: and.assoc)
  have "NOT PAGE_BUDDY_HEAD AND PAGE_USED = PAGE_USED"
    by (simp add: PAGE_USED_def PAGE_BUDDY_HEAD_def)
  then show "(f AND NOT PAGE_BUDDY_HEAD) AND PAGE_USED = f AND PAGE_USED"
    by (simp add: and.assoc)
qed (simp_all add: PAGE_FREE_def PAGE_USED_def PAGE_BUDDY_HEAD_def PAGE_RESERVED_def)

lemma page_flags_nonzero [simp]: "PAGE_USED \<noteq> 0" "PAGE_BUDDY_HEAD \<noteq> 0"
  by (simp_all add: PAGE_USED_def PAGE_BUDDY_HEAD_def)

subsection \<open>Setting the head fields of a page\<close>

lemma set_head_sel [simp]:
  "total_pfns (set_head s k p) = total_pfns s" "free_lists (set_head s k p) = free_lists s"
  "free_pages (set_head s k p) = free_pages s" "used_pages (set_head s k p) = used_pages s"
  "reserved_pages (set_head s k p) = reserved_pages s" "peak_used (set_head s k p) = peak_used s"
  "length (pages (set_head s k p)) = length (pages s)"
  by (simp_all add: set_head_def)

lemma set_head_fields:
  assumes "p < length (pages s)"
  shows "flg (set_head s k p) = (flg s)(p := PAGE_FREE OR PAGE_BUDDY_HEAD)"
    and "ord (set_head s k p) = (ord s)(p := k)"
    and "is_head (set_head s k p) = (is_head s)(p := True)"
    and "links_eq (pages (set_head s k p) ! q) (pages s ! q)"
  using assms
  by (auto simp: set_head_def flg_def ord_def is_head_def fun_eq_iff nth_upd links_eq_def
      PAGE_FREE_def PAGE_BUDDY_HEAD_def)

lemma links_ok_change_info:
  assumes "links_ok s FL" "total_pfns s' = total_pfns s" "free_lists s' = free_lists s"
    "length (pages s') = length (pages s)" "\<And>q. links_eq (pages s' ! q) (pages s ! q)"
    "\<And>k q. k < PMM_NUM_ORDERS \<Longrightarrow> q \<in> set (FL k) \<Longrightarrow> flg s' q = flg s q \<and> ord s' q = ord s q"
  shows "links_ok s' FL"
  using assms dlist_frame [of "pages s'" "pages s"]
  by (auto simp: links_ok_def is_head_def)

lemma set_head_links:
  assumes "links_ok s FL" "p < total_pfns s" "\<And>k. k < PMM_NUM_ORDERS \<Longrightarrow> p \<notin> set (FL k)"
  shows "links_ok (set_head s c p) FL"
proof -
  have p: "p < length (pages s)" using assms links_okD(2) by simp
  show ?thesis
    by (rule links_ok_change_info [OF assms(1)])
      (use assms(3) set_head_fields [OF p] in auto)
qed

subsection \<open>Unlinking a free block\<close>

lemma take_block_sel [simp]:
  "total_pfns (take_block s k p) = total_pfns s"
  "free_pages (take_block s k p) = free_pages s" "used_pages (take_block s k p) = used_pages s"
  "reserved_pages (take_block s k p) = reserved_pages s" "peak_used (take_block s k p) = peak_used s"
  "length (pages (take_block s k p)) = length (pages s)"
  "length (free_lists (take_block s k p)) = length (free_lists s)"
  by (auto simp: take_block_def list_remove_info(1) split: prod.splits)

lemma take_block_fields:
  assumes p: "p < length (pages s)"
  shows "flg (take_block s k p) = (flg s)(p := flg s p AND NOT PAGE_BUDDY_HEAD)"
    and "ord (take_block s k p) = ord s"
    and "is_head (take_block s k p) = (is_head s)(p := False)"
proof -
  obtain ps area where r: "list_remove (pages s) (free_lists s ! k) p = (ps, area)" by force
  have i: "info_eq (ps ! q) (pages s ! q)" "length ps = length (pages s)" for q
    using list_remove_info [OF r] by auto
  then show f: "flg (take_block s k p) = (flg s)(p := flg s p AND NOT PAGE_BUDDY_HEAD)"
    and "ord (take_block s k p) = ord s"
    using p by (auto simp: take_block_def r flg_def ord_def info_eq_def nth_upd fun_eq_iff)
  show "is_head (take_block s k p) = (is_head s)(p := False)"
    by (rule ext) (simp add: is_head_def f head_word_facts)
qed

lemma take_block_links:
  assumes l: "links_ok s FL" and k: "k < PMM_NUM_ORDERS" and p: "p \<in> set (FL k)"
  shows "links_ok (take_block s k p) (FL(k := remove1 p (FL k)))"
proof -
  obtain ps area where r: "list_remove (pages s) (free_lists s ! k) p = (ps, area)" by force
  note D = links_okD [OF l]
  obtain xs ys where sp: "FL k = xs @ p # ys" "p \<notin> set xs" using split_list_first [OF p] by blast
  have d: "distinct (xs @ p # ys)" using D(4) [OF k] sp by simp
  have dl: "dlist (pages s) (fa_head (free_lists s ! k)) (xs @ p # ys)" using D(3) [OF k] sp by simp
  have rm: "remove1 p (FL k) = xs @ ys" using sp by (simp add: remove1_append)
  have pb: "p < length (pages s)" using dlist_bound [OF dl] by simp
  let ?s = "take_block s k p"
  have len: "length ps = length (pages s)" using list_remove_info [OF r] by simp
  have pg: "links_eq (pages ?s ! q) (ps ! q)" for q
    using pb len by (simp add: take_block_def r links_eq_def nth_upd)
  have fr: "links_eq (pages ?s ! q) (pages s ! q)" if "q \<notin> set (FL k)" for q
    using list_remove_frame [OF dl d r] pg [of q] that sp by simp
  have lists: "dlist (pages ?s) (fa_head (free_lists ?s ! j)) ((FL(k := remove1 p (FL k))) j) \<and>
      distinct ((FL(k := remove1 p (FL k))) j) \<and>
      fa_count (free_lists ?s ! j) = of_nat (length ((FL(k := remove1 p (FL k))) j))"
    if j: "j < PMM_NUM_ORDERS" for j
  proof (cases "j = k")
    case True
    have "dlist ps (fa_head area) (xs @ ys)" by (rule list_remove_dlist [OF dl d r])
    then have "dlist (pages ?s) (fa_head area) (xs @ ys)"
      using dlist_frame [of "pages ?s" ps] len pg by simp
    moreover have "free_lists ?s ! k = area" using k D(1) by (simp add: take_block_def r)
    moreover have "fa_count area = of_nat (length (xs @ ys))"
      using list_remove_info(3) [OF r] D(5) [OF k] sp by simp
    ultimately show ?thesis using True rm d by simp
  next
    case False
    have "links_eq (pages ?s ! q) (pages s ! q)" if "q \<in> set (FL j)" for q
      using fr [of q] D(7) [OF j that] D(7) [OF k, of q] False by blast
    then have "dlist (pages ?s) (fa_head (free_lists s ! j)) (FL j)"
      using dlist_frame [of "pages ?s" "pages s"] D(3) [OF j] by simp
    then show ?thesis using False D(4,5) [OF j] by (simp add: take_block_def r)
  qed
  have "is_head ?s q \<and> ord ?s q = j"
    if j: "j < PMM_NUM_ORDERS" and q: "q \<in> set ((FL(k := remove1 p (FL k))) j)" for j q
  proof -
    have q': "q \<in> set (FL j)" using q by (auto split: if_splits dest: in_set_remove1 [THEN iffD1, rotated] notin_set_remove1)
    moreover have "q \<noteq> p"
      using q q' D(7) [OF j q'] D(7) [OF k p] d rm by (auto split: if_splits)
    ultimately show ?thesis using D(6,7) [OF j] take_block_fields [OF pb] by auto
  qed
  with lists show ?thesis using D(1,2) by (auto simp: links_ok_def)
qed

subsection \<open>Linking a block\<close>

lemma put_block_sel [simp]:
  "total_pfns (put_block s k p) = total_pfns s"
  "free_pages (put_block s k p) = free_pages s" "used_pages (put_block s k p) = used_pages s"
  "reserved_pages (put_block s k p) = reserved_pages s" "peak_used (put_block s k p) = peak_used s"
  "length (pages (put_block s k p)) = length (pages s)"
  by (auto simp: put_block_def list_add_info(1) split: prod.splits)

lemma put_block_fields:
  "flg (put_block s k p) = flg s" "ord (put_block s k p) = ord s"
  "is_head (put_block s k p) = is_head s"
proof -
  obtain ps area where r: "list_add (pages s) (free_lists s ! k) p = (ps, area)" by force
  have i: "info_eq (ps ! q) (pages s ! q)" for q using list_add_info [OF r] by auto
  then show "flg (put_block s k p) = flg s" "ord (put_block s k p) = ord s"
    "is_head (put_block s k p) = is_head s"
    by (auto simp: put_block_def r flg_def ord_def is_head_def info_eq_def fun_eq_iff)
qed

lemma put_block_links:
  assumes l: "links_ok s FL" and k: "k < PMM_NUM_ORDERS" and p: "p < total_pfns s"
    and new: "\<And>j. j < PMM_NUM_ORDERS \<Longrightarrow> p \<notin> set (FL j)" and h: "is_head s p" "ord s p = k"
  shows "links_ok (put_block s k p) (FL(k := p # FL k))"
proof -
  obtain ps area where r: "list_add (pages s) (free_lists s ! k) p = (ps, area)" by force
  note D = links_okD [OF l]
  have pb: "p < length (pages s)" using p D(2) by simp
  let ?s = "put_block s k p"
  have pg: "pages ?s = ps" by (simp add: put_block_def r)
  have len: "length ps = length (pages s)" using list_add_info [OF r] by simp
  have "dlist ps (fa_head (free_lists ?s ! j)) ((FL(k := p # FL k)) j) \<and>
      distinct ((FL(k := p # FL k)) j) \<and>
      fa_count (free_lists ?s ! j) = of_nat (length ((FL(k := p # FL k)) j))"
    if j: "j < PMM_NUM_ORDERS" for j
  proof (cases "j = k")
    case True
    then show ?thesis
      using list_add_dlist [OF D(3) [OF k] pb new [OF k] D(4) [OF k] r] new [OF k] D(4) [OF k]
        list_add_info(3) [OF r] D(1) D(5) [OF k] k
      by (simp add: put_block_def r)
  next
    case False
    have "links_eq (ps ! q) (pages s ! q)" if q: "q \<in> set (FL j)" for q
    proof -
      have "q \<notin> set (p # FL k)" using new [OF j] q D(7) [OF j q] D(7) [OF k, of q] False by auto
      then have "ps ! q = pages s ! q" by (rule list_add_frame [OF D(3) [OF k] r])
      then show ?thesis by (simp add: links_eq_def)
    qed
    then have "dlist ps (fa_head (free_lists s ! j)) (FL j)"
      using dlist_frame [of ps "pages s"] len D(3) [OF j] by simp
    then show ?thesis using False D(4,5) [OF j] by (simp add: put_block_def r)
  qed
  moreover have "length (free_lists ?s) = PMM_NUM_ORDERS" using D(1) by (simp add: put_block_def r)
  ultimately show ?thesis
    using D(2,6,7) h len by (auto simp: links_ok_def pg put_block_fields)
qed

end
