(* ===== verification/Pmm_Heap.thy ===== *)
theory Pmm_Heap
  imports Pmm_Steps
begin

text \<open>
  The heap predicate of the page allocator. \<open>heap s FL A T M\<close>: the free lists hold
  \<open>FL\<close>, the blocks of \<open>A\<close> are allocated, the blocks of \<open>T\<close> are in transit
  (owned by the running operation), the three kinds are disjoint and aligned and together
  cover exactly the managed frames \<open>M\<close>. One lemma per fragment of the code says which
  block changes its kind. The last part shows that a coalesced set of free blocks is
  determined by the frames it covers.
\<close>

definition heap ::
  "pmm_state \<Rightarrow> (nat \<Rightarrow> nat list) \<Rightarrow> block set \<Rightarrow> block set \<Rightarrow> nat set \<Rightarrow> bool" where
  "heap s FL A T M \<longleftrightarrow>
     links_ok s FL \<and> wf_blocks (total_pfns s) (free_blocks FL \<union> (A \<union> T)) \<and>
     free_blocks FL \<inter> (A \<union> T) = {} \<and> A \<inter> T = {} \<and>
     cover (free_blocks FL \<union> (A \<union> T)) = M \<and>
     (\<forall>p k. (p, k) \<in> A \<longrightarrow> \<not> is_head s p \<and> flg s p AND PAGE_USED \<noteq> 0) \<and>
     (\<forall>p < total_pfns s. p \<notin> M \<longrightarrow> \<not> is_head s p)"

lemma heapD:
  assumes "heap s FL A T M"
  shows "links_ok s FL" "wf_blocks (total_pfns s) (free_blocks FL \<union> (A \<union> T))"
    "free_blocks FL \<inter> (A \<union> T) = {}" "A \<inter> T = {}" "cover (free_blocks FL \<union> (A \<union> T)) = M"
    "(p, k) \<in> A \<Longrightarrow> \<not> is_head s p" "(p, k) \<in> A \<Longrightarrow> flg s p AND PAGE_USED \<noteq> 0"
    "p < total_pfns s \<Longrightarrow> p \<notin> M \<Longrightarrow> \<not> is_head s p"
  using assms by (auto simp: heap_def)

lemma heap_same_head:
  assumes "heap s FL A T M" "(p, j) \<in> free_blocks FL \<union> (A \<union> T)" "(p, k) \<in> free_blocks FL \<union> (A \<union> T)"
  shows "j = k"
  using wf_blocks_same_head [OF heapD(2) [OF assms(1)] assms(2,3)] .

lemma heap_head_bound:
  assumes "heap s FL A T M" "(p, k) \<in> free_blocks FL \<union> (A \<union> T)"
  shows "p < total_pfns s" "k < PMM_NUM_ORDERS" "p \<in> M" "2 ^ k dvd p"
proof -
  have "wf_block (total_pfns s) (p, k)"
    using heapD(2) [OF assms(1)] assms(2) unfolding wf_blocks_def by blast
  then show "p < total_pfns s" "k < PMM_NUM_ORDERS" "2 ^ k dvd p"
    using zero_less_power [of "2 :: nat" k] by (auto simp: wf_block_def intro: less_le_trans [rotated])
  show "p \<in> M" using cover_head [OF assms(2)] unfolding heapD(5) [OF assms(1)] .
qed

lemma heap_not_listed:
  assumes "heap s FL A T M" "(p, k) \<in> A \<union> T" "j < PMM_NUM_ORDERS"
  shows "p \<notin> set (FL j)"
proof
  assume "p \<in> set (FL j)"
  then have f: "(p, j) \<in> free_blocks FL" using assms(3) by (simp add: free_blocks_def)
  then have "j = k" using heap_same_head [OF assms(1), of p j k] assms(2) by blast
  then show False using f assms(2) heapD(3) [OF assms(1)] by blast
qed

lemma heap_alloc_transit_neq:
  assumes "heap s FL A T M" "(p, k) \<in> T" "(q, j) \<in> A"
  shows "p \<noteq> q"
  using heap_same_head [OF assms(1), of p k j] assms heapD(4) [OF assms(1)] by blast

lemma heap_cong:
  assumes "pages s' = pages s" "free_lists s' = free_lists s" "total_pfns s' = total_pfns s"
  shows "heap s' FL A T M = heap s FL A T M"
  using assms by (simp add: heap_def links_ok_def is_head_def flg_def ord_def)

lemma heap_counters [simp]:
  "heap (s\<lparr>free_pages := w\<rparr>) FL A T M = heap s FL A T M"
  "heap (s\<lparr>used_pages := w\<rparr>) FL A T M = heap s FL A T M"
  "heap (s\<lparr>peak_used := w\<rparr>) FL A T M = heap s FL A T M"
  "heap (s\<lparr>reserved_pages := w\<rparr>) FL A T M = heap s FL A T M"
  by (rule heap_cong; simp)+

lemma free_blocks_remove1:
  "distinct (FL k) \<Longrightarrow> free_blocks (FL(k := remove1 p (FL k))) = free_blocks FL - {(p, k)}"
  by (auto simp: free_blocks_def split: if_splits)

lemma free_blocks_Cons:
  "k < PMM_NUM_ORDERS \<Longrightarrow> free_blocks (FL(k := p # FL k)) = insert (p, k) (free_blocks FL)"
  by (auto simp: free_blocks_def split: if_splits)

subsection \<open>What each fragment does to the heap\<close>

lemma heap_take:
  assumes h: "heap s FL A T M" and f: "(p, k) \<in> free_blocks FL"
  shows "heap (take_block s k p) (FL(k := remove1 p (FL k))) A (insert (p, k) T) M"
proof -
  note D = heapD [OF h]
  have k: "k < PMM_NUM_ORDERS" "p \<in> set (FL k)" using f by (auto simp: free_blocks_def)
  have p: "p < total_pfns s" "p \<in> M" "p < length (pages s)"
    using heap_head_bound [OF h, of p k] f links_okD(2) [OF D(1)] by auto
  have fb: "free_blocks (FL(k := remove1 p (FL k))) = free_blocks FL - {(p, k)}"
    using free_blocks_remove1 links_okD(4) [OF D(1) k(1)] .
  have u: "free_blocks FL - {(p, k)} \<union> (A \<union> insert (p, k) T) = free_blocks FL \<union> (A \<union> T)"
    using f by blast
  have "(p, j) \<notin> A" for j using heap_same_head [OF h, of p j k] f D(3) by blast
  moreover have "links_ok (take_block s k p) (FL(k := remove1 p (FL k)))"
    by (rule take_block_links [OF D(1) k])
  ultimately show ?thesis
    unfolding heap_def fb u
    using D(2-) f p(2) take_block_fields [OF p(3)] by auto
qed

lemma heap_put:
  assumes h: "heap s FL A (insert (p, k) T) M" and new: "(p, k) \<notin> T"
    and f: "is_head s p" "ord s p = k"
  shows "heap (put_block s k p) (FL(k := p # FL k)) A T M"
proof -
  note D = heapD [OF h]
  have p: "p < total_pfns s" "k < PMM_NUM_ORDERS" using heap_head_bound [OF h, of p k] by auto
  have fb: "free_blocks (FL(k := p # FL k)) = insert (p, k) (free_blocks FL)"
    by (rule free_blocks_Cons [OF p(2)])
  have u: "insert (p, k) (free_blocks FL) \<union> (A \<union> T) = free_blocks FL \<union> (A \<union> insert (p, k) T)"
    by blast
  have "links_ok (put_block s k p) (FL(k := p # FL k))"
    by (rule put_block_links [OF D(1) p(2,1) heap_not_listed [OF h, of p k] f]) auto
  then show ?thesis
    unfolding heap_def fb u
    using D(2-) new by (auto simp: put_block_fields)
qed

lemma heap_set_head:
  assumes h: "heap s FL A T M" and t: "(p, j) \<in> T"
  shows "heap (set_head s k p) FL A T M"
proof -
  note D = heapD [OF h]
  have p: "p < total_pfns s" "p \<in> M" "p < length (pages s)"
    using heap_head_bound [OF h, of p j] t links_okD(2) [OF D(1)] by auto
  have "links_ok (set_head s k p) FL"
    by (rule set_head_links [OF D(1) p(1) heap_not_listed [OF h, of p j]]) (use t in auto)
  moreover have "(p, i) \<notin> A" for i using heap_alloc_transit_neq [OF h t] by blast
  ultimately show ?thesis
    unfolding heap_def using D(2-) p(2) set_head_fields [OF p(3)] by auto
qed

lemma heap_split:
  assumes h: "heap s FL A (insert (p, Suc k) T) M" and new: "(p, Suc k) \<notin> T"
  shows "heap s FL A (insert (p, k) (insert (p + 2 ^ k, k) T)) M"
    and "(p, k) \<notin> insert (p + 2 ^ k, k) T" and "(p + 2 ^ k, k) \<notin> T"
proof -
  note D = heapD [OF h]
  let ?B = "free_blocks FL \<union> (A \<union> T)"
  have u: "free_blocks FL \<union> (A \<union> insert (p, Suc k) T) = insert (p, Suc k) ?B"
    "free_blocks FL \<union> (A \<union> insert (p, k) (insert (p + 2 ^ k, k) T)) =
     insert (p, k) (insert (p + 2 ^ k, k) ?B)" by blast+
  have n: "(p, Suc k) \<notin> ?B" using new D(3,4) by blast
  note sp = wf_blocks_split [OF D(2) [unfolded u(1)] n]
  from sp(2,3) show "(p, k) \<notin> insert (p + 2 ^ k, k) T" "(p + 2 ^ k, k) \<notin> T" by blast+
  have "cover (insert (p, k) (insert (p + 2 ^ k, k) ?B)) = M"
    using D(5) sp(4) unfolding u(1) by auto
  then show "heap s FL A (insert (p, k) (insert (p + 2 ^ k, k) T)) M"
    unfolding heap_def u(2) using D sp by blast
qed

lemma heap_merge:
  assumes h: "heap s FL A (insert (p, k) (insert (buddy_pfn p k, k) T)) M"
    and new: "(p, k) \<notin> T" "(buddy_pfn p k, k) \<notin> T" and k: "k < PMM_MAX_ORDER"
  shows "heap s FL A (insert (min p (buddy_pfn p k), Suc k) T) M"
    and "(min p (buddy_pfn p k), Suc k) \<notin> T"
proof -
  note D = heapD [OF h]
  let ?m = "(min p (buddy_pfn p k), Suc k)"
  let ?B = "free_blocks FL \<union> (A \<union> T)"
  have u: "free_blocks FL \<union> (A \<union> insert (p, k) (insert (buddy_pfn p k, k) T)) =
     insert (p, k) (insert (buddy_pfn p k, k) ?B)"
    "free_blocks FL \<union> (A \<union> insert ?m T) = insert ?m ?B" by blast+
  have n: "(p, k) \<notin> ?B" "(buddy_pfn p k, k) \<notin> ?B" using new D(3,4) by blast+
  have al: "2 ^ k dvd p" using heap_head_bound(4) [OF h, of p k] by simp
  note mg = wf_blocks_merge [OF D(2) [unfolded u(1)] n k]
  from mg(2) show "?m \<notin> T" by blast
  have "cover (insert ?m ?B) = M"
    using D(5) buddy_merge(1) [OF al] unfolding u(1) by auto
  then show "heap s FL A (insert ?m T) M"
    unfolding heap_def u(2) using D mg by blast
qed

subsection \<open>Coalesced sets of blocks are canonical\<close>

definition coalesced :: "block set \<Rightarrow> bool" where
  "coalesced F \<longleftrightarrow> (\<forall>p k. (p, k) \<in> F \<longrightarrow> k < PMM_MAX_ORDER \<longrightarrow> (buddy_pfn p k, k) \<notin> F)"

lemma coalesced_subset: "coalesced F \<Longrightarrow> G \<subseteq> F \<Longrightarrow> coalesced G"
  unfolding coalesced_def by blast

lemma coalesced_insert:
  assumes "coalesced F" "2 ^ k dvd p" "k = PMM_MAX_ORDER \<or> (buddy_pfn p k, k) \<notin> F"
    "\<And>q j. (q, j) \<in> F \<Longrightarrow> 2 ^ j dvd q"
  shows "coalesced (insert (p, k) F)"
  using assms buddy_involution buddy_neq unfolding coalesced_def by (metis insert_iff less_irrefl prod.inject)

lemma coalesced_contains:
  assumes wf: "wf_blocks n F" and co: "coalesced F" and b: "wf_block n (q, j)"
    and c: "bset (q, j) \<subseteq> cover F"
  obtains p k where "(p, k) \<in> F" "q \<in> bset (p, k)" "j \<le> k"
proof -
  have small: "(p, k) \<in> F \<Longrightarrow> x \<in> bset (p, k) \<Longrightarrow> x \<in> bset (q, j) \<Longrightarrow> \<not> k < j" for p k x
  proof (induction k arbitrary: p x rule: less_induct)
    case (less k)
    show ?case
    proof
      assume kj: "k < j"
      have al: "2 ^ k dvd p" "2 ^ j dvd q" "j \<le> PMM_MAX_ORDER"
        using wf less(2) b by (auto simp: wf_blocks_def wf_block_def)
      let ?b = "buddy_pfn p k"
      have "x \<in> bset (min p ?b, Suc k)" using buddy_merge(1) [OF al(1)] less(3) by blast
      then have sub: "bset (min p ?b, Suc k) \<subseteq> bset (q, j)"
        by (rule large_block_contains [OF al(2) kj less(4) buddy_merge(3) [OF al(1)]])
      then have "?b \<in> bset (q, j)" using buddy_merge(1) [OF al(1)] bset_head by blast
      moreover from this obtain i where i: "i \<le> k" "(?b, i) \<in> F"
        using buddy_is_head [OF wf less(2)] c by blast
      ultimately have "i = k" using less(1) [of i ?b ?b] kj by fastforce
      then show False
        using co less(2) i kj al(3) unfolding coalesced_def by (metis less_le_trans)
    qed
  qed
  have "q \<in> cover F" using c bset_head by blast
  then obtain p k where "(p, k) \<in> F" "q \<in> bset (p, k)" unfolding cover_def by fast
  then show thesis using that small [of p k q] by simp
qed

lemma aligned_inside:
  assumes "2 ^ k dvd p" "2 ^ j dvd q" "j \<le> k" "q \<in> bset (p, k)"
  shows "bset (q, j) \<subseteq> bset (p, (k :: nat))"
proof (cases "j = k")
  case True
  then show ?thesis using aligned_block_head [of k p q] assms by simp
next
  case False
  then obtain i where k: "k = j + Suc i" using assms(3) less_iff_Suc_add by (metis add_Suc_right le_neq_implies_less)
  from assms(1) obtain a where p: "p = 2 ^ k * a" by (elim dvdE)
  from assms(2) obtain c where q: "q = 2 ^ j * c" by (elim dvdE)
  have e: "p = 2 ^ j * (2 ^ Suc i * a)" "p + 2 ^ k = 2 ^ j * (2 ^ Suc i * a + 2 ^ Suc i)"
    by (simp_all add: p k power_add distrib_left)
  have "2 ^ j * (2 ^ Suc i * a) \<le> 2 ^ j * c" "2 ^ j * c < 2 ^ j * (2 ^ Suc i * a + 2 ^ Suc i)"
    using assms(4) e unfolding bset_def by (auto simp: q)
  then have "2 ^ j * Suc c \<le> 2 ^ j * (2 ^ Suc i * a + 2 ^ Suc i)" "p \<le> q"
    using e by (auto simp del: mult_Suc_right power_Suc simp: q)
  then show ?thesis using e by (auto simp: bset_def q)
qed

lemma coalesced_le:
  assumes "wf_blocks n F" "coalesced F" "wf_blocks n G" "coalesced G" "cover F = cover G"
  shows "F \<subseteq> G"
proof
  fix b assume bF: "b \<in> F"
  obtain p k where b: "b = (p, k)" by fastforce
  have wfb: "wf_block n b" if "b \<in> F \<union> G" for b using that assms(1,3) unfolding wf_blocks_def by blast
  have "bset (p, k) \<subseteq> cover G" using bF b assms(5) unfolding cover_def by blast
  then obtain q j where qj: "(q, j) \<in> G" "p \<in> bset (q, j)" "k \<le> j"
    using coalesced_contains [OF assms(3,4)] wfb [of b] bF b by blast
  have "bset (q, j) \<subseteq> cover F" using qj(1) assms(5) unfolding cover_def by blast
  then obtain r i where ri: "(r, i) \<in> F" "q \<in> bset (r, i)" "j \<le> i"
    using coalesced_contains [OF assms(1,2)] wfb [of "(q, j)"] qj(1) by blast
  have "bset (q, j) \<subseteq> bset (r, i)"
    using aligned_inside [OF _ _ ri(3,2)] wfb [of "(r, i)"] wfb [of "(q, j)"] ri(1) qj(1)
    by (simp add: wf_block_def)
  then have "p \<in> bset (r, i)" using qj(2) by blast
  then have "(r, i) = (p, k)" using assms(1) ri(1) bF b bset_head unfolding wf_blocks_def by blast
  then have "k = j" "p = q"
    using qj ri aligned_block_head [of j q p] wfb [of b] wfb [of "(q, j)"] bF b
    by (auto simp: wf_block_def)
  then show "b \<in> G" using b qj(1) by simp
qed

lemma coalesced_unique:
  assumes "wf_blocks n F" "coalesced F" "wf_blocks n G" "coalesced G" "cover F = cover G"
  shows "F = G"
  using coalesced_le [OF assms(1-4)] coalesced_le [OF assms(3,4,1,2)] assms(5) by simp

end
