(* ===== verification/Pmm_Proofs.thy ===== *)
theory Pmm_Proofs
  imports Pmm_Heap
begin

text \<open>
  Correctness of the page allocator. \<open>pmm_inv s F A M\<close> is the invariant: \<open>F\<close> is the
  set of free blocks the linked lists hold, \<open>A\<close> the blocks handed out and not yet freed,
  \<open>M\<close> the frames under management. Allocation moves a block from \<open>F\<close> to \<open>A\<close>,
  freeing moves it back and leaves the free blocks maximally merged, and feeding a region at
  boot adds its frames to \<open>M\<close>.
\<close>

definition pmm_inv :: "pmm_state \<Rightarrow> block set \<Rightarrow> block set \<Rightarrow> nat set \<Rightarrow> bool" where
  "pmm_inv s F A M \<longleftrightarrow>
     (\<exists>FL. heap s FL A {} M \<and> F = free_blocks FL) \<and> coalesced F \<and>
     free_pages s = of_nat (card (cover F)) \<and> used_pages s = of_nat (card (cover A)) \<and>
     total_pfns s \<le> 2 ^ 52"

definition same_misc :: "pmm_state \<Rightarrow> pmm_state \<Rightarrow> bool" where
  "same_misc s t \<longleftrightarrow> total_pfns t = total_pfns s \<and> used_pages t = used_pages s \<and>
     peak_used t = peak_used s \<and> reserved_pages t = reserved_pages s"

subsection \<open>Sizes of covered sets\<close>

lemma card_cover_insert:
  assumes "wf_blocks n (insert (p, k) Bs)" "(p, k) \<notin> Bs"
  shows "card (cover (insert (p, k) Bs)) = 2 ^ k + card (cover Bs)"
proof -
  have "wf_blocks n Bs" "bset (p, k) \<inter> cover Bs = {}" using assms by (auto simp: wf_blocks_insert)
  then show ?thesis by (simp add: card_Un_disjoint wf_blocks_finite_cover [of n])
qed

lemma card_cover_word:
  assumes "wf_blocks n (insert (p, k) Bs)" "(p, k) \<notin> Bs"
  shows "(of_nat (card (cover (insert (p, k) Bs))) :: u64) = of_nat (card (cover Bs)) + pow2 k"
  unfolding card_cover_insert [OF assms] by (simp add: pow2_eq)

lemma heap_wf_free:
  assumes "heap s FL A T M"
  shows "wf_blocks (total_pfns s) (free_blocks FL)" "wf_blocks (total_pfns s) A"
    "wf_blocks (total_pfns s) (T \<union> free_blocks FL)"
  using wf_blocks_subset [OF heapD(2) [OF assms]] by blast+

lemma heap_free_aligned: "heap s FL A T M \<Longrightarrow> (q, j) \<in> free_blocks FL \<Longrightarrow> 2 ^ j dvd q"
  using heap_head_bound(4) by blast

lemma heap_cover_disj:
  assumes "heap s FL A T M"
  shows "cover (free_blocks FL) \<inter> cover A = {}" "cover (free_blocks FL) \<inter> cover T = {}"
    "cover A \<inter> cover T = {}"
proof -
  note D = heapD [OF assms]
  have "cover (free_blocks FL) \<inter> cover (A \<union> T) = {}" by (rule wf_blocks_disj_cover [OF D(2,3)])
  moreover have "cover A \<inter> cover T = {}"
    by (rule wf_blocks_disj_cover [OF wf_blocks_subset [OF D(2)] D(4)]) blast
  ultimately show "cover (free_blocks FL) \<inter> cover A = {}" "cover (free_blocks FL) \<inter> cover T = {}"
    "cover A \<inter> cover T = {}" by auto
qed

lemma heap_cover_free:
  assumes "heap s FL A T M"
  shows "cover (free_blocks FL) = M - cover A - cover T"
  using heap_cover_disj [OF assms] heapD(5) [OF assms] by auto

subsection \<open>The splitting loop\<close>

lemma split_step:
  assumes h: "heap s FL A {(b, Suc c)} M" and co: "coalesced (free_blocks FL)"
    and n: "free_pages s = of_nat (card (cover (free_blocks FL)))"
  defines "q \<equiv> b + 2 ^ c"
  defines "t \<equiv> put_block (set_head s c q) c q"
  shows "q < total_pfns s" "heap (t\<lparr>free_pages := free_pages t + pow2 c\<rparr>) (FL(c := q # FL c)) A {(b, c)} M"
    "coalesced (free_blocks (FL(c := q # FL c)))"
    "free_pages t + pow2 c = of_nat (card (cover (free_blocks (FL(c := q # FL c)))))"
proof -
  have al: "2 ^ Suc c dvd b" using heap_head_bound(4) [OF h, of b "Suc c"] by simp
  have h1: "heap s FL A {(b, c), (q, c)} M" and ne: "(b, c) \<noteq> (q, c)"
    using heap_split [of s FL A b c "{}" M] h by (auto simp: q_def)
  show q: "q < total_pfns s" using heap_head_bound(1) [OF h1, of q c] by simp
  have c: "c < PMM_NUM_ORDERS" using heap_head_bound(2) [OF h1, of q c] by simp
  have h2: "heap (set_head s c q) FL A (insert (q, c) {(b, c)}) M"
    using heap_set_head [OF h1, of q c c] by (simp add: insert_commute)
  have "q < length (pages s)" using q links_okD(2) [OF heapD(1) [OF h]] by simp
  then have f: "is_head (set_head s c q) q" "ord (set_head s c q) q = c"
    by (simp_all add: set_head_fields)
  have h3: "heap t (FL(c := q # FL c)) A {(b, c)} M"
    unfolding t_def by (rule heap_put [OF h2 _ f]) (use ne in auto)
  then show "heap (t\<lparr>free_pages := free_pages t + pow2 c\<rparr>) (FL(c := q # FL c)) A {(b, c)} M" by simp
  have bud: "buddy_pfn q c = b"
    using buddy_involution [of c b] buddy_eq [of c b] al by (simp add: q_def dvd_mult_right)
  have fb: "free_blocks (FL(c := q # FL c)) = insert (q, c) (free_blocks FL)"
    by (rule free_blocks_Cons [OF c])
  have nf: "(b, c) \<notin> free_blocks FL" "(q, c) \<notin> free_blocks FL" using heapD(3) [OF h1] by auto
  have "2 ^ c dvd q" using al by (simp add: q_def dvd_mult_right)
  then show "coalesced (free_blocks (FL(c := q # FL c)))"
    unfolding fb using co nf bud by (intro coalesced_insert) (auto dest: heap_free_aligned [OF h])
  show "free_pages t + pow2 c = of_nat (card (cover (free_blocks (FL(c := q # FL c)))))"
    unfolding fb using n card_cover_word [OF _ nf(2)] heap_wf_free(1) [OF h3] fb
    by (simp add: t_def)
qed

lemma split_loop_heap:
  assumes "heap s FL A {(b, c)} M" "coalesced (free_blocks FL)"
    "free_pages s = of_nat (card (cover (free_blocks FL)))" "order \<le> c"
  shows "\<exists>t FL'. split_loop s b c order = Inr t \<and> heap t FL' A {(b, order)} M \<and>
    coalesced (free_blocks FL') \<and> free_pages t = of_nat (card (cover (free_blocks FL'))) \<and>
    same_misc s t"
  using assms
proof (induction c arbitrary: s FL)
  case 0
  then show ?case by (auto simp: same_misc_def)
next
  case (Suc c)
  show ?case
  proof (cases "order = Suc c")
    case True
    then show ?thesis using Suc.prems by (auto simp: same_misc_def)
  next
    case False
    let ?q = "b + 2 ^ c"
    let ?t = "put_block (set_head s c ?q) c ?q"
    note st = split_step [OF Suc.prems(1-3)]
    have fp: "free_pages (?t\<lparr>free_pages := free_pages ?t + pow2 c\<rparr>) =
        of_nat (card (cover (free_blocks (FL(c := ?q # FL c)))))"
      using st(4) by simp
    have "order \<le> c" using False Suc.prems(4) by simp
    from Suc.IH [OF st(2,3) fp this]
    obtain t FL' where "split_loop (?t\<lparr>free_pages := free_pages ?t + pow2 c\<rparr>) b c order = Inr t"
      "heap t FL' A {(b, order)} M" "coalesced (free_blocks FL')"
      "free_pages t = of_nat (card (cover (free_blocks FL')))"
      "same_misc (?t\<lparr>free_pages := free_pages ?t + pow2 c\<rparr>) t"
      by blast
    then show ?thesis
      using st(1) False Suc.prems(4) by (auto simp: Let_def same_misc_def)
  qed
qed

subsection \<open>The coalescing loop\<close>

lemma is_buddy_free_iff:
  assumes h: "heap s FL A {(p, k)} M"
  shows "is_buddy_free s (buddy_pfn p k) k \<longleftrightarrow> (buddy_pfn p k, k) \<in> free_blocks FL"
proof
  let ?b = "buddy_pfn p k"
  note D = heapD [OF h]
  have al: "2 ^ k dvd p" using heap_head_bound(4) [OF h, of p k] by simp
  show "is_buddy_free s ?b k" if "(?b, k) \<in> free_blocks FL"
    using that heap_head_bound(1) [OF h, of ?b k] links_okD(6,7) [OF D(1), of k ?b]
    by (auto simp: is_buddy_free_def free_blocks_def is_head_def flg_def ord_def)
  assume "is_buddy_free s ?b k"
  then have b: "?b < total_pfns s" "is_head s ?b" "ord s ?b = k"
    by (auto simp: is_buddy_free_def is_head_def flg_def ord_def split: if_splits)
  then have "?b \<in> cover (free_blocks FL \<union> (A \<union> {(p, k)}))" using D(5,8) by blast
  then obtain j where j: "(?b, j) \<in> free_blocks FL \<union> (A \<union> {(p, k)})"
    using buddy_is_head [OF D(2)] by blast
  then have f: "(?b, j) \<in> free_blocks FL" using D(6) b(2) buddy_neq [OF al] by auto
  then have "j = k" using links_okD(7) [OF D(1)] b(3) by (auto simp: free_blocks_def)
  then show "(?b, k) \<in> free_blocks FL" using f by simp
qed

lemma merge_step:
  assumes h: "heap s FL A {(p, k)} M" and f: "(buddy_pfn p k, k) \<in> free_blocks FL"
    and k: "k < PMM_MAX_ORDER"
  defines "t \<equiv> set_head (take_block s k (buddy_pfn p k)) (Suc k) (min p (buddy_pfn p k))"
  defines "FL' \<equiv> FL(k := remove1 (buddy_pfn p k) (FL k))"
  shows "heap t FL' A {(min p (buddy_pfn p k), Suc k)} M" "free_blocks FL' \<subseteq> free_blocks FL"
    "is_head t (min p (buddy_pfn p k))" "ord t (min p (buddy_pfn p k)) = Suc k" "same_misc s t"
    "free_pages t = free_pages s"
proof -
  let ?b = "buddy_pfn p k"
  have al: "2 ^ k dvd p" using heap_head_bound(4) [OF h, of p k] by simp
  have "heap (take_block s k ?b) FL' A {(p, k), (?b, k)} M"
    using heap_take [OF h f] by (simp add: FL'_def insert_commute)
  then have h1: "heap (take_block s k ?b) FL' A {(min p ?b, Suc k)} M"
    using heap_merge(1) [of _ FL' A p k "{}" M] k by simp
  then show "heap t FL' A {(min p ?b, Suc k)} M"
    unfolding t_def by (rule heap_set_head) simp
  show "free_blocks FL' \<subseteq> free_blocks FL"
    using f links_okD(4) [OF heapD(1) [OF h]] by (auto simp: FL'_def free_blocks_remove1 free_blocks_def)
  have "min p ?b < length (pages (take_block s k ?b))"
    using heap_head_bound(1) [OF h1, of "min p ?b" "Suc k"] links_okD(2) [OF heapD(1) [OF h1]] by simp
  then show "is_head t (min p ?b)" "ord t (min p ?b) = Suc k"
    by (simp_all add: t_def set_head_fields)
  show "same_misc s t" "free_pages t = free_pages s" by (simp_all add: t_def same_misc_def)
qed

lemma coalesce_loop_heap:
  assumes "heap s FL A {(p, k)} M" "coalesced (free_blocks FL)" "is_head s p" "ord s p = k"
  shows "\<exists>t p' k' FL'. coalesce_loop s p k = (t, p', k') \<and> heap t FL' A {(p', k')} M \<and>
    coalesced (free_blocks FL') \<and> is_head t p' \<and> ord t p' = k' \<and>
    (k' = PMM_MAX_ORDER \<or> (buddy_pfn p' k', k') \<notin> free_blocks FL') \<and>
    same_misc s t \<and> free_pages t = free_pages s"
  using assms
proof (induction s p k arbitrary: FL rule: coalesce_loop.induct)
  case (1 s p k)
  let ?b = "buddy_pfn p k"
  have kb: "k \<le> PMM_MAX_ORDER" using heap_head_bound(2) [OF 1(2), of p k] by simp
  show ?case
  proof (cases "k < PMM_MAX_ORDER \<and> (?b, k) \<in> free_blocks FL")
    case False
    then show ?thesis
      using 1(2-) kb is_buddy_free_iff [OF 1(2)]
      by (auto simp: coalesce_loop.simps [of s p k] same_misc_def le_less)
  next
    case True
    let ?s1 = "take_block s k ?b"
    have free: "is_buddy_free s ?b k" using is_buddy_free_iff [OF 1(2)] True by simp
    note st = merge_step [OF 1(2) conjunct2 [OF True] conjunct1 [OF True]]
    note co = coalesced_subset [OF 1(3) st(2)]
    have eq: "coalesce_loop s p k = coalesce_loop (set_head ?s1 (Suc k) (min p ?b)) (min p ?b) (Suc k)"
      using True free by (subst coalesce_loop.simps) (simp add: Let_def min_buddy)
    show ?thesis
      using 1(1) [OF _ refl _ refl refl] True free st(1,3-) co unfolding eq min_buddy
      by (auto simp: same_misc_def)
  qed
qed

subsection \<open>Frame numbers and addresses\<close>

lemma pfn_to_phys_facts:
  assumes "n < 2 ^ 52"
  shows "phys_to_pfn (pfn_to_phys n) = n" "pfn_to_phys n AND (PAGE_SIZE - 1) = 0"
    "pfn_to_phys n = 0 \<longleftrightarrow> n = 0"
proof -
  have u: "unat (pfn_to_phys n) = n * 2 ^ 12"
    using assms by (simp add: pfn_to_phys_def push_bit_eq_mult unat_word_ariths unat_of_nat_u64)
  then show "phys_to_pfn (pfn_to_phys n) = n"
    by (simp add: phys_to_pfn_def drop_bit_eq_div unat_div_distrib)
  show "pfn_to_phys n = 0 \<longleftrightarrow> n = 0" using u by (simp add: unat_eq_0 [symmetric])
  have m: "(PAGE_SIZE - 1 :: u64) = mask 12" by (simp add: PAGE_SIZE_def mask_eq_exp_minus_1)
  show "pfn_to_phys n AND (PAGE_SIZE - 1) = 0"
    by (rule bit_word_eqI) (simp add: m bit_and_iff bit_mask_iff pfn_to_phys_def bit_push_bit_iff)
qed

subsection \<open>Allocation\<close>

lemma find_order_spec:
  assumes "c \<le> Suc PMM_MAX_ORDER"
  shows "c \<le> find_order s c \<and> find_order s c \<le> Suc PMM_MAX_ORDER \<and>
    (\<forall>j. c \<le> j \<longrightarrow> j < find_order s c \<longrightarrow> fa_head (free_lists s ! j) = None) \<and>
    (find_order s c \<le> PMM_MAX_ORDER \<longrightarrow> fa_head (free_lists s ! find_order s c) \<noteq> None)"
  using assms
proof (induction s c rule: find_order.induct)
  case (1 s c)
  have e: "find_order s c = (if c \<le> PMM_MAX_ORDER then
        (if fa_head (free_lists s ! c) \<noteq> None then c else find_order s (c + 1)) else c)"
    by (rule find_order.simps)
  show ?case
  proof (cases "c \<le> PMM_MAX_ORDER \<and> fa_head (free_lists s ! c) = None")
    case True
    then have ih: "Suc c \<le> find_order s (Suc c) \<and> find_order s (Suc c) \<le> Suc PMM_MAX_ORDER \<and>
      (\<forall>j. Suc c \<le> j \<longrightarrow> j < find_order s (Suc c) \<longrightarrow> fa_head (free_lists s ! j) = None) \<and>
      (find_order s (Suc c) \<le> PMM_MAX_ORDER \<longrightarrow> fa_head (free_lists s ! find_order s (Suc c)) \<noteq> None)"
      using 1(1) by (simp del: order_bound)
    have eq: "find_order s c = find_order s (Suc c)" using e True by simp
    have "fa_head (free_lists s ! j) = None" if "c \<le> j" "j < find_order s (Suc c)" for j
      using that ih True by (cases "j = c") auto
    then show ?thesis using ih unfolding eq by auto
  next
    case False
    then have "find_order s c = c" using e by auto
    then show ?thesis using 1(2) False by auto
  qed
qed

lemma head_free_block:
  assumes "links_ok s FL" "k < PMM_NUM_ORDERS"
  shows "fa_head (free_lists s ! k) = None \<longleftrightarrow> (\<forall>p. (p, k) \<notin> free_blocks FL)"
    "fa_head (free_lists s ! k) = Some b \<Longrightarrow> (b, k) \<in> free_blocks FL"
  using dlist_head [OF links_okD(3) [OF assms]] assms(2)
  by (auto simp: free_blocks_def split: if_splits)

lemma heap_allocate:
  assumes h: "heap s FL A {(b, k)} M"
    and t: "pages t = (pages s)[b := (pages s ! b)\<lparr>pg_order := k, pg_flags := PAGE_USED, ref_count := 1\<rparr>]"
    "free_lists t = free_lists s" "total_pfns t = total_pfns s"
  shows "heap t FL (insert (b, k) A) {} M"
proof -
  note D = heapD [OF h]
  have b: "b < total_pfns s" "b \<in> M" "b < length (pages s)"
    using heap_head_bound [OF h, of b k] links_okD(2) [OF D(1)] by auto
  have fl: "flg t = (flg s)(b := PAGE_USED)" "ord t = (ord s)(b := k)"
    "\<And>q. links_eq (pages t ! q) (pages s ! q)"
    using b(3) by (auto simp: t flg_def ord_def fun_eq_iff nth_upd links_eq_def)
  have hd: "is_head t = (is_head s)(b := False)"
    by (rule ext) (simp add: is_head_def fl head_word_facts)
  have "b \<notin> set (FL j)" if "j < PMM_NUM_ORDERS" for j using heap_not_listed [OF h _ that] by blast
  then have "links_ok t FL"
    by (intro links_ok_change_info [OF D(1) t(3,2) _ fl(3)]) (auto simp: t(1) fl(1,2))
  moreover have "free_blocks FL \<union> (insert (b, k) A \<union> {}) = free_blocks FL \<union> (A \<union> {(b, k)})" by blast
  ultimately show ?thesis
    unfolding heap_def using D(2-) b(2) by (auto simp: hd fl t(3) head_word_facts)
qed

lemma pmm_inv_word_count:
  assumes "pmm_inv s F A M"
  shows "unat (free_pages s) = card (cover F)" "unat (used_pages s) = card (cover A)"
proof -
  from assms obtain FL where h: "heap s FL A {} M" "F = free_blocks FL" and n: "total_pfns s \<le> 2 ^ 52"
    by (auto simp: pmm_inv_def)
  have "card (cover F) \<le> total_pfns s" "card (cover A) \<le> total_pfns s"
    using wf_blocks_cover heap_wf_free(1,2) [OF h(1)] h(2) card_mono [of "{..<total_pfns s}"] by fastforce+
  then have "card (cover F) < 2 ^ 64" "card (cover A) < 2 ^ 64" using n by simp_all
  then show "unat (free_pages s) = card (cover F)" "unat (used_pages s) = card (cover A)"
    using assms by (simp_all add: pmm_inv_def unat_of_nat_u64)
qed

lemma pmm_alloc_steps:
  assumes inv: "pmm_inv s F A M" and o: "order \<le> PMM_MAX_ORDER" and ex: "(q, j) \<in> F" "order \<le> j"
  obtains t b c F' where "pmm_alloc_pages s order = Inr (t, pfn_to_phys b)"
    "pmm_inv t F' (insert (b, order) A) M" "(b, c) \<in> F" "order \<le> c"
    "\<And>p i. (p, i) \<in> F \<Longrightarrow> order \<le> i \<Longrightarrow> c \<le> i" "(b, order) \<notin> A"
    "total_pfns t = total_pfns s" "ref_count (pages t ! b) = 1"
proof -
  from inv obtain FL where h: "heap s FL A {} M" and F: "F = free_blocks FL" and co: "coalesced F"
    and n: "free_pages s = of_nat (card (cover F))" "used_pages s = of_nat (card (cover A))"
      "total_pfns s \<le> 2 ^ 52"
    by (auto simp: pmm_inv_def)
  note D = heapD [OF h]
  define c where "c = find_order s order"
  have fo: "order \<le> c" "\<forall>i. order \<le> i \<longrightarrow> i < c \<longrightarrow> fa_head (free_lists s ! i) = None"
    "c \<le> PMM_MAX_ORDER \<longrightarrow> fa_head (free_lists s ! c) \<noteq> None"
    using find_order_spec [of order s] o by (auto simp: c_def)
  have least: "c \<le> i" if "(p, i) \<in> F" "order \<le> i" for p i
  proof (rule ccontr)
    assume "\<not> c \<le> i"
    then have "fa_head (free_lists s ! i) = None" using fo(2) that by simp
    moreover have "i < PMM_NUM_ORDERS" using that F by (simp add: free_blocks_def)
    ultimately show False using head_free_block(1) [OF D(1)] that F by blast
  qed
  have c: "c < PMM_NUM_ORDERS" using least [OF ex] ex(1) F by (auto simp: free_blocks_def)
  then have cm: "\<not> PMM_MAX_ORDER < c" by (simp add: PMM_MAX_ORDER_def PMM_NUM_ORDERS_def)
  obtain b where b: "fa_head (free_lists s ! c) = Some b" using fo(3) c by auto
  then have bF: "(b, c) \<in> free_blocks FL" by (rule head_free_block(2) [OF D(1) c])
  let ?FL = "FL(c := remove1 b (FL c))"
  let ?s1 = "take_block s c b"
  let ?s2 = "?s1\<lparr>free_pages := free_pages ?s1 - pow2 c\<rparr>"
  have h1: "heap ?s2 ?FL A {(b, c)} M" using heap_take [OF h bF] by simp
  have fb: "free_blocks ?FL = F - {(b, c)}" and ins: "insert (b, c) (free_blocks ?FL) = F"
    using bF links_okD(4) [OF D(1) c] by (auto simp: free_blocks_remove1 F)
  have co1: "coalesced (free_blocks ?FL)" by (rule coalesced_subset [OF co]) (simp add: fb)
  have "(of_nat (card (cover F)) :: u64) = of_nat (card (cover (free_blocks ?FL))) + pow2 c"
    using card_cover_word [of "total_pfns s" b c "free_blocks ?FL"] heap_wf_free(1) [OF h]
    unfolding ins F [symmetric] by (simp add: fb)
  then have n1: "free_pages ?s2 = of_nat (card (cover (free_blocks ?FL)))" by (simp add: n(1))
  obtain s3 FL' where s3: "split_loop ?s2 b c order = Inr s3" "heap s3 FL' A {(b, order)} M"
      "coalesced (free_blocks FL')" "free_pages s3 = of_nat (card (cover (free_blocks FL')))"
      "same_misc ?s2 s3"
    using split_loop_heap [OF h1 co1 n1 fo(1)] by blast
  let ?s4 = "s3\<lparr>pages := (pages s3)[b := (pages s3 ! b)
                 \<lparr>pg_order := order, pg_flags := PAGE_USED, ref_count := 1\<rparr>],
               used_pages := used_pages s3 + pow2 order\<rparr>"
  define s5 where "s5 = (if peak_used ?s4 < used_pages ?s4 then ?s4\<lparr>peak_used := used_pages ?s4\<rparr> else ?s4)"
  have run: "pmm_alloc_pages s order = Inr (s5, pfn_to_phys b)"
    using o cm s3(1) by (simp add: pmm_alloc_pages_def Let_def c_def [symmetric] b s5_def)
  have f5: "pages s5 = pages ?s4" "free_lists s5 = free_lists s3" "total_pfns s5 = total_pfns s3"
    "free_pages s5 = free_pages s3" "used_pages s5 = used_pages s3 + pow2 order"
    by (simp_all add: s5_def)
  have h5: "heap s5 FL' (insert (b, order) A) {} M"
    by (rule heap_allocate [OF s3(2) _ f5(2,3)]) (simp add: f5(1))
  have nA: "(b, order) \<notin> A" using heapD(4) [OF s3(2)] by blast
  have "pmm_inv s5 (free_blocks FL') (insert (b, order) A) M"
    unfolding pmm_inv_def
    using h5 s3(3-5) n(2,3) card_cover_word [OF heap_wf_free(2) [OF h5] nA]
    by (auto simp: same_misc_def f5)
  moreover have "b < length (pages s3)"
    using heap_head_bound(1) [OF s3(2), of b order] links_okD(2) [OF heapD(1) [OF s3(2)]] by simp
  ultimately show thesis
    using that [OF run _ bF [folded F] fo(1) least nA] s3(5) by (auto simp: same_misc_def f5)
qed

subsection \<open>Freeing\<close>

lemma heap_ref_count:
  assumes h: "heap s FL A T M"
  shows "heap (s\<lparr>pages := (pages s)[p := (pages s ! p)\<lparr>ref_count := r\<rparr>]\<rparr>) FL A T M" (is "heap ?t _ _ _ _")
    and "is_head (s\<lparr>pages := (pages s)[p := (pages s ! p)\<lparr>ref_count := r\<rparr>]\<rparr>) = is_head s"
    and "ord (s\<lparr>pages := (pages s)[p := (pages s ! p)\<lparr>ref_count := r\<rparr>]\<rparr>) = ord s"
proof -
  have f: "flg ?t = flg s" "\<And>q. links_eq (pages ?t ! q) (pages s ! q)"
    by (auto simp: flg_def links_eq_def nth_upd fun_eq_iff)
  show o: "ord ?t = ord s" by (auto simp: ord_def nth_upd fun_eq_iff)
  show i: "is_head ?t = is_head s" by (rule ext) (simp add: is_head_def f)
  have "links_ok ?t FL"
    by (rule links_ok_change_info [OF heapD(1) [OF h] _ _ _ f(2)]) (simp_all only: f o, simp_all)
  then show "heap ?t FL A T M"
    unfolding heap_def i f(1) using h by (simp add: heap_def)
qed

lemma heap_release:
  assumes "heap s FL A {} M" "(p, k) \<in> A"
  shows "heap s FL (A - {(p, k)}) {(p, k)} M"
proof -
  have "A - {(p, k)} \<union> {(p, k)} = A \<union> {}" using assms(2) by blast
  then show ?thesis using assms unfolding heap_def by auto
qed

lemma free_front:
  assumes h: "heap s FL A {} M" and a: "(p, k) \<in> A"
  defines "s1 \<equiv> set_head s k p"
  defines "s2 \<equiv> s1\<lparr>pages := (pages s1)[p := (pages s1 ! p)\<lparr>ref_count := 0\<rparr>],
      free_pages := free_pages s1 + pow2 k, used_pages := used_pages s1 - pow2 k\<rparr>"
  shows "heap s2 FL (A - {(p, k)}) {(p, k)} M" "is_head s2 p" "ord s2 p = k"
    "free_pages s2 = free_pages s + pow2 k" "used_pages s2 = used_pages s - pow2 k"
    "total_pfns s2 = total_pfns s"
proof -
  have p: "p < length (pages s)"
    using heap_head_bound(1) [OF h, of p k] links_okD(2) [OF heapD(1) [OF h]] a by auto
  have h1: "heap s1 FL (A - {(p, k)}) {(p, k)} M"
    unfolding s1_def by (rule heap_set_head [OF heap_release [OF h a], of p k]) simp
  note r = heap_ref_count [OF h1, of p 0]
  show "heap s2 FL (A - {(p, k)}) {(p, k)} M" using r(1) by (simp add: s2_def)
  have "is_head s1 p" "ord s1 p = k" using set_head_fields [OF p] by (simp_all add: s1_def)
  then show "is_head s2 p" "ord s2 p = k"
    using r(2,3) by (simp_all add: s2_def is_head_def ord_def flg_def fun_eq_iff)
  show "free_pages s2 = free_pages s + pow2 k" "used_pages s2 = used_pages s - pow2 k"
    "total_pfns s2 = total_pfns s" by (simp_all add: s2_def s1_def)
qed

lemma pmm_free_steps:
  assumes inv: "pmm_inv s F A M" and a: "(p, k) \<in> A"
  obtains t F' where "pmm_free_pages s (pfn_to_phys p) k = Inr t" "pmm_inv t F' (A - {(p, k)}) M"
    "cover F' = cover F \<union> bset (p, k)" "total_pfns t = total_pfns s"
proof -
  from inv obtain FL where h: "heap s FL A {} M" and F: "F = free_blocks FL" and co: "coalesced F"
    and n: "free_pages s = of_nat (card (cover F))" "used_pages s = of_nat (card (cover A))"
      "total_pfns s \<le> 2 ^ 52"
    by (auto simp: pmm_inv_def)
  have p: "p < total_pfns s" "k < PMM_NUM_ORDERS" using heap_head_bound [OF h, of p k] a by auto
  have ph: "phys_to_pfn (pfn_to_phys p) = p" "pfn_to_phys p AND (PAGE_SIZE - 1) = 0"
    using pfn_to_phys_facts [of p] p n(3) by simp_all
  have used: "pg_flags (pages s ! p) AND PAGE_USED \<noteq> 0" using heapD(7) [OF h a] by (simp add: flg_def)
  let ?s1 = "set_head s k p"
  define s2 where "s2 = ?s1\<lparr>pages := (pages ?s1)[p := (pages ?s1 ! p)\<lparr>ref_count := 0\<rparr>],
      free_pages := free_pages ?s1 + pow2 k, used_pages := used_pages ?s1 - pow2 k\<rparr>"
  note ff = free_front [OF h a, folded s2_def]
  obtain s3 p' k' FL' where s3: "coalesce_loop s2 p k = (s3, p', k')"
    "heap s3 FL' (A - {(p, k)}) {(p', k')} M" "coalesced (free_blocks FL')" "is_head s3 p'" "ord s3 p' = k'"
    "k' = PMM_MAX_ORDER \<or> (buddy_pfn p' k', k') \<notin> free_blocks FL'" "same_misc s2 s3"
    "free_pages s3 = free_pages s2"
    using coalesce_loop_heap [OF ff(1) co [unfolded F] ff(2,3)] by blast
  let ?t = "put_block s3 k' p'" and ?FL = "FL'(k' := p' # FL' k')"
  have k': "k' < PMM_NUM_ORDERS" and al: "2 ^ k' dvd p'" using heap_head_bound [OF s3(2), of p' k'] by auto
  have h4: "heap ?t ?FL (A - {(p, k)}) {} M" by (rule heap_put [OF s3(2) _ s3(4,5)]) simp
  have fb: "free_blocks ?FL = insert (p', k') (free_blocks FL')" by (rule free_blocks_Cons [OF k'])
  have co4: "coalesced (free_blocks ?FL)"
    unfolding fb by (rule coalesced_insert [OF s3(3) al s3(6)]) (rule heap_free_aligned [OF s3(2)])
  have run: "pmm_free_pages s (pfn_to_phys p) k = Inr ?t"
    using p used ph s3(1) by (simp add: pmm_free_pages_def Let_def s2_def)
  have cv: "cover (free_blocks ?FL) = cover F \<union> bset (p, k)"
  proof -
    have "cover A = bset (p, k) \<union> cover (A - {(p, k)})" using a by (auto simp: cover_def)
    moreover have "bset (p, k) \<inter> cover (A - {(p, k)}) = {}" using heap_cover_disj(3) [OF ff(1)] by auto
    moreover have "cover A \<subseteq> M" using heapD(5) [OF h] by auto
    ultimately show ?thesis
      unfolding heap_cover_free [OF h4] F heap_cover_free [OF h] by auto
  qed
  have dF: "bset (p, k) \<inter> cover F = {}" "finite (cover F)"
    using heap_cover_disj(2) [OF ff(1)] wf_blocks_finite_cover [OF heap_wf_free(1) [OF h]] by (auto simp: F)
  have "(of_nat (card (cover (free_blocks ?FL))) :: u64) = of_nat (card (cover F)) + pow2 k"
    unfolding cv using dF by (simp add: card_Un_disjoint Int_commute pow2_eq)
  moreover have "(of_nat (card (cover A)) :: u64) = of_nat (card (cover (A - {(p, k)}))) + pow2 k"
    using card_cover_word [of "total_pfns s" p k "A - {(p, k)}"] heap_wf_free(2) [OF h] a
    by (simp add: insert_absorb del: cover_simps)
  ultimately have "pmm_inv ?t (free_blocks ?FL) (A - {(p, k)}) M"
    unfolding pmm_inv_def using h4 co4 s3(7,8) ff(4-6) n by (auto simp: same_misc_def simp del: cover_simps)
  then show thesis using that [OF run _ cv] s3(7) ff(6) by (simp add: same_misc_def)
qed

end
