(* ===== verification/Pmm_Init.thy ===== *)
theory Pmm_Init
  imports Pmm_Proofs
begin

text \<open>
  Boot of the page allocator: feeding a region of frames cuts it into aligned blocks and frees
  each of them, and \<open>pmm_init\<close> feeds every usable entry of the boot loader's memory map
  except the pages that hold the page array itself.
\<close>

lemma and_low_bits_dvd: "(m :: nat) AND (2 ^ k - 1) = 0 \<longleftrightarrow> 2 ^ k dvd m"
  unfolding mask_eq_exp_minus_1 [symmetric] take_bit_eq_mask [symmetric] take_bit_eq_mod
  by (rule dvd_eq_mod_eq_0 [symmetric])

lemma block_order_spec:
  assumes "2 ^ k dvd pfn" "pfn + 2 ^ k \<le> e" "k \<le> PMM_MAX_ORDER"
  shows "2 ^ block_order pfn e k dvd pfn \<and> pfn + 2 ^ block_order pfn e k \<le> e \<and>
    block_order pfn e k \<le> PMM_MAX_ORDER"
  using assms
proof (induction pfn e k rule: block_order.induct)
  case (1 pfn e k)
  show ?case
  proof (cases "k < PMM_MAX_ORDER \<and> 2 ^ Suc k dvd pfn \<and> pfn + 2 ^ Suc k \<le> e")
    case True
    then have d: "pfn AND (2 ^ (k + 1) - 1) = 0" using and_low_bits_dvd [of pfn "Suc k"] by simp
    have "block_order pfn e k = block_order pfn e (Suc k)"
      using True d by (subst block_order.simps) (simp add: Let_def)
    moreover have "Suc k \<le> PMM_MAX_ORDER" using True by (simp del: order_bound)
    ultimately show ?thesis using 1(1) [OF _ refl] True d by (simp add: not_less)
  next
    case False
    then have "block_order pfn e k = k"
      using and_low_bits_dvd [of pfn "Suc k"] by (subst block_order.simps) (auto simp: Let_def)
    then show ?thesis using 1(2-) by simp
  qed
qed

lemma mark_used_spec:
  "length (mark_used ps p n) = length ps"
  "mark_used ps p n ! q = (if p \<le> q \<and> q < p + n \<and> q < length ps
     then (ps ! q)\<lparr>pg_flags := PAGE_USED\<rparr> else ps ! q)"
proof -
  have "length (mark_used ps p n) = length ps \<and>
    (\<forall>q. mark_used ps p n ! q = (if p \<le> q \<and> q < p + n \<and> q < length ps
     then (ps ! q)\<lparr>pg_flags := PAGE_USED\<rparr> else ps ! q))"
    by (induction n) (auto simp: mark_used_def nth_upd)
  then show "length (mark_used ps p n) = length ps"
    "mark_used ps p n ! q = (if p \<le> q \<and> q < p + n \<and> q < length ps
     then (ps ! q)\<lparr>pg_flags := PAGE_USED\<rparr> else ps ! q)" by blast+
qed

lemma feed_block_inv:
  assumes inv: "pmm_inv s F A M" and w: "wf_block (total_pfns s) (p, k)" and new: "bset (p, k) \<inter> M = {}"
  defines "t \<equiv> s\<lparr>pages := mark_used (pages s) p (2 ^ k),
                   reserved_pages := reserved_pages s - pow2 k, used_pages := used_pages s + pow2 k\<rparr>"
  shows "pmm_inv t F (insert (p, k) A) (M \<union> bset (p, k))"
proof -
  from inv obtain FL where h: "heap s FL A {} M" and F: "F = free_blocks FL" and co: "coalesced F"
    and n: "free_pages s = of_nat (card (cover F))" "used_pages s = of_nat (card (cover A))"
      "total_pfns s \<le> 2 ^ 52"
    by (auto simp: pmm_inv_def)
  note D = heapD [OF h]
  have len: "length (pages s) = total_pfns s" by (rule links_okD(2) [OF D(1)])
  have fl: "flg t q = (if q \<in> bset (p, k) then PAGE_USED else flg s q)" for q
    using w len by (auto simp: t_def flg_def mark_used_spec bset_def wf_block_def)
  have o: "ord t = ord s" "\<And>q. links_eq (pages t ! q) (pages s ! q)"
    by (auto simp: t_def ord_def mark_used_spec links_eq_def fun_eq_iff)
  have hd: "is_head t q = (q \<notin> bset (p, k) \<and> is_head s q)" for q
    by (simp add: is_head_def fl head_word_facts)
  have inM: "q \<in> M" if "(q, j) \<in> free_blocks FL \<union> A" for q j
    using heap_head_bound(3) [OF h] that by blast
  have links: "links_ok t FL"
  proof (rule links_ok_change_info [OF D(1) _ _ _ o(2)])
    show "flg t q = flg s q \<and> ord t q = ord s q" if "j < PMM_NUM_ORDERS" "q \<in> set (FL j)" for j q
      using fl [of q] o(1) inM [of q j] that new by (auto simp: free_blocks_def)
  qed (simp_all add: t_def mark_used_spec)
  let ?B = "free_blocks FL \<union> A"
  have cB: "cover ?B = M" "wf_blocks (total_pfns s) ?B" using D(2,5) by auto
  have nB: "(p, k) \<notin> ?B" using inM new bset_head by blast
  have u: "free_blocks FL \<union> (insert (p, k) A \<union> {}) = insert (p, k) ?B" by blast
  have wf: "wf_blocks (total_pfns s) (insert (p, k) ?B)"
    using w new cB nB by (simp add: wf_blocks_insert del: cover_simps)
  have ht: "heap t FL (insert (p, k) A) {} (M \<union> bset (p, k))"
    unfolding heap_def u
  proof (intro conjI allI impI)
    show "wf_blocks (total_pfns t) (insert (p, k) ?B)" using wf by (simp add: t_def)
    show "cover (insert (p, k) ?B) = M \<union> bset (p, k)" using cB by auto
    show "\<not> is_head t q" if "(q, j) \<in> insert (p, k) A" for q j
      using that hd [of q] D(6) bset_head by auto
    show "flg t q AND PAGE_USED \<noteq> 0" if "(q, j) \<in> insert (p, k) A" for q j
      using that fl [of q] D(7) by auto
    show "\<not> is_head t q" if "q < total_pfns t" "q \<notin> M \<union> bset (p, k)" for q
      using that hd [of q] D(8) by (auto simp: t_def)
  qed (use links nB D(3) in auto)
  have wA: "wf_blocks (total_pfns s) (insert (p, k) A)" by (rule wf_blocks_subset [OF wf]) blast
  have "(p, k) \<notin> A" using nB by blast
  then show ?thesis
    using ht co n card_cover_word [OF wA] F unfolding pmm_inv_def by (auto simp: t_def simp del: cover_simps)
qed

lemma feed_region_inv:
  assumes "pmm_inv s F {} M" "{p..<e} \<inter> M = {}" "e \<le> total_pfns s"
  shows "\<exists>t F'. feed_region s p e = Inr t \<and> pmm_inv t F' {} (M \<union> {p..<e}) \<and> total_pfns t = total_pfns s"
  using assms
proof (induction s p e arbitrary: F M rule: feed_region.induct)
  case (1 s p e)
  show ?case
  proof (cases "p < e")
    case False
    then show ?thesis using 1(2) by (subst feed_region.simps) auto
  next
    case True
    define k where "k = block_order p e 0"
    let ?s1 = "s\<lparr>pages := mark_used (pages s) p (2 ^ k),
                 reserved_pages := reserved_pages s - pow2 k, used_pages := used_pages s + pow2 k\<rparr>"
    have k: "2 ^ k dvd p" "p + 2 ^ k \<le> e" "k \<le> PMM_MAX_ORDER"
      using block_order_spec [of 0 p e] True by (simp_all add: k_def del: order_bound)
    have "bset (p, k) \<subseteq> {p..<e}" using k(2) by (auto simp: bset_def)
    then have "bset (p, k) \<inter> M = {}" "wf_block (total_pfns s) (p, k)"
      using k 1(3,4) by (blast, simp add: wf_block_def)
    then have "pmm_inv ?s1 F {(p, k)} (M \<union> bset (p, k))" using feed_block_inv [OF 1(2)] by blast
    then obtain s2 F2 where s2: "pmm_free_pages ?s1 (pfn_to_phys p) k = Inr s2"
      "pmm_inv s2 F2 {} (M \<union> bset (p, k))" "total_pfns s2 = total_pfns s"
      by (rule pmm_free_steps [of _ _ _ _ p k]) auto
    have "{p + 2 ^ k..<e} \<subseteq> {p..<e}" "{p + 2 ^ k..<e} \<inter> bset (p, k) = {}" by (auto simp: bset_def)
    then have d: "{p + 2 ^ k..<e} \<inter> (M \<union> bset (p, k)) = {}" "e \<le> total_pfns s2"
      using 1(3,4) s2(3) by (blast, simp)
    have "M \<union> bset (p, k) \<union> {p + 2 ^ k..<e} = M \<union> {p..<e}" using k(2) by (auto simp: bset_def)
    then obtain t F' where "feed_region s2 (p + 2 ^ k) e = Inr t" "pmm_inv t F' {} (M \<union> {p..<e})"
      "total_pfns t = total_pfns s"
      using 1(1) [OF True k_def refl refl s2(1) s2(2) d] s2(3) by auto
    moreover have "feed_region s p e = feed_region s2 (p + 2 ^ k) e"
      using True s2(1) by (subst feed_region.simps) (simp add: Let_def k_def [symmetric])
    ultimately show ?thesis by auto
  qed
qed

lemma pmm_reset_inv:
  assumes "n \<le> 2 ^ 52"
  shows "pmm_inv (pmm_reset n a) {} {} {}"
proof -
  have "free_blocks (\<lambda>_. []) = {}" by (simp add: free_blocks_def)
  moreover have "heap (pmm_reset n a) (\<lambda>_. []) {} {} {}"
    by (auto simp: heap_def links_ok_def pmm_reset_def free_blocks_def wf_blocks_def is_head_def flg_def
        reserved_page_def head_word_facts)
  ultimately show ?thesis
    using assms unfolding pmm_inv_def by (auto simp: coalesced_def pmm_reset_def)
qed

subsection \<open>The memory map\<close>

definition entry_end :: "memmap_entry \<Rightarrow> nat" where
  "entry_end e = unat (me_base e) + unat (me_length e)"

fun regions_ok :: "memmap_entry list \<Rightarrow> bool" where
  "regions_ok [] = True"
| "regions_ok (e # es) =
     ((me_type e = 0 \<longrightarrow> entry_end e \<le> 2 ^ 52 \<and>
        (\<forall>e' \<in> set es. me_type e' = 0 \<longrightarrow>
           entry_end e \<le> unat (me_base e') \<or> entry_end e' \<le> unat (me_base e))) \<and>
      regions_ok es)"

definition frames_in :: "nat \<Rightarrow> nat \<Rightarrow> nat set" where
  "frames_in lo hi = {f. lo \<le> f * 4096 \<and> (f + 1) * 4096 \<le> hi}"

fun fed_frames :: "memmap_entry list \<Rightarrow> nat \<Rightarrow> nat \<Rightarrow> nat \<Rightarrow> nat set" where
  "fed_frames [] i steal meta = {}"
| "fed_frames (e # es) i steal meta =
     (if me_type e = 0
      then frames_in (unat (me_base e) + (if i = steal then meta * 4096 else 0)) (entry_end e)
      else {}) \<union> fed_frames es (Suc i) steal meta"

lemma frames_in_interval: "frames_in lo hi = {(lo + 4095) div 4096..<hi div 4096}"
proof -
  have "lo \<le> f * 4096 \<longleftrightarrow> (lo + 4095) div 4096 \<le> f" for f by linarith
  moreover have "(f + 1) * 4096 \<le> hi \<longleftrightarrow> f < hi div 4096" for f
    using less_eq_div_iff_mult_less_eq [of 4096 "f + 1" hi] by auto
  ultimately show ?thesis unfolding frames_in_def by auto
qed

lemma frames_in_disjoint:
  "hi \<le> lo' \<or> hi' \<le> lo \<Longrightarrow> lo \<le> l \<Longrightarrow> lo' \<le> l' \<Longrightarrow> frames_in l hi \<inter> frames_in l' hi' = {}"
  by (auto simp: frames_in_def)

lemma entry_words:
  assumes "entry_end e \<le> 2 ^ 52"
  shows "unat (me_base e + me_length e) = entry_end e"
    and "unat ((me_base e + me_length e) div PAGE_SIZE) = entry_end e div 4096"
proof -
  show u: "unat (me_base e + me_length e) = entry_end e"
    using assms by (simp add: entry_end_def unat_add_u64)
  show "unat ((me_base e + me_length e) div PAGE_SIZE) = entry_end e div 4096"
    by (simp add: unat_div_distrib u PAGE_SIZE_def)
qed

lemma region_start:
  assumes "unat (b :: u64) \<le> 2 ^ 60"
  shows "unat ((b + PAGE_SIZE - 1) div PAGE_SIZE) = (unat b + 4095) div 4096"
proof -
  have u: "unat (b + 4095) = unat b + 4095" using assms by (simp add: unat_add_u64)
  have e: "b + PAGE_SIZE - 1 = b + 4095" by (simp add: PAGE_SIZE_def)
  show ?thesis unfolding e unat_div_distrib u by (simp add: PAGE_SIZE_def)
qed

lemma stolen_base:
  assumes "unat (b :: u64) \<le> 2 ^ 52" "unat meta \<le> 2 ^ 41"
  shows "unat (b + meta * PAGE_SIZE) = unat b + unat meta * 4096" "unat b + unat meta * 4096 \<le> 2 ^ 60"
proof -
  have "unat (meta * PAGE_SIZE) = unat meta * 4096"
    using assms(2) by (simp add: unat_word_ariths PAGE_SIZE_def)
  then show "unat (b + meta * PAGE_SIZE) = unat b + unat meta * 4096"
    "unat b + unat meta * 4096 \<le> 2 ^ 60"
    using assms by (simp_all add: unat_add_u64)
qed

lemma feed_entries_inv:
  assumes "pmm_inv s F {} M" "regions_ok es" "unat meta \<le> 2 ^ 41"
    "\<forall>e \<in> set es. me_type e = 0 \<longrightarrow> entry_end e div 4096 \<le> total_pfns s \<and>
        frames_in (unat (me_base e)) (entry_end e) \<inter> M = {}"
  shows "\<exists>t F'. feed_entries s es i steal meta = Inr t \<and>
    pmm_inv t F' {} (M \<union> fed_frames es i steal (unat meta)) \<and> total_pfns t = total_pfns s"
  using assms
proof (induction es arbitrary: s i F M)
  case Nil
  then show ?case by auto
next
  case (Cons e es)
  note 2 = Cons.prems
  show ?case
  proof (cases "me_type e = 0")
    case False
    then show ?thesis using Cons.IH [OF 2(1)] 2(2-) by simp
  next
    case ty: True
    let ?rb = "if i = steal then me_base e + meta * PAGE_SIZE else me_base e"
    let ?lo = "unat (me_base e) + (if i = steal then unat meta * 4096 else 0)"
    have e: "entry_end e \<le> 2 ^ 52" "unat (me_base e) \<le> 2 ^ 52" "entry_end e div 4096 \<le> total_pfns s"
      "frames_in (unat (me_base e)) (entry_end e) \<inter> M = {}"
      using 2(2,4) ty by (auto simp: entry_end_def)
    note ee = entry_words [OF e(1)]
    have rb: "unat ?rb = ?lo" "?lo \<le> 2 ^ 60" using stolen_base [OF e(2) 2(3)] e(2) by auto
    have st: "unat ((?rb + PAGE_SIZE - 1) div PAGE_SIZE) = (?lo + 4095) div 4096"
      using region_start [of ?rb] rb by simp
    define fr where "fr = frames_in ?lo (entry_end e)"
    have fr: "fr = {(?lo + 4095) div 4096..<entry_end e div 4096}"
      unfolding fr_def by (rule frames_in_interval)
    have sub: "fr \<subseteq> frames_in (unat (me_base e)) (entry_end e)" by (auto simp: fr_def frames_in_def)
    have rest: "\<forall>e' \<in> set es. me_type e' = 0 \<longrightarrow> entry_end e' div 4096 \<le> total_pfns s \<and>
        frames_in (unat (me_base e')) (entry_end e') \<inter> (M \<union> fr) = {}"
    proof (intro ballI impI conjI)
      fix e' assume e': "e' \<in> set es" "me_type e' = 0"
      show "entry_end e' div 4096 \<le> total_pfns s" using 2(4) e' by simp
      have "frames_in (unat (me_base e')) (entry_end e') \<inter> fr = {}"
        unfolding fr_def
        by (rule frames_in_disjoint [of _ "unat (me_base e)" _ "unat (me_base e')"]) (use 2(2) ty e' in auto)
      then show "frames_in (unat (me_base e')) (entry_end e') \<inter> (M \<union> fr) = {}"
        using 2(4) e' by auto
    qed
    show ?thesis
    proof (cases "i = steal \<and> me_base e + me_length e \<le> ?rb \<or> entry_end e div 4096 \<le> (?lo + 4095) div 4096")
      case True
      then have emp: "fr = {}"
        using rb(1) ee(1) unfolding fr by (auto simp: word_le_nat_alt)
      have skip: "feed_entries s (e # es) i steal meta = feed_entries s es (i + 1) steal meta"
        using True ty st ee(2) by (auto simp: Let_def)
      show ?thesis
        using Cons.IH [OF 2(1) _ 2(3), of "Suc i"] rest 2(2) ty emp
        unfolding skip by (simp add: fr_def)
    next
      case False
      have "min (entry_end e div 4096) (total_pfns s) = entry_end e div 4096" using e(3) by simp
      have "fr \<inter> M = {}" using sub e(4) by blast
      then obtain s1 F1 where s1: "feed_region s ((?lo + 4095) div 4096) (entry_end e div 4096) = Inr s1"
        "pmm_inv s1 F1 {} (M \<union> fr)" "total_pfns s1 = total_pfns s"
        using feed_region_inv [OF 2(1), of "(?lo + 4095) div 4096" "entry_end e div 4096"] e(3) unfolding fr
        by blast
      have go: "feed_entries s (e # es) i steal meta = feed_entries s1 es (i + 1) steal meta"
        using False ty st ee(2) e(3) s1(1) by (auto simp: Let_def)
      show ?thesis
        using Cons.IH [OF s1(2) _ 2(3), of "Suc i"] rest 2(2) ty s1(3)
        unfolding go by (simp add: fr_def Un_assoc)
    qed
  qed
qed

subsection \<open>The whole of boot\<close>

lemma max_usable_bound:
  assumes "regions_ok es"
  shows "unat (max_usable es) \<le> 2 ^ 52"
    and "e \<in> set es \<Longrightarrow> me_type e = 0 \<Longrightarrow> entry_end e \<le> unat (max_usable es)"
proof -
  let ?f = "\<lambda>m e. if me_type e \<noteq> 0 then m
      else if m < me_base e + me_length e then me_base e + me_length e else (m :: u64)"
  have "unat m \<le> 2 ^ 52 \<Longrightarrow> unat (foldl ?f m es) \<le> 2 ^ 52 \<and> unat m \<le> unat (foldl ?f m es) \<and>
     (\<forall>e \<in> set es. me_type e = 0 \<longrightarrow> entry_end e \<le> unat (foldl ?f m es))" for m
    using assms
  proof (induction es arbitrary: m)
    case (Cons e es)
    have "unat (?f m e) \<le> 2 ^ 52" "unat m \<le> unat (?f m e)" "me_type e = 0 \<Longrightarrow> entry_end e \<le> unat (?f m e)"
      using Cons.prems entry_words(1) [of e] by (auto simp: word_less_nat_alt)
    then show ?case using Cons.IH [of "?f m e"] Cons.prems(2) by fastforce
  qed simp
  from this [of 0] show "unat (max_usable es) \<le> 2 ^ 52"
    "e \<in> set es \<Longrightarrow> me_type e = 0 \<Longrightarrow> entry_end e \<le> unat (max_usable es)"
    by (auto simp: max_usable_def)
qed

lemma metadata_words:
  fixes m :: u64
  assumes "unat m \<le> 2 ^ 52"
  defines "n \<equiv> unat (m div PAGE_SIZE)"
  shows "n = unat m div 4096" "n \<le> 2 ^ 40" "unat (of_nat n * 32 :: u64) = n * 32"
    "unat ((of_nat n * 32 + PAGE_SIZE - 1) div PAGE_SIZE :: u64) = (n * 32 + 4095) div 4096"
proof -
  show n: "n = unat m div 4096" by (simp add: n_def unat_div_distrib PAGE_SIZE_def)
  then show n40: "n \<le> 2 ^ 40" using div_le_mono [OF assms(1), of 4096] by simp
  then show u: "unat (of_nat n * 32 :: u64) = n * 32"
    by (simp add: unat_word_ariths unat_of_nat_u64)
  show "unat ((of_nat n * 32 + PAGE_SIZE - 1) div PAGE_SIZE :: u64) = (n * 32 + 4095) div 4096"
    using region_start [of "of_nat n * 32"] n40 by (simp add: u)
qed

lemma pmm_init_steps:
  assumes ok: "regions_ok es" and steal: "find_steal es 0 0 0 0 = (base, sz, idx)"
    and fits: "unat (max_usable es) div 4096 * 32 \<le> unat sz"
  shows "\<exists>t F. pmm_init es = Inr t \<and>
    pmm_inv t F {} (fed_frames es 0 idx ((unat (max_usable es) div 4096 * 32 + 4095) div 4096))"
proof -
  define n where "n = unat (max_usable es div PAGE_SIZE)"
  note mw = metadata_words [OF max_usable_bound(1) [OF ok], folded n_def]
  let ?meta = "(of_nat n * 32 + PAGE_SIZE - 1) div PAGE_SIZE :: u64"
  have um: "unat ?meta = (n * 32 + 4095) div 4096" by (rule mw(4))
  have "(n * 32 + 4095) div 4096 \<le> (2 ^ 40 * 32 + 4095) div 4096"
    using mw(2) by (intro div_le_mono) simp
  then have mb: "unat ?meta \<le> 2 ^ 41" unfolding um by simp
  have inv: "pmm_inv (pmm_reset n (max_usable es)) {} {} {}"
    by (rule pmm_reset_inv) (use mw(2) in simp)
  have "\<forall>e \<in> set es. me_type e = 0 \<longrightarrow>
      entry_end e div 4096 \<le> total_pfns (pmm_reset n (max_usable es)) \<and>
      frames_in (unat (me_base e)) (entry_end e) \<inter> {} = {}"
    using max_usable_bound(2) [OF ok] by (simp add: pmm_reset_def mw(1) div_le_mono)
  from feed_entries_inv [OF inv ok mb this, of 0 idx]
  obtain t F where t: "feed_entries (pmm_reset n (max_usable es)) es 0 idx ?meta = Inr t"
    "pmm_inv t F {} (fed_frames es 0 idx (unat ?meta))" by auto
  have "of_nat n * 32 \<le> sz" using fits mw(1,3) by (simp add: word_le_nat_alt)
  then have "pmm_init es = Inr t" using t(1) by (simp add: pmm_init_def Let_def steal n_def)
  then show ?thesis using t(2) um mw(1) by auto
qed

end
