(* ===== verification/Pmm_Spec.thy ===== *)
theory Pmm_Spec
  imports Pmm_Init
begin

text \<open>
  What the page allocator promises its clients. The contract \<open>page_allocator\<close> is what the
  page-table code, the slab allocator and the scheduler rely on; the properties below it are
  stated over the model of \<open>kernel/pmm.c\<close> directly.
\<close>

subsection \<open>The contract\<close>

locale page_allocator =
  fixes owns :: "'s \<Rightarrow> block set \<Rightarrow> bool"
    and alloc :: "'s \<Rightarrow> nat \<Rightarrow> ('s \<times> u64) res"
    and release :: "'s \<Rightarrow> u64 \<Rightarrow> nat \<Rightarrow> 's res"
  assumes alloc_spec: "owns s A \<Longrightarrow> k \<le> PMM_MAX_ORDER \<Longrightarrow>
      \<exists>t a. alloc s k = Inr (t, a) \<and> (a = 0 \<and> t = s \<or>
        (\<exists>p. a = pfn_to_phys p \<and> 0 < p \<and> p < 2 ^ 52 \<and> 2 ^ k dvd p \<and> bset (p, k) \<inter> cover A = {} \<and>
             owns t (insert (p, k) A)))"
    and release_spec: "owns s A \<Longrightarrow> (p, k) \<in> A \<Longrightarrow>
      \<exists>t. release s (pfn_to_phys p) k = Inr t \<and> owns t (A - {(p, k)})"
begin

lemma alloc_never_stops: "owns s A \<Longrightarrow> k \<le> PMM_MAX_ORDER \<Longrightarrow> \<exists>t a. alloc s k = Inr (t, a)"
  using alloc_spec by blast

lemma alloc_page_cases:
  assumes "owns s A"
  obtains (none) "alloc s 0 = Inr (s, 0)"
  | (page) t p where "alloc s 0 = Inr (t, pfn_to_phys p)" "0 < p" "p < 2 ^ 52" "p \<notin> cover A"
      "owns t (insert (p, 0) A)"
proof -
  from alloc_spec [OF assms, of 0] obtain t a where *: "alloc s 0 = Inr (t, a)"
    "a = 0 \<and> t = s \<or> (\<exists>p. a = pfn_to_phys p \<and> 0 < p \<and> p < 2 ^ 52 \<and> 2 ^ 0 dvd p \<and>
       bset (p, 0) \<inter> cover A = {} \<and> owns t (insert (p, 0) A))" by auto
  show thesis
  proof (cases "a = 0 \<and> t = s")
    case True
    then show ?thesis using * none by simp
  next
    case False
    then obtain p where p: "a = pfn_to_phys p" "0 < p" "p < 2 ^ 52" "bset (p, 0) \<inter> cover A = {}"
      "owns t (insert (p, 0) A)" using *(2) by blast
    have "p \<notin> cover A" using p(4) bset_head by blast
    then show ?thesis using page *(1) p by simp
  qed
qed

lemma alloc_release:
  assumes "owns s A" "k \<le> PMM_MAX_ORDER" "alloc s k = Inr (t, a)" "a \<noteq> 0"
  shows "\<exists>u. release t a k = Inr u \<and> owns u A"
proof -
  from alloc_spec [OF assms(1,2)] assms(3,4) obtain p where
    p: "a = pfn_to_phys p" "bset (p, k) \<inter> cover A = {}" "owns t (insert (p, k) A)" by auto
  have "(p, k) \<notin> A" using p(2) cover_head bset_head by blast
  then have "insert (p, k) A - {(p, k)} = A" by blast
  then show ?thesis using release_spec [OF p(3), of p k] p(1) by auto
qed

end

subsection \<open>The buddy allocator provides it\<close>

definition pmm_owns :: "pmm_state \<Rightarrow> block set \<Rightarrow> bool" where
  "pmm_owns s A \<longleftrightarrow> (\<exists>F M. pmm_inv s F A M \<and> 0 \<notin> M)"

lemma pmm_inv_free_wf:
  assumes "pmm_inv s F A M"
  shows "wf_blocks (total_pfns s) F" "wf_blocks (total_pfns s) A" "coalesced F"
    "cover F = M - cover A" "cover A \<subseteq> M" "M \<subseteq> {..<2 ^ 52}"
proof -
  from assms obtain FL where h: "heap s FL A {} M" "F = free_blocks FL" and n: "total_pfns s \<le> 2 ^ 52"
    by (auto simp: pmm_inv_def)
  show "wf_blocks (total_pfns s) F" "wf_blocks (total_pfns s) A" "cover F = M - cover A" "cover A \<subseteq> M"
    using heap_wf_free [OF h(1)] heap_cover_free [OF h(1)] heapD(5) [OF h(1)] h(2) by auto
  show "coalesced F" using assms by (simp add: pmm_inv_def)
  have "M \<subseteq> {..<total_pfns s}" using wf_blocks_cover [OF heapD(2) [OF h(1)]] unfolding heapD(5) [OF h(1)] .
  then show "M \<subseteq> {..<2 ^ 52}" using n by auto
qed

lemma pmm_alloc_success:
  assumes inv: "pmm_inv s F A M" and k: "k \<le> PMM_MAX_ORDER" and q: "2 ^ k dvd q" "bset (q, k) \<subseteq> cover F"
  shows "\<exists>t b F'. pmm_alloc_pages s k = Inr (t, pfn_to_phys b) \<and> 2 ^ k dvd b \<and> bset (b, k) \<subseteq> cover F \<and>
    pmm_inv t F' (insert (b, k) A) M \<and> cover F' = cover F - bset (b, k) \<and> (b, k) \<notin> A \<and>
    ref_count (pages t ! b) = 1"
proof -
  note W = pmm_inv_free_wf [OF inv]
  have "bset (q, k) \<subseteq> {..<total_pfns s}" using q(2) wf_blocks_cover [OF W(1)] by blast
  moreover have "q + (2 ^ k - 1) \<in> bset (q, k)"
    by (cases "2 ^ k :: nat") (auto simp: bset_def)
  ultimately have "wf_block (total_pfns s) (q, k)" using k q(1) by (fastforce simp: wf_block_def)
  then obtain p j where "(p, j) \<in> F" "k \<le> j"
    using coalesced_contains [OF W(1,3) _ q(2)] by blast
  then obtain t b c F' where t: "pmm_alloc_pages s k = Inr (t, pfn_to_phys b)"
    "pmm_inv t F' (insert (b, k) A) M" "(b, c) \<in> F" "k \<le> c" "(b, k) \<notin> A" "ref_count (pages t ! b) = 1"
    using pmm_alloc_steps [OF inv k] by metis
  note W' = pmm_inv_free_wf [OF t(2)]
  have "2 ^ c dvd b" using W(1) t(3) by (auto simp: wf_blocks_def wf_block_def)
  then have al: "2 ^ k dvd b" using t(4) by (meson dvd_trans le_imp_power_dvd)
  have "bset (b, k) \<subseteq> bset (b, c)"
    using power_increasing [OF t(4), of "2 :: nat"] by (auto simp: bset_def)
  also have "\<dots> \<subseteq> cover F" using t(3) by (auto simp: cover_def)
  finally have sub: "bset (b, k) \<subseteq> cover F" .
  have "cover F' = cover F - bset (b, k)" unfolding W'(4) W(4) by auto
  then show ?thesis using t al sub by blast
qed

lemma pmm_alloc_exhausted:
  assumes inv: "pmm_inv s F A M" and k: "k \<le> PMM_MAX_ORDER"
    and none: "\<And>q. 2 ^ k dvd q \<Longrightarrow> \<not> bset (q, k) \<subseteq> cover F"
  shows "pmm_alloc_pages s k = Inr (s, 0)"
proof -
  from inv obtain FL where h: "heap s FL A {} M" and F: "F = free_blocks FL"
    by (auto simp: pmm_inv_def)
  have nF: "(p, j) \<notin> F" if "k \<le> j" for p j
  proof
    assume f: "(p, j) \<in> F"
    then have "2 ^ j dvd p" using heap_free_aligned [OF h] F by blast
    then have "2 ^ k dvd p" using that by (meson dvd_trans le_imp_power_dvd)
    moreover have "bset (p, k) \<subseteq> bset (p, j)"
      using power_increasing [OF that, of "2 :: nat"] by (auto simp: bset_def)
    ultimately show False using none [of p] f unfolding cover_def by blast
  qed
  have fo: "k \<le> find_order s k" "find_order s k \<le> PMM_MAX_ORDER \<longrightarrow>
      fa_head (free_lists s ! find_order s k) \<noteq> None"
    using find_order_spec [of k s] k by auto
  have "PMM_MAX_ORDER < find_order s k"
  proof (rule ccontr)
    assume "\<not> PMM_MAX_ORDER < find_order s k"
    then have c: "find_order s k < PMM_NUM_ORDERS" by (simp add: PMM_MAX_ORDER_def PMM_NUM_ORDERS_def)
    then obtain b where "fa_head (free_lists s ! find_order s k) = Some b" using fo(2) by auto
    then show False using head_free_block(2) [OF heapD(1) [OF h] c] nF [OF fo(1)] F by blast
  qed
  then show ?thesis using k by (simp add: pmm_alloc_pages_def Let_def)
qed

text \<open>The same with the set \<open>M\<close> of frames under management fixed.\<close>

definition pmm_in :: "nat set \<Rightarrow> pmm_state \<Rightarrow> block set \<Rightarrow> bool" where
  "pmm_in M s A \<longleftrightarrow> (\<exists>F. pmm_inv s F A M) \<and> 0 \<notin> M"

lemma pmm_owns_in: "pmm_owns s A \<longleftrightarrow> (\<exists>M. pmm_in M s A)"
  by (auto simp: pmm_owns_def pmm_in_def)

interpretation pmm_in: page_allocator "pmm_in M" pmm_alloc_pages pmm_free_pages for M
proof
  fix s A k assume o: "pmm_in M s A" and k: "k \<le> PMM_MAX_ORDER"
  then obtain F where inv: "pmm_inv s F A M" and z: "0 \<notin> M" by (auto simp: pmm_in_def)
  show "\<exists>t a. pmm_alloc_pages s k = Inr (t, a) \<and> (a = 0 \<and> t = s \<or>
        (\<exists>p. a = pfn_to_phys p \<and> 0 < p \<and> p < 2 ^ 52 \<and> 2 ^ k dvd p \<and> bset (p, k) \<inter> cover A = {} \<and>
             pmm_in M t (insert (p, k) A)))"
  proof (cases "\<exists>q. 2 ^ k dvd q \<and> bset (q, k) \<subseteq> cover F")
    case True
    then obtain q where q: "2 ^ k dvd q" "bset (q, k) \<subseteq> cover F" by blast
    from pmm_alloc_success [OF inv k q]
    obtain t b F' where t: "pmm_alloc_pages s k = Inr (t, pfn_to_phys b)" "2 ^ k dvd b"
      "bset (b, k) \<subseteq> cover F" "pmm_inv t F' (insert (b, k) A) M" by blast
    have "b \<in> M" using t(3) pmm_inv_free_wf(4) [OF inv] bset_head by blast
    then have "b < 2 ^ 52" using subsetD [OF pmm_inv_free_wf(6) [OF inv]] by (simp only: lessThan_iff)
    moreover have "0 < b" using \<open>b \<in> M\<close> z by (cases b) simp_all
    moreover have "bset (b, k) \<inter> cover A = {}" using t(3) pmm_inv_free_wf(4) [OF inv] by blast
    moreover have "pmm_in M t (insert (b, k) A)" using t(4) z unfolding pmm_in_def by blast
    ultimately show ?thesis using t(1,2) by blast
  next
    case False
    then have "pmm_alloc_pages s k = Inr (s, 0)" using pmm_alloc_exhausted [OF inv k] by blast
    then show ?thesis by blast
  qed
next
  fix s A p k assume "pmm_in M s A" and a: "(p, k) \<in> A"
  then obtain F where inv: "pmm_inv s F A M" and z: "0 \<notin> M" by (auto simp: pmm_in_def)
  show "\<exists>t. pmm_free_pages s (pfn_to_phys p) k = Inr t \<and> pmm_in M t (A - {(p, k)})"
    using pmm_free_steps [OF inv a] z unfolding pmm_in_def by metis
qed

interpretation pmm: page_allocator pmm_owns pmm_alloc_pages pmm_free_pages
proof
  fix s A k assume o: "pmm_owns s A" and k: "k \<le> PMM_MAX_ORDER"
  then obtain M where "pmm_in M s A" by (auto simp: pmm_owns_in)
  from pmm_in.alloc_spec [OF this k]
  show "\<exists>t a. pmm_alloc_pages s k = Inr (t, a) \<and> (a = 0 \<and> t = s \<or>
        (\<exists>p. a = pfn_to_phys p \<and> 0 < p \<and> p < 2 ^ 52 \<and> 2 ^ k dvd p \<and> bset (p, k) \<inter> cover A = {} \<and>
             pmm_owns t (insert (p, k) A)))" unfolding pmm_owns_in by blast
next
  fix s A p k assume "pmm_owns s A" and a: "(p, k) \<in> A"
  then show "\<exists>t. pmm_free_pages s (pfn_to_phys p) k = Inr t \<and> pmm_owns t (A - {(p, k)})"
    unfolding pmm_owns_in using pmm_in.release_spec by blast
qed

lemma frame_inj:
  assumes "f < 2 ^ 52" "g < 2 ^ 52" "pfn_to_phys f = pfn_to_phys g"
  shows "f = g"
proof -
  have "f = phys_to_pfn (pfn_to_phys g)"
    unfolding assms(3) [symmetric] by (rule pfn_to_phys_facts(1) [OF assms(1), symmetric])
  then show ?thesis unfolding pfn_to_phys_facts(1) [OF assms(2)] .
qed

lemma pmm_in_frame:
  assumes "pmm_in M s A" "(p, k) \<in> A"
  shows "p \<in> M" "p < 2 ^ 52"
proof -
  obtain F where i: "pmm_inv s F A M" using assms(1) by (auto simp: pmm_in_def)
  have "p \<in> cover A" using assms(2) bset_head cover_head by blast
  then show "p \<in> M" using pmm_inv_free_wf(5) [OF i] by blast
  then show "p < 2 ^ 52" using subsetD [OF pmm_inv_free_wf(6) [OF i]] by (simp only: lessThan_iff)
qed

text \<open>The allocator refuses a page only when every frame is taken.\<close>

definition frames_left :: "block set \<Rightarrow> nat set \<Rightarrow> nat" where
  "frames_left A M = card (M - cover A)"

lemma pmm_in_finite: "pmm_in M s A \<Longrightarrow> finite M"
  using pmm_inv_free_wf(6) finite_subset [of M "{..<2 ^ 52}"] unfolding pmm_in_def by blast

lemma pmm_in_alloc_none:
  assumes "pmm_in M s A" "pmm_alloc_pages s 0 = Inr (t, 0)"
  shows "frames_left A M = 0"
proof (rule ccontr)
  assume "frames_left A M \<noteq> 0"
  then obtain p where p: "p \<in> M" "p \<notin> cover A" unfolding frames_left_def by (metis DiffE card.empty equals0I)
  obtain F where i: "pmm_inv s F A M" and z: "0 \<notin> M" using assms(1) by (auto simp: pmm_in_def)
  note W = pmm_inv_free_wf [OF i]
  have "bset (p, 0) \<subseteq> cover F" using p W(4) by (auto simp: bset_def)
  then obtain u b where b: "pmm_alloc_pages s 0 = Inr (u, pfn_to_phys b)" "bset (b, 0) \<subseteq> cover F"
    using pmm_alloc_success [OF i, of 0 p] by (auto simp: PMM_MAX_ORDER_def)
  have bM: "b \<in> M" using b(2) bset_head W(4) by blast
  then have "b < 2 ^ 52" using subsetD [OF W(6)] by (simp only: lessThan_iff)
  then have "b = 0" using pfn_to_phys_facts(3) b(1) assms(2) by simp
  then show False using bM z by simp
qed

lemma frames_left_take:
  assumes "finite M"
  shows "frames_left A M \<le> frames_left (insert (f, 0) A) M + 1"
proof -
  have "M - cover (insert (f, 0) A) = M - cover A - {f}" by (auto simp: cover_def bset_def)
  moreover have "card (M - cover A) - 1 \<le> card (M - cover A - {f})"
    using diff_card_le_card_Diff [of "{f}" "M - cover A"] by simp
  ultimately show ?thesis unfolding frames_left_def by (simp only: le_diff_conv)
qed

subsection \<open>Double frees\<close>

lemma coalesce_keeps_unused:
  assumes "length (pages s) = total_pfns s" "pfn < total_pfns s" "flg s q AND PAGE_USED = 0"
    "coalesce_loop s pfn k = (t, p', k')"
  shows "flg t q AND PAGE_USED = 0"
  using assms
proof (induction s pfn k rule: coalesce_loop.induct)
  case (1 s pfn k)
  let ?b = "buddy_pfn pfn k"
  show ?case
  proof (cases "k < PMM_MAX_ORDER \<and> is_buddy_free s ?b k")
    case False
    then have "t = s" using 1(5) by (subst (asm) coalesce_loop.simps) (auto simp: Let_def split: if_splits)
    then show ?thesis using 1(4) by simp
  next
    case True
    then have b: "?b < length (pages s)" using 1(2) by (auto simp: is_buddy_free_def split: if_splits)
    let ?s1 = "set_head (take_block s k ?b) (k + 1) (min pfn ?b)"
    have "min pfn ?b < length (pages (take_block s k ?b))" using b 1(2,3) by simp
    then have "flg ?s1 q AND PAGE_USED = 0"
      using 1(4) take_block_fields(1) [OF b] set_head_fields(1) head_word_facts
      by (auto simp: PAGE_FREE_def PAGE_BUDDY_HEAD_def PAGE_USED_def)
    moreover have "coalesce_loop ?s1 (min pfn ?b) (k + 1) = (t, p', k')"
      using 1(5) True by (subst (asm) coalesce_loop.simps) (simp add: Let_def min_buddy)
    ultimately show ?thesis
      using 1(1) [OF _ refl _ refl refl] True 1(2,3) b unfolding min_buddy by simp
  qed
qed

lemma free_clears_used:
  assumes "pmm_free_pages s (pfn_to_phys p) k = Inr t" "p < 2 ^ 52" "length (pages s) = total_pfns s"
  shows "flg t p AND PAGE_USED = 0"
proof -
  let ?s1 = "set_head s k p"
  let ?s2 = "?s1\<lparr>pages := (pages ?s1)[p := (pages ?s1 ! p)\<lparr>ref_count := 0\<rparr>],
      free_pages := free_pages ?s1 + pow2 k, used_pages := used_pages ?s1 - pow2 k\<rparr>"
  obtain s3 p' k' where c: "coalesce_loop ?s2 p k = (s3, p', k')" using prod_cases3 by blast
  have ph: "phys_to_pfn (pfn_to_phys p) = p" by (rule pfn_to_phys_facts(1) [OF assms(2)])
  have p: "p < total_pfns s"
    using assms(1) by (simp add: pmm_free_pages_def Let_def ph kassert_def split: if_splits)
  have t: "t = put_block s3 k' p'"
    using assms(1) c by (simp add: pmm_free_pages_def Let_def ph kassert_def split: if_splits)
  have "flg ?s2 p AND PAGE_USED = 0"
    using p assms(3) by (simp add: flg_def set_head_def PAGE_FREE_def PAGE_BUDDY_HEAD_def PAGE_USED_def)
  then have "flg s3 p AND PAGE_USED = 0"
    using coalesce_keeps_unused [OF _ _ _ c, of p] assms(3) p by simp
  then show "flg t p AND PAGE_USED = 0" by (simp add: t put_block_fields)
qed

subsection \<open>A small machine\<close>

definition demo_map :: "memmap_entry list" where
  "demo_map = [\<lparr>me_base = 0, me_length = 4096, me_type = 1\<rparr>,
               \<lparr>me_base = 4096, me_length = 32768, me_type = 0\<rparr>,
               \<lparr>me_base = 40960, me_length = 4096, me_type = 0\<rparr>]"

lemma demo_map_facts:
  "regions_ok demo_map" "find_steal demo_map 0 0 0 0 = (4096, 32768, 1)"
  "unat (max_usable demo_map) = 45056"
  by (simp_all add: demo_map_def entry_end_def max_usable_def word_less_nat_alt)

lemma demo_frames: "fed_frames demo_map 0 1 1 = {2..<9} \<union> {10..<11}"
  by (auto simp: demo_map_def entry_end_def frames_in_interval)

lemma demo_boot: "\<exists>s F. pmm_init demo_map = Inr s \<and> pmm_inv s F {} ({2..<9} \<union> {10..<11})"
  using pmm_init_steps [OF demo_map_facts(1,2)] demo_frames by (simp add: demo_map_facts(3))

lemma demo_alloc:
  "\<exists>s t F b. pmm_init demo_map = Inr s \<and> pmm_alloc_pages s 2 = Inr (t, pfn_to_phys b) \<and>
     pmm_inv t F {(b, 2)} ({2..<9} \<union> {10..<11})"
proof -
  obtain s F where s: "pmm_init demo_map = Inr s" "pmm_inv s F {} ({2..<9} \<union> {10..<11})"
    using demo_boot by blast
  have "bset (4, 2) \<subseteq> cover F" using pmm_inv_free_wf(4) [OF s(2)] by (auto simp: bset_def)
  then show ?thesis using pmm_alloc_success [OF s(2), of 2 4] s(1) by (auto simp: PMM_NUM_ORDERS_def)
qed

subsection \<open>Properties\<close>

text \<open>C1: allocation. Whenever some naturally aligned run of \<open>2^k\<close> frames is free, in
  whatever way the history of the allocator has cut memory up, \<open>pmm_alloc_pages\<close> succeeds.
  It returns an aligned block of free frames, records it as owned with reference count 1, keeps
  the invariant, and takes no frame but those of the block off the free lists.\<close>

theorem pmm_alloc_pages_correct:
  assumes "pmm_inv s F A M" "k \<le> PMM_MAX_ORDER" "2 ^ k dvd q" "bset (q, k) \<subseteq> cover F"
  shows "\<exists>t b F'. pmm_alloc_pages s k = Inr (t, pfn_to_phys b) \<and> 2 ^ k dvd b \<and> bset (b, k) \<subseteq> cover F \<and>
    pmm_inv t F' (insert (b, k) A) M \<and> cover F' = cover F - bset (b, k) \<and> (b, k) \<notin> A \<and>
    ref_count (pages t ! b) = 1"
  by (rule pmm_alloc_success [OF assms])

theorem pmm_alloc_pages_correct_witness:
  "\<exists>s F t b F'. pmm_init demo_map = Inr s \<and> pmm_alloc_pages s 1 = Inr (t, pfn_to_phys b) \<and>
     2 ^ 1 dvd b \<and> pmm_inv t F' {(b, 1)} ({2..<9} \<union> {10..<11}) \<and> cover F' = cover F - bset (b, 1)"
proof -
  obtain s F where s: "pmm_init demo_map = Inr s" "pmm_inv s F {} ({2..<9} \<union> {10..<11})"
    using demo_boot by blast
  have b: "bset (2, 1) \<subseteq> cover F" using pmm_inv_free_wf(4) [OF s(2)] by (auto simp: bset_def)
  have "(1 :: nat) \<le> PMM_MAX_ORDER" by (simp add: PMM_NUM_ORDERS_def)
  from pmm_alloc_pages_correct [OF s(2) this _ b] show ?thesis using s(1) by auto
qed

text \<open>C4: exhaustion. When no naturally aligned run of \<open>2^k\<close> free frames exists,
  \<open>pmm_alloc_pages\<close> returns physical address 0 and changes nothing.\<close>

theorem pmm_alloc_pages_exhausted:
  assumes "pmm_inv s F A M" "k \<le> PMM_MAX_ORDER" "\<And>q. 2 ^ k dvd q \<Longrightarrow> \<not> bset (q, k) \<subseteq> cover F"
  shows "pmm_alloc_pages s k = Inr (s, 0)"
  by (rule pmm_alloc_exhausted [OF assms])

theorem pmm_alloc_pages_exhausted_witness:
  "\<exists>s. pmm_init demo_map = Inr s \<and> pmm_alloc_pages s 3 = Inr (s, 0)"
proof -
  obtain s F where s: "pmm_init demo_map = Inr s" "pmm_inv s F {} ({2..<9} \<union> {10..<11})"
    using demo_boot by blast
  have "\<not> bset (q, 3) \<subseteq> cover F" if "2 ^ 3 dvd q" for q
  proof
    assume "bset (q, 3) \<subseteq> cover F"
    then have sub: "bset (q, 3) \<subseteq> {2..<9} \<union> {10..<11}" using pmm_inv_free_wf(4) [OF s(2)] by simp
    have "q \<in> bset (q, 3)" "q + 1 \<in> bset (q, 3)" by (simp_all add: bset_def)
    then have "q \<in> {2..<9} \<union> {10..<11}" "q + 1 \<in> {2..<9} \<union> {10..<11}" using sub by blast+
    then show False using that by auto
  qed
  then show ?thesis
    using pmm_alloc_pages_exhausted [OF s(2), of 3] s(1) by (simp add: PMM_NUM_ORDERS_def)
qed

text \<open>C2: freeing. Freeing a block that was handed out and not yet freed succeeds, returns its
  frames to the free lists, keeps the invariant (in particular no two buddies stay unmerged),
  and the resulting set of free blocks is the only coalesced one that covers these frames.\<close>

theorem pmm_free_pages_correct:
  assumes "pmm_inv s F A M" "(p, k) \<in> A"
  shows "\<exists>t F'. pmm_free_pages s (pfn_to_phys p) k = Inr t \<and> pmm_inv t F' (A - {(p, k)}) M \<and>
    cover F' = cover F \<union> bset (p, k) \<and>
    (\<forall>G. wf_blocks (total_pfns t) G \<and> coalesced G \<and> cover G = cover F' \<longrightarrow> G = F')"
proof -
  obtain t F' where t: "pmm_free_pages s (pfn_to_phys p) k = Inr t" "pmm_inv t F' (A - {(p, k)}) M"
    "cover F' = cover F \<union> bset (p, k)"
    by (rule pmm_free_steps [OF assms])
  have "G = F'" if "wf_blocks (total_pfns t) G" "coalesced G" "cover G = cover F'" for G
    by (rule coalesced_unique [OF that(1,2) pmm_inv_free_wf(1,3) [OF t(2)] that(3)])
  then show ?thesis using t by blast
qed

theorem pmm_free_pages_correct_witness:
  "\<exists>s t u F b. pmm_init demo_map = Inr s \<and> pmm_alloc_pages s 2 = Inr (t, pfn_to_phys b) \<and>
     pmm_free_pages t (pfn_to_phys b) 2 = Inr u \<and> pmm_inv u F {} ({2..<9} \<union> {10..<11})"
proof -
  obtain s t F b where s: "pmm_init demo_map = Inr s" "pmm_alloc_pages s 2 = Inr (t, pfn_to_phys b)"
    "pmm_inv t F {(b, 2)} ({2..<9} \<union> {10..<11})" using demo_alloc by blast
  show ?thesis using pmm_free_pages_correct [OF s(3), of b 2] s(1,2) by auto
qed

text \<open>Round trip. Freeing what was just allocated gives back exactly the free blocks,
  the owned blocks and the page counters of before: no sequence of allocations and frees
  fragments memory permanently.\<close>

theorem pmm_alloc_free_roundtrip:
  assumes "pmm_inv s F A M" "k \<le> PMM_MAX_ORDER" "pmm_alloc_pages s k = Inr (t, a)" "a \<noteq> 0"
  shows "\<exists>u. pmm_free_pages t a k = Inr u \<and> pmm_inv u F A M \<and>
    pmm_free_count u = pmm_free_count s \<and> pmm_used_count u = pmm_used_count s"
proof -
  obtain q where q: "2 ^ k dvd q" "bset (q, k) \<subseteq> cover F"
    using pmm_alloc_exhausted [OF assms(1,2)] assms(3,4) by fastforce
  from pmm_alloc_success [OF assms(1,2) q] assms(3) obtain b F' where b: "a = pfn_to_phys b"
    "bset (b, k) \<subseteq> cover F" "pmm_inv t F' (insert (b, k) A) M" "cover F' = cover F - bset (b, k)"
    "(b, k) \<notin> A" by auto
  obtain u F'' where u: "pmm_free_pages t a k = Inr u" "pmm_inv u F'' (insert (b, k) A - {(b, k)}) M"
    "cover F'' = cover F' \<union> bset (b, k)"
    unfolding b(1) by (rule pmm_free_steps [OF b(3), of b k]) auto
  have A: "insert (b, k) A - {(b, k)} = A" using b(5) by blast
  have cv: "cover F'' = cover F" using u(3) b(2,4) by blast
  note W = pmm_inv_free_wf [OF assms(1)] and W'' = pmm_inv_free_wf [OF u(2)]
  let ?n = "max (total_pfns s) (total_pfns u)"
  have "F'' = F"
    by (rule coalesced_unique [OF wf_blocks_mono [OF W''(1), of ?n] W''(3)
          wf_blocks_mono [OF W(1), of ?n] W(3) cv]) simp_all
  then have "pmm_inv u F A M" using u(2) A by simp
  moreover from this have "pmm_free_count u = pmm_free_count s \<and> pmm_used_count u = pmm_used_count s"
    using assms(1) by (simp add: pmm_inv_def pmm_free_count_def pmm_used_count_def)
  ultimately show ?thesis using u(1) by blast
qed

theorem pmm_alloc_free_roundtrip_witness:
  "\<exists>s t u F b. pmm_init demo_map = Inr s \<and> pmm_alloc_pages s 2 = Inr (t, pfn_to_phys b) \<and>
     pmm_free_pages t (pfn_to_phys b) 2 = Inr u \<and> pmm_inv u F {} ({2..<9} \<union> {10..<11}) \<and>
     pmm_free_count u = pmm_free_count s"
proof -
  obtain s F where s: "pmm_init demo_map = Inr s" "pmm_inv s F {} ({2..<9} \<union> {10..<11})"
    using demo_boot by blast
  obtain t G b where t: "pmm_alloc_pages s 2 = Inr (t, pfn_to_phys b)"
    "pmm_inv t G {(b, 2)} ({2..<9} \<union> {10..<11})" using demo_alloc s(1) by auto
  have "b \<in> {2..<9} \<union> {10..<11}" using pmm_inv_free_wf(5) [OF t(2)] cover_head [of b 2] by blast
  then have "pfn_to_phys b \<noteq> 0" using pfn_to_phys_facts(3) [of b] by auto
  then show ?thesis
    using pmm_alloc_free_roundtrip [OF s(2) _ t(1)] s(1) t(1) by (auto simp: PMM_NUM_ORDERS_def)
qed

text \<open>Double frees are caught. Once a block has been freed, another free of the same address,
  with whatever order, stops at an assertion, also when the block was merged into a larger one
  in between.\<close>

theorem pmm_double_free_detected:
  assumes "pmm_inv s F A M" "(p, k) \<in> A" "pmm_free_pages s (pfn_to_phys p) k = Inr t"
  shows "pmm_free_pages t (pfn_to_phys p) j = Inl KAssert"
proof -
  have "p \<in> cover A" using assms(2) by (rule cover_head)
  then have "p \<in> {..<2 ^ 52}" using pmm_inv_free_wf(5,6) [OF assms(1)] by blast
  then have p: "p < 2 ^ 52" by (simp only: lessThan_iff)
  have "length (pages s) = total_pfns s"
    using assms(1) by (auto simp: pmm_inv_def heap_def links_ok_def)
  then have "flg t p AND PAGE_USED = 0" by (rule free_clears_used [OF assms(3) p])
  then show ?thesis
    by (simp add: pmm_free_pages_def Let_def pfn_to_phys_facts(1) [OF p] flg_def kassert_def)
qed

theorem pmm_double_free_detected_witness:
  "\<exists>s t u b. pmm_init demo_map = Inr s \<and> pmm_alloc_pages s 2 = Inr (t, pfn_to_phys b) \<and>
     pmm_free_pages t (pfn_to_phys b) 2 = Inr u \<and> pmm_free_pages u (pfn_to_phys b) 0 = Inl KAssert"
proof -
  obtain s t F b where s: "pmm_init demo_map = Inr s" "pmm_alloc_pages s 2 = Inr (t, pfn_to_phys b)"
    "pmm_inv t F {(b, 2)} ({2..<9} \<union> {10..<11})" using demo_alloc by blast
  obtain u where u: "pmm_free_pages t (pfn_to_phys b) 2 = Inr u"
    by (rule pmm_free_steps [OF s(3), of b 2]) auto
  show ?thesis using pmm_double_free_detected [OF s(3) _ u, of 0] s(1,2) u by auto
qed

text \<open>C5: boot. For a memory map whose usable regions lie below \<open>2^52\<close> and do not
  overlap, and whose largest usable region can hold the page array, \<open>pmm_init\<close> succeeds
  and ends in a state of the invariant in which nothing is owned and exactly the whole page
  frames of the usable regions, less the pages under the page array, are free.\<close>

theorem pmm_init_correct:
  assumes "regions_ok es" "find_steal es 0 0 0 0 = (base, sz, idx)"
    "unat (max_usable es) div 4096 * 32 \<le> unat sz"
  shows "\<exists>s F. pmm_init es = Inr s \<and>
    pmm_inv s F {} (fed_frames es 0 idx ((unat (max_usable es) div 4096 * 32 + 4095) div 4096)) \<and>
    cover F = fed_frames es 0 idx ((unat (max_usable es) div 4096 * 32 + 4095) div 4096)"
  using pmm_init_steps [OF assms] pmm_inv_free_wf(4) by fastforce

theorem pmm_init_correct_witness:
  "\<exists>s F. pmm_init demo_map = Inr s \<and> pmm_inv s F {} (fed_frames demo_map 0 1 1) \<and>
     cover F = {2..<9} \<union> {10..<11}"
  using pmm_init_correct [OF demo_map_facts(1,2)] demo_frames by (simp add: demo_map_facts(3))

text \<open>Accounting. In every state of the invariant the counter of free pages is the number of
  frames on the free lists, the counter of used pages is the number of frames handed out, and
  the two add up to the frames under management.\<close>

theorem pmm_counts_exact:
  assumes "pmm_inv s F A M"
  shows "unat (pmm_free_count s) = card (cover F) \<and> unat (pmm_used_count s) = card (cover A) \<and>
    unat (pmm_free_count s) + unat (pmm_used_count s) = card M"
proof -
  note W = pmm_inv_free_wf [OF assms]
  have "finite (cover F)" "finite (cover A)" using W(1,2) by (simp_all add: wf_blocks_finite_cover)
  moreover have "M = cover F \<union> cover A" "cover F \<inter> cover A = {}" using W(4,5) by auto
  ultimately show ?thesis
    using pmm_inv_word_count [OF assms]
    by (simp add: pmm_free_count_def pmm_used_count_def card_Un_disjoint)
qed

theorem pmm_counts_exact_witness:
  "\<exists>s. pmm_init demo_map = Inr s \<and> unat (pmm_free_count s) + unat (pmm_used_count s) = 8"
proof -
  obtain s F where s: "pmm_init demo_map = Inr s" "pmm_inv s F {} ({2..<9} \<union> {10..<11})"
    using demo_boot by blast
  have "card ({2..<9} \<union> {10..<11 :: nat}) = 8" by (subst card_Un_disjoint) auto
  then show ?thesis using pmm_counts_exact [OF s(2)] s(1) by auto
qed

end
