(* ===== verification/Spinlock.thy ===== *)
theory Spinlock
  imports Prelude
begin

text \<open>
  The ticket spinlock of \<open>kernel/spinlock.h\<close> on a machine with \<open>n\<close> processors, as an
  interleaving of atomic steps: drawing a ticket, spinning, entering, releasing. The ticket
  counters are 16 bits wide and wrap. The queue of processors that hold an unserved ticket is
  recovered from the state, which gives mutual exclusion, first-come first-served order and
  absence of deadlock as long as there are fewer than \<open>2^16\<close> processors.
\<close>

record spinlock =
  next_ticket :: u16
  serving_ticket :: u16

definition SPINLOCK_INIT :: spinlock where
  "SPINLOCK_INIT = \<lparr>next_ticket = 0, serving_ticket = 0\<rparr>"

definition take_ticket :: "spinlock \<Rightarrow> spinlock \<times> u16" where
  "take_ticket l = (l\<lparr>next_ticket := next_ticket l + 1\<rparr>, next_ticket l)"

definition is_served :: "spinlock \<Rightarrow> u16 \<Rightarrow> bool" where
  "is_served l my_ticket = (serving_ticket l = my_ticket)"

definition spin_unlock :: "spinlock \<Rightarrow> spinlock" where
  "spin_unlock l = l\<lparr>serving_ticket := serving_ticket l + 1\<rparr>"

definition spin_is_locked :: "spinlock \<Rightarrow> bool" where
  "spin_is_locked l = (next_ticket l \<noteq> serving_ticket l)"

text \<open>\<open>spin_trylock\<close> is a load followed by a compare-and-exchange of the value loaded.\<close>

definition trylock_cas :: "spinlock \<Rightarrow> u16 \<Rightarrow> spinlock \<times> bool" where
  "trylock_cas l expected =
     (if next_ticket l = expected then (l\<lparr>next_ticket := expected + 1\<rparr>, True) else (l, False))"

definition spin_trylock :: "spinlock \<Rightarrow> spinlock \<times> bool" where
  "spin_trylock l = trylock_cas l (serving_ticket l)"

text \<open>On one processor with no one else to release the lock, \<open>spin_lock\<close> on a held lock
  spins forever. The interrupt flag is bit 9 of the saved flags.\<close>

definition spin_lock :: "spinlock \<Rightarrow> spinlock res" where
  "spin_lock l = (case take_ticket l of (l', t) \<Rightarrow> if is_served l' t then Inr l' else Inl Deadlock)"

definition spin_lock_irqsave :: "spinlock \<times> u64 \<Rightarrow> ((spinlock \<times> u64) \<times> u64) res" where
  "spin_lock_irqsave st =
     (case st of (l, rflags) \<Rightarrow> bnd (spin_lock l) (\<lambda>l'. Inr ((l', rflags AND NOT (pow2 9)), rflags)))"

definition spin_unlock_irqrestore :: "spinlock \<times> u64 \<Rightarrow> u64 \<Rightarrow> spinlock \<times> u64" where
  "spin_unlock_irqrestore st flags =
     (case st of (l, rflags) \<Rightarrow>
        (spin_unlock l, if flags AND pow2 9 \<noteq> 0 then rflags OR pow2 9 else rflags))"

subsection \<open>Several processors\<close>

datatype cpu_pc = Idle | Spinning u16 | Holding

type_synonym lock_sys = "spinlock \<times> (nat \<Rightarrow> cpu_pc)"

inductive lock_step :: "nat \<Rightarrow> lock_sys \<Rightarrow> lock_sys \<Rightarrow> bool" for n where
  draw: "c < n \<Longrightarrow> pc c = Idle \<Longrightarrow> take_ticket l = (l', t) \<Longrightarrow>
     lock_step n (l, pc) (l', pc(c := Spinning t))"
| spin: "c < n \<Longrightarrow> pc c = Spinning t \<Longrightarrow> \<not> is_served l t \<Longrightarrow> lock_step n (l, pc) (l, pc)"
| enter: "c < n \<Longrightarrow> pc c = Spinning t \<Longrightarrow> is_served l t \<Longrightarrow> lock_step n (l, pc) (l, pc(c := Holding))"
| release: "c < n \<Longrightarrow> pc c = Holding \<Longrightarrow> lock_step n (l, pc) (spin_unlock l, pc(c := Idle))"

inductive lock_reachable :: "nat \<Rightarrow> lock_sys \<Rightarrow> bool" for n where
  start: "lock_reachable n (SPINLOCK_INIT, \<lambda>_. Idle)"
| step: "lock_reachable n s \<Longrightarrow> lock_step n s t \<Longrightarrow> lock_reachable n t"

text \<open>\<open>queue_of s q\<close>: the processors of \<open>q\<close>, in this order, hold the consecutive
  tickets from the one being served; only the first can be inside.\<close>

definition queue_of :: "nat \<Rightarrow> lock_sys \<Rightarrow> nat list \<Rightarrow> bool" where
  "queue_of n s q \<longleftrightarrow> distinct q \<and> set q \<subseteq> {..<n} \<and>
     next_ticket (fst s) = serving_ticket (fst s) + of_nat (length q) \<and>
     (\<forall>i < length q. snd s (q ! i) = Spinning (serving_ticket (fst s) + of_nat i) \<or>
                     i = 0 \<and> snd s (q ! i) = Holding) \<and>
     (\<forall>c. c \<notin> set q \<longrightarrow> snd s c = Idle)"

lemma queue_length: "queue_of n s q \<Longrightarrow> length q \<le> n"
  using card_mono [of "{..<n}" "set q"] by (simp add: queue_of_def distinct_card)

lemma ticket_inj:
  assumes "i < 2 ^ 16" "j < 2 ^ 16" "(a :: u16) + of_nat i = a + of_nat j"
  shows "i = j"
proof -
  have "(of_nat i :: u16) = of_nat j" using assms(3) by simp
  then have "unat (of_nat i :: u16) = unat (of_nat j :: u16)" by simp
  then show ?thesis using assms(1,2) by (simp add: unat_of_nat)
qed

lemma queue_step:
  assumes q: "queue_of n s q" and n: "n < 2 ^ 16" and st: "lock_step n s t"
  shows "\<exists>c. c < n \<and> (queue_of n t (q @ [c]) \<and> c \<notin> set q \<or> queue_of n t q \<or> (q \<noteq> [] \<and> hd q = c \<and> queue_of n t (tl q)))"
  using st
proof (cases rule: lock_step.cases)
  case (draw c pc l l' t')
  have c: "c \<notin> set q" using q draw by (auto simp: queue_of_def in_set_conv_nth)
  have "queue_of n t (q @ [c])"
    using q draw c by (auto simp: queue_of_def take_ticket_def nth_append less_Suc_eq algebra_simps)
  then show ?thesis using c draw by blast
next
  case (spin c)
  then show ?thesis using q by blast
next
  case (enter c pc t' l)
  have "c \<in> set q" using q enter by (auto simp: queue_of_def)
  then obtain i where i: "i < length q" "q ! i = c" by (auto simp: in_set_conv_nth)
  have "serving_ticket l + of_nat i = serving_ticket l + of_nat 0"
    using q enter i by (auto simp: queue_of_def is_served_def)
  then have "i = 0" using ticket_inj [of i 0] i(1) queue_length [OF q] n by simp
  then have "q ! 0 = c" using i by simp
  moreover have "q ! j \<noteq> c" if "j < length q" "j \<noteq> 0" for j
    using that q calculation nth_eq_iff_index_eq [of q j 0] i(1) by (fastforce simp: queue_of_def)
  ultimately have "queue_of n t q" using q enter by (auto simp: queue_of_def)
  then show ?thesis using enter by blast
next
  case (release c pc l)
  have "c \<in> set q" using q release by (auto simp: queue_of_def)
  then obtain i where i: "i < length q" "q ! i = c" by (auto simp: in_set_conv_nth)
  then have "i = 0" using q release by (auto simp: queue_of_def)
  then obtain r where r: "q = c # r" using i by (cases q) auto
  have pcs: "pc (r ! j) = Spinning (serving_ticket l + 1 + of_nat j)" "r ! j \<noteq> c" if "j < length r" for j
  proof -
    have "Suc j < length q" "q ! Suc j = r ! j" using that r by auto
    then show "pc (r ! j) = Spinning (serving_ticket l + 1 + of_nat j)"
      using q release unfolding queue_of_def by (auto simp: add.assoc)
    show "r ! j \<noteq> c" using q that unfolding r queue_of_def by auto
  qed
  have "queue_of n t r"
    using q release pcs unfolding r queue_of_def by (auto simp: spin_unlock_def add.assoc)
  then show ?thesis using r release by auto
qed

lemma reachable_queue:
  assumes "lock_reachable n s" "n < 2 ^ 16"
  shows "\<exists>q. queue_of n s q"
  using assms
proof (induction rule: lock_reachable.induct)
  case start
  have "queue_of n (SPINLOCK_INIT, \<lambda>_. Idle) []" by (simp add: queue_of_def SPINLOCK_INIT_def)
  then show ?case by blast
next
  case (step s t)
  then show ?case using queue_step by blast
qed

subsection \<open>Reader-writer locks\<close>

text \<open>
  \<open>kernel/rwlock.h\<close>: three counters changed under a spinlock, so each critical section is
  one atomic step. A reader that finds a writer active or waiting, and a writer that finds the
  lock busy, leave the state as it is and try again. The \<open>int32_t\<close> counters are kept as
  32-bit words: they are only incremented, decremented and compared with zero.
\<close>

record rwlock =
  rw_readers :: u32
  rw_writer :: u32
  rw_w_waiting :: u32

definition rwlock_init :: rwlock where
  "rwlock_init = \<lparr>rw_readers = 0, rw_writer = 0, rw_w_waiting = 0\<rparr>"

definition rwlock_read_try :: "rwlock \<Rightarrow> rwlock \<times> bool" where
  "rwlock_read_try rw =
     (if rw_writer rw = 0 \<and> rw_w_waiting rw = 0 then (rw\<lparr>rw_readers := rw_readers rw + 1\<rparr>, True)
      else (rw, False))"

definition rwlock_read_unlock :: "rwlock \<Rightarrow> rwlock" where
  "rwlock_read_unlock rw = rw\<lparr>rw_readers := rw_readers rw - 1\<rparr>"

definition rwlock_write_announce :: "rwlock \<Rightarrow> rwlock" where
  "rwlock_write_announce rw = rw\<lparr>rw_w_waiting := rw_w_waiting rw + 1\<rparr>"

definition rwlock_write_try :: "rwlock \<Rightarrow> rwlock \<times> bool" where
  "rwlock_write_try rw =
     (if rw_readers rw = 0 \<and> rw_writer rw = 0
      then (rw\<lparr>rw_writer := 1, rw_w_waiting := rw_w_waiting rw - 1\<rparr>, True)
      else (rw, False))"

definition rwlock_write_unlock :: "rwlock \<Rightarrow> rwlock" where
  "rwlock_write_unlock rw = rw\<lparr>rw_writer := 0\<rparr>"

datatype rw_pc = Out | Reading | WWaiting | Writing

inductive rw_step :: "nat \<Rightarrow> rwlock \<times> (nat \<Rightarrow> rw_pc) \<Rightarrow> rwlock \<times> (nat \<Rightarrow> rw_pc) \<Rightarrow> bool" for n where
  rd: "c < n \<Longrightarrow> pc c = Out \<Longrightarrow> rwlock_read_try l = (l', ok) \<Longrightarrow>
     rw_step n (l, pc) (l', if ok then pc(c := Reading) else pc)"
| rd_done: "c < n \<Longrightarrow> pc c = Reading \<Longrightarrow> rw_step n (l, pc) (rwlock_read_unlock l, pc(c := Out))"
| announce: "c < n \<Longrightarrow> pc c = Out \<Longrightarrow> rw_step n (l, pc) (rwlock_write_announce l, pc(c := WWaiting))"
| wr: "c < n \<Longrightarrow> pc c = WWaiting \<Longrightarrow> rwlock_write_try l = (l', ok) \<Longrightarrow>
     rw_step n (l, pc) (l', if ok then pc(c := Writing) else pc)"
| wr_done: "c < n \<Longrightarrow> pc c = Writing \<Longrightarrow> rw_step n (l, pc) (rwlock_write_unlock l, pc(c := Out))"

inductive rw_reachable :: "nat \<Rightarrow> rwlock \<times> (nat \<Rightarrow> rw_pc) \<Rightarrow> bool" for n where
  rw_start: "rw_reachable n (rwlock_init, \<lambda>_. Out)"
| rw_next: "rw_reachable n s \<Longrightarrow> rw_step n s t \<Longrightarrow> rw_reachable n t"

definition in_state :: "nat \<Rightarrow> (nat \<Rightarrow> rw_pc) \<Rightarrow> rw_pc \<Rightarrow> nat set" where
  "in_state n pc x = {c. c < n \<and> pc c = x}"

definition rw_inv :: "nat \<Rightarrow> rwlock \<times> (nat \<Rightarrow> rw_pc) \<Rightarrow> bool" where
  "rw_inv n s \<longleftrightarrow>
     rw_readers (fst s) = of_nat (card (in_state n (snd s) Reading)) \<and>
     rw_w_waiting (fst s) = of_nat (card (in_state n (snd s) WWaiting)) \<and>
     rw_writer (fst s) = of_nat (card (in_state n (snd s) Writing)) \<and>
     card (in_state n (snd s) Writing) \<le> 1 \<and>
     (card (in_state n (snd s) Writing) = 0 \<or> card (in_state n (snd s) Reading) = 0)"

lemma finite_in_state [simp]: "finite (in_state n pc x)"
  by (simp add: in_state_def)

lemma in_state_upd:
  "c < n \<Longrightarrow> in_state n (pc(c := y)) x =
     (if x = y then insert c (in_state n pc x) else in_state n pc x - {c})"
  by (auto simp: in_state_def)

lemma card_in_state_upd:
  assumes "c < n" "pc c \<noteq> y"
  shows "card (in_state n (pc(c := y)) x) =
    (if x = y then Suc (card (in_state n pc x)) else if x = pc c then card (in_state n pc x) - 1
     else card (in_state n pc x))"
proof -
  have "c \<in> in_state n pc x \<longleftrightarrow> pc c = x" using assms(1) by (simp add: in_state_def)
  then show ?thesis using assms by (auto simp: in_state_upd)
qed

lemma card_in_state_pos: "c < n \<Longrightarrow> pc c = x \<Longrightarrow> 0 < card (in_state n pc x)"
  by (auto simp: card_gt_0_iff in_state_def)

lemma of_nat_card_zero:
  assumes "n < 2 ^ 31"
  shows "(of_nat (card (in_state n pc x)) :: u32) = 0 \<longleftrightarrow> card (in_state n pc x) = 0"
proof -
  have "card (in_state n pc x) \<le> card {..<n}" by (rule card_mono) (auto simp: in_state_def)
  then have "card (in_state n pc x) < 2 ^ 32" using assms by simp
  then have "unat (of_nat (card (in_state n pc x)) :: u32) = card (in_state n pc x)"
    by (simp add: unat_of_nat)
  then show ?thesis by (simp add: unat_eq_0 [symmetric] del: unat_eq_0)
qed

lemma rw_inv_step:
  assumes inv: "rw_inv n s" and n: "n < 2 ^ 31" and st: "rw_step n s t"
  shows "rw_inv n t"
  using st
proof (cases rule: rw_step.cases)
  case (rd c pc l l' ok)
  note Z = of_nat_card_zero [OF n, of pc]
  show ?thesis
  proof (cases ok)
    case True
    then show ?thesis
      using rd inv card_in_state_upd [of c n pc Reading] Z
      by (auto simp: rw_inv_def rwlock_read_try_def  split: if_splits)
  next
    case False
    then show ?thesis using rd inv by (auto simp: rwlock_read_try_def split: if_splits)
  qed
next
  case (rd_done c pc l)
  then have "0 < card (in_state n pc Reading)" by (simp add: card_in_state_pos)
  then show ?thesis
    using rd_done inv card_in_state_upd [of c n pc Out]
    by (auto simp: rw_inv_def rwlock_read_unlock_def of_nat_diff)
next
  case (announce c pc l)
  then show ?thesis
    using inv card_in_state_upd [of c n pc WWaiting]
    by (auto simp: rw_inv_def rwlock_write_announce_def)
next
  case (wr c pc l l' ok)
  note Z = of_nat_card_zero [OF n, of pc]
  have p: "0 < card (in_state n pc WWaiting)" using wr by (simp add: card_in_state_pos)
  show ?thesis
  proof (cases ok)
    case True
    then have e: "card (in_state n pc Reading) = 0" "card (in_state n pc Writing) = 0"
      using wr inv Z by (auto simp: rw_inv_def rwlock_write_try_def split: if_splits)
    show ?thesis
      using True wr inv card_in_state_upd [of c n pc Writing] e p
      by (auto simp: rw_inv_def rwlock_write_try_def of_nat_diff split: if_splits)
  next
    case False
    then show ?thesis using wr inv by (auto simp: rwlock_write_try_def split: if_splits)
  qed
next
  case (wr_done c pc l)
  then have "0 < card (in_state n pc Writing)" by (simp add: card_in_state_pos)
  then have "card (in_state n pc Writing) = 1" using inv wr_done by (auto simp: rw_inv_def)
  then show ?thesis
    using wr_done inv card_in_state_upd [of c n pc Out]
    by (auto simp: rw_inv_def rwlock_write_unlock_def)
qed

lemma rw_reachable_inv: "rw_reachable n s \<Longrightarrow> n < 2 ^ 31 \<Longrightarrow> rw_inv n s"
proof (induction rule: rw_reachable.induct)
  case rw_start
  then show ?case by (simp add: rw_inv_def rwlock_init_def in_state_def)
next
  case (rw_next s t)
  then show ?case using rw_inv_step by blast
qed

subsection \<open>Properties\<close>

text \<open>C13: mutual exclusion and progress of the ticket lock. In every state that \<open>n < 2^16\<close>
  processors can reach, at most one processor is inside the critical section, and whenever one
  waits, either some processor is inside or some waiting processor holds the ticket being
  served and can enter: the 16-bit wrap-around of the tickets never confuses two of them.\<close>

theorem spinlock_mutual_exclusion:
  assumes "lock_reachable n (l, pc)" "n < 2 ^ 16"
  shows "(\<forall>c d. pc c = Holding \<and> pc d = Holding \<longrightarrow> c = d) \<and>
    (\<forall>c t. pc c = Spinning t \<longrightarrow> (\<exists>d < n. pc d = Holding \<or> (\<exists>u. pc d = Spinning u \<and> is_served l u)))"
proof -
  obtain q where q: "queue_of n (l, pc) q" using reachable_queue [OF assms] by blast
  have mem: "c \<in> set q" if "pc c \<noteq> Idle" for c using q that by (auto simp: queue_of_def)
  have hold: "q \<noteq> [] \<and> c = q ! 0" if "pc c = Holding" for c
    using q mem [of c] that by (auto simp: queue_of_def in_set_conv_nth)
  have head: "q ! 0 < n \<and> (pc (q ! 0) = Holding \<or> pc (q ! 0) = Spinning (serving_ticket l))" if "q \<noteq> []"
  proof -
    have "q ! 0 \<in> set q" using that by simp
    then have "q ! 0 < n" using q by (auto simp: queue_of_def)
    then show ?thesis using q that by (auto simp: queue_of_def)
  qed
  have "c = d" if "pc c = Holding" "pc d = Holding" for c d using hold [of c] hold [of d] that by simp
  moreover have "\<exists>d < n. pc d = Holding \<or> (\<exists>u. pc d = Spinning u \<and> is_served l u)"
    if "pc c = Spinning t" for c t
  proof -
    have "q \<noteq> []" using mem [of c] that by auto
    then show ?thesis using head by (intro exI [of _ "q ! 0"]) (auto simp: is_served_def)
  qed
  ultimately show ?thesis by blast
qed

theorem spinlock_mutual_exclusion_witness:
  "\<exists>l pc. lock_reachable 2 (l, pc) \<and> pc 0 = Holding \<and> pc 1 \<noteq> Holding"
proof -
  let ?l = "\<lparr>next_ticket = 1, serving_ticket = 0\<rparr>"
  have "lock_reachable 2 (?l, (\<lambda>_. Idle)(0 := Spinning 0))"
    by (rule lock_reachable.step [OF lock_reachable.start], rule lock_step.draw)
      (simp_all add: take_ticket_def SPINLOCK_INIT_def)
  then have r: "lock_reachable 2 (?l, ((\<lambda>_. Idle)(0 := Spinning 0))(0 := Holding))"
    by (rule lock_reachable.step, intro lock_step.enter) (simp_all add: is_served_def)
  define pc :: "nat \<Rightarrow> cpu_pc" where "pc = ((\<lambda>_. Idle)(0 := Spinning 0))(0 := Holding)"
  have r': "lock_reachable 2 (?l, pc)" "pc 0 = Holding" using r by (simp_all add: pc_def)
  have "\<forall>c d. pc c = Holding \<and> pc d = Holding \<longrightarrow> c = d"
    using spinlock_mutual_exclusion [OF r'(1)] by simp
  then have "pc 1 \<noteq> Holding" using r'(2) zero_neq_one by blast
  then show ?thesis using r' by blast
qed

text \<open>C14: first come, first served. Every step of a reachable system either appends the processor
  that draws a ticket at the end of the queue, or leaves the queue as it is, or removes its
  first processor: nobody overtakes.\<close>

theorem spinlock_fifo:
  assumes "lock_reachable n s" "n < 2 ^ 16" "lock_step n s t" "queue_of n s q"
  shows "\<exists>c < n. (queue_of n t (q @ [c]) \<and> c \<notin> set q) \<or> queue_of n t q \<or>
    (q \<noteq> [] \<and> hd q = c \<and> queue_of n t (tl q))"
  using queue_step [OF assms(4,2,3)] by blast

theorem spinlock_fifo_witness:
  "\<exists>c < 2. queue_of 2 (\<lparr>next_ticket = 1, serving_ticket = 0\<rparr>, (\<lambda>_. Idle)(0 := Spinning 0)) [c]"
proof -
  let ?s = "(SPINLOCK_INIT, \<lambda>_. Idle)"
  let ?t = "(\<lparr>next_ticket = 1, serving_ticket = 0\<rparr>, (\<lambda>_. Idle)(0 := Spinning 0))"
  have st: "lock_step 2 ?s ?t"
    by (rule lock_step.draw) (simp_all add: take_ticket_def SPINLOCK_INIT_def)
  have q: "queue_of 2 ?s []" by (simp add: queue_of_def SPINLOCK_INIT_def)
  have no: "\<not> queue_of 2 ?t []" by (simp add: queue_of_def)
  from spinlock_fifo [OF lock_reachable.start _ st q] no show ?thesis by auto
qed

text \<open>C15: the reader-writer lock, with fewer than \<open>2 ^ 31\<close> processors. In every reachable state there is at most one
  writer, no reader is inside together with a writer, the three fields of the lock count the readers, the
  writer (one or none) and the waiting writers, and no new reader gets in while a writer waits.\<close>

theorem rwlock_exclusion:
  assumes "rw_reachable n (l, pc)" "n < 2 ^ 31"
  shows "card (in_state n pc Writing) \<le> 1 \<and> (in_state n pc Writing = {} \<or> in_state n pc Reading = {}) \<and>
    rw_readers l = of_nat (card (in_state n pc Reading)) \<and> rw_writer l = (if in_state n pc Writing = {} then 0 else 1) \<and>
    rw_w_waiting l = of_nat (card (in_state n pc WWaiting)) \<and>
    (in_state n pc WWaiting = {} \<or> rwlock_read_try l = (l, False))"
proof -
  note I = rw_reachable_inv [OF assms, unfolded rw_inv_def fst_conv snd_conv]
  have "card (in_state n pc Writing) = (if in_state n pc Writing = {} then 0 else 1)"
    using I card_gt_0_iff [of "in_state n pc Writing"] by (auto simp: le_Suc_eq)
  then have "rw_writer l = (if in_state n pc Writing = {} then 0 else 1)" using I by simp
  then show ?thesis
    using I of_nat_card_zero [OF assms(2), of pc WWaiting] by (auto simp: rwlock_read_try_def)
qed

theorem rwlock_exclusion_witness:
  "\<exists>l pc. rw_reachable 2 (l, pc) \<and> in_state 2 pc Writing = {} \<and> rwlock_read_try l = (l, False)"
proof -
  have r: "rw_reachable 2 (rwlock_write_announce rwlock_init, (\<lambda>_. Out)(0 := WWaiting))"
    by (rule rw_reachable.rw_next [OF rw_reachable.rw_start], rule rw_step.announce) simp_all
  have "in_state 2 ((\<lambda>_. Out)(0 := WWaiting)) WWaiting \<noteq> {}" "in_state 2 ((\<lambda>_. Out)(0 := WWaiting)) Writing = {}"
    by (auto simp: in_state_def)
  then show ?thesis using rwlock_exclusion [OF r] r by (intro exI conjI) auto
qed

end
