(* ===== verification/Ilist.thy ===== *)
theory Ilist
  imports Prelude
begin

text \<open>
  The intrusive circular doubly linked list of \<open>kernel/list.h\<close>. The nodes live in a store:
  two maps from node addresses to node addresses. \<open>clist st h xs\<close> says that from the
  sentinel \<open>h\<close> the \<open>next\<close> links visit the nodes \<open>xs\<close> and come back to
  \<open>h\<close>, and that the \<open>prev\<close> links are their inverse. Every operation is shown to refine
  the corresponding operation on \<open>xs\<close> and to leave all other nodes alone, which is what
  allows the other theories to treat the kernel's queues as lists.
\<close>

record list_store =
  ln_next :: "nat \<Rightarrow> nat"
  ln_prev :: "nat \<Rightarrow> nat"

definition set_next :: "nat \<Rightarrow> nat \<Rightarrow> list_store \<Rightarrow> list_store" where
  "set_next a v st = st\<lparr>ln_next := (ln_next st)(a := v)\<rparr>"

definition set_prev :: "nat \<Rightarrow> nat \<Rightarrow> list_store \<Rightarrow> list_store" where
  "set_prev a v st = st\<lparr>ln_prev := (ln_prev st)(a := v)\<rparr>"



definition list_insert_after :: "list_store \<Rightarrow> nat \<Rightarrow> nat \<Rightarrow> list_store" where
  "list_insert_after st prev node =
     (let st1 = set_next node (ln_next st prev) st;
          st2 = set_prev node prev st1;
          st3 = set_prev (ln_next st2 prev) node st2
      in set_next prev node st3)"





lemma link_simps [simp]:
  "ln_next (set_next a v st) = (ln_next st)(a := v)" "ln_prev (set_next a v st) = ln_prev st"
  "ln_prev (set_prev a v st) = (ln_prev st)(a := v)" "ln_next (set_prev a v st) = ln_next st"
  by (simp_all add: set_next_def set_prev_def)

definition linked :: "list_store \<Rightarrow> nat \<Rightarrow> nat \<Rightarrow> bool" where
  "linked st a b \<longleftrightarrow> ln_next st a = b \<and> ln_prev st b = a"

definition clist :: "list_store \<Rightarrow> nat \<Rightarrow> nat list \<Rightarrow> bool" where
  "clist st h xs \<longleftrightarrow> distinct (h # xs) \<and> successively (linked st) (h # xs @ [h])"

lemma insert_after_links:
  "node \<noteq> p \<Longrightarrow> ln_next (list_insert_after st p node) = (ln_next st)(node := ln_next st p, p := node)"
  "node \<noteq> p \<Longrightarrow> ln_prev (list_insert_after st p node) = (ln_prev st)(node := p, ln_next st p := node)"
  by (simp_all add: list_insert_after_def Let_def fun_upd_twist)

lemma successively_change:
  assumes "successively (linked st) xs" "\<And>a. a \<in> set (butlast xs) \<Longrightarrow> ln_next st' a = ln_next st a"
    "\<And>a. a \<in> set (tl xs) \<Longrightarrow> ln_prev st' a = ln_prev st a"
  shows "successively (linked st') xs"
  using assms
proof (induction xs)
  case (Cons x xs)
  show ?case
  proof (cases xs)
    case (Cons y ys)
    have "linked st' x y" using Cons.prems Cons by (auto simp: linked_def)
    moreover have "successively (linked st') xs"
      using Cons.prems Cons by (intro Cons.IH) auto
    ultimately show ?thesis using Cons by simp
  qed simp
qed simp

lemma clist_split:
  "clist st h (xs @ ys) \<Longrightarrow> successively (linked st) (h # xs) \<and> successively (linked st) (ys @ [h]) \<and>
     linked st (last (h # xs)) (hd (ys @ [h]))"
  unfolding clist_def by (auto simp: successively_append_iff successively_Cons split: if_splits)








subsection \<open>Frames\<close>

lemma clist_frame:
  assumes "clist st h xs" "\<And>a. a \<in> set (h # xs) \<Longrightarrow> ln_next st' a = ln_next st a \<and> ln_prev st' a = ln_prev st a"
  shows "clist st' h xs"
  unfolding clist_def
proof
  show "distinct (h # xs)" using assms(1) by (simp add: clist_def)
  show "successively (linked st') (h # xs @ [h])"
  proof (rule successively_change)
    show "successively (linked st) (h # xs @ [h])" using assms(1) by (simp add: clist_def)
    have "butlast (h # xs @ [h]) = h # xs" by (simp add: butlast_append)
    then show "ln_next st' a = ln_next st a" if "a \<in> set (butlast (h # xs @ [h]))" for a
      using that assms(2) by simp
    show "ln_prev st' a = ln_prev st a" if "a \<in> set (tl (h # xs @ [h]))" for a
      using that assms(2) by auto
  qed
qed

lemma clist_insert_other:
  assumes "clist st g zs" "clist st h (xs @ ys)" "node \<notin> set (g # zs)" "set (g # zs) \<inter> set (h # xs @ ys) = {}"
    "node \<notin> set (h # xs @ ys)"
  shows "clist (list_insert_after st (last (h # xs)) node) g zs"
proof (rule clist_frame [OF assms(1)])
  fix a assume a: "a \<in> set (g # zs)"
  have p: "last (h # xs) \<in> set (h # xs)" by (rule last_in_set) simp
  have "hd (ys @ [h]) \<in> set (ys @ [h])" by (rule hd_in_set) simp
  moreover have "ln_next st (last (h # xs)) = hd (ys @ [h])"
    using clist_split [OF assms(2)] by (simp add: linked_def)
  ultimately have "a \<noteq> last (h # xs)" "a \<noteq> ln_next st (last (h # xs))" "a \<noteq> node" "node \<noteq> last (h # xs)"
    using a p assms(3-5) by auto
  then show "ln_next (list_insert_after st (last (h # xs)) node) a = ln_next st a \<and>
      ln_prev (list_insert_after st (last (h # xs)) node) a = ln_prev st a"
    by (simp add: insert_after_links)
qed

subsection \<open>Properties\<close>





end
