(* ===== verification/Errno.thy ===== *)
theory Errno
  imports Prelude
begin

text \<open>
  Error numbers of \<open>kernel/errno.h\<close>; a function that fails returns one of them negated.
\<close>

definition ENOMEM :: int where "ENOMEM = 1"
definition EAGAIN :: int where "EAGAIN = 5"
definition ESRCH :: int where "ESRCH = 17"
definition ENOENT :: int where "ENOENT = 3"
definition EINVAL :: int where "EINVAL = 2"
definition ENOSPC :: int where "ENOSPC = 6"
definition ENOTSUP :: int where "ENOTSUP = 7"
definition EBADF :: int where "EBADF = 8"
definition EMFILE :: int where "EMFILE = 9"
definition EIO :: int where "EIO = 16"

lemmas errno_defs = ENOENT_def EINVAL_def ENOSPC_def ENOTSUP_def EBADF_def EMFILE_def EIO_def

end
