(* ===== verification/Sched.thy ===== *)
theory Sched
  imports Pmm_Spec Spinlock Bitmap_Alloc Ilist Errno
begin

text \<open>
  The scheduler of \<open>kernel/sched.c\<close> with \<open>kernel/task.h\<close>, \<open>kernel/qos.h\<close>,
  \<open>kernel/percpu.h\<close> and the wait queues of \<open>kernel/waitqueue.c\<close>, on the boot processor.

  Tasks are slots of the static pool, pointers to them are slot numbers. The run, sleep,
  deadline, dead and wait queues are lists of slots: \<open>Ilist\<close> shows that the intrusive
  linked lists behave as such as long as a task is in at most one of them, which is part of the
  invariant proved in \<open>Sched_Proofs\<close>. The scheduler lock is the ticket lock of
  \<open>Spinlock\<close>: taking it while it is held is \<open>Inl Deadlock\<close>. A context switch
  replaces the current task; the resumed task then releases the lock. Requests to unmap a guard
  page are recorded in \<open>guard_pages\<close>; the word at the bottom of each stack is kept in
  \<open>stack_word\<close>.
\<close>

subsection \<open>Data\<close>

datatype task_state = TASK_READY | TASK_RUNNING | TASK_SLEEPING | TASK_DEAD

record task =
  rsp :: u64
  stack_phys :: u64
  tid :: u32
  state :: task_state
  priority :: nat
  entry :: nat
  t_name :: "u8 list"
  ticks_used :: u64
  sleep_until :: u64
  finished :: bool
  join_wq :: "nat option"
  qos :: nat
  deadline :: u64
  watchdog_ticks :: u32

record sched =
  sched_lock :: spinlock
  prio_queues :: "nat list list"
  prio_bitmap :: u64
  sleep_queue :: "nat list"
  deadline_queue :: "nat list"
  dead_queue :: "nat list"
  waitqs :: "nat list list"
  task_pool :: "task list"
  tcb_bitmap :: u64
  next_tid :: u32
  current :: "nat option"
  idle :: "nat option"
  need_resched :: bool
  pit_ticks :: u64
  pmm :: pmm_state
  stack_word :: "u64 \<Rightarrow> u64"
  guard_pages :: "u64 list"
  hhdm_offset :: u64

definition TASK_PRIO_LEVELS :: nat where "TASK_PRIO_LEVELS = 64"
definition TASK_PRIO_HIGH :: nat where "TASK_PRIO_HIGH = 0"
definition TASK_PRIO_NORMAL :: nat where "TASK_PRIO_NORMAL = 32"
definition TASK_STACK_CANARY :: u64 where "TASK_STACK_CANARY = 0xDEADC0DEDEADC0DE"
definition TASK_STACK_SIZE :: u64 where "TASK_STACK_SIZE = 4 * PAGE_SIZE"
definition MAX_TASKS :: nat where "MAX_TASKS = 64"

definition empty_task :: task where
  "empty_task = \<lparr>rsp = 0, stack_phys = 0, tid = 0, state = TASK_READY, priority = 0, entry = 0,
     t_name = replicate 16 0, ticks_used = 0, sleep_until = 0, finished = False, join_wq = None,
     qos = 0, deadline = 0, watchdog_ticks = 0\<rparr>"

definition upd_task :: "sched \<Rightarrow> nat \<Rightarrow> (task \<Rightarrow> task) \<Rightarrow> sched" where
  "upd_task s t f = s\<lparr>task_pool := (task_pool s)[t := f (task_pool s ! t)]\<rparr>"

subsection \<open>Quality of service\<close>

definition qos_priority :: "nat list" where
  "qos_priority = [4, 16, 32, 48, 56]"

definition qos_quantum :: "u64 list" where
  "qos_quantum = [1, 2, 2, 4, 8]"

definition QOS_DEFAULT :: nat where "QOS_DEFAULT = 2"
definition QOS_COUNT :: nat where "QOS_COUNT = 5"

definition task_set_qos :: "sched \<Rightarrow> nat \<Rightarrow> nat \<Rightarrow> sched" where
  "task_set_qos s t q =
     (let q' = (if QOS_COUNT \<le> q then QOS_DEFAULT else q)
      in upd_task s t (\<lambda>k. k\<lparr>priority := qos_priority ! q', qos := q'\<rparr>))"

definition task_quantum :: "task \<Rightarrow> u64" where
  "task_quantum k = (if QOS_COUNT \<le> qos k then 2 else qos_quantum ! qos k)"

subsection \<open>The lock\<close>

definition lock_sched :: "sched \<Rightarrow> sched res" where
  "lock_sched s = bnd (spin_lock (sched_lock s)) (\<lambda>l. Inr (s\<lparr>sched_lock := l\<rparr>))"

definition unlock_sched :: "sched \<Rightarrow> sched" where
  "unlock_sched s = s\<lparr>sched_lock := spin_unlock (sched_lock s)\<rparr>"

subsection \<open>Ready queues\<close>

definition bitmap_find_first :: "u64 \<Rightarrow> nat option" where
  "bitmap_find_first bm = (if bm = 0 then None else bsfq bm)"

fun insert_deadline :: "task list \<Rightarrow> nat \<Rightarrow> nat list \<Rightarrow> nat list" where
  "insert_deadline ts t [] = [t]"
| "insert_deadline ts t (q # qs) =
     (if deadline (ts ! t) < deadline (ts ! q) then t # q # qs else q # insert_deadline ts t qs)"

definition deadline_enqueue :: "sched \<Rightarrow> nat \<Rightarrow> sched" where
  "deadline_enqueue s t = s\<lparr>deadline_queue := insert_deadline (task_pool s) t (deadline_queue s)\<rparr>"

definition bitmap_enqueue :: "sched \<Rightarrow> nat \<Rightarrow> sched" where
  "bitmap_enqueue s t =
     (if 0 < deadline (task_pool s ! t) then deadline_enqueue s t
      else let p = priority (task_pool s ! t) in
        s\<lparr>prio_queues := (prio_queues s)[p := prio_queues s ! p @ [t]],
          prio_bitmap := prio_bitmap s OR pow2 p\<rparr>)"

definition bitmap_dequeue :: "sched \<Rightarrow> (sched \<times> nat option) res" where
  "bitmap_dequeue s =
     (case bitmap_find_first (prio_bitmap s) of
        None \<Rightarrow> Inr (s, None)
      | Some p \<Rightarrow>
          (case prio_queues s ! p of
             [] \<Rightarrow> Inl Fault
           | t # rest \<Rightarrow>
               Inr (s\<lparr>prio_queues := (prio_queues s)[p := rest],
                      prio_bitmap := (if rest = [] then prio_bitmap s AND NOT (pow2 p) else prio_bitmap s)\<rparr>,
                    Some t)))"

definition edf_pick :: "sched \<Rightarrow> sched \<times> nat option" where
  "edf_pick s = (case deadline_queue s of [] \<Rightarrow> (s, None) | t # rest \<Rightarrow> (s\<lparr>deadline_queue := rest\<rparr>, Some t))"

subsection \<open>Task slots\<close>

definition alloc_tcb :: "sched \<Rightarrow> sched \<times> nat option" where
  "alloc_tcb s =
     (if tcb_bitmap s = 0 then (s, None)
      else case bsfq (tcb_bitmap s) of
          None \<Rightarrow> (s, None)
        | Some slot \<Rightarrow>
            (s\<lparr>tcb_bitmap := tcb_bitmap s AND NOT (pow2 slot),
               task_pool := (task_pool s)[slot := empty_task]\<rparr>, Some slot))"

definition free_tcb :: "sched \<Rightarrow> nat \<Rightarrow> sched" where
  "free_tcb s slot =
     (if slot < MAX_TASKS then s\<lparr>tcb_bitmap := tcb_bitmap s OR pow2 slot\<rparr> else s)"

definition find_task :: "sched \<Rightarrow> u32 \<Rightarrow> nat option" where
  "find_task s i =
     List.find (\<lambda>t. tcb_bitmap s AND pow2 t = 0 \<and> tid (task_pool s ! t) = i) [0..<MAX_TASKS]"

subsection \<open>Stack canary\<close>

definition stack_canary_set :: "sched \<Rightarrow> nat \<Rightarrow> sched" where
  "stack_canary_set s t =
     (let p = stack_phys (task_pool s ! t) in
      if p = 0 then s else s\<lparr>stack_word := (stack_word s)(p := TASK_STACK_CANARY)\<rparr>)"

definition stack_canary_ok :: "sched \<Rightarrow> nat \<Rightarrow> bool" where
  "stack_canary_ok s t =
     (let p = stack_phys (task_pool s ! t) in p = 0 \<or> stack_word s p = TASK_STACK_CANARY)"

subsection \<open>Creating tasks\<close>

definition stack_alloc :: "sched \<Rightarrow> (sched \<times> u64) res" where
  "stack_alloc s = bnd (pmm_alloc_pages (pmm s) 2)
     (\<lambda>(m, a). Inr (s\<lparr>pmm := m, stack_word := (if a = 0 then stack_word s else (stack_word s)(a := 0))\<rparr>, a))"

definition new_task :: "sched \<Rightarrow> u64 \<Rightarrow> u8 list \<Rightarrow> nat \<Rightarrow> task \<Rightarrow> task" where
  "new_task s a nm fn k =
     k\<lparr>stack_phys := a, tid := next_tid s, state := TASK_READY, priority := TASK_PRIO_NORMAL,
       qos := QOS_DEFAULT, deadline := 0, watchdog_ticks := 0, entry := fn, ticks_used := 0,
       sleep_until := 0, finished := False, t_name := take 15 (nm @ replicate 15 0) @ [0],
       rsp := a + hhdm_offset s + TASK_STACK_SIZE - 56\<rparr>"

definition task_create :: "sched \<Rightarrow> u8 list \<Rightarrow> nat \<Rightarrow> (sched \<times> int) res" where
  "task_create s0 nm fn =
     bnd (lock_sched s0) (\<lambda>s1.
       case alloc_tcb s1 of
         (s2, None) \<Rightarrow> Inr (unlock_sched s2, - ENOMEM)
       | (s2, Some t) \<Rightarrow>
           bnd (stack_alloc s2) (\<lambda>(s3, a).
             if a = 0 then Inr (unlock_sched (free_tcb s3 t), - ENOMEM)
             else
               let s4 = upd_task s3 t (new_task s3 a nm fn);
                   s5 = stack_canary_set (s4\<lparr>next_tid := next_tid s3 + 1\<rparr>) t;
                   s6 = s5\<lparr>guard_pages := guard_pages s5 @ [a + hhdm_offset s5]\<rparr>
               in Inr (unlock_sched (bitmap_enqueue s6 t), sint (next_tid s3))))"

subsection \<open>Choosing the next task\<close>

definition wake_one_sleeper :: "u64 \<Rightarrow> sched \<Rightarrow> nat \<Rightarrow> sched" where
  "wake_one_sleeper now s t =
     (if sleep_until (task_pool s ! t) \<le> now then
        let s1 = s\<lparr>sleep_queue := remove1 t (sleep_queue s)\<rparr>
        in bitmap_enqueue (upd_task s1 t (\<lambda>k. k\<lparr>state := TASK_READY\<rparr>)) t
      else s)"

definition wake_sleepers :: "sched \<Rightarrow> sched" where
  "wake_sleepers s = foldl (wake_one_sleeper (pit_ticks s)) s (sleep_queue s)"

definition pick_next :: "sched \<Rightarrow> (sched \<times> nat) res" where
  "pick_next s =
     (case edf_pick s of
        (s1, Some t) \<Rightarrow> Inr (s1, t)
      | (s1, None) \<Rightarrow>
          (if prio_bitmap s1 \<noteq> 0 then
             bnd (bitmap_dequeue s1) (\<lambda>(s2, r).
               case r of
                 Some t \<Rightarrow> Inr (s2, t)
               | None \<Rightarrow> (case idle s2 of Some i \<Rightarrow> Inr (s2, i) | None \<Rightarrow> Inl Fault))
           else (case idle s1 of Some i \<Rightarrow> Inr (s1, i) | None \<Rightarrow> Inl Fault)))"

definition switch_to :: "sched \<Rightarrow> nat \<Rightarrow> nat \<Rightarrow> sched" where
  "switch_to s old nxt =
     (let s1 = (if state (task_pool s ! old) = TASK_RUNNING
                then bitmap_enqueue (upd_task s old (\<lambda>k. k\<lparr>state := TASK_READY\<rparr>)) old else s);
          s2 = upd_task s1 nxt (\<lambda>k. k\<lparr>state := TASK_RUNNING\<rparr>);
          s3 = s2\<lparr>current := Some nxt\<rparr>
      in upd_task s3 nxt (\<lambda>k. k\<lparr>watchdog_ticks := 0\<rparr>))"

definition schedule :: "sched \<Rightarrow> sched res" where
  "schedule s0 =
     bnd (lock_sched s0) (\<lambda>s1.
       case current s1 of
         None \<Rightarrow> Inl Fault
       | Some cur \<Rightarrow>
           let s2 = wake_sleepers (s1\<lparr>need_resched := False\<rparr>) in
           kassert (stack_canary_ok s2 cur)
             (bnd (pick_next s2) (\<lambda>(s3, nxt).
               if nxt = cur then Inr (unlock_sched s3)
               else Inr (unlock_sched (switch_to s3 cur nxt)))))"

definition sched_yield :: "sched \<Rightarrow> sched res" where
  "sched_yield s = schedule s"

definition sched_add_ready :: "sched \<Rightarrow> nat \<Rightarrow> sched res" where
  "sched_add_ready s t = bnd (lock_sched s) (\<lambda>s1. Inr (unlock_sched (bitmap_enqueue s1 t)))"

subsection \<open>Wait queues\<close>

definition push_waiter :: "sched \<Rightarrow> nat \<Rightarrow> nat \<Rightarrow> sched" where
  "push_waiter s w t =
     (let s1 = upd_task s t (\<lambda>k. k\<lparr>state := TASK_SLEEPING\<rparr>)
      in s1\<lparr>waitqs := (waitqs s1)[w := waitqs s1 ! w @ [t]]\<rparr>)"

definition wq_wait :: "sched \<Rightarrow> nat \<Rightarrow> sched res" where
  "wq_wait s w = (case current s of None \<Rightarrow> Inl Fault | Some c \<Rightarrow> schedule (push_waiter s w c))"

definition wake_head :: "sched \<Rightarrow> nat \<Rightarrow> nat \<Rightarrow> nat list \<Rightarrow> sched res" where
  "wake_head s w t rest =
     sched_add_ready (upd_task (s\<lparr>waitqs := (waitqs s)[w := rest]\<rparr>) t (\<lambda>k. k\<lparr>state := TASK_READY\<rparr>)) t"

definition wq_wake_one :: "sched \<Rightarrow> nat \<Rightarrow> (sched \<times> bool) res" where
  "wq_wake_one s w =
     (case waitqs s ! w of
        [] \<Rightarrow> Inr (s, False)
      | t # rest \<Rightarrow> bnd (wake_head s w t rest) (\<lambda>s1. Inr (s1, True)))"

fun wake_list :: "sched \<Rightarrow> nat \<Rightarrow> nat list \<Rightarrow> sched res" where
  "wake_list s w [] = Inr s"
| "wake_list s w (t # rest) = bnd (wake_head s w t rest) (\<lambda>s1. wake_list s1 w rest)"

definition wq_wake_all :: "sched \<Rightarrow> nat \<Rightarrow> (sched \<times> int) res" where
  "wq_wake_all s w =
     (let ts = waitqs s ! w in bnd (wake_list s w ts) (\<lambda>s1. Inr (s1, int (length ts))))"

subsection \<open>Leaving, sleeping, joining\<close>

definition wake_joiners :: "sched \<Rightarrow> nat \<Rightarrow> sched res" where
  "wake_joiners s t =
     (case join_wq (task_pool s ! t) of None \<Rightarrow> Inr s | Some w \<Rightarrow> bnd (wq_wake_all s w) (\<lambda>(s1, n). Inr s1))"

definition task_exit :: "sched \<Rightarrow> sched res" where
  "task_exit s0 =
     bnd (lock_sched s0) (\<lambda>s1.
       case current s1 of
         None \<Rightarrow> Inl Fault
       | Some self \<Rightarrow>
           let s2 = upd_task s1 self (\<lambda>k. k\<lparr>state := TASK_DEAD, finished := True\<rparr>) in
           bnd (wake_joiners s2 self) (\<lambda>s3.
             schedule (unlock_sched (s3\<lparr>dead_queue := dead_queue s3 @ [self]\<rparr>))))"

definition task_sleep :: "sched \<Rightarrow> u64 \<Rightarrow> sched res" where
  "task_sleep s0 ms =
     bnd (lock_sched s0) (\<lambda>s1.
       case current s1 of
         None \<Rightarrow> Inl Fault
       | Some self \<Rightarrow>
           let ticks0 = ms div 10;
               ticks = (if ticks0 = 0 then 1 else ticks0);
               s2 = upd_task s1 self (\<lambda>k. k\<lparr>sleep_until := pit_ticks s1 + ticks, state := TASK_SLEEPING\<rparr>);
               s3 = s2\<lparr>sleep_queue := sleep_queue s2 @ [self]\<rparr>
           in schedule (unlock_sched s3))"

datatype join_outcome = JoinError int | JoinDone | JoinBlocked

definition task_join :: "sched \<Rightarrow> u32 \<Rightarrow> (sched \<times> join_outcome) res" where
  "task_join s0 i =
     bnd (lock_sched s0) (\<lambda>s1.
       case find_task s1 i of
         None \<Rightarrow> Inr (unlock_sched s1, JoinError (- ESRCH))
       | Some target \<Rightarrow>
           if finished (task_pool s1 ! target) then Inr (unlock_sched s1, JoinDone)
           else
             let w = length (waitqs s1);
                 s2 = s1\<lparr>waitqs := waitqs s1 @ [[]]\<rparr>;
                 s3 = (if join_wq (task_pool s2 ! target) = None
                       then upd_task s2 target (\<lambda>k. k\<lparr>join_wq := Some w\<rparr>) else s2);
                 s4 = unlock_sched s3
             in (case join_wq (task_pool s4 ! target) of
                   None \<Rightarrow> Inl Fault
                 | Some v \<Rightarrow> bnd (wq_wait s4 v) (\<lambda>s5. Inr (s5, JoinBlocked))))"

definition task_set_deadline :: "sched \<Rightarrow> u64 \<Rightarrow> sched res" where
  "task_set_deadline s d =
     bnd (lock_sched s) (\<lambda>s1.
       Inr (unlock_sched (case current s1 of None \<Rightarrow> s1 | Some c \<Rightarrow> upd_task s1 c (\<lambda>k. k\<lparr>deadline := d\<rparr>))))"

subsection \<open>The timer tick\<close>

definition WATCHDOG_LIMIT :: u32 where "WATCHDOG_LIMIT = 10000"

definition sched_tick :: "sched \<Rightarrow> sched res" where
  "sched_tick s =
     (case current s of
        None \<Rightarrow> Inr s
      | Some c \<Rightarrow>
          let s1 = upd_task s c (\<lambda>k. k\<lparr>ticks_used := ticks_used k + 1, watchdog_ticks := watchdog_ticks k + 1\<rparr>);
              k = task_pool s1 ! c
          in if WATCHDOG_LIMIT \<le> watchdog_ticks k \<and> 1 < tid k then
               let s2 = upd_task s1 c (\<lambda>k. k\<lparr>state := TASK_DEAD, finished := True\<rparr>)
               in bnd (wake_joiners s2 c)
                    (\<lambda>s3. Inr (s3\<lparr>dead_queue := dead_queue s3 @ [c], need_resched := True\<rparr>))
             else if ticks_used k mod task_quantum k = 0 then Inr (s1\<lparr>need_resched := True\<rparr>)
             else Inr s1)"

definition sched_need_resched :: "sched \<Rightarrow> bool" where
  "sched_need_resched s = (case current s of None \<Rightarrow> False | Some c \<Rightarrow> need_resched s)"

subsection \<open>Reaping\<close>

definition reap_one :: "sched \<Rightarrow> nat \<Rightarrow> nat list \<Rightarrow> sched res" where
  "reap_one s0 t rest =
     bnd (lock_sched s0) (\<lambda>s1.
       let s2 = s1\<lparr>dead_queue := rest\<rparr>;
           a = stack_phys (task_pool s2 ! t);
           s3 = unlock_sched (free_tcb (upd_task s2 t (\<lambda>k. k\<lparr>stack_phys := 0\<rparr>)) t)
       in if a \<noteq> 0 then bnd (pmm_free_pages (pmm s3) a 2) (\<lambda>m. Inr (s3\<lparr>pmm := m\<rparr>)) else Inr s3)"

fun reap_list :: "sched \<Rightarrow> nat list \<Rightarrow> sched res" where
  "reap_list s [] = Inr s"
| "reap_list s (t # rest) = bnd (reap_one s t rest) (\<lambda>s1. reap_list s1 rest)"

definition sched_reap_dead :: "sched \<Rightarrow> sched res" where
  "sched_reap_dead s = reap_list s (dead_queue s)"

subsection \<open>Initialisation\<close>

definition sched_boot :: "pmm_state \<Rightarrow> u64 \<Rightarrow> sched" where
  "sched_boot m hhdm =
     \<lparr>sched_lock = SPINLOCK_INIT, prio_queues = replicate 64 [], prio_bitmap = 0, sleep_queue = [],
      deadline_queue = [], dead_queue = [], waitqs = [], task_pool = replicate 64 empty_task,
      tcb_bitmap = NOT 0, next_tid = 0, current = None, idle = None, need_resched = False, pit_ticks = 0,
      pmm = m, stack_word = (\<lambda>_. 0), guard_pages = [], hhdm_offset = hhdm\<rparr>"

definition sched_init :: "sched \<Rightarrow> u8 list \<Rightarrow> u8 list \<Rightarrow> nat \<Rightarrow> sched res" where
  "sched_init s0 init_name idle_name idle_fn =
     (let s1 = s0\<lparr>prio_queues := replicate TASK_PRIO_LEVELS [], prio_bitmap := 0\<rparr> in
      case alloc_tcb s1 of
        (s2, None) \<Rightarrow> Inl KAssert
      | (s2, Some t) \<Rightarrow>
          let s3 = upd_task s2 t (\<lambda>k. k\<lparr>tid := next_tid s2, state := TASK_RUNNING, stack_phys := 0,
                      priority := TASK_PRIO_HIGH, entry := 0, ticks_used := 0, finished := False,
                      deadline := 0, watchdog_ticks := 0, qos := QOS_DEFAULT,
                      t_name := take 16 (init_name @ replicate 16 0)\<rparr>);
              s4 = s3\<lparr>next_tid := next_tid s2 + 1, current := Some t\<rparr>
          in bnd (task_create s4 idle_name idle_fn) (\<lambda>(s5, idle_tid).
               kassert (0 \<le> idle_tid)
                 (bnd (lock_sched s5) (\<lambda>s6.
                   case List.find (\<lambda>q. tid (task_pool s6 ! q) = word_of_int idle_tid)
                          (prio_queues s6 ! TASK_PRIO_NORMAL) of
                     None \<Rightarrow> Inl KAssert
                   | Some q \<Rightarrow>
                       let rest = remove1 q (prio_queues s6 ! TASK_PRIO_NORMAL);
                           s7 = s6\<lparr>idle := Some q, prio_queues := (prio_queues s6)[TASK_PRIO_NORMAL := rest],
                                   prio_bitmap := (if rest = [] then prio_bitmap s6 AND NOT (pow2 TASK_PRIO_NORMAL)
                                                   else prio_bitmap s6)\<rparr>
                       in Inr (unlock_sched (upd_task s7 q (\<lambda>k. k\<lparr>state := TASK_READY\<rparr>)))))))"

end
