(* ===== verification/Sched_Proofs.thy ===== *)
theory Sched_Proofs
  imports Sched
begin

text \<open>
  The scheduler's invariant. A ghost map says where every slot is: running, in the ready queue
  of a priority, in the deadline queue, asleep, dead, on a wait queue, parked (ready but in no queue: the idle task
  before it first runs), in the hands of the running operation, or free. Every queue holds
  exactly the slots whose place it is, once each; so no task is ever in two queues or lost.
\<close>

datatype place = Running | Ready nat | EDF | Asleep | Dead | Waiting nat | Parked | Limbo | Unused

definition queue_ok :: "nat list \<Rightarrow> (nat \<Rightarrow> place) \<Rightarrow> place \<Rightarrow> bool" where
  "queue_ok q pl x \<longleftrightarrow> distinct q \<and> set q = {t. pl t = x}"

definition state_at :: "place \<Rightarrow> task_state \<Rightarrow> bool" where
  "state_at x st \<longleftrightarrow> (case x of Running \<Rightarrow> st = TASK_RUNNING | Ready p \<Rightarrow> st = TASK_READY | EDF \<Rightarrow> st = TASK_READY
     | Asleep \<Rightarrow> st = TASK_SLEEPING | Dead \<Rightarrow> st = TASK_DEAD | Waiting w \<Rightarrow> st = TASK_SLEEPING
     | Parked \<Rightarrow> st = TASK_READY | Limbo \<Rightarrow> True | Unused \<Rightarrow> True)"

definition queues_ok :: "sched \<Rightarrow> (nat \<Rightarrow> place) \<Rightarrow> bool" where
  "queues_ok s pl \<longleftrightarrow>
     length (prio_queues s) = 64 \<and> length (task_pool s) = 64 \<and>
     (\<forall>p < 64. queue_ok (prio_queues s ! p) pl (Ready p) \<and> (bit (prio_bitmap s) p \<longleftrightarrow> prio_queues s ! p \<noteq> [])) \<and>
     queue_ok (deadline_queue s) pl EDF \<and> queue_ok (sleep_queue s) pl Asleep \<and>
     queue_ok (dead_queue s) pl Dead \<and>
     (\<forall>w < length (waitqs s). queue_ok (waitqs s ! w) pl (Waiting w)) \<and>
     (\<forall>t. pl t = Unused \<longleftrightarrow> 64 \<le> t \<or> bit (tcb_bitmap s) t) \<and>
     (\<forall>t w. pl t = Waiting w \<longrightarrow> w < length (waitqs s)) \<and>
     (\<forall>t p. pl t = Ready p \<longrightarrow> p < 64) \<and>
     (\<forall>t < 64. priority (task_pool s ! t) < 64) \<and>
     (\<forall>t < 64. state_at (pl t) (state (task_pool s ! t))) \<and>
     sorted (map (\<lambda>t. deadline (task_pool s ! t)) (deadline_queue s))"

lemma queues_okD:
  assumes "queues_ok s pl"
  shows "length (prio_queues s) = 64" "length (task_pool s) = 64"
    "p < 64 \<Longrightarrow> queue_ok (prio_queues s ! p) pl (Ready p)"
    "p < 64 \<Longrightarrow> bit (prio_bitmap s) p \<longleftrightarrow> prio_queues s ! p \<noteq> []"
    "queue_ok (deadline_queue s) pl EDF" "queue_ok (sleep_queue s) pl Asleep" "queue_ok (dead_queue s) pl Dead"
    "w < length (waitqs s) \<Longrightarrow> queue_ok (waitqs s ! w) pl (Waiting w)"
    "pl t = Unused \<longleftrightarrow> 64 \<le> t \<or> bit (tcb_bitmap s) t"
    "pl t = Waiting w \<Longrightarrow> w < length (waitqs s)"
    "pl t = Ready p \<Longrightarrow> p < 64"
    "t < 64 \<Longrightarrow> priority (task_pool s ! t) < 64"
    "t < 64 \<Longrightarrow> state_at (pl t) (state (task_pool s ! t))"
    "sorted (map (\<lambda>t. deadline (task_pool s ! t)) (deadline_queue s))"
  using assms unfolding queues_ok_def by blast+

lemma queues_okI:
  assumes "length (prio_queues s) = 64" "length (task_pool s) = 64"
    "\<And>p. p < 64 \<Longrightarrow> queue_ok (prio_queues s ! p) pl (Ready p)"
    "\<And>p. p < 64 \<Longrightarrow> bit (prio_bitmap s) p \<longleftrightarrow> prio_queues s ! p \<noteq> []"
    "queue_ok (deadline_queue s) pl EDF" "queue_ok (sleep_queue s) pl Asleep" "queue_ok (dead_queue s) pl Dead"
    "\<And>w. w < length (waitqs s) \<Longrightarrow> queue_ok (waitqs s ! w) pl (Waiting w)"
    "\<And>t. pl t = Unused \<longleftrightarrow> 64 \<le> t \<or> bit (tcb_bitmap s) t"
    "\<And>t w. pl t = Waiting w \<Longrightarrow> w < length (waitqs s)"
    "\<And>t p. pl t = Ready p \<Longrightarrow> p < 64"
    "\<And>t. t < 64 \<Longrightarrow> priority (task_pool s ! t) < 64"
    "\<And>t. t < 64 \<Longrightarrow> state_at (pl t) (state (task_pool s ! t))"
    "sorted (map (\<lambda>t. deadline (task_pool s ! t)) (deadline_queue s))"
  shows "queues_ok s pl"
  using assms unfolding queues_ok_def by blast

lemma state_at_simps [simp]:
  "state_at Running st \<longleftrightarrow> st = TASK_RUNNING" "state_at (Ready p) st \<longleftrightarrow> st = TASK_READY"
  "state_at EDF st \<longleftrightarrow> st = TASK_READY" "state_at Asleep st \<longleftrightarrow> st = TASK_SLEEPING"
  "state_at Dead st \<longleftrightarrow> st = TASK_DEAD" "state_at (Waiting w) st \<longleftrightarrow> st = TASK_SLEEPING"
  "state_at Parked st \<longleftrightarrow> st = TASK_READY" "state_at Limbo st" "state_at Unused st"
  by (simp_all add: state_at_def)

lemma placed_bound: "queues_ok s pl \<Longrightarrow> pl t \<noteq> Unused \<Longrightarrow> t < 64"
  using queues_okD(9) by (metis not_le)

lemma queue_ok_add:
  "queue_ok q pl x \<Longrightarrow> pl t \<noteq> x \<Longrightarrow> set q' = insert t (set q) \<Longrightarrow> distinct q' \<Longrightarrow> queue_ok q' (pl(t := x)) x"
  by (auto simp: queue_ok_def)

lemma queue_ok_move: "queue_ok q pl x \<Longrightarrow> pl t \<noteq> x \<Longrightarrow> y \<noteq> x \<Longrightarrow> queue_ok q (pl(t := y)) x"
  by (auto simp: queue_ok_def)

lemma queue_ok_del: "queue_ok q pl x \<Longrightarrow> y \<noteq> x \<Longrightarrow> queue_ok (remove1 t q) (pl(t := y)) x"
  by (auto simp: queue_ok_def)

lemma queue_ok_push: "queue_ok q pl x \<Longrightarrow> pl t \<noteq> x \<Longrightarrow> queue_ok (q @ [t]) (pl(t := x)) x"
  by (rule queue_ok_add) (auto simp: queue_ok_def)

lemma queue_ok_pop: "queue_ok (t # q) pl x \<Longrightarrow> y \<noteq> x \<Longrightarrow> queue_ok q (pl(t := y)) x"
  by (auto simp: queue_ok_def)

subsection \<open>The deadline queue\<close>

lemma insert_deadline_set: "set (insert_deadline ts t q) = insert t (set q)"
  by (induction q) auto

lemma insert_deadline_distinct: "distinct q \<Longrightarrow> t \<notin> set q \<Longrightarrow> distinct (insert_deadline ts t q)"
  by (induction q) (auto simp: insert_deadline_set)

lemma insert_deadline_sorted:
  "sorted (map (\<lambda>t. deadline (ts ! t)) q) \<Longrightarrow> sorted (map (\<lambda>t. deadline (ts ! t)) (insert_deadline ts t q))"
  by (induction q) (auto simp: insert_deadline_set)

subsection \<open>One lemma per elementary change\<close>

lemma upd_task_sel [simp]:
  "prio_queues (upd_task s t f) = prio_queues s" "prio_bitmap (upd_task s t f) = prio_bitmap s"
  "deadline_queue (upd_task s t f) = deadline_queue s" "sleep_queue (upd_task s t f) = sleep_queue s"
  "dead_queue (upd_task s t f) = dead_queue s" "waitqs (upd_task s t f) = waitqs s"
  "tcb_bitmap (upd_task s t f) = tcb_bitmap s" "current (upd_task s t f) = current s"
  "idle (upd_task s t f) = idle s" "pit_ticks (upd_task s t f) = pit_ticks s" "pmm (upd_task s t f) = pmm s"
  "stack_word (upd_task s t f) = stack_word s" "sched_lock (upd_task s t f) = sched_lock s"
  "length (task_pool (upd_task s t f)) = length (task_pool s)" "next_tid (upd_task s t f) = next_tid s"
  by (simp_all add: upd_task_def)

lemma task_upd_task: "task_pool (upd_task s t f) ! q =
    (if q = t \<and> t < length (task_pool s) then f (task_pool s ! t) else task_pool s ! q)"
  by (auto simp: upd_task_def nth_upd)

lemma queues_upd_limbo:
  assumes q: "queues_ok s pl" and l: "pl t = Limbo" and f: "priority (f (task_pool s ! t)) < 64"
  shows "queues_ok (upd_task s t f) pl"
proof -
  have t: "t < 64" using placed_bound [OF q] l by simp
  have ne: "u \<noteq> t" if "u \<in> set (deadline_queue s)" for u
    using queues_okD(5) [OF q] that l by (auto simp: queue_ok_def)
  have e: "map (\<lambda>u. deadline (task_pool (upd_task s t f) ! u)) (deadline_queue s) =
      map (\<lambda>u. deadline (task_pool s ! u)) (deadline_queue s)"
    by (rule map_cong) (auto simp: task_upd_task dest: ne)
  have "sorted (map (\<lambda>u. deadline (task_pool (upd_task s t f) ! u)) (deadline_queue s))"
    unfolding e by (rule queues_okD(14) [OF q])
  then show ?thesis
    using queues_okD [OF q] l f t by (intro queues_okI) (auto simp: task_upd_task)
qed

lemma queues_enqueue:
  assumes q: "queues_ok s pl" and l: "pl t = Limbo" and r: "state (task_pool s ! t) = TASK_READY"
  shows "queues_ok (bitmap_enqueue s t)
    (pl(t := if 0 < deadline (task_pool s ! t) then EDF else Ready (priority (task_pool s ! t))))"
proof -
  note D = queues_okD [OF q]
  have t: "t < 64" "\<not> bit (tcb_bitmap s) t" using D(9) [of t] l by auto
  define p where "p = priority (task_pool s ! t)"
  have p: "p < 64" using D(12) t by (simp add: p_def)
  show ?thesis
  proof (cases "0 < deadline (task_pool s ! t)")
    case True
    have "queue_ok (insert_deadline (task_pool s) t (deadline_queue s)) (pl(t := EDF)) EDF"
      using D(5) l by (intro queue_ok_add [OF D(5)])
        (auto simp: insert_deadline_set queue_ok_def intro: insert_deadline_distinct)
    then have "queues_ok (deadline_enqueue s t) (pl(t := EDF))"
      unfolding deadline_enqueue_def using D l r t
      by (intro queues_okI) (auto simp: insert_deadline_sorted intro: queue_ok_move split: if_splits)
    then show ?thesis using True by (simp add: bitmap_enqueue_def)
  next
    case False
    let ?s = "bitmap_enqueue s t"
    have s: "?s = s\<lparr>prio_queues := (prio_queues s)[p := prio_queues s ! p @ [t]],
          prio_bitmap := prio_bitmap s OR pow2 p\<rparr>"
      using False by (simp add: bitmap_enqueue_def p_def Let_def)
    have "queue_ok (prio_queues ?s ! i) (pl(t := Ready p)) (Ready i)" "bit (prio_bitmap ?s) i \<longleftrightarrow> prio_queues ?s ! i \<noteq> []"
      if i: "i < 64" for i
      using D(1) D(3,4) [OF i] l p
      by (cases "i = p"; auto simp: s bit_set_bit_word intro: queue_ok_push queue_ok_move)+
    then have "queues_ok ?s (pl(t := Ready p))"
      using D l r t p by (intro queues_okI) (auto simp: s intro: queue_ok_move split: if_splits)
    then show ?thesis using False by (simp add: p_def)
  qed
qed

lemma queues_relabel:
  assumes q: "queues_ok s pl" and t: "pl t \<in> {Running, Parked, Limbo}" "y \<in> {Running, Parked, Limbo}"
    "state_at y (state (task_pool s ! t))"
  shows "queues_ok s (pl(t := y))"
proof -
  note D = queues_okD [OF q]
  have b: "t < 64" "\<not> bit (tcb_bitmap s) t" using D(9) [of t] t(1) by auto
  show ?thesis
    using D t b by (intro queues_okI) (auto intro: queue_ok_move split: if_splits)
qed

lemma queues_unsleep:
  assumes q: "queues_ok s pl" and t: "pl t = Asleep"
  shows "queues_ok (s\<lparr>sleep_queue := remove1 t (sleep_queue s)\<rparr>) (pl(t := Limbo))"
proof -
  note D = queues_okD [OF q]
  have b: "t < 64" "\<not> bit (tcb_bitmap s) t" using D(9) [of t] t by auto
  show ?thesis
    using D t b by (intro queues_okI) (auto intro: queue_ok_move queue_ok_del split: if_splits)
qed

lemma queues_push_sleep:
  assumes q: "queues_ok s pl" and t: "pl t = Limbo" "state (task_pool s ! t) = TASK_SLEEPING"
  shows "queues_ok (s\<lparr>sleep_queue := sleep_queue s @ [t]\<rparr>) (pl(t := Asleep))"
proof -
  note D = queues_okD [OF q]
  have b: "t < 64" "\<not> bit (tcb_bitmap s) t" using D(9) [of t] t by auto
  show ?thesis
    using D t b by (intro queues_okI) (auto intro: queue_ok_move queue_ok_push split: if_splits)
qed

lemma queues_push_dead:
  assumes q: "queues_ok s pl" and t: "pl t = Limbo" "state (task_pool s ! t) = TASK_DEAD"
  shows "queues_ok (s\<lparr>dead_queue := dead_queue s @ [t]\<rparr>) (pl(t := Dead))"
proof -
  note D = queues_okD [OF q]
  have b: "t < 64" "\<not> bit (tcb_bitmap s) t" using D(9) [of t] t by auto
  show ?thesis
    using D t b by (intro queues_okI) (auto intro: queue_ok_move queue_ok_push split: if_splits)
qed

lemma queues_push_wait:
  assumes q: "queues_ok s pl" and t: "pl t = Limbo" "state (task_pool s ! t) = TASK_SLEEPING"
    and w: "w < length (waitqs s)"
  shows "queues_ok (s\<lparr>waitqs := (waitqs s)[w := waitqs s ! w @ [t]]\<rparr>) (pl(t := Waiting w))"
proof -
  note D = queues_okD [OF q]
  have b: "t < 64" "\<not> bit (tcb_bitmap s) t" using D(9) [of t] t by auto
  show ?thesis
    using D t b w by (intro queues_okI) (auto simp: nth_upd intro: queue_ok_move queue_ok_push split: if_splits)
qed

lemma queues_pop_wait:
  assumes q: "queues_ok s pl" and w: "w < length (waitqs s)" "waitqs s ! w = t # rest"
  shows "queues_ok (s\<lparr>waitqs := (waitqs s)[w := rest]\<rparr>) (pl(t := Limbo))" "pl t = Waiting w"
proof -
  note D = queues_okD [OF q]
  show t: "pl t = Waiting w" using D(8) [OF w(1)] w(2) by (auto simp: queue_ok_def)
  have b: "t < 64" "\<not> bit (tcb_bitmap s) t" using D(9) [of t] t by auto
  have "queue_ok rest (pl(t := Limbo)) (Waiting w)" using D(8) [OF w(1)] w(2) by (auto intro: queue_ok_pop)
  then show "queues_ok (s\<lparr>waitqs := (waitqs s)[w := rest]\<rparr>) (pl(t := Limbo))"
    using D t b w by (intro queues_okI) (auto simp: nth_upd intro: queue_ok_move split: if_splits)
qed

lemma queues_pop_deadline:
  assumes q: "queues_ok s pl" and d: "deadline_queue s = t # rest"
  shows "queues_ok (s\<lparr>deadline_queue := rest\<rparr>) (pl(t := Limbo))" "pl t = EDF"
    "pl u = EDF \<Longrightarrow> deadline (task_pool s ! t) \<le> deadline (task_pool s ! u)"
proof -
  note D = queues_okD [OF q]
  have m: "u \<in> set (t # rest) \<longleftrightarrow> pl u = EDF" for u using D(5) d by (auto simp: queue_ok_def)
  from m [of t] show t: "pl t = EDF" by simp
  show "pl u = EDF \<Longrightarrow> deadline (task_pool s ! t) \<le> deadline (task_pool s ! u)"
    using m [of u] D(14) d by auto
  have b: "t < 64" "\<not> bit (tcb_bitmap s) t" using D(9) [of t] t by auto
  have "queue_ok rest (pl(t := Limbo)) EDF" using D(5) d by (auto intro: queue_ok_pop)
  then show "queues_ok (s\<lparr>deadline_queue := rest\<rparr>) (pl(t := Limbo))"
    using D t b d by (intro queues_okI) (auto intro: queue_ok_move split: if_splits)
qed

lemma queues_pop_prio:
  assumes q: "queues_ok s pl" and nz: "prio_bitmap s \<noteq> 0"
  obtains p t rest where "bitmap_dequeue s = Inr (s\<lparr>prio_queues := (prio_queues s)[p := rest],
      prio_bitmap := (if rest = [] then prio_bitmap s AND NOT (pow2 p) else prio_bitmap s)\<rparr>, Some t)"
    "queues_ok (s\<lparr>prio_queues := (prio_queues s)[p := rest],
      prio_bitmap := (if rest = [] then prio_bitmap s AND NOT (pow2 p) else prio_bitmap s)\<rparr>) (pl(t := Limbo))"
    "pl t = Ready p" "\<And>u i. pl u = Ready i \<Longrightarrow> p \<le> i" "prio_queues s ! p = t # rest"
proof -
  note D = queues_okD [OF q]
  obtain p where p: "bsfq (prio_bitmap s) = Some p" using bsfq_exists [OF nz] by blast
  then have pb: "p < 64" "bit (prio_bitmap s) p" "\<forall>j < p. \<not> bit (prio_bitmap s) j"
    using bsfq_less bsfq_Some_iff by blast+
  then obtain t rest where tr: "prio_queues s ! p = t # rest" using D(4) [of p] by (cases "prio_queues s ! p") auto
  let ?s = "s\<lparr>prio_queues := (prio_queues s)[p := rest],
      prio_bitmap := (if rest = [] then prio_bitmap s AND NOT (pow2 p) else prio_bitmap s)\<rparr>"
  have run: "bitmap_dequeue s = Inr (?s, Some t)"
    using nz p tr by (simp add: bitmap_dequeue_def bitmap_find_first_def)
  have t: "pl t = Ready p" using D(3) [OF pb(1)] tr by (auto simp: queue_ok_def)
  have b: "t < 64" "\<not> bit (tcb_bitmap s) t" using D(9) [of t] t by auto
  have least: "p \<le> i" if "pl u = Ready i" for u i
  proof (rule ccontr)
    assume "\<not> p \<le> i"
    then have i: "i < 64" "\<not> bit (prio_bitmap s) i" using pb by auto
    then show False using D(3) [OF i(1)] D(4) [OF i(1)] that by (auto simp: queue_ok_def)
  qed
  have "queue_ok (prio_queues ?s ! i) (pl(t := Limbo)) (Ready i)" "bit (prio_bitmap ?s) i \<longleftrightarrow> prio_queues ?s ! i \<noteq> []"
    if i: "i < 64" for i
    using D(1) D(3,4) [OF i] t pb tr
    by (cases "i = p"; auto simp: bit_clear_bit_word intro: queue_ok_pop queue_ok_move)+
  then have Q: "queues_ok ?s (pl(t := Limbo))"
    using D t b by (intro queues_okI) (auto intro: queue_ok_move split: if_splits)
  show thesis by (rule that [OF run Q t _ tr]) (rule least)
qed

subsection \<open>What the queue operations leave alone\<close>

definition body :: "task \<Rightarrow> task" where
  "body k = k\<lparr>state := TASK_READY, watchdog_ticks := 0\<rparr>"

definition same_env :: "sched \<Rightarrow> sched \<Rightarrow> bool" where
  "same_env s s' \<longleftrightarrow> sched_lock s' = sched_lock s \<and> waitqs s' = waitqs s \<and> dead_queue s' = dead_queue s \<and>
     tcb_bitmap s' = tcb_bitmap s \<and> next_tid s' = next_tid s \<and> current s' = current s \<and> idle s' = idle s \<and>
     pit_ticks s' = pit_ticks s \<and> pmm s' = pmm s \<and> stack_word s' = stack_word s \<and>
     guard_pages s' = guard_pages s \<and> need_resched s' = need_resched s \<and>
     length (task_pool s') = length (task_pool s) \<and> (\<forall>t. body (task_pool s' ! t) = body (task_pool s ! t))"

lemma same_env_refl [simp]: "same_env s s"
  by (simp add: same_env_def)

lemma same_env_trans: "same_env s t \<Longrightarrow> same_env t u \<Longrightarrow> same_env s u"
  by (simp add: same_env_def)

lemma same_env_enqueue: "same_env s (bitmap_enqueue s t)"
  by (simp add: same_env_def bitmap_enqueue_def deadline_enqueue_def Let_def)

lemma same_env_state: "same_env s (upd_task s t (\<lambda>k. k\<lparr>state := x\<rparr>))"
  by (simp add: same_env_def task_upd_task body_def) (simp add: upd_task_def)

lemma body_fields:
  assumes "body k = body k'"
  shows "deadline k = deadline k'" "priority k = priority k'" "sleep_until k = sleep_until k'"
    "stack_phys k = stack_phys k'" "finished k = finished k'" "join_wq k = join_wq k'" "tid k = tid k'"
  using assms by (cases k; cases k'; simp add: body_def)+

definition dest :: "sched \<Rightarrow> nat \<Rightarrow> place" where
  "dest s t = (if 0 < deadline (task_pool s ! t) then EDF else Ready (priority (task_pool s ! t)))"

lemma dest_neq [simp]: "dest s t \<noteq> Running" "dest s t \<noteq> Limbo" "dest s t \<noteq> Parked" "dest s t \<noteq> Unused"
  by (simp_all add: dest_def)

lemma dest_cases: "dest s t = EDF \<or> (\<exists>p. dest s t = Ready p)"
  by (simp add: dest_def)

lemma dest_env: "same_env s s' \<Longrightarrow> dest s' t = dest s t"
  using body_fields(1,2) [of "task_pool s' ! t" "task_pool s ! t"] by (simp add: dest_def same_env_def)

text \<open>What a whole operation leaves alone, the lock, the current task and the resched flag apart.\<close>

definition kept :: "sched \<Rightarrow> sched \<Rightarrow> bool" where
  "kept s s' \<longleftrightarrow> waitqs s' = waitqs s \<and> dead_queue s' = dead_queue s \<and> tcb_bitmap s' = tcb_bitmap s \<and>
     next_tid s' = next_tid s \<and> idle s' = idle s \<and> pit_ticks s' = pit_ticks s \<and> pmm s' = pmm s \<and>
     stack_word s' = stack_word s \<and> length (task_pool s') = length (task_pool s) \<and>
     (\<forall>t. body (task_pool s' ! t) = body (task_pool s ! t))"

lemma kept_trans: "kept s t \<Longrightarrow> kept t u \<Longrightarrow> kept s u"
  by (simp add: kept_def)

lemma kept_env: "same_env s s' \<Longrightarrow> kept s s'"
  by (simp add: kept_def same_env_def)

lemma kept_update:
  "task_pool s' = task_pool s \<Longrightarrow> waitqs s' = waitqs s \<Longrightarrow> dead_queue s' = dead_queue s \<Longrightarrow>
   tcb_bitmap s' = tcb_bitmap s \<Longrightarrow> next_tid s' = next_tid s \<Longrightarrow> idle s' = idle s \<Longrightarrow> pit_ticks s' = pit_ticks s \<Longrightarrow>
   pmm s' = pmm s \<Longrightarrow> stack_word s' = stack_word s \<Longrightarrow> kept s s'"
  by (simp add: kept_def)

subsection \<open>Waking sleepers\<close>

lemma wake_one:
  assumes q: "queues_ok s pl" and t: "pl t = Asleep"
  shows "queues_ok (wake_one_sleeper now s t) (if sleep_until (task_pool s ! t) \<le> now then pl(t := dest s t) else pl)"
    "same_env s (wake_one_sleeper now s t)"
proof -
  have b: "t < length (task_pool s)" using placed_bound [OF q, of t] t queues_okD(2) [OF q] by simp
  let ?s1 = "s\<lparr>sleep_queue := remove1 t (sleep_queue s)\<rparr>"
  let ?s2 = "upd_task ?s1 t (\<lambda>k. k\<lparr>state := TASK_READY\<rparr>)"
  have q1: "queues_ok ?s1 (pl(t := Limbo))" by (rule queues_unsleep [OF q t])
  have q2: "queues_ok ?s2 (pl(t := Limbo))"
    using queues_okD(12) [OF q1, of t] b queues_okD(2) [OF q] by (intro queues_upd_limbo [OF q1]) auto
  have r: "state (task_pool ?s2 ! t) = TASK_READY" using b by (simp add: task_upd_task)
  have e1: "same_env s ?s1" by (simp add: same_env_def)
  have e: "same_env s ?s2" by (rule same_env_trans [OF e1 same_env_state])
  then have d: "dest ?s2 t = dest s t" by (rule dest_env)
  have "queues_ok (bitmap_enqueue ?s2 t) ((pl(t := Limbo))(t := dest ?s2 t))"
    unfolding dest_def by (rule queues_enqueue [OF q2 _ r]) simp
  then show "queues_ok (wake_one_sleeper now s t) (if sleep_until (task_pool s ! t) \<le> now then pl(t := dest s t) else pl)"
    using q d by (simp add: wake_one_sleeper_def Let_def)
  show "same_env s (wake_one_sleeper now s t)"
    using same_env_trans [OF e same_env_enqueue] by (simp add: wake_one_sleeper_def Let_def)
qed

lemma wake_fold:
  assumes "queues_ok s pl" "distinct ts" "\<And>t. t \<in> set ts \<Longrightarrow> pl t = Asleep"
  shows "queues_ok (foldl (wake_one_sleeper now) s ts)
      (\<lambda>t. if t \<in> set ts \<and> sleep_until (task_pool s ! t) \<le> now then dest s t else pl t) \<and>
    same_env s (foldl (wake_one_sleeper now) s ts)"
  using assms
proof (induction ts arbitrary: s pl)
  case (Cons t ts)
  let ?s = "wake_one_sleeper now s t"
  let ?pl = "if sleep_until (task_pool s ! t) \<le> now then pl(t := dest s t) else pl"
  note W = wake_one [OF Cons.prems(1) Cons.prems(3) [of t], simplified]
  have e: "same_env s ?s" by (rule W(2))
  have su: "sleep_until (task_pool ?s ! u) = sleep_until (task_pool s ! u)" for u
    using e body_fields(3) [of "task_pool ?s ! u" "task_pool s ! u"] by (simp add: same_env_def)
  have as: "?pl u = Asleep" if "u \<in> set ts" for u using Cons.prems that by auto
  have eq: "(\<lambda>u. if u \<in> set ts \<and> sleep_until (task_pool ?s ! u) \<le> now then dest ?s u else ?pl u) =
      (\<lambda>u. if u \<in> set (t # ts) \<and> sleep_until (task_pool s ! u) \<le> now then dest s u else pl u)"
    using Cons.prems(2) by (auto simp: fun_eq_iff su dest_env [OF e])
  show ?case
    using Cons.IH [OF W(1) _ as] Cons.prems(2) same_env_trans [OF e] unfolding eq by simp
qed simp

lemma wake_sleepers_spec:
  assumes q: "queues_ok s pl"
  shows "queues_ok (wake_sleepers s)
      (\<lambda>t. if pl t = Asleep \<and> sleep_until (task_pool s ! t) \<le> pit_ticks s then dest s t else pl t)"
    "same_env s (wake_sleepers s)"
proof -
  have m: "t \<in> set (sleep_queue s) \<longleftrightarrow> pl t = Asleep" "distinct (sleep_queue s)" for t
    using queues_okD(6) [OF q] by (auto simp: queue_ok_def)
  have "queues_ok (foldl (wake_one_sleeper (pit_ticks s)) s (sleep_queue s))
      (\<lambda>t. if t \<in> set (sleep_queue s) \<and> sleep_until (task_pool s ! t) \<le> pit_ticks s then dest s t else pl t) \<and>
    same_env s (foldl (wake_one_sleeper (pit_ticks s)) s (sleep_queue s))"
    by (rule wake_fold [OF q m(2)]) (use m(1) in blast)
  then show "queues_ok (wake_sleepers s)
      (\<lambda>t. if pl t = Asleep \<and> sleep_until (task_pool s ! t) \<le> pit_ticks s then dest s t else pl t)"
    "same_env s (wake_sleepers s)" unfolding wake_sleepers_def m(1) by blast+
qed

subsection \<open>The invariant, and the state from which the scheduler is entered\<close>

definition lock_free :: "sched \<Rightarrow> bool" where
  "lock_free s \<longleftrightarrow> \<not> spin_is_locked (sched_lock s)"

definition sched_pre :: "sched \<Rightarrow> (nat \<Rightarrow> place) \<Rightarrow> nat \<Rightarrow> bool" where
  "sched_pre s pl c \<longleftrightarrow> queues_ok s pl \<and> lock_free s \<and> current s = Some c \<and>
     (\<forall>t. pl t = Running \<longrightarrow> t = c) \<and> (\<forall>t. pl t \<noteq> Limbo) \<and>
     (pl c \<in> {Running, Asleep, Dead} \<or> (\<exists>w. pl c = Waiting w)) \<and>
     (\<exists>i. idle s = Some i \<and> (pl i \<in> {Running, Parked, EDF} \<or> (\<exists>p. pl i = Ready p)) \<and>
          (\<forall>t. pl t = Parked \<longrightarrow> t = i))"

definition sched_inv :: "sched \<Rightarrow> (nat \<Rightarrow> place) \<Rightarrow> bool" where
  "sched_inv s pl \<longleftrightarrow> (\<exists>c. sched_pre s pl c \<and> pl c = Running)"

definition waked :: "sched \<Rightarrow> (nat \<Rightarrow> place) \<Rightarrow> nat \<Rightarrow> place" where
  "waked s pl t = (if pl t = Asleep \<and> sleep_until (task_pool s ! t) \<le> pit_ticks s then dest s t else pl t)"

text \<open>The scheduling decision: an earliest deadline first, then the head of the ready queue of
  the best priority, then the idle task.\<close>

definition best_choice :: "sched \<Rightarrow> (nat \<Rightarrow> place) \<Rightarrow> nat \<Rightarrow> bool" where
  "best_choice s pl n \<longleftrightarrow>
     (if \<exists>t. pl t = EDF then pl n = EDF \<and> (\<forall>t. pl t = EDF \<longrightarrow> deadline (task_pool s ! n) \<le> deadline (task_pool s ! t))
      else if \<exists>t p. pl t = Ready p then \<exists>p. pl n = Ready p \<and> (\<forall>t i. pl t = Ready i \<longrightarrow> p \<le> i)
      else idle s = Some n)"

lemma lock_free_lock:
  assumes "lock_free s"
  shows "\<exists>l. lock_sched s = Inr (s\<lparr>sched_lock := l\<rparr>) \<and> \<not> spin_is_locked (spin_unlock l)"
  using assms
  by (auto simp: lock_free_def lock_sched_def spin_lock_def take_ticket_def is_served_def spin_is_locked_def
      spin_unlock_def)

lemma pick_next_spec:
  assumes q: "queues_ok s pl" and i: "idle s = Some i"
  obtains s' n where "pick_next s = Inr (s', n)" "same_env s s'" "task_pool s' = task_pool s" "best_choice s pl n"
    "(pl n = EDF \<or> (\<exists>p. pl n = Ready p)) \<and> queues_ok s' (pl(n := Limbo)) \<or>
     n = i \<and> s' = s \<and> (\<forall>t. pl t \<noteq> EDF \<and> (\<forall>p. pl t \<noteq> Ready p))"
proof -
  note D = queues_okD [OF q]
  show thesis
  proof (cases "deadline_queue s")
    case (Cons t rest)
    note P = queues_pop_deadline [OF q Cons]
    have "best_choice s pl t" using P(2,3) by (auto simp: best_choice_def)
    then show thesis
      using P by (intro that [of "s\<lparr>deadline_queue := rest\<rparr>" t])
        (auto simp: pick_next_def edf_pick_def Cons same_env_def)
  next
    case Nil
    then have ne: "pl t \<noteq> EDF" for t using D(5) by (auto simp: queue_ok_def)
    show thesis
    proof (cases "prio_bitmap s = 0")
      case True
      have nr: "pl t \<noteq> Ready p" for t p
      proof
        assume "pl t = Ready p"
        then have "p < 64" "t \<in> set (prio_queues s ! p)" using D(11) D(3) [of p] by (auto simp: queue_ok_def)
        then show False using D(4) [of p] True by auto
      qed
      have "best_choice s pl i" using ne nr i by (auto simp: best_choice_def)
      then show thesis
        using Nil True i ne nr by (intro that [of s i]) (auto simp: pick_next_def edf_pick_def)
    next
      case False
      show thesis
      proof (rule queues_pop_prio [OF q False])
        fix p t rest
        let ?s = "s\<lparr>prio_queues := (prio_queues s)[p := rest],
          prio_bitmap := (if rest = [] then prio_bitmap s AND NOT (pow2 p) else prio_bitmap s)\<rparr>"
        assume a: "bitmap_dequeue s = Inr (?s, Some t)" "queues_ok ?s (pl(t := Limbo))" "pl t = Ready p"
          "\<And>u i. pl u = Ready i \<Longrightarrow> p \<le> i"
        have "best_choice s pl t" using a(3,4) ne by (auto simp: best_choice_def)
        moreover have "pick_next s = Inr (?s, t)" using Nil False a(1) by (simp add: pick_next_def edf_pick_def)
        ultimately show thesis using a(2,3) by (intro that [of ?s t]) (auto simp: same_env_def)
      qed
    qed
  qed
qed

lemma same_env_switch_tail:
  "queues_ok s pl \<Longrightarrow> pl n = Limbo \<Longrightarrow>
   queues_ok (upd_task ((upd_task s n (\<lambda>k. k\<lparr>state := TASK_RUNNING\<rparr>))\<lparr>current := Some n\<rparr>) n
      (\<lambda>k. k\<lparr>watchdog_ticks := 0\<rparr>)) (pl(n := Running))"
proof -
  assume q: "queues_ok s pl" and l: "pl n = Limbo"
  have b: "n < 64" "n < length (task_pool s)" using placed_bound [OF q] l queues_okD(2) [OF q] by auto
  let ?s1 = "upd_task s n (\<lambda>k. k\<lparr>state := TASK_RUNNING\<rparr>)"
  have q1: "queues_ok ?s1 pl" using queues_okD(12) [OF q b(1)] by (intro queues_upd_limbo [OF q l]) simp
  then have "queues_ok (?s1\<lparr>current := Some n\<rparr>) pl" by (simp add: queues_ok_def)
  then have "queues_ok (upd_task (?s1\<lparr>current := Some n\<rparr>) n (\<lambda>k. k\<lparr>watchdog_ticks := 0\<rparr>)) pl"
    using queues_okD(12) [OF q1 b(1)] l by (intro queues_upd_limbo [where pl = pl]) simp_all
  then show ?thesis
    by (rule queues_relabel) (use l b in \<open>auto simp: task_upd_task\<close>)
qed

lemma switch_spec:
  assumes q: "queues_ok s (pl(n := Limbo))" and c: "current s = Some c" "n \<noteq> c"
    and run: "pl c \<noteq> Limbo \<and> pl c \<noteq> Unused"
  shows "queues_ok (switch_to s c n) (pl(c := (if pl c = Running then dest s c else pl c), n := Running))"
    "current (switch_to s c n) = Some n" "idle (switch_to s c n) = idle s"
    "sched_lock (switch_to s c n) = sched_lock s" "kept s (switch_to s c n)"
proof -
  let ?s1 = "if state (task_pool s ! c) = TASK_RUNNING
     then bitmap_enqueue (upd_task s c (\<lambda>k. k\<lparr>state := TASK_READY\<rparr>)) c else s"
  let ?pl1 = "(pl(n := Limbo))(c := (if pl c = Running then dest s c else pl c))"
  have cb: "c < 64" "c < length (task_pool s)" using placed_bound [OF q, of c] run c(2) queues_okD(2) [OF q] by auto
  have st: "state (task_pool s ! c) = TASK_RUNNING \<longleftrightarrow> pl c = Running"
    using queues_okD(13) [OF q cb(1)] run c(2) by (cases "pl c") auto
  have e: "same_env s ?s1"
    using same_env_trans [OF same_env_state same_env_enqueue] by simp
  have q1: "queues_ok ?s1 ?pl1"
  proof (cases "pl c = Running")
    case True
    let ?u = "upd_task s c (\<lambda>k. k\<lparr>state := TASK_READY\<rparr>)"
    have "queues_ok s ((pl(n := Limbo))(c := Limbo))"
      by (rule queues_relabel [OF q]) (use True c(2) in auto)
    then have u: "queues_ok ?u ((pl(n := Limbo))(c := Limbo))"
      using queues_okD(12) [OF q cb(1)] by (intro queues_upd_limbo) auto
    have "queues_ok (bitmap_enqueue ?u c) (((pl(n := Limbo))(c := Limbo))(c := dest ?u c))"
      unfolding dest_def by (rule queues_enqueue [OF u]) (use cb in \<open>auto simp: task_upd_task\<close>)
    then show ?thesis using True st dest_env [OF same_env_state, of s c _ c] by simp
  next
    case False
    then have "?pl1 = pl(n := Limbo)" using c(2) by auto
    then show ?thesis using False st q by simp
  qed
  have "?pl1 n = Limbo" using c(2) by simp
  note T = same_env_switch_tail [OF q1 this]
  have eq: "?pl1(n := Running) = pl(c := (if pl c = Running then dest s c else pl c), n := Running)"
    using c(2) by auto
  show "queues_ok (switch_to s c n) (pl(c := (if pl c = Running then dest s c else pl c), n := Running))"
    using T unfolding switch_to_def Let_def eq .
  show "current (switch_to s c n) = Some n" "idle (switch_to s c n) = idle s"
    "sched_lock (switch_to s c n) = sched_lock s"
    using e unfolding switch_to_def Let_def by (auto simp: same_env_def)
  show "kept s (switch_to s c n)"
    using kept_env [OF e] unfolding switch_to_def Let_def by (auto simp: kept_def task_upd_task body_def)
qed

lemma queues_ok_cong:
  assumes "queues_ok s pl" "prio_queues s' = prio_queues s" "prio_bitmap s' = prio_bitmap s"
    "deadline_queue s' = deadline_queue s" "sleep_queue s' = sleep_queue s" "dead_queue s' = dead_queue s"
    "waitqs s' = waitqs s" "tcb_bitmap s' = tcb_bitmap s" "task_pool s' = task_pool s"
  shows "queues_ok s' pl"
  using assms by (simp add: queues_ok_def)

lemma unlock_sel [simp]:
  "prio_queues (unlock_sched s) = prio_queues s" "prio_bitmap (unlock_sched s) = prio_bitmap s"
  "deadline_queue (unlock_sched s) = deadline_queue s" "sleep_queue (unlock_sched s) = sleep_queue s"
  "dead_queue (unlock_sched s) = dead_queue s" "waitqs (unlock_sched s) = waitqs s"
  "tcb_bitmap (unlock_sched s) = tcb_bitmap s" "task_pool (unlock_sched s) = task_pool s"
  "current (unlock_sched s) = current s" "idle (unlock_sched s) = idle s" "pit_ticks (unlock_sched s) = pit_ticks s"
  "pmm (unlock_sched s) = pmm s" "stack_word (unlock_sched s) = stack_word s"
  "sched_lock (unlock_sched s) = spin_unlock (sched_lock s)" "next_tid (unlock_sched s) = next_tid s"
  by (simp_all add: unlock_sched_def)

lemma place_upd_running:
  "(f(c := x, n := Running)) t = Running \<Longrightarrow> x \<noteq> Running \<Longrightarrow> (f t = Running \<Longrightarrow> t = c) \<Longrightarrow> t = n"
  by (cases "t = n"; cases "t = c") simp_all

lemma place_upd_other:
  "(f(c := x, n := Running)) t = y \<Longrightarrow> y \<noteq> Running \<Longrightarrow> f t = y \<or> t = c \<and> x = y"
  by (cases "t = n"; cases "t = c") simp_all

text \<open>The part of the invariant that is about places alone: the current slot and the idle slot.\<close>

definition places_ok :: "(nat \<Rightarrow> place) \<Rightarrow> nat \<Rightarrow> nat \<Rightarrow> bool" where
  "places_ok pl c i \<longleftrightarrow> (\<forall>t. pl t = Running \<longrightarrow> t = c) \<and> (\<forall>t. pl t \<noteq> Limbo) \<and>
     (pl c \<in> {Running, Asleep, Dead} \<or> (\<exists>w. pl c = Waiting w)) \<and>
     (pl i \<in> {Running, Parked, EDF} \<or> (\<exists>p. pl i = Ready p)) \<and> (\<forall>t. pl t = Parked \<longrightarrow> t = i)"

lemma places_okD:
  assumes "places_ok pl c i"
  shows "pl t = Running \<Longrightarrow> t = c" "pl t \<noteq> Limbo" "pl c \<in> {Running, Asleep, Dead} \<or> (\<exists>w. pl c = Waiting w)"
    "pl i \<in> {Running, Parked, EDF} \<or> (\<exists>p. pl i = Ready p)" "pl t = Parked \<Longrightarrow> t = i"
  using assms unfolding places_ok_def by blast+

lemma sched_pre_places:
  "sched_pre s pl c \<longleftrightarrow> queues_ok s pl \<and> lock_free s \<and> current s = Some c \<and> (\<exists>i. idle s = Some i \<and> places_ok pl c i)"
  unfolding sched_pre_def places_ok_def by blast

lemma places_waked:
  assumes "places_ok pl c i" "waked s pl c = pl c"
  shows "places_ok (waked s pl) c i"
proof -
  have w: "waked s pl t = pl t \<or> pl t = Asleep \<and> waked s pl t = dest s t" for t by (simp add: waked_def)
  have d: "dest s t = EDF \<or> (\<exists>p. dest s t = Ready p)" for t by (rule dest_cases)
  note P = places_okD [OF assms(1)]
  have e: "waked s pl t = Running \<longleftrightarrow> pl t = Running" "waked s pl t = Parked \<longleftrightarrow> pl t = Parked" "waked s pl t = Limbo \<longleftrightarrow> pl t = Limbo" for t
    using w [of t] d [of t] by auto
  have "waked s pl i \<in> {Running, Parked, EDF} \<or> (\<exists>p. waked s pl i = Ready p)" using w [of i] P(4) by auto
  then show ?thesis unfolding places_ok_def e assms(2) using P by blast
qed

lemma places_switch:
  assumes w: "places_ok w c i"
  shows "places_ok (w(c := (if w c = Running then dest s c else w c), n := Running)) n i" (is "places_ok ?w n i")
  unfolding places_ok_def
proof (intro conjI allI impI)
  note P = places_okD [OF w]
  have x: "(if w c = Running then dest s c else w c) \<noteq> Running" by simp
  show "t = n" if "?w t = Running" for t
    by (rule place_upd_running [OF that x]) (rule P(1))
  show "?w t \<noteq> Limbo" for t
  proof
    assume "?w t = Limbo"
    from place_upd_other [OF this] show False using P(2) [of t] P(2) [of c] by (auto split: if_splits)
  qed
  show "?w n \<in> {Running, Asleep, Dead} \<or> (\<exists>q. ?w n = Waiting q)" by simp
  show "?w i \<in> {Running, Parked, EDF} \<or> (\<exists>p. ?w i = Ready p)" using P(4) dest_cases [of s c] by auto
  show "t = i" if "?w t = Parked" for t
    using place_upd_other [OF that] P(5) [of t] P(3) by (auto split: if_splits)
qed

text \<open>The first half of \<open>schedule\<close>, up to the choice of the next task.\<close>

lemma schedule_pick:
  assumes q: "queues_ok s pl" and lf: "lock_free s" and cur: "current s = Some c" and i: "idle s = Some i" and can: "stack_canary_ok s c"
  obtains s3 n where "schedule s = (if n = c then Inr (unlock_sched s3) else Inr (unlock_sched (switch_to s3 c n)))"
    "current s3 = Some c" "idle s3 = Some i" "lock_free (unlock_sched s3)" "kept s s3" "\<forall>t. dest s3 t = dest s t"
    "best_choice s (waked s pl) n"
    "(waked s pl n = EDF \<or> (\<exists>p. waked s pl n = Ready p)) \<and> queues_ok s3 ((waked s pl)(n := Limbo)) \<or>
     n = i \<and> queues_ok s3 (waked s pl) \<and> (\<forall>t. waked s pl t \<noteq> EDF \<and> (\<forall>p. waked s pl t \<noteq> Ready p))"
    "waked s pl n = EDF \<or> (\<exists>p. waked s pl n = Ready p) \<longrightarrow> state (task_pool s3 ! n) = TASK_READY"
proof -
  obtain l where l: "lock_sched s = Inr (s\<lparr>sched_lock := l\<rparr>)" "\<not> spin_is_locked (spin_unlock l)"
    using lock_free_lock [OF lf] by blast
  define s1 where "s1 = s\<lparr>sched_lock := l, need_resched := False\<rparr>"
  have q1: "queues_ok s1 pl" by (rule queues_ok_cong [OF q]) (simp_all add: s1_def)
  have t1: "task_pool s1 = task_pool s" "pit_ticks s1 = pit_ticks s" "current s1 = Some c" "idle s1 = Some i"
    "stack_word s1 = stack_word s" "sched_lock s1 = l" using cur i by (simp_all add: s1_def)
  define s2 where "s2 = wake_sleepers s1"
  have d1: "dest s1 t = dest s t" for t by (simp add: dest_def t1)
  have wk: "(\<lambda>t. if pl t = Asleep \<and> sleep_until (task_pool s1 ! t) \<le> pit_ticks s1 then dest s1 t else pl t) =
      waked s pl" by (auto simp: waked_def fun_eq_iff t1 d1)
  have q2: "queues_ok s2 (waked s pl)" and e2: "same_env s1 s2"
    using wake_sleepers_spec [OF q1] unfolding wk s2_def by blast+
  have b2: "body (task_pool s2 ! t) = body (task_pool s ! t)" for t using e2 t1(1) by (simp add: same_env_def)
  have i2: "idle s2 = Some i" "current s2 = Some c" "sched_lock s2 = l" using e2 t1 by (simp_all add: same_env_def)
  have can2: "stack_canary_ok s2 c"
    using can body_fields(4) [OF b2, of c] e2 t1 by (simp add: stack_canary_ok_def Let_def same_env_def)
  obtain s3 n where p: "pick_next s2 = Inr (s3, n)" "same_env s2 s3" "task_pool s3 = task_pool s2"
    "best_choice s2 (waked s pl) n"
    "(waked s pl n = EDF \<or> (\<exists>p. waked s pl n = Ready p)) \<and> queues_ok s3 ((waked s pl)(n := Limbo)) \<or>
     n = i \<and> s3 = s2 \<and> (\<forall>t. waked s pl t \<noteq> EDF \<and> (\<forall>p. waked s pl t \<noteq> Ready p))"
    by (rule pick_next_spec [OF q2 i2(1)])
  have "kept s s1" by (rule kept_update) (simp_all add: s1_def)
  then have k3: "kept s s3" using kept_trans kept_env [OF e2] kept_env [OF p(2)] by blast
  show thesis
  proof (rule that [of n s3])
    show "schedule s = (if n = c then Inr (unlock_sched s3) else Inr (unlock_sched (switch_to s3 c n)))"
      using l(1) cur p(1) can2 by (simp add: schedule_def s2_def s1_def)
    show "current s3 = Some c" "idle s3 = Some i" using p(2) i2 by (simp_all add: same_env_def)
    show "lock_free (unlock_sched s3)" using p(2) i2(3) l(2) by (simp add: same_env_def lock_free_def)
    show "\<forall>t. dest s3 t = dest s t" using dest_env [OF p(2)] dest_env [OF e2] d1 by simp
    show "best_choice s (waked s pl) n"
      using p(4) body_fields(1) [OF b2] i2(1) i by (auto simp: best_choice_def split: if_splits)
    show "waked s pl n = EDF \<or> (\<exists>p. waked s pl n = Ready p) \<longrightarrow> state (task_pool s3 ! n) = TASK_READY"
      using queues_okD(13) [OF q2, of n] placed_bound [OF q2, of n] unfolding p(3) by auto
  qed (use k3 p(5) q2 in auto)
qed

lemma schedule_spec:
  assumes pre: "sched_pre s pl c" and can: "stack_canary_ok s c"
    and awake: "pl c = Asleep \<Longrightarrow> pit_ticks s < sleep_until (task_pool s ! c)"
  shows "\<exists>s' n. schedule s = Inr s' \<and> current s' = Some n \<and> best_choice s (waked s pl) n \<and>
    sched_inv s' ((waked s pl)(c := (if pl c = Running then dest s c else pl c), n := Running)) \<and> kept s s'"
proof -
  let ?w = "waked s pl"
  obtain i where i: "queues_ok s pl" "lock_free s" "current s = Some c" "idle s = Some i" "places_ok pl c i"
    using pre unfolding sched_pre_places by blast
  obtain s3 n where p: "schedule s = (if n = c then Inr (unlock_sched s3) else Inr (unlock_sched (switch_to s3 c n)))"
    "current s3 = Some c" "idle s3 = Some i" "lock_free (unlock_sched s3)" "kept s s3" "\<forall>t. dest s3 t = dest s t" "best_choice s ?w n"
    "(?w n = EDF \<or> (\<exists>p. ?w n = Ready p)) \<and> queues_ok s3 (?w(n := Limbo)) \<or>
     n = i \<and> queues_ok s3 ?w \<and> (\<forall>t. ?w t \<noteq> EDF \<and> (\<forall>p. ?w t \<noteq> Ready p))"
    by (rule schedule_pick [OF i(1-4) can])
  have ku: "kept u (unlock_sched u)" for u by (rule kept_update) simp_all
  have wc: "?w c = pl c" using awake by (auto simp: waked_def)
  note W = places_waked [OF i(5) wc]
  have cpl: "pl c \<in> {Running, Asleep, Dead} \<or> (\<exists>q. pl c = Waiting q)" by (rule places_okD(3) [OF i(5)])
  show ?thesis
  proof (cases "n = c")
    case True
    then have c: "pl c = Running" "queues_ok s3 ?w" using p(8) places_okD(4) [OF W] wc cpl by auto
    have "queues_ok (unlock_sched s3) ?w" by (rule queues_ok_cong [OF c(2)]) simp_all
    then have "sched_inv (unlock_sched s3) ?w"
      unfolding sched_inv_def sched_pre_places using p(2-4) W wc c(1) by (intro exI [of _ c]) simp
    moreover have "?w(c := (if pl c = Running then dest s c else pl c), n := Running) = ?w" using True c(1) wc by (auto simp: fun_eq_iff)
    ultimately show ?thesis using p(1,2,7) True kept_trans [OF p(5) ku] by auto
  next
    case False
    let ?pl = "?w(c := (if pl c = Running then dest s c else pl c), n := Running)"
    have q3: "queues_ok s3 (?w(n := Limbo))"
      using p(8)
    proof
      assume a: "n = i \<and> queues_ok s3 ?w \<and> (\<forall>t. ?w t \<noteq> EDF \<and> (\<forall>p. ?w t \<noteq> Ready p))"
      then show ?thesis using places_okD(4) [OF W] by (intro queues_relabel) auto
    qed blast
    note S = switch_spec [OF q3 p(2) False, unfolded wc p(6) [rule_format]]
    have "queues_ok (unlock_sched (switch_to s3 c n)) ?pl" by (rule queues_ok_cong) (use S(1) cpl in auto)
    moreover have "lock_free (unlock_sched (switch_to s3 c n))" using S(4) cpl p(4) by (auto simp: lock_free_def)
    ultimately have "sched_inv (unlock_sched (switch_to s3 c n)) ?pl"
      unfolding sched_inv_def sched_pre_places using S(2,3) cpl p(3) places_switch [OF W, of s n, unfolded wc] by (intro exI [of _ n]) auto
    moreover have "kept s (unlock_sched (switch_to s3 c n))" using kept_trans [OF kept_trans [OF p(5)] ku] S(5) cpl by auto
    ultimately show ?thesis using p(1,7) False S(2) cpl by auto
  qed
qed

text \<open>The same for a current task that is not running in the sense of the invariant: an interrupt can come after
  a task has queued itself and before it calls \<open>schedule\<close>, and it can wake the task there. The scheduler may
  then choose the task that is current already. It is left \<open>Parked\<close>: ready, and in no queue.\<close>

lemma schedule_any:
  assumes q: "queues_ok s pl" and lf: "lock_free s" and cur: "current s = Some c" and i: "idle s = Some i" and can: "stack_canary_ok s c"
    and cpl: "pl c \<in> {Running, Parked, EDF} \<or> (\<exists>p. pl c = Ready p) \<or> (\<exists>w. pl c = Waiting w)"
    and run: "\<And>t. pl t = Running \<Longrightarrow> t = c"
    and ipl: "pl i \<in> {Running, Parked, EDF} \<or> (\<exists>p. pl i = Ready p)"
  obtains s' n pl' where "schedule s = Inr s'" "current s' = Some n" "lock_free s'" "idle s' = Some i" "kept s s'" "queues_ok s' pl'"
    "pl' = (if n = c then (waked s pl)(c := if pl c = Running then Running else Parked)
            else (waked s pl)(c := if pl c = Running then dest s c else pl c, n := Running))"
    "n = c \<Longrightarrow> pl c \<noteq> Running \<Longrightarrow> pl c = EDF \<or> (\<exists>p. pl c = Ready p) \<or> pl c = Parked"
proof -
  let ?w = "waked s pl"
  obtain s3 n where p: "schedule s = (if n = c then Inr (unlock_sched s3) else Inr (unlock_sched (switch_to s3 c n)))"
    "current s3 = Some c" "idle s3 = Some i" "lock_free (unlock_sched s3)" "kept s s3" "\<forall>t. dest s3 t = dest s t" "best_choice s ?w n"
    "(?w n = EDF \<or> (\<exists>p. ?w n = Ready p)) \<and> queues_ok s3 (?w(n := Limbo)) \<or>
     n = i \<and> queues_ok s3 ?w \<and> (\<forall>t. ?w t \<noteq> EDF \<and> (\<forall>p. ?w t \<noteq> Ready p))"
    "?w n = EDF \<or> (\<exists>p. ?w n = Ready p) \<longrightarrow> state (task_pool s3 ! n) = TASK_READY"
    by (rule schedule_pick [OF q lf cur i can])
  have ku: "kept u (unlock_sched u)" for u by (rule kept_update) simp_all
  have wc: "?w c = pl c" using cpl by (auto simp: waked_def)
  have wi: "?w i = pl i" using ipl by (auto simp: waked_def)
  show thesis
  proof (cases "n = c")
    case True
    let ?pl = "?w(c := if pl c = Running then Running else Parked)"
    have "queues_ok s3 ?pl \<and> (pl c \<noteq> Running \<longrightarrow> pl c = EDF \<or> (\<exists>p. pl c = Ready p) \<or> pl c = Parked)" using p(8)
    proof (elim disjE conjE)
      assume a: "n = i" "queues_ok s3 ?w" "\<forall>t. ?w t \<noteq> EDF \<and> (\<forall>p. ?w t \<noteq> Ready p)"
      then have "pl c = Running \<or> pl c = Parked" using ipl wi True by auto
      moreover from this have "?pl = ?w" using wc by (auto simp: fun_eq_iff)
      ultimately show ?thesis using a(2) by auto
    qed (use p(9) True wc queues_relabel [of s3 "?w(c := Limbo)" c Parked] in auto)
    then have "queues_ok (unlock_sched s3) ?pl" "pl c \<noteq> Running \<longrightarrow> pl c = EDF \<or> (\<exists>p. pl c = Ready p) \<or> pl c = Parked"
      using queues_ok_cong [of s3 ?pl "unlock_sched s3"] by simp_all
    then show thesis using True p(1-5) kept_trans [OF p(5) ku]
      by (intro that [of "unlock_sched s3" c ?pl]) simp_all
  next
    case False
    let ?pl = "?w(c := if pl c = Running then dest s c else pl c, n := Running)"
    have q3: "queues_ok s3 (?w(n := Limbo))" using p(8)
    proof
      assume a: "n = i \<and> queues_ok s3 ?w \<and> (\<forall>t. ?w t \<noteq> EDF \<and> (\<forall>p. ?w t \<noteq> Ready p))"
      then have "pl i \<noteq> Running" using run [of i] False by auto
      then show ?thesis using a ipl wi by (intro queues_relabel) auto
    qed blast
    note S = switch_spec [OF q3 p(2) False, unfolded wc p(6) [rule_format]]
    have "queues_ok (unlock_sched (switch_to s3 c n)) ?pl" by (rule queues_ok_cong) (use S(1) cpl in auto)
    moreover have "lock_free (unlock_sched (switch_to s3 c n))" using S(4) cpl p(4) by (auto simp: lock_free_def)
    moreover have "kept s (unlock_sched (switch_to s3 c n))" using kept_trans [OF kept_trans [OF p(5)] ku] S(5) cpl by auto
    ultimately show thesis using False p(1,3) S(2,3) cpl
      by (intro that [of "unlock_sched (switch_to s3 c n)" n ?pl]) auto
  qed
qed

end
