(* ===== verification/Sched_Ops.thy ===== *)
theory Sched_Ops
  imports Sched_Proofs
begin

text \<open>
  The scheduler's operations keep the invariant of \<open>Sched_Proofs\<close>: blocking (sleeping,
  waiting, leaving), waking, creating and reaping tasks. The task pool provides the
  \<open>slot_allocator\<close> contract and the stacks of tasks are owned blocks of the page allocator.
\<close>

subsection \<open>Task slots\<close>

lemma tcb_find:
  "alloc_tcb s = (if tcb_bitmap s = 0 then (s, None)
     else (s\<lparr>tcb_bitmap := tcb_bitmap s AND NOT (pow2 (LEAST i. bit (tcb_bitmap s) i)),
             task_pool := (task_pool s)[LEAST i. bit (tcb_bitmap s) i := empty_task]\<rparr>,
           Some (LEAST i. bit (tcb_bitmap s) i)))"
proof (cases "tcb_bitmap s = 0")
  case False
  then obtain i where i: "bsfq (tcb_bitmap s) = Some i" using bsfq_exists by blast
  then have "(LEAST i. bit (tcb_bitmap s) i) = i"
    by (intro Least_equality) (auto simp: bsfq_Some_iff not_less [symmetric])
  then show ?thesis using False i by (simp add: alloc_tcb_def)
qed (simp add: alloc_tcb_def)

definition tcb_avail :: "sched \<Rightarrow> nat set" where
  "tcb_avail s = {i. bit (tcb_bitmap s) i}"

lemma bits_bounded: "bit (w :: u64) i \<Longrightarrow> i < 64"
  using bit_imp_le_length [of w i] by simp

interpretation tcb: slot_allocator alloc_tcb free_tcb tcb_avail MAX_TASKS
proof
  fix s :: sched and i
  show "tcb_avail s \<subseteq> {..<MAX_TASKS}" using bits_bounded by (auto simp: tcb_avail_def MAX_TASKS_def)
  have z: "tcb_avail s = {} \<longleftrightarrow> tcb_bitmap s = 0" by (auto simp: tcb_avail_def bit_eq_iff dest: bits_bounded)
  show "alloc_tcb s = (s, None)" if "tcb_avail s = {}" using that z by (simp add: alloc_tcb_def)
  show "\<exists>s'. alloc_tcb s = (s', Some (Min (tcb_avail s))) \<and> tcb_avail s' = tcb_avail s - {Min (tcb_avail s)}"
    if ne: "tcb_avail s \<noteq> {}"
  proof -
    have "tcb_avail s \<subseteq> {..<64}" using bits_bounded by (auto simp: tcb_avail_def)
    then have fin: "finite {i. bit (tcb_bitmap s) i}" by (simp add: tcb_avail_def finite_subset)
    have "\<exists>i. bit (tcb_bitmap s) i" using ne by (auto simp: tcb_avail_def)
    then have m: "Min (tcb_avail s) = (LEAST i. bit (tcb_bitmap s) i)"
      unfolding tcb_avail_def using Least_Min [OF fin] by metis
    have "tcb_bitmap s \<noteq> 0" using z ne by blast
    then show ?thesis using tcb_find [of s] unfolding m by (auto simp: tcb_avail_def bit_clear_bit_word)
  qed
  show "tcb_avail (free_tcb s i) = insert i (tcb_avail s)" if "i < MAX_TASKS"
    using that by (auto simp: tcb_avail_def free_tcb_def MAX_TASKS_def bit_set_bit_word)
qed

subsection \<open>Leaving the processor\<close>

lemma sched_invD:
  assumes "sched_inv s pl" "current s = Some c"
  shows "sched_pre s pl c" "queues_ok s pl" "lock_free s" "pl c = Running" "\<And>t. pl t = Running \<Longrightarrow> t = c"
    "\<And>t. pl t \<noteq> Limbo" "c < 64" "c < length (task_pool s)"
proof -
  from assms obtain c' where c': "sched_pre s pl c'" "pl c' = Running" unfolding sched_inv_def by blast
  have "current s = Some c'" using c'(1) unfolding sched_pre_def by blast
  then have cc: "c' = c" using assms(2) by simp
  show p: "sched_pre s pl c" and r: "pl c = Running" using c' cc by simp_all
  show q: "queues_ok s pl" and "lock_free s" and "\<And>t. pl t = Running \<Longrightarrow> t = c" and "\<And>t. pl t \<noteq> Limbo"
    using p unfolding sched_pre_def by blast+
  show "c < 64" "c < length (task_pool s)" using placed_bound [OF q] r queues_okD(2) [OF q] by auto
qed

lemma sched_inv_idle:
  assumes "sched_inv s pl"
  obtains i where "idle s = Some i" "\<And>t. pl t = Parked \<Longrightarrow> t = i"
    "pl i \<in> {Running, Parked, EDF} \<or> (\<exists>p. pl i = Ready p)"
  using assms unfolding sched_inv_def sched_pre_def by blast

lemma blocked_pre:
  assumes inv: "sched_inv s pl" and c: "current s = Some c" "idle s \<noteq> Some c"
    and x: "x = Asleep \<or> x = Dead \<or> (\<exists>w. x = Waiting w)"
    and q: "queues_ok s' (pl(c := x))"
    and env: "lock_free s'" "current s' = Some c" "idle s' = idle s"
  shows "sched_pre s' (pl(c := x)) c"
proof -
  note V = sched_invD [OF inv c(1)]
  obtain i where i: "idle s = Some i" "\<And>t. pl t = Parked \<Longrightarrow> t = i"
    "pl i \<in> {Running, Parked, EDF} \<or> (\<exists>p. pl i = Ready p)" using sched_inv_idle [OF inv] by blast
  have ic: "i \<noteq> c" using c(2) i(1) by auto
  show ?thesis
    unfolding sched_pre_def
  proof (intro conjI)
    show "\<forall>t. (pl(c := x)) t = Running \<longrightarrow> t = c" 
      using V(5) x by (metis fun_upd_other)
    show "\<forall>t. (pl(c := x)) t \<noteq> Limbo" using V(6) x by auto
    have "(pl(c := x)) i \<in> {Running, Parked, EDF} \<or> (\<exists>p. (pl(c := x)) i = Ready p)" using i(3) ic by simp
    moreover have "t = i" if "(pl(c := x)) t = Parked" for t
      using that i(2) [of t] x by (cases "t = c") auto
    moreover have "idle s' = Some i" using env(3) i(1) by simp
    ultimately show "\<exists>i. idle s' = Some i \<and> ((pl(c := x)) i \<in> {Running, Parked, EDF} \<or> (\<exists>p. (pl(c := x)) i = Ready p)) \<and>
        (\<forall>t. (pl(c := x)) t = Parked \<longrightarrow> t = i)" by blast
  qed (use q env x in auto)
qed

lemma limbo_current:
  assumes inv: "sched_inv s pl" and c: "current s = Some c" and f: "priority (f (task_pool s ! c)) < 64"
    and e: "prio_queues s' = prio_queues s" "prio_bitmap s' = prio_bitmap s" "deadline_queue s' = deadline_queue s"
      "sleep_queue s' = sleep_queue s" "dead_queue s' = dead_queue s" "waitqs s' = waitqs s"
      "tcb_bitmap s' = tcb_bitmap s" "task_pool s' = task_pool s"
  shows "queues_ok (upd_task s' c f) (pl(c := Limbo))"
proof -
  note q = sched_invD(2,4) [OF inv c]
  have "queues_ok s' pl" by (rule queues_ok_cong [OF q(1) e])
  then have "queues_ok s' (pl(c := Limbo))" by (rule queues_relabel) (use q(2) in auto)
  then show ?thesis by (rule queues_upd_limbo) (use f e(8) in simp_all)
qed

lemma lock_sel:
  assumes "lock_free s"
  obtains l where "lock_sched s = Inr (s\<lparr>sched_lock := l\<rparr>)" "\<not> spin_is_locked (spin_unlock l)"
  using lock_free_lock [OF assms] by blast

lemma canary_cong:
  "stack_phys (task_pool s' ! c) = stack_phys (task_pool s ! c) \<Longrightarrow> stack_word s' = stack_word s \<Longrightarrow>
   stack_canary_ok s' c = stack_canary_ok s c"
  by (simp add: stack_canary_ok_def)

text \<open>Blocking the current task and scheduling another.\<close>

lemma block_and_schedule:
  assumes inv: "sched_inv s pl" and c: "current s = Some c" "idle s \<noteq> Some c" and can: "stack_canary_ok s c"
    and x: "x = Asleep \<or> x = Dead \<or> (\<exists>w. x = Waiting w)"
    and q: "queues_ok s' (pl(c := x))" and env: "lock_free s'" "current s' = Some c" "idle s' = idle s"
      "stack_phys (task_pool s' ! c) = stack_phys (task_pool s ! c)" "stack_word s' = stack_word s"
    and aw: "x = Asleep \<Longrightarrow> pit_ticks s' < sleep_until (task_pool s' ! c)"
  shows "\<exists>s'' pl' n. schedule s' = Inr s'' \<and> current s'' = Some n \<and> n \<noteq> c \<and> sched_inv s'' pl' \<and> pl' c = x \<and>
    best_choice s' (waked s' (pl(c := x))) n \<and> kept s' s''"
proof -
  have pre: "sched_pre s' (pl(c := x)) c" by (rule blocked_pre [OF inv c x q env(1-3)])
  have can': "stack_canary_ok s' c" using can canary_cong [OF env(4,5)] by simp
  have xr: "(pl(c := x)) c \<noteq> Running" using x by auto
  from schedule_spec [OF pre can'] aw xr obtain s'' n where s'': "schedule s' = Inr s''" "current s'' = Some n"
    "best_choice s' (waked s' (pl(c := x))) n" "sched_inv s'' ((waked s' (pl(c := x)))(c := x, n := Running))" "kept s' s''"
    by fastforce
  let ?pl = "(waked s' (pl(c := x)))(c := x, n := Running)"
  have wc: "waked s' (pl(c := x)) c = x" using aw x by (auto simp: waked_def)
  have "n \<noteq> c"
  proof
    assume nc: "n = c"
    obtain i where i: "idle s = Some i" "pl i \<in> {Running, Parked, EDF} \<or> (\<exists>p. pl i = Ready p)"
      using sched_inv_idle [OF inv] by blast
    have "i \<noteq> c" using c(2) i(1) by auto
    then show False
      using s''(3) nc wc x i(1) env(3) unfolding best_choice_def by (auto split: if_splits)
  qed
  moreover from this have "?pl c = x" by simp
  ultimately show ?thesis using s'' by blast
qed

lemma kept_fields:
  assumes "kept s s'"
  shows "deadline (task_pool s' ! t) = deadline (task_pool s ! t)" "priority (task_pool s' ! t) = priority (task_pool s ! t)"
    "sleep_until (task_pool s' ! t) = sleep_until (task_pool s ! t)"
    "stack_phys (task_pool s' ! t) = stack_phys (task_pool s ! t)"
    "finished (task_pool s' ! t) = finished (task_pool s ! t)" "join_wq (task_pool s' ! t) = join_wq (task_pool s ! t)"
    "tid (task_pool s' ! t) = tid (task_pool s ! t)"
  using assms body_fields [of "task_pool s' ! t" "task_pool s ! t"] by (simp_all add: kept_def)

lemma task_sleep_spec:
  assumes inv: "sched_inv s pl" and c: "current s = Some c" "idle s \<noteq> Some c" and can: "stack_canary_ok s c"
    and nw: "unat (pit_ticks s) + unat (max 1 (ms div 10)) < 2 ^ 64"
  shows "\<exists>s' pl' n. task_sleep s ms = Inr s' \<and> current s' = Some n \<and> n \<noteq> c \<and> sched_inv s' pl' \<and>
    pl' c = Asleep \<and> sleep_until (task_pool s' ! c) = pit_ticks s + max 1 (ms div 10)"
proof -
  note V = sched_invD [OF inv c(1)]
  obtain l where l: "lock_sched s = Inr (s\<lparr>sched_lock := l\<rparr>)" "\<not> spin_is_locked (spin_unlock l)"
    using lock_sel [OF V(3)] by blast
  define tk where "tk = (if ms div 10 = 0 then 1 else ms div 10)"
  let ?s1 = "s\<lparr>sched_lock := l\<rparr>"
  let ?f = "\<lambda>k. k\<lparr>sleep_until := pit_ticks s + tk, state := TASK_SLEEPING\<rparr>"
  let ?s2 = "upd_task ?s1 c ?f"
  let ?s3 = "?s2\<lparr>sleep_queue := sleep_queue ?s2 @ [c]\<rparr>"
  have run: "task_sleep s ms = schedule (unlock_sched ?s3)"
    using l(1) c(1) by (simp add: task_sleep_def Let_def tk_def)
  have q2: "queues_ok ?s2 (pl(c := Limbo))"
    using queues_okD(12) [OF V(2,7)] by (intro limbo_current [OF inv c(1)]) simp_all
  have st: "task_pool ?s2 ! c = ?f (task_pool s ! c)" using V(8) by (simp add: task_upd_task)
  have q3: "queues_ok ?s3 ((pl(c := Limbo))(c := Asleep))"
    by (rule queues_push_sleep [OF q2]) (use st in simp_all)
  have q4: "queues_ok (unlock_sched ?s3) (pl(c := Asleep))"
    by (rule queues_ok_cong [OF q3 [unfolded fun_upd_upd]]) simp_all
  have "unat (ms div 10) = 0 \<longleftrightarrow> ms div 10 = 0" by (rule unat_eq_0)
  then have tk: "tk = max 1 (ms div 10)" "0 < unat tk" by (auto simp: tk_def max_def word_le_nat_alt)
  then have "unat (pit_ticks s + tk) = unat (pit_ticks s) + unat tk" "0 < unat tk"
    using nw by (simp_all add: unat_add_u64)
  then have aw: "pit_ticks s < pit_ticks s + tk" by (simp add: word_less_nat_alt)
  have T: "task_pool (unlock_sched ?s3) ! c = ?f (task_pool s ! c)" using st by simp
  have "lock_free (unlock_sched ?s3)" using l(2) by (simp add: lock_free_def)
  from block_and_schedule [OF inv c can _ q4 this] T aw c(1)
  obtain s' pl' n where r: "schedule (unlock_sched ?s3) = Inr s'" "current s' = Some n" "n \<noteq> c" "sched_inv s' pl'"
    "pl' c = Asleep" "kept (unlock_sched ?s3) s'" by simp blast
  have "sleep_until (task_pool s' ! c) = pit_ticks s + max 1 (ms div 10)"
    using kept_fields(3) [OF r(6), of c] T by (simp add: tk(1))
  then show ?thesis using r unfolding run by blast
qed

lemma wq_wait_spec:
  assumes inv: "sched_inv s pl" and c: "current s = Some c" "idle s \<noteq> Some c" and can: "stack_canary_ok s c"
    and w: "w < length (waitqs s)"
  shows "\<exists>s' pl' n. wq_wait s w = Inr s' \<and> current s' = Some n \<and> n \<noteq> c \<and> sched_inv s' pl' \<and>
    pl' c = Waiting w \<and> waitqs s' = (waitqs s)[w := waitqs s ! w @ [c]] \<and> kept (push_waiter s w c) s'"
proof -
  note V = sched_invD [OF inv c(1)]
  let ?s2 = "upd_task s c (\<lambda>k. k\<lparr>state := TASK_SLEEPING\<rparr>)"
  have q2: "queues_ok ?s2 (pl(c := Limbo))"
    using queues_okD(12) [OF V(2,7)] by (intro limbo_current [OF inv c(1)]) simp_all
  have st: "task_pool ?s2 ! c = (task_pool s ! c)\<lparr>state := TASK_SLEEPING\<rparr>" using V(8) by (simp add: task_upd_task)
  have q3: "queues_ok (push_waiter s w c) (pl(c := Waiting w))"
    using queues_push_wait [OF q2, of c w] st w by (simp add: push_waiter_def Let_def)
  have "lock_free (push_waiter s w c)" using V(3) by (simp add: push_waiter_def lock_free_def)
  from block_and_schedule [OF inv c can _ q3 this] st c(1)
  obtain s' pl' n where r: "schedule (push_waiter s w c) = Inr s'" "current s' = Some n" "n \<noteq> c" "sched_inv s' pl'"
    "pl' c = Waiting w" "kept (push_waiter s w c) s'" by (simp add: push_waiter_def) blast
  have "waitqs s' = (waitqs s)[w := waitqs s ! w @ [c]]" using r(6) by (simp add: kept_def push_waiter_def)
  then show ?thesis using r c(1) by (auto simp: wq_wait_def)
qed

subsection \<open>Moving a task that is not running\<close>

lemma sched_inv_move:
  assumes inv: "sched_inv s pl" and c: "current s = Some c" "t \<noteq> c" "idle s \<noteq> Some t \<or> y = EDF \<or> (\<exists>p. y = Ready p)"
    and y: "y \<notin> {Running, Limbo, Parked}" and q: "queues_ok s' (pl(t := y))"
    and env: "lock_free s'" "current s' = Some c" "idle s' = idle s"
  shows "sched_inv s' (pl(t := y))"
proof -
  note V = sched_invD [OF inv c(1)]
  obtain i where i: "idle s = Some i" "\<And>t. pl t = Parked \<Longrightarrow> t = i"
    "pl i \<in> {Running, Parked, EDF} \<or> (\<exists>p. pl i = Ready p)" using sched_inv_idle [OF inv] by blast
  have "sched_pre s' (pl(t := y)) c"
    unfolding sched_pre_def
  proof (intro conjI)
    have "u = c" if "(pl(t := y)) u = Running" for u using that V(5) [of u] y by (cases "u = t") auto
    then show "\<forall>u. (pl(t := y)) u = Running \<longrightarrow> u = c" by blast
    have "(pl(t := y)) u \<noteq> Limbo" for u using V(6) [of u] y by auto
    then show "\<forall>u. (pl(t := y)) u \<noteq> Limbo" by blast
    show "(pl(t := y)) c \<in> {Running, Asleep, Dead} \<or> (\<exists>w. (pl(t := y)) c = Waiting w)" using V(4) c(2) by simp
    have "(pl(t := y)) i \<in> {Running, Parked, EDF} \<or> (\<exists>p. (pl(t := y)) i = Ready p)"
      using i(1,3) c(3) by (cases "t = i") auto
    moreover have "u = i" if "(pl(t := y)) u = Parked" for u using that i(2) [of u] y by (cases "u = t") auto
    moreover have "idle s' = Some i" using env(3) i(1) by simp
    ultimately show "\<exists>i. idle s' = Some i \<and> ((pl(t := y)) i \<in> {Running, Parked, EDF} \<or> (\<exists>p. (pl(t := y)) i = Ready p)) \<and>
        (\<forall>u. (pl(t := y)) u = Parked \<longrightarrow> u = i)" by blast
  qed (use q env in auto)
  moreover have "(pl(t := y)) c = Running" using V(4) c(2) by simp
  ultimately show ?thesis unfolding sched_inv_def by blast
qed

lemma idle_not:
  assumes "sched_inv s pl" "pl t \<noteq> Running" "pl t \<noteq> Parked" "pl t \<noteq> EDF" "\<And>p. pl t \<noteq> Ready p"
  shows "idle s \<noteq> Some t"
  using sched_inv_idle [OF assms(1)] assms(2-) by (metis empty_iff insert_iff option.inject)

text \<open>Changing fields of the running task that no queue depends on.\<close>

lemma sched_inv_running:
  assumes inv: "sched_inv s pl" and c: "current s = Some c"
    and f: "state (f (task_pool s ! c)) = TASK_RUNNING" "priority (f (task_pool s ! c)) < 64"
  shows "sched_inv (upd_task s c f) pl"
proof -
  note V = sched_invD [OF inv c]
  have "queues_ok (upd_task s c f) (pl(c := Limbo))" by (rule limbo_current [OF inv c]) (use f(2) in simp_all)
  then have "queues_ok (upd_task s c f) ((pl(c := Limbo))(c := Running))"
    by (rule queues_relabel) (use V(8) f(1) in \<open>auto simp: task_upd_task\<close>)
  moreover have "(pl(c := Limbo))(c := Running) = pl" using V(4) by auto
  ultimately have "queues_ok (upd_task s c f) pl" by simp
  then show ?thesis using inv unfolding sched_inv_def sched_pre_def by (simp add: lock_free_def)
qed

lemma wake_head_queues:
  assumes q: "queues_ok s pl" and lf: "lock_free s" and w: "w < length (waitqs s)" "waitqs s ! w = t # rest"
  shows "\<exists>s'. wake_head s w t rest = Inr s' \<and> queues_ok s' (pl(t := dest s t)) \<and> lock_free s' \<and>
    waitqs s' = (waitqs s)[w := rest] \<and> current s' = current s \<and> idle s' = idle s \<and> pl t = Waiting w \<and> (\<forall>u. dest s' u = dest s u)"
proof -
  let ?s1 = "s\<lparr>waitqs := (waitqs s)[w := rest]\<rparr>"
  let ?s2 = "upd_task ?s1 t (\<lambda>k. k\<lparr>state := TASK_READY\<rparr>)"
  note P = queues_pop_wait [OF q w]
  have tb: "t < 64" "t < length (task_pool s)" using placed_bound [OF q, of t] P(2) queues_okD(2) [OF q] by auto
  have q2: "queues_ok ?s2 (pl(t := Limbo))"
    using queues_okD(12) [OF q tb(1)] by (intro queues_upd_limbo [OF P(1)]) simp_all
  have "lock_free ?s2" using lf by (simp add: lock_free_def)
  then obtain l where l: "lock_sched ?s2 = Inr (?s2\<lparr>sched_lock := l\<rparr>)" "\<not> spin_is_locked (spin_unlock l)"
    using lock_sel by blast
  let ?s3 = "?s2\<lparr>sched_lock := l\<rparr>"
  have q3: "queues_ok ?s3 (pl(t := Limbo))" by (rule queues_ok_cong [OF q2]) simp_all
  have d: "dest ?s3 t = dest s t" using tb by (simp add: dest_def task_upd_task)
  have r: "state (task_pool ?s3 ! t) = TASK_READY" using tb by (simp add: task_upd_task)
  have "queues_ok (bitmap_enqueue ?s3 t) ((pl(t := Limbo))(t := dest ?s3 t))"
    unfolding dest_def by (rule queues_enqueue [OF q3 _ r]) simp
  then have q4: "queues_ok (unlock_sched (bitmap_enqueue ?s3 t)) (pl(t := dest s t))"
    unfolding d fun_upd_upd by (rule queues_ok_cong) simp_all
  have E: "same_env ?s3 (bitmap_enqueue ?s3 t)" by (rule same_env_enqueue)
  have "wake_head s w t rest = Inr (unlock_sched (bitmap_enqueue ?s3 t))"
    using l(1) by (simp add: wake_head_def sched_add_ready_def)
  moreover have "dest (unlock_sched (bitmap_enqueue ?s3 t)) u = dest s u" for u
  proof -
    have "dest (unlock_sched (bitmap_enqueue ?s3 t)) u = dest (bitmap_enqueue ?s3 t) u" by (simp add: dest_def)
    also have "\<dots> = dest ?s3 u" by (rule dest_env [OF E])
    also have "\<dots> = dest s u" by (simp add: dest_def task_upd_task)
    finally show ?thesis .
  qed
  ultimately show ?thesis using E P(2) q4 l(2) by (simp add: same_env_def lock_free_def)
qed

lemma wake_head_spec:
  assumes inv: "sched_inv s pl" and w: "w < length (waitqs s)" "waitqs s ! w = t # rest"
  shows "\<exists>s'. wake_head s w t rest = Inr s' \<and> sched_inv s' (pl(t := dest s t)) \<and>
    waitqs s' = (waitqs s)[w := rest] \<and> current s' = current s \<and> pl t = Waiting w \<and> (\<forall>u. dest s' u = dest s u)"
proof -
  obtain c where c: "current s = Some c" using inv by (auto simp: sched_inv_def sched_pre_def)
  note V = sched_invD [OF inv c]
  obtain s' where s': "wake_head s w t rest = Inr s'" "queues_ok s' (pl(t := dest s t))" "lock_free s'"
    "waitqs s' = (waitqs s)[w := rest]" "current s' = current s" "idle s' = idle s" "pl t = Waiting w" "\<forall>u. dest s' u = dest s u"
    using wake_head_queues [OF V(2,3) w] by blast
  have "sched_inv s' (pl(t := dest s t))"
  proof (rule sched_inv_move [OF inv c _ _ _ s'(2,3)])
    show "t \<noteq> c" using s'(7) V(4) by auto
    show "idle s \<noteq> Some t \<or> dest s t = EDF \<or> (\<exists>p. dest s t = Ready p)" using dest_cases by blast
  qed (use s'(5,6) c in auto)
  then show ?thesis using s' by blast
qed

lemma wake_head_priority:
  assumes "sched_inv s pl" "w < length (waitqs s)" "waitqs s ! w = t # rest" "wake_head s w t rest = Inr s'"
  shows "priority (task_pool s' ! u) = priority (task_pool s ! u)"
proof -
  let ?s1 = "s\<lparr>waitqs := (waitqs s)[w := rest]\<rparr>"
  let ?s2 = "upd_task ?s1 t (\<lambda>k. k\<lparr>state := TASK_READY\<rparr>)"
  obtain l where l: "lock_sched ?s2 = Inr (?s2\<lparr>sched_lock := l\<rparr>)" "s' = unlock_sched (bitmap_enqueue (?s2\<lparr>sched_lock := l\<rparr>) t)"
    using assms(4) by (auto simp: wake_head_def sched_add_ready_def res_facts lock_sched_def)
  have "body (task_pool s' ! u) = body (task_pool (?s2\<lparr>sched_lock := l\<rparr>) ! u)"
    using same_env_enqueue [of "?s2\<lparr>sched_lock := l\<rparr>" t] l(2) by (simp add: same_env_def)
  from body_fields(2) [OF this] show ?thesis by (simp add: task_upd_task)
qed

lemma wait_kept:
  assumes "sched_inv s pl" "current s = Some c" "idle s \<noteq> Some c" "stack_canary_ok s c" "w < length (waitqs s)"
    "wq_wait s w = Inr s'"
  shows "kept (push_waiter s w c) s'"
  using wq_wait_spec [OF assms(1-5)] assms(6) by auto

lemma wake_list_spec:
  assumes "sched_inv s pl" "w < length (waitqs s)" "waitqs s ! w = ts"
  shows "\<exists>s'. wake_list s w ts = Inr s' \<and> waitqs s' = (waitqs s)[w := []] \<and> current s' = current s \<and>
    sched_inv s' (\<lambda>t. if pl t = Waiting w then dest s t else pl t)"
  using assms
proof (induction ts arbitrary: s pl)
  case Nil
  obtain c where c: "current s = Some c" using Nil(1) by (auto simp: sched_inv_def sched_pre_def)
  have none: "pl t \<noteq> Waiting w" for t
    using queues_okD(8) [OF sched_invD(2) [OF Nil(1) c] Nil(2)] Nil(3) by (auto simp: queue_ok_def)
  have "(waitqs s)[w := []] = waitqs s" using Nil(3) by (metis list_update_id)
  then show ?case using Nil(1) none by simp
next
  case (Cons t rest)
  obtain s1 where s1: "wake_head s w t rest = Inr s1" "sched_inv s1 (pl(t := dest s t))"
    "waitqs s1 = (waitqs s)[w := rest]" "current s1 = current s" "pl t = Waiting w" "\<And>u. dest s1 u = dest s u"
    using wake_head_spec [OF Cons.prems] by blast
  have w1: "w < length (waitqs s1)" "waitqs s1 ! w = rest" using s1(3) Cons.prems(2) by simp_all
  obtain s' where s': "wake_list s1 w rest = Inr s'" "waitqs s' = (waitqs s1)[w := []]" "current s' = current s1"
    "sched_inv s' (\<lambda>u. if (pl(t := dest s t)) u = Waiting w then dest s1 u else (pl(t := dest s t)) u)"
    using Cons.IH [OF s1(2) w1] by blast
  have "(\<lambda>u. if (pl(t := dest s t)) u = Waiting w then dest s1 u else (pl(t := dest s t)) u) =
      (\<lambda>u. if pl u = Waiting w then dest s u else pl u)"
    using s1(5,6) by (auto simp: fun_eq_iff dest_def)
  then show ?case using s' s1(1,3,4) by simp
qed

lemma wake_all_spec:
  assumes "sched_inv s pl" "w < length (waitqs s)"
  shows "\<exists>s'. wq_wake_all s w = Inr (s', int (length (waitqs s ! w))) \<and> waitqs s' = (waitqs s)[w := []] \<and>
    sched_inv s' (\<lambda>t. if pl t = Waiting w then dest s t else pl t) \<and> current s' = current s"
  using wake_list_spec [OF assms refl] by (auto simp: wq_wake_all_def)

lemma queues_alloc:
  assumes q: "queues_ok s pl" and a: "alloc_tcb s = (s', Some t)"
  shows "queues_ok s' (pl(t := Limbo))" "pl t = Unused" "t < 64" "task_pool s' = (task_pool s)[t := empty_task]"
    "tcb_bitmap s' OR pow2 t = tcb_bitmap s" "same_env s (s'\<lparr>tcb_bitmap := tcb_bitmap s, task_pool := task_pool s\<rparr>)"
proof -
  note D = queues_okD [OF q]
  have b: "bit (tcb_bitmap s) t" using tcb.alloc_spec(1) [OF a] by (simp add: tcb_avail_def)
  then show t: "t < 64" by (rule bits_bounded)
  show u: "pl t = Unused" using D(9) [of t] b by simp
  have s': "s' = s\<lparr>tcb_bitmap := tcb_bitmap s AND NOT (pow2 t), task_pool := (task_pool s)[t := empty_task]\<rparr>"
    using a by (auto simp: alloc_tcb_def split: if_splits option.splits)
  then show "task_pool s' = (task_pool s)[t := empty_task]" by simp
  show "tcb_bitmap s' OR pow2 t = tcb_bitmap s"
    unfolding s' by (rule bit_word_eqI) (use b t in \<open>auto simp: bit_set_bit_word bit_clear_bit_word\<close>)
  show "same_env s (s'\<lparr>tcb_bitmap := tcb_bitmap s, task_pool := task_pool s\<rparr>)" by (simp add: s' same_env_def)
  have ne: "v \<noteq> t" if "v \<in> set (deadline_queue s)" for v using D(5) that u by (auto simp: queue_ok_def)
  have e: "map (\<lambda>v. deadline ((task_pool s)[t := empty_task] ! v)) (deadline_queue s) =
      map (\<lambda>v. deadline (task_pool s ! v)) (deadline_queue s)"
    by (rule map_cong) (auto simp: nth_upd dest: ne)
  have un: "(pl(t := Limbo)) v = Unused \<longleftrightarrow> 64 \<le> v \<or> bit (tcb_bitmap s') v" for v
    using D(9) [of v] t by (cases "v = t") (auto simp: s' bit_clear_bit_word)
  have so: "sorted (map (\<lambda>v. deadline (task_pool s' ! v)) (deadline_queue s'))"
    using D(14) by (simp add: s' e)
  show "queues_ok s' (pl(t := Limbo))"
    using D(1-8,10-13) u un so by (intro queues_okI)
      (auto simp: s' nth_upd empty_task_def intro: queue_ok_move split: if_splits)
qed

lemma queues_free:
  assumes q: "queues_ok s pl" and t: "pl t = Limbo"
  shows "queues_ok (free_tcb s t) (pl(t := Unused))"
proof -
  note D = queues_okD [OF q]
  have b: "t < 64" using D(9) [of t] t by auto
  have un: "(pl(t := Unused)) v = Unused \<longleftrightarrow> 64 \<le> v \<or> bit (tcb_bitmap (free_tcb s t)) v" for v
    using D(9) [of v] b by (cases "v = t") (auto simp: free_tcb_def MAX_TASKS_def bit_set_bit_word)
  show ?thesis
    using D(1-8,10-14) t un b by (intro queues_okI)
      (auto simp: free_tcb_def MAX_TASKS_def intro: queue_ok_move split: if_splits)
qed

subsection \<open>Creating a task\<close>

lemma stack_alloc_spec:
  assumes "pmm_owns (pmm s) A"
  obtains (none) "pmm_alloc_pages (pmm s) 2 = Inr (pmm s, 0)"
  | (got) m p where "pmm_alloc_pages (pmm s) 2 = Inr (m, pfn_to_phys p)"
      "pfn_to_phys p \<noteq> 0" "bset (p, 2) \<inter> cover A = {}" "pmm_owns m (insert (p, 2) A)"
proof -
  have "(2 :: nat) \<le> PMM_MAX_ORDER" by (simp add: PMM_NUM_ORDERS_def)
  from pmm.alloc_spec [OF assms this] obtain m a where r: "pmm_alloc_pages (pmm s) 2 = Inr (m, a)"
    "a = 0 \<and> m = pmm s \<or> (\<exists>p. a = pfn_to_phys p \<and> 0 < p \<and> p < 2 ^ 52 \<and> 2 ^ 2 dvd p \<and>
       bset (p, 2) \<inter> cover A = {} \<and> pmm_owns m (insert (p, 2) A))" by blast
  show thesis
  proof (cases "a = 0 \<and> m = pmm s")
    case True
    then show thesis using none r(1) by simp
  next
    case False
    then obtain p where p: "a = pfn_to_phys p" "0 < p" "p < 2 ^ 52" "bset (p, 2) \<inter> cover A = {}"
      "pmm_owns m (insert (p, 2) A)" using r(2) by blast
    have nz: "pfn_to_phys p \<noteq> 0" using pfn_to_phys_facts(3) [OF p(3)] p(2) by simp
    show thesis by (rule got [where m = m and p = p]) (use r(1) p nz in simp_all)
  qed
qed

text \<open>A failed creation leaves everything but the contents of an unused slot as it was.\<close>

definition untouched :: "sched \<Rightarrow> (nat \<Rightarrow> place) \<Rightarrow> sched \<Rightarrow> bool" where
  "untouched s pl s' \<longleftrightarrow> s'\<lparr>task_pool := task_pool s, sched_lock := sched_lock s\<rparr> = s \<and>
     (\<forall>u. pl u \<noteq> Unused \<longrightarrow> task_pool s' ! u = task_pool s ! u)"

lemma task_create_full:
  assumes q: "queues_ok s pl" and lf: "lock_free s" and none: "tcb_bitmap s = 0"
  shows "\<exists>s'. task_create s nm fn = Inr (s', - ENOMEM) \<and> queues_ok s' pl \<and> lock_free s' \<and> untouched s pl s'"
proof -
  obtain l where l: "lock_sched s = Inr (s\<lparr>sched_lock := l\<rparr>)" "\<not> spin_is_locked (spin_unlock l)"
    using lock_sel [OF lf] by blast
  let ?s = "unlock_sched (s\<lparr>sched_lock := l\<rparr>)"
  have "queues_ok ?s pl" by (rule queues_ok_cong [OF q]) simp_all
  moreover have "lock_free ?s" "untouched s pl ?s" using l(2) by (simp_all add: lock_free_def untouched_def unlock_sched_def)
  ultimately show ?thesis using l(1) none by (simp add: task_create_def alloc_tcb_def)
qed

text \<open>The slot that a creation works on.\<close>

lemma create_slot:
  assumes q: "queues_ok s pl" and lf: "lock_free s" and free: "tcb_bitmap s \<noteq> 0"
  obtains l t where "lock_sched s = Inr (s\<lparr>sched_lock := l\<rparr>)" "\<not> spin_is_locked (spin_unlock l)" "t < 64" "pl t = Unused"
    "bit (tcb_bitmap s) t"
    "alloc_tcb (s\<lparr>sched_lock := l\<rparr>) =
       (s\<lparr>sched_lock := l, tcb_bitmap := tcb_bitmap s AND NOT (pow2 t), task_pool := (task_pool s)[t := empty_task]\<rparr>, Some t)"
    "queues_ok (s\<lparr>sched_lock := l, tcb_bitmap := tcb_bitmap s AND NOT (pow2 t), task_pool := (task_pool s)[t := empty_task]\<rparr>) (pl(t := Limbo))"
proof -
  obtain l where l: "lock_sched s = Inr (s\<lparr>sched_lock := l\<rparr>)" "\<not> spin_is_locked (spin_unlock l)"
    using lock_sel [OF lf] by blast
  let ?s1 = "s\<lparr>sched_lock := l\<rparr>"
  have q1: "queues_ok ?s1 pl" by (rule queues_ok_cong [OF q]) simp_all
  obtain s2 t where a: "alloc_tcb ?s1 = (s2, Some t)" using free tcb_find [of ?s1] by auto
  note Q = queues_alloc [OF q1 a]
  have b: "bit (tcb_bitmap s) t" using tcb.alloc_spec(1) [OF a] by (simp add: tcb_avail_def)
  have "s2 = s\<lparr>sched_lock := l, tcb_bitmap := tcb_bitmap s AND NOT (pow2 t), task_pool := (task_pool s)[t := empty_task]\<rparr>"
    using a by (auto simp: alloc_tcb_def split: if_splits option.splits)
  then show thesis using that [OF l Q(3,2) b] a Q(1) by simp
qed

lemma task_create_nomem:
  assumes q: "queues_ok s pl" and lf: "lock_free s" and free: "tcb_bitmap s \<noteq> 0" and none: "pmm_alloc_pages (pmm s) 2 = Inr (pmm s, 0)"
  shows "\<exists>s'. task_create s nm fn = Inr (s', - ENOMEM) \<and> queues_ok s' pl \<and> lock_free s' \<and> untouched s pl s'"
proof -
  obtain l t where l: "lock_sched s = Inr (s\<lparr>sched_lock := l\<rparr>)" "\<not> spin_is_locked (spin_unlock l)" "t < 64" "pl t = Unused" "bit (tcb_bitmap s) t"
    "alloc_tcb (s\<lparr>sched_lock := l\<rparr>) =
       (s\<lparr>sched_lock := l, tcb_bitmap := tcb_bitmap s AND NOT (pow2 t), task_pool := (task_pool s)[t := empty_task]\<rparr>, Some t)"
    "queues_ok (s\<lparr>sched_lock := l, tcb_bitmap := tcb_bitmap s AND NOT (pow2 t), task_pool := (task_pool s)[t := empty_task]\<rparr>) (pl(t := Limbo))"
    by (rule create_slot [OF q lf free])
  let ?s2 = "s\<lparr>sched_lock := l, tcb_bitmap := tcb_bitmap s AND NOT (pow2 t), task_pool := (task_pool s)[t := empty_task]\<rparr>"
  let ?s = "unlock_sched (free_tcb ?s2 t)"
  have r: "task_create s nm fn = Inr (?s, - ENOMEM)" using l(1,6) none by (simp add: task_create_def stack_alloc_def)
  have bm: "(tcb_bitmap s AND NOT (pow2 t)) OR pow2 t = tcb_bitmap s"
    using l(3,5) by (intro bit_eqI) (auto simp: bit_simps bit_pow2)
  have ne: "t \<noteq> u" if "pl u \<noteq> Unused" for u using that l(4) by auto
  have u: "untouched s pl ?s"
    using l(3) bm ne by (simp add: untouched_def unlock_sched_def free_tcb_def MAX_TASKS_def)
  have "queues_ok (free_tcb ?s2 t) ((pl(t := Limbo))(t := Unused))" by (rule queues_free [OF l(7)]) simp
  then have "queues_ok ?s (pl(t := Unused))" unfolding fun_upd_upd by (rule queues_ok_cong) simp_all
  moreover have "pl(t := Unused) = pl" using l(4) by auto
  moreover have "lock_free ?s" using l(2) by (simp add: lock_free_def unlock_sched_def free_tcb_def)
  ultimately show ?thesis using r u by auto
qed

text \<open>What a creation changes: the new task is put behind the others of normal priority, the slot and
  the task id are taken, and nothing else happens to another task or queue.\<close>

definition created :: "sched \<Rightarrow> nat \<Rightarrow> sched \<Rightarrow> bool" where
  "created s t s' \<longleftrightarrow> (\<forall>u. u \<noteq> t \<longrightarrow> task_pool s' ! u = task_pool s ! u) \<and>
     prio_queues s' = (prio_queues s)[TASK_PRIO_NORMAL := prio_queues s ! TASK_PRIO_NORMAL @ [t]] \<and>
     deadline_queue s' = deadline_queue s \<and> sleep_queue s' = sleep_queue s \<and> dead_queue s' = dead_queue s \<and> waitqs s' = waitqs s \<and>
     current s' = current s \<and> idle s' = idle s \<and> next_tid s' = next_tid s + 1 \<and> tcb_bitmap s' = tcb_bitmap s AND NOT (pow2 t) \<and>
     (\<forall>a. a \<noteq> stack_phys (task_pool s' ! t) \<longrightarrow> stack_word s' a = stack_word s a)"

lemma task_create_done:
  assumes q: "queues_ok s pl" and lf: "lock_free s" and free: "tcb_bitmap s \<noteq> 0" and got: "pmm_alloc_pages (pmm s) 2 = Inr (m, a)" "a \<noteq> 0"
  shows "\<exists>s' t. task_create s nm fn = Inr (s', sint (next_tid s)) \<and> pl t = Unused \<and> queues_ok s' (pl(t := Ready TASK_PRIO_NORMAL)) \<and>
    lock_free s' \<and> pmm s' = m \<and> task_pool s' ! t = new_task s a nm fn empty_task \<and> stack_canary_ok s' t \<and> created s t s'"
proof -
  obtain l t where l: "lock_sched s = Inr (s\<lparr>sched_lock := l\<rparr>)" "\<not> spin_is_locked (spin_unlock l)" "t < 64" "pl t = Unused" "bit (tcb_bitmap s) t"
    "alloc_tcb (s\<lparr>sched_lock := l\<rparr>) =
       (s\<lparr>sched_lock := l, tcb_bitmap := tcb_bitmap s AND NOT (pow2 t), task_pool := (task_pool s)[t := empty_task]\<rparr>, Some t)"
    "queues_ok (s\<lparr>sched_lock := l, tcb_bitmap := tcb_bitmap s AND NOT (pow2 t), task_pool := (task_pool s)[t := empty_task]\<rparr>) (pl(t := Limbo))"
    by (rule create_slot [OF q lf free])
  have len: "t < length (task_pool s)" using l(3) queues_okD(2) [OF q] by simp
  let ?k = "new_task s a nm fn empty_task"
  define s6 where "s6 = s\<lparr>sched_lock := l, tcb_bitmap := tcb_bitmap s AND NOT (pow2 t), task_pool := (task_pool s)[t := ?k], pmm := m,
      stack_word := (stack_word s)(a := TASK_STACK_CANARY), next_tid := next_tid s + 1, guard_pages := guard_pages s @ [a + hhdm_offset s]\<rparr>"
  let ?s7 = "unlock_sched (bitmap_enqueue s6 t)"
  have k: "task_pool s6 ! t = ?k" using len by (simp add: s6_def)
  have nt: "new_task (s\<lparr>sched_lock := l, tcb_bitmap := b, task_pool := tp, pmm := m, stack_word := sw\<rparr>) a nm fn = new_task s a nm fn" for b tp sw
    by (simp add: new_task_def fun_eq_iff)
  have sp: "stack_phys (new_task s a nm fn k) = a" for k by (simp add: new_task_def)
  have r: "task_create s nm fn = Inr (?s7, sint (next_tid s))"
    using l(1,6) got len nt by (simp add: sp task_create_def stack_alloc_def Let_def upd_task_def stack_canary_set_def)
      (rule arg_cong [where f = "\<lambda>x. unlock_sched (bitmap_enqueue x t)"], rule sched.equality, simp_all add: s6_def)
  have "queues_ok (upd_task (s\<lparr>sched_lock := l, tcb_bitmap := tcb_bitmap s AND NOT (pow2 t), task_pool := (task_pool s)[t := empty_task]\<rparr>) t
      (\<lambda>_. ?k)) (pl(t := Limbo))"
    by (rule queues_upd_limbo [OF l(7)]) (simp_all add: new_task_def TASK_PRIO_NORMAL_def)
  then have q6: "queues_ok s6 (pl(t := Limbo))" by (rule queues_ok_cong) (simp_all add: s6_def upd_task_def)
  have d: "dest s6 t = Ready TASK_PRIO_NORMAL" by (simp add: dest_def k new_task_def)
  have "queues_ok (bitmap_enqueue s6 t) ((pl(t := Limbo))(t := dest s6 t))"
    unfolding dest_def by (rule queues_enqueue [OF q6]) (simp_all add: k new_task_def)
  then have q7: "queues_ok ?s7 (pl(t := Ready TASK_PRIO_NORMAL))" unfolding d fun_upd_upd by (rule queues_ok_cong) simp_all
  have e: "bitmap_enqueue s6 t = s6\<lparr>prio_queues := (prio_queues s)[TASK_PRIO_NORMAL := prio_queues s ! TASK_PRIO_NORMAL @ [t]],
      prio_bitmap := prio_bitmap s6 OR pow2 TASK_PRIO_NORMAL\<rparr>"
    by (simp add: bitmap_enqueue_def Let_def k new_task_def) (simp add: s6_def)
  have k7: "task_pool ?s7 ! t = ?k" using k by (simp add: e unlock_sched_def)
  have "lock_free ?s7" using l(2) unfolding e by (simp add: lock_free_def s6_def)
  moreover have "stack_canary_ok ?s7 t" unfolding stack_canary_ok_def k7 unfolding e by (simp add: new_task_def Let_def s6_def)
  moreover have "created s t ?s7" unfolding created_def k7 unfolding e by (simp add: s6_def new_task_def)
  moreover have "pmm ?s7 = m" unfolding e by (simp add: s6_def)
  ultimately show ?thesis using r l(4) q7 k7 by blast
qed

lemma task_create_queues:
  assumes q: "queues_ok s pl" and lf: "lock_free s" and own: "pmm_owns (pmm s) A" and free: "tcb_bitmap s \<noteq> 0"
  shows "(\<exists>s'. task_create s nm fn = Inr (s', - ENOMEM) \<and> queues_ok s' pl \<and> lock_free s' \<and> untouched s pl s') \<or>
    (\<exists>s' t p. task_create s nm fn = Inr (s', sint (next_tid s)) \<and> pl t = Unused \<and> queues_ok s' (pl(t := Ready TASK_PRIO_NORMAL)) \<and>
       lock_free s' \<and> pmm_owns (pmm s') (insert (p, 2) A) \<and> task_pool s' ! t = new_task s (pfn_to_phys p) nm fn empty_task \<and>
       stack_canary_ok s' t \<and> created s t s')"
  using stack_alloc_spec [OF own] task_create_nomem [OF q lf free] task_create_done [OF q lf free] by metis

lemma create_inv:
  assumes inv: "sched_inv s pl" and c: "current s = Some c"
  shows "queues_ok s' pl \<Longrightarrow> lock_free s' \<Longrightarrow> untouched s pl s' \<Longrightarrow> sched_inv s' pl"
    "pl t = Unused \<Longrightarrow> queues_ok s' (pl(t := Ready TASK_PRIO_NORMAL)) \<Longrightarrow> lock_free s' \<Longrightarrow> created s t s' \<Longrightarrow>
      sched_inv s' (pl(t := Ready TASK_PRIO_NORMAL))"
proof -
  assume a: "queues_ok s' pl" "lock_free s'" "untouched s pl s'"
  have "current (s'\<lparr>task_pool := task_pool s, sched_lock := sched_lock s\<rparr>) = current s"
    "idle (s'\<lparr>task_pool := task_pool s, sched_lock := sched_lock s\<rparr>) = idle s" using a(3) by (simp_all add: untouched_def)
  then show "sched_inv s' pl" using a inv unfolding sched_inv_def sched_pre_def by simp
next
  assume a: "pl t = Unused" "queues_ok s' (pl(t := Ready TASK_PRIO_NORMAL))" "lock_free s'" "created s t s'"
  show "sched_inv s' (pl(t := Ready TASK_PRIO_NORMAL))"
    by (rule sched_inv_move [OF inv c _ _ _ a(2,3)])
      (use a c sched_invD(4) [OF inv c] idle_not [OF inv, of t] in \<open>auto simp: created_def\<close>)
qed

subsection \<open>Leaving and reaping\<close>

lemma task_exit_spec:
  assumes inv: "sched_inv s pl" and c: "current s = Some c" "idle s \<noteq> Some c" and can: "stack_canary_ok s c"
    and nj: "join_wq (task_pool s ! c) = None"
  shows "\<exists>s' pl' n. task_exit s = Inr s' \<and> current s' = Some n \<and> n \<noteq> c \<and> sched_inv s' pl' \<and> pl' c = Dead \<and>
    dead_queue s' = dead_queue s @ [c] \<and> finished (task_pool s' ! c)"
proof -
  note V = sched_invD [OF inv c(1)]
  obtain l where l: "lock_sched s = Inr (s\<lparr>sched_lock := l\<rparr>)" "\<not> spin_is_locked (spin_unlock l)"
    using lock_sel [OF V(3)] by blast
  let ?s1 = "s\<lparr>sched_lock := l\<rparr>"
  let ?f = "\<lambda>k. k\<lparr>state := TASK_DEAD, finished := True\<rparr>"
  let ?s2 = "upd_task ?s1 c ?f"
  let ?s3 = "?s2\<lparr>dead_queue := dead_queue ?s2 @ [c]\<rparr>"
  have st: "task_pool ?s2 ! c = ?f (task_pool s ! c)" using V(8) by (simp add: task_upd_task)
  have run: "task_exit s = schedule (unlock_sched ?s3)"
    using l(1) c(1) st nj by (simp add: task_exit_def wake_joiners_def)
  have q2: "queues_ok ?s2 (pl(c := Limbo))"
    using queues_okD(12) [OF V(2,7)] by (intro limbo_current [OF inv c(1)]) simp_all
  have q3: "queues_ok ?s3 ((pl(c := Limbo))(c := Dead))"
    by (rule queues_push_dead [OF q2]) (use st in simp_all)
  have q4: "queues_ok (unlock_sched ?s3) (pl(c := Dead))"
    by (rule queues_ok_cong [OF q3 [unfolded fun_upd_upd]]) simp_all
  have "lock_free (unlock_sched ?s3)" using l(2) by (simp add: lock_free_def)
  from block_and_schedule [OF inv c can _ q4 this] st c(1)
  obtain s' pl' n where r: "schedule (unlock_sched ?s3) = Inr s'" "current s' = Some n" "n \<noteq> c" "sched_inv s' pl'"
    "pl' c = Dead" "kept (unlock_sched ?s3) s'" by simp blast
  have "dead_queue s' = dead_queue s @ [c]" using r(6) by (simp add: kept_def)
  moreover have "finished (task_pool s' ! c)" using kept_fields(5) [OF r(6), of c] st by simp
  ultimately show ?thesis using r unfolding run by blast
qed

lemma exit_with_joiners:
  assumes inv: "sched_inv s pl" and c: "current s = Some c" and w: "join_wq (task_pool s ! c) = Some w"
    and ne: "waitqs s ! w = t # ts"
  shows "task_exit s = Inl Deadlock"
proof -
  note V = sched_invD [OF inv c]
  have "next_ticket (sched_lock s) = serving_ticket (sched_lock s)"
    using V(3) by (simp add: lock_free_def spin_is_locked_def)
  then have l: "lock_sched s = Inr (s\<lparr>sched_lock := (sched_lock s)\<lparr>next_ticket := next_ticket (sched_lock s) + 1\<rparr>\<rparr>)"
    by (simp add: lock_sched_def spin_lock_def take_ticket_def is_served_def)
  let ?s1 = "s\<lparr>sched_lock := (sched_lock s)\<lparr>next_ticket := next_ticket (sched_lock s) + 1\<rparr>\<rparr>"
  let ?s2 = "upd_task ?s1 c (\<lambda>k. k\<lparr>state := TASK_DEAD, finished := True\<rparr>)"
  have "join_wq (task_pool ?s2 ! c) = Some w" using V(8) w by (simp add: task_upd_task)
  moreover have "wake_head ?s2 w t ts = Inl Deadlock"
    using \<open>next_ticket (sched_lock s) = serving_ticket (sched_lock s)\<close>
    by (simp add: wake_head_def sched_add_ready_def lock_sched_def spin_lock_def take_ticket_def is_served_def)
  ultimately have "wake_joiners ?s2 c = Inl Deadlock" using ne by (simp add: wake_joiners_def wq_wake_all_def)
  then show ?thesis using l c by (simp add: task_exit_def)
qed

lemma queues_pop_dead:
  assumes q: "queues_ok s pl" and d: "dead_queue s = t # rest"
  shows "queues_ok (s\<lparr>dead_queue := rest\<rparr>) (pl(t := Limbo))" "pl t = Dead"
proof -
  note D = queues_okD [OF q]
  show t: "pl t = Dead" using D(7) d by (auto simp: queue_ok_def)
  have b: "t < 64" "\<not> bit (tcb_bitmap s) t" using D(9) [of t] t by auto
  have "queue_ok rest (pl(t := Limbo)) Dead" using D(7) d by (auto intro: queue_ok_pop)
  then show "queues_ok (s\<lparr>dead_queue := rest\<rparr>) (pl(t := Limbo))"
    using D t b d by (intro queues_okI) (auto intro: queue_ok_move split: if_splits)
qed

lemma pmm_owned_nonzero:
  assumes "pmm_owns m A" "(p, k) \<in> A"
  shows "pfn_to_phys p \<noteq> 0"
proof -
  from assms(1) obtain F M where i: "pmm_inv m F A M" "0 \<notin> M" by (auto simp: pmm_owns_def)
  note W = pmm_inv_free_wf [OF i(1)]
  have "p \<in> cover A" using assms(2) by (force simp: cover_def bset_def)
  then have "p \<in> M" using W(5) by blast
  then have "p \<noteq> 0" "p < 2 ^ 52" using i(2) W(6) by (auto simp del: power_numeral intro: ccontr)
  then show ?thesis using pfn_to_phys_facts(3) [of p] by simp
qed

text \<open>The stacks of the dead tasks are owned blocks of the page allocator.\<close>

definition dead_stacks :: "sched \<Rightarrow> block set \<Rightarrow> bool" where
  "dead_stacks s A \<longleftrightarrow> (\<forall>t \<in> set (dead_queue s). \<exists>p. stack_phys (task_pool s ! t) = pfn_to_phys p \<and>
      pfn_to_phys p \<noteq> 0 \<and> (p, 2) \<in> A) \<and>
     (\<forall>t \<in> set (dead_queue s). \<forall>u \<in> set (dead_queue s). t \<noteq> u \<longrightarrow>
        stack_phys (task_pool s ! t) \<noteq> stack_phys (task_pool s ! u))"

lemma reap_one_spec:
  assumes inv: "sched_inv s pl" and d: "dead_queue s = t # rest" and own: "pmm_owns (pmm s) A" and ds: "dead_stacks s A"
  obtains s' p where "reap_one s t rest = Inr s'" "sched_inv s' (pl(t := Unused))" "pl t = Dead"
    "stack_phys (task_pool s ! t) = pfn_to_phys p" "(p, 2) \<in> A" "pmm_owns (pmm s') (A - {(p, 2)})"
    "dead_queue s' = rest" "dead_stacks s' (A - {(p, 2)})"
    "\<And>u. u \<in> set rest \<Longrightarrow> task_pool s' ! u = task_pool s ! u"
proof -
  obtain c where c: "current s = Some c" using inv by (auto simp: sched_inv_def sched_pre_def)
  note V = sched_invD [OF inv c]
  obtain l where l: "lock_sched s = Inr (s\<lparr>sched_lock := l\<rparr>)" "\<not> spin_is_locked (spin_unlock l)"
    using lock_sel [OF V(3)] by blast
  obtain p where p: "stack_phys (task_pool s ! t) = pfn_to_phys p" "pfn_to_phys p \<noteq> 0" "(p, 2) \<in> A"
    using ds d by (auto simp: dead_stacks_def)
  let ?s1 = "s\<lparr>sched_lock := l\<rparr>"
  let ?s2 = "?s1\<lparr>dead_queue := rest\<rparr>"
  let ?s3 = "upd_task ?s2 t (\<lambda>k. k\<lparr>stack_phys := 0\<rparr>)"
  let ?s4 = "unlock_sched (free_tcb ?s3 t)"
  have q1: "queues_ok ?s1 pl" by (rule queues_ok_cong [OF V(2)]) simp_all
  note P = queues_pop_dead [OF q1, of t rest]
  have pd: "queues_ok ?s2 (pl(t := Limbo))" "pl t = Dead" using P d by simp_all
  have tb: "t < 64" "t < length (task_pool s)" using placed_bound [OF V(2), of t] pd(2) queues_okD(2) [OF V(2)] by auto
  have q3: "queues_ok ?s3 (pl(t := Limbo))"
    using queues_okD(12) [OF V(2) tb(1)] by (intro queues_upd_limbo [OF pd(1)]) simp_all
  have "queues_ok (free_tcb ?s3 t) ((pl(t := Limbo))(t := Unused))" by (rule queues_free [OF q3]) simp
  then have q4: "queues_ok ?s4 (pl(t := Unused))" unfolding fun_upd_upd by (rule queues_ok_cong) simp_all
  obtain m where m: "pmm_free_pages (pmm s) (pfn_to_phys p) 2 = Inr m" "pmm_owns m (A - {(p, 2)})"
    using pmm.release_spec [OF own p(3)] by blast
  let ?s5 = "?s4\<lparr>pmm := m\<rparr>"
  have q5: "queues_ok ?s5 (pl(t := Unused))" by (rule queues_ok_cong [OF q4]) simp_all
  have f4: "pmm ?s4 = pmm s" "current ?s5 = Some c" "idle ?s5 = idle s" "sched_lock ?s5 = spin_unlock l"
    "dead_queue ?s5 = rest" using c by (simp_all add: free_tcb_def)
  have run: "reap_one s t rest = Inr ?s5"
    using l(1) p(1,2) m(1) f4(1) by (simp add: reap_one_def Let_def)
  have inv5: "sched_inv ?s5 (pl(t := Unused))"
    by (rule sched_inv_move [OF inv c _ _ _ q5])
      (use pd(2) V(4) f4 l(2) idle_not [OF inv, of t] in \<open>auto simp: lock_free_def\<close>)
  have dist: "t \<notin> set rest" using queues_okD(7) [OF V(2)] d by (auto simp: queue_ok_def)
  have other: "task_pool ?s5 ! u = task_pool s ! u" if "u \<in> set rest" for u
    using that dist by (auto simp: free_tcb_def task_upd_task)
  have "dead_stacks ?s5 (A - {(p, 2)})"
    unfolding dead_stacks_def f4(5)
  proof (intro conjI ballI impI)
    fix u assume u: "u \<in> set rest"
    obtain r where r: "stack_phys (task_pool s ! u) = pfn_to_phys r" "pfn_to_phys r \<noteq> 0" "(r, 2) \<in> A"
      using ds d u by (auto simp: dead_stacks_def)
    have "stack_phys (task_pool s ! u) \<noteq> stack_phys (task_pool s ! t)"
      using ds d u dist unfolding dead_stacks_def by auto
    then have "r \<noteq> p" using r(1) p(1) by auto
    then show "\<exists>p'. stack_phys (task_pool ?s5 ! u) = pfn_to_phys p' \<and> pfn_to_phys p' \<noteq> 0 \<and> (p', 2) \<in> A - {(p, 2)}"
      using r other [OF u] by auto
  next
    fix u v assume "u \<in> set rest" "v \<in> set rest" "u \<noteq> v"
    then show "stack_phys (task_pool ?s5 ! u) \<noteq> stack_phys (task_pool ?s5 ! v)"
      using ds d other [of u] other [of v] unfolding dead_stacks_def by auto
  qed
  then show thesis using that [OF run inv5 pd(2) p(1,3)] m(2) f4(5) other by simp
qed

lemma reap_all_spec:
  assumes "sched_inv s pl" "pmm_owns (pmm s) A" "dead_stacks s A" "dead_queue s = ts"
  shows "\<exists>s' f. reap_list s ts = Inr s' \<and> sched_inv s' (\<lambda>t. if t \<in> set ts then Unused else pl t) \<and>
    dead_queue s' = [] \<and> (\<forall>t \<in> set ts. stack_phys (task_pool s ! t) = pfn_to_phys (f t) \<and> (f t, 2) \<in> A) \<and>
    pmm_owns (pmm s') (A - (\<lambda>t. (f t, 2)) ` set ts)"
  using assms
proof (induction ts arbitrary: s pl A)
  case Nil
  then show ?case by auto
next
  case (Cons t rest)
  obtain s1 p where r: "reap_one s t rest = Inr s1" "sched_inv s1 (pl(t := Unused))" "pl t = Dead"
    "stack_phys (task_pool s ! t) = pfn_to_phys p" "(p, 2) \<in> A" "pmm_owns (pmm s1) (A - {(p, 2)})"
    "dead_queue s1 = rest" "dead_stacks s1 (A - {(p, 2)})"
    and o: "\<And>u. u \<in> set rest \<Longrightarrow> task_pool s1 ! u = task_pool s ! u"
    using reap_one_spec [OF Cons.prems(1,4,2,3)] by metis
  obtain s' f where f: "reap_list s1 rest = Inr s'"
    "sched_inv s' (\<lambda>u. if u \<in> set rest then Unused else (pl(t := Unused)) u)" "dead_queue s' = []"
    "\<And>u. u \<in> set rest \<Longrightarrow> stack_phys (task_pool s1 ! u) = pfn_to_phys (f u) \<and> (f u, 2) \<in> A - {(p, 2)}"
    "pmm_owns (pmm s') (A - {(p, 2)} - (\<lambda>t. (f t, 2)) ` set rest)"
    using Cons.IH [OF r(2,6,8,7)] by blast
  obtain c where c: "current s = Some c" using Cons.prems(1) by (auto simp: sched_inv_def sched_pre_def)
  have nt: "t \<notin> set rest"
    using queues_okD(7) [OF sched_invD(2) [OF Cons.prems(1) c]] Cons.prems(4) by (auto simp: queue_ok_def)
  let ?g = "f(t := p)"
  have im: "(\<lambda>u. (?g u, 2)) ` set (t # rest) = insert (p, 2) ((\<lambda>u. (f u, 2)) ` set rest)"
    using nt by (auto simp: image_iff)
  have "A - (\<lambda>u. (?g u, 2)) ` set (t # rest) = A - {(p, 2)} - (\<lambda>u. (f u, 2)) ` set rest" unfolding im by blast
  moreover have "(\<lambda>u. if u \<in> set (t # rest) then Unused else pl u) =
      (\<lambda>u. if u \<in> set rest then Unused else (pl(t := Unused)) u)" by (auto simp: fun_eq_iff)
  moreover have "\<forall>u \<in> set (t # rest). stack_phys (task_pool s ! u) = pfn_to_phys (?g u) \<and> (?g u, 2) \<in> A"
    using r(4,5) f(4) o nt by auto
  ultimately show ?case using r(1) f by (intro exI [of _ s'] exI [of _ ?g]) simp
qed

end
