(* ===== verification/Sched_Queues.thy ===== *)
theory Sched_Queues
  imports Sched_Proofs "HOL-Library.Multiset"
begin

text \<open>
  The contents and the order of the scheduler's queues around a call of \<open>schedule\<close>: which tasks are in
  the ready queue of a priority and in the deadline queue once the sleepers whose time has come are
  awake, who is at the head, and what the queues hold afterwards.
\<close>

definition due :: "sched \<Rightarrow> nat \<Rightarrow> bool" where
  "due s t \<longleftrightarrow> sleep_until (task_pool s ! t) \<le> pit_ticks s"

abbreviation dl :: "sched \<Rightarrow> nat \<Rightarrow> u64" where
  "dl s t \<equiv> deadline (task_pool s ! t)"

text \<open>The ready queue of priority \<open>p\<close> with the awakened sleepers behind, and the deadline queue with
  them, by deadline and first come first served among equal deadlines.\<close>

definition ready_queue :: "sched \<Rightarrow> nat \<Rightarrow> nat list" where
  "ready_queue s p = prio_queues s ! p @ filter (\<lambda>t. due s t \<and> dest s t = Ready p) (sleep_queue s)"

definition edf_queue :: "sched \<Rightarrow> nat list" where
  "edf_queue s = sort_key (dl s) (deadline_queue s @ filter (\<lambda>t. due s t \<and> dest s t = EDF) (sleep_queue s))"

text \<open>The head of the queue that is served: the deadline queue \<open>dq\<close> if it has a task, otherwise the first
  non-empty one of the ready queues \<open>rq 0\<close> to \<open>rq 63\<close>, otherwise the idle task \<open>i\<close>.\<close>

definition head_of :: "nat list \<Rightarrow> (nat \<Rightarrow> nat list) \<Rightarrow> nat option \<Rightarrow> nat \<Rightarrow> bool" where
  "head_of dq rq i n \<longleftrightarrow>
     (if dq \<noteq> [] then n = hd dq
      else if \<exists>p < 64. rq p \<noteq> [] then \<exists>p < 64. rq p \<noteq> [] \<and> (\<forall>j < p. rq j = []) \<and> n = hd (rq p)
      else i = Some n)"

lemma head_of_cong:
  assumes "\<And>p. p < 64 \<Longrightarrow> rq p = rq' p"
  shows "head_of dq rq i n \<longleftrightarrow> head_of dq rq' i n"
proof -
  have "(p < 64 \<and> rq p \<noteq> [] \<and> (\<forall>j < p. rq j = []) \<and> n = hd (rq p)) \<longleftrightarrow> (p < 64 \<and> rq' p \<noteq> [] \<and> (\<forall>j < p. rq' j = []) \<and> n = hd (rq' p))"
    "(p < 64 \<and> rq p \<noteq> []) \<longleftrightarrow> (p < 64 \<and> rq' p \<noteq> [])" for p
    using assms less_trans [of _ p 64] by auto
  then show ?thesis unfolding head_of_def by auto
qed

definition next_up :: "sched \<Rightarrow> nat \<Rightarrow> bool" where
  "next_up s n \<longleftrightarrow> head_of (edf_queue s) (ready_queue s) (idle s) n"

subsection \<open>Insertion by deadline is stable sorting\<close>

lemma insert_deadline_cong:
  "(\<And>u. deadline (ts ! u) = deadline (us ! u)) \<Longrightarrow> insert_deadline ts t q = insert_deadline us t q"
  by (induction q) auto

lemma insert_deadline_filter:
  "sorted (map (\<lambda>t. deadline (ts ! t)) q) \<Longrightarrow>
   filter (\<lambda>u. k = deadline (ts ! u)) (insert_deadline ts t q) = filter (\<lambda>u. k = deadline (ts ! u)) (q @ [t])"
proof (induction q)
  case (Cons a q)
  show ?case
  proof (cases "deadline (ts ! t) < deadline (ts ! a)")
    case True
    then have "\<forall>u \<in> set (a # q). deadline (ts ! t) \<noteq> deadline (ts ! u)" using Cons.prems by auto
    then have "filter (\<lambda>u. k = deadline (ts ! u)) (a # q) = []" if "k = deadline (ts ! t)"
      using that by (simp add: filter_empty_conv)
    then show ?thesis using True by (cases "k = deadline (ts ! t)") (simp_all split: if_splits)
  next
    case False
    then show ?thesis using Cons by auto
  qed
qed simp

lemma insert_deadline_mset: "mset (insert_deadline ts t q) = mset (q @ [t])"
  by (induction q) auto

lemma insert_deadline_sort:
  "insert_deadline ts t (sort_key (\<lambda>u. deadline (ts ! u)) q) = sort_key (\<lambda>u. deadline (ts ! u)) (q @ [t])" (is "?l = _")
proof (rule sym, rule properties_for_sort_key)
  let ?f = "\<lambda>u. deadline (ts ! u)"
  have s: "sorted (map ?f (sort_key ?f q))" by simp
  show "mset ?l = mset (q @ [t])" by (simp add: insert_deadline_mset)
  show "sorted (map ?f ?l)" by (rule insert_deadline_sorted [OF s])
  show "filter (\<lambda>x. ?f k = ?f x) ?l = filter (\<lambda>x. ?f k = ?f x) (q @ [t])" if "k \<in> set ?l" for k
    unfolding insert_deadline_filter [OF s] filter_append using sort_key_stable [where f = ?f and k = "?f k" and xs = q] by (simp add: eq_commute [of "?f k"])
qed

subsection \<open>The queues after each part of schedule\<close>

lemma same_env_dl: "same_env s s' \<Longrightarrow> dl s' t = dl s t" "same_env s s' \<Longrightarrow> sleep_until (task_pool s' ! t) = sleep_until (task_pool s ! t)"
  using body_fields(1,3) [of "task_pool s' ! t" "task_pool s ! t"] by (simp_all add: same_env_def)

lemma enqueue_prio:
  assumes "length (prio_queues s) = 64" "p < 64"
  shows "prio_queues (bitmap_enqueue s t) ! p = prio_queues s ! p @ (if dest s t = Ready p then [t] else [])"
  using assms by (simp add: bitmap_enqueue_def deadline_enqueue_def dest_def Let_def nth_upd)

lemma enqueue_edf:
  assumes "deadline_queue s = sort_key (dl s) q"
  shows "deadline_queue (bitmap_enqueue s t) = sort_key (dl s) (q @ (if dest s t = EDF then [t] else []))"
  using assms insert_deadline_sort [of "task_pool s" t q]
  by (simp add: bitmap_enqueue_def deadline_enqueue_def dest_def Let_def)

lemma enqueue_len: "length (prio_queues (bitmap_enqueue s t)) = length (prio_queues s)"
  "sleep_queue (bitmap_enqueue s t) = sleep_queue s"
  by (simp_all add: bitmap_enqueue_def deadline_enqueue_def Let_def)

text \<open>One sleeper.\<close>

lemma wake_one_queues:
  fixes now :: u64 and t :: nat
  assumes "length (prio_queues s) = 64" "deadline_queue s = sort_key (dl s) q"
  defines "s' \<equiv> wake_one_sleeper now s t" and "d \<equiv> sleep_until (task_pool s ! t) \<le> now"
  shows "same_env s s'" "length (prio_queues s') = 64"
    "p < 64 \<Longrightarrow> prio_queues s' ! p = prio_queues s ! p @ (if d \<and> dest s t = Ready p then [t] else [])"
    "deadline_queue s' = sort_key (dl s) (q @ (if d \<and> dest s t = EDF then [t] else []))"
    "sleep_queue s' = (if d then remove1 t (sleep_queue s) else sleep_queue s)"
proof -
  let ?u = "upd_task (s\<lparr>sleep_queue := remove1 t (sleep_queue s)\<rparr>) t (\<lambda>k. k\<lparr>state := TASK_READY\<rparr>)"
  have s': "s' = (if d then bitmap_enqueue ?u t else s)" by (simp add: s'_def d_def wake_one_sleeper_def Let_def)
  have "same_env s (s\<lparr>sleep_queue := remove1 t (sleep_queue s)\<rparr>)" by (simp add: same_env_def)
  then have e: "same_env s ?u" by (rule same_env_trans [OF _ same_env_state])
  have f: "dl ?u = dl s" "dest ?u t = dest s t" using same_env_dl(1) [OF e] dest_env [OF e] by auto
  show "same_env s s'" using same_env_trans [OF e same_env_enqueue] by (simp add: s')
  show "length (prio_queues s') = 64" using assms(1) by (simp add: s' enqueue_len)
  show "p < 64 \<Longrightarrow> prio_queues s' ! p = prio_queues s ! p @ (if d \<and> dest s t = Ready p then [t] else [])"
    using assms(1) by (simp add: s' enqueue_prio f(2))
  have "deadline_queue ?u = sort_key (dl ?u) q" using assms(2) f(1) by simp
  from enqueue_edf [OF this, of t] show "deadline_queue s' = sort_key (dl s) (q @ (if d \<and> dest s t = EDF then [t] else []))"
    using assms(2) f by (simp add: s')
  show "sleep_queue s' = (if d then remove1 t (sleep_queue s) else sleep_queue s)" by (simp add: s' enqueue_len)
qed

lemma wake_fold_queues:
  fixes now :: u64 and ts :: "nat list"
  assumes "length (prio_queues s) = 64" "deadline_queue s = sort_key (dl s) q" "distinct (sleep_queue s)"
  defines "s' \<equiv> foldl (wake_one_sleeper now) s ts" and "d \<equiv> \<lambda>t. sleep_until (task_pool s ! t) \<le> now"
  shows "(\<forall>p < 64. prio_queues s' ! p = prio_queues s ! p @ filter (\<lambda>t. d t \<and> dest s t = Ready p) ts) \<and>
    deadline_queue s' = sort_key (dl s) (q @ filter (\<lambda>t. d t \<and> dest s t = EDF) ts) \<and>
    sleep_queue s' = filter (\<lambda>t. \<not> (t \<in> set ts \<and> d t)) (sleep_queue s)"
  using assms(1-3) unfolding s'_def d_def
proof (induction ts arbitrary: s q)
  case (Cons t ts)
  let ?s = "wake_one_sleeper now s t" and ?d = "\<lambda>t. sleep_until (task_pool s ! t) \<le> now"
  note W = wake_one_queues [OF Cons.prems(1,2), where now = now and t = t]
  have f: "dl ?s = dl s" "dest ?s = dest s" "\<And>u. sleep_until (task_pool ?s ! u) = sleep_until (task_pool s ! u)"
    using same_env_dl [OF W(1)] dest_env [OF W(1)] by auto
  have sl: "sleep_queue ?s = filter (\<lambda>u. \<not> (u = t \<and> ?d u)) (sleep_queue s)"
    unfolding W(5) using Cons.prems(3) by (auto simp: distinct_remove1_removeAll removeAll_filter_not_eq intro!: filter_cong)
  have "distinct (sleep_queue ?s)" unfolding sl using Cons.prems(3) by simp
  from Cons.IH [OF W(2) _ this, unfolded f, OF W(4)]
  show ?case unfolding foldl_Cons sl filter_filter by (auto simp: W(3) intro!: filter_cong)
qed simp

text \<open>After the sleepers are awake the queues are those of the specification.\<close>

lemma wake_sleepers_queues:
  assumes q: "queues_ok s pl"
  shows "p < 64 \<Longrightarrow> prio_queues (wake_sleepers s) ! p = ready_queue s p" "deadline_queue (wake_sleepers s) = edf_queue s"
    "sleep_queue (wake_sleepers s) = filter (\<lambda>t. \<not> due s t) (sleep_queue s)"
proof -
  note D = queues_okD [OF q]
  have ds: "deadline_queue s = sort_key (dl s) (deadline_queue s)" using D(14) by (simp add: sorted_sort_id sort_key_id_if_sorted)
  have di: "distinct (sleep_queue s)" using D(6) by (simp add: queue_ok_def)
  note W = wake_fold_queues [OF D(1) ds di, where now = "pit_ticks s" and ts = "sleep_queue s"]
  show "p < 64 \<Longrightarrow> prio_queues (wake_sleepers s) ! p = ready_queue s p" "deadline_queue (wake_sleepers s) = edf_queue s"
    using W by (simp_all add: wake_sleepers_def ready_queue_def edf_queue_def due_def)
  show "sleep_queue (wake_sleepers s) = filter (\<lambda>t. \<not> due s t) (sleep_queue s)"
    using W by (auto simp: wake_sleepers_def due_def intro: filter_cong)
qed

subsection \<open>The choice\<close>

lemma queue_ok_others: "queue_ok q pl x \<Longrightarrow> pl n \<noteq> x \<Longrightarrow> filter (\<lambda>t. t \<noteq> n) q = q"
  by (auto simp: queue_ok_def filter_id_conv)

lemma queue_ok_tail: "queue_ok (n # q) pl x \<Longrightarrow> filter (\<lambda>t. t \<noteq> n) (n # q) = q"
  by (auto simp: queue_ok_def filter_id_conv)

lemma pick_next_queues:
  assumes q: "queues_ok s pl" and i: "idle s = Some i" and r: "pick_next s = Inr (s', n)"
  shows "head_of (deadline_queue s) ((!) (prio_queues s)) (idle s) n" "deadline_queue s' = filter (\<lambda>t. t \<noteq> n) (deadline_queue s)"
    "sleep_queue s' = sleep_queue s" "length (prio_queues s') = 64" "p < 64 \<Longrightarrow> prio_queues s' ! p = filter (\<lambda>t. t \<noteq> n) (prio_queues s ! p)"
proof -
  note D = queues_okD [OF q]
  have "head_of (deadline_queue s) ((!) (prio_queues s)) (idle s) n \<and> deadline_queue s' = filter (\<lambda>t. t \<noteq> n) (deadline_queue s) \<and>
    sleep_queue s' = sleep_queue s \<and> length (prio_queues s') = 64 \<and> (\<forall>p < 64. prio_queues s' ! p = filter (\<lambda>t. t \<noteq> n) (prio_queues s ! p))"
  proof (cases "deadline_queue s")
    case (Cons t rest)
    then have r': "n = t" "s' = s\<lparr>deadline_queue := rest\<rparr>" using r by (simp_all add: pick_next_def edf_pick_def)
    have e: "pl n = EDF" using D(5) Cons r' by (auto simp: queue_ok_def)
    have "filter (\<lambda>u. u \<noteq> n) (prio_queues s ! p) = prio_queues s ! p" if "p < 64" for p
      by (rule queue_ok_others [OF D(3) [OF that]]) (simp add: e)
    then show ?thesis using Cons queue_ok_tail [of n rest pl EDF] D(1,5) r' by (simp add: head_of_def)
  next
    case Nil
    show ?thesis
    proof (cases "prio_bitmap s = 0")
      case True
      then have "prio_queues s ! p = []" if "p < 64" for p using D(4) [OF that] by simp
      then show ?thesis using Nil True r i D(1) by (auto simp: head_of_def pick_next_def edf_pick_def)
    next
      case False
      show ?thesis
      proof (rule queues_pop_prio [OF q False])
        fix p t rest
        assume a: "bitmap_dequeue s = Inr (s\<lparr>prio_queues := (prio_queues s)[p := rest],
            prio_bitmap := (if rest = [] then prio_bitmap s AND NOT (pow2 p) else prio_bitmap s)\<rparr>, Some t)"
          "pl t = Ready p" "\<And>u j. pl u = Ready j \<Longrightarrow> p \<le> j" "prio_queues s ! p = t # rest"
        have r': "n = t" "s' = s\<lparr>prio_queues := (prio_queues s)[p := rest],
            prio_bitmap := (if rest = [] then prio_bitmap s AND NOT (pow2 p) else prio_bitmap s)\<rparr>"
          using Nil False a(1) r by (simp_all add: pick_next_def edf_pick_def)
        have p: "p < 64" by (rule D(11) [OF a(2)])
        have low: "prio_queues s ! j = []" if "j < p" for j
        proof (rule ccontr)
          assume "prio_queues s ! j \<noteq> []"
          then obtain u where "u \<in> set (prio_queues s ! j)" by (cases "prio_queues s ! j") auto
          then have "pl u = Ready j" using D(3) [of j] that p by (auto simp: queue_ok_def)
          from a(3) [OF this] that show False by simp
        qed
        have "prio_queues s' ! j = filter (\<lambda>u. u \<noteq> n) (prio_queues s ! j)" if "j < 64" for j
          using queue_ok_others [OF D(3) [OF that], of n] queue_ok_tail [of n rest pl "Ready p"] D(1) D(3) [OF p] a(2,4) r'
          by (cases "j = p") (simp_all add: p)
        moreover have "head_of [] ((!) (prio_queues s)) (idle s) n"
          unfolding head_of_def using p low a(4) r'(1) by auto
        ultimately show ?thesis using Nil r' D(1) by simp
      qed
    qed
  qed
  then show "head_of (deadline_queue s) ((!) (prio_queues s)) (idle s) n" "deadline_queue s' = filter (\<lambda>t. t \<noteq> n) (deadline_queue s)"
    "sleep_queue s' = sleep_queue s" "length (prio_queues s') = 64" "p < 64 \<Longrightarrow> prio_queues s' ! p = filter (\<lambda>t. t \<noteq> n) (prio_queues s ! p)"
    by blast+
qed

text \<open>The queues once the old task has been put back.\<close>

lemma switch_queues:
  fixes c :: nat
  assumes "length (prio_queues s) = 64" "sorted (map (dl s) (deadline_queue s))"
  defines "back \<equiv> \<lambda>x. if state (task_pool s ! c) = TASK_RUNNING \<and> dest s c = x then [c] else []"
  shows "p < 64 \<Longrightarrow> prio_queues (switch_to s c n) ! p = prio_queues s ! p @ back (Ready p)"
    "deadline_queue (switch_to s c n) = sort_key (dl s) (deadline_queue s @ back EDF)"
    "sleep_queue (switch_to s c n) = sleep_queue s"
proof -
  let ?u = "upd_task s c (\<lambda>k. k\<lparr>state := TASK_READY\<rparr>)"
  have f: "dl ?u = dl s" "dest ?u c = dest s c" using same_env_dl(1) [OF same_env_state] dest_env [OF same_env_state] by auto
  have ds: "deadline_queue s = sort_key (dl s) (deadline_queue s)" using assms(2) by (simp add: sort_key_id_if_sorted)
  then have "deadline_queue ?u = sort_key (dl ?u) (deadline_queue s)" using f(1) by simp
  from enqueue_edf [OF this, of c] show "deadline_queue (switch_to s c n) = sort_key (dl s) (deadline_queue s @ back EDF)"
    using ds f by (simp add: switch_to_def back_def Let_def)
  show "p < 64 \<Longrightarrow> prio_queues (switch_to s c n) ! p = prio_queues s ! p @ back (Ready p)"
    "sleep_queue (switch_to s c n) = sleep_queue s"
    using assms(1) f(2) by (simp_all add: switch_to_def back_def Let_def enqueue_prio enqueue_len)
qed

text \<open>The queues around a whole call by a running task: \<open>n\<close> leaves the head of its queue and the task that
  gives up the processor goes to the end of its own.\<close>

definition queues_after :: "sched \<Rightarrow> nat \<Rightarrow> nat \<Rightarrow> sched \<Rightarrow> bool" where
  "queues_after s c n s' \<longleftrightarrow>
     (\<forall>p < 64. prio_queues s' ! p =
        filter (\<lambda>t. t \<noteq> n) (ready_queue s p) @ (if n \<noteq> c \<and> dest s c = Ready p then [c] else [])) \<and>
     deadline_queue s' = sort_key (dl s)
        (filter (\<lambda>t. t \<noteq> n) (edf_queue s) @ (if n \<noteq> c \<and> dest s c = EDF then [c] else [])) \<and>
     sleep_queue s' = filter (\<lambda>t. \<not> due s t) (sleep_queue s)"

lemma edf_sorted: "sorted (map (dl s) (filter P (edf_queue s)))"
  unfolding edf_queue_def filter_sort by (rule sorted_sort_key)

lemma edf_id: "sort_key (dl s) (filter P (edf_queue s)) = filter P (edf_queue s)"
  by (rule sort_key_id_if_sorted [OF edf_sorted])

lemma schedule_queues:
  assumes q: "queues_ok s pl" and lf: "lock_free s" and cur: "current s = Some c" and i: "idle s = Some i" and can: "stack_canary_ok s c"
    and run: "pl c = Running" and r: "schedule s = Inr s'" "current s' = Some n"
  shows "next_up s n \<and> queues_after s c n s'"
proof -
  obtain l where l: "lock_sched s = Inr (s\<lparr>sched_lock := l\<rparr>)" using lock_free_lock [OF lf] by blast
  define s1 where "s1 = s\<lparr>sched_lock := l, need_resched := False\<rparr>"
  have q1: "queues_ok s1 pl" by (rule queues_ok_cong [OF q]) (simp_all add: s1_def)
  define s2 where "s2 = wake_sleepers s1"
  have e0: "sleep_queue s1 = sleep_queue s" by (simp add: s1_def)
  have e1: "due s1 = due s" "dest s1 = dest s" "dl s1 = dl s" "ready_queue s1 = ready_queue s" "edf_queue s1 = edf_queue s"
    by (simp_all add: fun_eq_iff due_def dest_def s1_def ready_queue_def edf_queue_def)
  note W = wake_sleepers_queues [OF q1, folded s2_def, unfolded e1]
  have q2: "queues_ok s2 (\<lambda>t. if pl t = Asleep \<and> sleep_until (task_pool s1 ! t) \<le> pit_ticks s1 then dest s1 t else pl t)" (is "queues_ok s2 ?w")
    and e2: "same_env s1 s2" using wake_sleepers_spec [OF q1] unfolding s2_def by blast+
  have i2: "idle s2 = Some i" "current s2 = Some c" using e2 i cur by (simp_all add: same_env_def s1_def)
  have dl2: "dl s2 = dl s" "dest s2 c = dest s c" using same_env_dl(1) [OF e2] dest_env [OF e2] e1 by auto
  have "stack_phys (task_pool s2 ! c) = stack_phys (task_pool s ! c)" "stack_word s2 = stack_word s"
    using e2 body_fields(4) [of "task_pool s2 ! c" "task_pool s1 ! c"] by (simp_all add: same_env_def s1_def)
  then have can2: "stack_canary_ok s2 c" using can by (simp add: stack_canary_ok_def)
  obtain s3 m where p: "pick_next s2 = Inr (s3, m)" "task_pool s3 = task_pool s2" "same_env s2 s3" by (rule pick_next_spec [OF q2 i2(1)]) blast
  have fin: "s' = unlock_sched (if m = c then s3 else switch_to s3 c m)"
    using r(1) l cur p(1) can2 by (simp add: schedule_def s2_def s1_def split: if_splits)
  have "current s3 = Some c" using p(3) i2(2) by (simp add: same_env_def)
  then have m: "m = n" using r(2) fin by (auto simp: switch_to_def Let_def split: if_splits)
  note P = pick_next_queues [OF q2 i2(1) p(1), unfolded m]
  have cb: "c < 64" using placed_bound [OF q, of c] run by simp
  have st: "state (task_pool s3 ! c) = TASK_RUNNING" using queues_okD(13) [OF q2 cb] run p(2) by simp
  have dl3: "dl s3 = dl s" "dest s3 c = dest s c" using p(2) dl2 dest_env [OF p(3)] by simp_all
  have so: "sorted (map (dl s3) (deadline_queue s3))" unfolding P(2) W(2) dl3 by (rule edf_sorted)
  note S = switch_queues [OF P(4) so, where c = c and n = n, unfolded dl3 P(2) W(2)]
  have "next_up s n" using P(1) head_of_cong [OF W(1)] W(2) i2(1) i unfolding next_up_def by simp
  moreover have "queues_after s c n s'"
    unfolding queues_after_def fin m
    using S P(2,3,5) W st e0 by (simp add: edf_id)
  ultimately show ?thesis ..
qed

end
