(* ===== verification/Sched_Spec.thy ===== *)
theory Sched_Spec
  imports Sched_Ops Sched_Queues
begin

text \<open>
  What the scheduler promises: the boot sequence establishes the invariant of
  \<open>Sched_Proofs\<close>, every operation keeps it, and each does to the calling and to the other
  tasks what its name says.
\<close>

subsection \<open>Boot\<close>

lemma queues_del_prio:
  assumes q: "queues_ok s pl" and t: "pl t = Ready p"
  defines "rest \<equiv> remove1 t (prio_queues s ! p)"
  shows "queues_ok (s\<lparr>idle := x, prio_queues := (prio_queues s)[p := rest],
      prio_bitmap := (if rest = [] then prio_bitmap s AND NOT (pow2 p) else prio_bitmap s)\<rparr>) (pl(t := Limbo))"
proof -
  note D = queues_okD [OF q]
  let ?s = "s\<lparr>idle := x, prio_queues := (prio_queues s)[p := rest],
      prio_bitmap := (if rest = [] then prio_bitmap s AND NOT (pow2 p) else prio_bitmap s)\<rparr>"
  have p: "p < 64" using D(11) [OF t] .
  have b: "t < 64" "\<not> bit (tcb_bitmap s) t" using D(9) [of t] t by auto
  have m: "t \<in> set (prio_queues s ! p)" using D(3) [OF p] t by (auto simp: queue_ok_def)
  then have bp: "bit (prio_bitmap s) p" using D(4) [OF p] by (cases "prio_queues s ! p") auto
  have rq: "queue_ok rest (pl(t := Limbo)) (Ready p)" unfolding rest_def by (rule queue_ok_del [OF D(3) [OF p]]) simp
  have "queue_ok (prio_queues ?s ! i) (pl(t := Limbo)) (Ready i)" "bit (prio_bitmap ?s) i \<longleftrightarrow> prio_queues ?s ! i \<noteq> []"
    if i: "i < 64" for i
    using D(1) D(3,4) [OF i] t p rq bp
    by (cases "i = p"; auto simp: bit_clear_bit_word intro: queue_ok_move)+
  then show ?thesis
    using D t b by (intro queues_okI) (auto intro: queue_ok_move split: if_splits)
qed

lemma boot_queues: "queues_ok (sched_boot m h) (\<lambda>_. Unused)"
  by (rule queues_okI) (auto simp: sched_boot_def queue_ok_def empty_task_def bit_not_iff)

text \<open>The last part of \<open>sched_init\<close>: the idle task leaves its ready queue and is parked.\<close>

lemma park_idle:
  fixes s :: sched
  assumes q: "queues_ok s ((\<lambda>_. Unused)(c := Running, i := Ready TASK_PRIO_NORMAL))" and ic: "i \<noteq> c" and cur: "current s = Some c"
    and pq: "prio_queues s ! TASK_PRIO_NORMAL = [i]" and l: "\<not> spin_is_locked (spin_unlock l)"
  defines "s7 \<equiv> s\<lparr>sched_lock := l, idle := Some i, prio_queues := (prio_queues s)[TASK_PRIO_NORMAL := []],
        prio_bitmap := prio_bitmap s AND NOT (pow2 TASK_PRIO_NORMAL)\<rparr>"
  defines "s8 \<equiv> unlock_sched (upd_task s7 i (\<lambda>k. k\<lparr>state := TASK_READY\<rparr>))"
  shows "sched_inv s8 ((\<lambda>_. Unused)(c := Running, i := Parked))" "idle s8 = Some i" "current s8 = Some c" "pmm s8 = pmm s"
    "task_pool s8 ! i = (task_pool s ! i)\<lparr>state := TASK_READY\<rparr>" "stack_word s8 = stack_word s"
proof -
  let ?U = "\<lambda>_. Unused" and ?s8 = "upd_task s7 i (\<lambda>k. k\<lparr>state := TASK_READY\<rparr>)"
  have q6: "queues_ok (s\<lparr>sched_lock := l\<rparr>) (?U(c := Running, i := Ready TASK_PRIO_NORMAL))" by (rule queues_ok_cong [OF q]) simp_all
  have q7: "queues_ok s7 (?U(c := Running, i := Limbo))"
    using queues_del_prio [OF q6, of i TASK_PRIO_NORMAL "Some i"] pq by (simp add: s7_def)
  have ib: "i < 64" "i < length (task_pool s7)" using placed_bound [OF q7, of i] queues_okD(2) [OF q7] by auto
  have "queues_ok ?s8 (?U(c := Running, i := Limbo))"
    using queues_okD(12) [OF q7 ib(1)] by (intro queues_upd_limbo [OF q7]) simp_all
  then have "queues_ok ?s8 ((?U(c := Running, i := Limbo))(i := Parked))"
    by (rule queues_relabel) (use ib in \<open>auto simp: task_upd_task\<close>)
  then have q8: "queues_ok s8 (?U(c := Running, i := Parked))"
    unfolding fun_upd_upd by (rule queues_ok_cong) (simp_all add: s8_def)
  show S: "idle s8 = Some i" "current s8 = Some c" "pmm s8 = pmm s" "stack_word s8 = stack_word s"
    using cur by (simp_all add: s7_def s8_def)
  have "lock_free s8" using l by (simp add: s7_def s8_def lock_free_def)
  then have "sched_pre s8 (?U(c := Running, i := Parked)) c"
    unfolding sched_pre_def using q8 S ic by (auto split: if_splits)
  then show "sched_inv s8 (?U(c := Running, i := Parked))" unfolding sched_inv_def using ic by (intro exI [of _ c]) simp
  show "task_pool s8 ! i = (task_pool s ! i)\<lparr>state := TASK_READY\<rparr>" using ib by (simp add: task_upd_task s7_def s8_def)
qed

lemma sched_init_steps:
  assumes own: "pmm_owns m A"
  shows "sched_init (sched_boot m h) nm inm fn = Inl KAssert \<or>
    (\<exists>s c i p. sched_init (sched_boot m h) nm inm fn = Inr s \<and> c \<noteq> i \<and> current s = Some c \<and> idle s = Some i \<and>
       sched_inv s ((\<lambda>_. Unused)(c := Running, i := Parked)) \<and> pmm_owns (pmm s) (insert (p, 2) A) \<and>
       stack_phys (task_pool s ! i) = pfn_to_phys p \<and> stack_canary_ok s i \<and> entry (task_pool s ! i) = fn)"
proof -
  let ?U = "\<lambda>_. Unused"
  define s0 where "s0 = sched_boot m h"
  let ?s1 = "s0\<lparr>prio_queues := replicate TASK_PRIO_LEVELS [], prio_bitmap := 0\<rparr>"
  have s1: "?s1 = s0" by (simp add: s0_def sched_boot_def TASK_PRIO_LEVELS_def)
  have q0: "queues_ok s0 ?U" unfolding s0_def by (rule boot_queues)
  have nz: "tcb_bitmap s0 \<noteq> 0" by (simp add: s0_def sched_boot_def)
  then obtain s2 c where a: "alloc_tcb s0 = (s2, Some c)" using tcb_find [of s0] by auto
  note Q = queues_alloc [OF q0 a]
  have e2: "pmm s2 = m" "prio_queues s2 = replicate 64 []" "sched_lock s2 = SPINLOCK_INIT"
    "tcb_bitmap s2 = tcb_bitmap s0 AND NOT (pow2 c)"
    using a by (auto simp: alloc_tcb_def s0_def sched_boot_def split: if_splits option.splits)
  let ?f = "\<lambda>k. k\<lparr>tid := next_tid s2, state := TASK_RUNNING, stack_phys := 0,
      priority := TASK_PRIO_HIGH, entry := 0, ticks_used := 0, finished := False,
      deadline := 0, watchdog_ticks := 0, qos := QOS_DEFAULT, t_name := take 16 (nm @ replicate 16 0)\<rparr>"
  define s4 where "s4 = (upd_task s2 c ?f)\<lparr>next_tid := next_tid s2 + 1, current := Some c\<rparr>"
  have len: "c < length (task_pool s2)" using Q(3,4) queues_okD(2) [OF q0] by simp
  have "queues_ok (upd_task s2 c ?f) (?U(c := Limbo))"
    by (rule queues_upd_limbo [OF Q(1)]) (simp_all add: TASK_PRIO_HIGH_def)
  then have "queues_ok (upd_task s2 c ?f) ((?U(c := Limbo))(c := Running))"
    by (rule queues_relabel) (use len in \<open>auto simp: task_upd_task\<close>)
  then have q4: "queues_ok s4 (?U(c := Running))"
    unfolding fun_upd_upd by (rule queues_ok_cong) (simp_all add: s4_def)
  have lf4: "lock_free s4" using e2(3) by (simp add: s4_def lock_free_def spin_is_locked_def SPINLOCK_INIT_def)
  have own4: "pmm_owns (pmm s4) A" using own e2(1) by (simp add: s4_def)
  have "\<exists>t < 64. t \<noteq> c" by (rule exI [of _ "if c = 0 then 1 else 0"]) auto
  then obtain t where t: "t < 64" "t \<noteq> c" by blast
  have "bit (tcb_bitmap s4) t"
    using t by (simp add: s4_def e2(4) s0_def sched_boot_def bit_and_iff bit_not_iff bit_pow2)
  then have nz4: "tcb_bitmap s4 \<noteq> 0" by auto
  have unf: "sched_init s0 nm inm fn = bnd (task_create s4 inm fn) (\<lambda>(s5, idle_tid).
               kassert (0 \<le> idle_tid)
                 (bnd (lock_sched s5) (\<lambda>s6.
                   case List.find (\<lambda>q. tid (task_pool s6 ! q) = word_of_int idle_tid)
                          (prio_queues s6 ! TASK_PRIO_NORMAL) of
                     None \<Rightarrow> Inl KAssert
                   | Some q \<Rightarrow>
                       let rest = remove1 q (prio_queues s6 ! TASK_PRIO_NORMAL);
                           s7 = s6\<lparr>idle := Some q, prio_queues := (prio_queues s6)[TASK_PRIO_NORMAL := rest],
                                   prio_bitmap := (if rest = [] then prio_bitmap s6 AND NOT (pow2 TASK_PRIO_NORMAL)
                                                   else prio_bitmap s6)\<rparr>
                       in Inr (unlock_sched (upd_task s7 q (\<lambda>k. k\<lparr>state := TASK_READY\<rparr>))))))"
    unfolding sched_init_def Let_def s1 a s4_def by simp
  from task_create_queues [OF q4 lf4 own4 nz4, of inm fn] show ?thesis
  proof (elim disjE exE conjE, goal_cases)
    case (1 s5)
    then show ?case using unf unfolding s0_def by (simp add: ENOMEM_def)
  next
    case (2 s5 i p)
    note g = 2
    from g have F: "task_create s4 inm fn = Inr (s5, sint (next_tid s4))" "(?U(c := Running)) i = Unused"
      "queues_ok s5 (?U(c := Running, i := Ready TASK_PRIO_NORMAL))" "lock_free s5" "current s5 = current s4"
      "prio_queues s5 = (prio_queues s4)[TASK_PRIO_NORMAL := prio_queues s4 ! TASK_PRIO_NORMAL @ [i]]"
      "pmm_owns (pmm s5) (insert (p, 2) A)" "stack_phys (task_pool s5 ! i) = pfn_to_phys p"
      "stack_canary_ok s5 i" "tid (task_pool s5 ! i) = next_tid s4" "entry (task_pool s5 ! i) = fn"
      by (simp_all add: created_def new_task_def)
    have tid: "next_tid s4 = 1" using a by (auto simp: s4_def s0_def sched_boot_def alloc_tcb_def split: if_splits option.splits)
    have ic: "i \<noteq> c" using F(2) by auto
    have pq: "prio_queues s5 ! TASK_PRIO_NORMAL = [i]"
      using F(6) e2(2) by (simp add: s4_def TASK_PRIO_NORMAL_def)
    obtain l where l: "lock_sched s5 = Inr (s5\<lparr>sched_lock := l\<rparr>)" "\<not> spin_is_locked (spin_unlock l)"
      using lock_sel [OF F(4)] by blast
    have c5: "current s5 = Some c" using F(5) by (simp add: s4_def)
    let ?s7 = "s5\<lparr>sched_lock := l, idle := Some i, prio_queues := (prio_queues s5)[TASK_PRIO_NORMAL := []],
        prio_bitmap := prio_bitmap s5 AND NOT (pow2 TASK_PRIO_NORMAL)\<rparr>"
    let ?s8 = "unlock_sched (upd_task ?s7 i (\<lambda>k. k\<lparr>state := TASK_READY\<rparr>))"
    note K = park_idle [OF F(3) ic c5 pq l(2)]
    have run: "sched_init s0 nm inm fn = Inr ?s8" using unf F(1) l(1) pq F(10) by (simp add: tid)
    have "stack_canary_ok ?s8 i" using F(9) K(5,6) by (subst canary_cong [where s = s5]) simp_all
    then show ?case using run K ic F(7-11) unfolding s0_def
      by (intro disjI2 exI [of _ ?s8] exI [of _ c] exI [of _ i] exI [of _ p]) auto
  qed
qed

subsection \<open>A small running system\<close>

text \<open>Task 0 runs, task 1 is the parked idle task, task 2 is ready, task 3 waits on the wait
  queue 0 and task 4 is dead.\<close>

definition sched_demo :: "pmm_state \<Rightarrow> u64 \<Rightarrow> sched" where
  "sched_demo m a = (sched_boot m 0)\<lparr>
     task_pool := [empty_task\<lparr>state := TASK_RUNNING, priority := 40\<rparr>, empty_task, empty_task\<lparr>priority := 32\<rparr>,
       empty_task\<lparr>state := TASK_SLEEPING, priority := 16\<rparr>, empty_task\<lparr>state := TASK_DEAD, stack_phys := a\<rparr>]
       @ replicate 59 empty_task,
     tcb_bitmap := NOT 31, current := Some 0, idle := Some 1, prio_queues := (replicate 64 [])[32 := [2]],
     prio_bitmap := pow2 32, waitqs := [[3]], dead_queue := [4]\<rparr>"

definition demo_places :: "nat \<Rightarrow> place" where
  "demo_places t = (if t = 0 then Running else if t = 1 then Parked else if t = 2 then Ready 32
     else if t = 3 then Waiting 0 else if t = 4 then Dead else Unused)"

lemma less5: "t < (5 :: nat) \<longleftrightarrow> t = 0 \<or> t = 1 \<or> t = 2 \<or> t = 3 \<or> t = 4"
  by auto

lemma bit_not_31: "bit (- 32 :: u64) t \<longleftrightarrow> t < 64 \<and> 5 \<le> t"
proof -
  have "(- 32 :: u64) = NOT (mask 5)" by (simp add: mask_eq_exp_minus_1)
  then have "bit (- 32 :: u64) t \<longleftrightarrow> bit (NOT (mask 5) :: u64) t" by simp
  also have "\<dots> \<longleftrightarrow> t < 64 \<and> 5 \<le> t" unfolding bit_not_iff bit_mask_iff by auto
  finally show ?thesis .
qed

lemma demo_nth:
  "task_pool (sched_demo m a) ! t =
    (if t = 0 then empty_task\<lparr>state := TASK_RUNNING, priority := 40\<rparr> else if t = 2 then empty_task\<lparr>priority := 32\<rparr>
     else if t = 3 then empty_task\<lparr>state := TASK_SLEEPING, priority := 16\<rparr>
     else if t = 4 then empty_task\<lparr>state := TASK_DEAD, stack_phys := a\<rparr> else empty_task)" if "t < 64"
proof (cases "t < 5")
  case True
  then show ?thesis unfolding less5 by (auto simp: sched_demo_def)
next
  case False
  then obtain k where k: "t = k + 5" using le_Suc_ex [of 5 t] by (metis add.commute not_less)
  then have "task_pool (sched_demo m a) ! t = replicate 59 empty_task ! k"
    unfolding sched_demo_def by (simp add: numeral_eq_Suc)
  then show ?thesis using k that by auto
qed

lemma demo_queues: "queues_ok (sched_demo m a) demo_places"
proof (rule queues_okI)
  fix p :: nat assume p: "p < 64"
  show "queue_ok (prio_queues (sched_demo m a) ! p) demo_places (Ready p)"
    "bit (prio_bitmap (sched_demo m a)) p \<longleftrightarrow> prio_queues (sched_demo m a) ! p \<noteq> []"
    using p by (auto simp: sched_demo_def queue_ok_def demo_places_def nth_upd bit_pow2)
next
  fix t
  show "demo_places t = Unused \<longleftrightarrow> 64 \<le> t \<or> bit (tcb_bitmap (sched_demo m a)) t"
  proof -
    have "tcb_bitmap (sched_demo m a) = - 32" by (simp add: sched_demo_def)
    then have b: "bit (tcb_bitmap (sched_demo m a)) t \<longleftrightarrow> t < 64 \<and> 5 \<le> t" using bit_not_31 by simp
    show ?thesis unfolding b by (auto simp: demo_places_def)
  qed
next
  fix t :: nat assume t: "t < 64"
  show "priority (task_pool (sched_demo m a) ! t) < 64"
    "state_at (demo_places t) (state (task_pool (sched_demo m a) ! t))"
    using t by (auto simp: demo_nth demo_places_def empty_task_def)
qed (auto simp: sched_demo_def sched_boot_def queue_ok_def demo_places_def split: if_splits)

lemma demo_inv: "sched_inv (sched_demo m a) demo_places"
proof -
  have "sched_pre (sched_demo m a) demo_places 0"
    unfolding sched_pre_def using demo_queues [of m a]
    by (auto simp: lock_free_def spin_is_locked_def SPINLOCK_INIT_def sched_demo_def sched_boot_def demo_places_def
        split: if_splits)
  then show ?thesis unfolding sched_inv_def by (intro exI [of _ 0]) (simp add: demo_places_def)
qed

lemma demo_facts:
  "current (sched_demo m a) = Some 0" "idle (sched_demo m a) = Some 1" "stack_canary_ok (sched_demo m a) 0"
  "join_wq (task_pool (sched_demo m a) ! 0) = None" "waitqs (sched_demo m a) = [[3]]" "pit_ticks (sched_demo m a) = 0"
  "pmm (sched_demo m a) = m" "dead_queue (sched_demo m a) = [4]" "tcb_bitmap (sched_demo m a) = NOT 31"
  by (simp_all add: sched_demo_def sched_boot_def stack_canary_ok_def empty_task_def)

subsection \<open>Properties\<close>

text \<open>Boot. Starting from the static initial values and a page allocator of its invariant,
  \<open>sched_init\<close> either stops at an assertion (no memory for the idle task's stack) or ends
  in a state of the scheduler's invariant: the init task is running, the idle task has a stack of
  its own and is parked outside the ready queues, and every other slot is free.\<close>

theorem sched_init_correct:
  assumes "pmm_owns m A"
  shows "sched_init (sched_boot m h) nm inm fn = Inl KAssert \<or>
    (\<exists>s c i p. sched_init (sched_boot m h) nm inm fn = Inr s \<and> c \<noteq> i \<and> current s = Some c \<and> idle s = Some i \<and>
       sched_inv s ((\<lambda>_. Unused)(c := Running, i := Parked)) \<and> pmm_owns (pmm s) (insert (p, 2) A) \<and>
       stack_phys (task_pool s ! i) = pfn_to_phys p \<and> stack_canary_ok s i \<and> entry (task_pool s ! i) = fn)"
  by (rule sched_init_steps [OF assms])

theorem sched_init_correct_witness:
  "\<exists>m. pmm_init demo_map = Inr m \<and>
     (sched_init (sched_boot m 0) [105] [100] 7 = Inl KAssert \<or>
      (\<exists>s c i p. sched_init (sched_boot m 0) [105] [100] 7 = Inr s \<and> c \<noteq> i \<and> current s = Some c \<and> idle s = Some i \<and>
       sched_inv s ((\<lambda>_. Unused)(c := Running, i := Parked)) \<and> pmm_owns (pmm s) {(p, 2)} \<and>
       stack_phys (task_pool s ! i) = pfn_to_phys p \<and> stack_canary_ok s i \<and> entry (task_pool s ! i) = 7))"
proof -
  obtain m F where m: "pmm_init demo_map = Inr m" "pmm_inv m F {} ({2..<9} \<union> {10..<11})" using demo_boot by blast
  then have "pmm_owns m {}" unfolding pmm_owns_def by (intro exI [of _ F] exI [of _ "{2..<9} \<union> {10..<11}"]) simp
  from sched_init_correct [OF this, of 0 "[105]" "[100]" 7] m(1) show ?thesis by blast
qed

text \<open>C3: the scheduling decision. In every state of the invariant in which the current task's stack canary is
  intact \<open>schedule\<close> returns (with a broken canary it stops at an assertion). Every sleeper whose time has come
  is first put behind the tasks of its ready queue, or into the deadline queue. Then the head of the deadline
  queue runs, that is the earliest deadline and the first come among equal ones; when that queue is empty, the head
  of the ready queue of the best non-empty priority; when there is none, the idle task. The chosen task leaves
  its queue, the preempted task goes to the end of its own ready queue or to its place by deadline, and nothing
  else in the queues changes its order; every task is again in exactly one place.\<close>

theorem schedule_correct:
  assumes "sched_inv s pl" "current s = Some c" "stack_canary_ok s c"
  shows "\<exists>s' n. schedule s = Inr s' \<and> current s' = Some n \<and> next_up s n \<and> queues_after s c n s' \<and>
    best_choice s (waked s pl) n \<and> sched_inv s' ((waked s pl)(c := dest s c, n := Running)) \<and> kept s s'"
proof -
  note V = sched_invD [OF assms(1,2)]
  obtain i where i: "idle s = Some i" using V(1) by (auto simp: sched_pre_def)
  obtain s' n where r: "schedule s = Inr s'" "current s' = Some n" "best_choice s (waked s pl) n"
    "sched_inv s' ((waked s pl)(c := dest s c, n := Running))" "kept s s'"
    using schedule_spec [OF V(1) assms(3)] V(4) by auto
  from schedule_queues [OF V(2,3) assms(2) i assms(3) V(4) r(1,2)] r show ?thesis by blast
qed

theorem schedule_correct_witness:
  "\<forall>m. \<exists>s'. schedule (sched_demo m 0) = Inr s' \<and> current s' = Some 2 \<and> prio_queues s' ! 32 = [] \<and> prio_queues s' ! 40 = [0] \<and>
     sched_inv s' (demo_places(0 := Ready 40, 2 := Running))"
proof
  fix m
  let ?s = "sched_demo m 0"
  have w: "waked ?s demo_places = demo_places" by (auto simp: waked_def demo_places_def fun_eq_iff)
  have d: "dest ?s 0 = Ready 40" by (simp add: dest_def demo_nth empty_task_def)
  have e1: "edf_queue ?s = []" by (simp add: edf_queue_def sched_demo_def sched_boot_def)
  have e2: "ready_queue ?s p = (if p = 32 then [2] else [])" if "p < 64" for p
    using that by (simp add: ready_queue_def sched_demo_def sched_boot_def nth_upd)
  obtain s' n where s': "schedule ?s = Inr s'" "current s' = Some n" "next_up ?s n" "queues_after ?s 0 n s'"
    "sched_inv s' (demo_places(0 := Ready 40, n := Running))"
    using schedule_correct [OF demo_inv demo_facts(1,3), of m 0] unfolding w d by blast
  have "head_of [] (\<lambda>p. if p = 32 then [2] else []) (idle ?s) n"
    using s'(3) head_of_cong [of "ready_queue ?s" "\<lambda>p. if p = 32 then [2] else []", OF e2] unfolding next_up_def e1 by blast
  then have "n = 2" unfolding head_of_def by (auto split: if_splits)
  then show "\<exists>s'. schedule ?s = Inr s' \<and> current s' = Some 2 \<and> prio_queues s' ! 32 = [] \<and> prio_queues s' ! 40 = [0] \<and>
      sched_inv s' (demo_places(0 := Ready 40, 2 := Running))"
    using s' e2 d by (auto simp: queues_after_def)
qed

text \<open>Sleeping. A task other than the idle task that calls \<open>task_sleep\<close> gives up the
  processor to another task and is left in the sleep queue with a wake-up time of
  \<open>max 1 (ms div 10)\<close> ticks from now, provided that time does not wrap around.\<close>

theorem task_sleep_correct:
  assumes "sched_inv s pl" "current s = Some c" "idle s \<noteq> Some c" "stack_canary_ok s c"
    "unat (pit_ticks s) + unat (max 1 (ms div 10)) < 2 ^ 64"
  shows "\<exists>s' pl' n. task_sleep s ms = Inr s' \<and> current s' = Some n \<and> n \<noteq> c \<and> sched_inv s' pl' \<and>
    pl' c = Asleep \<and> c \<in> set (sleep_queue s') \<and> sleep_until (task_pool s' ! c) = pit_ticks s + max 1 (ms div 10)"
proof -
  obtain s' pl' n where s': "task_sleep s ms = Inr s'" "current s' = Some n" "n \<noteq> c" "sched_inv s' pl'"
    "pl' c = Asleep" "sleep_until (task_pool s' ! c) = pit_ticks s + max 1 (ms div 10)"
    using task_sleep_spec [OF assms] by blast
  have "c \<in> set (sleep_queue s')"
    using queues_okD(6) [OF sched_invD(2) [OF s'(4,2)]] s'(5) by (auto simp: queue_ok_def)
  then show ?thesis using s' by blast
qed

theorem task_sleep_correct_witness:
  "\<forall>m. \<exists>s' pl' n. task_sleep (sched_demo m 0) 250 = Inr s' \<and> current s' = Some n \<and> n \<noteq> 0 \<and> sched_inv s' pl' \<and>
    pl' 0 = Asleep \<and> 0 \<in> set (sleep_queue s') \<and> sleep_until (task_pool s' ! 0) = 25"
proof
  fix m
  show "\<exists>s' pl' n. task_sleep (sched_demo m 0) 250 = Inr s' \<and> current s' = Some n \<and> n \<noteq> 0 \<and> sched_inv s' pl' \<and>
    pl' 0 = Asleep \<and> 0 \<in> set (sleep_queue s') \<and> sleep_until (task_pool s' ! 0) = 25"
    using task_sleep_correct [OF demo_inv demo_facts(1) _ demo_facts(3), of m 0 250] by (simp add: demo_facts)
qed

text \<open>Waiting. \<open>wq_wait\<close> appends the calling task to the wait queue, in the state
  sleeping, leaves the other wait queues alone and runs another task.\<close>

theorem wq_wait_correct:
  assumes "sched_inv s pl" "current s = Some c" "idle s \<noteq> Some c" "stack_canary_ok s c" "w < length (waitqs s)"
  shows "\<exists>s' pl' n. wq_wait s w = Inr s' \<and> current s' = Some n \<and> n \<noteq> c \<and> sched_inv s' pl' \<and> pl' c = Waiting w \<and>
    waitqs s' = (waitqs s)[w := waitqs s ! w @ [c]]"
  using wq_wait_spec [OF assms] by blast

theorem wq_wait_correct_witness:
  "\<forall>m. \<exists>s' pl' n. wq_wait (sched_demo m 0) 0 = Inr s' \<and> current s' = Some n \<and> n \<noteq> 0 \<and> sched_inv s' pl' \<and>
     pl' 0 = Waiting 0 \<and> waitqs s' = [[3, 0]]"
  using wq_wait_correct [OF demo_inv demo_facts(1) _ demo_facts(3), of _ 0] by (simp add: demo_facts)

text \<open>Waking. \<open>wq_wake_all\<close> empties the wait queue and returns how many tasks it
  held; each of them is put in the ready queue of its deadline or priority and nothing else moves.\<close>

theorem wq_wake_all_correct:
  assumes "sched_inv s pl" "w < length (waitqs s)"
  shows "\<exists>s'. wq_wake_all s w = Inr (s', int (length (waitqs s ! w))) \<and> waitqs s' = (waitqs s)[w := []] \<and>
    sched_inv s' (\<lambda>t. if pl t = Waiting w then dest s t else pl t) \<and> current s' = current s"
  by (rule wake_all_spec [OF assms])

theorem wq_wake_all_correct_witness:
  "\<forall>m. \<exists>s'. wq_wake_all (sched_demo m 0) 0 = Inr (s', 1) \<and> waitqs s' = [[]] \<and>
     sched_inv s' (\<lambda>t. if demo_places t = Waiting 0 then dest (sched_demo m 0) t else demo_places t) \<and> current s' = Some 0"
  using wq_wake_all_correct [OF demo_inv, of 0] by (simp add: demo_facts)

text \<open>C6: creating a task, with a page allocator of its invariant that does not hand out frame 0 (whose address
  the code reads as failure). \<open>task_create\<close> succeeds exactly when there is a free slot and an aligned run of
  four free page frames. Then the new task has a slot that was free, the next task id (returned as a
  signed number), the given name, cut to 15 characters, and entry point, a stack of four frames that were
  free and an intact canary, and it is put behind the ready tasks of normal priority; no other task, queue
  or frame changes. Otherwise \<open>task_create\<close> returns \<open>-ENOMEM\<close> and nothing has changed but the contents of
  an unused slot; in particular the slot and all frames are still free.\<close>

theorem task_create_correct:
  assumes "sched_inv s pl" "pmm_inv (pmm s) F A M" "0 \<notin> M"
  shows "if (\<exists>t < 64. pl t = Unused) \<and> (\<exists>q. 4 dvd q \<and> bset (q, 2) \<subseteq> cover F)
    then \<exists>s' t p F'. task_create s nm fn = Inr (s', sint (next_tid s)) \<and> pl t = Unused \<and>
       sched_inv s' (pl(t := Ready TASK_PRIO_NORMAL)) \<and> created s t s' \<and>
       bset (p, 2) \<subseteq> cover F \<and> pmm_inv (pmm s') F' (insert (p, 2) A) M \<and> cover F' = cover F - bset (p, 2) \<and>
       stack_phys (task_pool s' ! t) = pfn_to_phys p \<and> stack_canary_ok s' t \<and> tid (task_pool s' ! t) = next_tid s \<and>
       entry (task_pool s' ! t) = fn \<and> priority (task_pool s' ! t) = TASK_PRIO_NORMAL \<and> deadline (task_pool s' ! t) = 0 \<and>
       \<not> finished (task_pool s' ! t) \<and> t_name (task_pool s' ! t) = take 15 (nm @ replicate 15 0) @ [0]
    else \<exists>s'. task_create s nm fn = Inr (s', - ENOMEM) \<and> sched_inv s' pl \<and> untouched s pl s'"
proof -
  obtain c where c: "current s = Some c" using assms(1) by (auto simp: sched_inv_def sched_pre_def)
  note V = sched_invD [OF assms(1) c] and CI = create_inv [OF assms(1) c]
  have slot: "(\<exists>t < 64. pl t = Unused) \<longleftrightarrow> tcb_bitmap s \<noteq> 0"
    using queues_okD(9) [OF V(2)] by (auto simp: bit_eq_iff dest: bits_bounded)
  have two: "(2 :: nat) \<le> PMM_MAX_ORDER" by (simp add: PMM_NUM_ORDERS_def)
  show ?thesis
  proof (cases "tcb_bitmap s = 0")
    case True
    then show ?thesis using task_create_full [OF V(2,3) True, of nm fn] CI(1) slot by auto
  next
    case slots: False
    show ?thesis
    proof (cases "\<exists>q. 4 dvd q \<and> bset (q, 2) \<subseteq> cover F")
      case True
      then obtain q where "2 ^ 2 dvd q" "bset (q, 2) \<subseteq> cover F" by auto
      from pmm_alloc_success [OF assms(2) two this] obtain m p F' where p: "pmm_alloc_pages (pmm s) 2 = Inr (m, pfn_to_phys p)"
        "bset (p, 2) \<subseteq> cover F" "pmm_inv m F' (insert (p, 2) A) M" "cover F' = cover F - bset (p, 2)" by blast
      have "pmm_owns m (insert (p, 2) A)" unfolding pmm_owns_def using p(3) assms(3) by blast
      then have "pfn_to_phys p \<noteq> 0" using pmm_owned_nonzero [of m "insert (p, 2) A" p 2] by blast
      from task_create_done [OF V(2,3) slots p(1) this, of nm fn] obtain s' t where
        n: "task_create s nm fn = Inr (s', sint (next_tid s))" "pl t = Unused" "queues_ok s' (pl(t := Ready TASK_PRIO_NORMAL))"
          "lock_free s'" "pmm s' = m" "task_pool s' ! t = new_task s (pfn_to_phys p) nm fn empty_task" "stack_canary_ok s' t" "created s t s'"
        by blast
      have k: "stack_phys (task_pool s' ! t) = pfn_to_phys p" "tid (task_pool s' ! t) = next_tid s" "entry (task_pool s' ! t) = fn"
        "priority (task_pool s' ! t) = TASK_PRIO_NORMAL" "deadline (task_pool s' ! t) = 0" "\<not> finished (task_pool s' ! t)"
        "t_name (task_pool s' ! t) = take 15 (nm @ replicate 15 0) @ [0]" unfolding n(6) by (simp_all add: new_task_def)
      have c: "(\<exists>t < 64. pl t = Unused) \<and> (\<exists>q. 4 dvd q \<and> bset (q, 2) \<subseteq> cover F)" using True slots slot by blast
      show ?thesis unfolding if_P [OF c]
        using n(1,2,7,8) CI(2) [OF n(2,3,4,8)] k p(2-4) unfolding n(5) [symmetric] by blast
    next
      case False
      then have "pmm_alloc_pages (pmm s) 2 = Inr (pmm s, 0)" by (intro pmm_alloc_exhausted [OF assms(2) two]) simp
      from task_create_nomem [OF V(2,3) slots this, of nm fn] show ?thesis using CI(1) False by auto
    qed
  qed
qed

theorem task_create_correct_witness:
  "\<exists>m s' t p. pmm_init demo_map = Inr m \<and> task_create (sched_demo m 0) [97] 9 = Inr (s', 0) \<and>
     sched_inv s' (demo_places(t := Ready 32)) \<and> prio_queues s' ! 32 = [2, t] \<and>
     stack_phys (task_pool s' ! t) = pfn_to_phys p \<and> bset (p, 2) \<subseteq> {2..<9} \<union> {10..<11} \<and> entry (task_pool s' ! t) = 9"
proof -
  obtain m F where m: "pmm_init demo_map = Inr m" "pmm_inv m F {} ({2..<9} \<union> {10..<11})" using demo_boot by blast
  have F: "cover F = {2..<9} \<union> {10..<11}" using pmm_inv_free_wf(4) [OF m(2)] by simp
  have "bset (4, 2) \<subseteq> cover F" unfolding F by (auto simp: bset_def)
  then have q: "\<exists>q. 4 dvd q \<and> bset (q, 2) \<subseteq> cover F" by (intro exI [of _ 4]) simp
  have u: "\<exists>t < 64. demo_places t = Unused" by (intro exI [of _ 5]) (simp add: demo_places_def)
  have n: "next_tid (sched_demo m 0) = 0" "prio_queues (sched_demo m 0) = (replicate 64 [])[32 := [2]]"
    by (simp_all add: sched_demo_def sched_boot_def)
  have P: "pmm_inv (pmm (sched_demo m 0)) F {} ({2..<9} \<union> {10..<11})" using m(2) by (simp add: demo_facts)
  have c: "(\<exists>t < 64. demo_places t = Unused) \<and> (\<exists>q. 4 dvd q \<and> bset (q, 2) \<subseteq> cover F)" using q u by blast
  from task_create_correct [OF demo_inv P, of "[97]" 9, unfolded if_P [OF c]]
  obtain s' t p where r: "task_create (sched_demo m 0) [97] 9 = Inr (s', sint (next_tid (sched_demo m 0)))"
    "sched_inv s' (demo_places(t := Ready TASK_PRIO_NORMAL))" "created (sched_demo m 0) t s'" "bset (p, 2) \<subseteq> cover F"
    "stack_phys (task_pool s' ! t) = pfn_to_phys p" "entry (task_pool s' ! t) = 9" by simp blast
  have "prio_queues s' ! 32 = [2, t]" using r(3) n(2) by (simp add: created_def TASK_PRIO_NORMAL_def)
  then show ?thesis using r m(1) unfolding F n(1) TASK_PRIO_NORMAL_def by simp blast
qed

text \<open>C7: leaving. A task that no one has tried to join leaves through \<open>task_exit\<close>: it is
  marked finished and put in the dead queue, and another task runs.\<close>

theorem task_exit_correct:
  assumes "sched_inv s pl" "current s = Some c" "idle s \<noteq> Some c" "stack_canary_ok s c" "join_wq (task_pool s ! c) = None"
  shows "\<exists>s' pl' n. task_exit s = Inr s' \<and> current s' = Some n \<and> n \<noteq> c \<and> sched_inv s' pl' \<and> pl' c = Dead \<and>
    dead_queue s' = dead_queue s @ [c] \<and> finished (task_pool s' ! c)"
  by (rule task_exit_spec [OF assms])

theorem task_exit_correct_witness:
  "\<forall>m. \<exists>s' pl' n. task_exit (sched_demo m 0) = Inr s' \<and> current s' = Some n \<and> n \<noteq> 0 \<and> sched_inv s' pl' \<and> pl' 0 = Dead \<and>
    dead_queue s' = [4, 0] \<and> finished (task_pool s' ! 0)"
  using task_exit_correct [OF demo_inv demo_facts(1) _ demo_facts(3,4)] by (simp add: demo_facts)

text \<open>A task that is being joined cannot leave. When a task waits in the join queue,
  \<open>task_exit\<close> takes the scheduler's lock and then, through \<open>wq_wake_all\<close> and
  \<open>sched_add_ready\<close>, waits for the same lock forever.\<close>

theorem task_exit_deadlock:
  assumes "sched_inv s pl" "current s = Some c" "join_wq (task_pool s ! c) = Some w" "waitqs s ! w \<noteq> []"
  shows "task_exit s = Inl Deadlock"
  using exit_with_joiners [OF assms(1-3)] assms(4) by (cases "waitqs s ! w") auto

theorem task_exit_deadlock_witness:
  "\<forall>m. task_exit (upd_task (sched_demo m 0) 0 (\<lambda>k. k\<lparr>join_wq := Some 0\<rparr>)) = Inl Deadlock"
proof
  fix m
  let ?s = "upd_task (sched_demo m 0) 0 (\<lambda>k. k\<lparr>join_wq := Some 0\<rparr>)"
  have len: "0 < length (task_pool (sched_demo m 0))" by (simp add: sched_demo_def)
  have "sched_inv ?s demo_places"
    by (rule sched_inv_running [OF demo_inv demo_facts(1)]) (simp_all add: demo_nth empty_task_def)
  from task_exit_deadlock [OF this, of 0 0] show "task_exit ?s = Inl Deadlock"
    using len by (simp add: demo_facts task_upd_task)
qed

text \<open>C8: reaping. When every dead task owns its stack, \<open>sched_reap_dead\<close> empties the
  dead queue, frees the slots of exactly the dead tasks and gives exactly their stacks back to the
  page allocator.\<close>

theorem sched_reap_dead_correct:
  assumes "sched_inv s pl" "pmm_owns (pmm s) A" "dead_stacks s A"
  shows "\<exists>s' f. sched_reap_dead s = Inr s' \<and> sched_inv s' (\<lambda>t. if pl t = Dead then Unused else pl t) \<and>
    dead_queue s' = [] \<and> (\<forall>t. pl t = Dead \<longrightarrow> stack_phys (task_pool s ! t) = pfn_to_phys (f t) \<and> (f t, 2) \<in> A) \<and>
    pmm_owns (pmm s') (A - (\<lambda>t. (f t, 2)) ` {t. pl t = Dead})"
proof -
  obtain c where c: "current s = Some c" using assms(1) by (auto simp: sched_inv_def sched_pre_def)
  have d: "set (dead_queue s) = {t. pl t = Dead}"
    using queues_okD(7) [OF sched_invD(2) [OF assms(1) c]] by (simp add: queue_ok_def)
  show ?thesis using reap_all_spec [OF assms refl] unfolding sched_reap_dead_def d by simp
qed

theorem sched_reap_dead_correct_witness:
  "\<exists>m p s'. pmm_owns m {(p, 2)} \<and> sched_reap_dead (sched_demo m (pfn_to_phys p)) = Inr s' \<and>
     sched_inv s' (\<lambda>t. if demo_places t = Dead then Unused else demo_places t) \<and> dead_queue s' = []"
proof -
  obtain m F p where m: "pmm_inv m F {(p, 2)} ({2..<9} \<union> {10..<11})" using demo_alloc by blast
  then have o: "pmm_owns m {(p, 2)}"
    unfolding pmm_owns_def by (intro exI [of _ F] exI [of _ "{2..<9} \<union> {10..<11}"]) simp
  let ?s = "sched_demo m (pfn_to_phys p)"
  have k: "task_pool ?s ! 4 = empty_task\<lparr>state := TASK_DEAD, stack_phys := pfn_to_phys p\<rparr>" by (simp add: demo_nth)
  have "pfn_to_phys p \<noteq> 0" by (rule pmm_owned_nonzero [OF o]) simp
  then have ds: "dead_stacks ?s {(p, 2)}" unfolding dead_stacks_def demo_facts(8) using k by auto
  have "pmm_owns (pmm ?s) {(p, 2)}" using o by (simp add: demo_facts)
  from sched_reap_dead_correct [OF demo_inv this ds] o show ?thesis by blast
qed

end
