(* ===== verification/Sync.thy ===== *)
theory Sync
  imports Sched_Spec
begin

text \<open>
  The blocking primitives built on the scheduler: the counting semaphore of
  \<open>kernel/semaphore.c\<close>, the mutex with priority inheritance of \<open>kernel/mutex.c\<close>, the
  adaptive mutex of \<open>kernel/adaptive_mutex.h\<close> and the event of \<open>kernel/kevent.h\<close>.

  The code between taking and releasing a primitive's own spinlock is one step. A function that
  loops until it succeeds is modelled by one pass of its loop: it either returns
  \<open>Acquired\<close>, or it puts the caller on the wait queue, runs another task and returns
  \<open>Blocked\<close>; the caller makes the next pass when it runs again.

  Between queueing the caller and calling \<open>schedule\<close> the code has released the spinlock and restored the
  interrupts. For the semaphore the two halves of a pass are separate definitions, \<open>sem_wait_locked\<close> and
  \<open>schedule\<close>, and \<open>sem_runs\<close> lets interrupts reschedule and post in between. The passes of the mutexes,
  the event and \<open>wq_wait\<close> are modelled as uninterrupted, the two halves as one step. The count of a semaphore is a C
  \<open>int\<close>: counting past \<open>INT_MAX\<close> is undefined behaviour and ends in \<open>Fault\<close>.
\<close>

datatype outcome = Acquired | Blocked

subsection \<open>The contract of the wait queues\<close>

text \<open>What the primitives rely on: blocking appends the caller to a queue and hands the processor
  to another task, waking removes the task that has waited longest; neither touches another queue.\<close>

locale wait_queues =
  fixes inv :: "'s \<Rightarrow> bool"
    and queues :: "'s \<Rightarrow> nat list list"
    and may_block :: "'s \<Rightarrow> nat \<Rightarrow> bool"
    and block :: "'s \<Rightarrow> nat \<Rightarrow> 's res"
    and wake :: "'s \<Rightarrow> nat \<Rightarrow> ('s \<times> bool) res"
  assumes block_law: "inv s \<Longrightarrow> may_block s c \<Longrightarrow> w < length (queues s) \<Longrightarrow>
      \<exists>s'. block s w = Inr s' \<and> inv s' \<and> queues s' = (queues s)[w := queues s ! w @ [c]]"
    and wake_law: "inv s \<Longrightarrow> w < length (queues s) \<Longrightarrow>
      \<exists>s'. wake s w = Inr (s', queues s ! w \<noteq> []) \<and> inv s' \<and> queues s' = (queues s)[w := tl (queues s ! w)]"
begin

primrec wakes :: "'s \<Rightarrow> nat \<Rightarrow> nat \<Rightarrow> 's res" where
  "wakes s w 0 = Inr s"
| "wakes s w (Suc n) = bnd (wake s w) (\<lambda>(s', _). wakes s' w n)"

lemma wakes_fifo:
  assumes "inv s" "w < length (queues s)"
  shows "\<exists>s'. wakes s w n = Inr s' \<and> inv s' \<and> queues s' = (queues s)[w := drop n (queues s ! w)]"
  using assms
proof (induction n arbitrary: s)
  case (Suc n)
  obtain s1 where s1: "wake s w = Inr (s1, queues s ! w \<noteq> [])" "inv s1" "queues s1 = (queues s)[w := tl (queues s ! w)]"
    using wake_law [OF Suc.prems] by blast
  have "w < length (queues s1)" using s1(3) Suc.prems(2) by simp
  from Suc.IH [OF s1(2) this] show ?case using s1 Suc.prems(2) by (simp add: drop_Suc)
qed simp

text \<open>A task that blocks behind \<open>k\<close> others is still waiting after \<open>k\<close> wake-ups and is gone from
  the queue after one more.\<close>

lemma block_then_wake:
  assumes "inv s" "may_block s c" "w < length (queues s)"
  shows "\<exists>s1 s2 s3. block s w = Inr s1 \<and> wakes s1 w (length (queues s ! w)) = Inr s2 \<and> queues s2 ! w = [c] \<and>
    wake s2 w = Inr (s3, True) \<and> queues s3 ! w = []"
proof -
  obtain s1 where s1: "block s w = Inr s1" "inv s1" "queues s1 = (queues s)[w := queues s ! w @ [c]]"
    using block_law [OF assms] by blast
  have l1: "w < length (queues s1)" using s1(3) assms(3) by simp
  obtain s2 where s2: "wakes s1 w (length (queues s ! w)) = Inr s2" "inv s2" "queues s2 ! w = [c]" "w < length (queues s2)"
    using wakes_fifo [OF s1(2) l1, of "length (queues s ! w)"] s1(3) assms(3) l1 by auto
  then show ?thesis using wake_law [OF s2(2,4)] s1(1) by auto
qed

end

definition may_block :: "sched \<Rightarrow> nat \<Rightarrow> bool" where
  "may_block s c \<longleftrightarrow> current s = Some c \<and> idle s \<noteq> Some c \<and> stack_canary_ok s c"

definition sched_ok :: "sched \<Rightarrow> bool" where
  "sched_ok s \<longleftrightarrow> (\<exists>pl. sched_inv s pl)"

interpretation wq: wait_queues sched_ok waitqs may_block wq_wait wq_wake_one
proof
  fix s c w
  assume "sched_ok s" and m: "may_block s c" and w: "w < length (waitqs s)"
  then obtain pl where inv: "sched_inv s pl" by (auto simp: sched_ok_def)
  show "\<exists>s'. wq_wait s w = Inr s' \<and> sched_ok s' \<and> waitqs s' = (waitqs s)[w := waitqs s ! w @ [c]]"
    using wq_wait_spec [OF inv _ _ _ w, of c] m by (auto simp: may_block_def sched_ok_def)
next
  fix s w
  assume "sched_ok s" and w: "w < length (waitqs s)"
  then obtain pl where inv: "sched_inv s pl" by (auto simp: sched_ok_def)
  show "\<exists>s'. wq_wake_one s w = Inr (s', waitqs s ! w \<noteq> []) \<and> sched_ok s' \<and> waitqs s' = (waitqs s)[w := tl (waitqs s ! w)]"
  proof (cases "waitqs s ! w")
    case Nil
    then have "(waitqs s)[w := tl (waitqs s ! w)] = waitqs s" by (metis list.sel(2) list_update_id)
    then show ?thesis using Nil inv by (auto simp: wq_wake_one_def sched_ok_def)
  next
    case (Cons t rest)
    then show ?thesis using wake_head_spec [OF inv w Cons] by (auto simp: wq_wake_one_def sched_ok_def)
  qed
qed

subsection \<open>The counting semaphore\<close>

definition INT_MAX :: int where "INT_MAX = 2 ^ 31 - 1"

record semaphore =
  sem_count :: int
  sem_waiters :: nat

definition sem_init :: "nat \<Rightarrow> int \<Rightarrow> semaphore" where
  "sem_init w n = \<lparr>sem_count = n, sem_waiters = w\<rparr>"

definition wake_first :: "sched \<Rightarrow> nat \<Rightarrow> sched res" where
  "wake_first s w = (case waitqs s ! w of [] \<Rightarrow> Inr s | t # rest \<Rightarrow> wake_head s w t rest)"

text \<open>A pass of the loop of \<open>sem_wait\<close>: the part under the semaphore's lock, and the whole pass without
  interruption.\<close>

definition sem_wait_locked :: "sched \<Rightarrow> semaphore \<Rightarrow> (sched \<times> semaphore \<times> outcome) res" where
  "sem_wait_locked s m =
     (if 0 < sem_count m then Inr (s, m\<lparr>sem_count := sem_count m - 1\<rparr>, Acquired)
      else case current s of
          None \<Rightarrow> Inl Fault
        | Some cur \<Rightarrow> Inr (push_waiter s (sem_waiters m) cur, m, Blocked))"

definition sem_wait :: "sched \<Rightarrow> semaphore \<Rightarrow> (sched \<times> semaphore \<times> outcome) res" where
  "sem_wait s m =
     bnd (sem_wait_locked s m) (\<lambda>(s1, m1, x).
       case x of
         Acquired \<Rightarrow> Inr (s1, m1, Acquired)
       | Blocked \<Rightarrow> bnd (schedule s1) (\<lambda>s2. Inr (s2, m1, Blocked)))"

definition sem_post :: "sched \<Rightarrow> semaphore \<Rightarrow> (sched \<times> semaphore) res" where
  "sem_post s m =
     (if sem_count m = INT_MAX then Inl Fault
      else bnd (wake_first s (sem_waiters m)) (\<lambda>s'. Inr (s', m\<lparr>sem_count := sem_count m + 1\<rparr>)))"

definition sem_trywait :: "semaphore \<Rightarrow> semaphore \<times> int" where
  "sem_trywait m = (if 0 < sem_count m then (m\<lparr>sem_count := sem_count m - 1\<rparr>, 0) else (m, - EAGAIN))"

definition sem_getvalue :: "semaphore \<Rightarrow> int" where
  "sem_getvalue m = sem_count m"

lemma wake_first_eq: "wake_first s w = bnd (wq_wake_one s w) (\<lambda>(s', _). Inr s')"
  by (cases "waitqs s ! w"; cases "wake_head s w (hd (waitqs s ! w)) (tl (waitqs s ! w))")
    (auto simp: wake_first_def wq_wake_one_def)

lemma wake_first_law:
  assumes "sched_ok s" "w < length (waitqs s)"
  shows "\<exists>s'. wake_first s w = Inr s' \<and> sched_ok s' \<and> waitqs s' = (waitqs s)[w := tl (waitqs s ! w)]"
  using wq.wake_law [OF assms] by (auto simp: wake_first_eq)

lemma wake_first_priority:
  assumes "sched_ok s" "w < length (waitqs s)" "wake_first s w = Inr s'"
  shows "priority (task_pool s' ! t) = priority (task_pool s ! t)"
proof (cases "waitqs s ! w")
  case Nil
  then show ?thesis using assms(3) by (simp add: wake_first_def)
next
  case (Cons h rest)
  obtain pl where inv: "sched_inv s pl" using assms(1) by (auto simp: sched_ok_def)
  show ?thesis using wake_head_priority [OF inv assms(2) Cons] assms(3) Cons by (simp add: wake_first_def)
qed

lemma schedule_law:
  assumes "sched_ok s" "current s = Some c" "stack_canary_ok s c"
  shows "\<exists>s'. schedule s = Inr s' \<and> sched_ok s' \<and> kept s s'"
proof -
  obtain pl where inv: "sched_inv s pl" using assms(1) by (auto simp: sched_ok_def)
  show ?thesis
    using schedule_spec [OF sched_invD(1) [OF inv assms(2)] assms(3)] sched_invD(4) [OF inv assms(2)]
    by (auto simp: sched_ok_def)
qed

lemma queue_distinct:
  assumes "sched_ok s" "w < length (waitqs s)"
  shows "distinct (waitqs s ! w)"
proof -
  obtain pl c where inv: "sched_inv s pl" "current s = Some c"
    using assms(1) by (auto simp: sched_ok_def sched_inv_def sched_pre_def)
  show ?thesis using queues_okD(8) [OF sched_invD(2) [OF inv] assms(2)] by (simp add: queue_ok_def)
qed

text \<open>All tasks that share a semaphore, and the interrupts, in any order. The current task makes the locked part
  of a pass, which takes a unit or queues the task; a task that has queued itself calls \<open>schedule\<close>. At any time, also
  between the two, the processor can be rescheduled, and a task or an interrupt handler posts or tries. The ghost
  components: the units taken \<open>a\<close>, the posts \<open>p\<close>, the tasks \<open>W\<close> that have been woken and have not made
  their next pass, the tasks \<open>P\<close> between queueing themselves and the call of \<open>schedule\<close>, and the tasks
  \<open>Z\<close> that were woken while they were still the current task.\<close>

inductive sem_runs :: "int \<Rightarrow> nat \<Rightarrow> sched \<Rightarrow> semaphore \<Rightarrow> nat \<Rightarrow> nat \<Rightarrow> nat set \<Rightarrow> nat set \<Rightarrow> nat set \<Rightarrow> bool" for n w where
  start: "sched_ok s \<Longrightarrow> w < length (waitqs s) \<Longrightarrow> waitqs s ! w = [] \<Longrightarrow> 0 \<le> n \<Longrightarrow> n \<le> INT_MAX \<Longrightarrow>
    sem_runs n w s (sem_init w n) 0 0 {} {} {}"
| acquire: "sem_runs n w s m a p W P Z \<Longrightarrow> current s = Some c \<Longrightarrow> c \<notin> P \<Longrightarrow> sem_wait_locked s m = Inr (s', m', Acquired) \<Longrightarrow>
    sem_runs n w s' m' (a + 1) p (W - {c}) P (Z - {c})"
| queues: "sem_runs n w s m a p W P Z \<Longrightarrow> current s = Some c \<Longrightarrow> idle s \<noteq> Some c \<Longrightarrow> c \<notin> P \<Longrightarrow>
    sem_wait_locked s m = Inr (s', m', Blocked) \<Longrightarrow> sem_runs n w s' m' a p (W - {c}) (insert c P) (Z - {c})"
| yields: "sem_runs n w s m a p W P Z \<Longrightarrow> current s = Some c \<Longrightarrow> c \<in> P \<Longrightarrow> stack_canary_ok s c \<Longrightarrow> schedule s = Inr s' \<Longrightarrow>
    sem_runs n w s' m a p W (P - {c}) Z"
| resched: "sem_runs n w s m a p W P Z \<Longrightarrow> current s = Some c \<Longrightarrow> stack_canary_ok s c \<Longrightarrow> schedule s = Inr s' \<Longrightarrow>
    sem_runs n w s' m a p W P Z"
| tries: "sem_runs n w s m a p W P Z \<Longrightarrow> sem_trywait m = (m', r) \<Longrightarrow> sem_runs n w s m' (if r = 0 then a + 1 else a) p W P Z"
| post: "sem_runs n w s m a p W P Z \<Longrightarrow> sem_post s m = Inr (s', m') \<Longrightarrow>
    sem_runs n w s' m' a (p + 1) (W \<union> set (take 1 (waitqs s ! w))) P
      (Z \<union> {t \<in> set (take 1 (waitqs s ! w)). current s = Some t})"

text \<open>Where the tasks are: the current task \<open>c\<close>, the idle task \<open>i\<close> and the woken ones.\<close>

definition on_cpu_or_ready :: "place \<Rightarrow> bool" where
  "on_cpu_or_ready x \<longleftrightarrow> x = Running \<or> x = EDF \<or> (\<exists>p. x = Ready p)"

definition sem_places :: "(nat \<Rightarrow> place) \<Rightarrow> nat \<Rightarrow> nat \<Rightarrow> nat set \<Rightarrow> nat set \<Rightarrow> nat set \<Rightarrow> bool" where
  "sem_places pl c i W P Z \<longleftrightarrow>
     (\<forall>t. pl t = Running \<longrightarrow> t = c) \<and>
     (pl c \<in> {Running, Parked, EDF} \<or> (\<exists>p. pl c = Ready p) \<or> (\<exists>w. pl c = Waiting w)) \<and>
     (pl i \<in> {Running, Parked, EDF} \<or> (\<exists>p. pl i = Ready p)) \<and>
     (c \<notin> P \<longrightarrow> pl c = Running \<or> pl c = Parked) \<and>
     (pl c = EDF \<or> (\<exists>p. pl c = Ready p) \<longrightarrow> c \<in> Z) \<and>
     (\<forall>t. t \<in> W \<longrightarrow> t \<notin> Z \<longrightarrow> on_cpu_or_ready (pl t))"

lemma sem_placesD:
  assumes "sem_places pl c i W P Z"
  shows "pl t = Running \<Longrightarrow> t = c" "pl c \<in> {Running, Parked, EDF} \<or> (\<exists>p. pl c = Ready p) \<or> (\<exists>w. pl c = Waiting w)"
    "pl i \<in> {Running, Parked, EDF} \<or> (\<exists>p. pl i = Ready p)" "c \<notin> P \<Longrightarrow> pl c = Running \<or> pl c = Parked"
    "pl c = EDF \<or> (\<exists>p. pl c = Ready p) \<Longrightarrow> c \<in> Z" "t \<in> W \<Longrightarrow> t \<notin> Z \<Longrightarrow> on_cpu_or_ready (pl t)"
  using assms unfolding sem_places_def by blast+

lemma sem_placesI:
  assumes "\<And>t. pl t = Running \<Longrightarrow> t = c" "pl c \<in> {Running, Parked, EDF} \<or> (\<exists>p. pl c = Ready p) \<or> (\<exists>w. pl c = Waiting w)"
    "pl i \<in> {Running, Parked, EDF} \<or> (\<exists>p. pl i = Ready p)" "c \<notin> P \<Longrightarrow> pl c = Running \<or> pl c = Parked"
    "pl c = EDF \<or> (\<exists>p. pl c = Ready p) \<Longrightarrow> c \<in> Z" "\<And>t. t \<in> W \<Longrightarrow> t \<notin> Z \<Longrightarrow> on_cpu_or_ready (pl t)"
  shows "sem_places pl c i W P Z"
  using assms unfolding sem_places_def by blast

lemma on_cpu_waked: "on_cpu_or_ready (pl t) \<Longrightarrow> waked s pl t = pl t"
  by (auto simp: on_cpu_or_ready_def waked_def)

lemma on_cpu_dest [simp]: "on_cpu_or_ready (dest s t)" "on_cpu_or_ready Running"
  using dest_cases [of s t] by (auto simp: on_cpu_or_ready_def)

lemma sem_places_schedule:
  assumes I: "sem_places pl c i W P Z"
    and pl': "pl' = (if n = c then (waked s pl)(c := if pl c = Running then Running else Parked)
            else (waked s pl)(c := if pl c = Running then dest s c else pl c, n := Running))"
  shows "sem_places pl' n i W P' Z"
proof (rule sem_placesI)
  note D = sem_placesD [OF I]
  have run: "waked s pl t = Running \<longleftrightarrow> pl t = Running" for t by (simp add: waked_def)
  have wi: "waked s pl i = pl i" using D(3) by (auto simp: waked_def)
  have n: "pl' n = Running \<or> pl' n = Parked" unfolding pl' by simp
  then show "pl' n \<in> {Running, Parked, EDF} \<or> (\<exists>p. pl' n = Ready p) \<or> (\<exists>w. pl' n = Waiting w)"
    "pl' n = Running \<or> pl' n = Parked" by auto
  show "n \<in> Z" if "pl' n = EDF \<or> (\<exists>p. pl' n = Ready p)" using n that by auto
  show "t = n" if "pl' t = Running" for t
    using that D(1) [of t] D(1) [of c] unfolding pl' by (auto simp: run split: if_splits)
  show "pl' i \<in> {Running, Parked, EDF} \<or> (\<exists>p. pl' i = Ready p)"
    using D(3) dest_cases [of s c] wi unfolding pl' by auto
  show "on_cpu_or_ready (pl' t)" if t: "t \<in> W" "t \<notin> Z" for t
  proof -
    note r = D(6) [OF t]
    have "pl c = Running" if "t = c" using r D(5) t(2) that by (auto simp: on_cpu_or_ready_def)
    then show ?thesis using r on_cpu_waked [of pl t s] unfolding pl' by auto
  qed
qed

lemma queues_push_waiter:
  assumes q: "queues_ok s pl" and c: "pl c = Running \<or> pl c = Parked" and w: "w < length (waitqs s)"
  shows "queues_ok (push_waiter s w c) (pl(c := Waiting w))"
proof -
  have b: "c < 64" "c < length (task_pool s)" using placed_bound [OF q, of c] c queues_okD(2) [OF q] by auto
  let ?s = "upd_task s c (\<lambda>k. k\<lparr>state := TASK_SLEEPING\<rparr>)"
  have "queues_ok s (pl(c := Limbo))" by (rule queues_relabel [OF q]) (use c in auto)
  then have "queues_ok ?s (pl(c := Limbo))" using queues_okD(12) [OF q b(1)] by (intro queues_upd_limbo) simp_all
  from queues_push_wait [OF this, of c w] show ?thesis using b w by (simp add: push_waiter_def Let_def task_upd_task)
qed

definition sem_inv :: "sched \<Rightarrow> nat set \<Rightarrow> nat set \<Rightarrow> nat set \<Rightarrow> bool" where
  "sem_inv s W P Z \<longleftrightarrow>
     (\<exists>pl c i. queues_ok s pl \<and> lock_free s \<and> current s = Some c \<and> idle s = Some i \<and> sem_places pl c i W P Z)"

lemma sem_inv_schedule:
  assumes I: "sem_inv s W P Z" and c: "current s = Some c" "stack_canary_ok s c" and r: "schedule s = Inr s'"
  shows "sem_inv s' W P' Z" "waitqs s' = waitqs s"
proof -
  obtain pl i where k: "queues_ok s pl" "lock_free s" "idle s = Some i" "sem_places pl c i W P Z"
    using I c(1) by (auto simp: sem_inv_def)
  note D = sem_placesD [OF k(4)]
  obtain s1 n pl' where s1: "schedule s = Inr s1" "current s1 = Some n" "lock_free s1" "idle s1 = Some i" "kept s s1" "queues_ok s1 pl'"
    and pl': "pl' = (if n = c then (waked s pl)(c := if pl c = Running then Running else Parked)
            else (waked s pl)(c := if pl c = Running then dest s c else pl c, n := Running))"
    by (rule schedule_any [OF k(1,2) c(1) k(3) c(2) D(2) _ D(3)]) (use D(1) in blast)+
  have e: "s' = s1" using r s1(1) by simp
  show "sem_inv s' W P' Z" unfolding sem_inv_def e using s1 sem_places_schedule [OF k(4) pl'] by blast
  show "waitqs s' = waitqs s" using s1(5) unfolding e by (simp add: kept_def)
qed

text \<open>The invariant of all runs.\<close>

lemma sem_inv_start: "sched_ok s \<Longrightarrow> sem_inv s {} {} {}"
proof -
  assume "sched_ok s"
  then obtain pl c i where k: "queues_ok s pl" "lock_free s" "current s = Some c" "idle s = Some i" "pl c = Running" "places_ok pl c i"
    unfolding sched_ok_def sched_inv_def sched_pre_places by blast
  note P = places_okD [OF k(6)]
  have "sem_places pl c i {} {} {}"
    by (rule sem_placesI) (use k(5) P(4) in \<open>simp_all add: P(1)\<close>)
  then show ?thesis unfolding sem_inv_def using k by blast
qed

lemma sem_inv_acquire:
  assumes I: "sem_inv s W P Z" and c: "current s = Some c" "c \<notin> P"
  shows "sem_inv s (W - {c}) P (Z - {c})"
proof -
  obtain pl i where k: "queues_ok s pl" "lock_free s" "idle s = Some i" "sem_places pl c i W P Z"
    using I c(1) by (auto simp: sem_inv_def)
  note D = sem_placesD [OF k(4)]
  have "sem_places pl c i (W - {c}) P (Z - {c})"
    by (rule sem_placesI) (use D(2,3,6) D(4) [OF c(2)] in \<open>auto simp: D(1)\<close>)
  then show ?thesis unfolding sem_inv_def using k c(1) by blast
qed

lemma sem_inv_push:
  assumes I: "sem_inv s W P Z" and c: "current s = Some c" "c \<notin> P" "idle s \<noteq> Some c" and w: "w < length (waitqs s)"
  shows "sem_inv (push_waiter s w c) (W - {c}) (insert c P) (Z - {c})"
proof -
  obtain pl i where k: "queues_ok s pl" "lock_free s" "idle s = Some i" "sem_places pl c i W P Z"
    using I c(1) by (auto simp: sem_inv_def)
  note D = sem_placesD [OF k(4)]
  have "i \<noteq> c" using k(3) c(3) by auto
  then have "sem_places (pl(c := Waiting w)) c i (W - {c}) (insert c P) (Z - {c})"
    by (intro sem_placesI) (use D(3,6) in \<open>auto simp: D(1) split: if_splits\<close>)
  moreover have "queues_ok (push_waiter s w c) (pl(c := Waiting w))" by (rule queues_push_waiter [OF k(1) D(4) [OF c(2)] w])
  moreover have "lock_free (push_waiter s w c)" "current (push_waiter s w c) = Some c" "idle (push_waiter s w c) = Some i"
    using k(2,3) c(1) by (simp_all add: push_waiter_def Let_def lock_free_def)
  ultimately show ?thesis unfolding sem_inv_def by blast
qed

lemma sem_inv_wake:
  assumes I: "sem_inv s W P Z" and w: "w < length (waitqs s)" and r: "wake_first s w = Inr s'"
  shows "sem_inv s' (W \<union> set (take 1 (waitqs s ! w))) P (Z \<union> {t \<in> set (take 1 (waitqs s ! w)). current s = Some t})"
    "waitqs s' = (waitqs s)[w := tl (waitqs s ! w)]" "distinct (waitqs s ! w)"
proof -
  obtain pl c i where k: "queues_ok s pl" "lock_free s" "current s = Some c" "idle s = Some i" "sem_places pl c i W P Z"
    using I by (auto simp: sem_inv_def)
  note D = sem_placesD [OF k(5)]
  show "distinct (waitqs s ! w)" using queues_okD(8) [OF k(1) w] by (simp add: queue_ok_def)
  have "sem_inv s' (W \<union> set (take 1 (waitqs s ! w))) P (Z \<union> {t \<in> set (take 1 (waitqs s ! w)). current s = Some t}) \<and>
    waitqs s' = (waitqs s)[w := tl (waitqs s ! w)]"
  proof (cases "waitqs s ! w")
    case Nil
    then show ?thesis using r I by (metis (no_types, lifting) Inr_inject empty_Collect_eq empty_iff list.sel(2) list.set(1) list.simps(4)
      list_update_id sup_bot_right take_Nil wake_first_def)
  next
    case (Cons t rest)
    then obtain s1 where s1: "s' = s1" "queues_ok s1 (pl(t := dest s t))" "lock_free s1" "waitqs s1 = (waitqs s)[w := rest]"
      "current s1 = Some c" "idle s1 = Some i" "pl t = Waiting w"
      using wake_head_queues [OF k(1,2) w Cons] r k(3,4) by (auto simp: wake_first_def)
    have ne: "t \<noteq> i" using D(3) s1(7) by auto
    have tP: "t = c \<Longrightarrow> c \<in> P" using D(4) s1(7) by auto
    have "sem_places (pl(t := dest s t)) c i (W \<union> {t}) P (Z \<union> (if t = c then {t} else {}))"
      by (rule sem_placesI) (use D(2-6) tP ne dest_cases [of s t] in \<open>auto simp: D(1) split: if_splits\<close>)
    moreover have "W \<union> set (take 1 (waitqs s ! w)) = W \<union> {t}"
      "Z \<union> {t \<in> set (take 1 (waitqs s ! w)). current s = Some t} = Z \<union> (if t = c then {t} else {})" using Cons k(3) by auto
    ultimately show ?thesis unfolding sem_inv_def using s1 Cons by auto
  qed
  then show "sem_inv s' (W \<union> set (take 1 (waitqs s ! w))) P (Z \<union> {t \<in> set (take 1 (waitqs s ! w)). current s = Some t})"
    "waitqs s' = (waitqs s)[w := tl (waitqs s ! w)]" by blast+
qed

lemma sem_runs_inv:
  assumes "sem_runs n w s m a p W P Z"
  shows "sem_inv s W P Z \<and> w < length (waitqs s) \<and> sem_waiters m = w \<and> 0 \<le> sem_count m \<and> sem_count m \<le> INT_MAX \<and>
    sem_count m = n + int p - int a \<and> finite W \<and> W \<inter> set (waitqs s ! w) = {} \<and>
    (waitqs s ! w \<noteq> [] \<longrightarrow> sem_count m \<le> int (card W))"
  using assms
proof induction
  case (start s)
  then show ?case using sem_inv_start by (simp add: sem_init_def)
next
  case (acquire s m a p W P Z c s' m')
  have "card W \<le> card (W - {c}) + 1" using acquire.IH by (cases "c \<in> W") (simp_all add: card_Diff_singleton_if)
  then show ?case using acquire sem_inv_acquire [of s W P Z c]
    by (auto simp: sem_wait_locked_def split: if_splits option.splits)
next
  case (queues s m a p W P Z c s' m')
  then have z: "sem_count m = 0" "m' = m" "s' = push_waiter s w c"
    by (auto simp: sem_wait_locked_def split: if_splits)
  moreover have "waitqs (push_waiter s w c) = (waitqs s)[w := waitqs s ! w @ [c]]" by (simp add: push_waiter_def Let_def)
  ultimately show ?case using queues sem_inv_push [of s W P Z c w] by auto
next
  case (yields s m a p W P Z c s')
  then show ?case using sem_inv_schedule [of s W P Z c s'] by auto
next
  case (resched s m a p W P Z c s')
  then show ?case using sem_inv_schedule [of s W P Z c s'] by auto
next
  case (tries s m a p W P Z m' r)
  then show ?case by (auto simp: sem_trywait_def EAGAIN_def split: if_splits)
next
  case (post s m a p W P Z s' m')
  then have r: "wake_first s w = Inr s'" "m' = m\<lparr>sem_count := sem_count m + 1\<rparr>" "sem_count m \<noteq> INT_MAX"
    by (auto simp: sem_post_def res_facts split: if_splits)
  have K: "sem_inv s W P Z" "w < length (waitqs s)" using post.IH by blast+
  note S = sem_inv_wake [OF K r(1)]
  show ?case
  proof (cases "waitqs s ! w")
    case Nil
    then show ?thesis using post.IH S r by simp
  next
    case (Cons t rest)
    then have "t \<notin> W" "t \<notin> set rest" using post.IH S(3) by auto
    then show ?thesis using Cons post.IH S r by auto
  qed
qed

text \<open>An uninterrupted pass is made of these steps.\<close>

lemma sem_wait_runs:
  assumes r: "sem_runs n w s m a p W P Z" and c: "may_block s c" "c \<notin> P" and x: "sem_wait s m = Inr (s', m', x)"
  shows "sem_runs n w s' m' (if x = Acquired then a + 1 else a) p (W - {c}) P (Z - {c})"
proof (cases "0 < sem_count m")
  case True
  then have "sem_wait_locked s m = Inr (s', m', Acquired)" "x = Acquired" using x by (auto simp: sem_wait_def sem_wait_locked_def)
  then show ?thesis using sem_runs.acquire [OF r _ c(2)] c(1) by (simp add: may_block_def)
next
  case False
  have cur: "current s = Some c" "idle s \<noteq> Some c" "stack_canary_ok s c" using c(1) by (simp_all add: may_block_def)
  let ?s = "push_waiter s (sem_waiters m) c"
  have l: "sem_wait_locked s m = Inr (?s, m, Blocked)" using False cur(1) by (simp add: sem_wait_locked_def)
  then have y: "schedule ?s = Inr s'" "m' = m" "x = Blocked" using x by (auto simp: sem_wait_def res_facts)
  have "current ?s = Some c" "stack_canary_ok ?s c"
    using cur(1,3) canary_cong [of ?s c s] by (auto simp: push_waiter_def Let_def task_upd_task)
  from sem_runs.yields [OF sem_runs.queues [OF r cur(1,2) c(2) l] this(1) _ this(2) y(1)] show ?thesis using y c(2) by simp
qed

lemma sem_woken_ready:
  assumes "sem_inv s W P Z" "t \<in> W" "t \<notin> Z"
  shows "current s = Some t \<or> t \<in> set (deadline_queue s) \<or> (\<exists>p < 64. t \<in> set (prio_queues s ! p))"
proof -
  obtain pl c i where k: "queues_ok s pl" "current s = Some c" "sem_places pl c i W P Z" using assms(1) by (auto simp: sem_inv_def)
  note D = sem_placesD [OF k(3)] and Q = queues_okD [OF k(1)]
  from D(6) [OF assms(2,3)] consider "pl t = Running" | "pl t = EDF" | p where "pl t = Ready p" by (auto simp: on_cpu_or_ready_def)
  then show ?thesis
  proof cases
    case 1
    then show ?thesis using D(1) k(2) by simp
  next
    case 2
    then show ?thesis using Q(5) by (auto simp: queue_ok_def)
  next
    case (3 p)
    then show ?thesis using Q(3) [of p] Q(11) [OF 3] by (auto simp: queue_ok_def)
  qed
qed
subsection \<open>The mutex with priority inheritance\<close>

record mutex =
  locked :: bool
  m_waiters :: nat
  owner_tid :: u32
  owner :: "nat option"
  saved_priority :: nat
  priority_boosted :: bool

definition mutex_init :: "nat \<Rightarrow> mutex" where
  "mutex_init w = \<lparr>locked = False, m_waiters = w, owner_tid = 0, owner = None, saved_priority = 32,
     priority_boosted = False\<rparr>"

definition take_mutex :: "sched \<Rightarrow> nat \<Rightarrow> mutex \<Rightarrow> mutex" where
  "take_mutex s c m = m\<lparr>locked := True, owner := Some c, owner_tid := tid (task_pool s ! c),
     saved_priority := priority (task_pool s ! c), priority_boosted := False\<rparr>"

definition boost_owner :: "sched \<Rightarrow> nat \<Rightarrow> mutex \<Rightarrow> sched \<times> mutex" where
  "boost_owner s cur m =
     (case owner m of
        None \<Rightarrow> (s, m)
      | Some ow \<Rightarrow>
          if priority (task_pool s ! cur) < priority (task_pool s ! ow)
          then (upd_task s ow (\<lambda>k. k\<lparr>priority := priority (task_pool s ! cur)\<rparr>), m\<lparr>priority_boosted := True\<rparr>)
          else (s, m))"

definition mutex_lock :: "sched \<Rightarrow> mutex \<Rightarrow> (sched \<times> mutex \<times> outcome) res" where
  "mutex_lock s m =
     (case current s of
        None \<Rightarrow> Inl Fault
      | Some cur \<Rightarrow>
          if \<not> locked m then Inr (s, take_mutex s cur m, Acquired)
          else let (s1, m1) = boost_owner s cur m
               in bnd (schedule (push_waiter s1 (m_waiters m) cur)) (\<lambda>s2. Inr (s2, m1, Blocked)))"

definition mutex_unlock :: "sched \<Rightarrow> mutex \<Rightarrow> (sched \<times> mutex) res" where
  "mutex_unlock s m =
     (let (s1, m1) = (case owner m of
            Some ow \<Rightarrow> if priority_boosted m
              then (upd_task s ow (\<lambda>k. k\<lparr>priority := saved_priority m\<rparr>), m\<lparr>priority_boosted := False\<rparr>) else (s, m)
          | None \<Rightarrow> (s, m));
          m2 = m1\<lparr>locked := False, owner := None, owner_tid := 0\<rparr>
      in bnd (wake_first s1 (m_waiters m)) (\<lambda>s2. Inr (s2, m2)))"

definition mutex_trylock :: "sched \<Rightarrow> mutex \<Rightarrow> (mutex \<times> bool) res" where
  "mutex_trylock s m =
     (case current s of
        None \<Rightarrow> Inl Fault
      | Some cur \<Rightarrow> if \<not> locked m then Inr (take_mutex s cur m, True) else Inr (m, False))"

lemma queues_set_priority:
  assumes q: "queues_ok s pl" and p: "p < 64"
  shows "queues_ok (upd_task s t (\<lambda>k. k\<lparr>priority := p\<rparr>)) pl"
proof -
  let ?s = "upd_task s t (\<lambda>k. k\<lparr>priority := p\<rparr>)"
  have e: "deadline (task_pool ?s ! u) = deadline (task_pool s ! u)" "state (task_pool ?s ! u) = state (task_pool s ! u)"
    for u by (simp_all add: task_upd_task)
  show ?thesis
    using queues_okD [OF q] p by (intro queues_okI) (simp_all add: e, auto simp: task_upd_task)
qed

lemma inv_set_priority:
  assumes "sched_inv s pl" "p < 64"
  shows "sched_inv (upd_task s t (\<lambda>k. k\<lparr>priority := p\<rparr>)) pl"
  using assms queues_set_priority [of s pl p t] unfolding sched_inv_def sched_pre_def by (auto simp: lock_free_def)

lemma ok_set_priority: "sched_ok s \<Longrightarrow> p < 64 \<Longrightarrow> sched_ok (upd_task s t (\<lambda>k. k\<lparr>priority := p\<rparr>))"
  unfolding sched_ok_def using inv_set_priority by blast

lemma ok_facts:
  assumes "sched_ok s"
  obtains c where "current s = Some c" "c < 64" "length (task_pool s) = 64" "\<And>t. t < 64 \<Longrightarrow> priority (task_pool s ! t) < 64"
proof -
  obtain pl c where inv: "sched_inv s pl" "current s = Some c"
    using assms by (auto simp: sched_ok_def sched_inv_def sched_pre_def)
  note V = sched_invD [OF inv]
  show thesis using that [OF inv(2) V(7)] queues_okD(2,12) [OF V(2)] by blast
qed

lemma may_block_priority [simp]: "may_block (upd_task s t (\<lambda>k. k\<lparr>priority := p\<rparr>)) c = may_block s c"
  by (auto simp: may_block_def stack_canary_ok_def task_upd_task)

lemma wait_keeps:
  assumes "sched_ok s" "may_block s c" "w < length (waitqs s)"
  shows "\<exists>s'. wq_wait s w = Inr s' \<and> sched_ok s' \<and> waitqs s' = (waitqs s)[w := waitqs s ! w @ [c]] \<and>
    (\<forall>t. priority (task_pool s' ! t) = priority (task_pool s ! t) \<and> tid (task_pool s' ! t) = tid (task_pool s ! t))"
proof -
  obtain s' where s': "wq_wait s w = Inr s'" "sched_ok s'" "waitqs s' = (waitqs s)[w := waitqs s ! w @ [c]]"
    using wq.block_law [OF assms] by blast
  obtain pl where inv: "sched_inv s pl" using assms(1) by (auto simp: sched_ok_def)
  have "kept (push_waiter s w c) s'"
    using wait_kept [OF inv _ _ _ assms(3), of c s'] s'(1) assms(2) by (simp add: may_block_def)
  from kept_fields(2,7) [OF this] have
    "\<forall>t. priority (task_pool s' ! t) = priority (task_pool s ! t) \<and> tid (task_pool s' ! t) = tid (task_pool s ! t)"
    by (simp add: push_waiter_def task_upd_task)
  then show ?thesis using s' by blast
qed

text \<open>From an acquisition to the matching release: other tasks try to lock the mutex and block, and
  the processor is rescheduled. The ghost components are the owner, its priority when it acquired
  the mutex, and the tasks that have tried since.\<close>

inductive mutex_held :: "sched \<Rightarrow> mutex \<Rightarrow> nat \<Rightarrow> nat \<Rightarrow> nat set \<Rightarrow> bool" where
  acquired: "sched_ok s \<Longrightarrow> m_waiters m < length (waitqs s) \<Longrightarrow> current s = Some c \<Longrightarrow>
    mutex_lock s m = Inr (s', m', Acquired) \<Longrightarrow> mutex_held s' m' c (priority (task_pool s ! c)) {}"
| contended: "mutex_held s m ow p T \<Longrightarrow> may_block s c \<Longrightarrow> c \<noteq> ow \<Longrightarrow> mutex_lock s m = Inr (s', m', Blocked) \<Longrightarrow>
    mutex_held s' m' ow p (insert c T)"
| tried: "mutex_held s m ow p T \<Longrightarrow> mutex_trylock s m = Inr (m', b) \<Longrightarrow> mutex_held s m' ow p T"
| rescheduled: "mutex_held s m ow p T \<Longrightarrow> current s = Some c \<Longrightarrow> stack_canary_ok s c \<Longrightarrow> schedule s = Inr s' \<Longrightarrow>
    mutex_held s' m ow p T"

lemma mutex_held_inv:
  assumes "mutex_held s m ow p T"
  shows "sched_ok s \<and> m_waiters m < length (waitqs s) \<and> locked m \<and> owner m = Some ow \<and> saved_priority m = p \<and> ow < 64 \<and>
    p < 64 \<and> ow \<notin> T \<and> priority (task_pool s ! ow) \<le> p \<and> (\<not> priority_boosted m \<longrightarrow> priority (task_pool s ! ow) = p) \<and>
    (\<forall>c \<in> T. priority (task_pool s ! ow) \<le> priority (task_pool s ! c))"
  using assms
proof induction
  case (acquired s m c s' m')
  obtain d where "current s = Some d" "d < 64" "\<And>t. t < 64 \<Longrightarrow> priority (task_pool s ! t) < 64"
    using ok_facts [OF acquired(1)] by metis
  then show ?case using acquired by (auto simp: mutex_lock_def take_mutex_def Let_def res_facts split: if_splits prod.splits)
next
  case (contended s m ow p T c s' m')
  then have I: "sched_ok s" "m_waiters m < length (waitqs s)" "locked m" "owner m = Some ow" "saved_priority m = p" "ow < 64"
    "priority (task_pool s ! ow) \<le> p" "ow \<notin> T" "p < 64" by blast+
  have c: "current s = Some c" using contended.hyps(2) by (simp add: may_block_def)
  obtain d where d: "current s = Some d" "d < 64" "length (task_pool s) = 64"
    "\<And>t. t < 64 \<Longrightarrow> priority (task_pool s ! t) < 64" by (rule ok_facts [OF I(1)]) blast
  then have cb: "c < 64" "priority (task_pool s ! c) < 64" using c by auto
  obtain s1 m1 where b: "boost_owner s c m = (s1, m1)" by fastforce
  define hi where "hi \<longleftrightarrow> priority (task_pool s ! c) < priority (task_pool s ! ow)"
  have s1: "s1 = (if hi then upd_task s ow (\<lambda>k. k\<lparr>priority := priority (task_pool s ! c)\<rparr>) else s)"
    "m1 = (if hi then m\<lparr>priority_boosted := True\<rparr> else m)"
    using b I(4) by (auto simp: boost_owner_def hi_def)
  have k1: "sched_ok s1" "may_block s1 c" "waitqs s1 = waitqs s" "current s1 = Some c"
    using I(1) contended.hyps(2) cb(2) c ok_set_priority by (auto simp: s1)
  have pr1: "priority (task_pool s1 ! t) = (if t = ow then min (priority (task_pool s ! ow)) (priority (task_pool s ! c))
      else priority (task_pool s ! t))" for t
    using I(6) d(3) by (auto simp: s1 task_upd_task hi_def)
  have run: "wq_wait s1 (m_waiters m) = Inr s'" "m' = m1"
    using contended.hyps(4) c I(3) b k1(4) by (auto simp: mutex_lock_def wq_wait_def res_facts)
  obtain s2 where s2: "wq_wait s1 (m_waiters m) = Inr s2" "sched_ok s2"
    "waitqs s2 = (waitqs s1)[m_waiters m := waitqs s1 ! m_waiters m @ [c]]"
    "\<And>t. priority (task_pool s2 ! t) = priority (task_pool s1 ! t)"
    using wait_keeps [OF k1(1,2), of "m_waiters m"] I(2) k1(3) by auto
  have e: "s' = s2" using run s2(1) by simp
  have B: "\<not> priority_boosted m \<longrightarrow> priority (task_pool s ! ow) = p"
    "\<And>u. u \<in> T \<Longrightarrow> priority (task_pool s ! ow) \<le> priority (task_pool s ! u)" using contended.IH by blast+
  have B3: "priority (task_pool s ! c) \<le> priority (task_pool s ! u)"
    if "u \<in> T" "priority (task_pool s ! c) < priority (task_pool s ! ow)" for u
    using B(2) [OF that(1)] that(2) by simp
  show ?case
    unfolding e run(2) s2(4) pr1
    using I s1(2) s2(2,3) k1(3) B contended.hyps(3) by (auto simp: hi_def min_def dest: B3)
next
  case (tried s m ow p T m' b)
  then show ?case by (auto simp: mutex_trylock_def split: option.splits if_splits)
next
  case (rescheduled s m ow p T c s')
  then obtain s1 where "schedule s = Inr s1" "sched_ok s1" "kept s s1" using schedule_law [of s c] by blast
  then show ?case using rescheduled kept_fields(2) [of s s'] by (auto simp: kept_def)
qed

lemma unlock_spec:
  assumes I: "sched_ok s" "m_waiters m < length (waitqs s)" "locked m" "owner m = Some ow" "ow < 64" "saved_priority m = p" "p < 64"
    and b: "\<not> priority_boosted m \<longrightarrow> priority (task_pool s ! ow) = p"
  shows "\<exists>s' m'. mutex_unlock s m = Inr (s', m') \<and> sched_ok s' \<and> \<not> locked m' \<and> owner m' = None \<and>
    \<not> priority_boosted m' \<and> priority (task_pool s' ! ow) = p \<and>
    waitqs s' = (waitqs s)[m_waiters m := tl (waitqs s ! m_waiters m)]"
proof -
  define s1 where "s1 = (if priority_boosted m then upd_task s ow (\<lambda>k. k\<lparr>priority := p\<rparr>) else s)"
  have s1: "sched_ok s1" "waitqs s1 = waitqs s" using I(1,7) ok_set_priority by (auto simp: s1_def)
  obtain d where d: "length (task_pool s) = 64" by (rule ok_facts [OF I(1)]) blast
  have pr: "priority (task_pool s1 ! ow) = p" using I(5) d b by (auto simp: s1_def task_upd_task)
  obtain s2 where s2: "wake_first s1 (m_waiters m) = Inr s2" "sched_ok s2"
    "waitqs s2 = (waitqs s1)[m_waiters m := tl (waitqs s1 ! m_waiters m)]"
    using wake_first_law [OF s1(1), of "m_waiters m"] I(2) s1(2) by auto
  have "priority (task_pool s2 ! ow) = p" using wake_first_priority [OF s1(1) _ s2(1)] I(2) s1(2) pr by simp
  moreover have "mutex_unlock s m = bnd (wake_first s1 (m_waiters m)) (\<lambda>s2. Inr (s2, m\<lparr>priority_boosted := False, locked := False,
      owner := None, owner_tid := 0\<rparr>))"
    using I(4,6) by (cases m) (auto simp: mutex_unlock_def s1_def)
  ultimately show ?thesis using s2 s1(2) by auto
qed

subsection \<open>The adaptive mutex\<close>

record adaptive_mutex =
  a_locked :: bool
  a_owner :: "nat option"
  a_waiters :: nat
  owner_prio :: nat

definition ADAPTIVE_SPIN_LIMIT :: nat where "ADAPTIVE_SPIN_LIMIT = 100"

definition test_and_set :: "adaptive_mutex \<Rightarrow> adaptive_mutex \<times> bool" where
  "test_and_set m = (m\<lparr>a_locked := True\<rparr>, a_locked m)"

fun adaptive_spin :: "nat \<Rightarrow> adaptive_mutex \<Rightarrow> adaptive_mutex \<times> bool" where
  "adaptive_spin 0 m = (m, False)"
| "adaptive_spin (Suc n) m = (case test_and_set m of (m1, old) \<Rightarrow> if \<not> old then (m1, True) else adaptive_spin n m1)"

text \<open>One pass of the sleeping phase: the loop of \<open>adaptive_lock\<close> behind the spin.\<close>

definition adaptive_sleep :: "sched \<Rightarrow> nat \<Rightarrow> adaptive_mutex \<Rightarrow> (sched \<times> adaptive_mutex \<times> outcome) res" where
  "adaptive_sleep s cur m =
     (case test_and_set m of (m1, old) \<Rightarrow>
        if \<not> old then Inr (s, m1\<lparr>a_owner := Some cur\<rparr>, Acquired)
        else let (s1, m2) = (case a_owner m1 of
               None \<Rightarrow> (s, m1)
             | Some ow \<Rightarrow>
                 if priority (task_pool s ! cur) < priority (task_pool s ! ow)
                 then (upd_task s ow (\<lambda>k. k\<lparr>priority := priority (task_pool s ! cur)\<rparr>),
                       m1\<lparr>owner_prio := priority (task_pool s ! ow)\<rparr>)
                 else (s, m1))
             in bnd (wq_wait s1 (a_waiters m2)) (\<lambda>s2. Inr (s2, m2, Blocked)))"

definition adaptive_lock :: "sched \<Rightarrow> adaptive_mutex \<Rightarrow> (sched \<times> adaptive_mutex \<times> outcome) res" where
  "adaptive_lock s m =
     (case current s of
        None \<Rightarrow> Inl Fault
      | Some cur \<Rightarrow>
          (case adaptive_spin ADAPTIVE_SPIN_LIMIT m of (m1, got) \<Rightarrow>
             if got then Inr (s, m1\<lparr>a_owner := Some cur\<rparr>, Acquired) else adaptive_sleep s cur m1))"

definition adaptive_unlock :: "sched \<Rightarrow> adaptive_mutex \<Rightarrow> (sched \<times> adaptive_mutex) res" where
  "adaptive_unlock s m =
     bnd (if 0 < owner_prio m
          then (case a_owner m of None \<Rightarrow> Inl Fault
                | Some ow \<Rightarrow> Inr (upd_task s ow (\<lambda>k. k\<lparr>priority := owner_prio m\<rparr>), m\<lparr>owner_prio := 0\<rparr>))
          else Inr (s, m))
       (\<lambda>(s1, m1). bnd (wq_wake_one s1 (a_waiters m1)) (\<lambda>(s2, _). Inr (s2, m1\<lparr>a_owner := None, a_locked := False\<rparr>)))"

lemma adaptive_spin_eq:
  "adaptive_spin n m = (if 0 < n \<and> \<not> a_locked m then (m\<lparr>a_locked := True\<rparr>, True) else (m, False))"
proof (induction n)
  case (Suc n)
  then show ?case by (cases m) (auto simp: test_and_set_def)
qed simp

lemma adaptive_lock_eq:
  assumes "current s = Some cur"
  shows "adaptive_lock s m = adaptive_sleep s cur m"
  using assms by (auto simp: adaptive_lock_def adaptive_sleep_def adaptive_spin_eq test_and_set_def ADAPTIVE_SPIN_LIMIT_def)

subsection \<open>Event objects\<close>

datatype kevent_type = KEVENT_MANUAL_RESET | KEVENT_AUTO_RESET

record kevent =
  signaled :: bool
  ke_type :: kevent_type
  ke_waiters :: nat

definition kevent_init :: "nat \<Rightarrow> kevent_type \<Rightarrow> kevent" where
  "kevent_init w ty = \<lparr>signaled = False, ke_type = ty, ke_waiters = w\<rparr>"

definition kevent_signal :: "sched \<Rightarrow> kevent \<Rightarrow> (sched \<times> kevent) res" where
  "kevent_signal s e =
     (let e1 = e\<lparr>signaled := True\<rparr> in
      if ke_type e = KEVENT_AUTO_RESET then bnd (wq_wake_one s (ke_waiters e)) (\<lambda>(s1, _). Inr (s1, e1))
      else bnd (wq_wake_all s (ke_waiters e)) (\<lambda>(s1, _). Inr (s1, e1)))"

definition kevent_wait :: "sched \<Rightarrow> kevent \<Rightarrow> (sched \<times> kevent \<times> outcome) res" where
  "kevent_wait s e =
     (if signaled e
      then Inr (s, if ke_type e = KEVENT_AUTO_RESET then e\<lparr>signaled := False\<rparr> else e, Acquired)
      else bnd (wq_wait s (ke_waiters e)) (\<lambda>s1. Inr (s1, e, Blocked)))"

definition kevent_reset :: "kevent \<Rightarrow> kevent" where
  "kevent_reset e = e\<lparr>signaled := False\<rparr>"

definition kevent_is_signaled :: "kevent \<Rightarrow> bool" where
  "kevent_is_signaled e = signaled e"

text \<open>Everything the tasks that share an event can do. The ghost components count the signals and
  the waits that have returned.\<close>

inductive kevent_runs :: "sched \<Rightarrow> kevent \<Rightarrow> nat \<Rightarrow> nat \<Rightarrow> bool" where
  k_start: "sched_ok s \<Longrightarrow> w < length (waitqs s) \<Longrightarrow> kevent_runs s (kevent_init w ty) 0 0"
| k_signal: "kevent_runs s e g r \<Longrightarrow> kevent_signal s e = Inr (s', e') \<Longrightarrow> kevent_runs s' e' (g + 1) r"
| k_wait: "kevent_runs s e g r \<Longrightarrow> may_block s c \<Longrightarrow> kevent_wait s e = Inr (s', e', x) \<Longrightarrow>
    kevent_runs s' e' g (if x = Acquired then r + 1 else r)"
| k_reset: "kevent_runs s e g r \<Longrightarrow> kevent_runs s (kevent_reset e) g r"

lemma kevent_runs_inv:
  assumes "kevent_runs s e g r"
  shows "sched_ok s \<and> ke_waiters e < length (waitqs s) \<and>
    (ke_type e = KEVENT_AUTO_RESET \<longrightarrow> r + (if signaled e then 1 else 0) \<le> g)"
  using assms
proof induction
  case (k_start s w ty)
  then show ?case by (simp add: kevent_init_def)
next
  case (k_signal s e g r s' e')
  then obtain pl where inv: "sched_inv s pl" by (auto simp: sched_ok_def)
  show ?case
  proof (cases "ke_type e = KEVENT_AUTO_RESET")
    case True
    then show ?thesis using k_signal wq.wake_law [of s "ke_waiters e"] by (auto simp: kevent_signal_def Let_def res_facts)
  next
    case False
    then show ?thesis using k_signal wake_all_spec [OF inv, of "ke_waiters e"]
      by (auto simp: kevent_signal_def Let_def res_facts sched_ok_def)
  qed
next
  case (k_wait s e g r c s' e' x)
  then show ?case using wq.block_law [of s c "ke_waiters e"]
    by (auto simp: kevent_wait_def res_facts split: if_splits)
next
  case (k_reset s e g r)
  then show ?case by (auto simp: kevent_reset_def)
qed

end
