(* ===== verification/Sync_Spec.thy ===== *)
theory Sync_Spec
  imports Sync
begin

text \<open>
  What the semaphore, the mutexes and the event promise over all interleavings of their callers,
  and where the inheritance of priorities falls short.
\<close>

subsection \<open>Limits of the inheritance\<close>

text \<open>Boosting changes the priority field only: an owner that is waiting in a ready queue stays in
  the queue of its old priority, so the boost has no effect before it is next enqueued.\<close>

lemma boost_keeps_place:
  assumes inv: "sched_inv s pl" and m: "owner m = Some ow" "pl ow = Ready q"
    and c: "priority (task_pool s ! c) < priority (task_pool s ! ow)" "c < 64"
  shows "sched_inv (fst (boost_owner s c m)) pl \<and> ow \<in> set (prio_queues (fst (boost_owner s c m)) ! q) \<and>
    priority (task_pool (fst (boost_owner s c m)) ! ow) = priority (task_pool s ! c)"
proof -
  obtain d where d: "current s = Some d" using inv by (auto simp: sched_inv_def sched_pre_def)
  note V = sched_invD [OF inv d]
  have "q < 64" "ow < 64" using queues_okD(11) [OF V(2) m(2)] placed_bound [OF V(2), of ow] m(2) by auto
  then have "ow \<in> set (prio_queues s ! q)" using queues_okD(3) [OF V(2)] m(2) by (auto simp: queue_ok_def)
  then show ?thesis
    using inv_set_priority [OF inv queues_okD(12) [OF V(2) c(2)], of ow] m(1) c(1) \<open>ow < 64\<close> queues_okD(2) [OF V(2)]
    by (simp add: boost_owner_def task_upd_task)
qed

text \<open>A second boost of the adaptive mutex overwrites the saved priority with the priority of the
  first boost, so the release does not restore the owner's own priority.\<close>

lemma adaptive_second_boost:
  assumes "current s = Some c" "a_locked m" "a_owner m = Some ow" "priority (task_pool s ! c) < priority (task_pool s ! ow)"
    "adaptive_lock s m = Inr (s', m', x)"
  shows "owner_prio m' = priority (task_pool s ! ow)"
  using assms(2-5) unfolding adaptive_lock_eq [OF assms(1)]
  by (auto simp: adaptive_sleep_def test_and_set_def res_facts)

text \<open>Between queueing a task and the call of \<open>schedule\<close> the queue's lock is released with
  interrupts on. When the wake-up comes in that window, \<open>schedule\<close> picks the very task that
  called it and returns at once, leaving it running in the state ready and in no queue; the next
  reschedule drops it: another task runs and task 0 is in no queue of the system.\<close>

definition window_demo :: "pmm_state \<Rightarrow> sched" where
  "window_demo m = (sched_demo m 0)\<lparr>prio_queues := replicate 64 [], prio_bitmap := 0, waitqs := [[]]\<rparr>"

definition lost_wakeup :: "pmm_state \<Rightarrow> (nat option \<times> task_state \<times> bool) res" where
  "lost_wakeup m =
     bnd (wq_wake_one (push_waiter (window_demo m) 0 0) 0) (\<lambda>(s1, _).
     bnd (schedule s1) (\<lambda>s2.
     bnd (sched_add_ready s2 2) (\<lambda>s3.
     bnd (schedule s3) (\<lambda>s4.
       Inr (current s4, state (task_pool s4 ! 0),
            0 \<in> set (concat (prio_queues s4) @ deadline_queue s4 @ sleep_queue s4 @ dead_queue s4 @ concat (waitqs s4)))))))"

lemma lost_wakeup_result: "lost_wakeup (pmm_reset 0 0) = Inr (Some 2, TASK_READY, False)"
  by code_simp

subsection \<open>Properties\<close>

text \<open>C23: the semaphore. Whatever the tasks and the interrupt handlers that share it do, and wherever they
  are interrupted, also between queueing themselves and calling \<open>schedule\<close>: the count is the
  initial count plus the posts minus the acquisitions and never negative, so at most the initial count plus the posts are
  ever acquired. As long as a task is asleep on the semaphore, every available unit is matched by a task that has
  been woken and has not tried again since. Each woken task is running or in a ready queue or the deadline queue, and so will
  try again, with one exception: a task that was woken while it was still the current task, after queueing itself and
  before its call of \<open>schedule\<close> took effect; such a task can be lost (\<open>lost_wakeup_result\<close>). A post beyond
  \<open>INT_MAX\<close> overflows and is not covered.\<close>

theorem sem_wakeups_matched:
  assumes "sem_runs n w s m a p W P Z"
  shows "sem_count m = n + int p - int a \<and> 0 \<le> sem_count m \<and> int a \<le> n + int p \<and>
    (waitqs s ! w \<noteq> [] \<longrightarrow> sem_count m \<le> int (card W)) \<and> W \<inter> set (waitqs s ! w) = {} \<and>
    (\<forall>t \<in> W - Z. current s = Some t \<or> t \<in> set (deadline_queue s) \<or> (\<exists>p < 64. t \<in> set (prio_queues s ! p)))"
proof -
  note I = sem_runs_inv [OF assms]
  have "\<forall>t \<in> W - Z. current s = Some t \<or> t \<in> set (deadline_queue s) \<or> (\<exists>p < 64. t \<in> set (prio_queues s ! p))"
    using sem_woken_ready [of s W P Z] I by blast
  then show ?thesis using I by linarith
qed

theorem sem_wakeups_matched_witness:
  "\<exists>s s' m. sem_runs 0 0 s (sem_init 0 0) 0 0 {} {} {} \<and> waitqs s = [[0]] \<and> sem_post s (sem_init 0 0) = Inr (s', m) \<and>
     sem_runs 0 0 s' m 0 1 {0} {} {} \<and> sem_count m = 1 \<and>
     (current s' = Some 0 \<or> 0 \<in> set (deadline_queue s') \<or> (\<exists>p < 64. 0 \<in> set (prio_queues s' ! p)))"
proof -
  let ?d = "sched_demo (pmm_reset 0 0) 0"
  have "0 < length (waitqs ?d)" by (simp add: demo_facts)
  from wake_all_spec [OF demo_inv this] obtain s1 pl where s1: "waitqs s1 = [[]]" "sched_inv s1 pl" "current s1 = Some 0"
    "wq_wake_all ?d 0 = Inr (s1, 1)" by (auto simp: demo_facts)
  have f: "idle s1 = Some 1" "stack_phys (task_pool s1 ! 0) = 0"
    using s1(4) by (auto simp: wq_wake_all_def demo_facts wake_head_def sched_add_ready_def res_facts lock_sched_def
        bitmap_enqueue_def deadline_enqueue_def Let_def unlock_sched_def task_upd_task demo_nth empty_task_def split: if_splits)
  let ?s2 = "push_waiter s1 0 0"
  have can: "stack_canary_ok s1 0" "stack_canary_ok ?s2 0" "current ?s2 = Some 0"
    using f(2) s1(3) canary_cong [of ?s2 0 s1]
    by (auto simp: stack_canary_ok_def push_waiter_def Let_def task_upd_task split: if_splits)
  have q: "sem_wait_locked s1 (sem_init 0 0) = Inr (?s2, sem_init 0 0, Blocked)" using s1(3) by (simp add: sem_wait_locked_def sem_init_def)
  have "sem_runs 0 0 s1 (sem_init 0 0) 0 0 {} {} {}"
    using s1(1,2) by (intro sem_runs.start) (auto simp: sched_ok_def INT_MAX_def)
  from sem_runs.queues [OF this s1(3) _ _ q] f(1) have r2: "sem_runs 0 0 ?s2 (sem_init 0 0) 0 0 {} {0} {}" by simp
  obtain s3 pl3 n where s3: "schedule ?s2 = Inr s3" "current s3 = Some n" "n \<noteq> 0" "sched_inv s3 pl3" "waitqs s3 = [[0]]"
    using wq_wait_spec [OF s1(2,3) _ can(1), of 0] f(1) s1(1,3) by (auto simp: wq_wait_def)
  from sem_runs.yields [OF r2 can(3) _ can(2) s3(1)] have r3: "sem_runs 0 0 s3 (sem_init 0 0) 0 0 {} {} {}" by simp
  obtain s4 where "wake_first s3 0 = Inr s4" using wake_first_law [of s3 0] s3(4,5) by (auto simp: sched_ok_def)
  then have p: "sem_post s3 (sem_init 0 0) = Inr (s4, sem_init 0 1)" by (simp add: sem_post_def sem_init_def INT_MAX_def)
  have "{t \<in> set (take 1 (waitqs s3 ! 0)). current s3 = Some t} = {}" using s3(2,3,5) by auto
  from sem_runs.post [OF r3 p, unfolded this] s3(5) have r4: "sem_runs 0 0 s4 (sem_init 0 1) 0 1 {0} {} {}" by simp
  from sem_wakeups_matched [OF r4] have "current s4 = Some 0 \<or> 0 \<in> set (deadline_queue s4) \<or> (\<exists>p < 64. 0 \<in> set (prio_queues s4 ! p))"
    "sem_count (sem_init 0 1) = 1" by simp_all
  then show ?thesis using r3 r4 p s3(5) by blast
qed

text \<open>C22: priority inheritance. While a mutex is held, whatever other tasks try to take it and
  however the processor is rescheduled, the owner's priority is at least as good as that of every
  task that has blocked on it, and at least as good as its own; releasing the mutex restores exactly the
  priority the owner had when it acquired it, unlocks the mutex and wakes the task that has waited
  longest.\<close>

theorem mutex_inheritance:
  assumes "mutex_held s m ow p T"
  shows "priority (task_pool s ! ow) \<le> p \<and> (\<forall>c \<in> T. priority (task_pool s ! ow) \<le> priority (task_pool s ! c)) \<and>
    (\<exists>s' m'. mutex_unlock s m = Inr (s', m') \<and> sched_ok s' \<and> \<not> locked m' \<and> owner m' = None \<and>
       priority (task_pool s' ! ow) = p \<and> waitqs s' = (waitqs s)[m_waiters m := tl (waitqs s ! m_waiters m)])"
proof -
  note I = mutex_held_inv [OF assms]
  have "\<exists>s' m'. mutex_unlock s m = Inr (s', m') \<and> sched_ok s' \<and> \<not> locked m' \<and> owner m' = None \<and>
    \<not> priority_boosted m' \<and> priority (task_pool s' ! ow) = p \<and>
    waitqs s' = (waitqs s)[m_waiters m := tl (waitqs s ! m_waiters m)]"
    by (rule unlock_spec) (use I in auto)
  then show ?thesis using I by blast
qed

theorem mutex_inheritance_witness:
  "\<exists>s m s' m'. mutex_held s m 0 40 {2} \<and> priority (task_pool s ! 0) \<le> 32 \<and>
     mutex_unlock s m = Inr (s', m') \<and> priority (task_pool s' ! 0) = 40"
proof -
  let ?d = "sched_demo (pmm_reset 0 0) 0"
  let ?m = "take_mutex ?d 0 (mutex_init 0)"
  have ok: "sched_ok ?d" using demo_inv unfolding sched_ok_def by blast
  have pr: "priority (task_pool ?d ! 0) = 40" "priority (task_pool ?d ! 2) = 32" by (simp_all add: demo_nth)
  have "mutex_lock ?d (mutex_init 0) = Inr (?d, ?m, Acquired)" by (simp add: mutex_lock_def demo_facts mutex_init_def)
  then have h0: "mutex_held ?d ?m 0 40 {}"
    using mutex_held.acquired [OF ok, of "mutex_init 0" 0] pr by (simp add: demo_facts mutex_init_def)
  have w: "waked ?d demo_places = demo_places" by (auto simp: waked_def demo_places_def fun_eq_iff)
  obtain s1 n where s1: "schedule ?d = Inr s1" "current s1 = Some n" "best_choice ?d demo_places n" "kept ?d s1"
    "sched_inv s1 (demo_places(0 := dest ?d 0, n := Running))"
    using schedule_spec [OF sched_invD(1) [OF demo_inv demo_facts(1)] demo_facts(3), of "pmm_reset 0 0" 0]
      sched_invD(4) [OF demo_inv demo_facts(1)] unfolding w by auto
  have "\<exists>t p. demo_places t = Ready p" by (intro exI [of _ 2] exI [of _ 32]) (simp add: demo_places_def)
  moreover have "demo_places t \<noteq> EDF" for t by (simp add: demo_places_def)
  ultimately obtain q where "demo_places n = Ready q" using s1(3) unfolding best_choice_def by (auto split: if_splits)
  then have n: "n = 2" by (auto simp: demo_places_def split: if_splits)
  have h1: "mutex_held s1 ?m 0 40 {}" by (rule mutex_held.rescheduled [OF h0 demo_facts(1,3) s1(1)])
  have "stack_phys (task_pool s1 ! 2) = 0" "idle s1 = Some 1" "waitqs s1 = [[3]]"
    using s1(4) kept_fields(4) [OF s1(4), of 2] by (simp_all add: kept_def demo_facts demo_nth empty_task_def)
  then have mb: "may_block s1 2" "0 < length (waitqs s1)" using s1(2) n by (simp_all add: may_block_def stack_canary_ok_def)
  have p1: "priority (task_pool s1 ! 0) = 40" "priority (task_pool s1 ! 2) = 32" using kept_fields(2) [OF s1(4)] pr by simp_all
  let ?s = "fst (boost_owner s1 2 ?m)"
  have ok1: "sched_ok s1" using s1(5) unfolding sched_ok_def by blast
  then have "sched_ok ?s" "may_block ?s 2" "0 < length (waitqs ?s)" "current ?s = Some 2"
    using mb p1 s1(2) n ok_set_priority [OF ok1, of 32] by (simp_all add: boost_owner_def take_mutex_def)
  then obtain s2 where s2: "wq_wait ?s 0 = Inr s2" "current ?s = Some 2" using wait_keeps by blast
  then have "mutex_lock s1 ?m = Inr (s2, snd (boost_owner s1 2 ?m), Blocked)"
    using s1(2) n by (cases "boost_owner s1 2 ?m") (simp add: mutex_lock_def take_mutex_def mutex_init_def wq_wait_def)
  from mutex_held.contended [OF h1 mb(1) _ this] have h2: "mutex_held s2 (snd (boost_owner s1 2 ?m)) 0 40 {2}" by simp
  have "priority (task_pool ?s ! 2) = 32" using p1 by (simp add: boost_owner_def take_mutex_def task_upd_task)
  moreover have "\<forall>t. priority (task_pool s2 ! t) = priority (task_pool ?s ! t)"
    using wait_keeps [OF \<open>sched_ok ?s\<close> \<open>may_block ?s 2\<close> \<open>0 < length (waitqs ?s)\<close>] s2(1) by auto
  ultimately show ?thesis using mutex_inheritance [OF h2] h2 by fastforce
qed

text \<open>An event with automatic reset lets through at most one waiter per signal, whatever the
  order of signals, waits and resets.\<close>

theorem kevent_auto_reset_bound:
  assumes "kevent_runs s e g r" "ke_type e = KEVENT_AUTO_RESET"
  shows "r \<le> g \<and> (signaled e \<longrightarrow> r < g)"
  using kevent_runs_inv [OF assms(1)] assms(2) by (auto split: if_splits)

theorem kevent_auto_reset_bound_witness:
  "\<exists>s' e. kevent_signal (sched_demo (pmm_reset 0 0) 0) (kevent_init 0 KEVENT_AUTO_RESET) = Inr (s', e) \<and>
     kevent_runs s' e 1 0 \<and> waitqs s' = [[]] \<and> (0::nat) < 1"
proof -
  let ?d = "sched_demo (pmm_reset 0 0) 0" and ?e = "kevent_init 0 KEVENT_AUTO_RESET"
  have ok: "sched_ok ?d" using demo_inv unfolding sched_ok_def by blast
  then obtain s' where s': "wq_wake_one ?d 0 = Inr (s', True)" "waitqs s' = [[]]"
    using wq.wake_law [OF ok, of 0] by (auto simp: demo_facts)
  then have g: "kevent_signal ?d ?e = Inr (s', ?e\<lparr>signaled := True\<rparr>)" by (simp add: kevent_signal_def kevent_init_def)
  have "kevent_runs ?d ?e 0 0" by (rule kevent_runs.k_start [OF ok]) (simp add: demo_facts)
  from kevent_runs.k_signal [OF this g] have r: "kevent_runs s' (?e\<lparr>signaled := True\<rparr>) 1 0" by simp
  from kevent_auto_reset_bound [OF this] show ?thesis using g r s'(2) by (auto simp: kevent_init_def)
qed

end
