(* ===== verification/Fifo.thy ===== *)
theory Fifo
  imports Prelude
begin

text \<open>
  The contract of the kernel's bounded first-in first-out buffers. It is provided by the byte
  ring of \<open>kernel/ringbuf.h\<close>, the key buffer of \<open>kernel/kb.c\<close> and the message store of
  \<open>kernel/msgqueue.c\<close>; what clients rely on (order is kept, nothing is lost or invented) is
  proved once here.
\<close>

primrec puts :: "('q \<Rightarrow> 'a \<Rightarrow> 'q option) \<Rightarrow> 'q \<Rightarrow> 'a list \<Rightarrow> 'q option" where
  "puts put q [] = Some q"
| "puts put q (x # xs) = (case put q x of None \<Rightarrow> None | Some q' \<Rightarrow> puts put q' xs)"

primrec gets :: "('q \<Rightarrow> ('a \<times> 'q) option) \<Rightarrow> 'q \<Rightarrow> nat \<Rightarrow> ('a list \<times> 'q) option" where
  "gets get q 0 = Some ([], q)"
| "gets get q (Suc n) = (case get q of None \<Rightarrow> None
     | Some (x, q') \<Rightarrow> (case gets get q' n of None \<Rightarrow> None | Some (xs, q'') \<Rightarrow> Some (x # xs, q'')))"

locale bounded_fifo =
  fixes inv :: "'q \<Rightarrow> bool"
    and contents :: "'q \<Rightarrow> 'a list"
    and cap :: "'q \<Rightarrow> nat"
    and put :: "'q \<Rightarrow> 'a \<Rightarrow> 'q option"
    and get :: "'q \<Rightarrow> ('a \<times> 'q) option"
  assumes within: "inv q \<Longrightarrow> length (contents q) \<le> cap q"
    and put_room: "inv q \<Longrightarrow> length (contents q) < cap q \<Longrightarrow>
      \<exists>q'. put q x = Some q' \<and> inv q' \<and> cap q' = cap q \<and> contents q' = contents q @ [x]"
    and put_full: "inv q \<Longrightarrow> length (contents q) = cap q \<Longrightarrow> put q x = None"
    and get_empty: "inv q \<Longrightarrow> contents q = [] \<Longrightarrow> get q = None"
    and get_head: "inv q \<Longrightarrow> contents q = x # xs \<Longrightarrow>
      \<exists>q'. get q = Some (x, q') \<and> inv q' \<and> cap q' = cap q \<and> contents q' = xs"
begin

lemma puts_room:
  assumes "inv q" "length (contents q) + length xs \<le> cap q"
  shows "\<exists>q'. puts put q xs = Some q' \<and> inv q' \<and> cap q' = cap q \<and> contents q' = contents q @ xs"
  using assms
proof (induction xs arbitrary: q)
  case (Cons x xs)
  then obtain q1 where q1: "put q x = Some q1" "inv q1" "cap q1 = cap q" "contents q1 = contents q @ [x]"
    using put_room [of q x] by auto
  with Cons.IH [of q1] Cons.prems show ?case by auto
qed simp

lemma puts_overflow:
  assumes "inv q" "cap q < length (contents q) + length xs"
  shows "puts put q xs = None"
  using assms
proof (induction xs arbitrary: q)
  case Nil
  then show ?case using within [of q] by simp
next
  case (Cons x xs)
  show ?case
  proof (cases "length (contents q) = cap q")
    case True
    then show ?thesis using put_full [of q x] Cons.prems(1) by simp
  next
    case False
    then have "length (contents q) < cap q" using within [OF Cons.prems(1)] by simp
    then obtain q1 where "put q x = Some q1" "inv q1" "cap q1 = cap q" "contents q1 = contents q @ [x]"
      using put_room [OF Cons.prems(1), of x] by auto
    then show ?thesis using Cons.IH [of q1] Cons.prems by simp
  qed
qed

lemma gets_prefix:
  assumes "inv q" "contents q = xs @ ys"
  shows "\<exists>q'. gets get q (length xs) = Some (xs, q') \<and> inv q' \<and> cap q' = cap q \<and> contents q' = ys"
  using assms
proof (induction xs arbitrary: q)
  case (Cons x xs)
  then obtain q1 where q1: "get q = Some (x, q1)" "inv q1" "cap q1 = cap q" "contents q1 = xs @ ys"
    using get_head [of q x "xs @ ys"] by auto
  with Cons.IH [of q1] show ?case by auto
qed simp

lemma fifo_order:
  assumes "inv q" "contents q = []" "length xs \<le> cap q"
  shows "\<exists>q1 q2. puts put q xs = Some q1 \<and> gets get q1 (length xs) = Some (xs, q2) \<and>
    inv q2 \<and> contents q2 = []"
proof -
  obtain q1 where q1: "puts put q xs = Some q1" "inv q1" "contents q1 = xs"
    using puts_room [OF assms(1), of xs] assms(2,3) by auto
  with gets_prefix [of q1 xs "[]"] show ?thesis by auto
qed

end

end
