(* ===== verification/Msgqueue.thy ===== *)
theory Msgqueue
  imports Sync Fifo
begin

text \<open>
  The message queue of \<open>kernel/msgqueue.c\<close>: sixteen slots of at most 64 bytes, used as a ring,
  with a wait queue for senders and one for receivers. As in \<open>Sync\<close>, the blocking calls are
  modelled by one pass of their loop; queueing the caller and the call of \<open>schedule\<close>, between which the
  code releases the lock of the queue, are one step. The caller's buffer is a list of bytes.
\<close>

definition MQ_MSG_SIZE :: u32 where "MQ_MSG_SIZE = 64"
definition MQ_CAPACITY :: u32 where "MQ_CAPACITY = 16"

record mq_message =
  msg_data :: "u8 list"
  msg_len :: u32
  sender_tid :: u32

record msg_queue =
  mq_buf :: "mq_message list"
  mq_head :: u32
  mq_tail :: u32
  mq_count :: u32
  send_wq :: nat
  recv_wq :: nat

definition mq_init :: "mq_message list \<Rightarrow> nat \<Rightarrow> nat \<Rightarrow> msg_queue" where
  "mq_init buf sw rw = \<lparr>mq_buf = buf, mq_head = 0, mq_tail = 0, mq_count = 0, send_wq = sw, recv_wq = rw\<rparr>"

definition mq_enqueue :: "msg_queue \<Rightarrow> u8 list \<Rightarrow> u32 \<Rightarrow> u32 \<Rightarrow> msg_queue" where
  "mq_enqueue q data len sender =
     (let i = unat (mq_tail q);
          copy_len = (if MQ_MSG_SIZE < len then MQ_MSG_SIZE else len);
          msg = mq_buf q ! i;
          msg' = \<lparr>msg_data = take (unat copy_len) data @ drop (unat copy_len) (msg_data msg), msg_len = copy_len,
                  sender_tid = sender\<rparr>
      in q\<lparr>mq_buf := (mq_buf q)[i := msg'], mq_tail := (mq_tail q + 1) mod MQ_CAPACITY, mq_count := mq_count q + 1\<rparr>)"

definition mq_dequeue :: "msg_queue \<Rightarrow> msg_queue \<times> u8 list \<times> u32 \<times> u32" where
  "mq_dequeue q =
     (let msg = mq_buf q ! unat (mq_head q)
      in (q\<lparr>mq_head := (mq_head q + 1) mod MQ_CAPACITY, mq_count := mq_count q - 1\<rparr>,
          take (unat (msg_len msg)) (msg_data msg), msg_len msg, sender_tid msg))"

datatype 'a mq_outcome = Returned int 'a | MqBlocked

definition mq_send :: "sched \<Rightarrow> msg_queue \<Rightarrow> u8 list \<Rightarrow> u32 \<Rightarrow> (sched \<times> msg_queue \<times> unit mq_outcome) res" where
  "mq_send s q data len =
     (if MQ_MSG_SIZE < len then Inr (s, q, Returned (- EINVAL) ())
      else case current s of
        None \<Rightarrow> Inl Fault
      | Some cur \<Rightarrow>
          if mq_count q < MQ_CAPACITY then
            let q1 = mq_enqueue q data len (tid (task_pool s ! cur))
            in bnd (wq_wake_one s (recv_wq q)) (\<lambda>(s1, _). Inr (s1, q1, Returned 0 ()))
          else bnd (schedule (push_waiter s (send_wq q) cur)) (\<lambda>s1. Inr (s1, q, MqBlocked)))"

definition mq_recv :: "sched \<Rightarrow> msg_queue \<Rightarrow> (sched \<times> msg_queue \<times> (u8 list \<times> u32 \<times> u32) mq_outcome) res" where
  "mq_recv s q =
     (if 0 < mq_count q then
        case mq_dequeue q of (q1, r) \<Rightarrow> bnd (wq_wake_one s (send_wq q)) (\<lambda>(s1, _). Inr (s1, q1, Returned 0 r))
      else case current s of
          None \<Rightarrow> Inl Fault
        | Some cur \<Rightarrow> bnd (schedule (push_waiter s (recv_wq q) cur)) (\<lambda>s1. Inr (s1, q, MqBlocked)))"

definition mq_trysend :: "sched \<Rightarrow> msg_queue \<Rightarrow> u8 list \<Rightarrow> u32 \<Rightarrow> (sched \<times> msg_queue \<times> int) res" where
  "mq_trysend s q data len =
     (if MQ_MSG_SIZE < len then Inr (s, q, - EINVAL)
      else if MQ_CAPACITY \<le> mq_count q then Inr (s, q, - EAGAIN)
      else case current s of
        None \<Rightarrow> Inl Fault
      | Some cur \<Rightarrow>
          let q1 = mq_enqueue q data len (tid (task_pool s ! cur))
          in bnd (wq_wake_one s (recv_wq q)) (\<lambda>(s1, _). Inr (s1, q1, 0)))"

definition mq_tryrecv :: "sched \<Rightarrow> msg_queue \<Rightarrow> (sched \<times> msg_queue \<times> int \<times> (u8 list \<times> u32 \<times> u32) option) res" where
  "mq_tryrecv s q =
     (if mq_count q = 0 then Inr (s, q, - EAGAIN, None)
      else case mq_dequeue q of (q1, r) \<Rightarrow> bnd (wq_wake_one s (send_wq q)) (\<lambda>(s1, _). Inr (s1, q1, 0, Some r)))"

subsection \<open>The store as a bounded queue\<close>

definition mq_inv :: "msg_queue \<Rightarrow> bool" where
  "mq_inv q \<longleftrightarrow> length (mq_buf q) = 16 \<and> (\<forall>m \<in> set (mq_buf q). length (msg_data m) = 64) \<and>
     unat (mq_head q) < 16 \<and> unat (mq_count q) \<le> 16 \<and>
     unat (mq_tail q) = (unat (mq_head q) + unat (mq_count q)) mod 16 \<and>
     (\<forall>i < unat (mq_count q). unat (msg_len (mq_buf q ! ((unat (mq_head q) + i) mod 16))) \<le> 64)"

definition mq_view :: "mq_message \<Rightarrow> u8 list \<times> u32" where
  "mq_view m = (take (unat (msg_len m)) (msg_data m), sender_tid m)"

definition mq_contents :: "msg_queue \<Rightarrow> (u8 list \<times> u32) list" where
  "mq_contents q = map (\<lambda>i. mq_view (mq_buf q ! ((unat (mq_head q) + i) mod 16))) [0..<unat (mq_count q)]"

lemma length_mq_contents [simp]: "length (mq_contents q) = unat (mq_count q)"
  by (simp add: mq_contents_def)

lemma unat_succ_mod: "unat (w :: u32) < 16 \<Longrightarrow> unat ((w + 1) mod 16) = (unat w + 1) mod 16"
  by (simp add: unat_mod unat_word_ariths)

lemma unat_inc_u32: "unat (w :: u32) < 2 ^ 32 - 1 \<Longrightarrow> unat (w + 1) = unat w + 1"
  by (simp add: unat_word_ariths)

lemma unat_le_64: "unat (len :: u32) \<le> 64 \<longleftrightarrow> \<not> MQ_MSG_SIZE < len"
  by (auto simp: MQ_MSG_SIZE_def word_less_nat_alt)

lemma slot_neq: "i < c \<Longrightarrow> c < 16 \<Longrightarrow> (h + i) mod 16 \<noteq> (h + c) mod (16 :: nat)"
proof
  assume a: "i < c" "c < 16" "(h + i) mod 16 = (h + c) mod 16"
  then have "16 dvd (h + c) - (h + i)" using mod_eq_dvd_iff_nat [of "h + i" "h + c" 16] by simp
  then show False using a by (auto dest: dvd_imp_le)
qed

lemma mq_enqueue_spec:
  assumes inv: "mq_inv q" and room: "unat (mq_count q) < 16" and len: "unat len \<le> 64" "unat len \<le> length data"
  shows "mq_inv (mq_enqueue q data len sender)"
    "mq_contents (mq_enqueue q data len sender) = mq_contents q @ [(take (unat len) data, sender)]"
    "unat (mq_count (mq_enqueue q data len sender)) = unat (mq_count q) + 1"
proof -
  let ?h = "unat (mq_head q)" and ?c = "unat (mq_count q)" and ?t = "unat (mq_tail q)"
  note I = inv [unfolded mq_inv_def]
  have t: "?t = (?h + ?c) mod 16" "?t < 16" using I by simp_all
  define old where "old = mq_buf q ! ?t"
  define msg where "msg = \<lparr>msg_data = take (unat len) data @ drop (unat len) (msg_data old), msg_len = len, sender_tid = sender\<rparr>"
  let ?q = "mq_enqueue q data len sender"
  have q: "?q = q\<lparr>mq_buf := (mq_buf q)[?t := msg], mq_tail := (mq_tail q + 1) mod 16, mq_count := mq_count q + 1\<rparr>"
    using len(1) by (simp add: mq_enqueue_def msg_def old_def Let_def MQ_CAPACITY_def unat_le_64)
  show cnt: "unat (mq_count ?q) = ?c + 1" using room by (simp add: q unat_inc_u32)
  have "old \<in> set (mq_buf q)" using I t(2) by (simp add: old_def)
  then have "length (msg_data old) = 64" using I by blast
  then have ml: "length (msg_data msg) = 64" using len by (simp add: msg_def)
  have v: "mq_view msg = (take (unat len) data, sender)" using len by (simp add: mq_view_def msg_def)
  have at: "mq_buf ?q ! ((?h + i) mod 16) = (if i < ?c then mq_buf q ! ((?h + i) mod 16) else msg)" if "i < ?c + 1" for i
  proof (cases "i < ?c")
    case True
    then show ?thesis using slot_neq [OF True room, of ?h] t by (simp add: q nth_upd)
  next
    case False
    then have "i = ?c" using that by simp
    then show ?thesis using I t by (simp add: q)
  qed
  have hq: "mq_head ?q = mq_head q" by (simp add: q)
  show "mq_inv ?q"
    unfolding mq_inv_def cnt hq
  proof (intro conjI)
    show "length (mq_buf ?q) = 16" using I by (simp add: q)
    show "\<forall>m \<in> set (mq_buf ?q). length (msg_data m) = 64"
      using I ml set_update_subset_insert [of "mq_buf q" ?t msg] by (auto simp: q)
    show "unat (mq_tail ?q) = (?h + (?c + 1)) mod 16"
      using t by (simp add: q unat_succ_mod mod_Suc_eq)
    show "\<forall>i < ?c + 1. unat (msg_len (mq_buf ?q ! ((?h + i) mod 16))) \<le> 64"
      using at I len(1) by (auto simp: msg_def)
  qed (use I room in auto)
  have "mq_contents ?q = map (\<lambda>i. mq_view (mq_buf ?q ! ((?h + i) mod 16))) ([0..<?c] @ [?c])"
    unfolding mq_contents_def cnt hq by simp
  also have "\<dots> = mq_contents q @ [mq_view msg]" using at by (auto simp: mq_contents_def)
  finally show "mq_contents ?q = mq_contents q @ [(take (unat len) data, sender)]" using v by simp
qed

lemma mq_dequeue_spec:
  assumes inv: "mq_inv q" and ne: "0 < unat (mq_count q)"
  obtains q' d len sender where "mq_dequeue q = (q', d, len, sender)" "mq_inv q'" "unat len = length d" "length d \<le> 64"
    "mq_contents q = (d, sender) # mq_contents q'" "unat (mq_count q') + 1 = unat (mq_count q)"
    "send_wq q' = send_wq q" "recv_wq q' = recv_wq q"
proof -
  let ?h = "unat (mq_head q)" and ?c = "unat (mq_count q)"
  note I = inv [unfolded mq_inv_def]
  let ?m = "mq_buf q ! ?h"
  let ?q = "q\<lparr>mq_head := (mq_head q + 1) mod 16, mq_count := mq_count q - 1\<rparr>"
  have cnt: "unat (mq_count ?q) = ?c - 1" using ne by (simp add: unat_minus_one unat_eq_0 [symmetric] del: unat_eq_0)
  have hq: "unat (mq_head ?q) = (?h + 1) mod 16" using I by (simp add: unat_succ_mod)
  have sh: "(unat (mq_head ?q) + i) mod 16 = (?h + Suc i) mod 16" for i unfolding hq by (simp add: mod_simps)
  have run: "mq_dequeue q = (?q, take (unat (msg_len ?m)) (msg_data ?m), msg_len ?m, sender_tid ?m)"
    by (simp add: mq_dequeue_def Let_def MQ_CAPACITY_def)
  have m: "unat (msg_len ?m) \<le> 64" "length (msg_data ?m) = 64" using I ne by (auto dest: spec [of _ 0])
  have inv': "mq_inv ?q"
    unfolding mq_inv_def cnt sh
  proof (intro conjI)
    show "\<forall>i < ?c - 1. unat (msg_len (mq_buf ?q ! ((?h + Suc i) mod 16))) \<le> 64"
    proof (intro allI impI)
      fix i assume "i < ?c - 1"
      then have "Suc i < ?c" by simp
      then have "unat (msg_len (mq_buf q ! ((?h + Suc i) mod 16))) \<le> 64" using I by blast
      then show "unat (msg_len (mq_buf ?q ! ((?h + Suc i) mod 16))) \<le> 64" by simp
    qed
    show "unat (mq_tail ?q) = (?h + Suc (?c - 1)) mod 16" using I ne by simp
  qed (use I hq in auto)
  have "[0..<?c] = 0 # map Suc [0..<?c - 1]" using ne by (simp add: upt_conv_Cons map_Suc_upt)
  then have "mq_contents q = mq_view ?m # mq_contents ?q"
    unfolding mq_contents_def sh cnt using I by simp
  then show thesis using that [OF run inv'] m cnt ne by (simp add: mq_view_def)
qed

typedef mq_payload = "{d :: u8 list. length d \<le> 64}"
  by (rule exI [of _ "[]"]) simp

definition mq_put1 :: "msg_queue \<Rightarrow> mq_payload \<times> u32 \<Rightarrow> msg_queue option" where
  "mq_put1 q x = (if mq_count q < MQ_CAPACITY
     then Some (mq_enqueue q (Rep_mq_payload (fst x)) (of_nat (length (Rep_mq_payload (fst x)))) (snd x)) else None)"

definition mq_get1 :: "msg_queue \<Rightarrow> ((mq_payload \<times> u32) \<times> msg_queue) option" where
  "mq_get1 q = (if mq_count q = 0 then None
     else case mq_dequeue q of (q', d, len, sender) \<Rightarrow> Some ((Abs_mq_payload d, sender), q'))"

definition mq_items :: "msg_queue \<Rightarrow> (mq_payload \<times> u32) list" where
  "mq_items q = map (\<lambda>(d, sender). (Abs_mq_payload d, sender)) (mq_contents q)"

lemma mq_room: "mq_count q < MQ_CAPACITY \<longleftrightarrow> unat (mq_count q) < 16"
  by (simp add: MQ_CAPACITY_def word_less_nat_alt)

interpretation mq: bounded_fifo mq_inv mq_items "\<lambda>q. 16" mq_put1 mq_get1
proof
  fix q assume inv: "mq_inv q"
  show "length (mq_items q) \<le> 16" using inv by (simp add: mq_items_def mq_inv_def)
  fix x :: "mq_payload \<times> u32"
  let ?d = "Rep_mq_payload (fst x)"
  have d: "length ?d \<le> 64" using Rep_mq_payload [of "fst x"] by simp
  then have l: "unat (of_nat (length ?d) :: u32) = length ?d" by (simp add: unat_of_nat)
  show "\<exists>q'. mq_put1 q x = Some q' \<and> mq_inv q' \<and> (16 :: nat) = 16 \<and> mq_items q' = mq_items q @ [x]"
    if "length (mq_items q) < 16"
    using that mq_enqueue_spec [OF inv, of "of_nat (length ?d)" ?d "snd x"] d l
    by (auto simp: mq_items_def mq_put1_def mq_room Rep_mq_payload_inverse)
  show "mq_put1 q x = None" if "length (mq_items q) = 16" using that by (simp add: mq_items_def mq_put1_def mq_room)
next
  fix q assume inv: "mq_inv q"
  have z: "mq_count q = 0 \<longleftrightarrow> unat (mq_count q) = 0" by (simp add: unat_eq_0)
  show "mq_get1 q = None" if "mq_items q = []" using that length_mq_contents [of q] by (simp add: mq_items_def mq_get1_def unat_eq_0 [symmetric] del: length_mq_contents)
  fix x xs assume c: "mq_items q = x # xs"
  then have ne: "0 < unat (mq_count q)" using length_mq_contents [of q] by (auto simp: mq_items_def simp del: length_mq_contents)
  obtain q' d len sender where "mq_dequeue q = (q', d, len, sender)" "mq_inv q'" "mq_contents q = (d, sender) # mq_contents q'"
    by (rule mq_dequeue_spec [OF inv ne])
  then show "\<exists>q'. mq_get1 q = Some (x, q') \<and> mq_inv q' \<and> (16 :: nat) = 16 \<and> mq_items q' = xs"
    using c ne z by (auto simp: mq_items_def mq_get1_def)
qed

subsection \<open>Senders and receivers\<close>

text \<open>All tasks that share a queue, in any order. The ghost components are the messages accepted and
  the messages delivered so far, each with the sender's task id. A sender's buffer has at least the
  length it announces.\<close>

inductive mq_runs :: "sched \<Rightarrow> msg_queue \<Rightarrow> (u8 list \<times> u32) list \<Rightarrow> (u8 list \<times> u32) list \<Rightarrow> bool" where
  mq_start: "sched_ok s \<Longrightarrow> sw < length (waitqs s) \<Longrightarrow> rw < length (waitqs s) \<Longrightarrow>
    mq_inv (mq_init buf sw rw) \<Longrightarrow> mq_runs s (mq_init buf sw rw) [] []"
| mq_sends: "mq_runs s q ss rs \<Longrightarrow> may_block s c \<Longrightarrow> unat len \<le> length d \<Longrightarrow> mq_send s q d len = Inr (s', q', x) \<Longrightarrow>
    mq_runs s' q' (if x = Returned 0 () then ss @ [(take (unat len) d, tid (task_pool s ! c))] else ss) rs"
| mq_recvs: "mq_runs s q ss rs \<Longrightarrow> may_block s c \<Longrightarrow> mq_recv s q = Inr (s', q', x) \<Longrightarrow>
    mq_runs s' q' ss (case x of Returned r (d, len, sender) \<Rightarrow> rs @ [(d, sender)] | MqBlocked \<Rightarrow> rs)"
| mq_trysends: "mq_runs s q ss rs \<Longrightarrow> current s = Some c \<Longrightarrow> unat len \<le> length d \<Longrightarrow> mq_trysend s q d len = Inr (s', q', r) \<Longrightarrow>
    mq_runs s' q' (if r = 0 then ss @ [(take (unat len) d, tid (task_pool s ! c))] else ss) rs"
| mq_tryrecvs: "mq_runs s q ss rs \<Longrightarrow> mq_tryrecv s q = Inr (s', q', r, x) \<Longrightarrow>
    mq_runs s' q' ss (case x of Some (d, len, sender) \<Rightarrow> rs @ [(d, sender)] | None \<Rightarrow> rs)"
| mq_resched: "mq_runs s q ss rs \<Longrightarrow> current s = Some c \<Longrightarrow> stack_canary_ok s c \<Longrightarrow> schedule s = Inr s' \<Longrightarrow>
    mq_runs s' q ss rs"

lemma mq_enqueue_wqs [simp]:
  "send_wq (mq_enqueue q d l t) = send_wq q" "recv_wq (mq_enqueue q d l t) = recv_wq q"
  by (simp_all add: mq_enqueue_def Let_def)

definition mq_good :: "sched \<Rightarrow> msg_queue \<Rightarrow> bool" where
  "mq_good s q \<longleftrightarrow> sched_ok s \<and> mq_inv q \<and> send_wq q < length (waitqs s) \<and> recv_wq q < length (waitqs s)"

lemma mq_good_wake:
  assumes "mq_good s q" "w < length (waitqs s)" "wq_wake_one s w = Inr (s', b)" "mq_inv q'" "send_wq q' = send_wq q" "recv_wq q' = recv_wq q"
  shows "mq_good s' q'"
  using assms wq.wake_law [of s w] by (auto simp: mq_good_def)

lemma mq_good_block:
  assumes "mq_good s q" "w < length (waitqs s)" "may_block s c" "current s = Some c" "schedule (push_waiter s w c) = Inr s'"
  shows "mq_good s' q"
  using assms wq.block_law [of s c w] by (auto simp: mq_good_def wq_wait_def)

lemma mq_push:
  assumes g: "mq_good s q" and r: "unat (mq_count q) < 16" and l: "\<not> MQ_MSG_SIZE < len" "unat len \<le> length d"
    and w: "wq_wake_one s (recv_wq q) = Inr (s', b)"
  shows "mq_good s' (mq_enqueue q d len t) \<and> mq_contents (mq_enqueue q d len t) = mq_contents q @ [(take (unat len) d, t)]"
  using mq_enqueue_spec [of q len d t] mq_good_wake [OF g _ w] g r l by (auto simp: mq_good_def unat_le_64)

lemma mq_pop:
  assumes g: "mq_good s q" and r: "0 < unat (mq_count q)" and w: "wq_wake_one s (send_wq q) = Inr (s', b)"
    and d: "mq_dequeue q = (q', d, len, sender)"
  shows "mq_good s' q' \<and> mq_contents q = (d, sender) # mq_contents q'"
proof -
  have inv: "mq_inv q" using g by (simp add: mq_good_def)
  obtain q1 d1 l1 s1 where "mq_dequeue q = (q1, d1, l1, s1)" "mq_inv q1" "mq_contents q = (d1, s1) # mq_contents q1"
    "send_wq q1 = send_wq q" "recv_wq q1 = recv_wq q" by (rule mq_dequeue_spec [OF inv r])
  then show ?thesis using mq_good_wake [OF g _ w, of q'] g d by (simp add: mq_good_def)
qed

lemma mq_runs_inv:
  assumes "mq_runs s q ss rs"
  shows "mq_good s q \<and> ss = rs @ mq_contents q"
  using assms
proof induction
  case (mq_start s sw rw buf)
  then show ?case by (simp add: mq_good_def mq_contents_def mq_init_def)
next
  case (mq_sends s q ss rs c len d s' q' x)
  have c: "current s = Some c" using mq_sends.hyps(2) by (simp add: may_block_def)
  show ?case
    using mq_sends.hyps(3,4) mq_sends.IH c mq_push [of s q len d s' _ "tid (task_pool s ! c)"] mq_good_block [of s q "send_wq q" c s'] mq_sends.hyps(2)
    by (auto simp: mq_send_def res_facts mq_room EINVAL_def Let_def mq_good_def split: if_splits)
next
  case (mq_recvs s q ss rs c s' q' x)
  have c: "current s = Some c" using mq_recvs.hyps(2) by (simp add: may_block_def)
  have z: "0 < mq_count q \<longleftrightarrow> 0 < unat (mq_count q)" by (simp add: word_less_nat_alt)
  show ?case
    using mq_recvs.hyps(3) mq_recvs.IH c mq_pop [of s q s'] mq_good_block [of s q "recv_wq q" c s'] mq_recvs.hyps(2)
    by (auto simp: mq_recv_def res_facts z mq_good_def split: if_splits prod.splits)
next
  case (mq_trysends s q ss rs c len d s' q' r)
  have z: "MQ_CAPACITY \<le> mq_count q \<longleftrightarrow> \<not> unat (mq_count q) < 16" using mq_room [of q] by auto
  show ?case
    using mq_trysends.hyps(2-4) mq_trysends.IH mq_push [of s q len d s' _ "tid (task_pool s ! c)"]
    by (auto simp: mq_trysend_def res_facts z EINVAL_def EAGAIN_def Let_def mq_good_def split: if_splits)
next
  case (mq_tryrecvs s q ss rs s' q' r x)
  have z: "mq_count q = 0 \<longleftrightarrow> \<not> 0 < unat (mq_count q)" by (simp add: unat_eq_0)
  show ?case
    using mq_tryrecvs.hyps(2) mq_tryrecvs.IH mq_pop [of s q s']
    by (auto simp: mq_tryrecv_def res_facts z mq_good_def split: if_splits prod.splits)
next
  case (mq_resched s q ss rs c s')
  then show ?case using schedule_law [of s c] by (auto simp: kept_def mq_good_def)
qed

subsection \<open>Properties\<close>

lemma mq_demo:
  "mq_inv (mq_init (replicate 16 \<lparr>msg_data = replicate 64 0, msg_len = 0, sender_tid = 0\<rparr>) 0 0)"
  by (auto simp: mq_inv_def mq_init_def)

text \<open>C24: messages are delivered in order, unaltered and exactly once. Whatever senders and
  receivers do, blocking or not, and in whatever order they run, the messages accepted so far are
  the messages delivered so far followed by the at most sixteen messages in the queue, each with
  the bytes and the sender it was given.\<close>

theorem mq_delivery:
  assumes "mq_runs s q ss rs"
  shows "ss = rs @ mq_contents q \<and> length (mq_contents q) \<le> 16"
  using mq_runs_inv [OF assms] by (auto simp: mq_good_def mq_inv_def)

theorem mq_delivery_witness:
  "\<exists>s q. mq_runs s q [([1, 2, 3], 0)] [] \<and> mq_contents q = [([1, 2, 3], 0)]"
proof -
  let ?d = "sched_demo (pmm_reset 0 0) 0"
  let ?q = "mq_init (replicate 16 \<lparr>msg_data = replicate 64 0, msg_len = 0, sender_tid = 0\<rparr>) 0 0"
  have ok: "sched_ok ?d" using demo_inv unfolding sched_ok_def by blast
  have r: "mq_runs ?d ?q [] []" by (rule mq_runs.mq_start [OF ok]) (simp_all add: demo_facts mq_demo)
  obtain s' b where w: "wq_wake_one ?d 0 = Inr (s', b)" using wq.wake_law [OF ok, of 0] by (auto simp: demo_facts)
  obtain q' where t: "mq_trysend ?d ?q [1, 2, 3] 3 = Inr (s', q', 0)"
    using w by (simp add: mq_trysend_def demo_facts MQ_MSG_SIZE_def MQ_CAPACITY_def mq_init_def)
  have "tid (task_pool ?d ! 0) = 0" by (simp add: demo_nth empty_task_def)
  then have "mq_runs s' q' [([1, 2, 3], 0)] []"
    using mq_runs.mq_trysends [OF r demo_facts(1) _ t] by simp
  with mq_delivery [OF this] show ?thesis by auto
qed

text \<open>The boundary cases. A message that is too long is refused, sending to a full queue and
  receiving from an empty one without blocking fail with \<open>-EAGAIN\<close>, all without any change;
  the blocking calls sleep on the sender's or the receiver's wait queue instead.\<close>

theorem mq_errors:
  assumes "sched_ok s" "may_block s c" "send_wq q < length (waitqs s)" "recv_wq q < length (waitqs s)"
  shows "(64 < len \<longrightarrow> mq_send s q d len = Inr (s, q, Returned (- EINVAL) ()) \<and> mq_trysend s q d len = Inr (s, q, - EINVAL)) \<and>
    (len \<le> 64 \<and> mq_count q = 16 \<longrightarrow> mq_trysend s q d len = Inr (s, q, - EAGAIN) \<and>
       (\<exists>s'. mq_send s q d len = Inr (s', q, MqBlocked) \<and> waitqs s' = (waitqs s)[send_wq q := waitqs s ! send_wq q @ [c]])) \<and>
    (mq_count q = 0 \<longrightarrow> mq_tryrecv s q = Inr (s, q, - EAGAIN, None) \<and>
       (\<exists>s'. mq_recv s q = Inr (s', q, MqBlocked) \<and> waitqs s' = (waitqs s)[recv_wq q := waitqs s ! recv_wq q @ [c]]))"
proof -
  have c: "current s = Some c" using assms(2) by (simp add: may_block_def)
  obtain s1 where s1: "schedule (push_waiter s (send_wq q) c) = Inr s1" "waitqs s1 = (waitqs s)[send_wq q := waitqs s ! send_wq q @ [c]]"
    using wq.block_law [OF assms(1-3)] c by (auto simp: wq_wait_def)
  obtain s2 where s2: "schedule (push_waiter s (recv_wq q) c) = Inr s2" "waitqs s2 = (waitqs s)[recv_wq q := waitqs s ! recv_wq q @ [c]]"
    using wq.block_law [OF assms(1,2,4)] c by (auto simp: wq_wait_def)
  show ?thesis
    using c s1 s2 by (auto simp: mq_send_def mq_trysend_def mq_tryrecv_def mq_recv_def MQ_MSG_SIZE_def MQ_CAPACITY_def)
qed

theorem mq_errors_witness:
  "\<exists>s'. mq_recv (sched_demo (pmm_reset 0 0) 0) (mq_init [] 0 0) = Inr (s', mq_init [] 0 0, MqBlocked) \<and> waitqs s' = [[3, 0]]"
proof -
  let ?d = "sched_demo (pmm_reset 0 0) 0"
  have ok: "sched_ok ?d" using demo_inv unfolding sched_ok_def by blast
  have mb: "may_block ?d 0" by (simp add: may_block_def demo_facts)
  show ?thesis using mq_errors [OF ok mb, of "mq_init [] 0 0"] by (simp add: demo_facts mq_init_def)
qed

end
