(* ===== verification/Memory.thy ===== *)
theory Memory
  imports Pmm_Spec
begin

text \<open>
  The address macros of \<open>kernel/memory.h\<close> and facts about page-aligned addresses that the
  page tables and the kernel heap share.
\<close>

definition ALIGN_UP :: "u64 \<Rightarrow> u64 \<Rightarrow> u64" where
  "ALIGN_UP a n = (a + n - 1) AND NOT (n - 1)"

definition ALIGN_DOWN :: "u64 \<Rightarrow> u64 \<Rightarrow> u64" where
  "ALIGN_DOWN a n = a AND NOT (n - 1)"

definition PAGE_ALIGN_DOWN :: "u64 \<Rightarrow> u64" where
  "PAGE_ALIGN_DOWN a = ALIGN_DOWN a PAGE_SIZE"

definition IS_PAGE_ALIGNED :: "u64 \<Rightarrow> bool" where
  "IS_PAGE_ALIGNED a \<longleftrightarrow> a AND (PAGE_SIZE - 1) = 0"

definition MB :: "u64 \<Rightarrow> u64" where
  "MB x = x * 1024 * 1024"

lemma page_mask: "(PAGE_SIZE - 1 :: u64) = mask 12"
  by (simp add: PAGE_SIZE_def mask_eq_exp_minus_1)

lemma aligned_bits: "IS_PAGE_ALIGNED a \<Longrightarrow> k < 12 \<Longrightarrow> \<not> bit a k"
proof
  assume a: "IS_PAGE_ALIGNED a" "k < 12" "bit a k"
  then have "bit (a AND mask 12) k" by (simp add: bit_and_iff bit_mask_iff bit_imp_le_length [OF a(3)] del: take_bit_eq_mask)
  then show False using a(1) by (simp add: IS_PAGE_ALIGNED_def page_mask)
qed

lemma aligned_iff_bits: "IS_PAGE_ALIGNED p \<longleftrightarrow> (\<forall>n < 12. \<not> bit p n)"
proof
  assume "\<forall>n < 12. \<not> bit p n"
  then show "IS_PAGE_ALIGNED p" unfolding IS_PAGE_ALIGNED_def page_mask
    by (intro bit_word_eqI) (auto simp: bit_and_iff bit_mask_iff)
qed (use aligned_bits in blast)

lemma aligned_dvd: "IS_PAGE_ALIGNED a \<longleftrightarrow> 4096 dvd unat a"
proof -
  have "a AND mask 12 = 0 \<longleftrightarrow> unat (take_bit 12 a) = 0" by (simp add: take_bit_eq_mask unat_eq_0)
  also have "\<dots> \<longleftrightarrow> take_bit 12 (unat a) = 0" by (simp add: unsigned_take_bit_eq)
  finally show ?thesis unfolding IS_PAGE_ALIGNED_def page_mask by (simp add: take_bit_eq_mod dvd_eq_mod_eq_0)
qed

lemma unat_plus_nat: "unat (a + of_nat k :: u64) = (unat a + k) mod 2 ^ 64"
  by (simp add: unat_word_ariths unat_of_nat mod_simps)

lemma aligned_add: "IS_PAGE_ALIGNED a \<Longrightarrow> 4096 dvd k \<Longrightarrow> IS_PAGE_ALIGNED (a + of_nat k)"
proof -
  assume a: "IS_PAGE_ALIGNED a" "4096 dvd k"
  have "4096 dvd (2 :: nat) ^ 64" by simp
  then show ?thesis using a unfolding aligned_dvd unat_plus_nat by (simp only: dvd_mod dvd_add)
qed

lemma aligned_plus: "IS_PAGE_ALIGNED p \<Longrightarrow> IS_PAGE_ALIGNED q \<Longrightarrow> IS_PAGE_ALIGNED (p + q)"
  using aligned_add [of p "unat q"] by (simp add: aligned_dvd)

lemma page_align_down: "IS_PAGE_ALIGNED (PAGE_ALIGN_DOWN a)"
  unfolding aligned_iff_bits PAGE_ALIGN_DOWN_def ALIGN_DOWN_def page_mask
  by (auto simp: bit_and_iff bit_not_iff bit_mask_iff)

end
