(* ===== verification/Vmm.thy ===== *)
theory Vmm
  imports Memory
begin

text \<open>
  The page tables of \<open>kernel/vmm.c\<close>: the four-level walk, mapping and unmapping of 4 KB pages,
  2 MB pages, translation and the write-xor-execute audit.

  Physical memory that holds page tables is a function from the physical address of a table (always
  a page frame, because \<open>PTE_ADDR_MASK\<close> clears the offset) and an index to an entry. Each
  operation is one step under \<open>vmm_lock\<close>; flushed addresses are recorded in
  \<open>tlb_flushed\<close>.
\<close>

subsection \<open>Entries and indices\<close>

definition PTE_PRESENT :: u64 where "PTE_PRESENT = push_bit 0 1"
definition PTE_WRITE :: u64 where "PTE_WRITE = push_bit 1 1"
definition PTE_HUGE :: u64 where "PTE_HUGE = push_bit 7 1"
definition PTE_GLOBAL :: u64 where "PTE_GLOBAL = push_bit 8 1"
definition PTE_NX :: u64 where "PTE_NX = push_bit 63 1"
definition PTE_ADDR_MASK :: u64 where "PTE_ADDR_MASK = 0x000FFFFFFFFFF000"

definition VMM_FLAGS_KERNEL_RX :: u64 where "VMM_FLAGS_KERNEL_RX = PTE_PRESENT OR PTE_GLOBAL"
definition VMM_FLAGS_KERNEL_RO :: u64 where "VMM_FLAGS_KERNEL_RO = PTE_PRESENT OR PTE_GLOBAL OR PTE_NX"
definition VMM_FLAGS_KERNEL_RW :: u64 where "VMM_FLAGS_KERNEL_RW = PTE_PRESENT OR PTE_WRITE OR PTE_GLOBAL OR PTE_NX"
definition VMM_FLAGS_HHDM :: u64 where "VMM_FLAGS_HHDM = PTE_PRESENT OR PTE_WRITE OR PTE_GLOBAL OR PTE_NX"

definition PML4_INDEX :: "u64 \<Rightarrow> u64" where "PML4_INDEX va = drop_bit 39 va AND 0x1FF"
definition PDPT_INDEX :: "u64 \<Rightarrow> u64" where "PDPT_INDEX va = drop_bit 30 va AND 0x1FF"
definition PD_INDEX :: "u64 \<Rightarrow> u64" where "PD_INDEX va = drop_bit 21 va AND 0x1FF"
definition PT_INDEX :: "u64 \<Rightarrow> u64" where "PT_INDEX va = drop_bit 12 va AND 0x1FF"

definition present :: "u64 \<Rightarrow> bool" where "present e \<longleftrightarrow> e AND PTE_PRESENT \<noteq> 0"
definition huge :: "u64 \<Rightarrow> bool" where "huge e \<longleftrightarrow> e AND PTE_HUGE \<noteq> 0"
definition wx :: "u64 \<Rightarrow> bool" where "wx e \<longleftrightarrow> e AND PTE_WRITE \<noteq> 0 \<and> e AND PTE_NX = 0"

record vmm_state =
  ptab :: "u64 \<Rightarrow> u64 \<Rightarrow> u64"
  pml4_phys :: u64
  vpmm :: pmm_state
  tables_allocated :: u64
  wx_enforced :: bool
  tlb_flushed :: "u64 list"

definition pte_to_phys :: "u64 \<Rightarrow> u64" where
  "pte_to_phys e = e AND PTE_ADDR_MASK"

definition set_entry :: "vmm_state \<Rightarrow> u64 \<Rightarrow> u64 \<Rightarrow> u64 \<Rightarrow> vmm_state" where
  "set_entry s t i e = s\<lparr>ptab := (ptab s)(t := (ptab s t)(i := e))\<rparr>"

subsection \<open>Operations\<close>

text \<open>\<open>pmm_alloc_pages_zero\<close> for one page: the frame is cleared through the direct map.\<close>

definition alloc_table :: "vmm_state \<Rightarrow> (vmm_state \<times> u64) res" where
  "alloc_table s = bnd (pmm_alloc_pages (vpmm s) 0)
     (\<lambda>(m, a). Inr (s\<lparr>vpmm := m, ptab := (if a = 0 then ptab s else (ptab s)(a := (\<lambda>_. 0)))\<rparr>, a))"

definition get_or_create_entry :: "vmm_state \<Rightarrow> u64 \<Rightarrow> u64 \<Rightarrow> bool \<Rightarrow> (vmm_state \<times> bool) res" where
  "get_or_create_entry s t i allocate =
     (if present (ptab s t i) then Inr (s, True)
      else if \<not> allocate then Inr (s, False)
      else bnd (alloc_table s) (\<lambda>(s1, new_table).
             kassert (new_table \<noteq> 0)
               (Inr (set_entry (s1\<lparr>tables_allocated := tables_allocated s1 + 1\<rparr>) t i
                       (new_table OR PTE_PRESENT OR PTE_WRITE), True))))"

text \<open>One level of the walk: \<open>get_or_create_entry\<close>, the assertion that it found an entry, and
  \<open>pte_to_phys\<close> of that entry.\<close>

definition descend :: "vmm_state \<Rightarrow> u64 \<Rightarrow> u64 \<Rightarrow> (vmm_state \<times> u64) res" where
  "descend s t i = bnd (get_or_create_entry s t i True)
     (\<lambda>(s1, found). kassert found (Inr (s1, pte_to_phys (ptab s1 t i))))"

definition vmm_flush_tlb :: "vmm_state \<Rightarrow> u64 \<Rightarrow> vmm_state" where
  "vmm_flush_tlb s v = s\<lparr>tlb_flushed := tlb_flushed s @ [v]\<rparr>"

definition wx_flags :: "vmm_state \<Rightarrow> u64 \<Rightarrow> u64" where
  "wx_flags s flags = (if wx_enforced s \<and> flags AND PTE_WRITE \<noteq> 0 \<and> flags AND PTE_NX = 0 then flags OR PTE_NX else flags)"

definition vmm_map_page :: "vmm_state \<Rightarrow> u64 \<Rightarrow> u64 \<Rightarrow> u64 \<Rightarrow> vmm_state res" where
  "vmm_map_page s virt phys flags =
     kassert (IS_PAGE_ALIGNED virt) (kassert (IS_PAGE_ALIGNED phys) (kassert (pml4_phys s \<noteq> 0)
       (bnd (descend s (pml4_phys s) (PML4_INDEX virt)) (\<lambda>(s1, pdpt).
        bnd (descend s1 pdpt (PDPT_INDEX virt)) (\<lambda>(s2, pd).
        bnd (descend s2 pd (PD_INDEX virt)) (\<lambda>(s3, pt).
          kassert (\<not> huge (ptab s3 pd (PD_INDEX virt)))
            (Inr (vmm_flush_tlb (set_entry s3 pt (PT_INDEX virt) (phys OR wx_flags s3 flags)) virt))))))))"

definition vmm_unmap_page :: "vmm_state \<Rightarrow> u64 \<Rightarrow> vmm_state res" where
  "vmm_unmap_page s virt =
     kassert (IS_PAGE_ALIGNED virt) (kassert (pml4_phys s \<noteq> 0)
       (let pml4e = ptab s (pml4_phys s) (PML4_INDEX virt) in
        if \<not> present pml4e then Inr s else
        let pdpte = ptab s (pte_to_phys pml4e) (PDPT_INDEX virt) in
        if \<not> present pdpte then Inr s else
        let pde = ptab s (pte_to_phys pdpte) (PD_INDEX virt) in
        if \<not> present pde then Inr s else
        if huge pde then Inr s else
        Inr (vmm_flush_tlb (set_entry s (pte_to_phys pde) (PT_INDEX virt) 0) virt)))"

definition vmm_virt_to_phys :: "vmm_state \<Rightarrow> u64 \<Rightarrow> u64" where
  "vmm_virt_to_phys s virt =
     (if pml4_phys s = 0 then 0 else
      let pml4e = ptab s (pml4_phys s) (PML4_INDEX virt) in
      if \<not> present pml4e then 0 else
      let pdpte = ptab s (pte_to_phys pml4e) (PDPT_INDEX virt) in
      if \<not> present pdpte then 0 else
      if huge pdpte then (pdpte AND PTE_ADDR_MASK) OR (virt AND 0x3FFFFFFF) else
      let pde = ptab s (pte_to_phys pdpte) (PD_INDEX virt) in
      if \<not> present pde then 0 else
      if huge pde then (pde AND PTE_ADDR_MASK) OR (virt AND 0x1FFFFF) else
      let pte = ptab s (pte_to_phys pde) (PT_INDEX virt) in
      if \<not> present pte then 0 else (pte AND PTE_ADDR_MASK) OR (virt AND 0xFFF))"

function map_range_loop :: "vmm_state \<Rightarrow> u64 \<Rightarrow> u64 \<Rightarrow> u64 \<Rightarrow> u64 \<Rightarrow> nat \<Rightarrow> vmm_state res" where
  "map_range_loop s virt phys sz flags n =
     (if unat sz \<le> n then Inr s
      else bnd (vmm_map_page s (virt + of_nat n) (phys + of_nat n) flags)
             (\<lambda>s1. map_range_loop s1 virt phys sz flags (n + 4096)))"
  by pat_completeness auto
termination
  by (relation "measure (\<lambda>(s, virt, phys, sz, flags, n). unat sz - n)") auto

declare map_range_loop.simps [simp del]

text \<open>The offset counts up to the size; it would only wrap for a size within one page of \<open>2^64\<close>.\<close>

definition vmm_map_range :: "vmm_state \<Rightarrow> u64 \<Rightarrow> u64 \<Rightarrow> u64 \<Rightarrow> u64 \<Rightarrow> vmm_state res" where
  "vmm_map_range s virt phys sz flags = map_range_loop s virt phys sz flags 0"

definition map_huge :: "vmm_state \<Rightarrow> u64 \<Rightarrow> u64 \<Rightarrow> u64 \<Rightarrow> vmm_state res" where
  "map_huge s v p flags =
     bnd (descend s (pml4_phys s) (PML4_INDEX v)) (\<lambda>(s1, pdpt).
     bnd (descend s1 pdpt (PDPT_INDEX v)) (\<lambda>(s2, pd).
       Inr (set_entry s2 pd (PD_INDEX v) (p OR flags OR PTE_HUGE))))"

function map_huge_loop :: "vmm_state \<Rightarrow> u64 \<Rightarrow> u64 \<Rightarrow> u64 \<Rightarrow> u64 \<Rightarrow> nat \<Rightarrow> vmm_state res" where
  "map_huge_loop s virt phys sz flags n =
     (if unat sz \<le> n then Inr s
      else bnd (map_huge s (virt + of_nat n) (phys + of_nat n) flags)
             (\<lambda>s1. map_huge_loop s1 virt phys sz flags (n + 0x200000)))"
  by pat_completeness auto
termination
  by (relation "measure (\<lambda>(s, virt, phys, sz, flags, n). unat sz - n)") auto

declare map_huge_loop.simps [simp del]

definition vmm_map_range_huge :: "vmm_state \<Rightarrow> u64 \<Rightarrow> u64 \<Rightarrow> u64 \<Rightarrow> u64 \<Rightarrow> vmm_state res" where
  "vmm_map_range_huge s virt phys sz flags =
     kassert (virt AND 0x1FFFFF = 0) (kassert (phys AND 0x1FFFFF = 0) (kassert (sz AND 0x1FFFFF = 0)
       (map_huge_loop s virt phys sz flags 0)))"

definition vmm_tables_count :: "vmm_state \<Rightarrow> u64" where
  "vmm_tables_count s = tables_allocated s"

subsection \<open>The audit\<close>

definition table_entries :: "vmm_state \<Rightarrow> u64 \<Rightarrow> u64 list" where
  "table_entries s t = map (\<lambda>i. ptab s t (of_nat i)) [0..<512]"

definition audit_pt :: "vmm_state \<Rightarrow> u64 \<Rightarrow> nat" where
  "audit_pt s t = length (filter (\<lambda>e. present e \<and> wx e) (table_entries s t))"

definition audit_pd :: "vmm_state \<Rightarrow> u64 \<Rightarrow> nat" where
  "audit_pd s t = sum_list (map (\<lambda>e. if \<not> present e then 0
      else if huge e then (if wx e then 1 else 0)
      else audit_pt s (pte_to_phys e)) (table_entries s t))"

definition audit_pdpt :: "vmm_state \<Rightarrow> u64 \<Rightarrow> nat" where
  "audit_pdpt s t = sum_list (map (\<lambda>e. if \<not> present e \<or> huge e then 0 else audit_pd s (pte_to_phys e)) (table_entries s t))"

definition vmm_audit_wx :: "vmm_state \<Rightarrow> u32" where
  "vmm_audit_wx s = (if pml4_phys s = 0 then 0
     else of_nat (sum_list (map (\<lambda>e. if \<not> present e then 0 else audit_pdpt s (pte_to_phys e))
            (table_entries s (pml4_phys s)))))"

definition count_pt :: "vmm_state \<Rightarrow> u64 \<Rightarrow> nat" where
  "count_pt s t = length (filter present (table_entries s t))"

text \<open>The two counters of \<open>vmm_dump_tables\<close>: 4 KB pages and 2 MB pages.\<close>

definition dump_pd :: "vmm_state \<Rightarrow> u64 \<Rightarrow> nat \<times> nat" where
  "dump_pd s t = (sum_list (map (\<lambda>e. if \<not> present e \<or> huge e then 0 else count_pt s (pte_to_phys e)) (table_entries s t)),
     length (filter (\<lambda>e. present e \<and> huge e) (table_entries s t)))"

definition dump_pdpt :: "vmm_state \<Rightarrow> u64 \<Rightarrow> nat \<times> nat" where
  "dump_pdpt s t = (let xs = map (\<lambda>e. if \<not> present e \<or> huge e then (0, 0) else dump_pd s (pte_to_phys e)) (table_entries s t)
     in (sum_list (map fst xs), sum_list (map snd xs)))"

definition vmm_dump_tables :: "vmm_state \<Rightarrow> nat \<times> nat" where
  "vmm_dump_tables s = (let xs = map (\<lambda>e. if \<not> present e then (0, 0) else dump_pdpt s (pte_to_phys e)) (table_entries s (pml4_phys s))
     in (sum_list (map fst xs), sum_list (map snd xs)))"

end
