(* ===== verification/Vmm_Proofs.thy ===== *)
theory Vmm_Proofs
  imports Vmm
begin

text \<open>
  The page tables form a tree of page frames, no table being reached by two paths. A path lists the
  indices from the last level up. Under this invariant mapping a page is an update of a partial map
  from virtual pages to entries, and the translation reads that map.
\<close>

fun tab :: "vmm_state \<Rightarrow> u64 list \<Rightarrow> u64 option" where
  "tab s [] = Some (pml4_phys s)"
| "tab s (i # p) = (case tab s p of None \<Rightarrow> None
     | Some t \<Rightarrow> if present (ptab s t i) \<and> \<not> huge (ptab s t i) then Some (pte_to_phys (ptab s t i)) else None)"

declare tab.simps(2) [simp del]

lemma tab_SomeD:
  "tab s (i # p) = Some u \<Longrightarrow> \<exists>t. tab s p = Some t \<and> present (ptab s t i) \<and> \<not> huge (ptab s t i) \<and> u = pte_to_phys (ptab s t i)"
  by (auto simp: tab.simps(2) split: option.splits if_splits)

definition vmm_inv :: "vmm_state \<Rightarrow> block set \<Rightarrow> nat set \<Rightarrow> bool" where
  "vmm_inv s A M \<longleftrightarrow> pmm_in M (vpmm s) A \<and> M \<subseteq> {..<2 ^ 40} \<and> pml4_phys s \<noteq> 0 \<and>
     (\<forall>p t. length p \<le> 3 \<longrightarrow> tab s p = Some t \<longrightarrow> (\<exists>f. t = pfn_to_phys f \<and> (f, 0) \<in> A)) \<and>
     (\<forall>p q t. length p \<le> 3 \<longrightarrow> length q \<le> 3 \<longrightarrow> tab s p = Some t \<longrightarrow> tab s q = Some t \<longrightarrow> p = q) \<and>
     (\<forall>p t i. length p < 2 \<longrightarrow> tab s p = Some t \<longrightarrow> present (ptab s t i) \<longrightarrow> \<not> huge (ptab s t i))"

lemma vmm_invD:
  assumes "vmm_inv s A M"
  shows "pmm_in M (vpmm s) A" "M \<subseteq> {..<2 ^ 40}" "pml4_phys s \<noteq> 0"
    "length p \<le> 3 \<Longrightarrow> tab s p = Some t \<Longrightarrow> \<exists>f. t = pfn_to_phys f \<and> (f, 0) \<in> A"
    "length p \<le> 3 \<Longrightarrow> length q \<le> 3 \<Longrightarrow> tab s p = Some t \<Longrightarrow> tab s q = Some t \<Longrightarrow> p = q"
    "length p < 2 \<Longrightarrow> tab s p = Some t \<Longrightarrow> present (ptab s t i) \<Longrightarrow> \<not> huge (ptab s t i)"
  using assms unfolding vmm_inv_def by blast+

datatype mapping = Unmapped | Page4K u64 | Page2M u64

definition vlookup :: "vmm_state \<Rightarrow> u64 \<Rightarrow> mapping" where
  "vlookup s v = (case tab s [PDPT_INDEX v, PML4_INDEX v] of None \<Rightarrow> Unmapped
     | Some t \<Rightarrow> if present (ptab s t (PD_INDEX v)) \<and> huge (ptab s t (PD_INDEX v)) then Page2M (ptab s t (PD_INDEX v))
        else (case tab s [PD_INDEX v, PDPT_INDEX v, PML4_INDEX v] of None \<Rightarrow> Unmapped
          | Some u \<Rightarrow> if present (ptab s u (PT_INDEX v)) then Page4K (ptab s u (PT_INDEX v)) else Unmapped))"

lemma vlookup_cong:
  assumes "tab s' [PDPT_INDEX v, PML4_INDEX v] = tab s [PDPT_INDEX v, PML4_INDEX v]"
    "tab s' [PD_INDEX v, PDPT_INDEX v, PML4_INDEX v] = tab s [PD_INDEX v, PDPT_INDEX v, PML4_INDEX v]"
    "\<And>u. tab s [PDPT_INDEX v, PML4_INDEX v] = Some u \<Longrightarrow> ptab s' u (PD_INDEX v) = ptab s u (PD_INDEX v)"
    "\<And>u. tab s [PD_INDEX v, PDPT_INDEX v, PML4_INDEX v] = Some u \<Longrightarrow> ptab s' u (PT_INDEX v) = ptab s u (PT_INDEX v)"
  shows "vlookup s' v = vlookup s v"
  unfolding vlookup_def assms(1,2)
  by (cases "tab s [PDPT_INDEX v, PML4_INDEX v]"; cases "tab s [PD_INDEX v, PDPT_INDEX v, PML4_INDEX v]")
    (simp_all add: assms(3,4))

definition vpage :: "u64 \<Rightarrow> u64 \<times> u64 \<times> u64 \<times> u64" where
  "vpage v = (PML4_INDEX v, PDPT_INDEX v, PD_INDEX v, PT_INDEX v)"

subsection \<open>Entry bits\<close>

lemma addr_mask: "PTE_ADDR_MASK = push_bit 12 (mask 40)"
  by (simp add: PTE_ADDR_MASK_def mask_eq_exp_minus_1 push_bit_eq_mult)

lemma bit_addr_mask: "bit PTE_ADDR_MASK k \<longleftrightarrow> 12 \<le> k \<and> k < 52"
  unfolding addr_mask by (auto simp: bit_push_bit_iff bit_mask_iff)

lemma flag_pow2:
  "PTE_PRESENT = pow2 0" "PTE_WRITE = pow2 1" "PTE_HUGE = pow2 7" "PTE_GLOBAL = pow2 8" "PTE_NX = pow2 63"
  by (simp_all add: PTE_PRESENT_def PTE_WRITE_def PTE_HUGE_def PTE_GLOBAL_def PTE_NX_def pow2_def)

lemma entry_bits:
  "present e \<longleftrightarrow> bit e 0" "huge e \<longleftrightarrow> bit e 7" "wx e \<longleftrightarrow> bit e 1 \<and> \<not> bit e 63"
  by (simp_all add: present_def huge_def wx_def flag_pow2 and_pow2_eq_0)

lemma bit_frame:
  assumes "f < 2 ^ 40"
  shows "bit (pfn_to_phys f) k \<Longrightarrow> 12 \<le> k \<and> k < 52"
proof -
  assume b: "bit (pfn_to_phys f) k"
  then have k: "12 \<le> k" "k < 64" "bit (of_nat f :: u64) (k - 12)"
    by (auto simp: pfn_to_phys_def bit_push_bit_iff dest: bit_imp_le_length)
  then have "bit f (k - 12)" by (simp add: bit_of_nat_iff)
  moreover have "\<not> bit f j" if "40 \<le> j" for j
  proof -
    have "f < 2 ^ j" using assms power_increasing [OF that, of "2 :: nat"] by linarith
    then show ?thesis by (simp add: bit_iff_odd)
  qed
  ultimately have "k - 12 < 40" by (meson not_le)
  then show "12 \<le> k \<and> k < 52" using k by simp
qed

lemma table_entry:
  assumes "f < 2 ^ 40"
  shows "pte_to_phys (pfn_to_phys f OR PTE_PRESENT OR PTE_WRITE) = pfn_to_phys f"
    "present (pfn_to_phys f OR PTE_PRESENT OR PTE_WRITE)" "\<not> huge (pfn_to_phys f OR PTE_PRESENT OR PTE_WRITE)"
proof -
  show "pte_to_phys (pfn_to_phys f OR PTE_PRESENT OR PTE_WRITE) = pfn_to_phys f"
    unfolding pte_to_phys_def
    by (rule bit_word_eqI) (use bit_frame [OF assms] in \<open>auto simp: bit_and_iff bit_or_iff bit_addr_mask flag_pow2 bit_pow2\<close>)
  show "present (pfn_to_phys f OR PTE_PRESENT OR PTE_WRITE)" "\<not> huge (pfn_to_phys f OR PTE_PRESENT OR PTE_WRITE)"
    using bit_frame [OF assms, of 7] by (auto simp: entry_bits bit_or_iff flag_pow2 bit_pow2)
qed

lemma owned_frame:
  assumes "vmm_inv s A M" "(f, 0) \<in> A"
  shows "f \<in> cover A" "f < 2 ^ 40" "f \<in> M"
proof -
  show c: "f \<in> cover A" using assms(2) by (force simp: cover_def bset_def)
  obtain F where "pmm_inv (vpmm s) F A M" using vmm_invD(1) [OF assms(1)] by (auto simp: pmm_in_def)
  then show m: "f \<in> M" using pmm_inv_free_wf(5) c by blast
  show "f < 2 ^ 40" using subsetD [OF vmm_invD(2) [OF assms(1)] m] by (simp only: lessThan_iff)
qed

subsection \<open>Writing an entry\<close>

lemma set_entry_sel [simp]:
  "pml4_phys (set_entry s t i e) = pml4_phys s" "vpmm (set_entry s t i e) = vpmm s"
  "tables_allocated (set_entry s t i e) = tables_allocated s" "wx_enforced (set_entry s t i e) = wx_enforced s"
  "tlb_flushed (set_entry s t i e) = tlb_flushed s"
  "ptab (set_entry s t i e) u j = (if u = t \<and> j = i then e else ptab s u j)"
  by (simp_all add: set_entry_def)

lemma tab_set_same:
  assumes inv: "vmm_inv s A M" and p: "tab s p = Some t" "length p \<le> 3"
    and e: "length p = 3 \<or> tab s (i # p) = None \<and> \<not> (present e \<and> \<not> huge e)"
  shows "length q \<le> 3 \<Longrightarrow> tab (set_entry s t i e) q = tab s q"
proof (induction q)
  case (Cons j q)
  then have IH: "tab (set_entry s t i e) q = tab s q" and l: "length q \<le> 2" by simp_all
  show ?case
  proof (cases "tab s q")
    case (Some u)
    show ?thesis
    proof (cases "u = t \<and> j = i")
      case True
      then have "q = p" using vmm_invD(5) [OF inv, of q p t] Some p l by simp
      then have "tab s (i # p) = None" "\<not> (present e \<and> \<not> huge e)" using e l by auto
      then show ?thesis using True IH Some \<open>q = p\<close> p(1) by (auto simp: tab.simps(2))
    next
      case False
      then show ?thesis using IH Some by (auto simp: tab.simps(2))
    qed
  qed (simp add: IH tab.simps(2))
qed simp

lemma vmm_inv_set:
  assumes inv: "vmm_inv s A M" and p: "tab s p = Some t" "length p \<le> 3"
    and e: "length p = 3 \<or> length p = 2 \<and> tab s (i # p) = None \<and> \<not> (present e \<and> \<not> huge e)"
  shows "vmm_inv (set_entry s t i e) A M"
proof -
  have e': "length p = 3 \<or> tab s (i # p) = None \<and> \<not> (present e \<and> \<not> huge e)" using e by blast
  have T: "length q \<le> 3 \<Longrightarrow> tab (set_entry s t i e) q = tab s q" for q by (rule tab_set_same [OF inv p e'])
  have ne: "u \<noteq> t" if "length q < 2" "tab s q = Some u" for q u
    using vmm_invD(5) [OF inv, of q p t] p that e by auto
  have h: "\<not> huge (ptab (set_entry s t i e) u j)"
    if "length q < 2" "tab (set_entry s t i e) q = Some u" "present (ptab (set_entry s t i e) u j)" for q u j
    using that T [of q] ne [of q u] vmm_invD(6) [OF inv, of q u j] by simp
  have fr: "\<exists>f. u = pfn_to_phys f \<and> (f, 0) \<in> A" if "length q \<le> 3" "tab (set_entry s t i e) q = Some u" for q u
    using vmm_invD(4) [OF inv that(1)] that T by simp
  have in': "q = r" if "length q \<le> 3" "length r \<le> 3" "tab (set_entry s t i e) q = Some u" "tab (set_entry s t i e) r = Some u" for q r u
    using vmm_invD(5) [OF inv that(1,2)] that T by simp
  show ?thesis
    unfolding vmm_inv_def using vmm_invD(1-3) [OF inv] h fr in' by simp
qed

lemma vlookup_set_leaf:
  assumes inv: "vmm_inv s A M" and p: "tab s [PD_INDEX v, PDPT_INDEX v, PML4_INDEX v] = Some t"
  shows "vlookup (set_entry s t (PT_INDEX v) e) w =
    (if vpage w = vpage v then (if present e then Page4K e else Unmapped) else vlookup s w)"
proof -
  let ?s = "set_entry s t (PT_INDEX v) e"
  let ?p = "[PD_INDEX v, PDPT_INDEX v, PML4_INDEX v]" and ?q = "[PD_INDEX w, PDPT_INDEX w, PML4_INDEX w]"
  have T: "length q \<le> 3 \<Longrightarrow> tab ?s q = tab s q" for q by (rule tab_set_same [OF inv p]) simp_all
  have ne2: "u \<noteq> t" if "tab s [x, y] = Some u" for u x y
    using vmm_invD(5) [OF inv, of "[x, y]" ?p t] p that by auto
  have leaf: "u = t \<longleftrightarrow> ?q = ?p" if "tab s ?q = Some u" for u
    using vmm_invD(5) [OF inv, of ?q ?p t] p that by auto
  show ?thesis
  proof (cases "vpage w = vpage v")
    case True
    then have eq: "PML4_INDEX w = PML4_INDEX v" "PDPT_INDEX w = PDPT_INDEX v" "PD_INDEX w = PD_INDEX v" "PT_INDEX w = PT_INDEX v"
      by (simp_all add: vpage_def)
    have p3: "tab ?s ?p = Some t" using T [of ?p] p by simp
    obtain u where u: "tab s [PDPT_INDEX v, PML4_INDEX v] = Some u" "\<not> huge (ptab s u (PD_INDEX v))"
      using tab_SomeD [OF p] by blast
    have u': "tab ?s [PDPT_INDEX v, PML4_INDEX v] = Some u" using T [of "[PDPT_INDEX v, PML4_INDEX v]"] u(1) by simp
    have "ptab ?s u (PD_INDEX v) = ptab s u (PD_INDEX v)" using ne2 [OF u(1)] by simp
    then show ?thesis
      unfolding vlookup_def eq u' p3 using True u(2) by simp
  next
    case False
    have T2: "tab ?s [PDPT_INDEX w, PML4_INDEX w] = tab s [PDPT_INDEX w, PML4_INDEX w]" "tab ?s ?q = tab s ?q"
      by (rule T, simp)+
    have c: "ptab ?s u (PT_INDEX w) = ptab s u (PT_INDEX w)" if "tab s ?q = Some u" for u
      using leaf [OF that] False by (auto simp: vpage_def)
    have d: "ptab ?s u (PD_INDEX w) = ptab s u (PD_INDEX w)" if "tab s [PDPT_INDEX w, PML4_INDEX w] = Some u" for u
      using ne2 [OF that] by simp
    show ?thesis using vlookup_cong [OF T2 d c] False by simp
  qed
qed

subsection \<open>Adding a table\<close>

definition fresh_table :: "vmm_state \<Rightarrow> pmm_state \<Rightarrow> nat \<Rightarrow> vmm_state" where
  "fresh_table s m f = s\<lparr>vpmm := m, ptab := (ptab s)(pfn_to_phys f := (\<lambda>_. 0)), tables_allocated := tables_allocated s + 1\<rparr>"

definition link_table :: "vmm_state \<Rightarrow> pmm_state \<Rightarrow> nat \<Rightarrow> u64 \<Rightarrow> u64 \<Rightarrow> vmm_state" where
  "link_table s m f t i = set_entry (fresh_table s m f) t i (pfn_to_phys f OR PTE_PRESENT OR PTE_WRITE)"

text \<open>When a fresh frame \<open>f\<close> may be linked at index \<open>i\<close> of the table \<open>t\<close> that the path \<open>p\<close> reaches.\<close>

definition linkable :: "vmm_state \<Rightarrow> block set \<Rightarrow> nat set \<Rightarrow> pmm_state \<Rightarrow> nat \<Rightarrow> u64 list \<Rightarrow> u64 \<Rightarrow> u64 \<Rightarrow> bool" where
  "linkable s A M m f p t i \<longleftrightarrow> vmm_inv s A M \<and> pmm_in M m (insert (f, 0) A) \<and> f \<notin> cover A \<and>
     tab s p = Some t \<and> length p < 3 \<and> \<not> present (ptab s t i)"

lemma linkableD:
  assumes "linkable s A M m f p t i"
  shows "vmm_inv s A M" "pmm_in M m (insert (f, 0) A)" "f \<notin> cover A" "tab s p = Some t" "length p < 3" "\<not> present (ptab s t i)"
  using assms by (simp_all add: linkable_def)


lemma fresh_bound:
  assumes L: "linkable s A M m f p t i"
  shows "f \<in> M" "f < 2 ^ 40" "f \<noteq> 0"
proof -
  note inv = linkableD(1) [OF L] and own = linkableD(2) [OF L]
  obtain F where F: "pmm_inv m F (insert (f, 0) A) M" "0 \<notin> M" using own by (auto simp: pmm_in_def)
  have "f \<in> cover (insert (f, 0) A)" by (force simp: cover_def bset_def)
  then show M: "f \<in> M" using pmm_inv_free_wf(5) [OF F(1)] by blast
  show "f < 2 ^ 40" using subsetD [OF vmm_invD(2) [OF inv] M] by (simp only: lessThan_iff)
  show "f \<noteq> 0" using M F(2) by metis
qed

lemma lt_40_52: "n < 2 ^ 40 \<Longrightarrow> n < (2 :: nat) ^ 52"
  by (rule less_trans, assumption) simp

lemma not_fresh:
  assumes L: "linkable s A M m f p t i"
  shows "length q \<le> 3 \<Longrightarrow> tab s q = Some u \<Longrightarrow> u \<noteq> pfn_to_phys f"
proof
  assume q: "length q \<le> 3" "tab s q = Some u" "u = pfn_to_phys f"
  note inv = linkableD(1) [OF L] and fresh = linkableD(3) [OF L] and fresh_bound = fresh_bound [OF L]
  obtain g where g: "u = pfn_to_phys g" "(g, 0) \<in> A" using vmm_invD(4) [OF inv q(1,2)] by blast
  note G = owned_frame [OF inv g(2)]
  have "g = f" using frame_inj [OF lt_40_52 [OF G(2)] lt_40_52 [OF fresh_bound(2)]] g(1) q(3) by metis
  then show False using G(1) fresh by blast
qed

lemma link_ptab:
  "ptab (link_table s m f t i) u j =
    (if u = t \<and> j = i then pfn_to_phys f OR PTE_PRESENT OR PTE_WRITE else if u = pfn_to_phys f then 0 else ptab s u j)"
  by (simp add: link_table_def fresh_table_def)

lemma zero_entry [simp]: "\<not> present 0"
  by (simp add: present_def)

lemma link_tab:
  assumes L: "linkable s A M m f p t i"
  shows "length q \<le> 3 \<Longrightarrow> tab (link_table s m f t i) q = (if q = i # p then Some (pfn_to_phys f) else tab s q)"
proof (induction q)
  case Nil
  then show ?case by (simp add: link_table_def fresh_table_def)
next
  case (Cons j q)
  note inv = linkableD(1) [OF L] and p = linkableD(4,5) [OF L] and np = linkableD(6) [OF L] and not_fresh = not_fresh [OF L]
    and fresh_bound = fresh_bound [OF L]
  from Cons have l: "length q \<le> 2" and IH: "tab (link_table s m f t i) q = (if q = i # p then Some (pfn_to_phys f) else tab s q)"
    by simp_all
  have none: "tab s (i # p) = None" using p(1) np by (simp add: tab.simps(2))
  show ?case
  proof (cases "q = i # p")
    case True
    have "pfn_to_phys f \<noteq> t" using not_fresh [of p t] p by auto
    then show ?thesis using True IH none by (simp add: tab.simps(2) link_ptab)
  next
    case False
    show ?thesis
    proof (cases "tab s q")
      case (Some u)
      have uf: "u \<noteq> pfn_to_phys f" using not_fresh [of q u] Some l by simp
      have ut: "u = t \<longleftrightarrow> q = p" using vmm_invD(5) [OF inv, of q p t] Some p l by auto
      show ?thesis
      proof (cases "q = p \<and> j = i")
        case True
        then show ?thesis using IH False Some ut table_entry [OF fresh_bound(2)] by (simp add: tab.simps(2) link_ptab)
      next
        case False
        then have "ptab (link_table s m f t i) u j = ptab s u j" using ut uf by (auto simp: link_ptab)
        then show ?thesis using IH \<open>q \<noteq> i # p\<close> Some False by (auto simp: tab.simps(2))
      qed
    next
      case None
      then show ?thesis using False IH p(1) by (auto simp: tab.simps(2))
    qed
  qed
qed

lemma link_inv:
  assumes L: "linkable s A M m f p t i"
  shows "vmm_inv (link_table s m f t i) (insert (f, 0) A) M"
proof -
  note inv = linkableD(1) [OF L] and p = linkableD(4,5) [OF L] and np = linkableD(6) [OF L] and not_fresh = not_fresh [OF L]
    and fresh_bound = fresh_bound [OF L]
    and link_tab = link_tab [OF L] and own = linkableD(2) [OF L]
  let ?s = "link_table s m f t i"
  have sel: "vpmm ?s = m" "pml4_phys ?s = pml4_phys s" by (simp_all add: link_table_def fresh_table_def)
  have fr: "\<exists>g. u = pfn_to_phys g \<and> (g, 0) \<in> insert (f, 0) A" if "length q \<le> 3" "tab ?s q = Some u" for q u
    using that link_tab [OF that(1)] vmm_invD(4) [OF inv that(1)] by (auto split: if_splits)
  have inj: "q = r" if "length q \<le> 3" "length r \<le> 3" "tab ?s q = Some u" "tab ?s r = Some u" for q r u
    using that link_tab [OF that(1)] link_tab [OF that(2)] not_fresh [of q] not_fresh [of r]
      vmm_invD(5) [OF inv that(1,2)] by (auto split: if_splits)
  have hg: "\<not> huge (ptab ?s u j)" if "length q < 2" "tab ?s q = Some u" "present (ptab ?s u j)" for q u j
  proof (cases "u = t \<and> j = i")
    case True
    then show ?thesis using table_entry [OF fresh_bound(2)] by (simp add: link_ptab)
  next
    case False
    then have "u \<noteq> pfn_to_phys f" "ptab ?s u j = ptab s u j" using that(3) by (auto simp: link_ptab split: if_splits)
    then show ?thesis using that link_tab [of q] vmm_invD(6) [OF inv, of q u j] by (auto split: if_splits)
  qed
  show ?thesis unfolding vmm_inv_def sel using own vmm_invD(2,3) [OF inv] fr inj hg by simp
qed

lemma link_lookup:
  assumes L: "linkable s A M m f p t i"
  shows "vlookup (link_table s m f t i) v = vlookup s v"
proof -
  note inv = linkableD(1) [OF L] and p = linkableD(4,5) [OF L] and np = linkableD(6) [OF L] and not_fresh = not_fresh [OF L]
    and fresh_bound = fresh_bound [OF L]
    and link_tab = link_tab [OF L]
  let ?s = "link_table s m f t i" and ?p2 = "[PDPT_INDEX v, PML4_INDEX v]"
  let ?p3 = "PD_INDEX v # ?p2"
  have none: "tab s (i # p) = None" using p(1) np by (simp add: tab.simps(2))
  have T: "tab ?s ?p2 = (if ?p2 = i # p then Some (pfn_to_phys f) else tab s ?p2)"
    "tab ?s ?p3 = (if ?p3 = i # p then Some (pfn_to_phys f) else tab s ?p3)"
    by (rule link_tab, simp)+
  have leaf0: "ptab ?s (pfn_to_phys f) j = 0" for j using not_fresh [of p t] p by (auto simp: link_ptab)
  consider (new2) "?p2 = i # p" | (new3) "?p3 = i # p" | (old) "?p2 \<noteq> i # p" "?p3 \<noteq> i # p" by blast
  then show ?thesis
  proof cases
    case new2
    then have "tab s ?p3 = None" using none by (simp add: tab.simps(2))
    then show ?thesis using new2 none unfolding vlookup_def T by (simp add: leaf0)
  next
    case new3
    then have q: "p = ?p2" "i = PD_INDEX v" "?p2 \<noteq> i # p" by auto
    have t2: "tab s ?p2 = Some t" "tab s ?p3 = None" using p(1) none q(1,2) by simp_all
    have t3: "tab ?s ?p2 = Some t" "tab ?s ?p3 = Some (pfn_to_phys f)" unfolding T using q t2 by simp_all
    have "\<not> huge (ptab ?s t (PD_INDEX v))" using table_entry(3) [OF fresh_bound(2)] q(2) by (simp add: link_ptab)
    then have "vlookup ?s v = Unmapped" unfolding vlookup_def t3 by (simp add: leaf0)
    moreover have "vlookup s v = Unmapped" unfolding vlookup_def t2 using np q(2) by simp
    ultimately show ?thesis by simp
  next
    case old
    have d: "ptab ?s u (PD_INDEX v) = ptab s u (PD_INDEX v)" if u: "tab s ?p2 = Some u" for u
    proof -
      have "u \<noteq> pfn_to_phys f" by (rule not_fresh [OF _ u]) simp
      moreover have "\<not> (u = t \<and> PD_INDEX v = i)"
      proof
        assume a: "u = t \<and> PD_INDEX v = i"
        have "?p2 = p" by (rule vmm_invD(5) [OF inv _ _ u]) (use p a in simp_all)
        then show False using old(2) a by simp
      qed
      ultimately show ?thesis unfolding link_ptab by (simp only: if_False)
    qed
    have l: "ptab ?s u (PT_INDEX v) = ptab s u (PT_INDEX v)" if u: "tab s ?p3 = Some u" for u
    proof -
      have "u \<noteq> pfn_to_phys f" by (rule not_fresh [OF _ u]) simp
      moreover have "u \<noteq> t"
      proof
        assume a: "u = t"
        have "?p3 = p" by (rule vmm_invD(5) [OF inv _ _ u]) (use p a in simp_all)
        then show False using p(2) by auto
      qed
      ultimately show ?thesis unfolding link_ptab by (simp only: if_False simp_thms)
    qed
    have "tab ?s ?p2 = tab s ?p2" "tab ?s ?p3 = tab s ?p3" unfolding T using old by (simp_all only: if_False)
    then show ?thesis using d l by (rule vlookup_cong)
  qed
qed

lemma descend_spec:
  assumes inv: "vmm_inv s A M" and p: "tab s p = Some t" "length p < 3"
    and nh: "\<not> (present (ptab s t i) \<and> huge (ptab s t i))"
  shows "descend s t i = Inl KAssert \<and> frames_left A M = 0 \<or>
    (\<exists>s' u A'. descend s t i = Inr (s', u) \<and> vmm_inv s' A' M \<and> tab s' (i # p) = Some u \<and> A \<subseteq> A' \<and>
       frames_left A M \<le> frames_left A' M + 1 \<and>
       (\<forall>q x. length q \<le> 3 \<longrightarrow> tab s q = Some x \<longrightarrow> tab s' q = Some x) \<and> (\<forall>v. vlookup s' v = vlookup s v) \<and>
       wx_enforced s' = wx_enforced s \<and> pml4_phys s' = pml4_phys s \<and> tlb_flushed s' = tlb_flushed s)"
proof (cases "present (ptab s t i)")
  case True
  then have "tab s (i # p) = Some (pte_to_phys (ptab s t i))" using nh p(1) by (simp add: tab.simps(2))
  then show ?thesis using True inv by (intro disjI2 exI [of _ s] exI [of _ "pte_to_phys (ptab s t i)"] exI [of _ A])
      (simp add: descend_def get_or_create_entry_def)
next
  case False
  show ?thesis
  proof (cases rule: pmm_in.alloc_page_cases [OF vmm_invD(1) [OF inv]])
    case 1
    then show ?thesis using False pmm_in_alloc_none [OF vmm_invD(1) [OF inv]]
      by (simp add: descend_def get_or_create_entry_def alloc_table_def)
  next
    case (2 m f)
    let ?s = "link_table s m f t i"
    have "linkable s A M m f p t i" using inv 2(4,5) p False by (simp add: linkable_def)
    note L = link_inv [OF this] link_tab [OF this] link_lookup [OF this]
    have nz: "pfn_to_phys f \<noteq> 0" using pfn_to_phys_facts(3) [OF 2(3)] 2(2) by blast
    have none: "tab s (i # p) = None" using p(1) False by (simp add: tab.simps(2))
    have lk: "ptab ?s t i = pfn_to_phys f OR PTE_PRESENT OR PTE_WRITE" by (simp add: link_table_def fresh_table_def)
    have f40: "f < 2 ^ 40" by (rule owned_frame(2) [OF L(1)]) simp
    have run: "descend s t i = Inr (?s, pfn_to_phys f)"
      using False 2(1) nz lk table_entry(1) [OF f40]
      by (simp add: descend_def get_or_create_entry_def alloc_table_def link_table_def fresh_table_def)
    have "tab ?s (i # p) = Some (pfn_to_phys f)" using L(2) [of "i # p"] p(2) by simp
    moreover have "tab ?s q = Some x" if "length q \<le> 3" "tab s q = Some x" for q x
      using L(2) [OF that(1)] that(2) none by auto
    moreover have "wx_enforced ?s = wx_enforced s \<and> pml4_phys ?s = pml4_phys s \<and> tlb_flushed ?s = tlb_flushed s"
      by (simp add: link_table_def fresh_table_def)
    moreover have "frames_left A M \<le> frames_left (insert (f, 0) A) M + 1"
      by (rule frames_left_take [OF pmm_in_finite [OF vmm_invD(1) [OF inv]]])
    ultimately show ?thesis
      using run L(1,3) by (intro disjI2 exI [of _ ?s] exI [of _ "pfn_to_phys f"] exI [of _ "insert (f, 0) A"]) blast
  qed
qed

end
