(* ===== verification/Vmm_Spec.thy ===== *)
theory Vmm_Spec
  imports Vmm_Proofs
begin

text \<open>
  What the operations on page tables do to the map from virtual pages to entries, how the
  translation reads it, and the write-xor-execute discipline.
\<close>

subsection \<open>Small facts\<close>

lemma tab_flush [simp]: "tab (vmm_flush_tlb s v) p = tab s p"
  by (induction p) (auto simp: tab.simps(2) vmm_flush_tlb_def split: option.splits)

lemma flush_sel [simp]:
  "ptab (vmm_flush_tlb s v) = ptab s" "vpmm (vmm_flush_tlb s v) = vpmm s" "pml4_phys (vmm_flush_tlb s v) = pml4_phys s"
  "wx_enforced (vmm_flush_tlb s v) = wx_enforced s" "tlb_flushed (vmm_flush_tlb s v) = tlb_flushed s @ [v]"
  by (simp_all add: vmm_flush_tlb_def)

lemma flush_lookup [simp]: "vlookup (vmm_flush_tlb s v) w = vlookup s w"
  by (rule vlookup_cong) simp_all

lemma flush_inv [simp]: "vmm_inv (vmm_flush_tlb s v) A M = vmm_inv s A M"
  by (simp add: vmm_inv_def)

lemma lookup_not_huge:
  assumes "\<And>e. vlookup s v \<noteq> Page2M e" "tab s [PDPT_INDEX v, PML4_INDEX v] = Some t"
  shows "\<not> (present (ptab s t (PD_INDEX v)) \<and> huge (ptab s t (PD_INDEX v)))"
  using assms(1) [of "ptab s t (PD_INDEX v)"] assms(2) by (auto simp: vlookup_def)

lemma lookup_huge:
  assumes "vlookup s v = Page2M e"
  obtains t where "tab s [PDPT_INDEX v, PML4_INDEX v] = Some t" "e = ptab s t (PD_INDEX v)" "present e" "huge e"
  using assms by (auto simp: vlookup_def split: option.splits if_splits)

lemma upper_levels:
  assumes "vmm_inv s A M"
  shows "tab s [PML4_INDEX v] = (if present (ptab s (pml4_phys s) (PML4_INDEX v))
      then Some (pte_to_phys (ptab s (pml4_phys s) (PML4_INDEX v))) else None)"
    "tab s [PML4_INDEX v] = Some t \<Longrightarrow> tab s [PDPT_INDEX v, PML4_INDEX v] =
      (if present (ptab s t (PDPT_INDEX v)) then Some (pte_to_phys (ptab s t (PDPT_INDEX v))) else None)"
    "tab s [PML4_INDEX v] = Some t \<Longrightarrow> present (ptab s t (PDPT_INDEX v)) \<Longrightarrow> \<not> huge (ptab s t (PDPT_INDEX v))"
proof -
  have "\<not> huge (ptab s (pml4_phys s) (PML4_INDEX v))" if "present (ptab s (pml4_phys s) (PML4_INDEX v))"
    by (rule vmm_invD(6) [OF assms, of "[]"]) (use that in simp_all)
  then show "tab s [PML4_INDEX v] = (if present (ptab s (pml4_phys s) (PML4_INDEX v))
      then Some (pte_to_phys (ptab s (pml4_phys s) (PML4_INDEX v))) else None)" by (simp add: tab.simps(2))
  have h: "\<not> huge (ptab s t (PDPT_INDEX v))" if "tab s [PML4_INDEX v] = Some t" "present (ptab s t (PDPT_INDEX v))" for t
    by (rule vmm_invD(6) [OF assms, of "[PML4_INDEX v]"]) (use that in simp_all)
  then show "tab s [PML4_INDEX v] = Some t \<Longrightarrow> tab s [PDPT_INDEX v, PML4_INDEX v] =
      (if present (ptab s t (PDPT_INDEX v)) then Some (pte_to_phys (ptab s t (PDPT_INDEX v))) else None)"
    by (simp add: tab.simps(2) [of s "PDPT_INDEX v"])
  show "tab s [PML4_INDEX v] = Some t \<Longrightarrow> present (ptab s t (PDPT_INDEX v)) \<Longrightarrow> \<not> huge (ptab s t (PDPT_INDEX v))"
    by (rule h)
qed

subsection \<open>Mapping\<close>

lemma map_page_spec:
  assumes inv: "vmm_inv s A M" and al: "IS_PAGE_ALIGNED v" "IS_PAGE_ALIGNED p" and nh: "\<And>e. vlookup s v \<noteq> Page2M e"
  shows "vmm_map_page s v p fl = Inl KAssert \<and> frames_left A M < 3 \<or>
    (\<exists>s' A'. vmm_map_page s v p fl = Inr s' \<and> vmm_inv s' A' M \<and> A \<subseteq> A' \<and> wx_enforced s' = wx_enforced s \<and>
       frames_left A M \<le> frames_left A' M + 3 \<and> tlb_flushed s' = tlb_flushed s @ [v] \<and>
       (\<forall>w. vlookup s' w = (if vpage w = vpage v
          then (if present (p OR wx_flags s fl) then Page4K (p OR wx_flags s fl) else Unmapped) else vlookup s w)))"
proof -
  let ?a = "PML4_INDEX v" and ?b = "PDPT_INDEX v" and ?c = "PD_INDEX v" and ?d = "PT_INDEX v"
  have z: "pml4_phys s \<noteq> 0" by (rule vmm_invD(3) [OF inv])
  have "\<not> (present (ptab s (pml4_phys s) ?a) \<and> huge (ptab s (pml4_phys s) ?a))"
    using vmm_invD(6) [OF inv, of "[]" "pml4_phys s" ?a] by auto
  from descend_spec [OF inv _ _ this, of "[]"] have D1: "descend s (pml4_phys s) ?a = Inl KAssert \<and> frames_left A M = 0 \<or>
    (\<exists>s' u A'. descend s (pml4_phys s) ?a = Inr (s', u) \<and> vmm_inv s' A' M \<and> tab s' [?a] = Some u \<and> A \<subseteq> A' \<and>
       frames_left A M \<le> frames_left A' M + 1 \<and>
       (\<forall>w. vlookup s' w = vlookup s w) \<and> wx_enforced s' = wx_enforced s \<and> tlb_flushed s' = tlb_flushed s)" by auto
  show ?thesis
  proof (cases "descend s (pml4_phys s) ?a = Inl KAssert")
    case True
    then show ?thesis using al z D1 by (simp add: vmm_map_page_def)
  next
    case False
    then obtain s1 pdpt A1 where s1: "descend s (pml4_phys s) ?a = Inr (s1, pdpt)" "vmm_inv s1 A1 M" "tab s1 [?a] = Some pdpt"
      "A \<subseteq> A1" "\<And>w. vlookup s1 w = vlookup s w" "wx_enforced s1 = wx_enforced s" "tlb_flushed s1 = tlb_flushed s"
      "frames_left A M \<le> frames_left A1 M + 1" using D1 by blast
    have "\<not> (present (ptab s1 pdpt ?b) \<and> huge (ptab s1 pdpt ?b))" using upper_levels(3) [OF s1(2,3)] by blast
    note D2 = descend_spec [OF s1(2,3) _ this]
    show ?thesis
    proof (cases "descend s1 pdpt ?b = Inl KAssert")
      case True
      then show ?thesis using al z s1(1,8) D2 by (simp add: vmm_map_page_def)
    next
      case False
      then obtain s2 pd A2 where s2: "descend s1 pdpt ?b = Inr (s2, pd)" "vmm_inv s2 A2 M" "tab s2 [?b, ?a] = Some pd" "A1 \<subseteq> A2"
        "\<And>w. vlookup s2 w = vlookup s1 w" "wx_enforced s2 = wx_enforced s1" "tlb_flushed s2 = tlb_flushed s1"
        "frames_left A1 M \<le> frames_left A2 M + 1" using D2 by auto
      have "\<not> (present (ptab s2 pd ?c) \<and> huge (ptab s2 pd ?c))"
        by (rule lookup_not_huge [OF _ s2(3)]) (use s1(5) s2(5) nh in simp)
      note D3 = descend_spec [OF s2(2,3) _ this]
      show ?thesis
      proof (cases "descend s2 pd ?c = Inl KAssert")
        case True
        then show ?thesis using al z s1(1,8) s2(1,8) D3 by (simp add: vmm_map_page_def)
      next
        case False
        then obtain s3 pt A3 where s3: "descend s2 pd ?c = Inr (s3, pt)" "vmm_inv s3 A3 M" "tab s3 [?c, ?b, ?a] = Some pt" "A2 \<subseteq> A3"
          "\<And>q x. length q \<le> 3 \<Longrightarrow> tab s2 q = Some x \<Longrightarrow> tab s3 q = Some x"
          "\<And>w. vlookup s3 w = vlookup s2 w" "wx_enforced s3 = wx_enforced s2" "tlb_flushed s3 = tlb_flushed s2"
          "frames_left A2 M \<le> frames_left A3 M + 1"
          using D3 by (auto simp: less_Suc_eq_le)
        have "tab s3 [?b, ?a] = Some pd" by (rule s3(5) [OF _ s2(3)]) simp
        then have h: "\<not> huge (ptab s3 pd ?c)" using tab_SomeD [OF s3(3)] by auto
        let ?e = "p OR wx_flags s fl"
        let ?s = "vmm_flush_tlb (set_entry s3 pt ?d ?e) v"
        have wf: "wx_flags s3 fl = wx_flags s fl" using s1(6) s2(6) s3(7) by (simp add: wx_flags_def)
        have run: "vmm_map_page s v p fl = Inr ?s"
          using al z s1(1) s2(1) s3(1) h wf by (simp add: vmm_map_page_def)
        have i': "vmm_inv ?s A3 M" using vmm_inv_set [OF s3(2,3), of ?d ?e] by simp
        have "vlookup ?s w = (if vpage w = vpage v then (if present ?e then Page4K ?e else Unmapped) else vlookup s w)" for w
          using vlookup_set_leaf [OF s3(2,3)] s1(5) s2(5) s3(6) by simp
        moreover have "A \<subseteq> A3" using s1(4) s2(4) s3(4) by blast
        ultimately show ?thesis using run i' s1(6-8) s2(6-8) s3(7-9) by (intro disjI2 exI [of _ ?s] exI [of _ A3]) simp
      qed
    qed
  qed
qed

lemma map_huge_refused:
  assumes inv: "vmm_inv s A M" and h: "vlookup s v = Page2M e" "IS_PAGE_ALIGNED v" "IS_PAGE_ALIGNED p"
  shows "vmm_map_page s v p fl = Inl KAssert"
proof -
  obtain t where t: "tab s [PDPT_INDEX v, PML4_INDEX v] = Some t" "e = ptab s t (PD_INDEX v)" "present e" "huge e"
    using lookup_huge [OF h(1)] by blast
  obtain u where u: "tab s [PML4_INDEX v] = Some u" "present (ptab s u (PDPT_INDEX v))" "t = pte_to_phys (ptab s u (PDPT_INDEX v))"
    using tab_SomeD [OF t(1)] by blast
  have "present (ptab s (pml4_phys s) (PML4_INDEX v))" "u = pte_to_phys (ptab s (pml4_phys s) (PML4_INDEX v))"
    using tab_SomeD [OF u(1)] by auto
  then show ?thesis
    using h(2,3) u(2,3) t vmm_invD(3) [OF inv] by (simp add: vmm_map_page_def descend_def get_or_create_entry_def)
qed

subsection \<open>Unmapping and translating\<close>

lemma unmap_page_spec:
  assumes inv: "vmm_inv s A M" and al: "IS_PAGE_ALIGNED v"
  shows "\<exists>s'. vmm_unmap_page s v = Inr s' \<and> vmm_inv s' A M \<and>
    (\<forall>w. vlookup s' w = (if vpage w = vpage v \<and> (\<forall>e. vlookup s v \<noteq> Page2M e) then Unmapped else vlookup s w))"
proof -
  let ?e1 = "ptab s (pml4_phys s) (PML4_INDEX v)"
  let ?e2 = "ptab s (pte_to_phys ?e1) (PDPT_INDEX v)"
  let ?e3 = "ptab s (pte_to_phys ?e2) (PD_INDEX v)"
  note U = upper_levels [OF inv, of v]
  have z: "pml4_phys s \<noteq> 0" by (rule vmm_invD(3) [OF inv])
  have same: "vlookup s w = vlookup s v" if "vpage w = vpage v" for w
  proof -
    have "PML4_INDEX w = PML4_INDEX v" "PDPT_INDEX w = PDPT_INDEX v" "PD_INDEX w = PD_INDEX v" "PT_INDEX w = PT_INDEX v"
      using that by (simp_all add: vpage_def)
    then show ?thesis by (simp only: vlookup_def)
  qed
  have keep: "?thesis" if "vmm_unmap_page s v = Inr s" "vlookup s v = Unmapped \<or> (\<exists>e. vlookup s v = Page2M e)"
  proof (intro exI [of _ s] conjI allI that(1) inv)
    fix w
    show "vlookup s w = (if vpage w = vpage v \<and> (\<forall>e. vlookup s v \<noteq> Page2M e) then Unmapped else vlookup s w)"
    proof (cases "vpage w = vpage v")
      case True
      show ?thesis unfolding same [OF True] using that(2) by auto
    qed simp
  qed
  consider (a) "\<not> present ?e1" | (b) "present ?e1" "\<not> present ?e2" | (c) "present ?e1" "present ?e2" "\<not> present ?e3"
    | (d) "present ?e1" "present ?e2" "present ?e3" "huge ?e3" | (e) "present ?e1" "present ?e2" "present ?e3" "\<not> huge ?e3" by blast
  then show ?thesis
  proof cases
    case a
    then have "tab s [PDPT_INDEX v, PML4_INDEX v] = None" using U(1) by (simp add: tab.simps(2) [of s "PDPT_INDEX v"])
    then show ?thesis using a al z by (intro keep) (simp_all add: vmm_unmap_page_def vlookup_def)
  next
    case b
    then have "tab s [PDPT_INDEX v, PML4_INDEX v] = None" using U(1,2) by simp
    then show ?thesis using b al z by (intro keep) (simp_all add: vmm_unmap_page_def vlookup_def)
  next
    case c
    then have t: "tab s [PDPT_INDEX v, PML4_INDEX v] = Some (pte_to_phys ?e2)" using U(1,2) by simp
    then show ?thesis using c al z by (intro keep) (simp_all add: vmm_unmap_page_def vlookup_def tab.simps(2) [of s "PD_INDEX v"])
  next
    case d
    then have t: "tab s [PDPT_INDEX v, PML4_INDEX v] = Some (pte_to_phys ?e2)" using U(1,2) by simp
    then show ?thesis using d al z by (intro keep) (simp_all add: vmm_unmap_page_def vlookup_def)
  next
    case e
    then have t: "tab s [PDPT_INDEX v, PML4_INDEX v] = Some (pte_to_phys ?e2)" using U(1,2) by simp
    have t3: "tab s [PD_INDEX v, PDPT_INDEX v, PML4_INDEX v] = Some (pte_to_phys ?e3)"
      using e t by (simp add: tab.simps(2) [of s "PD_INDEX v"])
    let ?s = "vmm_flush_tlb (set_entry s (pte_to_phys ?e3) (PT_INDEX v) 0) v"
    have run: "vmm_unmap_page s v = Inr ?s" using e al z by (simp add: vmm_unmap_page_def)
    have "vmm_inv ?s A M" using vmm_inv_set [OF inv t3, of "PT_INDEX v" 0] by simp
    moreover have "vlookup s v \<noteq> Page2M x" for x using t e(4) by (auto simp: vlookup_def split: option.splits if_splits)
    ultimately show ?thesis using run vlookup_set_leaf [OF inv t3, of 0] by (intro exI [of _ ?s]) simp
  qed
qed

lemma virt_to_phys_spec:
  assumes inv: "vmm_inv s A M"
  shows "vmm_virt_to_phys s v = (case vlookup s v of Unmapped \<Rightarrow> 0
     | Page4K e \<Rightarrow> (e AND PTE_ADDR_MASK) OR (v AND 0xFFF) | Page2M e \<Rightarrow> (e AND PTE_ADDR_MASK) OR (v AND 0x1FFFFF))"
proof -
  let ?e1 = "ptab s (pml4_phys s) (PML4_INDEX v)"
  let ?e2 = "ptab s (pte_to_phys ?e1) (PDPT_INDEX v)"
  let ?e3 = "ptab s (pte_to_phys ?e2) (PD_INDEX v)"
  note U = upper_levels [OF inv, of v]
  have z: "pml4_phys s \<noteq> 0" by (rule vmm_invD(3) [OF inv])
  show ?thesis
  proof (cases "present ?e1 \<and> present ?e2")
    case True
    then have t1: "tab s [PML4_INDEX v] = Some (pte_to_phys ?e1)" using U(1) by simp
    have t: "tab s [PDPT_INDEX v, PML4_INDEX v] = Some (pte_to_phys ?e2)" "\<not> huge ?e2" using U(2,3) [OF t1] True by simp_all
    have t3: "tab s [PD_INDEX v, PDPT_INDEX v, PML4_INDEX v] = (if present ?e3 \<and> \<not> huge ?e3 then Some (pte_to_phys ?e3) else None)"
      using t by (simp add: tab.simps(2) [of s "PD_INDEX v"])
    show ?thesis unfolding vmm_virt_to_phys_def vlookup_def t(1) t3 using True z t(2) by (simp add: Let_def)
  next
    case False
    then have "tab s [PDPT_INDEX v, PML4_INDEX v] = None"
      using U(1,2) by (cases "present ?e1") (simp_all add: tab.simps(2) [of s "PDPT_INDEX v"])
    then show ?thesis using False z by (auto simp: vmm_virt_to_phys_def vlookup_def Let_def)
  qed
qed

end
