(* ===== verification/Vmm_Wx.thy ===== *)
theory Vmm_Wx
  imports Vmm_Spec
begin

text \<open>
  Ranges of pages, and the write-xor-execute discipline: the pages that are both writable and
  executable, how mapping changes that set, and what the audit reports.
\<close>

subsection \<open>Writable and executable pages\<close>

definition wx_pages :: "vmm_state \<Rightarrow> (u64 \<times> u64 \<times> u64 \<times> u64) set" where
  "wx_pages s = {vpage v | v. \<exists>e. (vlookup s v = Page4K e \<or> vlookup s v = Page2M e) \<and> wx e}"

lemma wx_or: "IS_PAGE_ALIGNED p \<Longrightarrow> wx (p OR f) \<Longrightarrow> wx f"
  using aligned_bits [of p 1] by (auto simp: entry_bits bit_or_iff)

lemma wx_flags_enforced: "wx_enforced s \<Longrightarrow> \<not> wx (wx_flags s fl)"
  by (auto simp: wx_flags_def entry_bits bit_or_iff flag_pow2 bit_pow2 and_pow2_eq_0)

lemma wx_flags_harmless: "\<not> wx fl \<Longrightarrow> wx_flags s fl = fl"
  by (auto simp: wx_flags_def wx_def)

lemma vlookup_vpage: "vpage w = vpage v \<Longrightarrow> vlookup s w = vlookup s v"
proof -
  assume "vpage w = vpage v"
  then have "PML4_INDEX w = PML4_INDEX v" "PDPT_INDEX w = PDPT_INDEX v" "PD_INDEX w = PD_INDEX v" "PT_INDEX w = PT_INDEX v"
    by (simp_all add: vpage_def)
  then show ?thesis by (simp only: vlookup_def)
qed

lemma wx_pages_update:
  assumes l: "\<And>w. vlookup s' w = (if vpage w \<in> R then g w else vlookup s w)"
    and g: "\<And>w e. vpage w \<in> R \<Longrightarrow> g w = Page4K e \<or> g w = Page2M e \<Longrightarrow> \<not> wx e"
  shows "wx_pages s' = wx_pages s - R"
proof -
  have "x \<in> wx_pages s' \<longleftrightarrow> x \<in> wx_pages s - R" for x
  proof
    assume "x \<in> wx_pages s'"
    then obtain v e where v: "x = vpage v" "vlookup s' v = Page4K e \<or> vlookup s' v = Page2M e" "wx e"
      unfolding wx_pages_def by blast
    then have "vpage v \<notin> R" using l [of v] g [of v e] by auto
    then show "x \<in> wx_pages s - R" using v l [of v] unfolding wx_pages_def by auto
  next
    assume x: "x \<in> wx_pages s - R"
    then obtain v e where v: "x = vpage v" "vlookup s v = Page4K e \<or> vlookup s v = Page2M e" "wx e"
      unfolding wx_pages_def by blast
    then show "x \<in> wx_pages s'" using x l [of v] unfolding wx_pages_def by auto
  qed
  then show ?thesis by blast
qed

subsection \<open>Ranges\<close>

definition leaf :: "u64 \<Rightarrow> mapping" where
  "leaf e = (if present e then Page4K e else Unmapped)"

definition range_pages :: "u64 \<Rightarrow> u64 \<Rightarrow> nat \<Rightarrow> (u64 \<times> u64 \<times> u64 \<times> u64) set" where
  "range_pages virt sz n = {vpage (virt + of_nat k) | k. 4096 dvd k \<and> n \<le> k \<and> k < unat sz}"

text \<open>The pages that the rest of a range visits.\<close>

definition npages :: "u64 \<Rightarrow> nat \<Rightarrow> nat" where
  "npages sz n = (unat sz + 4095 - n) div 4096"

lemma npages_step: "n < unat sz \<Longrightarrow> npages sz n = npages sz (n + 4096) + 1"
proof -
  assume "n < unat sz"
  then have "unat sz + 4095 - n = (unat sz + 4095 - (n + 4096)) + 4096" by simp
  then show ?thesis unfolding npages_def by (metis div_add_self2 zero_neq_numeral)
qed

definition no_huge :: "vmm_state \<Rightarrow> (u64 \<times> u64 \<times> u64 \<times> u64) set \<Rightarrow> bool" where
  "no_huge s R \<longleftrightarrow> (\<forall>v e. vpage v \<in> R \<longrightarrow> vlookup s v \<noteq> Page2M e)"

lemma range_pages_step:
  assumes "4096 dvd n" "n < unat sz"
  shows "range_pages virt sz n = insert (vpage (virt + of_nat n)) (range_pages virt sz (n + 4096))"
proof -
  have "n \<le> k \<longleftrightarrow> k = n \<or> n + 4096 \<le> k" if d: "4096 dvd k" for k
  proof -
    obtain a b where "k = 4096 * a" "n = 4096 * b" using d assms(1) unfolding dvd_def by blast
    then show ?thesis by auto
  qed
  then show ?thesis using assms unfolding range_pages_def by fastforce
qed

text \<open>The pages of the range from offset \<open>n\<close> on are mapped and no other translation has changed.\<close>

definition range_mapped :: "vmm_state \<Rightarrow> vmm_state \<Rightarrow> u64 \<Rightarrow> u64 \<Rightarrow> u64 \<Rightarrow> u64 \<Rightarrow> nat \<Rightarrow> bool" where
  "range_mapped s s' virt phys sz fl n \<longleftrightarrow>
     (\<forall>w. vpage w \<notin> range_pages virt sz n \<longrightarrow> vlookup s' w = vlookup s w) \<and>
     (\<forall>w. vpage w \<in> range_pages virt sz n \<longrightarrow> (\<exists>k. 4096 dvd k \<and> n \<le> k \<and> k < unat sz \<and> vpage w = vpage (virt + of_nat k) \<and>
        vlookup s' w = leaf ((phys + of_nat k) OR wx_flags s fl)))"

lemma range_mapped_step:
  assumes n: "4096 dvd n" "n < unat sz"
    and one: "\<And>w. vlookup s1 w = (if vpage w = vpage (virt + of_nat n) then leaf ((phys + of_nat n) OR wx_flags s fl) else vlookup s w)"
    and wf: "wx_flags s1 fl = wx_flags s fl" and rest: "range_mapped s1 s' virt phys sz fl (n + 4096)"
  shows "range_mapped s s' virt phys sz fl n"
proof -
  note R = range_pages_step [OF n, of virt] 
  have M1: "vpage w \<notin> range_pages virt sz (n + 4096) \<Longrightarrow> vlookup s' w = vlookup s1 w" for w
    using rest unfolding range_mapped_def by blast
  have "vlookup s' w = vlookup s w" if "vpage w \<notin> range_pages virt sz n" for w
    using that M1 [of w] one [of w] unfolding R by simp
  moreover have "\<exists>k. 4096 dvd k \<and> n \<le> k \<and> k < unat sz \<and> vpage w = vpage (virt + of_nat k) \<and>
      vlookup s' w = leaf ((phys + of_nat k) OR wx_flags s fl)" if w: "vpage w \<in> range_pages virt sz n" for w
  proof (cases "vpage w \<in> range_pages virt sz (n + 4096)")
    case True
    then obtain k where "4096 dvd k" "n + 4096 \<le> k" "k < unat sz" "vpage w = vpage (virt + of_nat k)"
      "vlookup s' w = leaf ((phys + of_nat k) OR wx_flags s fl)"
      using rest unfolding range_mapped_def wf by blast
    then show ?thesis by (intro exI [of _ k]) simp
  next
    case False
    then have "vpage w = vpage (virt + of_nat n)" using w R by blast
    moreover have "vlookup s' w = leaf ((phys + of_nat n) OR wx_flags s fl)" using False M1 [of w] one [of w] calculation by simp
    ultimately show ?thesis using n by (intro exI [of _ n]) simp
  qed
  ultimately show ?thesis unfolding range_mapped_def by blast
qed

lemma map_range_loop_steps:
  assumes "vmm_inv s A M" "IS_PAGE_ALIGNED virt" "IS_PAGE_ALIGNED phys" "4096 dvd n"
    "no_huge s (range_pages virt sz n)"
  shows "map_range_loop s virt phys sz fl n = Inl KAssert \<and> frames_left A M < 3 * npages sz n \<or>
    (\<exists>s' A'. map_range_loop s virt phys sz fl n = Inr s' \<and> vmm_inv s' A' M \<and> A \<subseteq> A' \<and> wx_enforced s' = wx_enforced s \<and>
       frames_left A M \<le> frames_left A' M + 3 * npages sz n \<and> range_mapped s s' virt phys sz fl n)"
  using assms
proof (induction s virt phys sz fl n arbitrary: A rule: map_range_loop.induct)
  case (1 s virt phys sz fl n)
  show ?case
  proof (cases "unat sz \<le> n")
    case True
    then have "range_pages virt sz n = {}" by (auto simp: range_pages_def)
    then have "range_mapped s s virt phys sz fl n" by (simp add: range_mapped_def)
    moreover have "map_range_loop s virt phys sz fl n = Inr s" using True by (subst map_range_loop.simps) simp
    ultimately show ?thesis using "1.prems"(1) by (intro disjI2 exI [of _ s] exI [of _ A]) simp
  next
    case False
    then have lt: "n < unat sz" and np: "npages sz n = npages sz (n + 4096) + 1" using npages_step by simp_all
    let ?v = "virt + of_nat n" and ?p = "phys + of_nat n"
    have al: "IS_PAGE_ALIGNED ?v" "IS_PAGE_ALIGNED ?p" using aligned_add "1.prems"(2-4) by blast+
    note R = range_pages_step [OF "1.prems"(4) lt, of virt]
    have nh: "vlookup s ?v \<noteq> Page2M e" for e using "1.prems"(5) R unfolding no_huge_def by blast
    have unf: "map_range_loop s virt phys sz fl n =
        bnd (vmm_map_page s ?v ?p fl) (\<lambda>s1. map_range_loop s1 virt phys sz fl (n + 4096))"
      using False by (subst map_range_loop.simps) simp
    show ?thesis
    proof (cases "vmm_map_page s ?v ?p fl = Inl KAssert")
      case True
      then have "frames_left A M < 3" using map_page_spec [OF "1.prems"(1) al nh, of fl] by auto
      then show ?thesis using unf True np by simp
    next
      case F: False
      then obtain s1 A1 where s1: "vmm_map_page s ?v ?p fl = Inr s1" "vmm_inv s1 A1 M" "A \<subseteq> A1" "wx_enforced s1 = wx_enforced s"
        "\<And>w. vlookup s1 w = (if vpage w = vpage ?v then leaf (?p OR wx_flags s fl) else vlookup s w)"
        "frames_left A M \<le> frames_left A1 M + 3"
        using map_page_spec [OF "1.prems"(1) al nh, of fl] unfolding leaf_def by blast
      have wf: "wx_flags s1 fl = wx_flags s fl" using s1(4) by (simp add: wx_flags_def)
      have nh1: "no_huge s1 (range_pages virt sz (n + 4096))"
        using s1(5) "1.prems"(5) R by (auto simp: leaf_def no_huge_def)
      have d: "4096 dvd n + 4096" using "1.prems"(4) by simp
      from "1.IH" [OF False s1(1,2) "1.prems"(2,3) d nh1] show ?thesis
      proof (elim disjE exE conjE)
        fix s' A'
        assume "map_range_loop s1 virt phys sz fl (n + 4096) = Inr s'" "vmm_inv s' A' M" "A1 \<subseteq> A'" "wx_enforced s' = wx_enforced s1"
          "frames_left A1 M \<le> frames_left A' M + 3 * npages sz (n + 4096)" "range_mapped s1 s' virt phys sz fl (n + 4096)"
        then show ?thesis
          using unf s1(1,3,4,6) np range_mapped_step [OF "1.prems"(4) lt s1(5) wf] by (intro disjI2 exI [of _ s'] exI [of _ A']) auto
      qed (use unf s1(1,6) np in simp)
    qed
  qed
qed

lemmas map_range_loop_spec = map_range_loop_steps [unfolded range_mapped_def]

text \<open>A range of less than \<open>2^48\<close> bytes visits each page once.\<close>

lemma index_bits:
  "bit (PML4_INDEX v) i \<longleftrightarrow> i < 9 \<and> bit v (39 + i)" "bit (PDPT_INDEX v) i \<longleftrightarrow> i < 9 \<and> bit v (30 + i)"
  "bit (PD_INDEX v) i \<longleftrightarrow> i < 9 \<and> bit v (21 + i)" "bit (PT_INDEX v) i \<longleftrightarrow> i < 9 \<and> bit v (12 + i)"
proof -
  have m: "(0x1FF :: u64) = mask 9" by (simp add: mask_eq_exp_minus_1)
  show "bit (PML4_INDEX v) i \<longleftrightarrow> i < 9 \<and> bit v (39 + i)" "bit (PDPT_INDEX v) i \<longleftrightarrow> i < 9 \<and> bit v (30 + i)"
    "bit (PD_INDEX v) i \<longleftrightarrow> i < 9 \<and> bit v (21 + i)" "bit (PT_INDEX v) i \<longleftrightarrow> i < 9 \<and> bit v (12 + i)"
    unfolding PML4_INDEX_def PDPT_INDEX_def PD_INDEX_def PT_INDEX_def m
    by (auto simp: bit_take_bit_iff bit_drop_bit_eq simp flip: take_bit_eq_mask)
qed

lemma vpage_iff: "vpage v = vpage w \<longleftrightarrow> (\<forall>i. 12 \<le> i \<and> i < 48 \<longrightarrow> bit v i = bit w i)"
proof
  assume e: "vpage v = vpage w"
  show "\<forall>i. 12 \<le> i \<and> i < 48 \<longrightarrow> bit v i = bit w i"
  proof (intro allI impI)
    fix i :: nat assume i: "12 \<le> i \<and> i < 48"
    consider "i < 21" | "21 \<le> i" "i < 30" | "30 \<le> i" "i < 39" | "39 \<le> i" by linarith
    then show "bit v i = bit w i"
    proof cases
      case 1
      then show ?thesis using e i index_bits(4) [of v "i - 12"] index_bits(4) [of w "i - 12"] by (auto simp: vpage_def)
    next
      case 2
      then show ?thesis using e i index_bits(3) [of v "i - 21"] index_bits(3) [of w "i - 21"] by (auto simp: vpage_def)
    next
      case 3
      then show ?thesis using e i index_bits(2) [of v "i - 30"] index_bits(2) [of w "i - 30"] by (auto simp: vpage_def)
    next
      case 4
      then show ?thesis using e i index_bits(1) [of v "i - 39"] index_bits(1) [of w "i - 39"] by (auto simp: vpage_def)
    qed
  qed
next
  assume e: "\<forall>i. 12 \<le> i \<and> i < 48 \<longrightarrow> bit v i = bit w i"
  show "vpage v = vpage w"
    unfolding vpage_def by (auto intro!: bit_word_eqI simp: index_bits e)
qed

lemma vpage_nat: "vpage v = vpage w \<longleftrightarrow> (unat v div 2 ^ 12) mod 2 ^ 36 = (unat w div 2 ^ 12) mod 2 ^ 36"
proof -
  have "(unat v div 2 ^ 12) mod 2 ^ 36 = (unat w div 2 ^ 12) mod 2 ^ 36 \<longleftrightarrow>
      take_bit 36 (drop_bit 12 (unat v)) = take_bit 36 (drop_bit 12 (unat w))"
    by (simp only: take_bit_eq_mod drop_bit_eq_div)
  also have "\<dots> \<longleftrightarrow> (\<forall>i. i < 36 \<longrightarrow> bit v (12 + i) = bit w (12 + i))"
    by (auto simp: bit_eq_iff bit_take_bit_iff bit_drop_bit_eq bit_unsigned_iff)
  also have "\<dots> \<longleftrightarrow> vpage v = vpage w"
    unfolding vpage_iff
  proof
    assume a: "\<forall>i < 36. bit v (12 + i) = bit w (12 + i)"
    show "\<forall>i. 12 \<le> i \<and> i < 48 \<longrightarrow> bit v i = bit w i"
    proof (intro allI impI)
      fix i :: nat assume "12 \<le> i \<and> i < 48"
      then have "i - 12 < 36" "12 + (i - 12) = i" by auto
      then show "bit v i = bit w i" using a by metis
    qed
  qed auto
  finally show ?thesis by simp
qed

lemma mod_shift_le:
  assumes "(V + a) mod m = (V + b) mod (m :: nat)" "b < m" "a \<le> b"
  shows "a = b"
proof (rule ccontr)
  assume "a \<noteq> b"
  have "m dvd (V + b) - (V + a)" using assms(1,3) mod_eq_dvd_iff_nat [of "V + a" "V + b" m] by simp
  then have "m dvd b - a" by simp
  then show False using nat_dvd_not_less [of "b - a" m] assms(2,3) \<open>a \<noteq> b\<close> by simp
qed

lemma mod_shift_eq:
  assumes "(V + a) mod m = (V + b) mod (m :: nat)" "a < m" "b < m"
  shows "a = b"
  using mod_shift_le [OF assms(1,3)] mod_shift_le [OF assms(1) [symmetric] assms(2)] by linarith

lemma vpage_shift:
  assumes "IS_PAGE_ALIGNED v" "4096 dvd j" "4096 dvd k" "j < 2 ^ 48" "k < 2 ^ 48" "vpage (v + of_nat j) = vpage (v + of_nat k)"
  shows "j = k"
proof -
  obtain V where V: "unat v = 4096 * V" using assms(1) unfolding aligned_dvd dvd_def by blast
  obtain a b where ab: "j = 4096 * a" "k = 4096 * b" using assms(2,3) unfolding dvd_def by blast
  have u: "unat (v + of_nat (4096 * c)) = 4096 * ((V + c) mod 2 ^ 52)" for c
  proof -
    have "unat (v + of_nat (4096 * c)) = (4096 * (V + c)) mod (4096 * 2 ^ 52)"
      unfolding unat_plus_nat V by (simp only: distrib_left [symmetric]) simp
    then show ?thesis by (simp only: mult_mod_right)
  qed
  have r: "(4096 * ((V + c) mod 2 ^ 52)) div 2 ^ 12 mod 2 ^ 36 = (V + c) mod 2 ^ 36" for c
  proof -
    have "(4096 * ((V + c) mod 2 ^ 52)) div 2 ^ 12 = (V + c) mod 2 ^ 52" by simp
    moreover have "(V + c) mod 2 ^ 52 mod 2 ^ 36 = (V + c) mod 2 ^ 36" by (rule mod_mod_cancel) (simp add: le_imp_power_dvd)
    ultimately show ?thesis by simp
  qed
  have "(V + a) mod 2 ^ 36 = (V + b) mod 2 ^ 36" using assms(6) unfolding vpage_nat ab u r .
  moreover have "a < 2 ^ 36" "b < 2 ^ 36" using assms(4,5) ab by simp_all
  ultimately have "a = b" by (rule mod_shift_eq)
  then show ?thesis using ab by simp
qed

lemma map_range_spec:
  assumes "vmm_inv s A M" "IS_PAGE_ALIGNED virt" "IS_PAGE_ALIGNED phys"
    "no_huge s (range_pages virt sz 0)" "unat sz \<le> 2 ^ 48"
  shows "vmm_map_range s virt phys sz fl = Inl KAssert \<and> frames_left A M < 3 * npages sz 0 \<or>
    (\<exists>s' A'. vmm_map_range s virt phys sz fl = Inr s' \<and> vmm_inv s' A' M \<and> A \<subseteq> A' \<and> wx_enforced s' = wx_enforced s \<and>
       (\<forall>w. vpage w \<notin> range_pages virt sz 0 \<longrightarrow> vlookup s' w = vlookup s w) \<and>
       (\<forall>k. 4096 dvd k \<and> k < unat sz \<longrightarrow> vlookup s' (virt + of_nat k) = leaf ((phys + of_nat k) OR wx_flags s fl)))"
proof -
  have "4096 dvd (0 :: nat)" by simp
  note R = map_range_loop_spec [where sz = sz and fl = fl, OF assms(1-3) this assms(4)]
  show ?thesis
    unfolding vmm_map_range_def using R
  proof (elim disjE exE conjE)
    fix s' A'
    assume r: "map_range_loop s virt phys sz fl 0 = Inr s'" "vmm_inv s' A' M" "A \<subseteq> A'" "wx_enforced s' = wx_enforced s"
      "\<forall>w. vpage w \<notin> range_pages virt sz 0 \<longrightarrow> vlookup s' w = vlookup s w"
      "\<forall>w. vpage w \<in> range_pages virt sz 0 \<longrightarrow> (\<exists>k. 4096 dvd k \<and> 0 \<le> k \<and> k < unat sz \<and> vpage w = vpage (virt + of_nat k) \<and>
          vlookup s' w = leaf ((phys + of_nat k) OR wx_flags s fl))"
    have "vlookup s' (virt + of_nat k) = leaf ((phys + of_nat k) OR wx_flags s fl)" if k: "4096 dvd k" "k < unat sz" for k
    proof -
      have "vpage (virt + of_nat k) \<in> range_pages virt sz 0" using k unfolding range_pages_def by blast
      then obtain j where j: "4096 dvd j" "j < unat sz" "vpage (virt + of_nat k) = vpage (virt + of_nat j)"
        "vlookup s' (virt + of_nat k) = leaf ((phys + of_nat j) OR wx_flags s fl)" using r(6) by blast
      have "k < 2 ^ 48" "j < 2 ^ 48" using k(2) j(2) assms(5) by linarith+
      from vpage_shift [OF assms(2) k(1) j(1) this j(3)] show ?thesis using j(4) by simp
    qed
    then show "map_range_loop s virt phys sz fl 0 = Inl KAssert \<and> frames_left A M < 3 * npages sz 0 \<or>
      (\<exists>s' A'. map_range_loop s virt phys sz fl 0 = Inr s' \<and> vmm_inv s' A' M \<and> A \<subseteq> A' \<and> wx_enforced s' = wx_enforced s \<and>
       (\<forall>w. vpage w \<notin> range_pages virt sz 0 \<longrightarrow> vlookup s' w = vlookup s w) \<and>
       (\<forall>k. 4096 dvd k \<and> k < unat sz \<longrightarrow> vlookup s' (virt + of_nat k) = leaf ((phys + of_nat k) OR wx_flags s fl)))"
      using r(1-5) by (intro disjI2 exI [of _ s'] exI [of _ A'] conjI) simp_all
  qed simp
qed

lemma map_range_wx:
  assumes "vmm_inv s A M" "IS_PAGE_ALIGNED virt" "IS_PAGE_ALIGNED phys"
    "no_huge s (range_pages virt sz 0)" "\<not> wx fl"
    "vmm_map_range s virt phys sz fl = Inr s'"
  shows "wx_pages s' = wx_pages s - range_pages virt sz 0"
proof -
  have "4096 dvd (0 :: nat)" by simp
  note R = map_range_loop_spec [where sz = sz and fl = fl, OF assms(1-3) this assms(4)]
  from R assms(6) have r: "\<And>w. vpage w \<notin> range_pages virt sz 0 \<Longrightarrow> vlookup s' w = vlookup s w"
      "\<And>w. vpage w \<in> range_pages virt sz 0 \<Longrightarrow> \<exists>k. 4096 dvd k \<and> k < unat sz \<and> vlookup s' w = leaf ((phys + of_nat k) OR wx_flags s fl)"
    unfolding vmm_map_range_def by auto
  have wf: "wx_flags s fl = fl" by (rule wx_flags_harmless [OF assms(5)])
  show ?thesis
  proof (rule wx_pages_update [where g = "vlookup s'"])
    show "vlookup s' w = (if vpage w \<in> range_pages virt sz 0 then vlookup s' w else vlookup s w)" for w
      using r(1) [of w] by simp
    show "\<not> wx e" if w: "vpage w \<in> range_pages virt sz 0" "vlookup s' w = Page4K e \<or> vlookup s' w = Page2M e" for w e
    proof -
      obtain k where k: "4096 dvd k" "vlookup s' w = leaf ((phys + of_nat k) OR fl)" using r(2) [OF w(1)] wf by auto
      then have "e = (phys + of_nat k) OR fl" using w(2) by (auto simp: leaf_def split: if_splits)
      then show ?thesis using wx_or [OF aligned_add [OF assms(3) k(1)], of fl] assms(5) by blast
    qed
  qed
qed

subsection \<open>The audit\<close>

lemma vpage_onto:
  assumes "a < 512" "b < 512" "c < 512" "d < (512 :: u64)"
  shows "\<exists>v. vpage v = (a, b, c, d)"
proof -
  define v where "v = push_bit 39 a OR push_bit 30 b OR push_bit 21 c OR push_bit 12 d"
  have hi: "\<not> bit x i" if "x < 512" "9 \<le> i" for x :: u64 and i
  proof -
    have "unat x < 2 ^ 9" using that(1) by (simp add: word_less_nat_alt)
    also have "\<dots> \<le> 2 ^ i" using that(2) by (rule power_increasing) simp
    finally have "\<not> bit (unat x) i" by (simp add: bit_iff_odd)
    then show ?thesis by (auto simp: bit_unsigned_iff dest: bit_imp_le_length)
  qed
  have b: "bit v i \<longleftrightarrow> i < 64 \<and> (39 \<le> i \<and> bit a (i - 39) \<or> 30 \<le> i \<and> bit b (i - 30) \<or>
      21 \<le> i \<and> bit c (i - 21) \<or> 12 \<le> i \<and> bit d (i - 12))" for i
    unfolding v_def by (auto simp: bit_or_iff bit_push_bit_iff)
  have lo: "bit a i \<Longrightarrow> i < 9" "bit b i \<Longrightarrow> i < 9" "bit c i \<Longrightarrow> i < 9" "bit d i \<Longrightarrow> i < 9" for i
    using hi assms by (meson not_le)+
  have "PML4_INDEX v = a" by (rule bit_word_eqI) (auto simp: index_bits b dest: lo)
  moreover have "PDPT_INDEX v = b" by (rule bit_word_eqI) (auto simp: index_bits b dest: lo)
  moreover have "PD_INDEX v = c" by (rule bit_word_eqI) (auto simp: index_bits b dest: lo)
  moreover have "PT_INDEX v = d" by (rule bit_word_eqI) (auto simp: index_bits b dest: lo)
  ultimately show ?thesis by (auto simp: vpage_def)
qed

lemma entries_zero:
  "(\<And>i. i < 512 \<Longrightarrow> g (ptab s t i) = 0) \<Longrightarrow> sum_list (map g (table_entries s t)) = (0 :: nat)"
  by (auto simp: table_entries_def word_less_nat_alt unat_of_nat)

lemma clean_leaf: "wx_pages s = {} \<Longrightarrow> vlookup s v = Page4K e \<or> vlookup s v = Page2M e \<Longrightarrow> \<not> wx e"
  unfolding wx_pages_def by blast

lemma audit_zero:
  assumes inv: "vmm_inv s A M" and clean: "wx_pages s = {}"
  shows "vmm_audit_wx s = 0"
proof -
  have pt: "audit_pt s u = 0" if abc: "a < 512" "b < 512" "c < 512" "tab s [c, b, a] = Some u" for a b c u
  proof -
    have nw: "\<not> wx (ptab s u d)" if d: "d < 512" "present (ptab s u d)" for d
    proof -
      obtain v where v: "vpage v = (a, b, c, d)" using vpage_onto [OF abc(1-3) d(1)] by blast
      obtain x where x: "tab s [b, a] = Some x" "\<not> huge (ptab s x c)" using tab_SomeD [OF abc(4)] by blast
      have "vlookup s v = Page4K (ptab s u d)" using v abc(4) x d(2) by (simp add: vlookup_def vpage_def)
      then show ?thesis using clean_leaf [OF clean] by blast
    qed
    show ?thesis
      using nw unfolding audit_pt_def table_entries_def by (auto simp: filter_empty_conv word_less_nat_alt unat_of_nat)
  qed
  have pd: "audit_pd s u = 0" if ab: "a < 512" "b < 512" "tab s [b, a] = Some u" for a b u
    unfolding audit_pd_def
  proof (rule entries_zero)
    fix c :: u64 assume c: "c < 512"
    have "\<not> wx (ptab s u c)" if h: "present (ptab s u c)" "huge (ptab s u c)"
    proof -
      have "(0 :: u64) < 512" by simp
      then obtain v where v: "vpage v = (a, b, c, 0)" using vpage_onto [OF ab(1,2) c] by blast
      have "vlookup s v = Page2M (ptab s u c)" using v ab(3) h by (simp add: vlookup_def vpage_def)
      then show ?thesis using clean_leaf [OF clean] by blast
    qed
    moreover have "audit_pt s (pte_to_phys (ptab s u c)) = 0" if "present (ptab s u c)" "\<not> huge (ptab s u c)"
      by (rule pt [OF ab(1,2) c]) (use ab(3) that in \<open>simp add: tab.simps(2)\<close>)
    ultimately show "(if \<not> present (ptab s u c) then 0 else if huge (ptab s u c) then (if wx (ptab s u c) then 1 else 0)
        else audit_pt s (pte_to_phys (ptab s u c))) = 0" by simp
  qed
  have "audit_pdpt s u = 0" if a: "a < 512" "tab s [a] = Some u" for a u
    unfolding audit_pdpt_def
  proof (rule entries_zero)
    fix b :: u64 assume b: "b < 512"
    have "audit_pd s (pte_to_phys (ptab s u b)) = 0" if "present (ptab s u b)" "\<not> huge (ptab s u b)"
      by (rule pd [OF a(1) b]) (use a(2) that in \<open>simp add: tab.simps(2) [of s b]\<close>)
    then show "(if \<not> present (ptab s u b) \<or> huge (ptab s u b) then 0 else audit_pd s (pte_to_phys (ptab s u b))) = 0" by simp
  qed
  moreover have "\<not> huge (ptab s (pml4_phys s) a)" if "present (ptab s (pml4_phys s) a)" for a
    by (rule vmm_invD(6) [OF inv, of "[]"]) (use that in simp_all)
  ultimately have z: "sum_list (map (\<lambda>e. if \<not> present e then 0 else audit_pdpt s (pte_to_phys e)) (table_entries s (pml4_phys s))) = 0"
    by (intro entries_zero) (simp add: tab.simps(2))
  show ?thesis unfolding vmm_audit_wx_def z by simp
qed

subsection \<open>A small address space\<close>

lemma demo_page: "\<exists>m f. pmm_in ({2..<9} \<union> {10..<11}) m {(f, 0)}"
proof -
  let ?M = "{2..<9} \<union> {10..<11} :: nat set"
  obtain s F where s: "pmm_inv s F {} ?M" using demo_boot by blast
  have "bset (2, 0) \<subseteq> cover F" using pmm_inv_free_wf(4) [OF s] by (auto simp: bset_def)
  then obtain m f F' where "pmm_inv m F' (insert (f, 0) {}) ?M"
    using pmm_alloc_success [OF s, of 0 2] by (auto simp: PMM_NUM_ORDERS_def)
  then show ?thesis unfolding pmm_in_def by (intro exI [of _ m] exI [of _ f]) auto
qed

definition vmm_demo :: "pmm_state \<Rightarrow> nat \<Rightarrow> vmm_state" where
  "vmm_demo m f = \<lparr>ptab = (\<lambda>_ _. 0), pml4_phys = pfn_to_phys f, vpmm = m, tables_allocated = 1, wx_enforced = True, tlb_flushed = []\<rparr>"

lemma vmm_demo_tab: "tab (vmm_demo m f) p = (if p = [] then Some (pfn_to_phys f) else None)"
  by (induction p) (auto simp: vmm_demo_def tab.simps(2) zero_entry split: option.splits)

lemma vmm_demo_lookup: "vlookup (vmm_demo m f) v = Unmapped"
  by (simp add: vlookup_def vmm_demo_tab)

lemma vmm_demo_inv: "\<exists>m f. vmm_inv (vmm_demo m f) {(f, 0)} ({2..<9} \<union> {10..<11})"
proof -
  let ?M = "{2..<9} \<union> {10..<11} :: nat set"
  obtain m f where m: "pmm_in ?M m {(f, 0)}" using demo_page by blast
  obtain F where F: "pmm_inv m F {(f, 0)} ?M" using m by (auto simp: pmm_in_def)
  have "f \<in> cover {(f, 0)}" by (force simp: cover_def bset_def)
  then have f: "f \<in> ?M" using pmm_inv_free_wf(5) [OF F] by blast
  then have "f < 2 ^ 52" "f \<noteq> 0" by auto
  then have "pfn_to_phys f \<noteq> 0" using pfn_to_phys_facts(3) [of f] by blast
  moreover have "?M \<subseteq> {..<2 ^ 40}" by auto
  ultimately have "vmm_inv (vmm_demo m f) {(f, 0)} ?M"
    unfolding vmm_inv_def vmm_demo_tab using m by (auto simp: vmm_demo_def zero_entry split: if_splits)
  then show ?thesis by blast
qed

subsection \<open>Properties\<close>

text \<open>C19: mapping a page. In a well-formed address space (the tables form a tree of frames owned by
  the kernel), mapping an aligned page that is not part of a 2 MB page to an aligned address, with flags that include the
  present bit, either stops because fewer than the three frames are left that new tables may take, or enters exactly
  this page with the given frame and exactly the given flags (and no-execute when enforcement is on and the flags ask for a page
  that is writable and executable), changes no other page, flushes the address and keeps the address space
  well formed; the translation then returns the frame with the offset of the address.\<close>

theorem vmm_map_page_correct:
  assumes "vmm_inv s A M" "IS_PAGE_ALIGNED v" "IS_PAGE_ALIGNED p" "\<forall>e. vlookup s v \<noteq> Page2M e" "present fl"
  shows "vmm_map_page s v p fl = Inl KAssert \<and> frames_left A M < 3 \<or>
    (\<exists>s' A'. vmm_map_page s v p fl = Inr s' \<and> vmm_inv s' A' M \<and> A \<subseteq> A' \<and> tlb_flushed s' = tlb_flushed s @ [v] \<and>
       (\<forall>w. vlookup s' w = (if vpage w = vpage v then Page4K (p OR (if wx_enforced s \<and> wx fl then fl OR PTE_NX else fl))
          else vlookup s w)) \<and>
       (\<forall>w. vpage w = vpage v \<longrightarrow> vmm_virt_to_phys s' w = ((p OR wx_flags s fl) AND PTE_ADDR_MASK) OR (w AND 0xFFF)) \<and>
       (\<forall>w. vpage w \<noteq> vpage v \<longrightarrow> vmm_virt_to_phys s' w = vmm_virt_to_phys s w))"
proof -
  have wf: "wx_flags s fl = (if wx_enforced s \<and> wx fl then fl OR PTE_NX else fl)" by (simp add: wx_flags_def wx_def)
  have pr: "present (p OR wx_flags s fl)" using assms(5) by (auto simp: entry_bits bit_or_iff wx_flags_def)
  show ?thesis
  proof (cases "vmm_map_page s v p fl = Inl KAssert \<and> frames_left A M < 3")
    case False
    then obtain s' A' where r: "vmm_map_page s v p fl = Inr s'" "vmm_inv s' A' M" "A \<subseteq> A'" "tlb_flushed s' = tlb_flushed s @ [v]"
      "\<And>w. vlookup s' w = (if vpage w = vpage v then Page4K (p OR wx_flags s fl) else vlookup s w)"
      using map_page_spec [OF assms(1-3), of fl] assms(4) pr by auto
    have "vmm_virt_to_phys s' w = ((p OR wx_flags s fl) AND PTE_ADDR_MASK) OR (w AND 0xFFF)" if "vpage w = vpage v" for w
      unfolding virt_to_phys_spec [OF r(2)] r(5) using that by simp
    moreover have "vmm_virt_to_phys s' w = vmm_virt_to_phys s w" if "vpage w \<noteq> vpage v" for w
      unfolding virt_to_phys_spec [OF r(2)] virt_to_phys_spec [OF assms(1)] r(5) using that by simp
    ultimately show ?thesis using r unfolding wf by blast
  qed simp
qed

lemma demo_frames_left: "3 \<le> frames_left {(f, 0)} ({2..<9} \<union> {10..<11})"
proof -
  have "{3, 4, 5, 6} - {f} \<subseteq> ({2..<9} \<union> {10..<11}) - cover {(f, 0)}" by (auto simp: cover_def bset_def)
  then have "card ({3, 4, 5, 6} - {f}) \<le> card (({2..<9} \<union> {10..<11}) - cover {(f, 0)})" by (intro card_mono) auto
  moreover have "3 \<le> card ({3, 4, 5, 6} - {f})" by (cases "f \<in> {3, 4, 5, 6}") (simp_all add: card_Diff_singleton_if)
  ultimately show ?thesis by (simp add: frames_left_def)
qed

theorem vmm_map_page_correct_witness:
  "\<exists>m f s'. vmm_map_page (vmm_demo m f) 0x40000000 0x5000 VMM_FLAGS_KERNEL_RW = Inr s' \<and>
     vlookup s' 0x40000000 = Page4K 0x8000000000005103 \<and> vmm_virt_to_phys s' 0x40000123 = 0x5123 \<and> vmm_virt_to_phys s' 0x40001000 = 0"
proof -
  obtain m f where i: "vmm_inv (vmm_demo m f) {(f, 0)} ({2..<9} \<union> {10..<11})" using vmm_demo_inv by blast
  let ?fl = "VMM_FLAGS_KERNEL_RW"
  have a: "IS_PAGE_ALIGNED 0x40000000" "IS_PAGE_ALIGNED 0x5000" "present ?fl"
    by (simp_all add: IS_PAGE_ALIGNED_def PAGE_SIZE_def present_def VMM_FLAGS_KERNEL_RW_def PTE_PRESENT_def PTE_WRITE_def PTE_GLOBAL_def PTE_NX_def)
  have p: "vpage 0x40000123 = vpage 0x40000000" "vpage 0x40001000 \<noteq> vpage 0x40000000"
    by (simp_all add: vpage_def PML4_INDEX_def PDPT_INDEX_def PD_INDEX_def PT_INDEX_def)
  have e: "((0x5000 OR wx_flags (vmm_demo m f) ?fl) AND PTE_ADDR_MASK) OR (0x40000123 AND 0xFFF) = 0x5123"
    "0x5000 OR ?fl = 0x8000000000005103" "\<not> wx ?fl"
    by (simp_all add: wx_flags_def wx_def VMM_FLAGS_KERNEL_RW_def PTE_PRESENT_def PTE_WRITE_def PTE_GLOBAL_def PTE_NX_def PTE_ADDR_MASK_def)
  have z: "vmm_virt_to_phys (vmm_demo m f) 0x40001000 = 0"
    by (simp add: virt_to_phys_spec [OF i] vmm_demo_lookup)
  have n: "\<forall>e. vlookup (vmm_demo m f) 0x40000000 \<noteq> Page2M e" by (simp add: vmm_demo_lookup)
  have nl: "\<not> frames_left {(f, 0)} ({2..<9} \<union> {10..<11}) < 3" using demo_frames_left [of f] by simp
  obtain s' where s': "vmm_map_page (vmm_demo m f) 0x40000000 0x5000 ?fl = Inr s'"
    "\<forall>w. vlookup s' w = (if vpage w = vpage 0x40000000 then Page4K (0x5000 OR (if wx_enforced (vmm_demo m f) \<and> wx ?fl then ?fl OR PTE_NX else ?fl))
       else vlookup (vmm_demo m f) w)"
    "\<forall>w. vpage w = vpage 0x40000000 \<longrightarrow> vmm_virt_to_phys s' w = ((0x5000 OR wx_flags (vmm_demo m f) ?fl) AND PTE_ADDR_MASK) OR (w AND 0xFFF)"
    "\<forall>w. vpage w \<noteq> vpage 0x40000000 \<longrightarrow> vmm_virt_to_phys s' w = vmm_virt_to_phys (vmm_demo m f) w"
    using vmm_map_page_correct [OF i a(1,2) n a(3)] nl by blast
  have "vlookup s' 0x40000000 = Page4K 0x8000000000005103" using s'(2) e(2,3) by simp
  moreover have "vmm_virt_to_phys s' 0x40000123 = 0x5123" using s'(3) p(1) e(1) by metis
  moreover have "vmm_virt_to_phys s' 0x40001000 = 0" using s'(4) p(2) z by metis
  ultimately show ?thesis using s'(1) by blast
qed

text \<open>C21: unmapping a page never stops; the page is not mapped afterwards and no other page is
  affected, unless the page lies in a 2 MB page, when nothing changes at all (so the guard pages
  requested inside the direct map, which is mapped with 2 MB pages, stay mapped).\<close>

theorem vmm_unmap_page_correct:
  assumes "vmm_inv s A M" "IS_PAGE_ALIGNED v"
  shows "\<exists>s'. vmm_unmap_page s v = Inr s' \<and> vmm_inv s' A M \<and>
    (\<forall>w. vlookup s' w = (if vpage w = vpage v \<and> (\<forall>e. vlookup s v \<noteq> Page2M e) then Unmapped else vlookup s w))"
  by (rule unmap_page_spec [OF assms])

theorem vmm_unmap_page_correct_witness:
  "\<exists>m f s'. vmm_unmap_page (vmm_demo m f) 0x1000 = Inr s' \<and> vlookup s' 0x1000 = Unmapped"
proof -
  obtain m f where i: "vmm_inv (vmm_demo m f) {(f, 0)} ({2..<9} \<union> {10..<11})" using vmm_demo_inv by blast
  have a: "IS_PAGE_ALIGNED 0x1000" by (simp add: IS_PAGE_ALIGNED_def PAGE_SIZE_def)
  from vmm_unmap_page_correct [OF i a] show ?thesis by (metis vmm_demo_lookup)
qed

text \<open>C20: write xor execute. Once enforcement is on, in an address space without a page that is both
  writable and executable, no call of \<open>vmm_map_page\<close> that returns, whatever flags it is given,
  creates such a page, and the audit reports zero violations.\<close>

theorem vmm_wx_discipline:
  assumes "vmm_inv s A M" "wx_enforced s" "wx_pages s = {}" "vmm_map_page s v p fl = Inr s'"
  shows "wx_pages s' = {} \<and> vmm_audit_wx s' = 0 \<and> wx_enforced s'"
proof -
  have al: "IS_PAGE_ALIGNED v" "IS_PAGE_ALIGNED p" using assms(4) by (auto simp: vmm_map_page_def res_facts)
  have nh: "vlookup s v \<noteq> Page2M e" for e using map_huge_refused [OF assms(1) _ al] assms(4) by auto
  obtain A' where r: "vmm_inv s' A' M" "wx_enforced s' = wx_enforced s"
    "\<And>w. vlookup s' w = (if vpage w = vpage v then leaf (p OR wx_flags s fl) else vlookup s w)"
    using map_page_spec [OF assms(1) al nh, of fl] assms(4) unfolding leaf_def by auto
  have "\<not> wx (p OR wx_flags s fl)" using wx_or [OF al(2)] wx_flags_enforced [OF assms(2)] by blast
  then have "wx_pages s' = wx_pages s - {vpage v}"
    by (intro wx_pages_update [where g = "\<lambda>w. leaf (p OR wx_flags s fl)"]) (auto simp: r(3) leaf_def split: if_splits)
  then have "wx_pages s' = {}" using assms(3) by simp
  then show ?thesis using audit_zero [OF r(1)] r(2) assms(2) by simp
qed

theorem vmm_wx_discipline_witness:
  "\<exists>m f s'. vmm_map_page (vmm_demo m f) 0x1000 0x5000 3 = Inr s' \<and> vlookup s' 0x1000 = Page4K 0x8000000000005003 \<and>
     wx_pages s' = {} \<and> vmm_audit_wx s' = 0"
proof -
  obtain m f where i: "vmm_inv (vmm_demo m f) {(f, 0)} ({2..<9} \<union> {10..<11})" using vmm_demo_inv by blast
  have a: "IS_PAGE_ALIGNED 0x1000" "IS_PAGE_ALIGNED 0x5000" by (simp_all add: IS_PAGE_ALIGNED_def PAGE_SIZE_def)
  have w: "wx_pages (vmm_demo m f) = {}" "wx_enforced (vmm_demo m f)" by (simp_all add: wx_pages_def vmm_demo_lookup) (simp add: vmm_demo_def)
  have f: "0x5000 OR wx_flags (vmm_demo m f) 3 = 0x8000000000005003" "present (0x8000000000005003 :: u64)"
    using w(2) by (simp_all add: wx_flags_def PTE_WRITE_def PTE_NX_def present_def PTE_PRESENT_def)
  have n: "vlookup (vmm_demo m f) 0x1000 \<noteq> Page2M e" for e by (simp add: vmm_demo_lookup)
  obtain s' where s': "vmm_map_page (vmm_demo m f) 0x1000 0x5000 3 = Inr s'" "vlookup s' 0x1000 = Page4K 0x8000000000005003"
    using map_page_spec [OF i a n, of 3] demo_frames_left [of f] f by auto
  show ?thesis using vmm_wx_discipline [OF i w(2,1) s'(1)] s' by blast
qed

text \<open>Mapping a range. A range of less than \<open>2^48\<close> bytes, free of 2 MB pages, either stops for
  lack of frames, which needs fewer than three free frames per page, or maps every page of the range to the corresponding frame and leaves every page
  outside the range alone.\<close>

theorem vmm_map_range_correct:
  assumes "vmm_inv s A M" "IS_PAGE_ALIGNED virt" "IS_PAGE_ALIGNED phys" "no_huge s (range_pages virt sz 0)" "unat sz \<le> 2 ^ 48"
  shows "vmm_map_range s virt phys sz fl = Inl KAssert \<and> frames_left A M < 3 * npages sz 0 \<or>
    (\<exists>s' A'. vmm_map_range s virt phys sz fl = Inr s' \<and> vmm_inv s' A' M \<and> A \<subseteq> A' \<and> wx_enforced s' = wx_enforced s \<and>
       (\<forall>w. vpage w \<notin> range_pages virt sz 0 \<longrightarrow> vlookup s' w = vlookup s w) \<and>
       (\<forall>k. 4096 dvd k \<and> k < unat sz \<longrightarrow> vlookup s' (virt + of_nat k) = leaf ((phys + of_nat k) OR wx_flags s fl)))"
  by (rule map_range_spec [OF assms])

theorem vmm_map_range_correct_witness:
  "\<exists>m f. vmm_inv (vmm_demo m f) {(f, 0)} ({2..<9} \<union> {10..<11}) \<and>
     (vmm_map_range (vmm_demo m f) 0x1000 0x5000 8192 1 = Inl KAssert \<and> frames_left {(f, 0)} ({2..<9} \<union> {10..<11}) < 3 * npages 8192 0 \<or>
      (\<exists>s'. vmm_map_range (vmm_demo m f) 0x1000 0x5000 8192 1 = Inr s' \<and> vlookup s' 0x2000 = Page4K 0x6001))"
proof -
  obtain m f where i: "vmm_inv (vmm_demo m f) {(f, 0)} ({2..<9} \<union> {10..<11})" using vmm_demo_inv by blast
  have a: "IS_PAGE_ALIGNED 0x1000" "IS_PAGE_ALIGNED 0x5000" by (simp_all add: IS_PAGE_ALIGNED_def PAGE_SIZE_def)
  have n: "no_huge (vmm_demo m f) (range_pages 0x1000 8192 0)" "unat (8192 :: u64) \<le> 2 ^ 48" by (simp_all add: no_huge_def vmm_demo_lookup)
  have "leaf ((0x5000 + of_nat 4096) OR wx_flags (vmm_demo m f) 1) = Page4K 0x6001" "(0x1000 :: u64) + of_nat 4096 = 0x2000"
    by (simp_all add: leaf_def present_def PTE_PRESENT_def wx_flags_def PTE_WRITE_def)
  moreover have "(4096 :: nat) dvd 4096 \<and> 4096 < unat (8192 :: u64)" by simp
  ultimately show ?thesis using vmm_map_range_correct [OF i a n, of 1] i by metis
qed

end
