(* ===== verification/Vmm_Init.thy ===== *)
theory Vmm_Init
  imports Vmm_Wx
begin

text \<open>
  \<open>vmm_init\<close> of \<open>kernel/vmm.c\<close>: finding the kernel in the boot loader's tables, the first
  mapping of the kernel, the direct map with 2 MB pages, the switch of \<open>CR3\<close>, the permissions
  of the sections, the sweep over the gaps between them, and the stacks. The linker symbols are the
  record \<open>kimage\<close>; the boot loader's tables are read through the same memory as the kernel's.
  Which kinds of memory-map entries the direct map must reach is the parameter \<open>needed\<close>, because
  the numbers come from the boot protocol's header.
\<close>

record kimage =
  kernel_start :: u64
  kernel_end :: u64
  text_start :: u64
  text_end :: u64
  rodata_start :: u64
  rodata_end :: u64
  data_start :: u64
  data_end :: u64
  bss_start :: u64
  bss_end :: u64

record boot_regs =
  cr3 :: u64
  tss_rsp0 :: u64
  tss_ist1 :: u64

definition KERNEL_STACK_VIRT :: u64 where "KERNEL_STACK_VIRT = 0xFFFFFF0000100000"
definition IST1_STACK_VIRT :: u64 where "IST1_STACK_VIRT = 0xFFFFFF0000200000"
definition KERNEL_STACK_PAGES :: nat where "KERNEL_STACK_PAGES = 4"
definition IST1_STACK_PAGES :: nat where "IST1_STACK_PAGES = 2"

subsection \<open>The steps of the initialisation\<close>

definition find_kernel_phys :: "vmm_state \<Rightarrow> u64 \<Rightarrow> u64 \<Rightarrow> u64 res" where
  "find_kernel_phys s limine_cr3 kernel_virt =
     (let l_pml4e = ptab s (limine_cr3 AND PTE_ADDR_MASK) (PML4_INDEX kernel_virt) in
      kassert (present l_pml4e)
        (let l_pdpte = ptab s (pte_to_phys l_pml4e) (PDPT_INDEX kernel_virt) in
         kassert (present l_pdpte)
           (if huge l_pdpte then Inr (pte_to_phys l_pdpte)
            else
              let l_pde = ptab s (pte_to_phys l_pdpte) (PD_INDEX kernel_virt) in
              kassert (present l_pde)
                (if huge l_pde then Inr (pte_to_phys l_pde)
                 else
                   let l_pte = ptab s (pte_to_phys l_pde) (PT_INDEX kernel_virt) in
                   kassert (present l_pte) (Inr (pte_to_phys l_pte))))))"

definition hhdm_top :: "(u64 \<Rightarrow> bool) \<Rightarrow> memmap_entry list option \<Rightarrow> pmm_state \<Rightarrow> u64" where
  "hhdm_top needed mm p =
     (let m = (case mm of None \<Rightarrow> 0
          | Some es \<Rightarrow> foldl (\<lambda>m e. if needed (me_type e) \<and> m < me_base e + me_length e then me_base e + me_length e else m) 0 es);
          m' = (if m = 0 then (pmm_free_count p + pmm_used_count p + 256) * PAGE_SIZE else m)
      in ALIGN_UP m' (MB 2))"

definition map_section :: "vmm_state \<Rightarrow> kimage \<Rightarrow> u64 \<Rightarrow> u64 \<Rightarrow> u64 \<Rightarrow> u64 \<Rightarrow> vmm_state res" where
  "map_section s img base st en fl =
     (if 0 < en - st then vmm_map_range s st (base + (st - kernel_start img)) (en - st) fl else Inr s)"

definition map_sections :: "vmm_state \<Rightarrow> kimage \<Rightarrow> u64 \<Rightarrow> vmm_state res" where
  "map_sections s img base =
     bnd (map_section s img base (text_start img) (text_end img) VMM_FLAGS_KERNEL_RX) (\<lambda>s1.
     bnd (map_section s1 img base (rodata_start img) (rodata_end img) VMM_FLAGS_KERNEL_RO) (\<lambda>s2.
     bnd (map_section s2 img base (data_start img) (data_end img) VMM_FLAGS_KERNEL_RW) (\<lambda>s3.
       map_section s3 img base (bss_start img) (bss_end img) VMM_FLAGS_KERNEL_RW)))"

definition in_section :: "u64 \<Rightarrow> u64 \<Rightarrow> u64 \<Rightarrow> bool" where
  "in_section va st en \<longleftrightarrow> st \<le> va \<and> va < st + (en - st)"

definition in_sections :: "kimage \<Rightarrow> u64 \<Rightarrow> bool" where
  "in_sections img va \<longleftrightarrow> in_section va (text_start img) (text_end img) \<or> in_section va (rodata_start img) (rodata_end img) \<or>
     in_section va (data_start img) (data_end img) \<or> in_section va (bss_start img) (bss_end img)"

text \<open>The sweep counts up to the end of the kernel; like the offset of a range it would only wrap
  within one page of \<open>2^64\<close>.\<close>

function gap_loop :: "vmm_state \<Rightarrow> kimage \<Rightarrow> u64 \<Rightarrow> nat \<Rightarrow> vmm_state res" where
  "gap_loop s img base va =
     (if unat (kernel_end img) \<le> va then Inr s
      else if in_sections img (of_nat va) then gap_loop s img base (va + 4096)
      else bnd (vmm_map_page s (of_nat va) (base + (of_nat va - kernel_start img)) VMM_FLAGS_KERNEL_RW)
             (\<lambda>s1. gap_loop s1 img base (va + 4096)))"
  by pat_completeness auto
termination
  by (relation "measure (\<lambda>(s, img, base, va). unat (kernel_end img) - va)") auto

declare gap_loop.simps [simp del]

primrec stack_loop :: "vmm_state \<Rightarrow> u64 \<Rightarrow> nat \<Rightarrow> vmm_state res" where
  "stack_loop s va 0 = Inr s"
| "stack_loop s va (Suc n) =
     bnd (stack_loop s va n) (\<lambda>s1.
     bnd (alloc_table s1) (\<lambda>(s2, phys_page).
     kassert (phys_page \<noteq> 0) (vmm_map_page s2 (va + of_nat (n + 1) * PAGE_SIZE) phys_page VMM_FLAGS_KERNEL_RW)))"

definition vmm_init :: "vmm_state \<Rightarrow> u64 \<Rightarrow> kimage \<Rightarrow> (u64 \<Rightarrow> bool) \<Rightarrow> memmap_entry list option \<Rightarrow> u64 \<Rightarrow> u64 \<Rightarrow> (vmm_state \<times> boot_regs) res" where
  "vmm_init s0 limine_cr3 img needed mm hhdm_offset rsp =
     bnd (alloc_table s0) (\<lambda>(s1, pml4).
     kassert (pml4 \<noteq> 0)
       (let s2 = s1\<lparr>pml4_phys := pml4\<rparr>; k = kernel_start img in
        bnd (find_kernel_phys s2 limine_cr3 k) (\<lambda>base.
        bnd (vmm_map_range s2 k base (kernel_end img - k) (PTE_PRESENT OR PTE_WRITE OR PTE_GLOBAL)) (\<lambda>s3.
        bnd (vmm_map_range_huge s3 hhdm_offset 0 (hhdm_top needed mm (vpmm s3)) VMM_FLAGS_HHDM) (\<lambda>s4.
        bnd (map_sections s4 img base) (\<lambda>s5.
        bnd (gap_loop s5 img base (unat k)) (\<lambda>s6.
        bnd (stack_loop (s6\<lparr>wx_enforced := True\<rparr>) KERNEL_STACK_VIRT KERNEL_STACK_PAGES) (\<lambda>s7.
        bnd (vmm_unmap_page s7 (PAGE_ALIGN_DOWN rsp - PAGE_SIZE)) (\<lambda>s8.
        bnd (stack_loop s8 IST1_STACK_VIRT IST1_STACK_PAGES) (\<lambda>s9.
          Inr (s9, \<lparr>cr3 = pml4,
                 tss_rsp0 = KERNEL_STACK_VIRT + of_nat (KERNEL_STACK_PAGES + 1) * PAGE_SIZE,
                 tss_ist1 = IST1_STACK_VIRT + of_nat (IST1_STACK_PAGES + 1) * PAGE_SIZE\<rparr>)))))))))))"

subsection \<open>Pages that are writable and executable\<close>

lemma map_page_wx:
  assumes inv: "vmm_inv s A M" and r: "vmm_map_page s v p fl = Inr s'"
  obtains A' where "vmm_inv s' A' M" "wx_enforced s' = wx_enforced s" "wx_pages s' \<subseteq> wx_pages s \<union> {vpage v}"
    "\<not> wx fl \<Longrightarrow> wx_pages s' = wx_pages s - {vpage v}" "IS_PAGE_ALIGNED v"
proof -
  have al: "IS_PAGE_ALIGNED v" "IS_PAGE_ALIGNED p" using r by (auto simp: vmm_map_page_def res_facts)
  have nh: "vlookup s v \<noteq> Page2M e" for e using map_huge_refused [OF inv _ al] r by auto
  obtain A' where A': "vmm_inv s' A' M" "wx_enforced s' = wx_enforced s"
    "\<And>w. vlookup s' w = (if vpage w = vpage v then leaf (p OR wx_flags s fl) else vlookup s w)"
    using map_page_spec [OF inv al nh, of fl] r unfolding leaf_def by auto
  have "wx_pages s' \<subseteq> wx_pages s \<union> {vpage v}" unfolding wx_pages_def using A'(3) by (auto split: if_splits)
  moreover have "wx_pages s' = wx_pages s - {vpage v}" if "\<not> wx fl"
  proof (rule wx_pages_update)
    show "vlookup s' w = (if vpage w \<in> {vpage v} then leaf (p OR wx_flags s fl) else vlookup s w)" for w using A'(3) by simp
    show "\<not> wx e" if "leaf (p OR wx_flags s fl) = Page4K e \<or> leaf (p OR wx_flags s fl) = Page2M e" for e
      using that wx_or [OF al(2), of fl] \<open>\<not> wx fl\<close> by (auto simp: leaf_def wx_flags_harmless split: if_splits)
  qed
  ultimately show thesis using that A'(1,2) al(1) by blast
qed

lemma map_range_loop_wx:
  assumes "vmm_inv s A M" "4096 dvd n" "map_range_loop s virt phys sz fl n = Inr s'"
  shows "\<exists>A'. vmm_inv s' A' M \<and> wx_enforced s' = wx_enforced s \<and> wx_pages s' \<subseteq> wx_pages s \<union> range_pages virt sz n \<and>
    (\<not> wx fl \<longrightarrow> wx_pages s' = wx_pages s - range_pages virt sz n) \<and> (n < unat sz \<longrightarrow> IS_PAGE_ALIGNED (virt + of_nat n))"
  using assms
proof (induction s virt phys sz fl n arbitrary: A rule: map_range_loop.induct)
  case (1 s virt phys sz fl n)
  show ?case
  proof (cases "unat sz \<le> n")
    case True
    then have "range_pages virt sz n = {}" by (auto simp: range_pages_def)
    moreover have "s' = s" using True "1.prems"(3) by (subst (asm) map_range_loop.simps) simp
    ultimately show ?thesis using "1.prems"(1) True by auto
  next
    case False
    obtain s1 where s1: "vmm_map_page s (virt + of_nat n) (phys + of_nat n) fl = Inr s1" "map_range_loop s1 virt phys sz fl (n + 4096) = Inr s'"
      using "1.prems"(3) False by (subst (asm) map_range_loop.simps) (auto simp: res_facts)
    have R: "range_pages virt sz n = insert (vpage (virt + of_nat n)) (range_pages virt sz (n + 4096))"
    proof -
      have "n \<le> k \<longleftrightarrow> k = n \<or> n + 4096 \<le> k" if d: "4096 dvd k" for k
      proof -
        obtain a b where "k = 4096 * a" "n = 4096 * b" using d "1.prems"(2) unfolding dvd_def by blast
        then show ?thesis by auto
      qed
      then show ?thesis using False "1.prems"(2) unfolding range_pages_def by fastforce
    qed
    obtain A1 where a1: "vmm_inv s1 A1 M" "wx_enforced s1 = wx_enforced s" "wx_pages s1 \<subseteq> wx_pages s \<union> {vpage (virt + of_nat n)}"
      "\<not> wx fl \<Longrightarrow> wx_pages s1 = wx_pages s - {vpage (virt + of_nat n)}" "IS_PAGE_ALIGNED (virt + of_nat n)"
      using map_page_wx [OF "1.prems"(1) s1(1)] by metis
    have "4096 dvd n + 4096" using "1.prems"(2) by simp
    from "1.IH" [OF False s1(1) a1(1) this s1(2)] obtain A' where
      "vmm_inv s' A' M" "wx_enforced s' = wx_enforced s1" "wx_pages s' \<subseteq> wx_pages s1 \<union> range_pages virt sz (n + 4096)"
      "\<not> wx fl \<longrightarrow> wx_pages s' = wx_pages s1 - range_pages virt sz (n + 4096)" by blast
    then show ?thesis using a1 unfolding R by (intro exI [of _ A']) auto
  qed
qed

lemma map_range_wx_ok:
  assumes "vmm_inv s A M" "vmm_map_range s virt phys sz fl = Inr s'"
  obtains A' where "vmm_inv s' A' M" "wx_enforced s' = wx_enforced s" "wx_pages s' \<subseteq> wx_pages s \<union> range_pages virt sz 0"
    "\<not> wx fl \<Longrightarrow> wx_pages s' = wx_pages s - range_pages virt sz 0" "0 < sz \<Longrightarrow> IS_PAGE_ALIGNED virt"
proof -
  obtain A' where "vmm_inv s' A' M" "wx_enforced s' = wx_enforced s" "wx_pages s' \<subseteq> wx_pages s \<union> range_pages virt sz 0"
    "\<not> wx fl \<longrightarrow> wx_pages s' = wx_pages s - range_pages virt sz 0" "0 < unat sz \<longrightarrow> IS_PAGE_ALIGNED virt"
    using map_range_loop_wx [OF assms(1) _ assms(2) [unfolded vmm_map_range_def]] by auto
  then show thesis using that by (simp add: word_less_nat_alt)
qed

subsection \<open>2 MB pages\<close>

lemma tab_set_pd:
  assumes inv: "vmm_inv s A M" and p: "tab s p = Some t" "length p = 2" and e: "\<not> (present e \<and> \<not> huge e)"
  shows "length q \<le> 3 \<Longrightarrow> tab (set_entry s t i e) q = (if q = i # p then None else tab s q)"
proof (induction q)
  case (Cons j q)
  then have IH: "tab (set_entry s t i e) q = (if q = i # p then None else tab s q)" and l: "length q \<le> 2" by simp_all
  have ne: "q \<noteq> i # p" using l p(2) by auto
  show ?case
  proof (cases "tab s q")
    case (Some u)
    have "u = t \<longleftrightarrow> q = p" using vmm_invD(5) [OF inv, of q p t] Some p l by auto
    then show ?thesis using IH ne Some e p(1) by (auto simp: tab.simps(2))
  qed (use IH ne p(1) in \<open>auto simp: tab.simps(2)\<close>)
qed simp

lemma vmm_inv_set_pd:
  assumes inv: "vmm_inv s A M" and p: "tab s p = Some t" "length p = 2" and e: "\<not> (present e \<and> \<not> huge e)"
  shows "vmm_inv (set_entry s t i e) A M"
proof -
  let ?s = "set_entry s t i e"
  note T = tab_set_pd [OF assms]
  have sub: "tab s q = Some u" if "length q \<le> 3" "tab ?s q = Some u" for q u using T [OF that(1)] that(2) by (auto split: if_splits)
  have ne: "u \<noteq> t" if "length q < 2" "tab s q = Some u" for q u using vmm_invD(5) [OF inv, of q p t] p that by auto
  have h: "\<not> huge (ptab ?s u j)" if "length q < 2" "tab ?s q = Some u" "present (ptab ?s u j)" for q u j
    using that sub [of q u] ne [of q u] vmm_invD(6) [OF inv, of q u j] by simp
  have fr: "\<exists>f. u = pfn_to_phys f \<and> (f, 0) \<in> A" if "length q \<le> 3" "tab ?s q = Some u" for q u
    using vmm_invD(4) [OF inv that(1) sub [OF that]] .
  have in': "q = r" if "length q \<le> 3" "length r \<le> 3" "tab ?s q = Some u" "tab ?s r = Some u" for q r u
    using vmm_invD(5) [OF inv that(1,2) sub [OF that(1,3)] sub [OF that(2,4)]] .
  show ?thesis unfolding vmm_inv_def using vmm_invD(1-3) [OF inv] h fr in' by simp
qed

lemma vlookup_set_pd:
  assumes inv: "vmm_inv s A M" and p: "tab s [b, a] = Some t" and e: "\<not> (present e \<and> \<not> huge e)"
  shows "vlookup (set_entry s t c e) w = vlookup s w \<or> vlookup (set_entry s t c e) w = Unmapped \<or>
    vlookup (set_entry s t c e) w = Page2M e"
proof -
  let ?s = "set_entry s t c e" and ?q = "[PDPT_INDEX w, PML4_INDEX w]"
  have T: "length q \<le> 3 \<Longrightarrow> tab ?s q = (if q = [c, b, a] then None else tab s q)" for q
    using tab_set_pd [OF inv p _ e, of q c] by simp
  have T2: "tab ?s ?q = tab s ?q" using T [of ?q] by simp
  show ?thesis
  proof (cases "?q = [b, a] \<and> PD_INDEX w = c")
    case True
    then have "tab ?s ?q = Some t" using T2 p by simp
    moreover have "tab ?s (PD_INDEX w # ?q) = None" using T [of "PD_INDEX w # ?q"] True by simp
    ultimately show ?thesis using True by (simp add: vlookup_def)
  next
    case False
    then have T3: "tab ?s (PD_INDEX w # ?q) = tab s (PD_INDEX w # ?q)" using T [of "PD_INDEX w # ?q"] by auto
    have d: "ptab ?s u (PD_INDEX w) = ptab s u (PD_INDEX w)" if "tab s ?q = Some u" for u
      using vmm_invD(5) [OF inv, of ?q "[b, a]" t] that p False by auto
    have l: "ptab ?s u (PT_INDEX w) = ptab s u (PT_INDEX w)" if "tab s (PD_INDEX w # ?q) = Some u" for u
      using vmm_invD(5) [OF inv, of "PD_INDEX w # ?q" "[b, a]" t] that p by auto
    show ?thesis using vlookup_cong [OF T2 T3 d l] by simp
  qed
qed

lemma vlookup_set_other:
  assumes inv: "vmm_inv s A M" and p: "tab s [b, a] = Some t" and e: "\<not> (present e \<and> \<not> huge e)" and w: "PML4_INDEX w \<noteq> a"
  shows "vlookup (set_entry s t c e) w = vlookup s w"
proof -
  let ?s = "set_entry s t c e" and ?q = "[PDPT_INDEX w, PML4_INDEX w]"
  have T: "length q \<le> 3 \<Longrightarrow> tab ?s q = (if q = [c, b, a] then None else tab s q)" for q
    using tab_set_pd [OF inv p _ e, of q c] by simp
  have T2: "tab ?s ?q = tab s ?q" "tab ?s (PD_INDEX w # ?q) = tab s (PD_INDEX w # ?q)"
    using T [of ?q] T [of "PD_INDEX w # ?q"] w by auto
  have d: "ptab ?s u (PD_INDEX w) = ptab s u (PD_INDEX w)" if "tab s ?q = Some u" for u
    using vmm_invD(5) [OF inv, of ?q "[b, a]" t] that p w by auto
  have l: "ptab ?s u (PT_INDEX w) = ptab s u (PT_INDEX w)" if "tab s (PD_INDEX w # ?q) = Some u" for u
    using vmm_invD(5) [OF inv, of "PD_INDEX w # ?q" "[b, a]" t] that p by auto
  show ?thesis by (rule vlookup_cong [OF T2 d l])
qed

lemma map_huge_wx:
  assumes inv: "vmm_inv s A M" and r: "map_huge s v p fl = Inr s'" and p: "IS_PAGE_ALIGNED p" and fl: "\<not> wx fl"
  obtains A' where "vmm_inv s' A' M" "wx_enforced s' = wx_enforced s" "wx_pages s' \<subseteq> wx_pages s"
proof -
  let ?a = "PML4_INDEX v" and ?b = "PDPT_INDEX v"
  obtain s1 pdpt s2 pd where d: "descend s (pml4_phys s) ?a = Inr (s1, pdpt)" "descend s1 pdpt ?b = Inr (s2, pd)"
    "s' = set_entry s2 pd (PD_INDEX v) (p OR fl OR PTE_HUGE)"
    using r by (auto simp: map_huge_def res_facts)
  have nh: "\<not> (present (ptab s (pml4_phys s) ?a) \<and> huge (ptab s (pml4_phys s) ?a))"
    using vmm_invD(6) [OF inv, of "[]" "pml4_phys s" ?a] by auto
  have t0: "tab s [] = Some (pml4_phys s)" by simp
  obtain A1 where a1: "vmm_inv s1 A1 M" "tab s1 [?a] = Some pdpt" "\<And>w. vlookup s1 w = vlookup s w" "wx_enforced s1 = wx_enforced s"
    using descend_spec [OF inv t0 _ nh] d(1) by auto
  have nh1: "\<not> (present (ptab s1 pdpt ?b) \<and> huge (ptab s1 pdpt ?b))"
    using vmm_invD(6) [OF a1(1), of "[?a]" pdpt ?b] a1(2) by auto
  obtain A2 where a2: "vmm_inv s2 A2 M" "tab s2 [?b, ?a] = Some pd" "\<And>w. vlookup s2 w = vlookup s1 w" "wx_enforced s2 = wx_enforced s1"
    using descend_spec [OF a1(1,2) _ nh1] d(2) by auto
  let ?e = "p OR fl OR PTE_HUGE"
  have h: "\<not> (present ?e \<and> \<not> huge ?e)" by (simp add: entry_bits bit_or_iff flag_pow2 bit_pow2)
  have nw: "\<not> wx ?e" using fl aligned_bits [OF p, of 1] by (auto simp: entry_bits bit_or_iff flag_pow2 bit_pow2)
  have "wx_pages s' \<subseteq> wx_pages s"
  proof
    fix x assume "x \<in> wx_pages s'"
    then obtain w e where w: "x = vpage w" "vlookup s' w = Page4K e \<or> vlookup s' w = Page2M e" "wx e" unfolding wx_pages_def by blast
    have "vlookup s' w = vlookup s w" using vlookup_set_pd [OF a2(1,2) h, of "PD_INDEX v" w] w nw d(3) a1(3) a2(3) by auto
    then show "x \<in> wx_pages s" using w unfolding wx_pages_def by auto
  qed
  moreover have "vmm_inv s' A2 M" unfolding d(3) by (rule vmm_inv_set_pd [OF a2(1,2) _ h]) simp
  ultimately show thesis using that a1(4) a2(4) d(3) by simp
qed

lemma map_huge_loop_wx:
  assumes "vmm_inv s A M" "map_huge_loop s virt phys sz fl n = Inr s'" "IS_PAGE_ALIGNED phys" "4096 dvd n" "\<not> wx fl"
  shows "\<exists>A'. vmm_inv s' A' M \<and> wx_enforced s' = wx_enforced s \<and> wx_pages s' \<subseteq> wx_pages s"
  using assms
proof (induction s virt phys sz fl n arbitrary: A rule: map_huge_loop.induct)
  case (1 s virt phys sz fl n)
  show ?case
  proof (cases "unat sz \<le> n")
    case True
    then have "s' = s" using "1.prems"(2) by (subst (asm) map_huge_loop.simps) simp
    then show ?thesis using "1.prems"(1) by blast
  next
    case False
    obtain s1 where s1: "map_huge s (virt + of_nat n) (phys + of_nat n) fl = Inr s1" "map_huge_loop s1 virt phys sz fl (n + 0x200000) = Inr s'"
      using "1.prems"(2) False by (subst (asm) map_huge_loop.simps) (auto simp: res_facts)
    have al: "IS_PAGE_ALIGNED (phys + of_nat n)" by (rule aligned_add [OF "1.prems"(3,4)])
    obtain A1 where a1: "vmm_inv s1 A1 M" "wx_enforced s1 = wx_enforced s" "wx_pages s1 \<subseteq> wx_pages s"
      using map_huge_wx [OF "1.prems"(1) s1(1) al "1.prems"(5)] by metis
    have "4096 dvd n + 0x200000" using "1.prems"(4) by simp
    from "1.IH" [OF False s1(1) a1(1) s1(2) "1.prems"(3) this "1.prems"(5)] show ?thesis using a1 by auto
  qed
qed

subsection \<open>Sections and gaps\<close>

lemma map_section_wx:
  assumes inv: "vmm_inv s A M" and r: "map_section s img base st en fl = Inr s'" and fl: "\<not> wx fl"
  obtains A' where "vmm_inv s' A' M" "wx_pages s' = wx_pages s - range_pages st (en - st) 0" "st < en \<Longrightarrow> IS_PAGE_ALIGNED st"
proof (cases "0 < en - st")
  case True
  then have "vmm_map_range s st (base + (st - kernel_start img)) (en - st) fl = Inr s'" using r by (simp add: map_section_def)
  from map_range_wx_ok [OF inv this] show thesis using that fl True by metis
next
  case False
  then have "s' = s" "en = st" using r by (simp_all add: map_section_def word_gt_0)
  moreover from this have "range_pages st (en - st) 0 = {}" by (auto simp: range_pages_def)
  ultimately show thesis using that inv by auto
qed

lemma section_flags: "\<not> wx VMM_FLAGS_KERNEL_RX" "\<not> wx VMM_FLAGS_KERNEL_RO" "\<not> wx VMM_FLAGS_KERNEL_RW" "\<not> wx VMM_FLAGS_HHDM"
  by (simp_all add: entry_bits VMM_FLAGS_KERNEL_RX_def VMM_FLAGS_KERNEL_RO_def VMM_FLAGS_KERNEL_RW_def VMM_FLAGS_HHDM_def
      flag_pow2 bit_or_iff bit_pow2)

definition section_pages :: "kimage \<Rightarrow> (u64 \<times> u64 \<times> u64 \<times> u64) set" where
  "section_pages img = range_pages (text_start img) (text_end img - text_start img) 0 \<union>
     range_pages (rodata_start img) (rodata_end img - rodata_start img) 0 \<union>
     range_pages (data_start img) (data_end img - data_start img) 0 \<union>
     range_pages (bss_start img) (bss_end img - bss_start img) 0"

lemma in_range_pages:
  assumes "st \<le> va" "va < st + (en - st)" "IS_PAGE_ALIGNED st" "IS_PAGE_ALIGNED va"
  shows "vpage va \<in> range_pages st (en - st) 0" "st < en"
proof -
  have e: "st + (en - st) = en" by simp
  then show lt: "st < en" using assms(1,2) by (metis le_less_trans)
  have u: "unat st \<le> unat va" "unat va < unat en" using assms(1,2) e by (simp_all add: word_le_nat_alt word_less_nat_alt)
  have "unat (en - st) = unat en - unat st" using lt by (intro unat_sub) simp
  moreover have "4096 dvd unat va - unat st" using assms(3,4) by (simp add: aligned_dvd dvd_diff_nat)
  moreover have "va = st + of_nat (unat va - unat st)" using u(1) by (simp add: of_nat_diff)
  ultimately show "vpage va \<in> range_pages st (en - st) 0"
    unfolding range_pages_def using u by (intro CollectI exI [of _ "unat va - unat st"]) auto
qed

lemma map_sections_wx:
  assumes inv: "vmm_inv s A M" and r: "map_sections s img base = Inr s'"
  obtains A' where "vmm_inv s' A' M" "wx_pages s' = wx_pages s - section_pages img"
    "\<And>va. IS_PAGE_ALIGNED va \<Longrightarrow> in_sections img va \<Longrightarrow> vpage va \<in> section_pages img"
proof -
  obtain s1 s2 s3 where st: "map_section s img base (text_start img) (text_end img) VMM_FLAGS_KERNEL_RX = Inr s1"
    "map_section s1 img base (rodata_start img) (rodata_end img) VMM_FLAGS_KERNEL_RO = Inr s2"
    "map_section s2 img base (data_start img) (data_end img) VMM_FLAGS_KERNEL_RW = Inr s3"
    "map_section s3 img base (bss_start img) (bss_end img) VMM_FLAGS_KERNEL_RW = Inr s'"
    using r by (auto simp: map_sections_def res_facts)
  obtain A1 where a1: "vmm_inv s1 A1 M" "wx_pages s1 = wx_pages s - range_pages (text_start img) (text_end img - text_start img) 0"
    "text_start img < text_end img \<Longrightarrow> IS_PAGE_ALIGNED (text_start img)" using map_section_wx [OF inv st(1) section_flags(1)] by metis
  obtain A2 where a2: "vmm_inv s2 A2 M" "wx_pages s2 = wx_pages s1 - range_pages (rodata_start img) (rodata_end img - rodata_start img) 0"
    "rodata_start img < rodata_end img \<Longrightarrow> IS_PAGE_ALIGNED (rodata_start img)" using map_section_wx [OF a1(1) st(2) section_flags(2)] by metis
  obtain A3 where a3: "vmm_inv s3 A3 M" "wx_pages s3 = wx_pages s2 - range_pages (data_start img) (data_end img - data_start img) 0"
    "data_start img < data_end img \<Longrightarrow> IS_PAGE_ALIGNED (data_start img)" using map_section_wx [OF a2(1) st(3) section_flags(3)] by metis
  obtain A4 where a4: "vmm_inv s' A4 M" "wx_pages s' = wx_pages s3 - range_pages (bss_start img) (bss_end img - bss_start img) 0"
    "bss_start img < bss_end img \<Longrightarrow> IS_PAGE_ALIGNED (bss_start img)" using map_section_wx [OF a3(1) st(4) section_flags(3)] by metis
  have sec: "vpage va \<in> range_pages st (en - st) 0"
    if "IS_PAGE_ALIGNED va" "in_section va st en" "st < en \<Longrightarrow> IS_PAGE_ALIGNED st" for va st en
  proof -
    have "st < en" using that(2) by (auto simp: in_section_def intro: le_less_trans)
    then show ?thesis using in_range_pages(1) that by (simp add: in_section_def)
  qed
  have "vpage va \<in> section_pages img" if "IS_PAGE_ALIGNED va" "in_sections img va" for va
    using that sec [OF that(1)] a1(3) a2(3) a3(3) a4(3) unfolding in_sections_def section_pages_def by blast
  moreover have "wx_pages s' = wx_pages s - section_pages img" unfolding a4(2) a3(2) a2(2) a1(2) section_pages_def by blast
  ultimately show thesis using that a4(1) by blast
qed

lemma gap_loop_wx:
  assumes "vmm_inv s A M" "gap_loop s img base va = Inr s'"
  shows "\<exists>A'. vmm_inv s' A' M \<and> wx_pages s' = wx_pages s -
    {vpage (of_nat n) | n. va \<le> n \<and> n < unat (kernel_end img) \<and> 4096 dvd n - va \<and> \<not> in_sections img (of_nat n)}"
  using assms
proof (induction s img base va arbitrary: A rule: gap_loop.induct)
  case (1 s img base va)
  let ?G = "\<lambda>va. {vpage (of_nat n) | n. va \<le> n \<and> n < unat (kernel_end img) \<and> 4096 dvd n - va \<and> \<not> in_sections img (of_nat n)}"
  show ?case
  proof (cases "unat (kernel_end img) \<le> va")
    case True
    then have "s' = s" using "1.prems"(2) by (subst (asm) gap_loop.simps) simp
    moreover have "?G va = {}" using True by auto
    ultimately show ?thesis using "1.prems"(1) by auto
  next
    case False
    have step: "va \<le> n \<and> 4096 dvd n - va \<longleftrightarrow> n = va \<or> va + 4096 \<le> n \<and> 4096 dvd n - (va + 4096)" for n
    proof
      assume a: "va \<le> n \<and> 4096 dvd n - va"
      then obtain k where k: "n - va = 4096 * k" by (auto simp: dvd_def)
      show "n = va \<or> va + 4096 \<le> n \<and> 4096 dvd n - (va + 4096)"
      proof (cases k)
        case (Suc j)
        then have "n - (va + 4096) = 4096 * j" using k by simp
        then show ?thesis using k Suc a by auto
      qed (use a k in simp)
    next
      assume "n = va \<or> va + 4096 \<le> n \<and> 4096 dvd n - (va + 4096)"
      then show "va \<le> n \<and> 4096 dvd n - va"
      proof
        assume a: "va + 4096 \<le> n \<and> 4096 dvd n - (va + 4096)"
        then have "n - va = (n - (va + 4096)) + 4096" by simp
        then show ?thesis using a by (metis add_leD1 dvd_add dvd_refl)
      qed simp
    qed
    have G: "?G va = (if in_sections img (of_nat va) then {} else {vpage (of_nat va)}) \<union> ?G (va + 4096)"
    proof -
      have "?G va = {vpage (of_nat n) | n. (n = va \<or> va + 4096 \<le> n \<and> 4096 dvd n - (va + 4096)) \<and>
          n < unat (kernel_end img) \<and> \<not> in_sections img (of_nat n)}"
        using step by (intro Collect_cong ex_cong) blast
      also have "\<dots> = (if in_sections img (of_nat va) then {} else {vpage (of_nat va)}) \<union> ?G (va + 4096)"
        using False by auto
      finally show ?thesis .
    qed
    show ?thesis
    proof (cases "in_sections img (of_nat va)")
      case True
      then have "gap_loop s img base (va + 4096) = Inr s'" using False "1.prems"(2) by (subst (asm) gap_loop.simps) simp
      from "1.IH"(1) [OF False True "1.prems"(1) this] show ?thesis unfolding G using True by simp
    next
      case F: False
      obtain s1 where s1: "vmm_map_page s (of_nat va) (base + (of_nat va - kernel_start img)) VMM_FLAGS_KERNEL_RW = Inr s1"
        "gap_loop s1 img base (va + 4096) = Inr s'"
        using False F "1.prems"(2) by (subst (asm) gap_loop.simps) (auto simp: res_facts)
      obtain A1 where a1: "vmm_inv s1 A1 M" "wx_pages s1 = wx_pages s - {vpage (of_nat va)}"
        using map_page_wx [OF "1.prems"(1) s1(1)] section_flags(3) by metis
      have dd: "W - {x} - Y = W - ({x} \<union> Y)" for W Y and x :: "u64 \<times> u64 \<times> u64 \<times> u64" by blast
      from "1.IH"(2) [OF False F s1(1) a1(1) s1(2)] show ?thesis unfolding G a1(2) dd using F by (simp only: if_False)
    qed
  qed
qed

subsection \<open>Stacks\<close>

lemma alloc_table_inv:
  assumes inv: "vmm_inv s A M" and a: "pmm_alloc_pages (vpmm s) 0 = Inr (m, pfn_to_phys f)" "0 < f" "f < 2 ^ 52" "f \<notin> cover A"
    "pmm_in M m (insert (f, 0) A)"
  shows "vmm_inv (s\<lparr>vpmm := m, ptab := (ptab s)(pfn_to_phys f := (\<lambda>_. 0))\<rparr>) (insert (f, 0) A) M"
    "vlookup (s\<lparr>vpmm := m, ptab := (ptab s)(pfn_to_phys f := (\<lambda>_. 0))\<rparr>) w = vlookup s w"
proof -
  let ?s = "s\<lparr>vpmm := m, ptab := (ptab s)(pfn_to_phys f := (\<lambda>_. 0))\<rparr>"
  have ne: "t \<noteq> pfn_to_phys f" if q: "length q \<le> 3" "tab s q = Some t" for q t
  proof
    assume e: "t = pfn_to_phys f"
    obtain g where g: "t = pfn_to_phys g" "(g, 0) \<in> A" using vmm_invD(4) [OF inv q] by blast
    note G = owned_frame [OF inv g(2)]
    have "g = f" using frame_inj [OF lt_40_52 [OF G(2)] a(3)] g(1) e by metis
    then show False using G(1) a(4) by blast
  qed
  have T: "length q \<le> 3 \<Longrightarrow> tab ?s q = tab s q" for q
  proof (induction q)
    case (Cons j q)
    then have l: "length q \<le> 3" by simp
    have IH: "tab ?s q = tab s q" by (rule Cons.IH [OF l])
    show ?case unfolding tab.simps(2) IH using ne [OF l] by (auto split: option.splits)
  qed simp
  have pt: "ptab ?s t i = ptab s t i" if "length q \<le> 3" "tab s q = Some t" for q t i using ne [OF that] by simp
  show "vmm_inv ?s (insert (f, 0) A) M"
    unfolding vmm_inv_def
  proof (intro conjI allI impI)
    show "pmm_in M (vpmm ?s) (insert (f, 0) A)" using a(5) by simp
    show "M \<subseteq> {..<2 ^ 40}" by (rule vmm_invD(2) [OF inv])
    show "pml4_phys ?s \<noteq> 0" using vmm_invD(3) [OF inv] by simp
    show "\<exists>g. t = pfn_to_phys g \<and> (g, 0) \<in> insert (f, 0) A" if "length q \<le> 3" "tab ?s q = Some t" for q t
      using vmm_invD(4) [OF inv that(1)] that T [OF that(1)] by auto
    show "q = q'" if "length q \<le> 3" "length q' \<le> 3" "tab ?s q = Some t" "tab ?s q' = Some t" for q q' t
      using vmm_invD(5) [OF inv that(1,2)] that(3,4) T [OF that(1)] T [OF that(2)] by simp
    show "\<not> huge (ptab ?s t i)" if q: "length q < 2" "tab ?s q = Some t" "present (ptab ?s t i)" for q t i
    proof -
      have l: "length q \<le> 3" using q(1) by simp
      have t: "tab s q = Some t" using T [OF l] q(2) by simp
      show ?thesis using vmm_invD(6) [OF inv q(1) t] q(3) pt [OF l t] by simp
    qed
  qed
  show "vlookup ?s w = vlookup s w"
  proof (rule vlookup_cong)
    show "ptab ?s u (PD_INDEX w) = ptab s u (PD_INDEX w)" if "tab s [PDPT_INDEX w, PML4_INDEX w] = Some u" for u
      by (rule pt [OF _ that]) simp
    show "ptab ?s u (PT_INDEX w) = ptab s u (PT_INDEX w)" if "tab s [PD_INDEX w, PDPT_INDEX w, PML4_INDEX w] = Some u" for u
      by (rule pt [OF _ that]) simp
  qed (simp_all add: T)
qed

lemma alloc_table_wx:
  assumes inv: "vmm_inv s A M" and r: "alloc_table s = Inr (s', p)" "p \<noteq> 0"
  obtains A' where "vmm_inv s' A' M" "wx_enforced s' = wx_enforced s" "wx_pages s' = wx_pages s"
proof (cases rule: pmm_in.alloc_page_cases [OF vmm_invD(1) [OF inv]])
  case 1
  then show thesis using r by (auto simp: alloc_table_def)
next
  case (2 m f)
  have nz: "pfn_to_phys f \<noteq> 0" using pfn_to_phys_facts(3) [OF 2(3)] 2(2) by blast
  have s': "s' = s\<lparr>vpmm := m, ptab := (ptab s)(pfn_to_phys f := (\<lambda>_. 0))\<rparr>" using r 2(1) nz by (auto simp: alloc_table_def)
  note L = alloc_table_inv [OF inv 2, folded s']
  have "wx_pages s' = wx_pages s" by (simp add: wx_pages_def L(2))
  then show thesis using that L(1) by (simp add: s')
qed

lemma stack_loop_wx:
  "vmm_inv s A M \<Longrightarrow> wx_pages s = {} \<Longrightarrow> stack_loop s va n = Inr s' \<Longrightarrow>
    \<exists>A'. vmm_inv s' A' M \<and> wx_pages s' = {} \<and> wx_enforced s' = wx_enforced s"
proof (induction n arbitrary: s')
  case (Suc n)
  from Suc.prems(3) obtain s1 s2 p where st: "stack_loop s va n = Inr s1" "alloc_table s1 = Inr (s2, p)" "p \<noteq> 0"
    "vmm_map_page s2 (va + of_nat (n + 1) * PAGE_SIZE) p VMM_FLAGS_KERNEL_RW = Inr s'"
    by (auto simp: res_facts)
  obtain A1 where a1: "vmm_inv s1 A1 M" "wx_pages s1 = {}" "wx_enforced s1 = wx_enforced s" using Suc.IH [OF Suc.prems(1,2) st(1)] by blast
  obtain A2 where a2: "vmm_inv s2 A2 M" "wx_enforced s2 = wx_enforced s1" "wx_pages s2 = wx_pages s1" using alloc_table_wx [OF a1(1) st(2,3)] by metis
  obtain A3 where a3: "vmm_inv s' A3 M" "wx_enforced s' = wx_enforced s2"
    "wx_pages s' = wx_pages s2 - {vpage (va + of_nat (n + 1) * PAGE_SIZE)}"
    using map_page_wx [OF a2(1) st(4)] section_flags(3) by metis
  then show ?case using a1 a2 by auto
qed auto

lemma unmap_wx:
  assumes "vmm_inv s A M" "wx_pages s = {}" "vmm_unmap_page s v = Inr s'"
  shows "vmm_inv s' A M" "wx_pages s' = {}"
proof -
  have al: "IS_PAGE_ALIGNED v" using assms(3) by (auto simp: vmm_unmap_page_def res_facts)
  have r: "vmm_inv s' A M" "\<forall>w. vlookup s' w = (if vpage w = vpage v \<and> (\<forall>e. vlookup s v \<noteq> Page2M e) then Unmapped else vlookup s w)"
    using unmap_page_spec [OF assms(1) al] assms(3) by auto
  show "vmm_inv s' A M" by (rule r(1))
  show "wx_pages s' = {}" using r(2) assms(2) unfolding wx_pages_def by (auto split: if_splits)
qed

subsection \<open>The whole initialisation\<close>

lemma first_table:
  assumes m: "pmm_in M (vpmm s0) A" "M \<subseteq> {..<2 ^ 40}" and r: "alloc_table s0 = Inr (s1, pml4)" "pml4 \<noteq> 0"
  obtains A' where "vmm_inv (s1\<lparr>pml4_phys := pml4\<rparr>) A' M" "wx_pages (s1\<lparr>pml4_phys := pml4\<rparr>) = {}"
    "\<And>v. vlookup (s1\<lparr>pml4_phys := pml4\<rparr>) v = Unmapped" "frames_left A M \<le> frames_left A' M + 1"
proof (cases rule: pmm_in.alloc_page_cases [OF m(1)])
  case 1
  then show thesis using r by (auto simp: alloc_table_def)
next
  case (2 m' f)
  let ?s = "s1\<lparr>pml4_phys := pml4\<rparr>"
  have nz: "pfn_to_phys f \<noteq> 0" using pfn_to_phys_facts(3) [OF 2(3)] 2(2) by blast
  have s1: "s1 = s0\<lparr>vpmm := m', ptab := (ptab s0)(pfn_to_phys f := (\<lambda>_. 0))\<rparr>" "pml4 = pfn_to_phys f"
    using r 2(1) nz by (auto simp: alloc_table_def)
  have T: "tab ?s p = (if p = [] then Some (pfn_to_phys f) else None)" for p
    by (induction p) (auto simp: s1 tab.simps(2) split: option.splits)
  have "vmm_inv ?s (insert (f, 0) A) M"
    unfolding vmm_inv_def T using m(2) 2(5) nz by (auto simp: s1 split: if_splits)
  moreover have u: "vlookup ?s v = Unmapped" for v by (simp add: vlookup_def T)
  then have "wx_pages ?s = {}" by (simp add: wx_pages_def)
  ultimately show thesis using that u frames_left_take [OF pmm_in_finite [OF m(1)], of A f] by blast
qed

lemma wx_pages_cong: "ptab s' = ptab s \<Longrightarrow> pml4_phys s' = pml4_phys s \<Longrightarrow> vpmm s' = vpmm s \<Longrightarrow>
    wx_pages s' = wx_pages s \<and> vmm_inv s' A M = vmm_inv s A M"
proof -
  assume e: "ptab s' = ptab s" "pml4_phys s' = pml4_phys s" "vpmm s' = vpmm s"
  have T: "tab s' p = tab s p" for p by (induction p) (auto simp: e tab.simps(2) split: option.splits)
  have "vlookup s' v = vlookup s v" for v unfolding vlookup_def T e ..
  then show ?thesis unfolding wx_pages_def vmm_inv_def T e by simp
qed

lemma kernel_pages_covered:
  assumes le: "kernel_start img \<le> kernel_end img" and al: "kernel_start img < kernel_end img \<Longrightarrow> IS_PAGE_ALIGNED (kernel_start img)"
    and sec: "\<And>va. IS_PAGE_ALIGNED va \<Longrightarrow> in_sections img va \<Longrightarrow> vpage va \<in> section_pages img"
  shows "range_pages (kernel_start img) (kernel_end img - kernel_start img) 0 \<subseteq> section_pages img \<union>
    {vpage (of_nat n) | n. unat (kernel_start img) \<le> n \<and> n < unat (kernel_end img) \<and> 4096 dvd n - unat (kernel_start img) \<and> \<not> in_sections img (of_nat n)}"
proof
  let ?k = "kernel_start img"
  fix x assume "x \<in> range_pages ?k (kernel_end img - ?k) 0"
  then obtain d where d: "x = vpage (?k + of_nat d)" "4096 dvd d" "d < unat (kernel_end img - ?k)" unfolding range_pages_def by blast
  have u: "unat (kernel_end img - ?k) = unat (kernel_end img) - unat ?k" using le by (rule unat_sub)
  let ?n = "unat ?k + d"
  have n: "of_nat ?n = ?k + of_nat d" "?n < unat (kernel_end img)" "unat ?k < unat (kernel_end img)" using d(3) u by simp_all
  have va: "IS_PAGE_ALIGNED (?k + of_nat d)" using aligned_add [OF al d(2)] n(3) by (simp add: word_less_nat_alt)
  show "x \<in> section_pages img \<union>
    {vpage (of_nat n) | n. unat ?k \<le> n \<and> n < unat (kernel_end img) \<and> 4096 dvd n - unat ?k \<and> \<not> in_sections img (of_nat n)}"
  proof (cases "in_sections img (?k + of_nat d)")
    case True
    then show ?thesis using sec [OF va] d(1) by blast
  next
    case False
    then have "\<exists>n. x = vpage (of_nat n) \<and> unat ?k \<le> n \<and> n < unat (kernel_end img) \<and> 4096 dvd n - unat ?k \<and> \<not> in_sections img (of_nat n)"
      using d(1,2) n(1,2) by (intro exI [of _ ?n]) simp
    then show ?thesis by blast
  qed
qed

lemma zero_aligned: "IS_PAGE_ALIGNED 0"
  by (simp add: IS_PAGE_ALIGNED_def)

text \<open>C27: the address space after boot. For every layout of the kernel image, memory map and boot
  stack: when \<open>vmm_init\<close> returns, the tables are well formed, enforcement of write xor execute is
  on, no page of the address space is both writable and executable although the kernel was first
  mapped that way, and the audit reports zero violations. The gaps between the sections, which keep
  their first mapping otherwise, are what the sweep is needed for.\<close>

theorem vmm_init_wx_clean:
  assumes "pmm_in M (vpmm s0) A" "M \<subseteq> {..<2 ^ 40}" "kernel_start img \<le> kernel_end img"
    "vmm_init s0 limine_cr3 img needed mm hhdm_offset rsp = Inr (s, regs)"
  shows "(\<exists>A'. vmm_inv s A' M) \<and> wx_enforced s \<and> wx_pages s = {} \<and> vmm_audit_wx s = 0"
proof -
  let ?k = "kernel_start img" and ?F = "PTE_PRESENT OR PTE_WRITE OR PTE_GLOBAL"
  from assms(4) obtain s1 pml4 base s3 s4 s5 s6 s7 s8 where st: "alloc_table s0 = Inr (s1, pml4)" "pml4 \<noteq> 0"
    "vmm_map_range (s1\<lparr>pml4_phys := pml4\<rparr>) ?k base (kernel_end img - ?k) ?F = Inr s3"
    "vmm_map_range_huge s3 hhdm_offset 0 (hhdm_top needed mm (vpmm s3)) VMM_FLAGS_HHDM = Inr s4"
    "map_sections s4 img base = Inr s5" "gap_loop s5 img base (unat ?k) = Inr s6"
    "stack_loop (s6\<lparr>wx_enforced := True\<rparr>) KERNEL_STACK_VIRT KERNEL_STACK_PAGES = Inr s7"
    "vmm_unmap_page s7 (PAGE_ALIGN_DOWN rsp - PAGE_SIZE) = Inr s8" "stack_loop s8 IST1_STACK_VIRT IST1_STACK_PAGES = Inr s"
    by (auto simp: vmm_init_def Let_def res_facts)
  obtain A2 where a2: "vmm_inv (s1\<lparr>pml4_phys := pml4\<rparr>) A2 M" "wx_pages (s1\<lparr>pml4_phys := pml4\<rparr>) = {}"
    using first_table [OF assms(1,2) st(1,2)] by metis
  obtain A3 where a3: "vmm_inv s3 A3 M" "wx_pages s3 \<subseteq> range_pages ?k (kernel_end img - ?k) 0"
    "0 < kernel_end img - ?k \<Longrightarrow> IS_PAGE_ALIGNED ?k" using map_range_wx_ok [OF a2(1) st(3)] a2(2) by (metis Un_empty_left)
  have hl: "map_huge_loop s3 hhdm_offset 0 (hhdm_top needed mm (vpmm s3)) VMM_FLAGS_HHDM 0 = Inr s4"
    using st(4) by (simp add: vmm_map_range_huge_def res_facts)
  obtain A4 where a4: "vmm_inv s4 A4 M" "wx_pages s4 \<subseteq> wx_pages s3"
    using map_huge_loop_wx [OF a3(1) hl zero_aligned _ section_flags(4)] by auto
  obtain A5 where a5: "vmm_inv s5 A5 M" "wx_pages s5 = wx_pages s4 - section_pages img"
    "\<And>va. IS_PAGE_ALIGNED va \<Longrightarrow> in_sections img va \<Longrightarrow> vpage va \<in> section_pages img"
    using map_sections_wx [OF a4(1) st(5)] by metis
  let ?G = "{vpage (of_nat n) | n. unat ?k \<le> n \<and> n < unat (kernel_end img) \<and> 4096 dvd n - unat ?k \<and> \<not> in_sections img (of_nat n)}"
  obtain A6 where a6: "vmm_inv s6 A6 M" "wx_pages s6 = wx_pages s5 - ?G" using gap_loop_wx [OF a5(1) st(6)] by blast
  have al: "IS_PAGE_ALIGNED ?k" if "?k < kernel_end img" using a3(3) that by (simp add: word_gt_0)
  have "wx_pages s6 = {}" using kernel_pages_covered [OF assms(3) al a5(3)] a3(2) a4(2) unfolding a6(2) a5(2) by blast
  then have a6': "vmm_inv (s6\<lparr>wx_enforced := True\<rparr>) A6 M" "wx_pages (s6\<lparr>wx_enforced := True\<rparr>) = {}"
    using a6(1) wx_pages_cong [of "s6\<lparr>wx_enforced := True\<rparr>" s6] by simp_all
  obtain A7 where a7: "vmm_inv s7 A7 M" "wx_pages s7 = {}" "wx_enforced s7" using stack_loop_wx [OF a6' st(7)] by auto
  note a8 = unmap_wx [OF a7(1,2) st(8)]
  have e8: "wx_enforced s8" using st(8) a7(3) by (auto simp: vmm_unmap_page_def Let_def res_facts split: if_splits)
  obtain A9 where a9: "vmm_inv s A9 M" "wx_pages s = {}" "wx_enforced s" using stack_loop_wx [OF a8 st(9)] e8 by auto
  then show ?thesis using audit_zero [OF a9(1,2)] by blast
qed

subsection \<open>A machine that boots\<close>

text \<open>\<open>ready s n M\<close>: at least \<open>n\<close> frames are free and there is no 2 MB page outside the entry of
  the direct map in the top-level table.\<close>

definition ready :: "vmm_state \<Rightarrow> nat \<Rightarrow> nat set \<Rightarrow> bool" where
  "ready s n M \<longleftrightarrow> (\<exists>A. vmm_inv s A M \<and> n \<le> frames_left A M) \<and> (\<forall>v e. PML4_INDEX v \<noteq> 256 \<longrightarrow> vlookup s v \<noteq> Page2M e)"

lemma ready_cong: "ptab s' = ptab s \<Longrightarrow> pml4_phys s' = pml4_phys s \<Longrightarrow> vpmm s' = vpmm s \<Longrightarrow> ready s' n M = ready s n M"
proof -
  assume e: "ptab s' = ptab s" "pml4_phys s' = pml4_phys s" "vpmm s' = vpmm s"
  have T: "tab s' p = tab s p" for p by (induction p) (auto simp: e tab.simps(2) split: option.splits)
  have "vlookup s' v = vlookup s v" for v unfolding vlookup_def T e ..
  then show ?thesis using wx_pages_cong [OF e] unfolding ready_def by simp
qed

lemma map_page_ready:
  assumes "ready s (n + 3) M" "IS_PAGE_ALIGNED v" "IS_PAGE_ALIGNED p" "PML4_INDEX v \<noteq> 256"
  shows "\<exists>s'. vmm_map_page s v p fl = Inr s' \<and> ready s' n M"
proof -
  obtain A where A: "vmm_inv s A M" "n + 3 \<le> frames_left A M" "\<And>v e. PML4_INDEX v \<noteq> 256 \<Longrightarrow> vlookup s v \<noteq> Page2M e"
    using assms(1) by (auto simp: ready_def)
  have nh: "vlookup s v \<noteq> Page2M e" for e using A(3) assms(4) by blast
  obtain s' A' where r: "vmm_map_page s v p fl = Inr s'" "vmm_inv s' A' M" "frames_left A M \<le> frames_left A' M + 3"
    "\<And>w. vlookup s' w = (if vpage w = vpage v then leaf (p OR wx_flags s fl) else vlookup s w)"
    using map_page_spec [OF A(1) assms(2,3) nh, of fl] A(2) unfolding leaf_def by auto
  have "vlookup s' w \<noteq> Page2M e" if "PML4_INDEX w \<noteq> 256" for w e using A(3) [OF that] by (simp add: r(4) leaf_def)
  moreover have "n \<le> frames_left A' M" using A(2) r(3) by simp
  ultimately show ?thesis using r(1,2) unfolding ready_def by blast
qed

lemma map_range_loop_ready:
  assumes "ready s (n + 3 * npages sz k) M" "4096 dvd k" "IS_PAGE_ALIGNED virt" "IS_PAGE_ALIGNED phys"
    "\<forall>j. 4096 dvd j \<and> j < unat sz \<longrightarrow> PML4_INDEX (virt + of_nat j) \<noteq> 256"
  shows "\<exists>s'. map_range_loop s virt phys sz fl k = Inr s' \<and> ready s' n M"
  using assms
proof (induction s virt phys sz fl k rule: map_range_loop.induct)
  case (1 s virt phys sz fl k)
  show ?case
  proof (cases "unat sz \<le> k")
    case True
    then have "npages sz k = 0" by (simp add: npages_def)
    then show ?thesis using True "1.prems"(1) by (subst map_range_loop.simps) simp
  next
    case False
    then have np: "npages sz k = npages sz (k + 4096) + 1" using npages_step by simp
    have "ready s ((n + 3 * npages sz (k + 4096)) + 3) M" using "1.prems"(1) by (simp add: np algebra_simps)
    moreover have "IS_PAGE_ALIGNED (virt + of_nat k)" "IS_PAGE_ALIGNED (phys + of_nat k)" using aligned_add "1.prems"(2-4) by blast+
    moreover have "PML4_INDEX (virt + of_nat k) \<noteq> 256" using "1.prems"(2,5) False by simp
    ultimately obtain s1 where s1: "vmm_map_page s (virt + of_nat k) (phys + of_nat k) fl = Inr s1" "ready s1 (n + 3 * npages sz (k + 4096)) M"
      using map_page_ready by blast
    have "4096 dvd k + 4096" using "1.prems"(2) by simp
    from "1.IH" [OF False s1(1,2) this "1.prems"(3-5)] obtain s' where
      s': "map_range_loop s1 virt phys sz fl (k + 4096) = Inr s'" "ready s' n M" by blast
    then show ?thesis using False s1(1) by (subst map_range_loop.simps) simp
  qed
qed

lemma alloc_table_ready:
  assumes "ready s (n + 1) M"
  shows "\<exists>s' f. alloc_table s = Inr (s', pfn_to_phys f) \<and> pfn_to_phys f \<noteq> 0 \<and> f < 2 ^ 52 \<and> ready s' n M"
proof -
  obtain A where A: "vmm_inv s A M" "n + 1 \<le> frames_left A M" "\<And>v e. PML4_INDEX v \<noteq> 256 \<Longrightarrow> vlookup s v \<noteq> Page2M e"
    using assms by (auto simp: ready_def)
  note own = vmm_invD(1) [OF A(1)]
  show ?thesis
  proof (cases rule: pmm_in.alloc_page_cases [OF own])
    case 1
    then show ?thesis using pmm_in_alloc_none [OF own] A(2) by simp
  next
    case (2 m f)
    have nz: "pfn_to_phys f \<noteq> 0" using pfn_to_phys_facts(3) [OF 2(3)] 2(2) by blast
    let ?s = "s\<lparr>vpmm := m, ptab := (ptab s)(pfn_to_phys f := (\<lambda>_. 0))\<rparr>"
    have r: "alloc_table s = Inr (?s, pfn_to_phys f)" using 2(1) nz by (simp add: alloc_table_def)
    have L: "vmm_inv ?s (insert (f, 0) A) M" "vlookup ?s w = vlookup s w" for w
      using alloc_table_inv [OF A(1) 2] by simp_all
    have "n \<le> frames_left (insert (f, 0) A) M" using frames_left_take [OF pmm_in_finite [OF own], of A f] A(2) by simp
    then have "ready ?s n M" unfolding ready_def using L A(3) by auto
    then show ?thesis using r nz 2(3) by blast
  qed
qed

lemma stack_loop_ready:
  assumes "ready s (n + 4 * k) M" "IS_PAGE_ALIGNED va" "\<forall>i \<le> k. PML4_INDEX (va + of_nat i * PAGE_SIZE) \<noteq> 256"
  shows "\<exists>s'. stack_loop s va k = Inr s' \<and> ready s' n M"
  using assms
proof (induction k arbitrary: n)
  case (Suc k)
  have "ready s ((n + 4) + 4 * k) M" using Suc.prems(1) by (simp add: algebra_simps)
  then obtain s1 where s1: "stack_loop s va k = Inr s1" "ready s1 (n + 4) M" using Suc.IH [of "n + 4"] Suc.prems(2,3) by auto
  have "(n + 3) + 1 = n + 4" by simp
  then have "ready s1 ((n + 3) + 1) M" using s1(2) by (simp only:)
  then obtain s2 f where s2: "alloc_table s1 = Inr (s2, pfn_to_phys f)" "pfn_to_phys f \<noteq> 0" "f < 2 ^ 52" "ready s2 (n + 3) M"
    using alloc_table_ready by blast
  have "of_nat (k + 1) * PAGE_SIZE = (of_nat ((k + 1) * 4096) :: u64)" by (simp add: PAGE_SIZE_def)
  then have al: "IS_PAGE_ALIGNED (va + of_nat (k + 1) * PAGE_SIZE)" using aligned_add [OF Suc.prems(2), of "(k + 1) * 4096"] by simp
  have fa: "IS_PAGE_ALIGNED (pfn_to_phys f)" unfolding IS_PAGE_ALIGNED_def by (rule pfn_to_phys_facts(2) [OF s2(3)])
  have "PML4_INDEX (va + of_nat (k + 1) * PAGE_SIZE) \<noteq> 256" using Suc.prems(3) by auto
  from map_page_ready [OF s2(4) al fa this] show ?case using s1(1) s2(1,2) by auto
qed simp

lemma unmap_ready:
  assumes "ready s n M" "IS_PAGE_ALIGNED v"
  shows "\<exists>s'. vmm_unmap_page s v = Inr s' \<and> ready s' n M"
proof -
  obtain A where A: "vmm_inv s A M" "n \<le> frames_left A M" "\<And>v e. PML4_INDEX v \<noteq> 256 \<Longrightarrow> vlookup s v \<noteq> Page2M e"
    using assms(1) by (auto simp: ready_def)
  obtain s' where s': "vmm_unmap_page s v = Inr s'" "vmm_inv s' A M"
    "\<And>w. vlookup s' w = (if vpage w = vpage v \<and> (\<forall>e. vlookup s v \<noteq> Page2M e) then Unmapped else vlookup s w)"
    using unmap_page_spec [OF A(1) assms(2)] by blast
  have "vlookup s' w \<noteq> Page2M e" if "PML4_INDEX w \<noteq> 256" for w e using A(3) [OF that] by (simp add: s'(3))
  then show ?thesis using s'(1,2) A(2) unfolding ready_def by blast
qed

lemma map_huge_ready:
  assumes "ready s (n + 2) M" "PML4_INDEX v = 256"
  shows "\<exists>s'. map_huge s v p fl = Inr s' \<and> ready s' n M"
proof -
  let ?a = "PML4_INDEX v" and ?b = "PDPT_INDEX v"
  obtain A where A: "vmm_inv s A M" "n + 2 \<le> frames_left A M" "\<And>v e. PML4_INDEX v \<noteq> 256 \<Longrightarrow> vlookup s v \<noteq> Page2M e"
    using assms(1) by (auto simp: ready_def)
  have nh: "\<not> (present (ptab s (pml4_phys s) ?a) \<and> huge (ptab s (pml4_phys s) ?a))"
    using vmm_invD(6) [OF A(1), of "[]" "pml4_phys s" ?a] by auto
  have t0: "tab s [] = Some (pml4_phys s)" by simp
  obtain s1 pdpt A1 where a1: "descend s (pml4_phys s) ?a = Inr (s1, pdpt)" "vmm_inv s1 A1 M" "tab s1 [?a] = Some pdpt"
    "\<And>w. vlookup s1 w = vlookup s w" "frames_left A M \<le> frames_left A1 M + 1"
    using descend_spec [OF A(1) t0 _ nh] A(2) by auto
  have nh1: "\<not> (present (ptab s1 pdpt ?b) \<and> huge (ptab s1 pdpt ?b))"
    using vmm_invD(6) [OF a1(2), of "[?a]" pdpt ?b] a1(3) by auto
  obtain s2 pd A2 where a2: "descend s1 pdpt ?b = Inr (s2, pd)" "vmm_inv s2 A2 M" "tab s2 [?b, ?a] = Some pd"
    "\<And>w. vlookup s2 w = vlookup s1 w" "frames_left A1 M \<le> frames_left A2 M + 1"
    using descend_spec [OF a1(2,3) _ nh1] A(2) a1(5) by auto
  let ?e = "p OR fl OR PTE_HUGE"
  let ?s = "set_entry s2 pd (PD_INDEX v) ?e"
  have h: "\<not> (present ?e \<and> \<not> huge ?e)" by (simp add: entry_bits bit_or_iff flag_pow2 bit_pow2)
  have i: "vmm_inv ?s A2 M" by (rule vmm_inv_set_pd [OF a2(2,3) _ h]) simp
  have "vlookup ?s w \<noteq> Page2M e" if w: "PML4_INDEX w \<noteq> 256" for w e
  proof -
    have "vlookup ?s w = vlookup s2 w" using vlookup_set_other [OF a2(2,3) h] w assms(2) by auto
    then show ?thesis using A(3) [OF w] a1(4) a2(4) by simp
  qed
  then have "ready ?s n M" unfolding ready_def using i A(2) a1(5) a2(5) by auto
  moreover have "map_huge s v p fl = Inr ?s" using a1(1) a2(1) by (simp add: map_huge_def)
  ultimately show ?thesis by blast
qed

definition boot_map :: "memmap_entry list" where
  "boot_map = [\<lparr>me_base = 4096, me_length = 262144, me_type = 0\<rparr>]"

definition boot_vmm :: "pmm_state \<Rightarrow> vmm_state" where
  "boot_vmm m = \<lparr>ptab = (\<lambda>_ _. 0x200083), pml4_phys = 0, vpmm = m, tables_allocated = 0, wx_enforced = False, tlb_flushed = []\<rparr>"

definition boot_image :: kimage where
  "boot_image = \<lparr>kernel_start = 0xFFFFFFFF80000000, kernel_end = 0xFFFFFFFF80002000,
     text_start = 0xFFFFFFFF80000000, text_end = 0xFFFFFFFF80001000, rodata_start = 0xFFFFFFFF80002000, rodata_end = 0xFFFFFFFF80002000,
     data_start = 0xFFFFFFFF80002000, data_end = 0xFFFFFFFF80002000, bss_start = 0xFFFFFFFF80002000, bss_end = 0xFFFFFFFF80002000\<rparr>"

lemma boot_pmm: "\<exists>m. pmm_init boot_map = Inr m \<and> pmm_in {2..<65} m {}"
proof -
  have f: "regions_ok boot_map" "find_steal boot_map 0 0 0 0 = (4096, 262144, 0)" "unat (max_usable boot_map) = 266240"
    by (simp_all add: boot_map_def entry_end_def max_usable_def word_less_nat_alt)
  have "fed_frames boot_map 0 0 1 = {2..<65}" by (auto simp: boot_map_def entry_end_def frames_in_interval)
  then obtain m F where "pmm_init boot_map = Inr m" "pmm_inv m F {} {2..<65}"
    using pmm_init_steps [OF f(1,2)] by (auto simp: f(3))
  then show ?thesis unfolding pmm_in_def by auto
qed

lemma boot_sizes:
  "hhdm_top (\<lambda>t. t = 0) (Some boot_map) p = 0x200000" "PML4_INDEX 0xFFFF800000000000 = 256"
  by (simp_all add: hhdm_top_def boot_map_def ALIGN_UP_def MB_def PML4_INDEX_def)

lemma kernel_index: "4096 dvd j \<Longrightarrow> j < 0x2000 \<Longrightarrow> PML4_INDEX (0xFFFFFFFF80000000 + of_nat j) \<noteq> 256"
proof -
  assume j: "4096 dvd j" "j < 0x2000"
  then obtain k where "j = 4096 * k" "k < 2" by (auto simp: dvd_def)
  then have "j = 0 \<or> j = 4096" by (auto simp: less_2_cases_iff)
  then show ?thesis by (auto simp: PML4_INDEX_def)
qed

lemma boot_first:
  assumes "pmm_in {2..<65} m {}"
  obtains s1 pml4 where "alloc_table (boot_vmm m) = Inr (s1, pml4)" "pml4 \<noteq> 0" "ready (s1\<lparr>pml4_phys := pml4\<rparr>) 62 {2..<65}"
    "find_kernel_phys (s1\<lparr>pml4_phys := pml4\<rparr>) 0x300000 0xFFFFFFFF80000000 = Inr 0x200000"
proof -
  have vp: "vpmm (boot_vmm m) = m" by (simp add: boot_vmm_def)
  have fl: "frames_left {} {2..<65} = 63" by (simp add: frames_left_def cover_def)
  show thesis
  proof (cases rule: pmm_in.alloc_page_cases [OF assms])
    case 1
    then show thesis using pmm_in_alloc_none [OF assms] fl by simp
  next
    case (2 t f)
    let ?s1 = "(boot_vmm m)\<lparr>vpmm := t, ptab := (ptab (boot_vmm m))(pfn_to_phys f := (\<lambda>_. 0))\<rparr>"
    have nz: "pfn_to_phys f \<noteq> 0" using pfn_to_phys_facts(3) [OF 2(3)] 2(2) by blast
    have r: "alloc_table (boot_vmm m) = Inr (?s1, pfn_to_phys f)" using 2(1) nz vp by (simp add: alloc_table_def)
    have f: "f < 65" using pmm_in_frame(1) [OF 2(5), of f 0] by simp
    then have "unat (pfn_to_phys f) < 0x200000"
      by (simp add: pfn_to_phys_def push_bit_eq_mult unat_word_ariths unat_of_nat_u64)
    then have ne: "pfn_to_phys f \<noteq> 0x200000" "pfn_to_phys f \<noteq> 0x300000" by auto
    let ?s2 = "?s1\<lparr>pml4_phys := pfn_to_phys f\<rparr>"
    have M: "{2..<65} \<subseteq> {..<2 ^ 40 :: nat}" by auto
    obtain A' where A': "vmm_inv ?s2 A' {2..<65}" "\<And>v. vlookup ?s2 v = Unmapped" "frames_left {} {2..<65} \<le> frames_left A' {2..<65} + 1"
      using first_table [OF _ M r nz] assms vp by metis
    have "ready ?s2 62 {2..<65}" unfolding ready_def using A' fl by auto
    moreover have "find_kernel_phys ?s2 0x300000 0xFFFFFFFF80000000 = Inr 0x200000"
      using ne by (simp add: find_kernel_phys_def Let_def boot_vmm_def present_def huge_def pte_to_phys_def PTE_ADDR_MASK_def
          PTE_PRESENT_def PTE_HUGE_def)
    ultimately show thesis using that r nz by blast
  qed
qed

lemma boot_kernel:
  assumes "ready s (n + 6) M"
  shows "\<exists>s'. vmm_map_range s 0xFFFFFFFF80000000 0x200000 0x2000 fl = Inr s' \<and> ready s' n M"
  unfolding vmm_map_range_def
  by (rule map_range_loop_ready)
    (use assms kernel_index in \<open>simp_all add: npages_def IS_PAGE_ALIGNED_def PAGE_SIZE_def\<close>)

lemma boot_hhdm:
  assumes "ready s (n + 2) M"
  shows "\<exists>s'. vmm_map_range_huge s 0xFFFF800000000000 0 0x200000 fl = Inr s' \<and> ready s' n M"
proof -
  obtain s' where s': "map_huge s 0xFFFF800000000000 0 fl = Inr s'" "ready s' n M"
    using map_huge_ready [OF assms boot_sizes(2)] by blast
  have "map_huge_loop s 0xFFFF800000000000 0 0x200000 fl 0 = Inr s'"
    using s'(1) by (subst map_huge_loop.simps, simp, subst map_huge_loop.simps, simp)
  then show ?thesis using s'(2) by (simp add: vmm_map_range_huge_def)
qed

lemma boot_sections:
  assumes "ready s (n + 3) M"
  shows "\<exists>s'. map_sections s boot_image 0x200000 = Inr s' \<and> ready s' n M"
proof -
  have "\<exists>s'. map_range_loop s 0xFFFFFFFF80000000 0x200000 0x1000 VMM_FLAGS_KERNEL_RX 0 = Inr s' \<and> ready s' n M"
    by (rule map_range_loop_ready)
      (use assms kernel_index in \<open>simp_all add: npages_def IS_PAGE_ALIGNED_def PAGE_SIZE_def\<close>)
  then show ?thesis by (auto simp: map_sections_def map_section_def boot_image_def vmm_map_range_def)
qed

lemma boot_gaps:
  assumes "ready s (n + 3) M"
  shows "\<exists>s'. gap_loop s boot_image 0x200000 0xFFFFFFFF80000000 = Inr s' \<and> ready s' n M"
proof -
  have in1: "in_sections boot_image 0xFFFFFFFF80000000" "\<not> in_sections boot_image 0xFFFFFFFF80001000"
    by (simp_all add: in_sections_def in_section_def boot_image_def word_le_nat_alt word_less_nat_alt)
  have "IS_PAGE_ALIGNED 0xFFFFFFFF80001000" "IS_PAGE_ALIGNED 0x201000" "PML4_INDEX 0xFFFFFFFF80001000 \<noteq> 256"
    by (simp_all add: IS_PAGE_ALIGNED_def PAGE_SIZE_def PML4_INDEX_def)
  from map_page_ready [OF assms this] obtain s' where
    s': "vmm_map_page s 0xFFFFFFFF80001000 0x201000 VMM_FLAGS_KERNEL_RW = Inr s'" "ready s' n M" by blast
  have k: "kernel_start boot_image = 0xFFFFFFFF80000000" "unat (kernel_end boot_image) = 0xFFFFFFFF80002000" by (simp_all add: boot_image_def)
  have g3: "gap_loop s' boot_image 0x200000 0xFFFFFFFF80002000 = Inr s'" by (subst gap_loop.simps) (simp add: k)
  have g2: "gap_loop s boot_image 0x200000 0xFFFFFFFF80001000 = Inr s'"
    using s'(1) g3 in1 by (subst gap_loop.simps) (simp add: k)
  have "gap_loop s boot_image 0x200000 0xFFFFFFFF80000000 = Inr s'"
    using g2 in1 by (subst gap_loop.simps) (simp add: k)
  then show ?thesis using s'(2) by blast
qed

lemma boot_runs:
  assumes "pmm_in {2..<65} m {}"
  shows "\<exists>s regs. vmm_init (boot_vmm m) 0x300000 boot_image (\<lambda>t. t = 0) (Some boot_map) 0xFFFF800000000000 0xFFFF800000010000 = Inr (s, regs)"
proof -
  have k: "kernel_start boot_image = 0xFFFFFFFF80000000" "kernel_end boot_image = 0xFFFFFFFF80002000"
    by (simp_all add: boot_image_def)
  have ku: "unat (kernel_start boot_image) = 0xFFFFFFFF80000000" by (simp add: k(1))
  obtain s1 pml4 where s1: "alloc_table (boot_vmm m) = Inr (s1, pml4)" "pml4 \<noteq> 0" "ready (s1\<lparr>pml4_phys := pml4\<rparr>) 62 {2..<65}"
    "find_kernel_phys (s1\<lparr>pml4_phys := pml4\<rparr>) 0x300000 0xFFFFFFFF80000000 = Inr 0x200000" by (rule boot_first [OF assms])
  obtain s3 where s3: "vmm_map_range (s1\<lparr>pml4_phys := pml4\<rparr>) 0xFFFFFFFF80000000 0x200000 0x2000 (PTE_PRESENT OR PTE_WRITE OR PTE_GLOBAL) = Inr s3"
    "ready s3 56 {2..<65}" using boot_kernel [of _ 56] s1(3) by fastforce
  obtain s4 where s4: "vmm_map_range_huge s3 0xFFFF800000000000 0 0x200000 VMM_FLAGS_HHDM = Inr s4" "ready s4 54 {2..<65}"
    using boot_hhdm [of s3 54] s3(2) by fastforce
  obtain s5 where s5: "map_sections s4 boot_image 0x200000 = Inr s5" "ready s5 51 {2..<65}"
    using boot_sections [of s4 51] s4(2) by fastforce
  obtain s6 where s6: "gap_loop s5 boot_image 0x200000 0xFFFFFFFF80000000 = Inr s6" "ready s6 48 {2..<65}"
    using boot_gaps [of s5 48] s5(2) by fastforce
  let ?s6 = "s6\<lparr>wx_enforced := True\<rparr>"
  have r6: "ready ?s6 48 {2..<65}" using s6(2) ready_cong [of ?s6 s6] by simp
  have st: "IS_PAGE_ALIGNED KERNEL_STACK_VIRT" "IS_PAGE_ALIGNED IST1_STACK_VIRT" "IS_PAGE_ALIGNED (PAGE_ALIGN_DOWN 0xFFFF800000010000 - PAGE_SIZE)"
    by (simp_all add: KERNEL_STACK_VIRT_def IST1_STACK_VIRT_def IS_PAGE_ALIGNED_def PAGE_SIZE_def PAGE_ALIGN_DOWN_def ALIGN_DOWN_def)
  have small: "i = 0 \<or> i = 1 \<or> i = 2 \<or> i = 3 \<or> i = 4" if "i \<le> 4" for i :: nat using that by arith
  have x4: "\<forall>i \<le> 4. PML4_INDEX (KERNEL_STACK_VIRT + of_nat i * PAGE_SIZE) \<noteq> 256"
    "\<forall>i \<le> 4. PML4_INDEX (IST1_STACK_VIRT + of_nat i * PAGE_SIZE) \<noteq> 256"
    by (auto dest!: small simp: PML4_INDEX_def KERNEL_STACK_VIRT_def IST1_STACK_VIRT_def PAGE_SIZE_def)
  obtain s7 where s7: "stack_loop ?s6 KERNEL_STACK_VIRT KERNEL_STACK_PAGES = Inr s7" "ready s7 32 {2..<65}"
    using stack_loop_ready [of ?s6 32 4 "{2..<65}" KERNEL_STACK_VIRT] r6 st(1) x4(1) by (auto simp: KERNEL_STACK_PAGES_def)
  obtain s8 where s8: "vmm_unmap_page s7 (PAGE_ALIGN_DOWN 0xFFFF800000010000 - PAGE_SIZE) = Inr s8" "ready s8 32 {2..<65}"
    using unmap_ready [OF s7(2) st(3)] by blast
  have x2: "\<forall>i \<le> 2. PML4_INDEX (IST1_STACK_VIRT + of_nat i * PAGE_SIZE) \<noteq> 256" using x4(2) by simp
  obtain s9 where s9: "stack_loop s8 IST1_STACK_VIRT IST1_STACK_PAGES = Inr s9"
    using stack_loop_ready [of s8 24 2 "{2..<65}" IST1_STACK_VIRT] s8(2) st(2) x2 by (auto simp: IST1_STACK_PAGES_def)
  show ?thesis
    unfolding vmm_init_def Let_def k boot_sizes(1) ku
    using s1(1,2,4) s3(1) s4(1) s5(1) s6(1) s7(1) s8(1) s9 by simp
qed

theorem vmm_init_wx_clean_witness:
  "\<exists>m s regs. pmm_init boot_map = Inr m \<and>
     vmm_init (boot_vmm m) 0x300000 boot_image (\<lambda>t. t = 0) (Some boot_map) 0xFFFF800000000000 0xFFFF800000010000 = Inr (s, regs) \<and>
     wx_enforced s \<and> vmm_audit_wx s = 0"
proof -
  obtain m where m: "pmm_init boot_map = Inr m" "pmm_in {2..<65} m {}" using boot_pmm by blast
  then have p: "pmm_in {2..<65} (vpmm (boot_vmm m)) {}" by (simp add: boot_vmm_def)
  have M: "{2..<65} \<subseteq> {..<2 ^ 40 :: nat}" by auto
  have k: "kernel_start boot_image \<le> kernel_end boot_image" by (simp add: boot_image_def word_le_nat_alt)
  obtain s regs where r: "vmm_init (boot_vmm m) 0x300000 boot_image (\<lambda>t. t = 0) (Some boot_map) 0xFFFF800000000000 0xFFFF800000010000 = Inr (s, regs)"
    using boot_runs [OF m(2)] by blast
  show ?thesis using vmm_init_wx_clean [OF p M k r] m(1) r by blast
qed

end
