(* ===== verification/Vma.thy ===== *)
theory Vma
  imports Sched
begin

text \<open>
  The virtual memory areas of \<open>kernel/vma.c\<close>: a list of regions ordered by start address (the
  intrusive list is a list, see \<open>Ilist\<close>), allocated from a static pool that only grows.
\<close>

datatype vma_type = VMA_NONE | VMA_TEXT | VMA_DATA | VMA_BSS | VMA_HEAP | VMA_STACK | VMA_GUARD | VMA_MMIO | VMA_SHARED

record vma =
  v_start :: u64
  v_end :: u64
  v_type :: vma_type
  v_perms :: u32
  v_name :: "u8 list"

record vm_space =
  regions :: "vma list"
  vs_count :: u32
  heap_start :: u64
  heap_end :: u64

definition VMA_PERM_READ :: u32 where "VMA_PERM_READ = 1"
definition VMA_PERM_WRITE :: u32 where "VMA_PERM_WRITE = 2"
definition VMA_PERM_EXEC :: u32 where "VMA_PERM_EXEC = 4"
definition VMA_NAME_MAX :: nat where "VMA_NAME_MAX = 16"
definition VMA_MAX_REGIONS :: nat where "VMA_MAX_REGIONS = 32"

definition vm_space_init :: vm_space where
  "vm_space_init = \<lparr>regions = [], vs_count = 0, heap_start = 0, heap_end = 0\<rparr>"

text \<open>The pool is its fill level: the number of descriptors handed out so far.\<close>

definition alloc_vma :: "nat \<Rightarrow> (nat \<times> vma) option" where
  "alloc_vma used = (if used < VMA_MAX_REGIONS * 4
     then Some (used + 1, \<lparr>v_start = 0, v_end = 0, v_type = VMA_NONE, v_perms = 0, v_name = replicate VMA_NAME_MAX 0\<rparr>) else None)"

fun insert_region :: "vma \<Rightarrow> vma list \<Rightarrow> vma list" where
  "insert_region v [] = [v]"
| "insert_region v (x # xs) = (if v_start v < v_start x then v # x # xs else x # insert_region v xs)"

definition vma_add :: "nat \<Rightarrow> vm_space \<Rightarrow> u64 \<Rightarrow> u64 \<Rightarrow> vma_type \<Rightarrow> u32 \<Rightarrow> u8 list \<Rightarrow> nat \<times> vm_space \<times> int" where
  "vma_add used vs st en ty pm nm =
     (case alloc_vma used of
        None \<Rightarrow> (used, vs, - ENOMEM)
      | Some (used', v) \<Rightarrow>
          let v' = v\<lparr>v_start := st, v_end := en, v_type := ty, v_perms := pm,
                v_name := take (VMA_NAME_MAX - 1) (nm @ replicate (VMA_NAME_MAX - 1) 0) @ [0]\<rparr>
          in (used', vs\<lparr>regions := insert_region v' (regions vs), vs_count := vs_count vs + 1\<rparr>, 0))"

fun remove_region :: "u64 \<Rightarrow> vma list \<Rightarrow> vma list option" where
  "remove_region st [] = None"
| "remove_region st (x # xs) =
     (if v_start x = st then Some xs else (case remove_region st xs of None \<Rightarrow> None | Some ys \<Rightarrow> Some (x # ys)))"

definition vma_remove :: "vm_space \<Rightarrow> u64 \<Rightarrow> vm_space \<times> int" where
  "vma_remove vs st =
     (case remove_region st (regions vs) of
        None \<Rightarrow> (vs, - ENOENT)
      | Some rs \<Rightarrow> (vs\<lparr>regions := rs, vs_count := vs_count vs - 1\<rparr>, 0))"

fun find_region :: "u64 \<Rightarrow> vma list \<Rightarrow> vma option" where
  "find_region a [] = None"
| "find_region a (x # xs) =
     (if v_start x \<le> a \<and> a < v_end x then Some x else if a < v_start x then None else find_region a xs)"

definition vma_find :: "vm_space \<Rightarrow> u64 \<Rightarrow> vma option" where
  "vma_find vs a = find_region a (regions vs)"

definition vma_check_access :: "vm_space \<Rightarrow> u64 \<Rightarrow> u32 \<Rightarrow> bool" where
  "vma_check_access vs a pm =
     (case vma_find vs a of
        None \<Rightarrow> False
      | Some v \<Rightarrow> if v_type v = VMA_GUARD then False else v_perms v AND pm = pm)"

definition vma_init_kernel :: "nat \<Rightarrow> u64 \<Rightarrow> u64 \<Rightarrow> u8 list \<Rightarrow> nat \<times> vm_space" where
  "vma_init_kernel used k_start k_end nm =
     (case vma_add used vm_space_init k_start k_end VMA_TEXT (VMA_PERM_READ OR VMA_PERM_EXEC) nm of (used', vs, r) \<Rightarrow> (used', vs))"

subsection \<open>Invariant\<close>

text \<open>Regions are not empty, ordered and do not overlap, and the counter is their number.\<close>

definition vma_inv :: "vm_space \<Rightarrow> bool" where
  "vma_inv vs \<longleftrightarrow> sorted_wrt (\<lambda>x y. v_end x \<le> v_start y) (regions vs) \<and> (\<forall>v \<in> set (regions vs). v_start v < v_end v) \<and>
     vs_count vs = of_nat (length (regions vs))"

definition overlaps :: "vma \<Rightarrow> u64 \<Rightarrow> u64 \<Rightarrow> bool" where
  "overlaps x st en \<longleftrightarrow> v_start x < en \<and> st < v_end x"

lemma insert_region_set: "set (insert_region v xs) = insert v (set xs)"
  by (induction xs) auto

lemma insert_region_length: "length (insert_region v xs) = length xs + 1"
  by (induction xs) auto

lemma insert_region_sorted:
  assumes "sorted_wrt (\<lambda>x y. v_end x \<le> v_start y) xs" "\<forall>x \<in> set xs. v_start x < v_end x" "v_start v < v_end v"
    "\<forall>x \<in> set xs. \<not> overlaps x (v_start v) (v_end v)"
  shows "sorted_wrt (\<lambda>x y. v_end x \<le> v_start y) (insert_region v xs)"
  using assms
proof (induction xs)
  case (Cons x xs)
  show ?case
  proof (cases "v_start v < v_start x")
    case True
    then have "v_end v \<le> v_start x" using Cons.prems by (auto simp: overlaps_def)
    moreover have "v_end v \<le> v_start y" if "y \<in> set xs" for y
    proof -
      have "v_start x < v_end x" "v_end x \<le> v_start y" using Cons.prems that by auto
      then show ?thesis using calculation by order
    qed
    ultimately show ?thesis using True Cons.prems by auto
  next
    case False
    then have "v_end x \<le> v_start v" using Cons.prems by (auto simp: overlaps_def)
    then show ?thesis using False Cons by (auto simp: insert_region_set)
  qed
qed simp

lemma find_region_iff:
  assumes "sorted_wrt (\<lambda>x y. v_end x \<le> v_start y) xs" "\<forall>x \<in> set xs. v_start x < v_end x"
  shows "find_region a xs = Some v \<longleftrightarrow> v \<in> set xs \<and> v_start v \<le> a \<and> a < v_end v"
  using assms
proof (induction xs)
  case (Cons x xs)
  have later: "v_start x < v_start y" "v_end x \<le> v_start y" if "y \<in> set xs" for y
  proof -
    show le: "v_end x \<le> v_start y" using Cons.prems that by auto
    then show "v_start x < v_start y" using Cons.prems by (auto intro: less_le_trans)
  qed
  show ?case
  proof (cases "v_start x \<le> a \<and> a < v_end x")
    case True
    have "\<not> v_start v \<le> a" if "v \<in> set xs"
      using less_le_trans [OF conjunct2 [OF True] later(2) [OF that]] by simp
    then show ?thesis using True by auto
  next
    case False
    show ?thesis
    proof (cases "a < v_start x")
      case True
      have "\<not> v_start v \<le> a" if "v \<in> set xs" using later [OF that] True by order
      then show ?thesis using True False by auto
    next
      case F2: False
      then show ?thesis using False Cons by auto
    qed
  qed
qed simp

lemma remove_region_spec:
  "(case remove_region st xs of None \<Rightarrow> \<forall>x \<in> set xs. v_start x \<noteq> st
    | Some ys \<Rightarrow> \<exists>l x r. xs = l @ x # r \<and> ys = l @ r \<and> v_start x = st \<and> (\<forall>y \<in> set l. v_start y \<noteq> st))"
proof (induction xs)
  case (Cons x xs)
  show ?case
  proof (cases "v_start x = st")
    case True
    then show ?thesis by (auto intro!: exI [of _ "[]"])
  next
    case False
    show ?thesis
    proof (cases "remove_region st xs")
      case None
      then show ?thesis using Cons False by simp
    next
      case (Some ys)
      then obtain l y r where "xs = l @ y # r" "ys = l @ r" "v_start y = st" "\<forall>z \<in> set l. v_start z \<noteq> st"
        using Cons by auto
      then show ?thesis using Some False by (auto intro!: exI [of _ "x # l"])
    qed
  qed
qed simp

lemma remove_keeps_inv:
  assumes "vma_inv vs"
  shows "vma_inv (fst (vma_remove vs st))"
proof (cases "remove_region st (regions vs)")
  case None
  then show ?thesis using assms by (simp add: vma_remove_def)
next
  case (Some ys)
  then obtain l x r where s: "regions vs = l @ x # r" "ys = l @ r" using remove_region_spec [of "regions vs" st] by auto
  have "vs_count vs - 1 = of_nat (length ys)" using assms s by (simp add: vma_inv_def)
  then show ?thesis using assms s Some by (auto simp: vma_inv_def vma_remove_def sorted_wrt_append)
qed

subsection \<open>Properties\<close>

text \<open>Looking up an address. In a well-formed space \<open>vma_find\<close>, which stops at the first
  region beyond the address, finds a region exactly when one contains the address, and an access
  is allowed exactly when a region that contains the address is not a guard and grants all the
  requested permissions.\<close>

theorem vma_lookup_correct:
  assumes "vma_inv vs"
  shows "(vma_find vs a = Some v \<longleftrightarrow> v \<in> set (regions vs) \<and> v_start v \<le> a \<and> a < v_end v) \<and>
    (vma_check_access vs a pm \<longleftrightarrow> (\<exists>v \<in> set (regions vs). v_start v \<le> a \<and> a < v_end v \<and> v_type v \<noteq> VMA_GUARD \<and> v_perms v AND pm = pm))"
proof -
  have f: "vma_find vs a = Some v \<longleftrightarrow> v \<in> set (regions vs) \<and> v_start v \<le> a \<and> a < v_end v" for v
    using assms find_region_iff [of "regions vs" a v] by (simp add: vma_inv_def vma_find_def)
  show ?thesis
  proof (cases "vma_find vs a")
    case None
    then have "\<not> (v \<in> set (regions vs) \<and> v_start v \<le> a \<and> a < v_end v)" for v using f [of v] by simp
    then show ?thesis using None f [of v] by (auto simp: vma_check_access_def)
  next
    case (Some u)
    then have "v = u \<longleftrightarrow> v \<in> set (regions vs) \<and> v_start v \<le> a \<and> a < v_end v" for v using f [of v] by auto
    then have "(\<exists>v \<in> set (regions vs). v_start v \<le> a \<and> a < v_end v \<and> v_type v \<noteq> VMA_GUARD \<and> v_perms v AND pm = pm) \<longleftrightarrow>
        v_type u \<noteq> VMA_GUARD \<and> v_perms u AND pm = pm" by metis
    then show ?thesis using Some f [of v] by (simp add: vma_check_access_def)
  qed
qed

definition vma_demo :: vm_space where
  "vma_demo = fst (snd (vma_add 1 (snd (vma_init_kernel 0 0x1000 0x3000 [107])) 0x3000 0x4000 VMA_GUARD 7 [103]))"

theorem vma_lookup_correct_witness:
  "vma_check_access vma_demo 0x2FFF 5 \<and> \<not> vma_check_access vma_demo 0x3000 1 \<and> vma_find vma_demo 0x4000 = None"
proof -
  have i: "vma_inv vma_demo"
    by (simp add: vma_inv_def vma_demo_def vma_init_kernel_def vma_add_def alloc_vma_def VMA_MAX_REGIONS_def vm_space_init_def)
  have r: "map (\<lambda>v. (v_start v, v_end v, v_type v, v_perms v)) (regions vma_demo) =
      [(0x1000, 0x3000, VMA_TEXT, 5), (0x3000, 0x4000, VMA_GUARD, 7)]"
    by (simp add: vma_demo_def vma_init_kernel_def vma_add_def alloc_vma_def VMA_MAX_REGIONS_def vm_space_init_def
        VMA_PERM_READ_def VMA_PERM_EXEC_def)
  then obtain x y where xy: "regions vma_demo = [x, y]" "v_start x = 0x1000" "v_end x = 0x3000" "v_type x = VMA_TEXT" "v_perms x = 5"
    "v_start y = 0x3000" "v_end y = 0x4000" "v_type y = VMA_GUARD" by (auto simp: map_eq_Cons_conv)
  have "vma_find vma_demo 0x4000 \<noteq> Some v" for v using vma_lookup_correct [OF i, of "0x4000" v] xy by auto
  then show ?thesis using vma_lookup_correct [OF i, of "0x2FFF" x 5] vma_lookup_correct [OF i, of "0x3000" x 1] xy by auto
qed

text \<open>Adding and removing regions. Adding a region that overlaps no other keeps the space well
  formed, and after it the space has exactly one region more; removing a region by its start
  address takes exactly that region out and fails with \<open>-ENOENT\<close> when there is none. The
  descriptors are never given back: after 128 additions every further one fails with
  \<open>-ENOMEM\<close> and changes nothing, however many regions were removed in between.\<close>

theorem vma_add_remove_correct:
  assumes "vma_inv vs" "st < en" "\<forall>x \<in> set (regions vs). \<not> overlaps x st en"
  shows "(\<exists>v. v_start v = st \<and> v_end v = en \<and> v_type v = ty \<and> v_perms v = pm \<and>
       (used < 128 \<longrightarrow> vma_inv (fst (snd (vma_add used vs st en ty pm nm))) \<and>
       set (regions (fst (snd (vma_add used vs st en ty pm nm)))) = insert v (set (regions vs)) \<and> v \<notin> set (regions vs) \<and>
       fst (vma_add used vs st en ty pm nm) = used + 1 \<and> snd (snd (vma_add used vs st en ty pm nm)) = 0)) \<and>
    (128 \<le> used \<longrightarrow> vma_add used vs st en ty pm nm = (used, vs, - ENOMEM)) \<and>
    vma_inv (fst (vma_remove vs t)) \<and>
    (snd (vma_remove vs t) = 0 \<longleftrightarrow> (\<exists>x \<in> set (regions vs). v_start x = t)) \<and>
    set (regions (fst (vma_remove vs t))) = {x \<in> set (regions vs). v_start x \<noteq> t}"
proof -
  let ?v = "\<lparr>v_start = st, v_end = en, v_type = ty, v_perms = pm, v_name = take 15 (nm @ replicate 15 0) @ [0]\<rparr>"
  have add: "vma_add used vs st en ty pm nm = (used + 1, vs\<lparr>regions := insert_region ?v (regions vs), vs_count := vs_count vs + 1\<rparr>, 0)"
    if "used < 128" using that by (simp add: vma_add_def alloc_vma_def VMA_MAX_REGIONS_def VMA_NAME_MAX_def)
  have "vma_inv (vs\<lparr>regions := insert_region ?v (regions vs), vs_count := vs_count vs + 1\<rparr>)"
    using assms insert_region_sorted [of "regions vs" ?v] by (auto simp: vma_inv_def insert_region_set insert_region_length)
  moreover have "?v \<notin> set (regions vs)" using assms(2,3) by (auto simp: overlaps_def)
  ultimately have A: "v_start ?v = st \<and> v_end ?v = en \<and> v_type ?v = ty \<and> v_perms ?v = pm \<and>
       (used < 128 \<longrightarrow> vma_inv (fst (snd (vma_add used vs st en ty pm nm))) \<and>
       set (regions (fst (snd (vma_add used vs st en ty pm nm)))) = insert ?v (set (regions vs)) \<and> ?v \<notin> set (regions vs) \<and>
       fst (vma_add used vs st en ty pm nm) = used + 1 \<and> snd (snd (vma_add used vs st en ty pm nm)) = 0)"
    using add by (simp add: insert_region_set)
  have B: "128 \<le> used \<longrightarrow> vma_add used vs st en ty pm nm = (used, vs, - ENOMEM)"
    by (simp add: vma_add_def alloc_vma_def VMA_MAX_REGIONS_def)
  have C: "(snd (vma_remove vs t) = 0 \<longleftrightarrow> (\<exists>x \<in> set (regions vs). v_start x = t)) \<and>
    set (regions (fst (vma_remove vs t))) = {x \<in> set (regions vs). v_start x \<noteq> t}"
  proof (cases "remove_region t (regions vs)")
    case None
    then show ?thesis using remove_region_spec [of "regions vs" t] by (auto simp: vma_remove_def ENOENT_def)
  next
    case (Some ys)
    then obtain l x r where s: "regions vs = l @ x # r" "ys = l @ r" "v_start x = t" using remove_region_spec [of "regions vs" t] by auto
    have ne: "v_start y \<noteq> t" if "y \<in> set l \<union> set r" for y
    proof -
      have "v_start x < v_end x" "v_start y < v_end y" "v_end x \<le> v_start y \<or> v_end y \<le> v_start x"
        using assms(1) s that by (auto simp: vma_inv_def sorted_wrt_append)
      then show ?thesis using s(3) by auto
    qed
    then show ?thesis using Some s by (auto simp: vma_remove_def)
  qed
  show ?thesis using A B C remove_keeps_inv [OF assms(1), of t] by blast
qed

theorem vma_add_remove_correct_witness:
  "vma_inv (fst (snd (vma_add 0 vm_space_init 0x1000 0x2000 VMA_DATA 3 [100]))) \<and> snd (vma_remove vm_space_init 0x1000) \<noteq> 0"
proof -
  have i: "vma_inv vm_space_init" by (simp add: vma_inv_def vm_space_init_def)
  have h: "(0x1000 :: u64) < 0x2000" "\<forall>x \<in> set (regions vm_space_init). \<not> overlaps x 0x1000 0x2000" by (simp_all add: vm_space_init_def)
  show ?thesis using vma_add_remove_correct [OF i h, where used = 0 and ty = VMA_DATA and pm = 3 and nm = "[100]" and t = "0x1000"] by (auto simp: vm_space_init_def)
qed

end
