(* ===== verification/Kmalloc.thy ===== *)
theory Kmalloc
  imports Memory
begin

text \<open>
  The slab allocator of \<open>kernel/kmalloc.c\<close> over the page allocator.

  Memory is seen through three typed views: the header at the start of a slab page
  (\<open>hdr\<close>), the hidden first word of a large block (\<open>large_hdr\<close>), and bytes
  (\<open>kbytes\<close>). The chain that the code threads through the first eight bytes of the free
  slots of a slab is the list \<open>sl_free\<close>, the chain of slab pages of a class is the list
  \<open>c_slabs\<close>; the byte view says nothing of the link bytes of a free slot. All addresses
  are virtual, as in the code. An operation is one step: the locks of the classes, of the large
  blocks and of the quarantine are taken and released inside it.
\<close>

definition SLAB_NUM_CLASSES :: nat where "SLAB_NUM_CLASSES = 8"
definition SLAB_MIN_SIZE :: u32 where "SLAB_MIN_SIZE = 16"
definition POISON_BYTE :: u8 where "POISON_BYTE = 0xDE"
definition QUARANTINE_SIZE :: nat where "QUARANTINE_SIZE = 32"

record slab_header =
  sl_free :: "u64 list"
  sl_obj_size :: u32
  sl_used :: u32
  sl_total :: u32

record slab_class =
  c_obj_size :: u32
  c_slabs :: "u64 list"
  total_allocs :: u64
  total_frees :: u64

record kheap =
  kpmm :: pmm_state
  hhdm :: u64
  hdr :: "u64 \<Rightarrow> slab_header"
  large_hdr :: "u64 \<Rightarrow> u64"
  kbytes :: "u64 \<Rightarrow> u8"
  classes :: "slab_class list"
  large_allocs :: u64
  large_frees :: u64
  q_entries :: "u64 list"
  q_head :: nat
  q_count :: nat
  initialized :: bool

text \<open>\<open>memset\<close> and \<open>memcpy\<close> on the byte view; the regions of a copy never overlap here.\<close>

definition fill_bytes :: "(u64 \<Rightarrow> u8) \<Rightarrow> u64 \<Rightarrow> u8 \<Rightarrow> u64 \<Rightarrow> u64 \<Rightarrow> u8" where
  "fill_bytes m a v n = (\<lambda>x. if x - a < n then v else m x)"

definition copy_bytes :: "(u64 \<Rightarrow> u8) \<Rightarrow> u64 \<Rightarrow> u64 \<Rightarrow> u64 \<Rightarrow> u64 \<Rightarrow> u8" where
  "copy_bytes m d s n = (\<lambda>x. if x - d < n then m (s + (x - d)) else m x)"

subsection \<open>Helpers\<close>

definition size_to_class :: "u64 \<Rightarrow> int" where
  "size_to_class n =
     (if n \<le> 16 then 0 else if n \<le> 32 then 1 else if n \<le> 64 then 2 else if n \<le> 128 then 3
      else if n \<le> 256 then 4 else if n \<le> 512 then 5 else if n \<le> 1024 then 6
      else if n \<le> 2048 then 7 else - 1)"

definition phys_to_virt :: "kheap \<Rightarrow> u64 \<Rightarrow> u64" where
  "phys_to_virt h p = p + hhdm h"

definition virt_to_phys :: "kheap \<Rightarrow> u64 \<Rightarrow> u64" where
  "virt_to_phys h v = v - hhdm h"

definition slab_from_ptr :: "u64 \<Rightarrow> u64" where
  "slab_from_ptr p = p AND NOT (PAGE_SIZE - 1)"

text \<open>\<open>pmm_alloc_pages_zero\<close>: the block is cleared through the direct map.\<close>

definition alloc_zero :: "kheap \<Rightarrow> nat \<Rightarrow> (kheap \<times> u64) res" where
  "alloc_zero h k = bnd (pmm_alloc_pages (kpmm h) k) (\<lambda>(m, a).
     Inr (if a = 0 then h\<lparr>kpmm := m\<rparr>
          else h\<lparr>kpmm := m, kbytes := fill_bytes (kbytes h) (phys_to_virt h a) 0 (pow2 k * PAGE_SIZE)\<rparr>, a))"

definition slab_new :: "kheap \<Rightarrow> nat \<Rightarrow> (kheap \<times> u64) res" where
  "slab_new h c = bnd (alloc_zero h 0) (\<lambda>(h1, phys).
     if phys = 0 then Inr (h1, 0)
     else
       let slab = phys_to_virt h1 phys;
           sz = c_obj_size (classes h1 ! c);
           data_start = slab + 32;
           page_end = slab + PAGE_SIZE;
           total = ucast ((page_end - data_start) div ucast sz) :: u32;
           free = fold (\<lambda>i fr. (data_start + of_nat i * ucast sz) # fr) [0..<unat total] []
       in Inr (h1\<lparr>hdr := (hdr h1)(slab := \<lparr>sl_free = free, sl_obj_size = sz, sl_used = 0, sl_total = total\<rparr>)\<rparr>, slab))"

primrec init_classes :: "nat \<Rightarrow> u32 \<Rightarrow> slab_class list" where
  "init_classes 0 sz = []"
| "init_classes (Suc n) sz =
     \<lparr>c_obj_size = sz, c_slabs = [], total_allocs = 0, total_frees = 0\<rparr> # init_classes n (sz * 2)"

definition kmalloc_init :: "kheap \<Rightarrow> kheap" where
  "kmalloc_init h = h\<lparr>classes := init_classes SLAB_NUM_CLASSES SLAB_MIN_SIZE, initialized := True\<rparr>"

subsection \<open>Allocating\<close>

function large_order :: "u64 \<Rightarrow> nat \<Rightarrow> nat" where
  "large_order needed k = (if pow2 k * PAGE_SIZE < needed \<and> k < PMM_MAX_ORDER then large_order needed (k + 1) else k)"
  by pat_completeness auto
termination by (relation "measure (\<lambda>(n, k). PMM_MAX_ORDER - k)") auto

declare large_order.simps [simp del]

definition kmalloc_large :: "kheap \<Rightarrow> u64 \<Rightarrow> (kheap \<times> u64) res" where
  "kmalloc_large h n =
     (let order = large_order (n + 8) 0 in
      if PMM_MAX_ORDER < order then Inr (h, 0)
      else bnd (alloc_zero h order) (\<lambda>(h1, phys).
        if phys = 0 then Inr (h1, 0)
        else let virt = phys_to_virt h1 phys in
          Inr (h1\<lparr>large_hdr := (large_hdr h1)(virt := of_nat order), large_allocs := large_allocs h1 + 1\<rparr>, virt + 8)))"

definition upd_class :: "kheap \<Rightarrow> nat \<Rightarrow> (slab_class \<Rightarrow> slab_class) \<Rightarrow> kheap" where
  "upd_class h c f = h\<lparr>classes := (classes h)[c := f (classes h ! c)]\<rparr>"

definition upd_hdr :: "kheap \<Rightarrow> u64 \<Rightarrow> (slab_header \<Rightarrow> slab_header) \<Rightarrow> kheap" where
  "upd_hdr h p f = h\<lparr>hdr := (hdr h)(p := f (hdr h p))\<rparr>"

definition find_slab :: "kheap \<Rightarrow> nat \<Rightarrow> u64 option" where
  "find_slab h c = List.find (\<lambda>p. sl_free (hdr h p) \<noteq> []) (c_slabs (classes h ! c))"

definition take_slot :: "kheap \<Rightarrow> nat \<Rightarrow> u64 \<Rightarrow> kheap \<times> u64" where
  "take_slot h c slab =
     (let slot = hd (sl_free (hdr h slab));
          h1 = upd_hdr h slab (\<lambda>s. s\<lparr>sl_free := tl (sl_free s), sl_used := sl_used s + 1\<rparr>)
      in (upd_class h1 c (\<lambda>k. k\<lparr>total_allocs := total_allocs k + 1\<rparr>), slot))"

definition kmalloc_slab :: "kheap \<Rightarrow> nat \<Rightarrow> (kheap \<times> u64) res" where
  "kmalloc_slab h c =
     (case find_slab h c of
        Some slab \<Rightarrow> Inr (take_slot h c slab)
      | None \<Rightarrow> bnd (slab_new h c) (\<lambda>(h1, slab).
          if slab = 0 then Inr (h1, 0)
          else Inr (take_slot (upd_class h1 c (\<lambda>k. k\<lparr>c_slabs := slab # c_slabs k\<rparr>)) c slab)))"

definition kmalloc :: "kheap \<Rightarrow> u64 \<Rightarrow> (kheap \<times> u64) res" where
  "kmalloc h0 n =
     (if n = 0 then Inr (h0, 0)
      else
        let h = if initialized h0 then h0 else kmalloc_init h0;
            cls_idx = size_to_class n
        in if cls_idx < 0 then kmalloc_large h n else kmalloc_slab h (nat cls_idx))"

definition kzmalloc :: "kheap \<Rightarrow> u64 \<Rightarrow> (kheap \<times> u64) res" where
  "kzmalloc h n = bnd (kmalloc h n) (\<lambda>(h1, p).
     Inr (if p \<noteq> 0 then h1\<lparr>kbytes := fill_bytes (kbytes h1) p 0 n\<rparr> else h1, p))"

subsection \<open>Freeing\<close>

definition kfree_large :: "kheap \<Rightarrow> u64 \<Rightarrow> kheap res" where
  "kfree_large h base =
     (let order = unat (ucast (large_hdr h base) :: u32) in
      if PMM_MAX_ORDER < order then Inr h
      else
        let h1 = h\<lparr>kbytes := fill_bytes (kbytes h) base POISON_BYTE (pow2 order * PAGE_SIZE),
              large_hdr := (large_hdr h)(base := 0xDEDEDEDEDEDEDEDE)\<rparr>
        in bnd (pmm_free_pages (kpmm h1) (virt_to_phys h1 base) order)
             (\<lambda>m. Inr (h1\<lparr>kpmm := m, large_frees := large_frees h1 + 1\<rparr>)))"

definition poisoned :: "kheap \<Rightarrow> u64 \<Rightarrow> bool" where
  "poisoned h p \<longleftrightarrow> kbytes h (p + 8) = POISON_BYTE \<and> kbytes h (p + 9) = POISON_BYTE \<and>
     kbytes h (p + 10) = POISON_BYTE \<and> kbytes h (p + 11) = POISON_BYTE"

definition quarantine_put :: "kheap \<Rightarrow> u64 \<Rightarrow> kheap \<times> u64" where
  "quarantine_put h p =
     (let evicted = (if QUARANTINE_SIZE \<le> q_count h then q_entries h ! q_head h else 0) in
      (h\<lparr>q_entries := (q_entries h)[q_head h := p],
         q_head := (q_head h + 1) mod QUARANTINE_SIZE,
         q_count := (if q_count h < QUARANTINE_SIZE then q_count h + 1 else q_count h)\<rparr>, evicted))"

definition poison_header :: slab_header where
  "poison_header = \<lparr>sl_free = [], sl_obj_size = 0xDEDEDEDE, sl_used = 0xDEDEDEDE, sl_total = 0xDEDEDEDE\<rparr>"

text \<open>Returning an evicted slot to its slab, and the slab page to the page allocator when it was the
  last slot in use.\<close>

definition release_slot :: "kheap \<Rightarrow> nat \<Rightarrow> u64 \<Rightarrow> kheap res" where
  "release_slot h c e =
     (let slab = slab_from_ptr e;
          h1 = upd_hdr h slab (\<lambda>s. s\<lparr>sl_free := e # sl_free s, sl_used := sl_used s - 1\<rparr>)
      in if sl_used (hdr h1 slab) = 0 then
           let h2 = upd_class h1 c (\<lambda>k. k\<lparr>c_slabs := remove1 slab (c_slabs k)\<rparr>);
               h3 = h2\<lparr>kbytes := fill_bytes (kbytes h2) slab POISON_BYTE PAGE_SIZE, hdr := (hdr h2)(slab := poison_header)\<rparr>
           in bnd (pmm_free_pages (kpmm h3) (virt_to_phys h3 slab) 0) (\<lambda>m. Inr (h3\<lparr>kpmm := m\<rparr>))
         else Inr h1)"

definition count_free :: "kheap \<Rightarrow> nat \<Rightarrow> kheap" where
  "count_free h c = upd_class h c (\<lambda>k. k\<lparr>total_frees := total_frees k + 1\<rparr>)"

definition evict :: "kheap \<Rightarrow> nat \<Rightarrow> u64 \<Rightarrow> kheap res" where
  "evict h c e =
     (if e = 0 then Inr h
      else
        let old_cls = size_to_class (ucast (sl_obj_size (hdr h (slab_from_ptr e)))) in
        if 0 \<le> old_cls \<and> nat old_cls \<noteq> c then bnd (release_slot h (nat old_cls) e) (\<lambda>h1. Inr (count_free h1 (nat old_cls)))
        else if 0 \<le> old_cls then release_slot h c e
        else Inr h)"

definition kfree :: "kheap \<Rightarrow> u64 \<Rightarrow> kheap res" where
  "kfree h p =
     (if p = 0 then Inr h
      else if (p - 8) AND (PAGE_SIZE - 1) = 0 then kfree_large h (p - 8)
      else
        let slab = slab_from_ptr p;
            sz = sl_obj_size (hdr h slab);
            cls_idx = size_to_class (ucast sz)
        in kassert (0 \<le> cls_idx) (kassert (0 < sl_used (hdr h slab))
             (if 8 < sz \<and> poisoned h p then Inl KAssert
              else
                let h1 = (if 8 < sz then h\<lparr>kbytes := fill_bytes (kbytes h) (p + 8) POISON_BYTE (ucast sz - 8)\<rparr> else h)
                in case quarantine_put h1 p of (h2, evicted) \<Rightarrow>
                     bnd (evict h2 (nat cls_idx) evicted) (\<lambda>h3. Inr (count_free h3 (nat cls_idx))))))"

subsection \<open>Sizes, resizing and statistics\<close>

definition kmalloc_usable_size :: "kheap \<Rightarrow> u64 \<Rightarrow> u64" where
  "kmalloc_usable_size h p =
     (if p = 0 then 0
      else if (p - 8) AND (PAGE_SIZE - 1) = 0 then
        let order = unat (ucast (large_hdr h (p - 8)) :: u32) in
        if PMM_MAX_ORDER < order then 0 else pow2 order * PAGE_SIZE - 8
      else ucast (sl_obj_size (hdr h (slab_from_ptr p))))"

definition krealloc :: "kheap \<Rightarrow> u64 \<Rightarrow> u64 \<Rightarrow> (kheap \<times> u64) res" where
  "krealloc h p new_size =
     (if p = 0 then kmalloc h new_size
      else if new_size = 0 then bnd (kfree h p) (\<lambda>h1. Inr (h1, 0))
      else
        let old_size = kmalloc_usable_size h p in
        if new_size \<le> old_size \<and> size_to_class old_size = size_to_class new_size \<and> 0 \<le> size_to_class old_size then Inr (h, p)
        else bnd (kmalloc h new_size) (\<lambda>(h1, q).
          if q = 0 then Inr (h1, 0)
          else
            let h2 = h1\<lparr>kbytes := copy_bytes (kbytes h1) q p (if old_size < new_size then old_size else new_size)\<rparr>
            in bnd (kfree h2 p) (\<lambda>h3. Inr (h3, q))))"

text \<open>The rows that \<open>kmalloc_dump_stats\<close> prints: slot size, slots in use, allocations, frees, slabs.\<close>

definition kmalloc_dump_stats :: "kheap \<Rightarrow> (u32 \<times> u32 \<times> u64 \<times> u64 \<times> nat) list" where
  "kmalloc_dump_stats h =
     map (\<lambda>k. (c_obj_size k, ucast (total_allocs k - total_frees k), total_allocs k, total_frees k, length (c_slabs k)))
       (filter (\<lambda>k. 0 < total_allocs k) (classes h))"

end
