(* ===== verification/Kmalloc_Proofs.thy ===== *)
theory Kmalloc_Proofs
  imports Kmalloc
begin

text \<open>
  The geometry of slab pages and the invariant of the slab allocator. An address is a page and an
  offset; slots of one slab do not overlap, a slot is never taken for a large block, and the page
  of a slot is found by rounding down. The invariant ties the slab pages to blocks owned from the
  page allocator and the counters to the free lists; under it the slots in use are a set, which
  the operations change by one element.
\<close>

subsection \<open>Pages and offsets\<close>

lemma off_bit: "k < 4096 \<Longrightarrow> bit (of_nat k :: u64) n \<Longrightarrow> n < 12"
proof (rule ccontr)
  assume k: "k < 4096" and b: "bit (of_nat k :: u64) n" and n: "\<not> n < 12"
  have "(2 :: nat) ^ 12 \<le> 2 ^ n" using n by (intro power_increasing) auto
  then have "k < 2 ^ n" using k by simp
  then have "\<not> bit k n" by (simp add: bit_iff_odd)
  then show False using b by (simp add: bit_of_nat_iff)
qed

lemma page_off:
  assumes "IS_PAGE_ALIGNED p" "k < 4096"
  shows "slab_from_ptr (p + of_nat k) = p" "(p + of_nat k) AND (PAGE_SIZE - 1) = of_nat k"
proof -
  have o: "p + of_nat k = p OR of_nat k"
    using assms off_bit [OF assms(2)] by (intro disjunctive_add) (auto simp: aligned_iff_bits)
  show "slab_from_ptr (p + of_nat k) = p"
    unfolding slab_from_ptr_def page_mask o
    by (rule bit_word_eqI) (use assms off_bit [OF assms(2)] in
        \<open>auto simp: bit_and_iff bit_or_iff bit_not_iff bit_mask_iff aligned_iff_bits\<close>)
  show "(p + of_nat k) AND (PAGE_SIZE - 1) = of_nat k"
    unfolding page_mask o
    by (rule bit_word_eqI) (use assms off_bit [OF assms(2)] in
        \<open>auto simp: bit_and_iff bit_or_iff bit_mask_iff aligned_iff_bits\<close>)
qed

lemma off_inj:
  assumes "IS_PAGE_ALIGNED p" "IS_PAGE_ALIGNED q" "k < 4096" "l < 4096" "p + of_nat k = q + of_nat l"
  shows "p = q" "k = l"
proof -
  show "p = q" using page_off(1) [OF assms(1,3)] page_off(1) [OF assms(2,4)] assms(5) by simp
  have "of_nat k = (of_nat l :: u64)" using page_off(2) [OF assms(1,3)] page_off(2) [OF assms(2,4)] assms(5) by simp
  then have "unat (of_nat k :: u64) = unat (of_nat l :: u64)" by simp
  then show "k = l" using assms(3,4) by (simp add: unat_of_nat_u64)
qed

definition span :: "u64 \<Rightarrow> u64 \<Rightarrow> u64 set" where
  "span a n = {x. x - a < n}"

lemma span_off:
  assumes "k + n \<le> 4096"
  shows "span (p + of_nat k) (of_nat n) = (\<lambda>l. p + of_nat l) ` {k..<k + n}"
proof (intro equalityI subsetI)
  fix x assume "x \<in> span (p + of_nat k) (of_nat n)"
  then have l: "unat (x - (p + of_nat k)) < n"
    using assms by (simp add: span_def word_less_nat_alt unat_of_nat_u64)
  have "x = p + of_nat (k + unat (x - (p + of_nat k)))" by simp
  then show "x \<in> (\<lambda>l. p + of_nat l) ` {k..<k + n}" by (rule image_eqI) (use l in simp)
next
  fix x assume "x \<in> (\<lambda>l. p + of_nat l) ` {k..<k + n}"
  then obtain l where l: "x = p + of_nat l" "k \<le> l" "l < k + n" by auto
  then have "x - (p + of_nat k) = of_nat (l - k)" by (simp add: of_nat_diff)
  moreover have "(of_nat (l - k) :: u64) < of_nat n"
    using l assms unfolding word_less_nat_alt by (subst (1 2) unat_of_nat_u64) auto
  ultimately show "x \<in> span (p + of_nat k) (of_nat n)" by (simp add: span_def)
qed

lemma fill_outside: "x \<notin> span a n \<Longrightarrow> fill_bytes m a v n x = m x"
  by (simp add: fill_bytes_def span_def)

lemma fill_inside: "x \<in> span a n \<Longrightarrow> fill_bytes m a v n x = v"
  by (simp add: fill_bytes_def span_def)

subsection \<open>Size classes and slots\<close>

definition class_size :: "nat \<Rightarrow> nat" where "class_size i = 16 * 2 ^ i"
definition nslots :: "nat \<Rightarrow> nat" where "nslots i = 4064 div class_size i"
definition slot :: "u64 \<Rightarrow> nat \<Rightarrow> nat \<Rightarrow> u64" where "slot p i j = p + of_nat (32 + j * class_size i)"
definition slots :: "u64 \<Rightarrow> nat \<Rightarrow> u64 set" where "slots p i = slot p i ` {..<nslots i}"

lemma class_cases: "i < 8 \<Longrightarrow> i = 0 \<or> i = 1 \<or> i = 2 \<or> i = 3 \<or> i = 4 \<or> i = 5 \<or> i = 6 \<or> i = (7 :: nat)"
  by arith

lemma class_size_facts:
  assumes "i < 8"
  shows "16 \<le> class_size i" "class_size i \<le> 2048" "16 dvd class_size i" "0 < nslots i" "nslots i < 4096"
    "size_to_class (of_nat (class_size i)) = int i"
    "ucast (of_nat (class_size i) :: u32) = (of_nat (class_size i) :: u64)"
  using class_cases [OF assms]
  by (elim disjE; simp add: class_size_def nslots_def size_to_class_def word_le_nat_alt)+

lemma size_to_class_spec:
  "size_to_class n = - 1 \<and> 2048 < n \<or> (\<exists>i < 8. size_to_class n = int i \<and> n \<le> of_nat (class_size i) \<and> n \<le> 2048)"
proof -
  have e: "class_size 0 = 16" "class_size (Suc 0) = 32" "class_size 2 = 64" "class_size 3 = 128" "class_size 4 = 256"
    "class_size 5 = 512" "class_size 6 = 1024" "class_size 7 = 2048" by (simp_all add: class_size_def)
  consider "n \<le> 16" | "\<not> n \<le> 16" "n \<le> 32" | "\<not> n \<le> 32" "n \<le> 64" | "\<not> n \<le> 64" "n \<le> 128" | "\<not> n \<le> 128" "n \<le> 256"
    | "\<not> n \<le> 256" "n \<le> 512" | "\<not> n \<le> 512" "n \<le> 1024" | "\<not> n \<le> 1024" "n \<le> 2048" | "\<not> n \<le> 2048" by blast
  then show ?thesis
  proof cases
    case 1 then show ?thesis by (intro disjI2 exI [of _ 0]) (simp add: e size_to_class_def word_le_nat_alt)
  next
    case 2 then show ?thesis by (intro disjI2 exI [of _ 1]) (simp add: e size_to_class_def word_le_nat_alt)
  next
    case 3 then show ?thesis by (intro disjI2 exI [of _ 2]) (simp add: e size_to_class_def word_le_nat_alt)
  next
    case 4 then show ?thesis by (intro disjI2 exI [of _ 3]) (simp add: e size_to_class_def word_le_nat_alt)
  next
    case 5 then show ?thesis by (intro disjI2 exI [of _ 4]) (simp add: e size_to_class_def word_le_nat_alt)
  next
    case 6 then show ?thesis by (intro disjI2 exI [of _ 5]) (simp add: e size_to_class_def word_le_nat_alt)
  next
    case 7 then show ?thesis by (intro disjI2 exI [of _ 6]) (simp add: e size_to_class_def word_le_nat_alt)
  next
    case 8 then show ?thesis by (intro disjI2 exI [of _ 7]) (simp add: e size_to_class_def word_le_nat_alt)
  next
    case 9 then show ?thesis by (simp add: size_to_class_def word_le_nat_alt word_less_nat_alt)
  qed
qed

lemma slot_room:
  assumes "j < nslots i"
  shows "32 + j * class_size i + class_size i \<le> 4096"
proof -
  have "(j + 1) * class_size i \<le> nslots i * class_size i" using assms by (intro mult_le_mono1) simp
  also have "\<dots> \<le> 4064" by (simp add: nslots_def)
  finally show ?thesis by simp
qed

lemma slot_facts:
  assumes "IS_PAGE_ALIGNED p" "i < 8" "a \<in> slots p i"
  shows "slab_from_ptr a = p" "(a - 8) AND (PAGE_SIZE - 1) \<noteq> 0" "a \<noteq> 0"
proof -
  obtain j where j: "j < nslots i" "a = p + of_nat (32 + j * class_size i)" using assms(3) by (auto simp: slots_def slot_def)
  have c: "16 \<le> class_size i" using class_size_facts [OF assms(2)] by simp
  have r: "32 + j * class_size i < 4096" using slot_room [OF j(1)] c by simp
  show "slab_from_ptr a = p" unfolding j(2) by (rule page_off(1) [OF assms(1) r])
  have "a - 8 = p + of_nat (24 + j * class_size i)" by (simp add: j(2))
  moreover have "24 + j * class_size i < 4096" using r by simp
  ultimately have "(a - 8) AND (PAGE_SIZE - 1) = of_nat (24 + j * class_size i)" using page_off(2) [OF assms(1)] by metis
  moreover have "unat (of_nat (24 + j * class_size i) :: u64) \<noteq> 0" using r by (subst unat_of_nat_u64) auto
  ultimately show "(a - 8) AND (PAGE_SIZE - 1) \<noteq> 0" by (metis unat_0)
  have "unat (of_nat (32 + j * class_size i) :: u64) \<noteq> 0" using r by (subst unat_of_nat_u64) auto
  moreover have "a AND (PAGE_SIZE - 1) = of_nat (32 + j * class_size i)" unfolding j(2) by (rule page_off(2) [OF assms(1) r])
  ultimately show "a \<noteq> 0" by (metis unat_0 and.left_neutral and_zero_eq zero_and_eq)
qed

lemma slot_span:
  assumes "j < nslots i"
  shows "span (slot p i j) (of_nat (class_size i)) =
    (\<lambda>l. p + of_nat l) ` {32 + j * class_size i..<32 + j * class_size i + class_size i}"
  unfolding slot_def by (rule span_off) (use slot_room [OF assms] in simp)

lemma spans_disjoint:
  assumes "IS_PAGE_ALIGNED p" "IS_PAGE_ALIGNED q" "i < 8" "j < 8" "p = q \<Longrightarrow> i = j" "a \<in> slots p i" "b \<in> slots q j" "a \<noteq> b"
  shows "span a (of_nat (class_size i)) \<inter> span b (of_nat (class_size j)) = {}"
proof (rule ccontr)
  assume "span a (of_nat (class_size i)) \<inter> span b (of_nat (class_size j)) \<noteq> {}"
  then obtain x where x: "x \<in> span a (of_nat (class_size i))" "x \<in> span b (of_nat (class_size j))" by blast
  obtain m n where mn: "m < nslots i" "a = slot p i m" "n < nslots j" "b = slot q j n"
    using assms(6,7) by (auto simp: slots_def)
  obtain k where k: "x = p + of_nat k" "32 + m * class_size i \<le> k" "k < 32 + m * class_size i + class_size i"
    using x(1) mn by (auto simp: slot_span)
  obtain l where l: "x = q + of_nat l" "32 + n * class_size j \<le> l" "l < 32 + n * class_size j + class_size j"
    using x(2) mn by (auto simp: slot_span)
  note kl = k l
  have r: "k < 4096" "l < 4096" using kl slot_room [OF mn(1)] slot_room [OF mn(3)] by linarith+
  have e: "p = q" "k = l" using off_inj [OF assms(1,2) r] kl by auto
  have ij: "i = j" using assms(5) e by blast
  have "m = n"
  proof (rule ccontr)
    assume "m \<noteq> n"
    then consider "m + 1 \<le> n" | "n + 1 \<le> m" by linarith
    then show False
    proof cases
      case 1
      then have "(m + 1) * class_size i \<le> n * class_size i" by (rule mult_le_mono1)
      then show False using kl e ij by simp
    next
      case 2
      then have "(n + 1) * class_size i \<le> m * class_size i" by (rule mult_le_mono1)
      then show False using kl e ij by simp
    qed
  qed
  then show False using mn e ij assms(8) by simp
qed

lemma span_in_page:
  assumes "IS_PAGE_ALIGNED p" "a \<in> slots p i" "x \<in> span a (of_nat (class_size i))"
  shows "slab_from_ptr x = p"
proof -
  obtain m where m: "m < nslots i" "a = slot p i m" using assms(2) by (auto simp: slots_def)
  obtain k where "x = p + of_nat k" "k < 32 + m * class_size i + class_size i" using assms(3) m by (auto simp: slot_span)
  then show ?thesis using page_off(1) [OF assms(1), of k] slot_room [OF m(1)] by simp
qed

lemma card_slots:
  assumes "IS_PAGE_ALIGNED p" "i < 8"
  shows "card (slots p i) = nslots i"
proof -
  have "inj_on (slot p i) {..<nslots i}"
  proof
    fix m n assume mn: "m \<in> {..<nslots i}" "n \<in> {..<nslots i}" "slot p i m = slot p i n"
    have c: "16 \<le> class_size i" using class_size_facts [OF assms(2)] by simp
    have "32 + m * class_size i = 32 + n * class_size i"
      using off_inj(2) [OF assms(1,1), of "32 + m * class_size i" "32 + n * class_size i"] mn c slot_room [of m i] slot_room [of n i]
      by (simp add: slot_def)
    then show "m = n" using c by simp
  qed
  then show ?thesis by (simp add: slots_def card_image)
qed

subsection \<open>The invariant\<close>

abbreviation class_slabs :: "kheap \<Rightarrow> nat \<Rightarrow> u64 list" where
  "class_slabs h i \<equiv> c_slabs (classes h ! i)"

definition slab_ok :: "kheap \<Rightarrow> nat \<Rightarrow> u64 \<Rightarrow> bool" where
  "slab_ok h i p \<longleftrightarrow> IS_PAGE_ALIGNED p \<and> sl_obj_size (hdr h p) = of_nat (class_size i) \<and>
     distinct (sl_free (hdr h p)) \<and> set (sl_free (hdr h p)) \<subseteq> slots p i \<and>
     unat (sl_used (hdr h p)) + length (sl_free (hdr h p)) = nslots i"

text \<open>The quarantine, oldest entry first.\<close>

definition q_list :: "kheap \<Rightarrow> u64 list" where
  "q_list h = (if q_count h < QUARANTINE_SIZE then take (q_count h) (q_entries h)
     else drop (q_head h) (q_entries h) @ take (q_head h) (q_entries h))"

definition q_ok :: "kheap \<Rightarrow> bool" where
  "q_ok h \<longleftrightarrow> length (q_entries h) = QUARANTINE_SIZE \<and> q_head h < QUARANTINE_SIZE \<and> q_count h \<le> QUARANTINE_SIZE \<and>
     (q_count h < QUARANTINE_SIZE \<longrightarrow> q_head h = q_count h)"

definition slab_at :: "kheap \<Rightarrow> nat \<Rightarrow> u64 \<Rightarrow> bool" where
  "slab_at h i p \<longleftrightarrow> i < SLAB_NUM_CLASSES \<and> p \<in> set (class_slabs h i)"

definition slab_blocks :: "kheap \<Rightarrow> block set" where
  "slab_blocks h = {(f, 0) | f. f < 2 ^ 52 \<and> (\<exists>i. slab_at h i (phys_to_virt h (pfn_to_phys f)))}"

text \<open>Slots that are handed out or in quarantine, and those that a client holds.\<close>

definition used_slots :: "kheap \<Rightarrow> u64 set" where
  "used_slots h = {a. \<exists>i p. slab_at h i p \<and> a \<in> slots p i \<and> a \<notin> set (sl_free (hdr h p))}"

definition live :: "kheap \<Rightarrow> u64 set" where
  "live h = used_slots h - set (q_list h)"

text \<open>\<open>L\<close> are the blocks of the page allocator that are owned and are not slabs, \<open>M\<close> the
  frames under management; the direct map puts no managed frame at address 0.\<close>

definition slabs_ok :: "kheap \<Rightarrow> block set \<Rightarrow> nat set \<Rightarrow> bool" where
  "slabs_ok h L M \<longleftrightarrow> initialized h \<and> length (classes h) = SLAB_NUM_CLASSES \<and>
     (\<forall>i < SLAB_NUM_CLASSES. c_obj_size (classes h ! i) = of_nat (class_size i) \<and> distinct (class_slabs h i)) \<and>
     (\<forall>i p. slab_at h i p \<longrightarrow> slab_ok h i p \<and> (\<exists>f < 2 ^ 52. p = phys_to_virt h (pfn_to_phys f))) \<and>
     IS_PAGE_ALIGNED (hhdm h) \<and> (\<forall>f \<in> M. phys_to_virt h (pfn_to_phys f) \<noteq> 0) \<and>
     pmm_in M (kpmm h) (L \<union> slab_blocks h) \<and> L \<inter> slab_blocks h = {}"

definition heap_inv :: "kheap \<Rightarrow> block set \<Rightarrow> nat set \<Rightarrow> bool" where
  "heap_inv h L M \<longleftrightarrow> slabs_ok h L M \<and> q_ok h \<and> distinct (q_list h) \<and> set (q_list h) \<subseteq> used_slots h"

lemma slabs_okD:
  assumes "slabs_ok h L M"
  shows "initialized h" "length (classes h) = 8" "i < 8 \<Longrightarrow> c_obj_size (classes h ! i) = of_nat (class_size i)"
    "i < 8 \<Longrightarrow> distinct (class_slabs h i)" "slab_at h i p \<Longrightarrow> slab_ok h i p"
    "slab_at h i p \<Longrightarrow> \<exists>f < 2 ^ 52. p = phys_to_virt h (pfn_to_phys f)"
    "IS_PAGE_ALIGNED (hhdm h)" "f \<in> M \<Longrightarrow> phys_to_virt h (pfn_to_phys f) \<noteq> 0"
    "pmm_in M (kpmm h) (L \<union> slab_blocks h)" "L \<inter> slab_blocks h = {}"
  using assms unfolding slabs_ok_def SLAB_NUM_CLASSES_def by blast+

lemma slab_atD: "slab_at h i p \<Longrightarrow> i < 8" "slab_at h i p \<Longrightarrow> p \<in> set (class_slabs h i)"
  by (simp_all add: slab_at_def SLAB_NUM_CLASSES_def)

lemma class_size_inj:
  assumes "i < 8" "j < 8" "(of_nat (class_size i) :: u32) = of_nat (class_size j)"
  shows "i = j"
proof -
  have "unat (of_nat (class_size i) :: u32) = class_size i" if "i < 8" for i
    using class_size_facts(2) [OF that] by (simp add: unat_of_nat take_bit_eq_mod)
  then have "class_size i = class_size j" using assms by metis
  then show ?thesis by (simp add: class_size_def)
qed

lemma slab_at_unique:
  assumes "slabs_ok h L M" "slab_at h i p" "slab_at h j p"
  shows "i = j"
  using class_size_inj [OF slab_atD(1) [OF assms(2)] slab_atD(1) [OF assms(3)]]
    slabs_okD(5) [OF assms(1,2)] slabs_okD(5) [OF assms(1,3)] by (simp add: slab_ok_def)

lemma slot_page:
  assumes "slabs_ok h L M" "slab_at h i p" "a \<in> slots p i"
  shows "slab_from_ptr a = p" "(a - 8) AND (PAGE_SIZE - 1) \<noteq> 0" "a \<noteq> 0" "kmalloc_usable_size h a = of_nat (class_size i)"
proof -
  have o: "slab_ok h i p" by (rule slabs_okD(5) [OF assms(1,2)])
  note f = slot_facts [OF _ slab_atD(1) [OF assms(2)] assms(3)]
  show s: "slab_from_ptr a = p" "(a - 8) AND (PAGE_SIZE - 1) \<noteq> 0" "a \<noteq> 0" using f o by (simp_all add: slab_ok_def)
  show "kmalloc_usable_size h a = of_nat (class_size i)"
    using s o class_size_facts(7) [OF slab_atD(1) [OF assms(2)]] by (simp add: kmalloc_usable_size_def slab_ok_def)
qed

lemma used_slots_iff:
  assumes "slabs_ok h L M" "slab_at h i p" "a \<in> slots p i"
  shows "a \<in> used_slots h \<longleftrightarrow> a \<notin> set (sl_free (hdr h p))"
proof
  assume "a \<in> used_slots h"
  then obtain j q where q: "slab_at h j q" "a \<in> slots q j" "a \<notin> set (sl_free (hdr h q))" by (auto simp: used_slots_def)
  have "q = p" using slot_page(1) [OF assms(1) q(1,2)] slot_page(1) [OF assms] by simp
  then show "a \<notin> set (sl_free (hdr h p))" using q(3) by simp
qed (use assms in \<open>auto simp: used_slots_def\<close>)

lemma used_slots_disjoint:
  assumes "slabs_ok h L M" "a \<in> used_slots h" "b \<in> used_slots h" "a \<noteq> b"
  shows "span a (kmalloc_usable_size h a) \<inter> span b (kmalloc_usable_size h b) = {}"
proof -
  obtain i p where a: "slab_at h i p" "a \<in> slots p i" using assms(2) by (auto simp: used_slots_def)
  obtain j q where b: "slab_at h j q" "b \<in> slots q j" using assms(3) by (auto simp: used_slots_def)
  have "IS_PAGE_ALIGNED p" "IS_PAGE_ALIGNED q" using slabs_okD(5) [OF assms(1)] a b by (auto simp: slab_ok_def)
  then show ?thesis
    using spans_disjoint [of p q i j a b] slab_at_unique [OF assms(1) a(1), of j] a b assms(4) slab_atD
    by (simp add: slot_page(4) [OF assms(1) a] slot_page(4) [OF assms(1) b])
qed

lemma slab_free_room:
  assumes "slab_ok h i p" "i < 8" "a \<in> slots p i" "a \<notin> set (sl_free (hdr h p))"
  shows "0 < unat (sl_used (hdr h p))"
proof (rule ccontr)
  assume "\<not> 0 < unat (sl_used (hdr h p))"
  then have "length (sl_free (hdr h p)) = nslots i" using assms(1) by (simp add: slab_ok_def)
  moreover have f: "finite (slots p i)" by (simp add: slots_def)
  moreover have "card (set (sl_free (hdr h p))) = length (sl_free (hdr h p))"
    using assms(1) by (simp add: slab_ok_def distinct_card)
  ultimately have "set (sl_free (hdr h p)) = slots p i"
    using assms(1,2) card_slots [of p i] card_subset_eq [OF f] by (simp add: slab_ok_def)
  then show False using assms(3,4) by simp
qed

end
