(* ===== verification/Kmalloc_Ops.thy ===== *)
theory Kmalloc_Ops
  imports Kmalloc_Proofs
begin

text \<open>
  What each step of the slab allocator does to the slots in use: taking a slot, adding a slab,
  returning a slot, moving an entry through the quarantine ring.
\<close>

subsection \<open>Taking a slot\<close>

definition shape :: "kheap \<Rightarrow> (u32 \<times> u64 list) list" where
  "shape h = map (\<lambda>k. (c_obj_size k, c_slabs k)) (classes h)"

lemma shape_upd_class: "(\<And>k. c_obj_size (f k) = c_obj_size k \<and> c_slabs (f k) = c_slabs k) \<Longrightarrow> shape (upd_class h c f) = shape h"
  by (cases "c < length (classes h)") (auto simp: shape_def upd_class_def map_update list_update_beyond intro: nth_equalityI simp: nth_list_update)

lemma shape_nth:
  assumes "shape h' = shape h"
  shows "length (classes h') = length (classes h)"
    "i < length (classes h) \<Longrightarrow> c_obj_size (classes h' ! i) = c_obj_size (classes h ! i)"
    "i < length (classes h) \<Longrightarrow> class_slabs h' i = class_slabs h i"
proof -
  show l: "length (classes h') = length (classes h)" using arg_cong [OF assms, of length] by (simp add: shape_def)
  have "shape h' ! i = shape h ! i" if "i < length (classes h)" using assms by simp
  then show "i < length (classes h) \<Longrightarrow> c_obj_size (classes h' ! i) = c_obj_size (classes h ! i)"
    "i < length (classes h) \<Longrightarrow> class_slabs h' i = class_slabs h i" using l by (simp_all add: shape_def)
qed

lemma slab_at_shape:
  "shape h' = shape h \<Longrightarrow> length (classes h) = 8 \<Longrightarrow> slab_at h' i p = slab_at h i p"
  using shape_nth(3) [of h' h i] by (cases "i < 8") (simp_all add: slab_at_def SLAB_NUM_CLASSES_def)

lemma slabs_ok_shape:
  assumes ok: "slabs_ok h L M" and s: "shape h' = shape h" "hhdm h' = hhdm h" "kpmm h' = kpmm h" "initialized h' = initialized h"
    and sl: "\<And>i p. slab_at h i p \<Longrightarrow> slab_ok h' i p"
  shows "slabs_ok h' L M"
proof -
  note O = slabs_okD [OF ok]
  have at: "slab_at h' i p = slab_at h i p" for i p by (rule slab_at_shape [OF s(1) O(2)])
  have b: "slab_blocks h' = slab_blocks h" by (simp add: slab_blocks_def at phys_to_virt_def s)
  show ?thesis unfolding slabs_ok_def
    using O shape_nth [OF s(1)] sl at b s by (simp add: SLAB_NUM_CLASSES_def phys_to_virt_def)
qed

lemma slab_ok_cong: "hdr h' p = hdr h p \<Longrightarrow> slab_ok h' i p = slab_ok h i p"
  by (simp add: slab_ok_def)

lemma upd_sel [simp]:
  "kpmm (upd_class h c f) = kpmm h" "hhdm (upd_class h c f) = hhdm h" "hdr (upd_class h c f) = hdr h"
  "large_hdr (upd_class h c f) = large_hdr h" "kbytes (upd_class h c f) = kbytes h" "initialized (upd_class h c f) = initialized h"
  "q_entries (upd_class h c f) = q_entries h" "q_head (upd_class h c f) = q_head h" "q_count (upd_class h c f) = q_count h"
  "kpmm (upd_hdr h p g) = kpmm h" "hhdm (upd_hdr h p g) = hhdm h" "hdr (upd_hdr h p g) = (hdr h)(p := g (hdr h p))"
  "large_hdr (upd_hdr h p g) = large_hdr h" "kbytes (upd_hdr h p g) = kbytes h" "initialized (upd_hdr h p g) = initialized h"
  "q_entries (upd_hdr h p g) = q_entries h" "q_head (upd_hdr h p g) = q_head h" "q_count (upd_hdr h p g) = q_count h"
  "classes (upd_hdr h p g) = classes h" "classes (upd_class h c f) = (classes h)[c := f (classes h ! c)]"
  by (simp_all add: upd_class_def upd_hdr_def)

lemma shape_upd_hdr [simp]: "shape (upd_hdr h p g) = shape h"
  by (simp add: shape_def)

lemma take_slot_spec:
  assumes ok: "slabs_ok h L M" and at: "slab_at h i p" and fr: "sl_free (hdr h p) = a # rest" and t: "take_slot h c p = (h', b)"
  shows "b = a" "slabs_ok h' L M" "a \<notin> used_slots h" "used_slots h' = insert a (used_slots h)" "a \<in> slots p i"
    "shape h' = shape h" "kbytes h' = kbytes h" "hhdm h' = hhdm h" "large_hdr h' = large_hdr h"
    "q_entries h' = q_entries h" "q_head h' = q_head h" "q_count h' = q_count h"
proof -
  have h': "h' = upd_class (upd_hdr h p (\<lambda>s. s\<lparr>sl_free := tl (sl_free s), sl_used := sl_used s + 1\<rparr>)) c
      (\<lambda>k. k\<lparr>total_allocs := total_allocs k + 1\<rparr>)" and b: "b = hd (sl_free (hdr h p))"
    using t by (simp_all add: take_slot_def Let_def)
  show "b = a" using b fr by simp
  show S: "shape h' = shape h" "kbytes h' = kbytes h" "hhdm h' = hhdm h" "large_hdr h' = large_hdr h"
    "q_entries h' = q_entries h" "q_head h' = q_head h" "q_count h' = q_count h"
    by (simp_all add: h' shape_upd_class)
  have hd': "hdr h' p = (hdr h p)\<lparr>sl_free := rest, sl_used := sl_used (hdr h p) + 1\<rparr>" "q \<noteq> p \<Longrightarrow> hdr h' q = hdr h q" for q
    by (simp_all add: h' fr)
  have o: "slab_ok h i p" by (rule slabs_okD(5) [OF ok at])
  have i: "i < 8" by (rule slab_atD(1) [OF at])
  show sl: "a \<in> slots p i" using o fr by (auto simp: slab_ok_def)
  have u: "unat (sl_used (hdr h p)) < 4096" using o class_size_facts(5) [OF i] by (simp add: slab_ok_def)
  then have "unat (sl_used (hdr h p) + 1) = unat (sl_used (hdr h p)) + 1" by (simp add: unat_word_ariths)
  then have okp: "slab_ok h' i p" using o fr by (auto simp: slab_ok_def hd')
  show ok': "slabs_ok h' L M"
  proof (rule slabs_ok_shape [OF ok S(1,3)])
    fix j q assume q: "slab_at h j q"
    show "slab_ok h' j q"
    proof (cases "q = p")
      case True
      then have "j = i" using slab_at_unique [OF ok q] at by blast
      then show ?thesis using okp True by simp
    next
      case False
      then show ?thesis using slabs_okD(5) [OF ok q] slab_ok_cong [of h' q h j] by (simp add: hd')
    qed
  qed (simp_all add: h')
  show na: "a \<notin> used_slots h" using used_slots_iff [OF ok at sl] fr by simp
  have at': "slab_at h' j q = slab_at h j q" for j q by (rule slab_at_shape [OF S(1) slabs_okD(2) [OF ok]])
  have dr: "a \<notin> set rest" using o fr by (simp add: slab_ok_def)
  show "used_slots h' = insert a (used_slots h)"
  proof (intro equalityI subsetI)
    fix x assume "x \<in> used_slots h'"
    then obtain j q where q: "slab_at h j q" "x \<in> slots q j" "x \<notin> set (sl_free (hdr h' q))" by (auto simp: used_slots_def at')
    show "x \<in> insert a (used_slots h)"
      using q used_slots_iff [OF ok q(1,2)] hd'(2) [of q] by (cases "q = p") (auto simp: hd' fr)
  next
    fix x assume x: "x \<in> insert a (used_slots h)"
    show "x \<in> used_slots h'"
    proof (cases "x = a")
      case True
      then show ?thesis using at sl dr hd'(1) unfolding used_slots_def at' by (auto intro!: exI [of _ i] exI [of _ p])
    next
      case False
      then obtain j q where q: "slab_at h j q" "x \<in> slots q j" "x \<notin> set (sl_free (hdr h q))" using x by (auto simp: used_slots_def)
      then have "x \<notin> set (sl_free (hdr h' q))" using hd'(2) [of q] fr by (cases "q = p") (auto simp: hd')
      then show ?thesis using q(1,2) unfolding used_slots_def at' by blast
    qed
  qed
qed

subsection \<open>A new slab\<close>

lemma fold_slots: "fold (\<lambda>i fr. f i # fr) xs acc = rev (map f xs) @ acc"
  by (induction xs arbitrary: acc) simp_all

lemma slab_total:
  assumes "i < 8"
  shows "ucast ((PAGE_SIZE - 32) div (of_nat (class_size i) :: u64)) = (of_nat (nslots i) :: u32)"
  using class_cases [OF assms] by (elim disjE) (simp_all add: class_size_def nslots_def PAGE_SIZE_def)

lemma frame_aligned: "f < 2 ^ 52 \<Longrightarrow> IS_PAGE_ALIGNED (pfn_to_phys f)"
  unfolding IS_PAGE_ALIGNED_def by (rule pfn_to_phys_facts(2))

lemma fill_page:
  assumes "IS_PAGE_ALIGNED p" "slab_from_ptr x \<noteq> p"
  shows "fill_bytes m p v PAGE_SIZE x = m x"
proof (rule fill_outside)
  have "slab_from_ptr x = p" if "x \<in> span (p + of_nat 0) (of_nat 4096)"
    using that page_off(1) [OF assms(1)] span_off [of 0 4096 p] by auto
  then show "x \<notin> span p PAGE_SIZE" using assms(2) by (auto simp: PAGE_SIZE_def)
qed

lemma page_frame:
  "f < 2 ^ 52 \<Longrightarrow> p < 2 ^ 52 \<Longrightarrow> phys_to_virt h (pfn_to_phys f) = phys_to_virt h (pfn_to_phys p) \<Longrightarrow> f = p"
  using frame_inj [of f p] by (simp add: phys_to_virt_def)

text \<open>The heap after a slab page with the header \<open>H\<close> has been linked into class \<open>i\<close>.\<close>

definition add_slab :: "kheap \<Rightarrow> nat \<Rightarrow> pmm_state \<Rightarrow> (u64 \<Rightarrow> u8) \<Rightarrow> u64 \<Rightarrow> slab_header \<Rightarrow> kheap" where
  "add_slab h i t kb slab H =
     upd_class (h\<lparr>kpmm := t, kbytes := kb, hdr := (hdr h)(slab := H)\<rparr>) i (\<lambda>k. k\<lparr>c_slabs := slab # c_slabs k\<rparr>)"

lemma add_slab_sel [simp]:
  "hdr (add_slab h i t kb slab H) = (hdr h)(slab := H)" "hhdm (add_slab h i t kb slab H) = hhdm h" "kpmm (add_slab h i t kb slab H) = t"
  "initialized (add_slab h i t kb slab H) = initialized h" "phys_to_virt (add_slab h i t kb slab H) a = phys_to_virt h a"
  by (simp_all add: add_slab_def phys_to_virt_def)

lemma add_slab_at:
  assumes "slabs_ok h L M" "i < 8"
  shows "slab_at (add_slab h i t kb slab H) j q \<longleftrightarrow> slab_at h j q \<or> j = i \<and> q = slab"
  using slabs_okD(2) [OF assms(1)] assms(2) by (auto simp: add_slab_def slab_at_def SLAB_NUM_CLASSES_def nth_list_update)

lemma add_slab_classes:
  assumes "slabs_ok h L M" "i < 8" "j < 8" "\<not> slab_at h i slab"
  shows "c_obj_size (classes (add_slab h i t kb slab H) ! j) = of_nat (class_size j)" "distinct (class_slabs (add_slab h i t kb slab H) j)"
    "length (classes (add_slab h i t kb slab H)) = 8"
  using slabs_okD(2) [OF assms(1)] slabs_okD(3,4) [OF assms(1,3)] assms(2,4)
  by (auto simp: add_slab_def nth_list_update slab_at_def SLAB_NUM_CLASSES_def)

lemma add_slab_blocks:
  assumes "slabs_ok h L M" "i < 8" "p < 2 ^ 52"
  shows "slab_blocks (add_slab h i t kb (phys_to_virt h (pfn_to_phys p)) H) = insert (p, 0) (slab_blocks h)"
  using page_frame [OF _ assms(3), of _ h] assms(3) unfolding slab_blocks_def add_slab_at [OF assms(1,2)] add_slab_sel by auto

lemma add_slab_ok:
  assumes ok: "slabs_ok h L M" and i: "i < 8" and p: "p < 2 ^ 52" "(p, 0) \<notin> L" and slab: "slab = phys_to_virt h (pfn_to_phys p)"
    and fresh: "\<And>j. \<not> slab_at h j slab" and own: "pmm_in M t (insert (p, 0) (L \<union> slab_blocks h))"
    and okn: "slab_ok (add_slab h i t kb slab H) i slab"
  shows "slabs_ok (add_slab h i t kb slab H) L M" (is "slabs_ok ?h2 L M")
proof -
  note O = slabs_okD [OF ok] and at = add_slab_at [OF ok i] and sb = add_slab_blocks [OF ok i p(1), folded slab]
  have one: "slab_ok ?h2 j q \<and> (\<exists>f < 2 ^ 52. q = phys_to_virt ?h2 (pfn_to_phys f))" if q: "slab_at ?h2 j q" for j q
  proof (cases "q = slab")
    case True
    then have "j = i" using q fresh at by blast
    then show ?thesis using okn True p(1) slab by auto
  next
    case False
    then have q': "slab_at h j q" using q at by blast
    have "slab_ok ?h2 j q" using O(5) [OF q'] slab_ok_cong [of ?h2 q h j] False by simp
    then show ?thesis using O(6) [OF q'] by simp
  qed
  have "pmm_in M (kpmm ?h2) (L \<union> slab_blocks ?h2)" "L \<inter> slab_blocks ?h2 = {}" using own O(10) p(2) unfolding sb by simp_all
  then show ?thesis
    unfolding slabs_ok_def SLAB_NUM_CLASSES_def using O(1,7,8) one add_slab_classes [OF ok i _ fresh] add_slab_classes(3) [OF ok i i fresh] by simp
qed

lemma add_slab_used:
  assumes ok: "slabs_ok h L M" and i: "i < 8" and fresh: "\<And>j. \<not> slab_at h j slab" and all: "set (sl_free H) = slots slab i"
  shows "used_slots (add_slab h i t kb slab H) = used_slots h"
proof -
  note at = add_slab_at [OF ok i]
  have "(\<exists>j q. slab_at (add_slab h i t kb slab H) j q \<and> x \<in> slots q j \<and> x \<notin> set (sl_free (((hdr h)(slab := H)) q))) \<longleftrightarrow>
      (\<exists>j q. slab_at h j q \<and> x \<in> slots q j \<and> x \<notin> set (sl_free (hdr h q)))" for x
    unfolding at using fresh all by (metis fun_upd_apply)
  then show ?thesis unfolding used_slots_def add_slab_sel by simp
qed

lemma slab_new_spec:
  assumes ok: "slabs_ok h L M" and i: "i < 8"
  shows "slab_new h i = Inr (h, 0) \<and> pmm_alloc_pages (kpmm h) 0 = Inr (kpmm h, 0) \<or>
    (\<exists>h1 slab. slab_new h i = Inr (h1, slab) \<and> slab \<noteq> 0 \<and> IS_PAGE_ALIGNED slab \<and> (\<forall>j. \<not> slab_at h j slab) \<and>
       sl_free (hdr h1 slab) \<noteq> [] \<and>
       (let h2 = upd_class h1 i (\<lambda>k. k\<lparr>c_slabs := slab # c_slabs k\<rparr>) in
          slabs_ok h2 L M \<and> slab_at h2 i slab \<and> used_slots h2 = used_slots h) \<and>
       q_entries h1 = q_entries h \<and> q_head h1 = q_head h \<and> q_count h1 = q_count h \<and> hhdm h1 = hhdm h \<and> large_hdr h1 = large_hdr h \<and>
       (\<forall>x. slab_from_ptr x \<noteq> slab \<longrightarrow> kbytes h1 x = kbytes h x) \<and> (\<forall>q. q \<noteq> slab \<longrightarrow> hdr h1 q = hdr h q))"
proof (rule pmm_in.alloc_page_cases [OF slabs_okD(9) [OF ok]])
  assume "pmm_alloc_pages (kpmm h) 0 = Inr (kpmm h, 0)"
  moreover from this have "slab_new h i = Inr (h, 0)" by (simp add: slab_new_def alloc_zero_def)
  ultimately show ?thesis by blast
next
  fix t p
  assume t: "pmm_alloc_pages (kpmm h) 0 = Inr (t, pfn_to_phys p)" and p: "0 < p" "p < 2 ^ 52" "p \<notin> cover (L \<union> slab_blocks h)"
    and own: "pmm_in M t (insert (p, 0) (L \<union> slab_blocks h))"
  let ?slab = "phys_to_virt h (pfn_to_phys p)" and ?kb = "fill_bytes (kbytes h) (phys_to_virt h (pfn_to_phys p)) 0 PAGE_SIZE"
  let ?fr = "rev (map (\<lambda>j. slot ?slab i j) [0..<nslots i])"
  let ?H = "\<lparr>sl_free = ?fr, sl_obj_size = of_nat (class_size i), sl_used = 0, sl_total = of_nat (nslots i)\<rparr> :: slab_header"
  let ?h1 = "h\<lparr>kpmm := t, kbytes := ?kb, hdr := (hdr h)(?slab := ?H)\<rparr>"
  note O = slabs_okD [OF ok]
  have z: "pfn_to_phys p \<noteq> 0" using pfn_to_phys_facts(3) [OF p(2)] p(1) by simp
  have ns: "unat (of_nat (nslots i) :: u32) = nslots i" using class_size_facts(5) [OF i] by (simp add: unat_of_nat take_bit_eq_mod)
  have new: "slab_new h i = Inr (?h1, ?slab)"
    using t z O(3) [OF i]
    by (simp add: slab_new_def alloc_zero_def Let_def phys_to_virt_def slab_total [OF i] fold_slots ns
        class_size_facts(7) [OF i] slot_def pow2_def algebra_simps)
  have al: "IS_PAGE_ALIGNED ?slab" unfolding phys_to_virt_def by (rule aligned_plus [OF frame_aligned [OF p(2)] O(7)])
  have nz: "?slab \<noteq> 0" using O(8) pmm_in_frame(1) [OF own, of p 0] by simp
  have np: "(p, 0) \<notin> L" "(p, 0) \<notin> slab_blocks h" using p(3) cover_head by blast+
  have fresh: "\<not> slab_at h j ?slab" for j using np(2) p(2) unfolding slab_blocks_def by blast
  have s: "set ?fr = slots ?slab i" by (auto simp: slots_def atLeast0LessThan)
  have l: "length ?fr = nslots i" by simp
  have "distinct ?fr" by (rule card_distinct) (simp only: s l card_slots [OF al i])
  then have okn: "slab_ok (add_slab h i t ?kb ?slab ?H) i ?slab" using al s l by (simp add: slab_ok_def)
  have "?fr \<noteq> []" using class_size_facts(4) [OF i] by simp
  then show ?thesis
    unfolding new Let_def
    using nz al fresh add_slab_ok [OF ok i p(2) np(1) refl fresh own okn] add_slab_at [OF ok i, of t ?kb ?slab ?H i ?slab]
      add_slab_used [OF ok i fresh, of ?H t ?kb] s fill_page [OF al, of _ "kbytes h" 0]
    by (intro disjI2 exI [of _ ?h1] exI [of _ ?slab]) (simp add: add_slab_def)
qed

subsection \<open>Returning a slot\<close>

lemma remove_at: "distinct xs \<Longrightarrow> set (remove1 x xs) = set xs - {x}"
  by (rule set_remove1_eq)

lemma usable_kept:
  assumes "slabs_ok h L M" "slabs_ok h' L M" "\<And>j q. slab_at h' j q \<Longrightarrow> slab_at h j q" "b \<in> used_slots h'"
  shows "kmalloc_usable_size h' b = kmalloc_usable_size h b"
proof -
  obtain j q where q: "slab_at h' j q" "b \<in> slots q j" using assms(4) by (auto simp: used_slots_def)
  show ?thesis using slot_page(4) [OF assms(2) q] slot_page(4) [OF assms(1) assms(3) [OF q(1)] q(2)] by simp
qed

text \<open>The heap after the empty slab page \<open>p\<close> of class \<open>i\<close> has been unlinked, poisoned and given back.\<close>

definition drop_slab :: "kheap \<Rightarrow> nat \<Rightarrow> u64 \<Rightarrow> pmm_state \<Rightarrow> kheap" where
  "drop_slab h i p m =
     (upd_class h i (\<lambda>k. k\<lparr>c_slabs := remove1 p (c_slabs k)\<rparr>))
       \<lparr>kbytes := fill_bytes (kbytes h) p POISON_BYTE PAGE_SIZE, hdr := (hdr h)(p := poison_header), kpmm := m\<rparr>"

lemma drop_slab_sel [simp]:
  "hdr (drop_slab h i p m) = (hdr h)(p := poison_header)" "hhdm (drop_slab h i p m) = hhdm h" "kpmm (drop_slab h i p m) = m"
  "initialized (drop_slab h i p m) = initialized h" "phys_to_virt (drop_slab h i p m) a = phys_to_virt h a"
  "kbytes (drop_slab h i p m) = fill_bytes (kbytes h) p POISON_BYTE PAGE_SIZE" "large_hdr (drop_slab h i p m) = large_hdr h"
  "q_entries (drop_slab h i p m) = q_entries h" "q_head (drop_slab h i p m) = q_head h" "q_count (drop_slab h i p m) = q_count h"
  by (simp_all add: drop_slab_def phys_to_virt_def)

lemma drop_slab_at:
  assumes ok: "slabs_ok h L M" and at: "slab_at h i p"
  shows "slab_at (drop_slab h i p m) j q \<longleftrightarrow> slab_at h j q \<and> q \<noteq> p"
proof (cases "j = i")
  case True
  have i: "i < 8" by (rule slab_atD(1) [OF at])
  show ?thesis
    using True slabs_okD(2) [OF ok] i remove_at [OF slabs_okD(4) [OF ok i], of p] by (auto simp: drop_slab_def slab_at_def SLAB_NUM_CLASSES_def)
next
  case False
  then have "slab_at (drop_slab h i p m) j q \<longleftrightarrow> slab_at h j q" by (simp add: slab_at_def drop_slab_def)
  moreover have "\<not> slab_at h j p" using slab_at_unique [OF ok at] False by blast
  ultimately show ?thesis by blast
qed

lemma drop_slab_ok:
  assumes ok: "slabs_ok h L M" and at: "slab_at h i p" and f: "f < 2 ^ 52" "p = phys_to_virt h (pfn_to_phys f)"
    and own: "pmm_in M m (L \<union> slab_blocks h - {(f, 0)})"
  shows "slabs_ok (drop_slab h i p m) L M" (is "slabs_ok ?h L M")
proof -
  note O = slabs_okD [OF ok] and at4 = drop_slab_at [OF ok at]
  have i: "i < 8" by (rule slab_atD(1) [OF at])
  have fb: "(f, 0) \<in> slab_blocks h" using f at unfolding slab_blocks_def by blast
  have sb: "slab_blocks ?h = slab_blocks h - {(f, 0)}"
    using page_frame [OF _ f(1), of _ h] f(2) unfolding slab_blocks_def at4 drop_slab_sel by auto
  have "slab_ok ?h j q \<and> (\<exists>f < 2 ^ 52. q = phys_to_virt ?h (pfn_to_phys f))" if "slab_at ?h j q" for j q
  proof -
    have q: "slab_at h j q" "q \<noteq> p" using that unfolding at4 by blast+
    show ?thesis using O(5,6) [OF q(1)] slab_ok_cong [of ?h q h j] q(2) by simp
  qed
  moreover have "c_obj_size (classes ?h ! j) = of_nat (class_size j) \<and> distinct (class_slabs ?h j)" if "j < 8" for j
    using O(2) O(3,4) [OF that] i by (auto simp: drop_slab_def nth_list_update distinct_remove1)
  moreover have "length (classes ?h) = 8" using O(2) by (simp add: drop_slab_def)
  moreover have "pmm_in M (kpmm ?h) (L \<union> slab_blocks ?h)" "L \<inter> slab_blocks ?h = {}"
  proof -
    have "L - {(f, 0)} = L" using O(10) fb by blast
    then show "pmm_in M (kpmm ?h) (L \<union> slab_blocks ?h)" using own unfolding sb by (simp add: Un_Diff)
    show "L \<inter> slab_blocks ?h = {}" using O(10) unfolding sb by blast
  qed
  ultimately show ?thesis unfolding slabs_ok_def SLAB_NUM_CLASSES_def using O(1,7,8) by simp
qed

text \<open>A slab with no slot in use has every slot on its free list.\<close>

lemma drop_slab_used:
  assumes ok: "slabs_ok h L M" and at: "slab_at h i p" and empty: "sl_used (hdr h p) = 0"
  shows "used_slots (drop_slab h i p m) = used_slots h"
proof -
  have i: "i < 8" by (rule slab_atD(1) [OF at])
  have "x \<in> set (sl_free (hdr h p))" if "slab_at h j p" "x \<in> slots p j" for x j
  proof -
    have "j = i" by (rule slab_at_unique [OF ok that(1) at])
    then show ?thesis using slab_free_room [OF slabs_okD(5) [OF ok at] i, of x] that(2) empty by auto
  qed
  then show ?thesis unfolding used_slots_def drop_slab_at [OF ok at] drop_slab_sel by (intro Collect_cong) (metis fun_upd_apply)
qed

text \<open>Returning a slot to the free list of its slab.\<close>

lemma push_slot_spec:
  assumes ok: "slabs_ok h L M" and at: "slab_at h i p" and e: "e \<in> slots p i" "e \<in> used_slots h"
  defines "h1 \<equiv> upd_hdr h p (\<lambda>s. s\<lparr>sl_free := e # sl_free s, sl_used := sl_used s - 1\<rparr>)"
  shows "slabs_ok h1 L M" "used_slots h1 = used_slots h - {e}" "slab_at h1 j q = slab_at h j q"
proof -
  note O = slabs_okD [OF ok]
  have o: "slab_ok h i p" and i: "i < 8" by (rule O(5) [OF at], rule slab_atD(1) [OF at])
  have nf: "e \<notin> set (sl_free (hdr h p))" using used_slots_iff [OF ok at e(1)] e(2) by simp
  have pos: "0 < unat (sl_used (hdr h p))" by (rule slab_free_room [OF o i e(1) nf])
  then have un: "unat (sl_used (hdr h p) - 1) = unat (sl_used (hdr h p)) - 1"
    by (subst unat_sub) (simp_all add: word_le_nat_alt)
  have ok1p: "slab_ok h1 i p" using o e(1) nf pos by (auto simp: slab_ok_def un h1_def)
  have at1: "slab_at h1 j q = slab_at h j q" for j q by (rule slab_at_shape [OF _ O(2)]) (simp add: h1_def)
  then show "slab_at h1 j q = slab_at h j q" .
  show "slabs_ok h1 L M"
  proof (rule slabs_ok_shape [OF ok])
    fix j q assume q: "slab_at h j q"
    show "slab_ok h1 j q"
      using ok1p slab_at_unique [OF ok q, of i] at O(5) [OF q] slab_ok_cong [of h1 q h j] by (cases "q = p") (auto simp: h1_def)
  qed (simp_all add: h1_def)
  have "x \<in> used_slots h1 \<longleftrightarrow> (\<exists>j q. slab_at h j q \<and> x \<in> slots q j \<and> x \<notin> set (sl_free (hdr h q)) \<and> (q = p \<longrightarrow> x \<noteq> e))" for x
    unfolding used_slots_def at1 by (auto simp: h1_def)
  then show "used_slots h1 = used_slots h - {e}"
    using slot_page(1) [OF ok, of _ _ e] slot_page(1) [OF ok at e(1)] unfolding used_slots_def by (intro set_eqI) auto
qed

lemma release_slot_spec:
  assumes ok: "slabs_ok h L M" and at: "slab_at h i p" and e: "e \<in> slots p i" "e \<in> used_slots h"
  obtains h' where "release_slot h i e = Inr h'" "slabs_ok h' L M" "used_slots h' = used_slots h - {e}"
    "q_entries h' = q_entries h" "q_head h' = q_head h" "q_count h' = q_count h" "hhdm h' = hhdm h" "large_hdr h' = large_hdr h"
    "\<And>j q. slab_at h' j q \<Longrightarrow> slab_at h j q"
    "\<And>b x. b \<in> used_slots h' \<Longrightarrow> x \<in> span b (kmalloc_usable_size h b) \<Longrightarrow> kbytes h' x = kbytes h x"
proof -
  define h1 where "h1 = upd_hdr h p (\<lambda>s. s\<lparr>sl_free := e # sl_free s, sl_used := sl_used s - 1\<rparr>)"
  note P = push_slot_spec [OF ok at e, folded h1_def]
  have k1: "kbytes h1 = kbytes h" "q_entries h1 = q_entries h" "q_head h1 = q_head h" "q_count h1 = q_count h" "hhdm h1 = hhdm h"
    "large_hdr h1 = large_hdr h" by (simp_all add: h1_def)
  have pg: "slab_from_ptr e = p" by (rule slot_page(1) [OF ok at e(1)])
  show thesis
  proof (cases "sl_used (hdr h1 p) = 0")
    case False
    then have "release_slot h i e = Inr h1" by (simp add: release_slot_def pg Let_def h1_def)
    then show thesis by (rule that [OF _ P(1,2)]) (simp_all add: P(3) k1)
  next
    case True
    have at1: "slab_at h1 i p" using at by (simp add: P(3))
    obtain f where f: "f < 2 ^ 52" "p = phys_to_virt h1 (pfn_to_phys f)" using slabs_okD(6) [OF P(1) at1] by blast
    have fb: "(f, 0) \<in> slab_blocks h1" using f(1) at1 unfolding f(2) slab_blocks_def by blast
    obtain m where m: "pmm_free_pages (kpmm h1) (pfn_to_phys f) 0 = Inr m" "pmm_in M m (L \<union> slab_blocks h1 - {(f, 0)})"
      using pmm_in.release_spec [OF slabs_okD(9) [OF P(1)], of f 0] fb by blast
    let ?h = "drop_slab h1 i p m"
    have rel: "release_slot h i e = Inr ?h"
    proof -
      have "virt_to_phys h1 p = pfn_to_phys f" using f(2) by (simp add: virt_to_phys_def phys_to_virt_def)
      then show ?thesis using True m(1) by (simp add: release_slot_def pg Let_def virt_to_phys_def drop_slab_def h1_def)
    qed
    note D = drop_slab_ok [OF P(1) at1 f m(2)] drop_slab_used [OF P(1) at1 True, of m] drop_slab_at [OF P(1) at1]
    show thesis
    proof (rule that [OF rel D(1)])
      fix b x assume b: "b \<in> used_slots ?h" and x: "x \<in> span b (kmalloc_usable_size h b)"
      obtain j q where q: "slab_at h j q" "q \<noteq> p" "b \<in> slots q j" using b unfolding used_slots_def D(3) P(3) by blast
      have "IS_PAGE_ALIGNED q" "IS_PAGE_ALIGNED p" using slabs_okD(5) [OF ok q(1)] slabs_okD(5) [OF ok at] by (simp_all add: slab_ok_def)
      moreover from this have "slab_from_ptr x = q" using span_in_page [OF _ q(3)] x slot_page(4) [OF ok q(1,3)] by simp
      ultimately show "kbytes ?h x = kbytes h x" using fill_page q(2) by (simp add: k1)
    qed (use D(2,3) P(2,3) k1 in auto)
  qed
qed

subsection \<open>The quarantine ring\<close>

lemma quarantine_put_spec:
  assumes "q_ok h" "quarantine_put h a = (h', e)"
  shows "q_ok h'" "q_count h < QUARANTINE_SIZE \<Longrightarrow> e = 0 \<and> q_list h' = q_list h @ [a]"
    "q_count h = QUARANTINE_SIZE \<Longrightarrow> \<exists>r. q_list h = e # r \<and> q_list h' = r @ [a]"
proof -
  let ?xs = "q_entries h" and ?k = "q_head h"
  have l: "length ?xs = 32" "?k < 32" using assms(1) by (simp_all add: q_ok_def QUARANTINE_SIZE_def)
  have h': "h' = h\<lparr>q_entries := ?xs[?k := a], q_head := (?k + 1) mod 32, q_count := (if q_count h < 32 then q_count h + 1 else q_count h)\<rparr>"
    and e: "e = (if 32 \<le> q_count h then ?xs ! ?k else 0)"
    using assms(2) by (auto simp: quarantine_put_def Let_def QUARANTINE_SIZE_def)
  show "q_ok h'" using assms(1) by (auto simp: q_ok_def h' QUARANTINE_SIZE_def mod_if)
  have tk: "take (?k + 1) (?xs[?k := a]) = take ?k ?xs @ [a]" using l by (simp add: take_Suc_conv_app_nth)
  have last: "?k = 31 \<Longrightarrow> ?xs[?k := a] = take ?k ?xs @ [a]" using tk l by simp
  show "e = 0 \<and> q_list h' = q_list h @ [a]" if "q_count h < QUARANTINE_SIZE"
  proof (cases "q_count h = 31")
    case True
    then show ?thesis using assms(1) last e l by (simp add: q_list_def h' QUARANTINE_SIZE_def q_ok_def)
  next
    case False
    then show ?thesis using that assms(1) tk e by (simp add: q_list_def h' QUARANTINE_SIZE_def q_ok_def)
  qed
  assume full: "q_count h = QUARANTINE_SIZE"
  have d: "drop ?k ?xs = ?xs ! ?k # drop (?k + 1) ?xs" using l by (simp add: Cons_nth_drop_Suc)
  have "q_list h = e # (drop (?k + 1) ?xs @ take ?k ?xs)" using full d e by (simp add: q_list_def QUARANTINE_SIZE_def)
  moreover have "q_list h' = (drop (?k + 1) ?xs @ take ?k ?xs) @ [a]"
  proof (cases "?k = 31")
    case True
    then show ?thesis using full last l by (simp add: q_list_def h' QUARANTINE_SIZE_def)
  next
    case False
    then show ?thesis using full tk l by (simp add: q_list_def h' QUARANTINE_SIZE_def)
  qed
  ultimately show "\<exists>r. q_list h = e # r \<and> q_list h' = r @ [a]" by blast
qed

lemma q_list_cong:
  "q_entries h' = q_entries h \<Longrightarrow> q_head h' = q_head h \<Longrightarrow> q_count h' = q_count h \<Longrightarrow> q_list h' = q_list h \<and> q_ok h' = q_ok h"
  by (simp add: q_list_def q_ok_def)

end
