(* ===== verification/Kmalloc_Spec.thy ===== *)
theory Kmalloc_Spec
  imports Kmalloc_Ops
begin

text \<open>
  The properties of the kernel heap: allocations are disjoint and keep their contents, freeing
  delays reuse and catches a second free, and large blocks are page blocks with a hidden header.
\<close>

subsection \<open>Small allocations\<close>

definition small_result :: "kheap \<Rightarrow> block set \<Rightarrow> nat set \<Rightarrow> nat \<Rightarrow> kheap \<Rightarrow> u64 \<Rightarrow> bool" where
  "small_result h L M i h' a \<longleftrightarrow> heap_inv h' L M \<and>
     (a = 0 \<and> h' = h \<and> pmm_alloc_pages (kpmm h) 0 = Inr (kpmm h, 0) \<or>
      a \<noteq> 0 \<and> a \<notin> used_slots h \<and> used_slots h' = insert a (used_slots h) \<and> q_list h' = q_list h \<and>
      kmalloc_usable_size h' a = of_nat (class_size i) \<and>
      (\<forall>b \<in> used_slots h. kmalloc_usable_size h' b = kmalloc_usable_size h b \<and>
        (\<forall>x \<in> span b (kmalloc_usable_size h b). kbytes h' x = kbytes h x)))"

lemma kmalloc_from_slab:
  assumes inv: "heap_inv h L M" and i: "i < 8" and Some: "find_slab h i = Some p"
  shows "\<exists>h' a. kmalloc_slab h i = Inr (h', a) \<and> small_result h L M i h' a"
proof -
  have ok: "slabs_ok h L M" and qh: "q_ok h" "distinct (q_list h)" "set (q_list h) \<subseteq> used_slots h"
    using inv by (auto simp: heap_inv_def)
  note O = slabs_okD [OF ok]
  have p: "p \<in> set (class_slabs h i)" "sl_free (hdr h p) \<noteq> []"
    using Some by (auto simp: find_slab_def find_Some_iff)
  then have at: "slab_at h i p" using i by (simp add: slab_at_def SLAB_NUM_CLASSES_def)
  obtain a rest where f: "sl_free (hdr h p) = a # rest" using p(2) by (cases "sl_free (hdr h p)") auto
  obtain h' b where t: "take_slot h i p = (h', b)" by fastforce
  note T = take_slot_spec [OF ok at f t]
  have at': "slab_at h' j q = slab_at h j q" for j q by (rule slab_at_shape [OF T(6) O(2)])
  have q': "q_list h' = q_list h" "q_ok h' = q_ok h" using q_list_cong [OF T(10-12)] by simp_all
  have u: "kmalloc_usable_size h' b = kmalloc_usable_size h b" if "b \<in> used_slots h" for b
    using usable_kept [OF ok T(2)] at' that T(4) by blast
  have "a \<noteq> 0" by (rule slot_page(3) [OF ok at T(5)])
  moreover have "kmalloc_usable_size h' a = of_nat (class_size i)" by (rule slot_page(4) [OF T(2) _ T(5)]) (simp add: at' at)
  ultimately have "small_result h L M i h' a"
    unfolding small_result_def heap_inv_def using T q' qh u by auto
  then show ?thesis using Some t T(1) by (simp add: kmalloc_slab_def)
qed

lemma kmalloc_from_new:
  assumes inv: "heap_inv h L M" and i: "i < 8" and None: "find_slab h i = None" and fail: "slab_new h i \<noteq> Inr (h, 0)"
  shows "\<exists>h' a. kmalloc_slab h i = Inr (h', a) \<and> small_result h L M i h' a"
proof -
  have ok: "slabs_ok h L M" and qh: "q_ok h" "distinct (q_list h)" "set (q_list h) \<subseteq> used_slots h"
    using inv by (auto simp: heap_inv_def)
  note O = slabs_okD [OF ok]
  obtain h1 slab where n: "slab_new h i = Inr (h1, slab)" "slab \<noteq> 0" "IS_PAGE_ALIGNED slab" "\<forall>j. \<not> slab_at h j slab"
    "sl_free (hdr h1 slab) \<noteq> []"
    "let h2 = upd_class h1 i (\<lambda>k. k\<lparr>c_slabs := slab # c_slabs k\<rparr>) in
      slabs_ok h2 L M \<and> slab_at h2 i slab \<and> used_slots h2 = used_slots h"
    "q_entries h1 = q_entries h" "q_head h1 = q_head h" "q_count h1 = q_count h"
    "\<forall>x. slab_from_ptr x \<noteq> slab \<longrightarrow> kbytes h1 x = kbytes h x" "\<forall>q. q \<noteq> slab \<longrightarrow> hdr h1 q = hdr h q"
    using slab_new_spec [OF ok i] fail by blast
  define h2 where "h2 = upd_class h1 i (\<lambda>k. k\<lparr>c_slabs := slab # c_slabs k\<rparr>)"
  have ok2: "slabs_ok h2 L M" and at2: "slab_at h2 i slab" and us2: "used_slots h2 = used_slots h"
    using n(6) by (simp_all add: h2_def Let_def)
  have "sl_free (hdr h2 slab) \<noteq> []" using n(5) by (simp add: h2_def)
  then obtain a rest where f: "sl_free (hdr h2 slab) = a # rest" by (cases "sl_free (hdr h2 slab)") auto
  obtain h' b where t: "take_slot h2 i slab = (h', b)" by fastforce
  note T = take_slot_spec [OF ok2 at2 f t]
  have at': "slab_at h' j q = slab_at h2 j q" for j q by (rule slab_at_shape [OF T(6) slabs_okD(2) [OF ok2]])
  have q': "q_list h' = q_list h" "q_ok h' = q_ok h" using q_list_cong [of h' h] T(10-12) n(7-9) by (simp_all add: h2_def)
  have u: "kmalloc_usable_size h' b = kmalloc_usable_size h b \<and> (\<forall>x \<in> span b (kmalloc_usable_size h b). kbytes h' x = kbytes h x)"
    if b: "b \<in> used_slots h" for b
  proof -
    obtain j q where q: "slab_at h j q" "b \<in> slots q j" using b by (auto simp: used_slots_def)
    have qs: "q \<noteq> slab" using q(1) n(4) by blast
    have pb: "slab_from_ptr b = q" "(b - 8) AND (PAGE_SIZE - 1) \<noteq> 0" by (rule slot_page(1,2) [OF ok q])+
    have "hdr h' q = hdr h q"
      using t qs n(11) by (auto simp: take_slot_def Let_def h2_def)
    then have us: "kmalloc_usable_size h' b = kmalloc_usable_size h b" using pb by (simp add: kmalloc_usable_size_def)
    have "kbytes h' x = kbytes h x" if "x \<in> span b (kmalloc_usable_size h b)" for x
    proof -
      have "IS_PAGE_ALIGNED q" using O(5) [OF q(1)] by (simp add: slab_ok_def)
      then have "slab_from_ptr x = q" using span_in_page [OF _ q(2)] that slot_page(4) [OF ok q] by simp
      then show ?thesis using n(10) qs T(7) by (simp add: h2_def)
    qed
    then show ?thesis using us by blast
  qed
  have "a \<noteq> 0" by (rule slot_page(3) [OF ok2 at2 T(5)])
  moreover have "kmalloc_usable_size h' a = of_nat (class_size i)" by (rule slot_page(4) [OF T(2) _ T(5)]) (simp add: at' at2)
  ultimately have "small_result h L M i h' a"
    unfolding small_result_def heap_inv_def using T(2-4) q' qh u us2 by auto
  then show ?thesis using None n(1,2) t T(1) by (simp add: kmalloc_slab_def h2_def)
qed

lemma kmalloc_slab_spec:
  assumes inv: "heap_inv h L M" and i: "i < 8"
  shows "\<exists>h' a. kmalloc_slab h i = Inr (h', a) \<and> small_result h L M i h' a"
proof (cases "find_slab h i")
  case (Some p)
  then show ?thesis by (rule kmalloc_from_slab [OF inv i])
next
  case None
  show ?thesis
  proof (cases "slab_new h i = Inr (h, 0)")
    case True
    have "slabs_ok h L M" using inv by (simp add: heap_inv_def)
    then have "pmm_alloc_pages (kpmm h) 0 = Inr (kpmm h, 0)" using slab_new_spec [OF _ i] True by fastforce
    then show ?thesis using None inv True by (simp add: kmalloc_slab_def small_result_def)
  qed (rule kmalloc_from_new [OF inv i None])
qed

lemma kmalloc_small:
  assumes inv: "heap_inv h L M" and n: "0 < n" "n \<le> 2048"
  shows "\<exists>i h' a. i < 8 \<and> n \<le> of_nat (class_size i) \<and> kmalloc h n = Inr (h', a) \<and> small_result h L M i h' a"
proof -
  obtain i where i: "i < 8" "size_to_class n = int i" "n \<le> of_nat (class_size i)"
    using size_to_class_spec [of n] n(2) by (auto simp: not_less [symmetric])
  have "initialized h" using inv by (simp add: heap_inv_def slabs_ok_def)
  then have "kmalloc h n = kmalloc_slab h i" using n(1) i(2) by (simp add: kmalloc_def word_gt_0)
  then show ?thesis using kmalloc_slab_spec [OF inv i(1)] i(1,3) by auto
qed

subsection \<open>Freeing\<close>

lemma count_free_kept:
  assumes "slabs_ok h L M"
  shows "slabs_ok (count_free h c) L M" "used_slots (count_free h c) = used_slots h"
    "q_entries (count_free h c) = q_entries h" "q_head (count_free h c) = q_head h" "q_count (count_free h c) = q_count h"
    "kbytes (count_free h c) = kbytes h" "slab_at (count_free h c) j p = slab_at h j p" "hdr (count_free h c) = hdr h"
proof -
  have s: "shape (count_free h c) = shape h" unfolding count_free_def by (rule shape_upd_class) simp
  have at: "slab_at (count_free h c) j p = slab_at h j p" for j p by (rule slab_at_shape [OF s slabs_okD(2) [OF assms]])
  show "slabs_ok (count_free h c) L M"
    by (rule slabs_ok_shape [OF assms s]) (use slabs_okD(5) [OF assms] slab_ok_cong [of "count_free h c" _ h] in \<open>simp_all add: count_free_def\<close>)
  show "used_slots (count_free h c) = used_slots h" unfolding used_slots_def at by (simp add: count_free_def)
  show "slab_at (count_free h c) j p = slab_at h j p" by (rule at)
qed (simp_all add: count_free_def)

lemma evict_spec:
  assumes ok: "slabs_ok h L M" and e: "e = 0 \<or> e \<in> used_slots h"
  obtains h' where "evict h c e = Inr h'" "slabs_ok h' L M" "used_slots h' = used_slots h - {e}"
    "q_entries h' = q_entries h" "q_head h' = q_head h" "q_count h' = q_count h"
    "\<And>j q. slab_at h' j q \<Longrightarrow> slab_at h j q"
    "\<And>b x. b \<in> used_slots h' \<Longrightarrow> x \<in> span b (kmalloc_usable_size h b) \<Longrightarrow> kbytes h' x = kbytes h x"
proof (cases "e = 0")
  case True
  have "0 \<notin> used_slots h" using slot_page(3) [OF ok] by (auto simp: used_slots_def)
  then show thesis using True ok by (intro that [of h]) (simp_all add: evict_def)
next
  case False
  then have u: "e \<in> used_slots h" using e by simp
  then obtain i p where p: "slab_at h i p" "e \<in> slots p i" by (auto simp: used_slots_def)
  have i: "i < 8" by (rule slab_atD(1) [OF p(1)])
  have c: "size_to_class (ucast (sl_obj_size (hdr h (slab_from_ptr e)))) = int i"
    using slabs_okD(5) [OF ok p(1)] slot_page(1) [OF ok p] class_size_facts(6,7) [OF i] by (simp add: slab_ok_def)
  obtain h' where r: "release_slot h i e = Inr h'" "slabs_ok h' L M" "used_slots h' = used_slots h - {e}"
    "q_entries h' = q_entries h" "q_head h' = q_head h" "q_count h' = q_count h"
    "\<And>j q. slab_at h' j q \<Longrightarrow> slab_at h j q"
    "\<And>b x. b \<in> used_slots h' \<Longrightarrow> x \<in> span b (kmalloc_usable_size h b) \<Longrightarrow> kbytes h' x = kbytes h x"
    using release_slot_spec [OF ok p u] by metis
  show thesis
  proof (cases "i = c")
    case True
    then have "evict h c e = Inr h'" using False c r(1) by (simp add: evict_def)
    then show thesis using r by (intro that)
  next
    case F2: False
    then have "evict h c e = Inr (count_free h' i)" using False c r(1) by (simp add: evict_def)
    then show thesis by (rule that) (use r(3-8) count_free_kept [OF r(2)] in simp_all)
  qed
qed

text \<open>The part of a slot that is poisoned lies in the slot and has at least eight bytes.\<close>

lemma poison_span:
  assumes i: "i < 8" and a: "a \<in> slots p i" and x: "x \<in> span (a + 8) (of_nat (class_size i) - 8)"
  shows "x \<in> span a (of_nat (class_size i))"
proof -
  note C = class_size_facts [OF i]
  obtain j where j: "j < nslots i" "a = slot p i j" using a by (auto simp: slots_def)
  have e8: "a + 8 = p + of_nat (40 + j * class_size i)" by (simp add: j slot_def)
  have n8: "of_nat (class_size i) - 8 = (of_nat (class_size i - 8) :: u64)" using C(1) by (simp add: of_nat_diff)
  have "40 + j * class_size i + (class_size i - 8) \<le> 4096" using slot_room [OF j(1)] C(1) by simp
  from span_off [OF this, of p] x obtain l where l: "x = p + of_nat l" "40 + j * class_size i \<le> l" "l < 40 + j * class_size i + (class_size i - 8)"
    unfolding e8 n8 by auto
  then show ?thesis using C(1) unfolding j(2) slot_span [OF j(1)] by (intro image_eqI [of _ _ l]) auto
qed

lemma poison_head:
  assumes i: "i < 8" and d: "d < 4"
  shows "a + 8 + d \<in> span (a + 8) (of_nat (class_size i) - 8)"
proof -
  have "(8 :: u64) \<le> of_nat (class_size i) - 8" using class_cases [OF i] by (elim disjE) (simp_all add: class_size_def)
  moreover have "d < 8" using d by (rule less_trans) simp
  ultimately have "d < of_nat (class_size i) - 8" by (rule less_le_trans [rotated])
  then show ?thesis by (simp add: span_def)
qed

text \<open>The quarantine after an entry has come in: the oldest one leaves when there were 32.\<close>

lemma quarantine_list:
  assumes ok: "q_ok h" and q: "quarantine_put h a = (h2, e)"
  defines "m \<equiv> length (q_list h) - 31"
  shows "q_list h2 = drop m (q_list h) @ [a]" "e = 0 \<and> take m (q_list h) = [] \<or> take m (q_list h) = [e]"
proof -
  note Q = quarantine_put_spec [OF ok q]
  have len: "length (q_list h) = q_count h" using ok by (auto simp: q_list_def q_ok_def QUARANTINE_SIZE_def)
  have "q_list h2 = drop m (q_list h) @ [a] \<and> (e = 0 \<and> take m (q_list h) = [] \<or> take m (q_list h) = [e])"
  proof (cases "q_count h < QUARANTINE_SIZE")
    case True
    then show ?thesis using Q(2) len by (simp add: QUARANTINE_SIZE_def m_def)
  next
    case False
    then have f: "q_count h = 32" using ok by (simp add: q_ok_def QUARANTINE_SIZE_def)
    then obtain r where "q_list h = e # r" "q_list h2 = r @ [a]" using Q(3) by (auto simp: QUARANTINE_SIZE_def)
    then show ?thesis using f len by (simp add: m_def)
  qed
  then show "q_list h2 = drop m (q_list h) @ [a]" "e = 0 \<and> take m (q_list h) = [] \<or> take m (q_list h) = [e]" by blast+
qed

lemma kfree_steps:
  assumes inv: "heap_inv h L M" and a: "a \<in> live h" and np: "\<not> poisoned h a"
  obtains h' where "kfree h a = Inr h'" "heap_inv h' L M" "used_slots h' = used_slots h - set (take (length (q_list h) - 31) (q_list h))"
    "q_list h' = drop (length (q_list h) - 31) (q_list h) @ [a]" "poisoned h' a"
    "\<And>j q. slab_at h' j q \<Longrightarrow> slab_at h j q"
    "\<And>b x. b \<in> used_slots h' \<Longrightarrow> b \<noteq> a \<Longrightarrow> x \<in> span b (kmalloc_usable_size h b) \<Longrightarrow> kbytes h' x = kbytes h x"
proof -
  have ok: "slabs_ok h L M" and qh: "q_ok h" "distinct (q_list h)" "set (q_list h) \<subseteq> used_slots h"
    using inv by (auto simp: heap_inv_def)
  have au: "a \<in> used_slots h" "a \<notin> set (q_list h)" using a by (simp_all add: live_def)
  then obtain i p where p: "slab_at h i p" "a \<in> slots p i" by (auto simp: used_slots_def)
  have i: "i < 8" by (rule slab_atD(1) [OF p(1)])
  have o: "slab_ok h i p" by (rule slabs_okD(5) [OF ok p(1)])
  note S = slot_page [OF ok p] and C = class_size_facts [OF i]
  have nf: "a \<notin> set (sl_free (hdr h p))" using used_slots_iff [OF ok p] au by simp
  have us: "0 < sl_used (hdr h p)" using slab_free_room [OF o i p(2) nf] by (simp add: word_less_nat_alt)
  have sz: "sl_obj_size (hdr h p) = of_nat (class_size i)" using o by (simp add: slab_ok_def)
  have s8: "8 < sl_obj_size (hdr h p)" using class_cases [OF i] unfolding sz by (elim disjE) (simp_all add: class_size_def)
  let ?h1 = "h\<lparr>kbytes := fill_bytes (kbytes h) (a + 8) POISON_BYTE (of_nat (class_size i) - 8)\<rparr>"
  obtain h2 e where q: "quarantine_put ?h1 a = (h2, e)" by fastforce
  have q1: "q_ok ?h1" "q_list ?h1 = q_list h" "q_count ?h1 = q_count h" using qh by (simp_all add: q_ok_def q_list_def)
  note Q = quarantine_put_spec [OF q1(1) q]
  have h2: "kpmm h2 = kpmm h" "hhdm h2 = hhdm h" "hdr h2 = hdr h" "classes h2 = classes h" "initialized h2 = initialized h" "kbytes h2 = kbytes ?h1"
    using q by (auto simp: quarantine_put_def Let_def)
  have at2: "slab_at h2 j r = slab_at h j r" for j r by (simp add: slab_at_def h2)
  have us2: "used_slots h2 = used_slots h" unfolding used_slots_def at2 by (simp add: h2)
  have ok2: "slabs_ok h2 L M"
    by (rule slabs_ok_shape [OF ok]) (use slabs_okD(5) [OF ok] slab_ok_cong [of h2 _ h] h2 in \<open>simp_all add: shape_def\<close>)
  have sz2: "kmalloc_usable_size h2 b = kmalloc_usable_size h b" if "b \<in> used_slots h" for b
    using usable_kept [OF ok ok2] at2 us2 that by blast
  let ?m = "length (q_list h) - 31"
  note ql = quarantine_list(1) [OF q1(1) q, unfolded q1(2)] and ev = quarantine_list(2) [OF q1(1) q, unfolded q1(2)]
  have "set (take ?m (q_list h)) \<subseteq> used_slots h2" using qh(3) us2 by (auto dest: in_set_takeD)
  then have eu: "e = 0 \<or> e \<in> used_slots h2" using ev by auto
  obtain h3 where E: "evict h2 i e = Inr h3" "slabs_ok h3 L M" "used_slots h3 = used_slots h2 - {e}"
    "q_entries h3 = q_entries h2" "q_head h3 = q_head h2" "q_count h3 = q_count h2"
    "\<And>j q. slab_at h3 j q \<Longrightarrow> slab_at h2 j q"
    "\<And>b x. b \<in> used_slots h3 \<Longrightarrow> x \<in> span b (kmalloc_usable_size h2 b) \<Longrightarrow> kbytes h3 x = kbytes h2 x"
    using evict_spec [OF ok2 eu, of i] by metis
  note F = count_free_kept [OF E(2), of i]
  let ?h' = "count_free h3 i"
  have k: "kfree h a = Inr ?h'"
    using S us s8 np q E(1) C(6,7) sz by (simp add: kfree_def Let_def)
  have q': "q_list ?h' = q_list h2" "q_ok ?h' = q_ok h2" using q_list_cong [of ?h' h2] E(4-6) F(3-5) by simp_all
  have z: "0 \<notin> used_slots h" using slot_page(3) [OF ok] by (auto simp: used_slots_def)
  have us': "used_slots ?h' = used_slots h - set (take ?m (q_list h))"
  proof -
    have "set (take ?m (q_list h)) = {e} \<or> e = 0 \<and> set (take ?m (q_list h)) = {}" using ev by (metis empty_set list.simps(15))
    then show ?thesis using z unfolding F(2) E(3) us2 by (metis Diff_empty Diff_insert0)
  qed
  have dd: "set (take ?m (q_list h)) \<inter> set (drop ?m (q_list h)) = {}" using qh(2) by (rule set_take_disj_set_drop_if_distinct) simp
  have inv': "heap_inv ?h' L M"
    unfolding heap_inv_def q' ql us'
  proof (intro conjI)
    show "distinct (drop ?m (q_list h) @ [a])" using qh(2) au(2) by (auto dest: in_set_dropD)
    show "set (drop ?m (q_list h) @ [a]) \<subseteq> used_slots h - set (take ?m (q_list h))"
      using dd qh(3) au by (auto dest: in_set_dropD in_set_takeD)
  qed (use F(1) Q(1) in simp_all)
  have au': "a \<in> used_slots h3" using us' F(2) au by (auto dest: in_set_takeD)
  have sa: "kmalloc_usable_size h a = of_nat (class_size i)" by (rule S(4))
  note sp = poison_span [OF i p(2)]
  have ps: "kbytes ?h' (a + 8 + d) = POISON_BYTE" if "d < 4" for d
  proof -
    note d = poison_head [OF i that, of a]
    have "kbytes ?h' (a + 8 + d) = kbytes h2 (a + 8 + d)" using E(8) [OF au'] sp [OF d] sz2 [OF au(1)] sa F(6) by simp
    then show ?thesis using fill_inside [OF d] by (simp add: h2)
  qed
  have po: "poisoned ?h' a"
    using ps [of 0] ps [of 1] ps [of 2] ps [of 3] by (simp add: poisoned_def add.assoc)
  show thesis
  proof (rule that [OF k inv' us' _ po])
    show "q_list ?h' = drop ?m (q_list h) @ [a]" using q' ql by simp
    show "slab_at h j r" if "slab_at ?h' j r" for j r using that F(7) E(7) at2 by blast
    fix b x assume b: "b \<in> used_slots ?h'" "b \<noteq> a" and x: "x \<in> span b (kmalloc_usable_size h b)"
    have bu: "b \<in> used_slots h" using b us' by blast
    have "x \<notin> span a (of_nat (class_size i))" using used_slots_disjoint [OF ok bu au(1) b(2)] x sa by auto
    then have "x \<notin> span (a + 8) (of_nat (class_size i) - 8)" using sp [of x] by blast
    then have "kbytes h2 x = kbytes h x" by (simp add: h2(6) fill_outside)
    then show "kbytes ?h' x = kbytes h x" using E(8) [of b x] b F(2,6) x sz2 [OF bu] by simp
  qed
qed

subsection \<open>Large allocations\<close>

lemma large_order_spec:
  assumes "k \<le> 10"
  shows "large_order n k \<le> 10" "large_order n k < 10 \<Longrightarrow> n \<le> pow2 (large_order n k) * PAGE_SIZE" "k \<le> large_order n k"
  using assms
proof (induction n k rule: large_order.induct)
  case (1 n k)
  case 1 then show ?case using "1.IH"(1) by (subst large_order.simps) (auto simp: PMM_MAX_ORDER_def)
next
  case (1 n k)
  case 2 then show ?case using "1.IH"(2) by (subst large_order.simps, subst (asm) large_order.simps) (auto simp: PMM_MAX_ORDER_def split: if_splits)
next
  case (1 n k)
  case 3 then show ?case using "1.IH"(3) by (subst large_order.simps) (auto simp: PMM_MAX_ORDER_def)
qed

lemma unat_ucast_small: "k < 2 ^ 32 \<Longrightarrow> unat (ucast (of_nat k :: u64) :: u32) = k"
  by (simp add: unsigned_ucast_eq unat_of_nat take_bit_eq_mod)

lemma block_bytes: "k \<le> 10 \<Longrightarrow> unat (pow2 k * PAGE_SIZE) = 2 ^ k * 4096"
proof -
  assume k: "k \<le> 10"
  have "(2 :: nat) ^ k \<le> 2 ^ 10" using k by (intro power_increasing) simp_all
  then have "(2 :: nat) ^ k * 4096 < 2 ^ 64" by simp
  moreover have "unat (pow2 k) = 2 ^ k" using k by (intro unat_pow2) simp
  ultimately show ?thesis by (simp add: unat_word_ariths PAGE_SIZE_def)
qed

lemma kmalloc_large_fit:
  assumes "n \<le> 2 ^ 64 - 9"
  shows "n \<le> pow2 (large_order (n + 8) 0) * PAGE_SIZE - 8 \<longleftrightarrow> n \<le> 0x3FFFF8"
proof -
  let ?k = "large_order (n + 8) 0"
  have k: "?k \<le> 10" by (rule large_order_spec(1)) simp
  have n8: "unat (n + 8) = unat n + 8" using assms by (intro unat_add_u64 [of n 8, simplified]) (simp add: word_le_nat_alt)
  have b: "unat (pow2 ?k * PAGE_SIZE) = 2 ^ ?k * 4096" by (rule block_bytes [OF k])
  then have b8: "unat (pow2 ?k * PAGE_SIZE - 8) = 2 ^ ?k * 4096 - 8"
    by (subst unat_sub) (simp_all add: word_le_nat_alt)
  show ?thesis
  proof (cases "?k < 10")
    case True
    have "n + 8 \<le> pow2 ?k * PAGE_SIZE" by (rule large_order_spec(2) [OF _ True]) simp
    then have f: "unat n + 8 \<le> 2 ^ ?k * 4096" by (simp add: word_le_nat_alt n8 b)
    have "(2 :: nat) ^ ?k \<le> 2 ^ 9" using True by (intro power_increasing) simp_all
    then show ?thesis using f by (simp add: word_le_nat_alt b8)
  next
    case False
    then have "?k = 10" using k by simp
    then have "unat (pow2 ?k * PAGE_SIZE - 8) = 4194296" using b8 by simp
    then show ?thesis unfolding word_le_nat_alt by simp
  qed
qed

lemma slabs_ok_large:
  assumes ok: "slabs_ok h L M" and s: "shape h' = shape h" "hhdm h' = hhdm h" "hdr h' = hdr h" "initialized h' = initialized h"
    and m: "pmm_in M (kpmm h') (L' \<union> slab_blocks h)" "L' \<inter> slab_blocks h = {}"
  shows "slabs_ok h' L' M" "used_slots h' = used_slots h"
proof -
  note O = slabs_okD [OF ok]
  have at: "slab_at h' i p = slab_at h i p" for i p by (rule slab_at_shape [OF s(1) O(2)])
  have b: "slab_blocks h' = slab_blocks h" by (simp add: slab_blocks_def at phys_to_virt_def s)
  have so: "slab_ok h' i p = slab_ok h i p" for i p by (simp add: slab_ok_def s)
  show "slabs_ok h' L' M" unfolding slabs_ok_def
    using O shape_nth [OF s(1)] at so b s m by (simp add: SLAB_NUM_CLASSES_def phys_to_virt_def)
  show "used_slots h' = used_slots h" unfolding used_slots_def at s ..
qed

lemma kfree_large_spec:
  assumes inv: "heap_inv h (insert (p, k) L) M" and k: "k \<le> 10" and nl: "(p, k) \<notin> L"
    and hd: "large_hdr h (phys_to_virt h (pfn_to_phys p)) = of_nat k"
  shows "\<exists>h'. kfree h (phys_to_virt h (pfn_to_phys p) + 8) = Inr h' \<and> heap_inv h' L M \<and> live h' = live h"
proof -
  let ?v = "phys_to_virt h (pfn_to_phys p)"
  have ok: "slabs_ok h (insert (p, k) L) M" using inv by (simp add: heap_inv_def)
  note O = slabs_okD [OF ok]
  have p: "p < 2 ^ 52" by (rule pmm_in_frame(2) [OF O(9), of p k]) simp
  have al: "IS_PAGE_ALIGNED ?v" unfolding phys_to_virt_def by (rule aligned_plus [OF frame_aligned [OF p] O(7)])
  have ne: "?v + 8 \<noteq> 0"
  proof
    assume "?v + 8 = 0"
    then show False using page_off(2) [OF al, of 8] by simp
  qed
  have ord: "unat (ucast (large_hdr h ?v) :: u32) = k"
  proof -
    have "k < 2 ^ 32" using k by simp
    then show ?thesis unfolding hd by (rule unat_ucast_small)
  qed
  have nsb: "(p, k) \<notin> slab_blocks h" using O(10) by blast
  have "(p, k) \<in> insert (p, k) L \<union> slab_blocks h" by blast
  from pmm_in.release_spec [OF O(9) this] obtain m where m: "pmm_free_pages (kpmm h) (pfn_to_phys p) k = Inr m"
    "pmm_in M m (insert (p, k) L \<union> slab_blocks h - {(p, k)})" by blast
  have A: "insert (p, k) L \<union> slab_blocks h - {(p, k)} = L \<union> slab_blocks h" using nl nsb by blast
  let ?h' = "h\<lparr>kbytes := fill_bytes (kbytes h) ?v POISON_BYTE (pow2 k * PAGE_SIZE),
      large_hdr := (large_hdr h)(?v := 0xDEDEDEDEDEDEDEDE), kpmm := m, large_frees := large_frees h + 1\<rparr>"
  have "kfree h (?v + 8) = kfree_large h ?v" using ne al by (simp add: kfree_def IS_PAGE_ALIGNED_def)
  also have "\<dots> = Inr ?h'" using k ord m(1)
    by (simp add: kfree_large_def Let_def PMM_MAX_ORDER_def virt_to_phys_def phys_to_virt_def)
  finally have f: "kfree h (?v + 8) = Inr ?h'" .
  have s: "slabs_ok ?h' L M" "used_slots ?h' = used_slots h"
    using slabs_ok_large [OF ok, of ?h' L] m(2) A O(10) by (auto simp: shape_def)
  have "q_list ?h' = q_list h" "q_ok ?h' = q_ok h" using q_list_cong [of ?h' h] by simp_all
  then show ?thesis using f s inv by (auto simp: heap_inv_def live_def)
qed

lemma kmalloc_large_spec:
  assumes inv: "heap_inv h L M" and n: "2048 < n"
  shows "kmalloc h n = Inr (h, 0) \<or> (\<exists>h' p. let k = large_order (n + 8) 0 in
      kmalloc h n = Inr (h', phys_to_virt h (pfn_to_phys p) + 8) \<and> 2 ^ k dvd p \<and> bset (p, k) \<inter> cover (L \<union> slab_blocks h) = {} \<and>
      heap_inv h' (insert (p, k) L) M \<and> live h' = live h \<and> hhdm h' = hhdm h \<and>
      large_hdr h' (phys_to_virt h (pfn_to_phys p)) = of_nat k \<and>
      kmalloc_usable_size h' (phys_to_virt h (pfn_to_phys p) + 8) = pow2 k * PAGE_SIZE - 8)"
proof -
  let ?k = "large_order (n + 8) 0"
  have k: "?k \<le> 10" by (rule large_order_spec(1)) simp
  have ok: "slabs_ok h L M" using inv by (simp add: heap_inv_def)
  note O = slabs_okD [OF ok]
  have "size_to_class n = - 1" using size_to_class_spec [of n] n by (auto simp: not_le [symmetric])
  moreover have "n \<noteq> 0" using n by auto
  ultimately have kl: "kmalloc h n = kmalloc_large h n" using O(1) by (simp add: kmalloc_def)
  have k': "?k \<le> PMM_MAX_ORDER" using k by (simp add: PMM_MAX_ORDER_def)
  from pmm_in.alloc_spec [OF O(9) k'] obtain t a where ta: "pmm_alloc_pages (kpmm h) ?k = Inr (t, a)"
    "a = 0 \<and> t = kpmm h \<or> (\<exists>p. a = pfn_to_phys p \<and> 0 < p \<and> p < 2 ^ 52 \<and> 2 ^ ?k dvd p \<and>
        bset (p, ?k) \<inter> cover (L \<union> slab_blocks h) = {} \<and> pmm_in M t (insert (p, ?k) (L \<union> slab_blocks h)))" by blast
  show ?thesis
  proof (cases "a = 0 \<and> t = kpmm h")
    case True
    then have "kmalloc h n = Inr (h, 0)" using kl ta(1) k' by (simp add: kmalloc_large_def Let_def alloc_zero_def)
    then show ?thesis ..
  next
    case False
    then obtain p where p: "a = pfn_to_phys p" "0 < p" "p < 2 ^ 52" "2 ^ ?k dvd p"
      "bset (p, ?k) \<inter> cover (L \<union> slab_blocks h) = {}" "pmm_in M t (insert (p, ?k) (L \<union> slab_blocks h))" using ta(2) by blast
    let ?v = "phys_to_virt h (pfn_to_phys p)"
    let ?h' = "h\<lparr>kpmm := t, kbytes := fill_bytes (kbytes h) ?v 0 (pow2 ?k * PAGE_SIZE),
        large_hdr := (large_hdr h)(?v := of_nat ?k), large_allocs := large_allocs h + 1\<rparr>"
    have z: "pfn_to_phys p \<noteq> 0" using pfn_to_phys_facts(3) [OF p(3)] p(2) by simp
    have r: "kmalloc h n = Inr (?h', ?v + 8)"
      using kl ta(1) k' z p(1) by (simp add: kmalloc_large_def Let_def alloc_zero_def phys_to_virt_def)
    have nsb: "(p, ?k) \<notin> slab_blocks h" using p(5) cover_head [of p ?k] bset_head by blast
    have s: "slabs_ok ?h' (insert (p, ?k) L) M" "used_slots ?h' = used_slots h"
      using slabs_ok_large [OF ok, of ?h' "insert (p, ?k) L"] p(6) O(10) nsb by (auto simp: shape_def)
    have q: "q_list ?h' = q_list h" "q_ok ?h' = q_ok h" using q_list_cong [of ?h' h] by simp_all
    have al: "IS_PAGE_ALIGNED ?v" unfolding phys_to_virt_def by (rule aligned_plus [OF frame_aligned [OF p(3)] O(7)])
    have ne: "?v + 8 \<noteq> 0"
    proof
      assume "?v + 8 = 0"
      then show False using page_off(2) [OF al, of 8] by simp
    qed
    have "unat (ucast (of_nat ?k :: u64) :: u32) = ?k" using k by (intro unat_ucast_small) simp
    then have us: "kmalloc_usable_size ?h' (?v + 8) = pow2 ?k * PAGE_SIZE - 8"
      using ne al k by (simp add: kmalloc_usable_size_def IS_PAGE_ALIGNED_def PMM_MAX_ORDER_def Let_def)
    have "heap_inv ?h' (insert (p, ?k) L) M" "live ?h' = live h" using s q inv by (auto simp: heap_inv_def live_def)
    then show ?thesis unfolding Let_def r using p(4,5) us by (intro disjI2 exI [of _ ?h'] exI [of _ p]) simp
  qed
qed

subsection \<open>The empty heap\<close>

lemma kmalloc_init_inv:
  assumes m: "pmm_in M (kpmm h) L" and d: "IS_PAGE_ALIGNED (hhdm h)" "\<forall>f \<in> M. phys_to_virt h (pfn_to_phys f) \<noteq> 0"
    and q: "q_ok h" "q_count h = 0"
  shows "heap_inv (kmalloc_init h) L M" "used_slots (kmalloc_init h) = {}"
proof -
  let ?h = "kmalloc_init h"
  have n: "init_classes 8 16 ! i = \<lparr>c_obj_size = of_nat (class_size i), c_slabs = [], total_allocs = 0, total_frees = 0\<rparr>" if "i < 8" for i
    using class_cases [OF that] by (elim disjE) (simp_all add: eval_nat_numeral class_size_def)
  have l: "length (init_classes 8 16) = 8" by (simp add: eval_nat_numeral)
  have at: "\<not> slab_at ?h i p" for i p using n [of i] by (simp add: slab_at_def kmalloc_init_def SLAB_NUM_CLASSES_def SLAB_MIN_SIZE_def)
  have b: "slab_blocks ?h = {}" by (simp add: slab_blocks_def at)
  show u: "used_slots ?h = {}" by (simp add: used_slots_def at)
  have "q_list ?h = []" "q_ok ?h" using q by (simp_all add: q_list_def q_ok_def kmalloc_init_def QUARANTINE_SIZE_def)
  moreover have "slabs_ok ?h L M"
    unfolding slabs_ok_def using m d n l at b
    by (simp add: kmalloc_init_def SLAB_NUM_CLASSES_def SLAB_MIN_SIZE_def phys_to_virt_def)
  ultimately show "heap_inv ?h L M" by (simp add: heap_inv_def)
qed

definition heap_boot :: "pmm_state \<Rightarrow> kheap" where
  "heap_boot m = \<lparr>kpmm = m, hhdm = 0xFFFF800000000000, hdr = (\<lambda>_. poison_header), large_hdr = (\<lambda>_. 0), kbytes = (\<lambda>_. 0),
     classes = [], large_allocs = 0, large_frees = 0, q_entries = replicate 32 0, q_head = 0, q_count = 0, initialized = False\<rparr>"

lemma heap_boot_inv:
  assumes "pmm_in M m L" "M \<subseteq> {..<1000}"
  shows "heap_inv (kmalloc_init (heap_boot m)) L M" "used_slots (kmalloc_init (heap_boot m)) = {}"
proof -
  have z: "phys_to_virt (heap_boot m) (pfn_to_phys f) \<noteq> 0" if "f \<in> M" for f
  proof
    assume a: "phys_to_virt (heap_boot m) (pfn_to_phys f) = 0"
    have f: "f < 1000" using assms(2) that by blast
    have "unat (pfn_to_phys f) = f * 4096"
      using f by (simp add: pfn_to_phys_def push_bit_eq_mult unat_word_ariths unat_of_nat_u64)
    then have "unat (phys_to_virt (heap_boot m) (pfn_to_phys f)) = f * 4096 + 18446603336221196288"
      using f by (simp add: phys_to_virt_def heap_boot_def unat_word_ariths)
    then show False using a by simp
  qed
  have d: "IS_PAGE_ALIGNED (hhdm (heap_boot m))" "pmm_in M (kpmm (heap_boot m)) L" "q_ok (heap_boot m)" "q_count (heap_boot m) = 0"
    using assms by (simp_all add: heap_boot_def IS_PAGE_ALIGNED_def PAGE_SIZE_def q_ok_def QUARANTINE_SIZE_def)
  show "heap_inv (kmalloc_init (heap_boot m)) L M" "used_slots (kmalloc_init (heap_boot m)) = {}"
    using kmalloc_init_inv [OF d(2,1) _ d(3,4)] z by blast+
qed

lemma heap_demo:
  "\<exists>m. pmm_init demo_map = Inr m \<and> heap_inv (kmalloc_init (heap_boot m)) {} ({2..<9} \<union> {10..<11}) \<and> live (kmalloc_init (heap_boot m)) = {} \<and>
     pmm_alloc_pages m 0 \<noteq> Inr (m, 0)"
proof -
  obtain m F where m: "pmm_init demo_map = Inr m" "pmm_inv m F {} ({2..<9} \<union> {10..<11})" using demo_boot by blast
  have p: "pmm_in ({2..<9} \<union> {10..<11}) m {}" unfolding pmm_in_def using m(2) by auto
  have s: "{2..<9} \<union> {10..<11} \<subseteq> {..<1000 :: nat}" by auto
  have "bset (2, 0) \<subseteq> cover F" using pmm_inv_free_wf(4) [OF m(2)] by (auto simp: bset_def)
  from pmm_alloc_success [OF m(2) _ _ this] obtain t b where b: "pmm_alloc_pages m 0 = Inr (t, pfn_to_phys b)" "bset (b, 0) \<subseteq> cover F"
    by (auto simp: PMM_MAX_ORDER_def)
  then have "b \<in> {2..<9} \<union> {10..<11}" using pmm_inv_free_wf(4) [OF m(2)] bset_head by blast
  then have "pfn_to_phys b \<noteq> 0" using pfn_to_phys_facts(3) [of b] by auto
  then show ?thesis using heap_boot_inv [OF p s] m(1) b(1) unfolding live_def by auto
qed

subsection \<open>Properties\<close>

text \<open>C25: small allocations. A request of 1 to 2048 bytes either fails and changes nothing, which
  happens only when the page allocator has no page, or returns
  a slot of at least that size that was neither held by a client nor in quarantine. The slot
  overlaps no memory a client holds, every held slot keeps its size and its contents, and the
  invariant of the heap is kept.\<close>

theorem kmalloc_correct:
  assumes "heap_inv h L M" "0 < n" "n \<le> 2048"
  shows "\<exists>h' a. kmalloc h n = Inr (h', a) \<and> heap_inv h' L M \<and>
    (a = 0 \<and> h' = h \<and> pmm_alloc_pages (kpmm h) 0 = Inr (kpmm h, 0) \<or>
     a \<noteq> 0 \<and> a \<notin> live h \<and> a \<notin> set (q_list h) \<and> live h' = insert a (live h) \<and> n \<le> kmalloc_usable_size h' a \<and>
     (\<forall>b \<in> live h. span a (kmalloc_usable_size h' a) \<inter> span b (kmalloc_usable_size h' b) = {} \<and>
        kmalloc_usable_size h' b = kmalloc_usable_size h b \<and>
        (\<forall>x \<in> span b (kmalloc_usable_size h b). kbytes h' x = kbytes h x)))"
proof -
  obtain i h' a where r: "i < 8" "n \<le> of_nat (class_size i)" "kmalloc h n = Inr (h', a)" "small_result h L M i h' a"
    using kmalloc_small [OF assms] by blast
  have q: "set (q_list h) \<subseteq> used_slots h" using assms(1) by (simp add: heap_inv_def)
  have inv': "heap_inv h' L M" using r(4) by (simp add: small_result_def)
  show ?thesis
  proof (cases "a = 0")
    case True
    then show ?thesis using r(3,4) inv' unfolding small_result_def by blast
  next
    case False
    then have s: "a \<noteq> 0" "a \<notin> used_slots h" "used_slots h' = insert a (used_slots h)" "q_list h' = q_list h"
      "kmalloc_usable_size h' a = of_nat (class_size i)"
      "\<And>b. b \<in> used_slots h \<Longrightarrow> kmalloc_usable_size h' b = kmalloc_usable_size h b \<and>
        (\<forall>x \<in> span b (kmalloc_usable_size h b). kbytes h' x = kbytes h x)"
      using r(4) unfolding small_result_def by blast+
    have d: "span a (kmalloc_usable_size h' a) \<inter> span b (kmalloc_usable_size h' b) = {}" if "b \<in> used_slots h" for b
      using used_slots_disjoint [of h' L M a b] inv' s(2,3) that by (auto simp: heap_inv_def)
    have "live h' = insert a (live h)" "a \<notin> live h" "a \<notin> set (q_list h)"
      using s(2-4) q by (auto simp: live_def)
    moreover have "b \<in> used_slots h" if "b \<in> live h" for b using that by (simp add: live_def)
    moreover have "n \<le> kmalloc_usable_size h' a" using r(2) s(5) by simp
    ultimately show ?thesis using r(3) inv' s(1,6) d by (intro exI [of _ h'] exI [of _ a]) auto
  qed
qed

theorem kmalloc_correct_witness:
  "\<exists>m h' a. pmm_init demo_map = Inr m \<and> kmalloc (kmalloc_init (heap_boot m)) 100 = Inr (h', a) \<and>
     heap_inv h' {} ({2..<9} \<union> {10..<11}) \<and> live h' = {a} \<and> 100 \<le> kmalloc_usable_size h' a"
proof -
  obtain m where m: "pmm_init demo_map = Inr m" "heap_inv (kmalloc_init (heap_boot m)) {} ({2..<9} \<union> {10..<11})"
    "live (kmalloc_init (heap_boot m)) = {}" "pmm_alloc_pages m 0 \<noteq> Inr (m, 0)" using heap_demo by blast
  have "kpmm (kmalloc_init (heap_boot m)) = m" by (simp add: kmalloc_init_def heap_boot_def)
  then show ?thesis using kmalloc_correct [OF m(2), of 100] m(1,3,4) by (auto simp: word_le_nat_alt)
qed

text \<open>C26: freeing a slot. The free fails an assertion exactly when bytes 8 to 11 of the slot all hold
  \<open>0xDE\<close>, even if the client holds the slot. Otherwise the slot leaves the client, joins
  the end of the quarantine, which keeps the last 32 freed slots in order and gives back only the
  one that falls out, and every other held slot keeps its contents. Freeing the same slot a second
  time then fails the assertion.\<close>

theorem kfree_correct:
  assumes "heap_inv h L M" "a \<in> live h"
  shows "(kfree h a = Inl KAssert \<longleftrightarrow> poisoned h a) \<and>
    (\<not> poisoned h a \<longrightarrow> (\<exists>h'. kfree h a = Inr h' \<and> heap_inv h' L M \<and> live h' = live h - {a} \<and>
       q_list h' = drop (length (q_list h) - 31) (q_list h) @ [a] \<and> kfree h' a = Inl KAssert \<and>
       (\<forall>b \<in> live h'. kmalloc_usable_size h' b = kmalloc_usable_size h b \<and>
         (\<forall>x \<in> span b (kmalloc_usable_size h b). kbytes h' x = kbytes h x))))"
proof -
  have dead: "kfree g b = Inl KAssert" if g: "slabs_ok g L M" and b: "b \<in> used_slots g" "poisoned g b" for g b
  proof -
    obtain i p where p: "slab_at g i p" "b \<in> slots p i" "b \<notin> set (sl_free (hdr g p))" using b(1) by (auto simp: used_slots_def)
    have i: "i < 8" by (rule slab_atD(1) [OF p(1)])
    have o: "slab_ok g i p" by (rule slabs_okD(5) [OF g p(1)])
    have "8 < sl_obj_size (hdr g p)"
      using class_cases [OF i] o unfolding slab_ok_def by (elim disjE) (simp_all add: class_size_def)
    then show ?thesis using slot_page [OF g p(1,2)] b(2) class_size_facts(6,7) [OF i] o
      by (simp add: kfree_def Let_def slab_ok_def kassert_def)
  qed
  have u: "a \<in> used_slots h" using assms(2) by (simp add: live_def)
  have ok: "slabs_ok h L M" using assms(1) by (simp add: heap_inv_def)
  show ?thesis
  proof (cases "poisoned h a")
    case True
    then show ?thesis using dead [OF ok u] by simp
  next
    case False
    obtain h' where K: "kfree h a = Inr h'" "heap_inv h' L M" "used_slots h' = used_slots h - set (take (length (q_list h) - 31) (q_list h))"
      "q_list h' = drop (length (q_list h) - 31) (q_list h) @ [a]" "poisoned h' a"
      "\<And>j q. slab_at h' j q \<Longrightarrow> slab_at h j q"
      "\<And>b x. b \<in> used_slots h' \<Longrightarrow> b \<noteq> a \<Longrightarrow> x \<in> span b (kmalloc_usable_size h b) \<Longrightarrow> kbytes h' x = kbytes h x"
      using kfree_steps [OF assms False] by metis
    have ok': "slabs_ok h' L M" and qs: "set (q_list h') \<subseteq> used_slots h'" using K(2) by (simp_all add: heap_inv_def)
    have "set (take (length (q_list h) - 31) (q_list h)) \<union> set (drop (length (q_list h) - 31) (q_list h)) = set (q_list h)"
      by (metis append_take_drop_id set_append)
    then have lv: "live h' = live h - {a}" unfolding live_def K(3,4) by auto
    have "a \<in> used_slots h'" using qs K(4) by simp
    then have "kfree h' a = Inl KAssert" using dead [OF ok'] K(5) by blast
    moreover have "kmalloc_usable_size h' b = kmalloc_usable_size h b" if "b \<in> live h'" for b
      using usable_kept [OF ok ok' K(6)] that by (auto simp: live_def)
    moreover have "b \<in> used_slots h'" "b \<noteq> a" if "b \<in> live h'" for b using that lv by (auto simp: live_def)
    ultimately show ?thesis using K(1,2,4,7) lv False by auto
  qed
qed

theorem kfree_correct_witness:
  "\<exists>m h1 a. pmm_init demo_map = Inr m \<and> kmalloc (kmalloc_init (heap_boot m)) 100 = Inr (h1, a) \<and> a \<in> live h1 \<and>
     (kfree h1 a = Inl KAssert \<longleftrightarrow> poisoned h1 a)"
proof -
  obtain m where m: "pmm_init demo_map = Inr m" "heap_inv (kmalloc_init (heap_boot m)) {} ({2..<9} \<union> {10..<11})"
    "pmm_alloc_pages m 0 \<noteq> Inr (m, 0)" using heap_demo by blast
  have k: "kpmm (kmalloc_init (heap_boot m)) = m" by (simp add: kmalloc_init_def heap_boot_def)
  obtain i h1 a where r: "kmalloc (kmalloc_init (heap_boot m)) 100 = Inr (h1, a)"
      "small_result (kmalloc_init (heap_boot m)) {} ({2..<9} \<union> {10..<11}) i h1 a"
    using kmalloc_small [OF m(2), of 100] by (auto simp: word_le_nat_alt)
  have "heap_inv h1 {} ({2..<9} \<union> {10..<11})" "a \<in> live h1"
    using r(2) m(2,3) k by (auto simp: small_result_def live_def heap_inv_def)
  from kfree_correct [OF this] show ?thesis using m(1) r(1) \<open>a \<in> live h1\<close> by blast
qed

text \<open>Large allocations. A request above 2048 bytes either fails and changes nothing or returns an
  aligned block of pages that was free, eight bytes after its start, and freeing it gives the block
  back. The usable size reaches the request exactly up to \<open>4 MiB - 8\<close>: for a larger
  request the search for an order stops at the largest one, and the caller gets a block that is
  smaller than it asked for.\<close>

theorem kmalloc_large_correct:
  assumes "heap_inv h L M" "2048 < n" "n \<le> 2 ^ 64 - 9"
  shows "kmalloc h n = Inr (h, 0) \<or>
    (\<exists>h' p k. kmalloc h n = Inr (h', phys_to_virt h (pfn_to_phys p) + 8) \<and> k \<le> PMM_MAX_ORDER \<and> 2 ^ k dvd p \<and>
      bset (p, k) \<inter> cover (L \<union> slab_blocks h) = {} \<and> heap_inv h' (insert (p, k) L) M \<and> live h' = live h \<and>
      (n \<le> kmalloc_usable_size h' (phys_to_virt h (pfn_to_phys p) + 8) \<longleftrightarrow> n \<le> 4 * 1024 * 1024 - 8) \<and>
      (\<exists>h''. kfree h' (phys_to_virt h (pfn_to_phys p) + 8) = Inr h'' \<and> heap_inv h'' L M \<and> live h'' = live h))"
proof (cases "kmalloc h n = Inr (h, 0)")
  case False
  let ?k = "large_order (n + 8) 0"
  have k: "?k \<le> 10" by (rule large_order_spec(1)) simp
  obtain h' p where r: "kmalloc h n = Inr (h', phys_to_virt h (pfn_to_phys p) + 8)" "2 ^ ?k dvd p"
    "bset (p, ?k) \<inter> cover (L \<union> slab_blocks h) = {}" "heap_inv h' (insert (p, ?k) L) M" "live h' = live h" "hhdm h' = hhdm h"
    "large_hdr h' (phys_to_virt h (pfn_to_phys p)) = of_nat ?k"
    "kmalloc_usable_size h' (phys_to_virt h (pfn_to_phys p) + 8) = pow2 ?k * PAGE_SIZE - 8"
    using kmalloc_large_spec [OF assms(1,2)] False unfolding Let_def by blast
  have nl: "(p, ?k) \<notin> L" using r(3) cover_head [of p ?k] bset_head by blast
  have pv: "phys_to_virt h' = phys_to_virt h" by (simp add: fun_eq_iff phys_to_virt_def r(6))
  have "\<exists>h''. kfree h' (phys_to_virt h (pfn_to_phys p) + 8) = Inr h'' \<and> heap_inv h'' L M \<and> live h'' = live h"
    using kfree_large_spec [OF r(4) k nl] r(5,7) unfolding pv by simp
  moreover have "n \<le> pow2 ?k * PAGE_SIZE - 8 \<longleftrightarrow> n \<le> 4 * 1024 * 1024 - 8"
    using kmalloc_large_fit [OF assms(3)] by simp
  ultimately show ?thesis
    using r k by (intro disjI2 exI [of _ h'] exI [of _ p] exI [of _ ?k]) (simp add: PMM_MAX_ORDER_def)
qed blast

theorem kmalloc_large_correct_witness:
  "\<exists>m. pmm_init demo_map = Inr m \<and>
     (kmalloc (kmalloc_init (heap_boot m)) 5000 = Inr (kmalloc_init (heap_boot m), 0) \<or>
      (\<exists>h' a. kmalloc (kmalloc_init (heap_boot m)) 5000 = Inr (h', a) \<and> 5000 \<le> kmalloc_usable_size h' a \<and>
        (\<exists>h''. kfree h' a = Inr h'' \<and> heap_inv h'' {} ({2..<9} \<union> {10..<11}))))"
proof -
  obtain m where m: "pmm_init demo_map = Inr m" "heap_inv (kmalloc_init (heap_boot m)) {} ({2..<9} \<union> {10..<11})"
    using heap_demo by blast
  have n: "(2048 :: u64) < 5000" "(5000 :: u64) \<le> 2 ^ 64 - 9" "(5000 :: u64) \<le> 4 * 1024 * 1024 - 8" by simp_all
  show ?thesis using kmalloc_large_correct [OF m(2) n(1,2)] n(3) m(1) by blast
qed

end
