(* ===== verification/Ringbuf.thy ===== *)
theory Ringbuf
  imports Fifo
begin

text \<open>
  The lock-free byte ring of \<open>kernel/ringbuf.h\<close> and the kernel log of \<open>kernel/klog.c\<close>.
  Head and tail are free-running 32-bit counters that wrap; the buffer index is the counter
  masked with \<open>size - 1\<close>. The log is protected by a spinlock held with interrupts off, so its
  operations are atomic state transformers; the console output of the dump is the byte list it
  sends to the serial port.
\<close>

subsection \<open>The ring\<close>

record ring_buf =
  rb_data :: "u8 list"
  rb_size :: u32
  rb_mask :: u32
  rb_head :: u32
  rb_tail :: u32

definition ring_init :: "u8 list \<Rightarrow> u32 \<Rightarrow> ring_buf" where
  "ring_init buf sz = \<lparr>rb_data = buf, rb_size = sz, rb_mask = sz - 1, rb_head = 0, rb_tail = 0\<rparr>"

definition ring_used :: "ring_buf \<Rightarrow> u32" where
  "ring_used r = rb_head r - rb_tail r"

definition ring_free :: "ring_buf \<Rightarrow> u32" where
  "ring_free r = rb_size r - ring_used r"

definition ring_empty :: "ring_buf \<Rightarrow> bool" where
  "ring_empty r = (rb_head r = rb_tail r)"

definition ring_full :: "ring_buf \<Rightarrow> bool" where
  "ring_full r = (ring_used r = rb_size r)"

definition ring_slot :: "ring_buf \<Rightarrow> u32 \<Rightarrow> nat" where
  "ring_slot r pos = unat (pos AND rb_mask r)"

definition ring_write :: "ring_buf \<Rightarrow> u8 list \<Rightarrow> u32 \<Rightarrow> ring_buf \<times> u32" where
  "ring_write r src count =
     (let avail = ring_free r;
          count = (if avail < count then avail else count);
          d = foldl (\<lambda>d i. d[ring_slot r (rb_head r + of_nat i) := src ! i]) (rb_data r) [0..<unat count]
      in (r\<lparr>rb_data := d, rb_head := rb_head r + count\<rparr>, count))"

definition ring_read :: "ring_buf \<Rightarrow> u32 \<Rightarrow> ring_buf \<times> u8 list \<times> u32" where
  "ring_read r count =
     (let avail = ring_used r;
          count = (if avail < count then avail else count);
          dst = map (\<lambda>i. rb_data r ! ring_slot r (rb_tail r + of_nat i)) [0..<unat count]
      in (r\<lparr>rb_tail := rb_tail r + count\<rparr>, dst, count))"

definition ring_peek :: "ring_buf \<Rightarrow> int" where
  "ring_peek r = (if ring_empty r then - 1 else int (unat (rb_data r ! ring_slot r (rb_tail r))))"

subsection \<open>The kernel log\<close>

definition klog_ring_init :: ring_buf where
  "klog_ring_init = ring_init (replicate 4096 0) 4096"

definition klog_putchar :: "ring_buf \<Rightarrow> u8 \<Rightarrow> ring_buf" where
  "klog_putchar r c =
     (let r1 = (if ring_full r then fst (ring_read r 1) else r)
      in fst (ring_write r1 [c] 1))"

primrec klog_write :: "ring_buf \<Rightarrow> u8 list \<Rightarrow> ring_buf" where
  "klog_write r [] = r"
| "klog_write r (c # cs) = klog_write (klog_putchar r c) cs"

definition klog_dump :: "ring_buf \<Rightarrow> u8 list \<Rightarrow> u8 list \<Rightarrow> u8 list" where
  "klog_dump r header footer =
     (let used = ring_used r in
      if used = 0 then []
      else header @ map (\<lambda>i. rb_data r ! ring_slot r (rb_tail r + of_nat i)) [0..<unat used] @ footer)"

definition klog_get_buffer :: "ring_buf \<Rightarrow> u8 list \<times> u32 \<times> u32" where
  "klog_get_buffer r = (rb_data r, ring_used r, rb_head r AND rb_mask r)"

subsection \<open>Invariant and contents\<close>

definition ring_inv :: "ring_buf \<Rightarrow> bool" where
  "ring_inv r \<longleftrightarrow> (\<exists>k < 32. rb_size r = 2 ^ k \<and> length (rb_data r) = 2 ^ k) \<and>
     rb_mask r = rb_size r - 1 \<and> unat (ring_used r) \<le> unat (rb_size r)"

definition ring_contents :: "ring_buf \<Rightarrow> u8 list" where
  "ring_contents r = map (\<lambda>i. rb_data r ! ring_slot r (rb_tail r + of_nat i)) [0..<unat (ring_used r)]"

lemma unat_exp_u32: "k < 32 \<Longrightarrow> unat (2 ^ k :: u32) = 2 ^ k"
proof -
  assume "k < 32"
  then have "(2 :: nat) ^ k < 2 ^ 32" by (intro power_strict_increasing) simp_all
  moreover have "(2 ^ k :: u32) = of_nat (2 ^ k)" by simp
  ultimately show ?thesis by (simp only: unat_of_nat) simp
qed

lemma slot_mod:
  assumes "rb_mask r = 2 ^ k - 1" "k < 32"
  shows "ring_slot r (p + of_nat i) = (unat p + i) mod 2 ^ k"
proof -
  have "(p + of_nat i) AND rb_mask r = take_bit k (p + of_nat i)"
    unfolding assms(1) by (simp add: take_bit_eq_mask mask_eq_exp_minus_1)
  then have "ring_slot r (p + of_nat i) = unat (p + of_nat i) mod 2 ^ k"
    by (simp only: ring_slot_def unsigned_take_bit_eq) (simp only: take_bit_eq_mod)
  also have "unat (p + of_nat i) = (unat p + i) mod 2 ^ 32"
    by (simp add: unat_word_ariths unat_of_nat mod_add_right_eq)
  also have "(unat p + i) mod 2 ^ 32 mod 2 ^ k = (unat p + i) mod 2 ^ k"
    using assms(2) by (intro mod_mod_cancel le_imp_power_dvd) simp
  finally show ?thesis .
qed

lemma mod_add_inj:
  assumes "i < N" "j < N"
  shows "(b + i) mod N = (b + j) mod N \<longleftrightarrow> i = (j :: nat)"
proof -
  have "i = j" if "i \<le> j" "i < N" "j < N" "(b + i) mod N = (b + j) mod N" for i j
  proof -
    have "N dvd (b + j) - (b + i)" using that mod_eq_dvd_iff_nat [of "b + i" "b + j" N] by auto
    then have "N dvd j - i" by simp
    then show ?thesis using that nat_dvd_not_less [of "j - i" N] by fastforce
  qed
  from this [of i j] this [of j i] show ?thesis using assms by (metis nat_le_linear)
qed

text \<open>The geometry of a ring: a power of two and free-running positions.\<close>

lemma ring_invE:
  assumes "ring_inv r"
  obtains k where "k < 32" "rb_size r = 2 ^ k" "unat (rb_size r) = 2 ^ k" "length (rb_data r) = 2 ^ k"
    "\<And>p i. ring_slot r (p + of_nat i) = (unat p + i) mod 2 ^ k" "unat (ring_used r) \<le> 2 ^ k"
    "unat (ring_free r) = 2 ^ k - unat (ring_used r)" "(unat (rb_tail r) + unat (ring_used r)) mod 2 ^ 32 = unat (rb_head r)"
proof -
  from assms obtain k where k: "k < 32" "rb_size r = 2 ^ k" "length (rb_data r) = 2 ^ k"
    "rb_mask r = 2 ^ k - 1" "unat (ring_used r) \<le> unat (rb_size r)"
    by (auto simp: ring_inv_def)
  have u: "unat (rb_size r) = 2 ^ k" using k(1,2) by (simp add: unat_exp_u32)
  have "ring_used r \<le> rb_size r" using k(5) by (simp add: word_le_nat_alt)
  then have f: "unat (ring_free r) = 2 ^ k - unat (ring_used r)"
    by (simp add: ring_free_def unat_sub u)
  have "rb_tail r + ring_used r = rb_head r" by (simp add: ring_used_def)
  then have "unat (rb_head r) = (unat (rb_tail r) + unat (ring_used r)) mod 2 ^ 32"
    using unat_word_ariths(1) [of "rb_tail r" "ring_used r"] by simp
  then show thesis using that [OF k(1,2) u k(3)] slot_mod [OF k(4,1)] f k(5) u by simp
qed

lemma ring_positions:
  assumes "k < 32" "(t + u) mod 2 ^ 32 = h"
  shows "(h + i) mod 2 ^ k = (t + u + i) mod (2 ^ k :: nat)"
proof -
  have "(2 :: nat) ^ k dvd 2 ^ 32" using assms(1) by (intro le_imp_power_dvd) simp
  then have "h mod 2 ^ k = (t + u) mod 2 ^ k" using assms(2) mod_mod_cancel by blast
  then show ?thesis by (metis mod_add_left_eq)
qed

lemma write_loop:
  assumes "n \<le> N" "length d = N"
  shows "length (foldl (\<lambda>d i. d[(b + i) mod N := src ! i]) d [0..<n]) = N"
    "j < N \<Longrightarrow> foldl (\<lambda>d i. d[(b + i) mod N := src ! i]) d [0..<n] ! ((b + j) mod N) =
       (if j < n then src ! j else d ! ((b + j) mod N))"
proof -
  have "length (foldl (\<lambda>d i. d[(b + i) mod N := src ! i]) d [0..<n]) = N \<and>
    (\<forall>j < N. foldl (\<lambda>d i. d[(b + i) mod N := src ! i]) d [0..<n] ! ((b + j) mod N) =
       (if j < n then src ! j else d ! ((b + j) mod N)))"
    using assms
  proof (induction n)
    case (Suc n)
    then show ?case by (auto simp: nth_upd mod_add_inj less_Suc_eq)
  qed simp
  then show "length (foldl (\<lambda>d i. d[(b + i) mod N := src ! i]) d [0..<n]) = N"
    "j < N \<Longrightarrow> foldl (\<lambda>d i. d[(b + i) mod N := src ! i]) d [0..<n] ! ((b + j) mod N) =
       (if j < n then src ! j else d ! ((b + j) mod N))" by blast+
qed

lemma length_ring_contents [simp]: "length (ring_contents r) = unat (ring_used r)"
  by (simp add: ring_contents_def)

lemma ring_write_spec:
  assumes inv: "ring_inv r" and len: "unat count \<le> length src"
  shows "ring_inv (fst (ring_write r src count))"
    "snd (ring_write r src count) = min count (ring_free r)"
    "ring_contents (fst (ring_write r src count)) =
       ring_contents r @ take (unat (min count (ring_free r))) src"
    "rb_size (fst (ring_write r src count)) = rb_size r"
proof -
  obtain k where k: "k < 32" "rb_size r = 2 ^ k" "unat (rb_size r) = 2 ^ k" "length (rb_data r) = 2 ^ k"
    "\<And>p i. ring_slot r (p + of_nat i) = (unat p + i) mod 2 ^ k" "unat (ring_used r) \<le> 2 ^ k"
    "unat (ring_free r) = 2 ^ k - unat (ring_used r)"
    "(unat (rb_tail r) + unat (ring_used r)) mod 2 ^ 32 = unat (rb_head r)"
    using inv by (rule ring_invE) blast
  define c where "c = min count (ring_free r)"
  define N :: nat where "N = 2 ^ k"
  let ?u = "unat (ring_used r)" and ?t = "unat (rb_tail r)"
  let ?d = "foldl (\<lambda>d i. d[(?t + ?u + i) mod N := src ! i]) (rb_data r) [0..<unat c]"
  have cl: "unat c \<le> N - ?u" "unat c \<le> length src"
    using k(7) len by (auto simp: c_def N_def min_def word_le_nat_alt)
  have if_min: "(if ring_free r < count then ring_free r else count) = c"
    by (auto simp: c_def min_def)
  have slot: "ring_slot r (rb_head r + of_nat i) = (?t + ?u + i) mod N" for i
    using k(5) ring_positions [OF k(1,8)] by (simp add: N_def)
  have w: "ring_write r src count = (r\<lparr>rb_data := ?d, rb_head := rb_head r + c\<rparr>, c)"
    unfolding ring_write_def Let_def if_min slot ..
  then show "snd (ring_write r src count) = min count (ring_free r)"
    "rb_size (fst (ring_write r src count)) = rb_size r" by (simp_all add: c_def)
  let ?r = "r\<lparr>rb_data := ?d, rb_head := rb_head r + c\<rparr>"
  have d: "length ?d = N" "\<And>j. j < N \<Longrightarrow> ?d ! ((?t + ?u + j) mod N) =
      (if j < unat c then src ! j else rb_data r ! ((?t + ?u + j) mod N))"
    using write_loop [where n = "unat c" and N = N and d = "rb_data r" and b = "?t + ?u" and src = src]
      cl k(4) by (auto simp: N_def)
  have N32: "N < 2 ^ 32" unfolding N_def using k(1) by (intro power_strict_increasing) simp_all
  have "ring_used ?r = ring_used r + c" by (simp add: ring_used_def)
  then have used: "unat (ring_used ?r) = ?u + unat c"
    using cl(1) k(6) N32 by (simp add: unat_word_ariths N_def)
  have sl: "ring_slot ?r p = ring_slot r p" for p by (simp add: ring_slot_def)
  have "ring_inv ?r"
    using inv used cl(1) k d(1) unfolding ring_inv_def by (auto simp: N_def)
  then show "ring_inv (fst (ring_write r src count))" by (simp add: w)
  have old: "?d ! ((?t + j) mod N) = rb_data r ! ((?t + j) mod N)" if "j < ?u" for j
  proof -
    have "?t + ?u + (N - ?u + j) = ?t + j + N" using k(6) by (simp add: N_def)
    then have e: "(?t + ?u + (N - ?u + j)) mod N = (?t + j) mod N" by (simp only: mod_add_self2)
    have "?u \<le> N" using k(6) by (simp add: N_def)
    then have "N - ?u + j < N" "\<not> N - ?u + j < unat c" using that cl(1) by linarith+
    then show ?thesis using d(2) [of "N - ?u + j"] unfolding e by simp
  qed
  have "ring_contents ?r = ring_contents r @ take (unat c) src"
  proof (rule nth_equalityI)
    fix i assume "i < length (ring_contents ?r)"
    then have i: "i < ?u + unat c" by (simp add: used)
    have l: "ring_contents ?r ! i = ?d ! ((?t + i) mod N)"
      using i used k(5) sl by (simp add: ring_contents_def N_def)
    show "ring_contents ?r ! i = (ring_contents r @ take (unat c) src) ! i"
    proof (cases "i < ?u")
      case True
      then show ?thesis
        using l old [OF True] k(5) by (simp add: ring_contents_def nth_append N_def)
    next
      case False
      then obtain j where j: "i = ?u + j" using le_iff_add not_less by metis
      have "?d ! ((?t + ?u + j) mod N) = src ! j" using d(2) [of j] i j cl(1) by auto
      then show ?thesis using l i j cl(2) by (simp add: nth_append add.assoc)
    qed
  qed (simp add: used cl(2))
  then show "ring_contents (fst (ring_write r src count)) =
       ring_contents r @ take (unat (min count (ring_free r))) src" by (simp add: w c_def)
qed

lemma ring_read_spec:
  assumes inv: "ring_inv r"
  shows "ring_inv (fst (ring_read r count))"
    "snd (ring_read r count) = (take (unat (min count (ring_used r))) (ring_contents r), min count (ring_used r))"
    "ring_contents (fst (ring_read r count)) = drop (unat (min count (ring_used r))) (ring_contents r)"
    "rb_size (fst (ring_read r count)) = rb_size r"
proof -
  define c where "c = min count (ring_used r)"
  have if_min: "(if ring_used r < count then ring_used r else count) = c"
    by (auto simp: c_def min_def)
  have cl: "c \<le> ring_used r" "unat c \<le> unat (ring_used r)"
    by (auto simp: c_def word_le_nat_alt [symmetric])
  have tk: "map (\<lambda>i. rb_data r ! ring_slot r (rb_tail r + of_nat i)) [0..<unat c] =
      take (unat c) (ring_contents r)"
    using cl(2) by (simp add: ring_contents_def take_map)
  have w: "ring_read r count = (r\<lparr>rb_tail := rb_tail r + c\<rparr>, take (unat c) (ring_contents r), c)"
    unfolding ring_read_def Let_def if_min tk ..
  let ?r = "r\<lparr>rb_tail := rb_tail r + c\<rparr>"
  have "ring_used ?r = ring_used r - c" by (simp add: ring_used_def)
  then have used: "unat (ring_used ?r) = unat (ring_used r) - unat c" using cl by (simp add: unat_sub)
  have sl: "ring_slot ?r p = ring_slot r p" for p by (simp add: ring_slot_def)
  have "ring_contents ?r = drop (unat c) (ring_contents r)"
  proof (rule nth_equalityI)
    fix i assume "i < length (ring_contents ?r)"
    then have i: "i < unat (ring_used r) - unat c" by (simp add: used)
    have "ring_contents ?r ! i = rb_data r ! ring_slot r (rb_tail r + c + of_nat i)"
      using i used by (simp add: ring_contents_def sl)
    moreover have "ring_contents r ! (unat c + i) = rb_data r ! ring_slot r (rb_tail r + of_nat (unat c + i))"
      using i unfolding ring_contents_def by (subst nth_map) (auto simp: less_diff_conv)
    ultimately show "ring_contents ?r ! i = drop (unat c) (ring_contents r) ! i"
      using i cl(2) by (simp add: add.assoc)
  qed (simp add: used)
  then show "snd (ring_read r count) = (take (unat (min count (ring_used r))) (ring_contents r), min count (ring_used r))"
    "ring_contents (fst (ring_read r count)) = drop (unat (min count (ring_used r))) (ring_contents r)"
    "rb_size (fst (ring_read r count)) = rb_size r"
    by (simp_all add: w c_def)
  show "ring_inv (fst (ring_read r count))"
    using inv used unfolding ring_inv_def w by auto
qed

lemma ring_status:
  assumes "ring_inv r"
  shows "ring_empty r \<longleftrightarrow> ring_contents r = []"
    "ring_full r \<longleftrightarrow> length (ring_contents r) = unat (rb_size r)"
    "unat (ring_free r) = unat (rb_size r) - length (ring_contents r)"
    "length (ring_contents r) \<le> unat (rb_size r)"
    "ring_contents r = x # xs \<Longrightarrow> ring_peek r = int (unat x)"
proof -
  have e: "ring_used r = 0 \<longleftrightarrow> rb_head r = rb_tail r" by (simp add: ring_used_def)
  then show emp: "ring_empty r \<longleftrightarrow> ring_contents r = []"
    unfolding ring_empty_def by (simp add: ring_contents_def unat_eq_0)
  show "ring_full r \<longleftrightarrow> length (ring_contents r) = unat (rb_size r)"
    by (simp add: ring_full_def word_unat_eq_iff)
  show "unat (ring_free r) = unat (rb_size r) - length (ring_contents r)"
    "length (ring_contents r) \<le> unat (rb_size r)"
    using assms by (auto simp: ring_free_def ring_inv_def unat_sub word_le_nat_alt)
  assume c: "ring_contents r = x # xs"
  then have "0 < unat (ring_used r)" using length_ring_contents [of r] by simp
  then have "ring_contents r ! 0 = rb_data r ! ring_slot r (rb_tail r)" by (simp add: ring_contents_def)
  then show "ring_peek r = int (unat x)" using c emp by (simp add: ring_peek_def)
qed

subsection \<open>The ring as a bounded queue of bytes\<close>

definition ring_put1 :: "ring_buf \<Rightarrow> u8 \<Rightarrow> ring_buf option" where
  "ring_put1 r c = (case ring_write r [c] 1 of (r', n) \<Rightarrow> if n = 1 then Some r' else None)"

definition ring_get1 :: "ring_buf \<Rightarrow> (u8 \<times> ring_buf) option" where
  "ring_get1 r = (case ring_read r 1 of (r', bs, n) \<Rightarrow> if n = 1 then Some (hd bs, r') else None)"

lemma min_one: "min 1 w = (if w = 0 then 0 else (1 :: u32))"
  by (simp add: min_def word_le_nat_alt unat_eq_0 [symmetric] Suc_le_eq del: unat_eq_0)

interpretation ring: bounded_fifo ring_inv ring_contents "\<lambda>r. unat (rb_size r)" ring_put1 ring_get1
proof
  fix r x assume inv: "ring_inv r"
  note W = ring_write_spec [OF inv, of 1 "[x]"] and S = ring_status [OF inv]
  show "length (ring_contents r) \<le> unat (rb_size r)" by (rule S(4))
  have fr: "ring_free r = 0 \<longleftrightarrow> length (ring_contents r) = unat (rb_size r)"
    using S(3,4) by (auto simp: unat_eq_0 [symmetric] simp del: unat_eq_0 length_ring_contents)
  obtain r' n where w: "ring_write r [x] 1 = (r', n)" by fastforce
  show "\<exists>q'. ring_put1 r x = Some q' \<and> ring_inv q' \<and> unat (rb_size q') = unat (rb_size r) \<and>
      ring_contents q' = ring_contents r @ [x]" if "length (ring_contents r) < unat (rb_size r)"
    using W that fr w by (simp add: ring_put1_def min_one)
  show "ring_put1 r x = None" if "length (ring_contents r) = unat (rb_size r)"
    using W(2) that fr w by (simp add: ring_put1_def min_one)
next
  fix r x xs assume inv: "ring_inv r"
  note R = ring_read_spec [OF inv, of 1]
  obtain r' bs n where w: "ring_read r 1 = (r', bs, n)" using prod_cases3 by blast
  have ne: "ring_used r = 0 \<longleftrightarrow> ring_contents r = []"
    using length_ring_contents [of r] by (metis length_0_conv unat_eq_0)
  show "ring_get1 r = None" if "ring_contents r = []"
    using R(2) that ne w by (simp add: ring_get1_def min_one)
  show "\<exists>q'. ring_get1 r = Some (x, q') \<and> ring_inv q' \<and> unat (rb_size q') = unat (rb_size r) \<and>
      ring_contents q' = xs" if "ring_contents r = x # xs"
    using R that ne w by (simp add: ring_get1_def min_one)
qed

subsection \<open>The kernel log keeps the last bytes\<close>

lemma klog_putchar_spec:
  assumes inv: "ring_inv r" and sz: "0 < unat (rb_size r)"
  shows "ring_inv (klog_putchar r c)" "rb_size (klog_putchar r c) = rb_size r"
    "ring_contents (klog_putchar r c) =
       (if length (ring_contents r) = unat (rb_size r) then tl (ring_contents r) else ring_contents r) @ [c]"
proof -
  define r1 where "r1 = (if ring_full r then fst (ring_read r 1) else r)"
  have full: "ring_used r \<noteq> 0" if "ring_full r" using that sz by (auto simp: ring_full_def)
  have r1: "ring_inv r1" "rb_size r1 = rb_size r"
    "ring_contents r1 = (if length (ring_contents r) = unat (rb_size r) then tl (ring_contents r) else ring_contents r)"
    using ring_read_spec [OF inv, of 1] inv full ring_status(2) [OF inv]
    by (auto simp: r1_def min_one drop_Suc)
  have "length (ring_contents r1) < unat (rb_size r1)"
    unfolding r1(2,3) using ring_status(4) [OF inv] sz by (auto simp del: length_ring_contents)
  then have "ring_free r1 \<noteq> 0"
    using ring_status(3) [OF r1(1)] by (auto simp: unat_eq_0 [symmetric] simp del: unat_eq_0 length_ring_contents)
  then show "ring_inv (klog_putchar r c)" "rb_size (klog_putchar r c) = rb_size r"
    "ring_contents (klog_putchar r c) =
       (if length (ring_contents r) = unat (rb_size r) then tl (ring_contents r) else ring_contents r) @ [c]"
    using ring_write_spec [OF r1(1), of 1 "[c]"] r1(2,3)
    by (simp_all add: klog_putchar_def r1_def [symmetric] min_one)
qed

lemma drop_step:
  assumes "length xs \<le> N" "0 < N"
  shows "(if length xs = N then tl xs else xs) @ [c] = drop (length (xs @ [c]) - N) (xs @ [c])"
proof (cases "length xs = N")
  case True
  then show ?thesis using assms by (cases xs) auto
next
  case False
  then show ?thesis using assms by simp
qed

lemma klog_write_spec:
  assumes "ring_inv r" "0 < unat (rb_size r)"
  shows "ring_inv (klog_write r cs) \<and> rb_size (klog_write r cs) = rb_size r \<and>
    ring_contents (klog_write r cs) =
      drop (length (ring_contents r @ cs) - unat (rb_size r)) (ring_contents r @ cs)"
  using assms
proof (induction cs arbitrary: r)
  case Nil
  then show ?case using ring_status(4) [OF Nil(1)] by (simp del: length_ring_contents)
next
  case (Cons c cs)
  let ?N = "unat (rb_size r)" and ?xs = "ring_contents r"
  let ?r = "klog_putchar r c"
  note P = klog_putchar_spec [OF Cons.prems, of c]
  have cont: "ring_contents ?r = drop (length (?xs @ [c]) - ?N) (?xs @ [c])"
    unfolding P(3) using drop_step ring_status(4) [OF Cons.prems(1)] Cons.prems(2) by metis
  have dd: "drop (length (drop k ys @ cs) - ?N) (drop k ys @ cs) = drop (length (ys @ cs) - ?N) (ys @ cs)"
    if "k = length ys - ?N" for k and ys :: "u8 list"
  proof (cases "?N \<le> length ys")
    case True
    have "drop k ys @ cs = drop k (ys @ cs)" using that by simp
    then show ?thesis using that True by (simp add: add.commute)
  next
    case False
    then show ?thesis using that by simp
  qed
  have e: "drop (length (ring_contents ?r @ cs) - ?N) (ring_contents ?r @ cs) =
      drop (length (?xs @ c # cs) - ?N) (?xs @ c # cs)"
    unfolding cont using dd [OF refl, of "?xs @ [c]"] by (simp only: append_assoc append_Cons append_Nil)
  show ?case
    using Cons.IH [OF P(1)] Cons.prems(2) unfolding P(2) e by (simp only: klog_write.simps)
qed

subsection \<open>Properties\<close>

text \<open>C16: the ring. Writing appends the longest prefix of the data that fits, as long as the source has the given number of bytes.
  Reading removes and returns the first bytes of the contents, as many as were asked for or all there are. Both
  report the number of bytes moved, keep the invariant and the size; what fits and what there is are the size
  less the contents and the contents. The free-running 32-bit positions may wrap in the middle of either.\<close>

theorem ring_write_read_correct:
  assumes "ring_inv r" "unat count \<le> length src"
  shows "ring_inv (fst (ring_write r src count)) \<and>
    ring_contents (fst (ring_write r src count)) = ring_contents r @ take (unat (snd (ring_write r src count))) src \<and>
    snd (ring_write r src count) = min count (ring_free r) \<and> rb_size (fst (ring_write r src count)) = rb_size r \<and>
    ring_inv (fst (ring_read r n)) \<and>
    snd (ring_read r n) = (take (unat (min n (ring_used r))) (ring_contents r), min n (ring_used r)) \<and>
    ring_contents (fst (ring_read r n)) = drop (unat (min n (ring_used r))) (ring_contents r) \<and>
    rb_size (fst (ring_read r n)) = rb_size r \<and>
    unat (ring_used r) = length (ring_contents r) \<and> unat (ring_free r) = unat (rb_size r) - length (ring_contents r)"
  using ring_write_spec [OF assms] ring_read_spec [OF assms(1), of n] ring_status(3) [OF assms(1)] by simp

theorem ring_write_read_correct_witness:
  "ring_contents (fst (ring_write \<lparr>rb_data = [0, 0, 0, 0], rb_size = 4, rb_mask = 3, rb_head = 0xFFFFFFFF,
     rb_tail = 0xFFFFFFFE\<rparr> [7, 8, 9] 3)) = [0, 7, 8, 9] \<and>
   snd (ring_read \<lparr>rb_data = [0, 0, 0, 0], rb_size = 4, rb_mask = 3, rb_head = 0xFFFFFFFF, rb_tail = 0xFFFFFFFE\<rparr> 2) = ([0], 1)"
proof -
  let ?r = "\<lparr>rb_data = [0, 0, 0, 0], rb_size = 4, rb_mask = 3, rb_head = 0xFFFFFFFF, rb_tail = 0xFFFFFFFE\<rparr>"
  have inv: "ring_inv ?r" unfolding ring_inv_def ring_used_def by (auto intro!: exI [of _ 2])
  have c: "ring_contents ?r = [0]" "ring_free ?r = 3" "ring_used ?r = 1"
    by (simp_all add: ring_contents_def ring_used_def ring_slot_def ring_free_def)
  have "unat (3 :: u32) \<le> length [7, 8, 9 :: u8]" by simp
  from ring_write_read_correct [OF inv this, of 2] show ?thesis by (simp add: c)
qed

text \<open>The kernel log holds the most recent bytes. After any text is written the log contains
  exactly the last 4096 bytes of everything ever logged, in order, and a dump prints them.\<close>

theorem klog_keeps_latest:
  "ring_contents (klog_write klog_ring_init cs) = drop (length cs - 4096) cs \<and>
   klog_dump (klog_write klog_ring_init cs) h f =
     (if cs = [] then [] else h @ drop (length cs - 4096) cs @ f)"
proof -
  have inv: "ring_inv klog_ring_init"
    by (auto simp: ring_inv_def klog_ring_init_def ring_init_def ring_used_def intro!: exI [of _ 12])
  have sz: "unat (rb_size klog_ring_init) = 4096" "ring_contents klog_ring_init = []"
    by (simp_all add: klog_ring_init_def ring_init_def ring_contents_def ring_used_def)
  have c: "ring_contents (klog_write klog_ring_init cs) = drop (length cs - 4096) cs"
    using klog_write_spec [OF inv, of cs] sz by simp
  have "ring_used r = 0 \<longleftrightarrow> ring_contents r = []" for r
    using length_ring_contents [of r] by (metis length_0_conv unat_eq_0)
  moreover have "drop (length cs - 4096) cs = [] \<longleftrightarrow> cs = []" by (cases cs) auto
  ultimately show ?thesis using c by (simp add: klog_dump_def Let_def ring_contents_def [symmetric])
qed

end
