(* ===== verification/Kprintf.thy ===== *)
theory Kprintf
  imports Ringbuf
begin

text \<open>
  The formatted printing of \<open>kernel/kprintf.c\<close>: the number printer, \<open>kprintf\<close> to the
  serial line, console and kernel log, \<open>kvsnprintf\<close> into a buffer, and the rate limiter.

  A format is its bytes before the terminating zero. The variable arguments are a list: an integer
  argument is the 64-bit register it travels in, of which \<open>va_arg\<close> of an \<open>int\<close> takes the low
  half; a string argument is its bytes before the zero, or \<open>None\<close> for a null pointer. Reading an
  argument that is not there or has the other kind, a width beyond the range of \<open>int\<close>, negating
  the least signed number, and stepping past the end of the format are undefined in C and are the value \<open>Inl Fault\<close>.
\<close>

datatype va = VInt u64 | VStr "u8 list option"

subsection \<open>Numbers\<close>

definition digits_lower :: "u8 list" where
  "digits_lower = [48, 49, 50, 51, 52, 53, 54, 55, 56, 57, 97, 98, 99, 100, 101, 102]"

definition digits_upper :: "u8 list" where
  "digits_upper = [48, 49, 50, 51, 52, 53, 54, 55, 56, 57, 65, 66, 67, 68, 69, 70]"

text \<open>The loop that fills \<open>buf\<close>, least significant digit first.\<close>

function digit_loop :: "u8 list \<Rightarrow> nat \<Rightarrow> nat \<Rightarrow> u8 list" where
  "digit_loop digits b n = (if n = 0 \<or> b < 2 then [] else digits ! (n mod b) # digit_loop digits b (n div b))"
  by pat_completeness auto
termination
  by (relation "measure (\<lambda>(d, b, n). n)") auto

declare digit_loop.simps [simp del]

definition unsigned_buf :: "u64 \<Rightarrow> nat \<Rightarrow> bool \<Rightarrow> u8 list" where
  "unsigned_buf val b uppercase =
     (if val = 0 then [48] else digit_loop (if uppercase then digits_upper else digits_lower) b (unat val))"

text \<open>\<open>while (i < width) { put(pad); width--; }\<close>\<close>

function pad_loop :: "int \<Rightarrow> int \<Rightarrow> u8 \<Rightarrow> u8 list" where
  "pad_loop i width pad = (if i < width then pad # pad_loop i (width - 1) pad else [])"
  by pat_completeness auto
termination
  by (relation "measure (\<lambda>(i, w, p). nat (w - i))") auto

declare pad_loop.simps [simp del]

definition kprint_unsigned :: "u64 \<Rightarrow> nat \<Rightarrow> int \<Rightarrow> u8 \<Rightarrow> bool \<Rightarrow> u8 list" where
  "kprint_unsigned val b width pad uppercase =
     (let buf = unsigned_buf val b uppercase in pad_loop (int (length buf)) width pad @ rev buf)"

text \<open>The negation of the least \<open>int64_t\<close> overflows.\<close>

definition kprint_signed :: "u64 \<Rightarrow> int \<Rightarrow> u8 \<Rightarrow> u8 list res" where
  "kprint_signed val width pad =
     (if sint val < 0 then
        if val = 2 ^ 63 then Inl Fault
        else Inr (45 # kprint_unsigned (- val) 10 (if 0 < width then width - 1 else width) pad False)
      else Inr (kprint_unsigned val 10 width pad False))"

definition null_string :: "u8 list" where
  "null_string = [40, 110, 117, 108, 108, 41]"

definition the_string :: "u8 list option \<Rightarrow> u8 list" where
  "the_string s = (case s of None \<Rightarrow> null_string | Some cs \<Rightarrow> cs)"

definition kprint_string_padded :: "u8 list option \<Rightarrow> int \<Rightarrow> bool \<Rightarrow> u8 list" where
  "kprint_string_padded s width left_align =
     (let cs = the_string s; pads = replicate (nat (width - int (length cs))) 32
      in (if left_align then [] else pads) @ cs @ (if left_align then pads else []))"

subsection \<open>Conversion specifications\<close>

record spec =
  left_align :: bool
  pad_char :: u8
  field_width :: int
  is_long :: bool

definition parse_flags :: "u8 list \<Rightarrow> bool \<times> u8 \<times> u8 list" where
  "parse_flags fmt =
     (case fmt of [] \<Rightarrow> (False, 32, [])
      | c # cs \<Rightarrow> if c = 45 then (True, 32, cs) else if c = 48 then (False, 48, cs) else (False, 32, fmt))"

fun parse_width :: "int \<Rightarrow> u8 list \<Rightarrow> (int \<times> u8 list) res" where
  "parse_width w [] = Inr (w, [])"
| "parse_width w (c # cs) =
     (if 48 \<le> c \<and> c \<le> 57 then
        let w' = w * 10 + int (unat (c - 48)) in if w' < 2 ^ 31 then parse_width w' cs else Inl Fault
      else Inr (w, c # cs))"

definition parse_length :: "u8 list \<Rightarrow> bool \<times> u8 list" where
  "parse_length fmt =
     (case fmt of [] \<Rightarrow> (False, [])
      | c # cs \<Rightarrow> if c = 108 then (True, case cs of [] \<Rightarrow> [] | d # ds \<Rightarrow> if d = 108 then ds else cs) else (False, fmt))"

definition parse_spec :: "u8 list \<Rightarrow> (spec \<times> u8 list) res" where
  "parse_spec fmt =
     (case parse_flags fmt of (la, pd, f1) \<Rightarrow>
        bnd (parse_width 0 f1) (\<lambda>(w, f2).
          case parse_length f2 of (lg, f3) \<Rightarrow>
            Inr (\<lparr>left_align = la, pad_char = pd, field_width = w, is_long = lg\<rparr>, f3)))"

definition va_int :: "va list \<Rightarrow> (u64 \<times> va list) res" where
  "va_int args = (case args of VInt v # r \<Rightarrow> Inr (v, r) | _ \<Rightarrow> Inl Fault)"

definition va_str :: "va list \<Rightarrow> (u8 list option \<times> va list) res" where
  "va_str args = (case args of VStr s # r \<Rightarrow> Inr (s, r) | _ \<Rightarrow> Inl Fault)"

text \<open>The register as an \<open>int\<close> (sign extended) and as an \<open>unsigned int\<close>.\<close>

definition low_signed :: "u64 \<Rightarrow> u64" where
  "low_signed v = scast (ucast v :: u32)"

definition low_unsigned :: "u64 \<Rightarrow> u64" where
  "low_unsigned v = ucast (ucast v :: u32)"

text \<open>The \<open>switch\<close> of \<open>kprintf\<close> over the conversion character; \<open>string\<close> prints a string argument, in
  \<open>kprintf\<close> padded to the width (\<open>kp_string\<close>).\<close>

definition convert :: "(spec \<Rightarrow> u8 list option \<Rightarrow> u8 list) \<Rightarrow> spec \<Rightarrow> u8 \<Rightarrow> va list \<Rightarrow> (u8 list \<times> va list) res" where
  "convert string sp c args =
     (let w = field_width sp; pd = pad_char sp; lg = is_long sp in
      if c = 115 then bnd (va_str args) (\<lambda>(s, r). Inr (string sp s, r))
      else if c = 100 then bnd (va_int args) (\<lambda>(v, r).
        bnd (kprint_signed (if lg then v else low_signed v) w pd) (\<lambda>out. Inr (out, r)))
      else if c = 117 then bnd (va_int args) (\<lambda>(v, r). Inr (kprint_unsigned (if lg then v else low_unsigned v) 10 w pd False, r))
      else if c = 120 then bnd (va_int args) (\<lambda>(v, r). Inr (kprint_unsigned (if lg then v else low_unsigned v) 16 w pd False, r))
      else if c = 88 then bnd (va_int args) (\<lambda>(v, r). Inr (kprint_unsigned (if lg then v else low_unsigned v) 16 w pd True, r))
      else if c = 112 then bnd (va_int args) (\<lambda>(v, r). Inr ([48, 120] @ kprint_unsigned v 16 16 48 False, r))
      else if c = 99 then bnd (va_int args) (\<lambda>(v, r). Inr ([ucast v], r))
      else if c = 37 then Inr ([37], args)
      else Inr ([37, c], args))"

lemma parse_width_shorter: "parse_width w fmt = Inr (w', fmt') \<Longrightarrow> length fmt' \<le> length fmt"
  by (induction w fmt rule: parse_width.induct) (auto simp: Let_def split: if_splits intro: le_SucI)

lemma parse_flags_shorter: "parse_flags fmt = (la, pd, f) \<Longrightarrow> length f \<le> length fmt"
  by (auto simp: parse_flags_def split: list.splits if_splits)

lemma parse_length_shorter: "parse_length fmt = (lg, f) \<Longrightarrow> length f \<le> length fmt"
  by (auto simp: parse_length_def split: list.splits if_splits)

lemma parse_spec_shorter:
  assumes "parse_spec fmt = Inr (sp, f3)"
  shows "length f3 \<le> length fmt"
proof -
  obtain la pd f1 where f: "parse_flags fmt = (la, pd, f1)" by (rule prod_cases3)
  from assms f obtain w f2 where w: "parse_width 0 f1 = Inr (w, f2)" and r: "(case parse_length f2 of (lg, f3) \<Rightarrow>
      Inr (\<lparr>left_align = la, pad_char = pd, field_width = w, is_long = lg\<rparr>, f3)) = (Inr (sp, f3) :: (spec \<times> u8 list) res)"
    by (auto simp: parse_spec_def res_facts)
  obtain lg g where l: "parse_length f2 = (lg, g)" by (rule prod.exhaust)
  have "g = f3" using r l by simp
  then show ?thesis using parse_flags_shorter [OF f] parse_width_shorter [OF w] parse_length_shorter [OF l] by simp
qed

subsection \<open>\<open>kprintf\<close>\<close>

definition kp_string :: "spec \<Rightarrow> u8 list option \<Rightarrow> u8 list" where
  "kp_string sp s = kprint_string_padded s (field_width sp) (left_align sp)"

text \<open>The characters that a format produces, when \<open>string\<close> prints the string arguments. At the end of
  the format the conversion character is the terminating zero, which is printed after the percent
  sign, and \<open>fmt++\<close> then leaves the string.\<close>

function fmt_chars :: "(spec \<Rightarrow> u8 list option \<Rightarrow> u8 list) \<Rightarrow> u8 list \<Rightarrow> va list \<Rightarrow> u8 list res" where
  "fmt_chars string [] args = Inr []"
| "fmt_chars string (c # cs) args =
     (if c \<noteq> 37 then bnd (fmt_chars string cs args) (\<lambda>out. Inr (c # out))
      else bnd (parse_spec cs) (\<lambda>(sp, f).
        case f of [] \<Rightarrow> Inl Fault
        | d # ds \<Rightarrow> bnd (convert string sp d args) (\<lambda>(out1, r). bnd (fmt_chars string ds r) (\<lambda>out2. Inr (out1 @ out2)))))"
  by pat_completeness auto
termination
proof (relation "measure (\<lambda>(string, f, a). length f)", goal_cases)
  case (3 string c cs args x a f d ds)
  then show ?case using parse_spec_shorter [of cs a "d # ds"] by simp
qed auto

definition kprintf_chars :: "u8 list \<Rightarrow> va list \<Rightarrow> u8 list res" where
  "kprintf_chars fmt args = fmt_chars kp_string fmt args"

record printer =
  uart_out :: "u8 list"
  console_out :: "u8 list"
  klog :: ring_buf

definition kprint_char :: "printer \<Rightarrow> u8 \<Rightarrow> printer" where
  "kprint_char p c = p\<lparr>uart_out := uart_out p @ (if c = 10 then [13] else []) @ [c],
     console_out := console_out p @ [c], klog := klog_putchar (klog p) c\<rparr>"

definition kprintf :: "printer \<Rightarrow> u8 list \<Rightarrow> va list \<Rightarrow> printer res" where
  "kprintf p fmt args = bnd (kprintf_chars fmt args) (\<lambda>cs. Inr (fold (\<lambda>c q. kprint_char q c) cs p))"

subsection \<open>\<open>kvsnprintf\<close>\<close>

record snprintf_ctx =
  buf :: "u8 list"
  bsize :: nat
  pos :: nat

definition snprint_char :: "u8 \<Rightarrow> snprintf_ctx \<Rightarrow> snprintf_ctx" where
  "snprint_char c ctx =
     (let ctx1 = (if pos ctx + 1 < bsize ctx then ctx\<lparr>buf := (buf ctx)[pos ctx := c]\<rparr> else ctx)
      in ctx1\<lparr>pos := pos ctx1 + 1\<rparr>)"

definition snprint_string :: "u8 list option \<Rightarrow> snprintf_ctx \<Rightarrow> snprintf_ctx" where
  "snprint_string s ctx = fold snprint_char (case s of None \<Rightarrow> null_string | Some cs \<Rightarrow> cs) ctx"

definition sn_lo :: "u8 list" where
  "sn_lo = [48, 49, 50, 51, 52, 53, 54, 55, 56, 57, 97, 98, 99, 100, 101, 102]"

definition sn_up :: "u8 list" where
  "sn_up = [48, 49, 50, 51, 52, 53, 54, 55, 56, 57, 65, 66, 67, 68, 69, 70]"

text \<open>\<open>while (val > 0) { tmp[i++] = digits[val % base]; val /= base; }\<close>\<close>

function sn_digit_loop :: "u8 list \<Rightarrow> nat \<Rightarrow> nat \<Rightarrow> u8 list \<Rightarrow> u8 list" where
  "sn_digit_loop digits b n tmp =
     (if n = 0 \<or> b < 2 then tmp else sn_digit_loop digits b (n div b) (tmp @ [digits ! (n mod b)]))"
  by pat_completeness auto
termination
  by (relation "measure (\<lambda>(d, b, n, t). n)") auto

declare sn_digit_loop.simps [simp del]

function sn_pad_loop :: "int \<Rightarrow> int \<Rightarrow> u8 \<Rightarrow> snprintf_ctx \<Rightarrow> snprintf_ctx" where
  "sn_pad_loop i width pad ctx = (if i < width then sn_pad_loop i (width - 1) pad (snprint_char pad ctx) else ctx)"
  by pat_completeness auto
termination
  by (relation "measure (\<lambda>(i, w, p, c). nat (w - i))") auto

declare sn_pad_loop.simps [simp del]

definition snprint_unsigned :: "u64 \<Rightarrow> nat \<Rightarrow> int \<Rightarrow> u8 \<Rightarrow> bool \<Rightarrow> snprintf_ctx \<Rightarrow> snprintf_ctx" where
  "snprint_unsigned val b width pad uppercase ctx =
     (let digits = (if uppercase then sn_up else sn_lo);
          tmp = (if val = 0 then [48] else sn_digit_loop digits b (unat val) []);
          ctx1 = sn_pad_loop (int (length tmp)) width pad ctx
      in fold snprint_char (rev tmp) ctx1)"

definition snprint_signed :: "u64 \<Rightarrow> int \<Rightarrow> u8 \<Rightarrow> snprintf_ctx \<Rightarrow> snprintf_ctx res" where
  "snprint_signed val width pad ctx =
     (if sint val < 0 then
        if val = 2 ^ 63 then Inl Fault
        else Inr (snprint_unsigned (- val) 10 (if 0 < width then width - 1 else width) pad False (snprint_char 45 ctx))
      else Inr (snprint_unsigned val 10 width pad False ctx))"

text \<open>The parser of \<open>kvsnprintf\<close>: padding, width, length.\<close>

definition sn_flags :: "u8 list \<Rightarrow> u8 \<times> u8 list" where
  "sn_flags fmt =
     (case fmt of [] \<Rightarrow> (32, [])
      | c # cs \<Rightarrow> if c = 48 then (48, cs) else if c = 45 then (32, cs) else (32, fmt))"

fun sn_width :: "int \<Rightarrow> u8 list \<Rightarrow> (int \<times> u8 list) res" where
  "sn_width w [] = Inr (w, [])"
| "sn_width w (c # cs) =
     (if 48 \<le> c \<and> c \<le> 57 then
        if w * 10 + (int (unat c) - 48) < 2 ^ 31 then sn_width (w * 10 + (int (unat c) - 48)) cs else Inl Fault
      else Inr (w, c # cs))"

definition sn_length :: "u8 list \<Rightarrow> bool \<times> u8 list" where
  "sn_length fmt =
     (case fmt of [] \<Rightarrow> (False, [])
      | c # cs \<Rightarrow>
          if c = 108 then (case cs of [] \<Rightarrow> (True, []) | d # ds \<Rightarrow> if d = 108 then (True, ds) else (True, cs))
          else (False, fmt))"

definition sn_parse :: "u8 list \<Rightarrow> (u8 \<times> int \<times> bool \<times> u8 list) res" where
  "sn_parse fmt =
     (case sn_flags fmt of (pad, f1) \<Rightarrow>
        bnd (sn_width 0 f1) (\<lambda>(w, f2). case sn_length f2 of (lg, f3) \<Rightarrow> Inr (pad, w, lg, f3)))"

text \<open>The \<open>switch\<close> of \<open>kvsnprintf\<close>.\<close>

definition sn_convert :: "u8 \<Rightarrow> int \<Rightarrow> bool \<Rightarrow> u8 \<Rightarrow> va list \<Rightarrow> snprintf_ctx \<Rightarrow> (snprintf_ctx \<times> va list) res" where
  "sn_convert pad width lg c args ctx =
     (if c = 115 then bnd (va_str args) (\<lambda>(s, r). Inr (snprint_string s ctx, r))
      else if c = 100 then bnd (va_int args) (\<lambda>(v, r).
        bnd (if lg then snprint_signed v width pad ctx else snprint_signed (low_signed v) width pad ctx) (\<lambda>ctx1. Inr (ctx1, r)))
      else if c = 117 then bnd (va_int args) (\<lambda>(v, r).
        Inr (if lg then snprint_unsigned v 10 width pad False ctx else snprint_unsigned (low_unsigned v) 10 width pad False ctx, r))
      else if c = 120 then bnd (va_int args) (\<lambda>(v, r).
        Inr (if lg then snprint_unsigned v 16 width pad False ctx else snprint_unsigned (low_unsigned v) 16 width pad False ctx, r))
      else if c = 88 then bnd (va_int args) (\<lambda>(v, r).
        Inr (if lg then snprint_unsigned v 16 width pad True ctx else snprint_unsigned (low_unsigned v) 16 width pad True ctx, r))
      else if c = 112 then bnd (va_int args) (\<lambda>(v, r).
        Inr (snprint_unsigned v 16 16 48 False (snprint_string (Some [48, 120]) ctx), r))
      else if c = 99 then bnd (va_int args) (\<lambda>(v, r). Inr (snprint_char (ucast v) ctx, r))
      else if c = 37 then Inr (snprint_char 37 ctx, args)
      else Inr (snprint_char c (snprint_char 37 ctx), args))"

lemma sn_width_shorter: "sn_width w fmt = Inr (w', fmt') \<Longrightarrow> length fmt' \<le> length fmt"
  by (induction w fmt rule: sn_width.induct) (auto split: if_splits intro: le_SucI)

lemma sn_parse_shorter:
  assumes "sn_parse fmt = Inr (pad, w, lg, f3)"
  shows "length f3 \<le> length fmt"
proof -
  obtain pd f1 where f: "sn_flags fmt = (pd, f1)" by (rule prod.exhaust)
  from assms f obtain u f2 where u: "sn_width 0 f1 = Inr (u, f2)" "(case sn_length f2 of (lg, f3) \<Rightarrow> Inr (pd, u, lg, f3)) =
      (Inr (pad, w, lg, f3) :: (u8 \<times> int \<times> bool \<times> u8 list) res)"
    by (auto simp: sn_parse_def res_facts)
  have "length f1 \<le> length fmt" using f by (auto simp: sn_flags_def split: list.splits if_splits)
  moreover have "length f3 \<le> length f2" using u(2) by (auto simp: sn_length_def split: list.splits if_splits)
  ultimately show ?thesis using sn_width_shorter [OF u(1)] by simp
qed

function kvsn_loop :: "snprintf_ctx \<Rightarrow> u8 list \<Rightarrow> va list \<Rightarrow> snprintf_ctx res" where
  "kvsn_loop ctx [] args = Inr ctx"
| "kvsn_loop ctx (c # cs) args =
     (if c \<noteq> 37 then kvsn_loop (snprint_char c ctx) cs args
      else bnd (sn_parse cs) (\<lambda>(pad, w, lg, f).
        case f of [] \<Rightarrow> Inl Fault
        | d # ds \<Rightarrow> bnd (sn_convert pad w lg d args ctx) (\<lambda>(ctx1, r). kvsn_loop ctx1 ds r)))"
  by pat_completeness auto
termination
proof (relation "measure (\<lambda>(c, f, a). length f)", goal_cases)
  case (3 ctx c cs args x pad y w z lg f d ds)
  then show ?case using sn_parse_shorter [of cs pad w lg "d # ds"] by simp
qed auto

definition kvsnprintf :: "u8 list \<Rightarrow> nat \<Rightarrow> u8 list \<Rightarrow> va list \<Rightarrow> (u8 list \<times> u32) res" where
  "kvsnprintf b sz fmt args =
     bnd (kvsn_loop \<lparr>buf = b, bsize = sz, pos = 0\<rparr> fmt args) (\<lambda>ctx.
       Inr (if 0 < sz then (buf ctx)[(if pos ctx < sz then pos ctx else sz - 1) := 0] else buf ctx, of_nat (pos ctx)))"

definition ksnprintf :: "u8 list \<Rightarrow> nat \<Rightarrow> u8 list \<Rightarrow> va list \<Rightarrow> (u8 list \<times> u32) res" where
  "ksnprintf b sz fmt args = kvsnprintf b sz fmt args"

subsection \<open>The rate limiter\<close>

record kprintf_ratelimit =
  interval_ticks :: u64
  burst :: u32
  rl_count :: u32
  last_tick :: u64

text \<open>Besides the new state and the verdict: the number of suppressed messages it reports, if any.\<close>

definition kprintf_rl_allow :: "kprintf_ratelimit \<Rightarrow> u64 \<Rightarrow> kprintf_ratelimit \<times> bool \<times> u32 option" where
  "kprintf_rl_allow rl now =
     (let fresh = interval_ticks rl \<le> now - last_tick rl;
          report = (if fresh \<and> burst rl < rl_count rl then Some (rl_count rl - burst rl) else None);
          rl1 = (if fresh then rl\<lparr>last_tick := now, rl_count := 0\<rparr> else rl);
          rl2 = rl1\<lparr>rl_count := rl_count rl1 + 1\<rparr>
      in (rl2, rl_count rl2 \<le> burst rl2, report))"

end
