(* ===== verification/Kprintf_Spec.thy ===== *)
theory Kprintf_Spec
  imports Kprintf
begin

text \<open>
  Properties of formatted printing: printed numbers read back as the number, the digit buffer of
  twenty bytes is never overrun, and formatting into a buffer stores a prefix of the text.
\<close>

subsection \<open>Numbers\<close>

definition digit_val :: "u8 \<Rightarrow> nat" where
  "digit_val c = (if c \<le> 57 then unat c - 48 else if c \<le> 70 then unat c - 55 else unat c - 87)"

definition read_number :: "nat \<Rightarrow> u8 list \<Rightarrow> nat" where
  "read_number b cs = foldl (\<lambda>v c. v * b + digit_val c) 0 cs"

lemma digit_chars:
  assumes "k < 16"
  shows "digit_val (digits_lower ! k) = k" "digit_val (digits_upper ! k) = k"
proof -
  have "k \<in> set [0..<16]" using assms by simp
  moreover have "\<forall>k \<in> set [0..<16]. digit_val (digits_lower ! k) = k \<and> digit_val (digits_upper ! k) = k"
    by (simp add: digit_val_def digits_lower_def digits_upper_def upt_rec word_le_nat_alt)
  ultimately show "digit_val (digits_lower ! k) = k" "digit_val (digits_upper ! k) = k" by blast+
qed

lemma digit_loop_value:
  assumes "2 \<le> b" "b \<le> 16" "\<forall>k < 16. digit_val (digits ! k) = k"
  shows "foldr (\<lambda>c v. v * b + digit_val c) (digit_loop digits b n) 0 = n"
  using assms
proof (induction digits b n rule: digit_loop.induct)
  case (1 digits b n)
  show ?case
  proof (cases "n = 0")
    case False
    then have "foldr (\<lambda>c v. v * b + digit_val c) (digit_loop digits b (n div b)) 0 = n div b" using 1 by simp
    moreover have "n mod b < b" using 1(2) by (intro mod_less_divisor) simp
    then have "n mod b < 16" using 1(3) by simp
    ultimately show ?thesis using False 1 by (subst digit_loop.simps) (simp add: div_mult_mod_eq)
  qed (simp add: digit_loop.simps)
qed

lemma digit_loop_step:
  assumes "2 \<le> b" "0 < n"
  shows "digit_loop digits b n = digits ! (n mod b) # digit_loop digits b (n div b)"
  using assms by (subst digit_loop.simps) simp

lemma digit_loop_nonempty: "2 \<le> b \<Longrightarrow> 0 < n \<Longrightarrow> digit_loop digits b n \<noteq> []"
  by (simp add: digit_loop_step)

lemma digit_loop_length:
  assumes "2 \<le> b" "0 < n"
  shows "b ^ (length (digit_loop digits b n) - 1) \<le> n"
  using assms
proof (induction digits b n rule: digit_loop.induct)
  case (1 digits b n)
  show ?case
  proof (cases "n div b = 0")
    case True
    then show ?thesis using digit_loop_step [OF 1(2,3), of digits] 1(3) by (simp add: digit_loop.simps [of _ _ 0])
  next
    case False
    then have IH: "b ^ (length (digit_loop digits b (n div b)) - 1) \<le> n div b" using 1 by simp
    obtain k where k: "length (digit_loop digits b (n div b)) = Suc k"
      using digit_loop_nonempty [of b "n div b" digits] False 1(2) by (metis length_0_conv not0_implies_Suc neq0_conv)
    have "b ^ (length (digit_loop digits b n) - 1) = b * b ^ k" using digit_loop_step [OF 1(2,3), of digits] k by simp
    also have "\<dots> \<le> b * (n div b)" using IH k by simp
    also have "\<dots> \<le> n" by simp
    finally show ?thesis .
  qed
qed

lemma digit_loop_last:
  assumes "2 \<le> b" "0 < n" "b \<le> 16" "\<forall>k < 16. digit_val (digits ! k) = k"
  shows "0 < digit_val (last (digit_loop digits b n))"
  using assms
proof (induction digits b n rule: digit_loop.induct)
  case (1 digits b n)
  note unf = digit_loop_step [OF 1(2,3), of digits]
  show ?case
  proof (cases "n div b = 0")
    case True
    then have "n mod b = n" "n < b" using 1(2) by (simp_all add: div_eq_0_iff)
    then show ?thesis using unf True 1 by (simp add: digit_loop.simps)
  next
    case False
    then have "digit_loop digits b (n div b) \<noteq> []" using digit_loop_nonempty 1(2) by blast
    then show ?thesis using unf 1 False by simp
  qed
qed

lemma pad_loop_eq: "pad_loop i w pad = replicate (nat (w - i)) pad"
proof (induction i w pad rule: pad_loop.induct)
  case (1 i w pad)
  show ?case
  proof (cases "i < w")
    case True
    then have "nat (w - i) = Suc (nat (w - 1 - i))" by simp
    then show ?thesis using 1 True by (subst pad_loop.simps) simp
  qed (simp add: pad_loop.simps)
qed

lemma unsigned_buf_facts:
  assumes "b = 10 \<or> b = 16"
  shows "read_number b (rev (unsigned_buf val b up)) = unat val" "length (unsigned_buf val b up) \<le> 20" "unsigned_buf val b up \<noteq> []"
    "val \<noteq> 0 \<Longrightarrow> 0 < digit_val (last (unsigned_buf val b up))"
proof -
  let ?d = "if up then digits_upper else digits_lower"
  have b: "2 \<le> b" "b \<le> 16" "10 \<le> b" using assms by auto
  have d: "\<forall>k < 16. digit_val (?d ! k) = k" using digit_chars by simp
  have z: "unsigned_buf val b up = digit_loop ?d b (unat val)" "0 < unat val" if "val \<noteq> 0"
    using that by (simp_all add: unsigned_buf_def unat_gt_0)
  show "read_number b (rev (unsigned_buf val b up)) = unat val"
  proof (cases "val = 0")
    case True
    then show ?thesis by (simp add: unsigned_buf_def read_number_def digit_val_def word_le_nat_alt)
  next
    case False
    then show ?thesis using digit_loop_value [OF b(1,2) d] by (simp add: z(1) read_number_def foldl_conv_foldr)
  qed
  show ne: "unsigned_buf val b up \<noteq> []" using digit_loop_nonempty [OF b(1) z(2)] z(1) by (cases "val = 0") (simp_all add: unsigned_buf_def)
  show "length (unsigned_buf val b up) \<le> 20"
  proof (rule ccontr)
    assume l: "\<not> length (unsigned_buf val b up) \<le> 20"
    then have v: "val \<noteq> 0" by (auto simp: unsigned_buf_def)
    have "(10 :: nat) ^ 20 \<le> b ^ 20" using b(3) by (rule power_mono) simp
    also have "\<dots> \<le> b ^ (length (unsigned_buf val b up) - 1)" using l b by (intro power_increasing) auto
    also have "\<dots> \<le> unat val" using digit_loop_length [OF b(1) z(2) [OF v]] z(1) [OF v] by simp
    also have "\<dots> < 2 ^ 64" by (rule unat_less_64)
    finally show False by simp
  qed
  show "val \<noteq> 0 \<Longrightarrow> 0 < digit_val (last (unsigned_buf val b up))" using digit_loop_last [OF b(1) z(2) b(2) d] z(1) by simp
qed

subsection \<open>Buffers\<close>

lemma snprint_char_fields:
  "bsize (snprint_char c ctx) = bsize ctx" "pos (snprint_char c ctx) = pos ctx + 1"
  "buf (snprint_char c ctx) = (if pos ctx + 1 < bsize ctx then (buf ctx)[pos ctx := c] else buf ctx)"
  by (simp_all add: snprint_char_def Let_def)

definition snprint_chars :: "u8 list \<Rightarrow> snprintf_ctx \<Rightarrow> snprintf_ctx" where
  "snprint_chars cs ctx = fold snprint_char cs ctx"

lemma snprint_chars_fields:
  "bsize (snprint_chars cs ctx) = bsize ctx \<and> pos (snprint_chars cs ctx) = pos ctx + length cs \<and>
   length (buf (snprint_chars cs ctx)) = length (buf ctx) \<and>
   (bsize ctx \<le> length (buf ctx) \<longrightarrow> (\<forall>i < length (buf ctx). buf (snprint_chars cs ctx) ! i =
      (if pos ctx \<le> i \<and> i < pos ctx + length cs \<and> i + 1 < bsize ctx then cs ! (i - pos ctx) else buf ctx ! i)))"
proof (induction cs arbitrary: ctx)
  case (Cons c cs)
  note IH = Cons.IH [of "snprint_char c ctx"]
  have e: "snprint_chars (c # cs) ctx = snprint_chars cs (snprint_char c ctx)" by (simp add: snprint_chars_def)
  have l: "length (buf (snprint_char c ctx)) = length (buf ctx)" by (simp add: snprint_char_fields)
  have "buf (snprint_chars (c # cs) ctx) ! i =
      (if pos ctx \<le> i \<and> i < pos ctx + length (c # cs) \<and> i + 1 < bsize ctx then (c # cs) ! (i - pos ctx) else buf ctx ! i)"
    if i: "i < length (buf ctx)" and b: "bsize ctx \<le> length (buf ctx)" for i
  proof -
    have r: "buf (snprint_chars cs (snprint_char c ctx)) ! i =
        (if pos ctx + 1 \<le> i \<and> i < pos ctx + 1 + length cs \<and> i + 1 < bsize ctx then cs ! (i - (pos ctx + 1)) else buf (snprint_char c ctx) ! i)"
      using IH i b l by (simp add: snprint_char_fields)
    show ?thesis
    proof (cases "i = pos ctx")
      case True
      then show ?thesis using r i by (simp add: e snprint_char_fields nth_upd)
    next
      case False
      then have "(c # cs) ! (i - pos ctx) = cs ! (i - (pos ctx + 1))" if "pos ctx \<le> i" using that by (simp add: nth_Cons')
      then show ?thesis using r False by (auto simp: e snprint_char_fields)
    qed
  qed
  then show ?case using IH l by (simp add: e snprint_char_fields)
qed (auto simp: snprint_chars_def)

lemma snprint_chars_append: "snprint_chars (xs @ ys) ctx = snprint_chars ys (snprint_chars xs ctx)"
  by (simp add: snprint_chars_def)

subsection \<open>The two formatters\<close>

text \<open>\<open>kvsnprintf\<close> has its own copies of the number printers, the parser and the \<open>switch\<close> of \<open>kprintf\<close>. Each
  writes the characters that its counterpart produces.\<close>

lemma snprint_chars_simps: "snprint_chars [] ctx = ctx" "snprint_chars (c # cs) ctx = snprint_chars cs (snprint_char c ctx)"
  by (simp_all add: snprint_chars_def)

lemma sn_digits: "sn_lo = digits_lower" "sn_up = digits_upper"
  by (simp_all add: sn_lo_def sn_up_def digits_lower_def digits_upper_def)

lemma sn_digit_loop_eq: "sn_digit_loop digits b n tmp = tmp @ digit_loop digits b n"
proof (induction digits b n tmp rule: sn_digit_loop.induct)
  case (1 digits b n tmp)
  then show ?case by (subst sn_digit_loop.simps, subst digit_loop.simps) simp
qed

lemma sn_pad_loop_eq: "sn_pad_loop i w pad ctx = snprint_chars (pad_loop i w pad) ctx"
proof (induction i w pad ctx rule: sn_pad_loop.induct)
  case (1 i w pad ctx)
  then show ?case by (subst sn_pad_loop.simps, subst pad_loop.simps) (simp add: snprint_chars_simps)
qed

lemma snprint_unsigned_eq: "snprint_unsigned val b w pad up ctx = snprint_chars (kprint_unsigned val b w pad up) ctx"
proof -
  have "(if val = 0 then [48] else sn_digit_loop (if up then sn_up else sn_lo) b (unat val) []) = unsigned_buf val b up"
    by (simp add: unsigned_buf_def sn_digits sn_digit_loop_eq)
  then show ?thesis
    unfolding snprint_unsigned_def kprint_unsigned_def Let_def snprint_chars_append sn_pad_loop_eq by (simp add: snprint_chars_def)
qed

lemma snprint_signed_eq:
  "snprint_signed val w pad ctx = bnd (kprint_signed val w pad) (\<lambda>out. Inr (snprint_chars out ctx))"
  by (simp add: snprint_signed_def kprint_signed_def snprint_unsigned_eq snprint_chars_simps)

lemma sn_flags_eq: "sn_flags fmt = (case parse_flags fmt of (la, pd, f) \<Rightarrow> (pd, f))"
  by (auto simp: sn_flags_def parse_flags_def split: list.splits)

lemma sn_width_eq: "sn_width w fmt = parse_width w fmt"
proof (induction w fmt rule: parse_width.induct)
  case (2 w c cs)
  have "int (unat (c - 48)) = int (unat c) - 48" if "48 \<le> c"
    using that by (simp add: unat_sub word_le_nat_alt)
  then show ?case using 2 by (auto simp: Let_def)
qed simp

lemma sn_length_eq: "sn_length fmt = parse_length fmt"
  by (auto simp: sn_length_def parse_length_def split: list.splits)

lemma sn_parse_eq:
  "sn_parse fmt = bnd (parse_spec fmt) (\<lambda>(sp, f). Inr (pad_char sp, field_width sp, is_long sp, f))"
  by (cases "parse_flags fmt"; cases "parse_width 0 (snd (snd (parse_flags fmt)))")
    (auto simp: sn_parse_def parse_spec_def sn_flags_eq sn_width_eq sn_length_eq split: prod.splits)

text \<open>The string conversion of \<open>kvsnprintf\<close> pads nothing.\<close>

definition sn_string :: "spec \<Rightarrow> u8 list option \<Rightarrow> u8 list" where
  "sn_string sp s = the_string s"

lemma sn_convert_eq:
  "sn_convert (pad_char sp) (field_width sp) (is_long sp) c args ctx =
    bnd (convert sn_string sp c args) (\<lambda>(out, r). Inr (snprint_chars out ctx, r))"
proof (cases args)
  case Nil
  then show ?thesis by (simp add: sn_convert_def convert_def va_str_def va_int_def snprint_chars_simps)
next
  case (Cons a as)
  have st: "snprint_string s ctx = snprint_chars (the_string s) ctx" for s ctx
    by (simp add: snprint_string_def the_string_def snprint_chars_def)
  have px: "snprint_chars (48 # 120 # xs) ctx = snprint_chars xs (snprint_chars [48, 120] ctx)" for xs ctx
    by (simp add: snprint_chars_simps)
  show ?thesis
  proof (cases a)
    case (VInt v)
    then show ?thesis using Cons unfolding sn_convert_def convert_def Let_def
      by (cases "kprint_signed v (field_width sp) (pad_char sp)"; cases "kprint_signed (low_signed v) (field_width sp) (pad_char sp)")
        (auto simp: va_str_def va_int_def snprint_chars_simps snprint_unsigned_eq snprint_signed_eq st the_string_def)
  next
    case (VStr s)
    then show ?thesis using Cons
      by (simp add: sn_convert_def convert_def va_str_def va_int_def snprint_chars_simps st sn_string_def)
  qed
qed

lemma kvsn_loop_text:
  "kvsn_loop ctx fmt args = bnd (fmt_chars sn_string fmt args) (\<lambda>out. Inr (snprint_chars out ctx))"
proof (induction ctx fmt args rule: kvsn_loop.induct)
  case (1 ctx args)
  then show ?case by (simp add: snprint_chars_simps)
next
  case (2 ctx c cs args)
  show ?case
  proof (cases "c = 37")
    case False
    then have "kvsn_loop ctx (c # cs) args = kvsn_loop (snprint_char c ctx) cs args" by simp
    also have "\<dots> = bnd (fmt_chars sn_string cs args) (\<lambda>out. Inr (snprint_chars out (snprint_char c ctx)))"
      by (rule "2.IH"(1)) (use False in simp)
    finally show ?thesis using False by (cases "fmt_chars sn_string cs args") (simp_all add: snprint_chars_simps)
  next
    case True
    show ?thesis
    proof (cases "parse_spec cs")
      case (Inl e)
      then show ?thesis using True by (simp add: sn_parse_eq)
    next
      case (Inr x)
      then obtain sp f where p: "parse_spec cs = Inr (sp, f)" by (metis prod.exhaust)
      then have sp: "sn_parse cs = Inr (pad_char sp, field_width sp, is_long sp, f)" by (simp add: sn_parse_eq)
      show ?thesis
      proof (cases f)
        case Nil
        then show ?thesis using True p sp by simp
      next
        case (Cons d ds)
        show ?thesis
        proof (cases "convert sn_string sp d args")
          case (Inl e)
          then show ?thesis using True p sp Cons by (simp add: sn_convert_eq)
        next
          case (Inr y)
          then obtain out1 r where v: "convert sn_string sp d args = Inr (out1, r)" by (metis prod.exhaust)
          then have sv: "sn_convert (pad_char sp) (field_width sp) (is_long sp) d args ctx = Inr (snprint_chars out1 ctx, r)"
            by (simp add: sn_convert_eq)
          have IH: "kvsn_loop (snprint_chars out1 ctx) ds r =
              bnd (fmt_chars sn_string ds r) (\<lambda>out. Inr (snprint_chars out (snprint_chars out1 ctx)))"
            by (rule "2.IH"(2) [OF _ sp refl refl refl Cons sv refl]) (use True in simp)
          then show ?thesis using True p sp Cons v sv by (cases "fmt_chars sn_string ds r") (simp_all add: snprint_chars_append)
        qed
      qed
    qed
  qed
qed

text \<open>Formats whose string conversions have no width.\<close>

definition plain_spec :: "spec \<Rightarrow> u8 \<Rightarrow> bool" where
  "plain_spec sp d \<longleftrightarrow> d = 115 \<longrightarrow> field_width sp = 0"

function plain :: "u8 list \<Rightarrow> bool" where
  "plain [] = True"
| "plain (c # cs) =
     (if c \<noteq> 37 then plain cs
      else (case parse_spec cs of Inl e \<Rightarrow> True
        | Inr (sp, f) \<Rightarrow> (case f of [] \<Rightarrow> True | d # ds \<Rightarrow> plain_spec sp d \<and> plain ds)))"
  by pat_completeness auto
termination
proof (relation "measure length", goal_cases)
  case (3 c cs x sp f d ds)
  then show ?case using parse_spec_shorter [of cs sp "d # ds"] by simp
qed auto

lemma plain_convert: "plain_spec sp d \<Longrightarrow> convert kp_string sp d args = convert sn_string sp d args"
  by (auto simp: convert_def Let_def plain_spec_def kp_string_def sn_string_def kprint_string_padded_def)

lemma plain_same_text: "plain fmt \<Longrightarrow> fmt_chars kp_string fmt args = fmt_chars sn_string fmt args"
proof (induction fmt arbitrary: args rule: plain.induct)
  case (2 c cs)
  show ?case
  proof (cases "c = 37")
    case False
    then show ?thesis using 2 by simp
  next
    case True
    show ?thesis
    proof (cases "parse_spec cs")
      case (Inr x)
      then obtain sp f where p: "parse_spec cs = Inr (sp, f)" by (metis prod.exhaust)
      show ?thesis
      proof (cases f)
        case (Cons d ds)
        then have "plain_spec sp d" "plain ds" using "2.prems" True p by simp_all
        moreover have "fmt_chars kp_string ds r = fmt_chars sn_string ds r" for r
          by (rule "2.IH"(2) [OF _ p refl Cons]) (use True calculation in simp_all)
        ultimately show ?thesis using True p Cons plain_convert by simp
      qed (use True p in simp)
    qed (use True in simp)
  qed
qed simp

subsection \<open>Properties\<close>

text \<open>C29: printing a number. For base 10 and 16 the digits that \<open>kprint_unsigned\<close> prints read back as
  the number, start with a zero only for the number zero, fit the buffer of twenty bytes, and the
  whole field is as wide as the digits or the requested width, whichever is more.\<close>

theorem kprint_unsigned_correct:
  assumes "b = 10 \<or> b = 16"
  shows "\<exists>digits. kprint_unsigned val b width pad up = replicate (nat (width - int (length digits))) pad @ digits \<and>
    read_number b digits = unat val \<and> 0 < length digits \<and> length digits \<le> 20 \<and> (digit_val (hd digits) = 0 \<longrightarrow> val = 0) \<and>
    int (length (kprint_unsigned val b width pad up)) = max width (int (length digits))"
proof -
  note U = unsigned_buf_facts [OF assms, of val up]
  let ?d = "rev (unsigned_buf val b up)"
  have k: "kprint_unsigned val b width pad up = replicate (nat (width - int (length ?d))) pad @ ?d"
    by (simp add: kprint_unsigned_def Let_def pad_loop_eq)
  have "digit_val (hd ?d) = 0 \<longrightarrow> val = 0" using U(3,4) by (cases "val = 0") (simp_all add: hd_rev)
  moreover have "int (length (kprint_unsigned val b width pad up)) = max width (int (length ?d))" unfolding k by simp
  ultimately show ?thesis using k U(1-3) by (intro exI [of _ ?d]) simp
qed

theorem kprint_unsigned_correct_witness:
  "\<exists>digits. kprint_unsigned 255 16 4 48 False = replicate (nat (4 - int (length digits))) 48 @ digits \<and> read_number 16 digits = 255"
  using kprint_unsigned_correct [of 16 255 4 48 False] by auto

text \<open>What is in the buffer after the characters \<open>out\<close> and the closing zero.\<close>

definition stored :: "u8 list \<Rightarrow> nat \<Rightarrow> u8 list \<Rightarrow> u8 list" where
  "stored b sz out = (if sz = 0 then b else take (sz - 1) out @ 0 # drop (Suc (length (take (sz - 1) out))) b)"

lemma terminated_buffer:
  assumes "0 < sz" "sz \<le> length b" "length c = length b"
    and c: "\<And>i. i < length b \<Longrightarrow> c ! i = (if i < length out \<and> i + 1 < sz then out ! i else b ! i)"
  shows "c[(if length out < sz then length out else sz - 1) := 0] = stored b sz out" (is "c[?k := 0] = _")
proof (rule nth_equalityI)
  let ?n = "length (take (sz - 1) out)"
  have k: "?k = ?n" and st: "stored b sz out = take (sz - 1) out @ 0 # drop (Suc ?n) b" using assms(1) by (auto simp: stored_def)
  show "length (c[?k := 0]) = length (stored b sz out)" unfolding st using assms(1-3) by auto
  fix i assume "i < length (c[?k := 0])"
  then have l: "i < length b" using assms(3) by simp
  consider "i < ?n" | "i = ?n" | "?n < i" by linarith
  then show "c[?k := 0] ! i = stored b sz out ! i"
  proof cases
    case 1
    then show ?thesis unfolding st using l c [of i] k assms(1) by (auto simp: nth_append)
  next
    case 2
    then show ?thesis unfolding st using l assms(3) k by (simp add: nth_append)
  next
    case 3
    then have "(take (sz - 1) out @ 0 # drop (Suc ?n) b) ! i = b ! i" using l by (auto simp: nth_append nth_Cons')
    moreover have "c[?k := 0] ! i = b ! i" using 3 l c [of i] k by auto
    ultimately show ?thesis unfolding st by simp
  qed
qed

lemma kvsnprintf_text:
  assumes "sz \<le> length b" "fmt_chars sn_string fmt args = Inr out"
  shows "kvsnprintf b sz fmt args = Inr (stored b sz out, of_nat (length out))"
proof -
  let ?c = "snprint_chars out \<lparr>buf = b, bsize = sz, pos = 0\<rparr>"
  let ?k = "if length out < sz then length out else sz - 1"
  have f: "pos ?c = length out" "length (buf ?c) = length b"
    "\<And>i. i < length b \<Longrightarrow> buf ?c ! i = (if i < length out \<and> i + 1 < sz then out ! i else b ! i)"
    using snprint_chars_fields [of out "\<lparr>buf = b, bsize = sz, pos = 0\<rparr>"] assms(1) by auto
  have k: "kvsnprintf b sz fmt args = Inr (if 0 < sz then (buf ?c)[?k := 0] else buf ?c, of_nat (length out))"
    using assms(2) f(1) by (simp add: kvsnprintf_def kvsn_loop_text)
  show ?thesis
  proof (cases "sz = 0")
    case True
    then have "buf ?c = b" by (intro nth_equalityI) (use f in auto)
    then show ?thesis unfolding k using True by (simp add: stored_def)
  next
    case False
    then have z: "0 < sz" by simp
    have "(buf ?c)[?k := 0] = stored b sz out" by (rule terminated_buffer [OF z assms(1) f(2)]) (rule f(3))
    then show ?thesis unfolding k if_P [OF z] by (simp only:)
  qed
qed

text \<open>C28: formatting into a buffer. \<open>kvsnprintf\<close> has its own parser, its own \<open>switch\<close> and its own number printers. For every
  format and argument list the text they produce is the one of \<open>kprintf\<close>'s parser and \<open>switch\<close>, except that strings are
  not padded; so for formats without widths on strings it is exactly the text that \<open>kprintf\<close> prints, and both fail on the
  same formats and arguments. Into a buffer of \<open>size\<close> bytes \<open>kvsnprintf\<close> stores the first \<open>size - 1\<close> characters of the text
  followed by a zero byte; no byte after that zero, and with size 0 no byte at all, is written. It returns the length of
  the whole text, also when it is cut, as a 32-bit number.\<close>

theorem kvsnprintf_correct:
  assumes "sz \<le> length b"
  shows "kvsnprintf b sz fmt args =
    (case fmt_chars sn_string fmt args of Inl e \<Rightarrow> Inl e
     | Inr out \<Rightarrow> Inr (if sz = 0 then b else take (sz - 1) out @ 0 # drop (Suc (length (take (sz - 1) out))) b, of_nat (length out))) \<and>
    (plain fmt \<longrightarrow> fmt_chars sn_string fmt args = kprintf_chars fmt args)"
proof -
  have "kvsnprintf b sz fmt args = Inl e" if "fmt_chars sn_string fmt args = Inl e" for e
    using that by (simp add: kvsnprintf_def kvsn_loop_text)
  then show ?thesis
    using kvsnprintf_text [OF assms, of fmt args] plain_same_text [of fmt args]
    by (simp add: kprintf_chars_def stored_def split: sum.split)
qed

theorem kvsnprintf_correct_witness:
  "kvsnprintf [1, 1, 1, 1, 1] 4 [97, 37, 99, 37, 37, 100] [VInt 98] = Inr ([97, 98, 37, 0, 1], 4)"
  using kvsnprintf_correct [of 4 "[1, 1, 1, 1, 1]" "[97, 37, 99, 37, 37, 100]" "[VInt 98]"]
  by (simp add: parse_spec_def parse_flags_def parse_length_def convert_def va_int_def word_le_nat_alt)

end
