(* ===== verification/Ktimer.thy ===== *)
theory Ktimer
  imports Prelude
begin

text \<open>
  The timer wheel of \<open>kernel/ktimer.c\<close>: timers are hashed by their expiry tick into 256 slots
  and every timer interrupt processes one slot.

  A timer structure is an entry of a store indexed by its address, and a slot is the list of the
  timers linked into it, in order. Each function is one step under \<open>timer_lock\<close>. A callback is a
  parameter that acts on the rest of the machine; it runs while the lock is released, and the model
  covers callbacks that leave the wheel alone.
\<close>

record ktimer =
  expires :: u64
  interval :: u64
  callback :: nat
  targ :: u64
  active :: bool

record timers =
  timer_wheel :: "nat list list"
  tm :: "nat \<Rightarrow> ktimer"
  active_timers :: u32
  timer_subsystem_ready :: bool

definition TIMER_WHEEL_SIZE :: nat where
  "TIMER_WHEEL_SIZE = 256"

definition TIMER_WHEEL_MASK :: u64 where
  "TIMER_WHEEL_MASK = 255"

definition ktimer_init_subsystem :: "timers \<Rightarrow> timers" where
  "ktimer_init_subsystem s =
     s\<lparr>timer_wheel := replicate TIMER_WHEEL_SIZE [], active_timers := 0, timer_subsystem_ready := True\<rparr>"

definition ktimer_init :: "nat \<Rightarrow> u64 \<Rightarrow> ktimer" where
  "ktimer_init fn arg = \<lparr>expires = 0, interval = 0, callback = fn, targ = arg, active = False\<rparr>"

definition slot_of :: "u64 \<Rightarrow> nat" where
  "slot_of e = unat (e AND TIMER_WHEEL_MASK)"

text \<open>\<open>list_remove_node\<close> unlinks a node from the list it is in.\<close>

definition unlink :: "nat \<Rightarrow> timers \<Rightarrow> timers" where
  "unlink t s = s\<lparr>timer_wheel := map (filter (\<lambda>u. u \<noteq> t)) (timer_wheel s)\<rparr>"

definition timer_insert :: "nat \<Rightarrow> timers \<Rightarrow> timers" where
  "timer_insert t s =
     (let slot = slot_of (expires (tm s t)) in
      s\<lparr>timer_wheel := (timer_wheel s)[slot := timer_wheel s ! slot @ [t]],
        tm := (tm s)(t := (tm s t)\<lparr>active := True\<rparr>),
        active_timers := active_timers s + 1\<rparr>)"

definition drop_active :: "nat \<Rightarrow> timers \<Rightarrow> timers" where
  "drop_active t s = (if active (tm s t) then (unlink t s)\<lparr>active_timers := active_timers s - 1\<rparr> else s)"

definition ms_to_ticks :: "u64 \<Rightarrow> u64" where
  "ms_to_ticks ms = (let ticks = ms div 10 in if ticks = 0 then 1 else ticks)"

definition ktimer_start :: "u64 \<Rightarrow> nat \<Rightarrow> u64 \<Rightarrow> timers \<Rightarrow> timers" where
  "ktimer_start now t delay_ms s =
     (let s1 = drop_active t s;
          s2 = s1\<lparr>tm := (tm s1)(t := (tm s1 t)\<lparr>expires := now + ms_to_ticks delay_ms, interval := 0\<rparr>)\<rparr>
      in timer_insert t s2)"

definition ktimer_start_repeating :: "u64 \<Rightarrow> nat \<Rightarrow> u64 \<Rightarrow> timers \<Rightarrow> timers" where
  "ktimer_start_repeating now t interval_ms s =
     (let s1 = drop_active t s; ticks = ms_to_ticks interval_ms;
          s2 = s1\<lparr>tm := (tm s1)(t := (tm s1 t)\<lparr>expires := now + ticks, interval := ticks\<rparr>)\<rparr>
      in timer_insert t s2)"

definition ktimer_cancel :: "nat \<Rightarrow> timers \<Rightarrow> timers" where
  "ktimer_cancel t s =
     (if active (tm s t) then
        let s1 = unlink t s
        in s1\<lparr>tm := (tm s1)(t := (tm s1 t)\<lparr>active := False\<rparr>), active_timers := active_timers s1 - 1\<rparr>
      else s)"

text \<open>\<open>pos->next\<close>: the node after \<open>t\<close>, or the sentinel.\<close>

fun next_in :: "nat list \<Rightarrow> nat \<Rightarrow> nat option" where
  "next_in [] t = None"
| "next_in (u # us) t = (if u = t then (case us of [] \<Rightarrow> None | v # vs \<Rightarrow> Some v) else next_in us t)"

definition fire :: "(nat \<Rightarrow> u64 \<Rightarrow> 'w \<Rightarrow> 'w) \<Rightarrow> u64 \<Rightarrow> nat \<Rightarrow> timers \<times> 'w \<Rightarrow> timers \<times> 'w" where
  "fire cb now t sw =
     (let s = fst sw; s1 = unlink t s;
          s2 = s1\<lparr>tm := (tm s1)(t := (tm s1 t)\<lparr>active := False\<rparr>), active_timers := active_timers s1 - 1\<rparr>;
          w' = cb (callback (tm s2 t)) (targ (tm s2 t)) (snd sw)
      in if 0 < interval (tm s2 t) then
           (timer_insert t (s2\<lparr>tm := (tm s2)(t := (tm s2 t)\<lparr>expires := now + interval (tm s2 t)\<rparr>)\<rparr>), w')
         else (s2, w'))"

text \<open>\<open>list_for_each_safe\<close>: the next node is read before the body runs. Fuel counts the nodes
  that are visited.\<close>

fun tick_loop :: "nat \<Rightarrow> (nat \<Rightarrow> u64 \<Rightarrow> 'w \<Rightarrow> 'w) \<Rightarrow> u64 \<Rightarrow> nat \<Rightarrow> nat option \<Rightarrow> timers \<times> 'w \<Rightarrow> (timers \<times> 'w) option" where
  "tick_loop fuel cb now slot None sw = Some sw"
| "tick_loop 0 cb now slot (Some t) sw = None"
| "tick_loop (Suc fuel) cb now slot (Some t) sw =
     (let tmp = next_in (timer_wheel (fst sw) ! slot) t
      in tick_loop fuel cb now slot tmp (if expires (tm (fst sw) t) \<le> now then fire cb now t sw else sw))"

definition ktimer_tick :: "(nat \<Rightarrow> u64 \<Rightarrow> 'w \<Rightarrow> 'w) \<Rightarrow> u64 \<Rightarrow> timers \<Rightarrow> 'w \<Rightarrow> (timers \<times> 'w) option" where
  "ktimer_tick cb now s w =
     (if \<not> timer_subsystem_ready s then Some (s, w)
      else let slot = slot_of now in
        case timer_wheel s ! slot of
          [] \<Rightarrow> Some (s, w)
        | t # ts \<Rightarrow> tick_loop (2 * length (timer_wheel s ! slot)) cb now slot (Some t) (s, w))"

definition ktimer_active_count :: "timers \<Rightarrow> u32" where
  "ktimer_active_count s = active_timers s"

subsection \<open>The state of the wheel\<close>

text \<open>After tick \<open>now\<close>: the slots hold exactly the active timers, each once and in the slot of its
  expiry, no expiry is in the past, and the counter counts them.\<close>

definition pending :: "timers \<Rightarrow> nat set" where
  "pending s = {t. active (tm s t)}"

definition linked :: "timers \<Rightarrow> bool" where
  "linked s \<longleftrightarrow> length (timer_wheel s) = TIMER_WHEEL_SIZE \<and>
     (\<forall>i < TIMER_WHEEL_SIZE. distinct (timer_wheel s ! i) \<and>
        set (timer_wheel s ! i) = {t \<in> pending s. slot_of (expires (tm s t)) = i}) \<and>
     finite (pending s) \<and> active_timers s = of_nat (card (pending s)) \<and> timer_subsystem_ready s"

definition wheel_ok :: "u64 \<Rightarrow> timers \<Rightarrow> bool" where
  "wheel_ok now s \<longleftrightarrow> linked s \<and> (\<forall>t \<in> pending s. now < expires (tm s t))"

lemma slot_of_less [simp]: "slot_of e < TIMER_WHEEL_SIZE"
proof -
  have "e AND 255 \<le> (255 :: u64)" by (simp add: word_and_le1)
  then show ?thesis by (simp add: slot_of_def TIMER_WHEEL_MASK_def TIMER_WHEEL_SIZE_def word_le_nat_alt)
qed

lemma linkedD:
  assumes "linked s"
  shows "length (timer_wheel s) = TIMER_WHEEL_SIZE" "finite (pending s)" "active_timers s = of_nat (card (pending s))"
    "i < TIMER_WHEEL_SIZE \<Longrightarrow> distinct (timer_wheel s ! i)"
    "i < TIMER_WHEEL_SIZE \<Longrightarrow> set (timer_wheel s ! i) = {t \<in> pending s. slot_of (expires (tm s t)) = i}"
    "timer_subsystem_ready s"
  using assms by (auto simp: linked_def)

text \<open>Linking an inactive timer, and taking an active one out.\<close>

lemma linked_insert:
  assumes l: "linked s" and t: "t \<notin> pending s" and e: "tm s' = (tm s)(t := k)"
    "timer_wheel s' = timer_wheel s" "active_timers s' = active_timers s" "timer_subsystem_ready s'"
  shows "linked (timer_insert t s')" "pending (timer_insert t s') = insert t (pending s)"
    "tm (timer_insert t s') = (tm s)(t := k\<lparr>active := True\<rparr>)"
proof -
  note L = linkedD [OF l]
  show T: "tm (timer_insert t s') = (tm s)(t := k\<lparr>active := True\<rparr>)" by (simp add: timer_insert_def Let_def e)
  then show p: "pending (timer_insert t s') = insert t (pending s)" by (auto simp: pending_def)
  have w: "timer_wheel (timer_insert t s') ! i = (if i = slot_of (expires k) then timer_wheel s ! i @ [t] else timer_wheel s ! i)"
    if "i < TIMER_WHEEL_SIZE" for i
    using that L(1) by (simp add: timer_insert_def Let_def e nth_list_update)
  have "distinct (timer_wheel (timer_insert t s') ! i) \<and>
      set (timer_wheel (timer_insert t s') ! i) = {u \<in> pending (timer_insert t s'). slot_of (expires (tm (timer_insert t s') u)) = i}"
    if i: "i < TIMER_WHEEL_SIZE" for i
    using L(4,5) [OF i] t unfolding w [OF i] p T by auto
  moreover have "active_timers (timer_insert t s') = of_nat (card (pending (timer_insert t s')))"
    using L(2,3) t unfolding p by (simp add: timer_insert_def Let_def e)
  ultimately show "linked (timer_insert t s')"
    using L(1,2) p e(4) unfolding linked_def by (simp add: timer_insert_def Let_def e)
qed

lemma linked_unlink:
  assumes l: "linked s" and t: "t \<in> pending s" and e: "tm s' = (tm s)(t := k)" "\<not> active k"
    "timer_wheel s' = timer_wheel (unlink t s)" "active_timers s' = active_timers s - 1" "timer_subsystem_ready s'"
  shows "linked s'" "pending s' = pending s - {t}"
proof -
  note L = linkedD [OF l]
  show p: "pending s' = pending s - {t}" using e(1,2) by (auto simp: pending_def)
  have w: "timer_wheel s' ! i = filter (\<lambda>u. u \<noteq> t) (timer_wheel s ! i)" if "i < TIMER_WHEEL_SIZE" for i
    using that L(1) e(3) by (simp add: unlink_def)
  have "distinct (timer_wheel s' ! i) \<and> set (timer_wheel s' ! i) = {u \<in> pending s'. slot_of (expires (tm s' u)) = i}"
    if i: "i < TIMER_WHEEL_SIZE" for i
    using L(4,5) [OF i] unfolding w [OF i] p e(1) by auto
  moreover have "card (pending s) = Suc (card (pending s'))" unfolding p using t L(2) 
    by (simp only: card_Suc_Diff1)
  then have "active_timers s' = of_nat (card (pending s'))" using L(3) e(4) by simp
  ultimately show "linked s'" using L(1,2) p e(3,5) unfolding linked_def by (simp add: unlink_def)
qed

subsection \<open>Starting and cancelling\<close>

lemma linked_start:
  assumes l: "linked s" and k: "k = (tm s t)\<lparr>expires := e, interval := i\<rparr>"
  defines "s1 \<equiv> drop_active t s"
  shows "linked (timer_insert t (s1\<lparr>tm := (tm s1)(t := (tm s1 t)\<lparr>expires := e, interval := i\<rparr>)\<rparr>))"
    "tm (timer_insert t (s1\<lparr>tm := (tm s1)(t := (tm s1 t)\<lparr>expires := e, interval := i\<rparr>)\<rparr>)) = (tm s)(t := k\<lparr>active := True\<rparr>)"
proof -
  let ?s2 = "s1\<lparr>tm := (tm s1)(t := (tm s1 t)\<lparr>expires := e, interval := i\<rparr>)\<rparr>"
  have T: "tm s1 = tm s" "timer_subsystem_ready s1" using linkedD(6) [OF l] by (simp_all add: s1_def drop_active_def unlink_def)
  let ?k0 = "(tm s t)\<lparr>active := False\<rparr>"
  let ?s0 = "s1\<lparr>tm := (tm s)(t := ?k0)\<rparr>"
  have "linked ?s0 \<and> t \<notin> pending ?s0"
  proof (cases "active (tm s t)")
    case True
    then show ?thesis using linked_unlink [OF l, of t ?s0 ?k0] linkedD(6) [OF l]
      by (simp add: s1_def drop_active_def pending_def unlink_def)
  next
    case False
    then have "?s0 = s" by (simp add: s1_def drop_active_def) (metis (full_types) fun_upd_triv ktimer.surjective ktimer.update_convs(5) timers.surjective timers.update_convs(2))
    then show ?thesis using False l by (simp add: pending_def)
  qed
  then have "linked (timer_insert t ?s2) \<and> tm (timer_insert t ?s2) = (tm ?s0)(t := k\<lparr>active := True\<rparr>)"
    using linked_insert(1,3) [of ?s0 t ?s2 k] T k by simp
  then show "linked (timer_insert t ?s2)" "tm (timer_insert t ?s2) = (tm s)(t := k\<lparr>active := True\<rparr>)" by simp_all
qed

lemma ktimer_start_wheel:
  assumes "wheel_ok now s" "now < now + ms_to_ticks d"
  shows "wheel_ok now (ktimer_start now t d s)" "wheel_ok now (ktimer_start_repeating now t d s)"
    "tm (ktimer_start now t d s) = (tm s)(t := (tm s t)\<lparr>expires := now + ms_to_ticks d, interval := 0, active := True\<rparr>)"
    "tm (ktimer_start_repeating now t d s) =
      (tm s)(t := (tm s t)\<lparr>expires := now + ms_to_ticks d, interval := ms_to_ticks d, active := True\<rparr>)"
proof -
  have l: "linked s" using assms by (simp add: wheel_ok_def)
  note S = linked_start [OF l refl, where t = t and e = "now + ms_to_ticks d"]
  show a: "tm (ktimer_start now t d s) = (tm s)(t := (tm s t)\<lparr>expires := now + ms_to_ticks d, interval := 0, active := True\<rparr>)"
    using S(2) [of 0] by (simp add: ktimer_start_def Let_def)
  show b: "tm (ktimer_start_repeating now t d s) =
      (tm s)(t := (tm s t)\<lparr>expires := now + ms_to_ticks d, interval := ms_to_ticks d, active := True\<rparr>)"
    using S(2) [of "ms_to_ticks d"] by (simp add: ktimer_start_repeating_def Let_def)
  have "linked (ktimer_start now t d s)" "linked (ktimer_start_repeating now t d s)"
    using S(1) [of 0] S(1) [of "ms_to_ticks d"] by (simp_all add: ktimer_start_def ktimer_start_repeating_def Let_def)
  then show "wheel_ok now (ktimer_start now t d s)" "wheel_ok now (ktimer_start_repeating now t d s)"
    using assms by (simp_all add: wheel_ok_def pending_def a b)
qed

lemma ktimer_cancel_wheel:
  assumes "wheel_ok now s"
  shows "wheel_ok now (ktimer_cancel t s)" "tm (ktimer_cancel t s) = (tm s)(t := (tm s t)\<lparr>active := False\<rparr>)"
proof -
  have l: "linked s" using assms by (simp add: wheel_ok_def)
  show T: "tm (ktimer_cancel t s) = (tm s)(t := (tm s t)\<lparr>active := False\<rparr>)"
    by (auto simp: ktimer_cancel_def Let_def unlink_def fun_eq_iff)
  have "linked (ktimer_cancel t s)"
  proof (cases "active (tm s t)")
    case True
    then show ?thesis
      by (intro linked_unlink(1) [OF l, of t _ "(tm s t)\<lparr>active := False\<rparr>"])
        (use linkedD(6) [OF l] in \<open>simp_all add: ktimer_cancel_def Let_def unlink_def pending_def\<close>)
  qed (simp add: ktimer_cancel_def l)
  then show "wheel_ok now (ktimer_cancel t s)" using assms by (auto simp: wheel_ok_def pending_def T split: if_splits)
qed

subsection \<open>A tick\<close>

definition hd_opt :: "'a list \<Rightarrow> 'a option" where
  "hd_opt xs = (case xs of [] \<Rightarrow> None | x # _ \<Rightarrow> Some x)"

lemma hd_opt_simps [simp]: "hd_opt [] = None" "hd_opt (x # xs) = Some x"
  by (simp_all add: hd_opt_def)

lemma hd_opt_append: "xs \<noteq> [] \<Longrightarrow> hd_opt (xs @ ys) = hd_opt xs"
  by (cases xs) simp_all

lemma next_in_append: "t \<notin> set D \<Longrightarrow> next_in (D @ t # R) t = hd_opt R"
  by (induction D) (auto simp: hd_opt_def split: list.splits)

text \<open>What firing makes of a timer.\<close>

definition fired :: "u64 \<Rightarrow> ktimer \<Rightarrow> ktimer" where
  "fired now k = (if interval k = 0 then k\<lparr>active := False\<rparr> else k\<lparr>expires := now + interval k, active := True\<rparr>)"

lemma fire_wheel:
  assumes l: "linked s" and t: "t \<in> pending s" and i: "i < TIMER_WHEEL_SIZE"
  shows "linked (fst (fire cb now t (s, w)))" "tm (fst (fire cb now t (s, w))) = (tm s)(t := fired now (tm s t))"
    "snd (fire cb now t (s, w)) = cb (callback (tm s t)) (targ (tm s t)) w"
    "\<exists>Q. set Q \<subseteq> (if interval (tm s t) = 0 then {} else {t}) \<and>
      timer_wheel (fst (fire cb now t (s, w))) ! i = filter (\<lambda>u. u \<noteq> t) (timer_wheel s ! i) @ Q"
proof -
  let ?k = "(tm s t)\<lparr>active := False\<rparr>"
  let ?s1 = "unlink t s"
  define s2 where "s2 = ?s1\<lparr>tm := (tm ?s1)(t := (tm ?s1 t)\<lparr>active := False\<rparr>), active_timers := active_timers ?s1 - 1\<rparr>"
  have T: "tm s2 = (tm s)(t := ?k)" by (simp add: s2_def unlink_def)
  have w2: "timer_wheel s2 = map (filter (\<lambda>u. u \<noteq> t)) (timer_wheel s)" by (simp add: s2_def unlink_def)
  have l2: "linked s2" "t \<notin> pending s2"
    using linked_unlink [OF l t, of s2 ?k] linkedD(6) [OF l] T by (simp_all add: s2_def unlink_def)
  let ?k3 = "?k\<lparr>expires := now + interval ?k\<rparr>"
  let ?s3 = "s2\<lparr>tm := (tm s2)(t := (tm s2 t)\<lparr>expires := now + interval (tm s2 t)\<rparr>)\<rparr>"
  have F: "fire cb now t (s, w) = (if 0 < interval (tm s2 t) then (timer_insert t ?s3, cb (callback (tm s2 t)) (targ (tm s2 t)) w)
      else (s2, cb (callback (tm s2 t)) (targ (tm s2 t)) w))"
    by (simp add: fire_def Let_def s2_def)
  note I = linked_insert [OF l2, of ?s3 ?k3]
  have g: "0 < interval (tm s2 t) \<longleftrightarrow> interval (tm s t) \<noteq> 0" using T by (simp add: word_neq_0_conv)
  show "linked (fst (fire cb now t (s, w)))" using I(1) l2 T linkedD(6) [OF l2(1)] by (simp add: F)
  show "tm (fst (fire cb now t (s, w))) = (tm s)(t := fired now (tm s t))"
    using I(3) T linkedD(6) [OF l2(1)] g by (simp add: F fired_def)
  show "snd (fire cb now t (s, w)) = cb (callback (tm s t)) (targ (tm s t)) w" using T by (simp add: F)
  let ?Q = "if interval (tm s t) \<noteq> 0 \<and> slot_of (now + interval (tm s t)) = i then [t] else []"
  have "timer_wheel (fst (fire cb now t (s, w))) ! i = filter (\<lambda>u. u \<noteq> t) (timer_wheel s ! i) @ ?Q"
    using i linkedD(1) [OF l] g T by (auto simp: F w2 timer_insert_def Let_def nth_list_update)
  then show "\<exists>Q. set Q \<subseteq> (if interval (tm s t) = 0 then {} else {t}) \<and>
      timer_wheel (fst (fire cb now t (s, w))) ! i = filter (\<lambda>u. u \<noteq> t) (timer_wheel s ! i) @ Q"
    by (intro exI [of _ ?Q]) auto
qed

lemma tick_loop_skip:
  assumes "timer_wheel s ! slot = D @ Q" "distinct (D @ Q)" "\<forall>t \<in> set Q. now < expires (tm s t)" "length Q \<le> fuel"
  shows "tick_loop fuel cb now slot (hd_opt Q) (s, w) = Some (s, w)"
  using assms
proof (induction Q arbitrary: D fuel)
  case (Cons t Q)
  then obtain f where f: "fuel = Suc f" by (cases fuel) auto
  have "tick_loop f cb now slot (hd_opt Q) (s, w) = Some (s, w)" using Cons.IH [of "D @ [t]" f] Cons.prems f by simp
  moreover have "next_in (timer_wheel s ! slot) t = hd_opt Q" using Cons.prems by (simp add: next_in_append)
  moreover have "\<not> expires (tm s t) \<le> now" using Cons.prems(3) by (simp add: not_le)
  ultimately show ?case using f by simp
qed simp

lemma filter_other: "t \<notin> set xs \<Longrightarrow> filter (\<lambda>u. u \<noteq> t) xs = xs"
  by (induction xs) auto

lemma tick_loop_fires:
  assumes "linked s" "slot < TIMER_WHEEL_SIZE" "timer_wheel s ! slot = D @ P @ Q"
    "\<forall>t \<in> set Q. now < expires (tm s t)" "2 * length P + length Q \<le> fuel"
    "\<forall>t \<in> set P. interval (tm s t) = 0 \<or> now < now + interval (tm s t)"
  shows "\<exists>s'. tick_loop fuel cb now slot (hd_opt (P @ Q)) (s, w) =
      Some (s', fold (\<lambda>t. cb (callback (tm s t)) (targ (tm s t))) (filter (\<lambda>t. expires (tm s t) \<le> now) P) w) \<and>
    linked s' \<and> (\<forall>t. tm s' t = (if t \<in> set P \<and> expires (tm s t) \<le> now then fired now (tm s t) else tm s t))"
  using assms
proof (induction P arbitrary: D Q fuel s w)
  case Nil
  then have "tick_loop fuel cb now slot (hd_opt Q) (s, w) = Some (s, w)"
    using tick_loop_skip [of s slot D Q now fuel cb w] linkedD(4) [of s slot] by simp
  then show ?case using Nil by simp
next
  case (Cons t P)
  then obtain f where f: "fuel = Suc f" "2 * length P + length Q < f" by (cases fuel) auto
  have dist: "distinct (D @ t # P @ Q)" using linkedD(4) [OF Cons.prems(1,2)] Cons.prems(3) by simp
  have mem: "t \<in> pending s" using linkedD(5) [OF Cons.prems(1,2)] Cons.prems(3) by auto
  have nx: "next_in (timer_wheel s ! slot) t = hd_opt (P @ Q)" using Cons.prems(3) dist by (simp add: next_in_append)
  show ?case
  proof (cases "expires (tm s t) \<le> now")
    case False
    then show ?thesis using Cons.IH [of s "D @ [t]" Q f w] Cons.prems f nx by (auto simp: Let_def)
  next
    case True
    obtain s1 where s1: "s1 = fst (fire cb now t (s, w))" by simp
    let ?w = "cb (callback (tm s t)) (targ (tm s t)) w"
    note F = fire_wheel [OF Cons.prems(1) mem Cons.prems(2), of cb now w, folded s1]
    obtain Q1 where Q1: "set Q1 \<subseteq> (if interval (tm s t) = 0 then {} else {t})"
        "timer_wheel s1 ! slot = filter (\<lambda>u. u \<noteq> t) (timer_wheel s ! slot) @ Q1"
      using F(4) by auto
    have pr: "fire cb now t (s, w) = (s1, ?w)" using s1 F(3) by (metis prod.collapse)
    have fl: "filter (\<lambda>u. u \<noteq> t) (timer_wheel s ! slot) = D @ P @ Q"
      using dist Cons.prems(3) by (simp add: filter_other)
    have w1: "timer_wheel s1 ! slot = D @ P @ (Q @ Q1)" using Q1(2) fl by simp
    have d1: "distinct Q1" using linkedD(4) [OF F(1) Cons.prems(2)] w1 by simp
    have len: "length Q1 \<le> 1" using d1 Q1(1) card_mono [of "{t}" "set Q1"] by (simp add: distinct_card [symmetric] split: if_splits)
    have late: "\<forall>u \<in> set (Q @ Q1). now < expires (tm s1 u)"
      using Cons.prems(4,6) Q1(1) dist F(2) by (auto simp: fired_def split: if_splits)
    have keep: "\<forall>u \<in> set P. tm s1 u = tm s u" using dist F(2) by auto
    have IH: "\<exists>s'. tick_loop f cb now slot (hd_opt (P @ (Q @ Q1))) (s1, ?w) =
        Some (s', fold (\<lambda>t. cb (callback (tm s1 t)) (targ (tm s1 t))) (filter (\<lambda>t. expires (tm s1 t) \<le> now) P) ?w) \<and>
      linked s' \<and> (\<forall>u. tm s' u = (if u \<in> set P \<and> expires (tm s1 u) \<le> now then fired now (tm s1 u) else tm s1 u))"
      using Cons.IH [OF F(1) Cons.prems(2) w1 late, of f ?w] f(2) len keep Cons.prems(6) by simp
    have stop: "\<exists>s'. tick_loop f cb now slot (hd_opt (P @ Q)) (s1, ?w) =
        Some (s', fold (\<lambda>t. cb (callback (tm s1 t)) (targ (tm s1 t))) (filter (\<lambda>t. expires (tm s1 t) \<le> now) P) ?w) \<and>
      linked s' \<and> (\<forall>u. tm s' u = (if u \<in> set P \<and> expires (tm s1 u) \<le> now then fired now (tm s1 u) else tm s1 u))"
    proof (cases "P @ Q = []")
      case True
      then show ?thesis using F(1) by simp
    next
      case False
      then have "hd_opt (P @ (Q @ Q1)) = hd_opt (P @ Q)" by (simp add: hd_opt_append flip: append_assoc)
      then show ?thesis using IH by simp
    qed
    have fold: "fold (\<lambda>t. cb (callback (tm s1 t)) (targ (tm s1 t))) (filter (\<lambda>t. expires (tm s1 t) \<le> now) P) v =
        fold (\<lambda>t. cb (callback (tm s t)) (targ (tm s t))) (filter (\<lambda>t. expires (tm s t) \<le> now) P) v" for v
      using keep by (intro fold_cong) (auto intro: filter_cong)
    have tms: "(if u \<in> set P \<and> expires (tm s1 u) \<le> now then fired now (tm s1 u) else tm s1 u) =
        (if u \<in> set (t # P) \<and> expires (tm s u) \<le> now then fired now (tm s u) else tm s u)" for u
      using F(2) dist True by auto
    from stop obtain s' where "tick_loop f cb now slot (hd_opt (P @ Q)) (s1, ?w) =
        Some (s', fold (\<lambda>t. cb (callback (tm s t)) (targ (tm s t))) (filter (\<lambda>t. expires (tm s t) \<le> now) P) ?w)" "linked s'"
      "\<forall>u. tm s' u = (if u \<in> set (t # P) \<and> expires (tm s u) \<le> now then fired now (tm s u) else tm s u)"
      unfolding fold tms by blast
    then show ?thesis using True f nx pr by (auto simp: Let_def)
  qed
qed

lemma now_slot:
  fixes now e :: u64
  assumes "now < e" "e \<le> now + 1"
  shows "e = now + 1"
  using assms by (metis inc_le word_le_less_eq not_le)

lemma tick_step:
  assumes ok: "wheel_ok now s" and nowrap: "now < now + 1"
    and rep: "\<forall>t \<in> pending s. interval (tm s t) = 0 \<or> now + 1 < now + 1 + interval (tm s t)"
  shows "\<exists>s' ts. ktimer_tick cb (now + 1) s w = Some (s', fold (\<lambda>t. cb (callback (tm s t)) (targ (tm s t))) ts w) \<and>
    distinct ts \<and> set ts = {t \<in> pending s. expires (tm s t) = now + 1} \<and> wheel_ok (now + 1) s' \<and>
    (\<forall>t. tm s' t = (if t \<in> set ts then fired (now + 1) (tm s t) else tm s t))"
proof -
  let ?now = "now + 1"
  let ?i = "slot_of ?now" and ?e = "\<lambda>t. expires (tm s t) \<le> ?now"
  let ?L = "timer_wheel s ! ?i"
  have l: "linked s" using ok by (simp add: wheel_ok_def)
  note L = linkedD [OF l]
  have due: "?e t \<longleftrightarrow> expires (tm s t) = ?now" if "t \<in> pending s" for t
    using ok that now_slot [of now "expires (tm s t)"] by (auto simp: wheel_ok_def)
  have st: "set (filter ?e ?L) = {t \<in> pending s. expires (tm s t) = ?now}" using L(5) [of ?i] due by auto
  obtain s' where s': "tick_loop (2 * length ?L) cb ?now ?i (hd_opt ?L) (s, w) =
        Some (s', fold (\<lambda>t. cb (callback (tm s t)) (targ (tm s t))) (filter ?e ?L) w)" "linked s'"
      "\<forall>t. tm s' t = (if t \<in> set ?L \<and> ?e t then fired ?now (tm s t) else tm s t)"
    using tick_loop_fires [OF l, of ?i "[]" ?L "[]" ?now "2 * length ?L" cb w] rep L(5) [of ?i] by auto
  have t': "tm s' t = (if t \<in> set (filter ?e ?L) then fired ?now (tm s t) else tm s t)" for t using s'(3) by simp
  have "?now < expires (tm s' t)" if "t \<in> pending s'" for t
  proof (cases "t \<in> set (filter ?e ?L)")
    case True
    then show ?thesis using that t' [of t] st rep by (auto simp: pending_def fired_def split: if_splits)
  next
    case False
    then have "t \<in> pending s" "tm s' t = tm s t" using that t' [of t] by (auto simp: pending_def)
    moreover have "now < expires (tm s t)" using ok calculation by (simp add: wheel_ok_def)
    moreover have "expires (tm s t) \<noteq> ?now" using False st calculation(1) by blast
    ultimately show ?thesis using due [of t] by (simp add: not_le [symmetric])
  qed
  then have ok': "wheel_ok ?now s'" using s'(2) by (simp add: wheel_ok_def)
  have "ktimer_tick cb ?now s w = Some (s', fold (\<lambda>t. cb (callback (tm s t)) (targ (tm s t))) (filter ?e ?L) w)"
    using s'(1) L(6) by (cases ?L) (auto simp: ktimer_tick_def Let_def)
  moreover have "distinct (filter ?e ?L)" using L(4) [of ?i] by simp
  ultimately show ?thesis using st ok' t' by blast
qed

subsection \<open>Properties\<close>

text \<open>\<open>n\<close> timer interrupts in a row.\<close>

fun run_ticks :: "nat \<Rightarrow> (nat \<Rightarrow> u64 \<Rightarrow> 'w \<Rightarrow> 'w) \<Rightarrow> u64 \<Rightarrow> timers \<Rightarrow> 'w \<Rightarrow> (timers \<times> 'w) option" where
  "run_ticks 0 cb now s w = Some (s, w)"
| "run_ticks (Suc n) cb now s w =
     (case ktimer_tick cb (now + 1) s w of None \<Rightarrow> None | Some (s', w') \<Rightarrow> run_ticks n cb (now + 1) s' w')"

text \<open>C30: one timer interrupt. On a well-formed wheel the interrupt of tick \<open>now + 1\<close> finishes, calls
  the callback of every pending timer that expires at that tick, once each, and of no other timer;
  one-shot timers become inactive, repeating timers are pending again one interval later, every other
  timer is unchanged, and the wheel is well formed for the new tick. Neither the tick counter nor the
  next expiry of a repeating timer may wrap.\<close>

theorem ktimer_tick_correct:
  assumes "wheel_ok now s" "now < now + 1"
    "\<forall>t \<in> pending s. interval (tm s t) = 0 \<or> now + 1 < now + 1 + interval (tm s t)"
  shows "\<exists>s' ts. ktimer_tick cb (now + 1) s w = Some (s', fold (\<lambda>t. cb (callback (tm s t)) (targ (tm s t))) ts w) \<and>
    distinct ts \<and> set ts = {t \<in> pending s. expires (tm s t) = now + 1} \<and> wheel_ok (now + 1) s' \<and>
    ktimer_active_count s' = of_nat (card (pending s')) \<and>
    (\<forall>t. tm s' t = (if t \<notin> set ts then tm s t
        else if interval (tm s t) = 0 then (tm s t)\<lparr>active := False\<rparr>
        else (tm s t)\<lparr>expires := now + 1 + interval (tm s t), active := True\<rparr>))"
proof -
  obtain s' ts where h: "ktimer_tick cb (now + 1) s w = Some (s', fold (\<lambda>t. cb (callback (tm s t)) (targ (tm s t))) ts w)"
      "distinct ts" "set ts = {t \<in> pending s. expires (tm s t) = now + 1}" "wheel_ok (now + 1) s'"
      "\<forall>t. tm s' t = (if t \<in> set ts then fired (now + 1) (tm s t) else tm s t)"
    using tick_step [OF assms, of cb w] by blast
  have "ktimer_active_count s' = of_nat (card (pending s'))"
    using h(4) linkedD(3) [of s'] by (simp add: wheel_ok_def ktimer_active_count_def)
  moreover have "tm s' t = (if t \<notin> set ts then tm s t else if interval (tm s t) = 0 then (tm s t)\<lparr>active := False\<rparr>
        else (tm s t)\<lparr>expires := now + 1 + interval (tm s t), active := True\<rparr>)" for t
    using h(5) by (simp add: fired_def)
  ultimately show ?thesis using h(1-4) by blast
qed

lemma small_wait:
  fixes a b :: u64
  assumes "unat a + n < 2 ^ 64" "unat b \<le> n" "b \<noteq> 0"
  shows "a < a + b" "unat (a + b) = unat a + unat b"
proof -
  show u: "unat (a + b) = unat a + unat b" using assms by (intro unat_add_u64) simp
  show "a < a + b" using assms(3) u by (simp add: word_less_nat_alt unat_gt_0)
qed

lemma ms_to_ticks_pos: "ms_to_ticks d \<noteq> 0"
  by (simp add: ms_to_ticks_def Let_def)

lemma bounded_tick:
  assumes ok: "wheel_ok now s" and iv: "\<forall>u \<in> pending s. unat (interval (tm s u)) \<le> B" and b: "unat now + 1 + B < 2 ^ 64"
  obtains s1 ts where "ktimer_tick cb (now + 1) s w = Some (s1, fold (\<lambda>t. cb (callback (tm s t)) (targ (tm s t))) ts w)"
    "set ts = {t \<in> pending s. expires (tm s t) = now + 1}" "wheel_ok (now + 1) s1"
    "\<forall>t. tm s1 t = (if t \<in> set ts then fired (now + 1) (tm s t) else tm s t)"
    "\<forall>u \<in> pending s1. unat (interval (tm s1 u)) \<le> B" "unat (now + 1) = unat now + 1"
proof -
  have nw: "now < now + 1" "unat (now + 1) = unat now + 1" using small_wait [of now 1 1] b by simp_all
  have rep: "\<forall>u \<in> pending s. interval (tm s u) = 0 \<or> now + 1 < now + 1 + interval (tm s u)"
    using iv b nw(2) small_wait(1) [of "now + 1" B] by auto
  obtain s1 ts where h: "ktimer_tick cb (now + 1) s w = Some (s1, fold (\<lambda>t. cb (callback (tm s t)) (targ (tm s t))) ts w)"
      "set ts = {t \<in> pending s. expires (tm s t) = now + 1}" "wheel_ok (now + 1) s1"
      "\<forall>t. tm s1 t = (if t \<in> set ts then fired (now + 1) (tm s t) else tm s t)"
    using tick_step [OF ok nw(1) rep, of cb w] by blast
  have "\<forall>u \<in> pending s1. unat (interval (tm s1 u)) \<le> B" using iv h(2,4) by (auto simp: pending_def fired_def split: if_splits)
  then show thesis by (rule that [OF h _ nw(2)])
qed

lemma run_ticks_ok:
  assumes "wheel_ok now s" "\<forall>u \<in> pending s. unat (interval (tm s u)) \<le> B" "unat now + n + B < 2 ^ 64"
  shows "\<exists>s' w'. run_ticks n cb now s w = Some (s', w') \<and> wheel_ok (now + of_nat n) s'"
  using assms
proof (induction n arbitrary: now s w)
  case (Suc n)
  have b: "unat now + 1 + B < 2 ^ 64" using Suc.prems(3) by simp
  obtain s1 ts where h: "ktimer_tick cb (now + 1) s w = Some (s1, fold (\<lambda>t. cb (callback (tm s t)) (targ (tm s t))) ts w)"
      "wheel_ok (now + 1) s1" "\<forall>u \<in> pending s1. unat (interval (tm s1 u)) \<le> B" "unat (now + 1) = unat now + 1"
    by (rule bounded_tick [OF Suc.prems(1,2) b, of cb w])
  then show ?case using Suc.IH [OF h(2,3)] Suc.prems(3) by (simp add: add.assoc)
qed simp

lemma run_ticks_waits:
  assumes "wheel_ok now s" "\<forall>u \<in> pending s. unat (interval (tm s u)) \<le> B" "unat now + n + B < 2 ^ 64"
    "tm s t = k" "active k" "interval k = 0" "unat now < unat (expires k)"
  shows "\<exists>s' w'. run_ticks n cb now s w = Some (s', w') \<and> wheel_ok (now + of_nat n) s' \<and>
    (unat now + n < unat (expires k) \<longrightarrow> tm s' t = k) \<and> (unat now + n = unat (expires k) \<longrightarrow> tm s' t = k\<lparr>active := False\<rparr>)"
  using assms
proof (induction n arbitrary: now s w)
  case (Suc n)
  have b: "unat now + 1 + B < 2 ^ 64" using Suc.prems(3) by simp
  obtain s1 ts where h: "ktimer_tick cb (now + 1) s w = Some (s1, fold (\<lambda>t. cb (callback (tm s t)) (targ (tm s t))) ts w)"
      "set ts = {t \<in> pending s. expires (tm s t) = now + 1}" "wheel_ok (now + 1) s1"
      "\<forall>t. tm s1 t = (if t \<in> set ts then fired (now + 1) (tm s t) else tm s t)"
      "\<forall>u \<in> pending s1. unat (interval (tm s1 u)) \<le> B" "unat (now + 1) = unat now + 1"
    by (rule bounded_tick [OF Suc.prems(1,2) b, of cb w])
  have b1: "unat (now + 1) + n + B < 2 ^ 64" using Suc.prems(3) h(6) by simp
  have step: "run_ticks (Suc n) cb now s w = run_ticks n cb (now + 1) s1 (fold (\<lambda>t. cb (callback (tm s t)) (targ (tm s t))) ts w)"
    and pos: "now + of_nat (Suc n) = now + 1 + of_nat n" "unat now + Suc n = unat (now + 1) + n"
    using h(1,6) by simp_all
  show ?case
  proof (cases "expires k = now + 1")
    case True
    then have gone: "tm s1 t = k\<lparr>active := False\<rparr>" using h(2,4) Suc.prems(4-6) by (simp add: fired_def pending_def)
    show ?thesis
    proof (cases n)
      case 0
      then show ?thesis using step gone h(3) True pos by simp
    next
      case (Suc m)
      then show ?thesis using run_ticks_ok [OF h(3,5) b1] True unfolding step pos by simp
    qed
  next
    case False
    then have "tm s1 t = k" using h(2,4) Suc.prems(4) by simp
    moreover have "unat (now + 1) < unat (expires k)" using False Suc.prems(7) h(6) by (metis Suc_eq_plus1 Suc_lessI word_unat_eq_iff)
    ultimately show ?thesis using Suc.IH [OF h(3,5) b1 _ Suc.prems(5,6)] unfolding step pos by blast
  qed
qed simp

text \<open>C31: timers fire on time. A one-shot timer started at tick \<open>now\<close> with a delay of \<open>d\<close>
  milliseconds waits \<open>k\<close> ticks, where \<open>k\<close> is the delay in ticks of ten milliseconds, at least
  one: during the first \<open>k - 1\<close> interrupts it stays pending with its expiry, and the interrupt of
  tick \<open>now + k\<close> finishes with the timer no longer pending.\<close>

theorem ktimer_fires_on_time:
  assumes "wheel_ok now s" "\<forall>u \<in> pending s. unat (interval (tm s u)) \<le> B"
    "unat now + unat (ms_to_ticks d) + B < 2 ^ 64" "n \<le> unat (ms_to_ticks d)"
  shows "\<exists>s' w'. run_ticks n cb now (ktimer_start now t d s) w = Some (s', w') \<and> wheel_ok (now + of_nat n) s' \<and>
    (if n < unat (ms_to_ticks d) then t \<in> pending s' \<and> expires (tm s' t) = now + ms_to_ticks d else t \<notin> pending s')"
proof -
  let ?k = "(tm s t)\<lparr>expires := now + ms_to_ticks d, interval := 0, active := True\<rparr>"
  have w: "now < now + ms_to_ticks d" "unat (now + ms_to_ticks d) = unat now + unat (ms_to_ticks d)"
    using small_wait [of now "unat (ms_to_ticks d)" "ms_to_ticks d"] assms(3) ms_to_ticks_pos by simp_all
  note S = ktimer_start_wheel(1,3) [OF assms(1) w(1), of t]
  have iv: "\<forall>u \<in> pending (ktimer_start now t d s). unat (interval (tm (ktimer_start now t d s) u)) \<le> B"
    using assms(2) by (simp add: S(2) pending_def)
  have b: "unat now + n + B < 2 ^ 64" using assms(3,4) by simp
  have tk: "tm (ktimer_start now t d s) t = ?k" by (simp add: S(2))
  have lt: "unat now < unat (expires ?k)" using w(1) by (simp add: word_less_nat_alt)
  obtain s' w' where "run_ticks n cb now (ktimer_start now t d s) w = Some (s', w')" "wheel_ok (now + of_nat n) s'"
      "unat now + n < unat (expires ?k) \<longrightarrow> tm s' t = ?k" "unat now + n = unat (expires ?k) \<longrightarrow> tm s' t = ?k\<lparr>active := False\<rparr>"
    using run_ticks_waits [OF S(1) iv b tk _ _ lt, of cb w] by auto
  then show ?thesis using assms(4) w(2) by (auto simp: pending_def)
qed

lemma ktimer_init_subsystem_ok: "(\<And>t. \<not> active (tm s t)) \<Longrightarrow> wheel_ok now (ktimer_init_subsystem s)"
  by (simp add: wheel_ok_def linked_def pending_def ktimer_init_subsystem_def)

definition boot_timers :: timers where
  "boot_timers = ktimer_init_subsystem
     \<lparr>timer_wheel = [], tm = (\<lambda>_. ktimer_init 0 0), active_timers = 0, timer_subsystem_ready = False\<rparr>"

lemma boot_timers_ok: "wheel_ok now boot_timers" "pending boot_timers = {}"
  by (simp_all add: boot_timers_def ktimer_init_subsystem_ok ktimer_init_def)
    (simp add: ktimer_init_subsystem_def pending_def)

theorem ktimer_tick_correct_witness:
  "\<exists>s' ts. ktimer_tick (\<lambda>f a w. w + a) 251 (ktimer_start 250 5 10 boot_timers) 7 =
     Some (s', fold (\<lambda>t w. w + targ (tm (ktimer_start 250 5 10 boot_timers) t)) ts 7) \<and> set ts = {5}"
proof -
  have t: "ms_to_ticks 10 = 1" by (simp add: ms_to_ticks_def Let_def)
  note S = ktimer_start_wheel(1,3) [OF boot_timers_ok(1), of 250 10 5, unfolded t, simplified]
  have p: "pending (ktimer_start 250 5 10 boot_timers) = {5}" "expires (tm (ktimer_start 250 5 10 boot_timers) 5) = 251"
    "interval (tm (ktimer_start 250 5 10 boot_timers) 5) = 0"
    using boot_timers_ok(2) by (auto simp: S(2) pending_def)
  show ?thesis using ktimer_tick_correct [OF S(1), of "\<lambda>f a w. w + a" 7] p by auto
qed

theorem ktimer_fires_on_time_witness:
  "\<exists>s' w'. run_ticks 3 (\<lambda>f a w. w) 250 (ktimer_start 250 5 35 boot_timers) () = Some (s', w') \<and> 5 \<notin> pending s'"
proof -
  have t: "ms_to_ticks 35 = 3" by (simp add: ms_to_ticks_def Let_def)
  show ?thesis
    using ktimer_fires_on_time [OF boot_timers_ok(1), of 0 250 35 3 "\<lambda>f a w. w" 5 "()"] boot_timers_ok(2) t by auto
qed

end
