(* ===== verification/Vfs.thy ===== *)
theory Vfs
  imports Bitmap_Alloc Errno
begin

text \<open>
  The virtual file system of \<open>kernel/vfs.c\<close>: the device table, the table of open files, and the
  dispatch of operations through the device's operation table.

  The world behind the devices is the type variable \<open>'w\<close>; an operation of a device is a function
  on it that gets the private data of its vnode. A buffer is the list of its bytes. A vnode pointer
  is an index of the device table. The part of an operation between taking and releasing
  \<open>vfs_rwlock\<close> is one step; the device's own function runs outside the lock.
\<close>

datatype vnode_type = VN_NONE | VN_CHARDEV | VN_BLOCKDEV | VN_PIPE | VN_FILE | VN_DIR

record 'w file_ops =
  f_open :: "(u64 \<Rightarrow> int \<Rightarrow> 'w \<Rightarrow> ('w \<times> int) res) option"
  f_close :: "(u64 \<Rightarrow> 'w \<Rightarrow> ('w \<times> int) res) option"
  f_read :: "(u64 \<Rightarrow> u8 list \<Rightarrow> u64 \<Rightarrow> 'w \<Rightarrow> ('w \<times> u8 list \<times> int) res) option"
  f_write :: "(u64 \<Rightarrow> u8 list \<Rightarrow> u64 \<Rightarrow> 'w \<Rightarrow> ('w \<times> int) res) option"
  f_ioctl :: "(u64 \<Rightarrow> u32 \<Rightarrow> u64 \<Rightarrow> 'w \<Rightarrow> ('w \<times> int) res) option"

record 'w vnode =
  vname :: "u8 list"
  vtype :: vnode_type
  vops :: "'w file_ops option"
  private_data :: u64
  refcount :: u32

record vfile =
  fvnode :: "nat option"
  fflags :: int
  foffset :: u64
  in_use :: bool

definition VN_NAME_MAX :: nat where "VN_NAME_MAX = 32"
definition VFS_MAX_FDS :: nat where "VFS_MAX_FDS = 16"
definition VFS_MAX_DEVICES :: nat where "VFS_MAX_DEVICES = 16"

record 'w vfs =
  devices :: "'w vnode list"
  device_count :: nat
  fd_table :: "vfile list"
  fd_pool :: id_pool

definition zero_vnode :: "'w vnode" where
  "zero_vnode = \<lparr>vname = [], vtype = VN_NONE, vops = None, private_data = 0, refcount = 0\<rparr>"

definition zero_file :: vfile where
  "zero_file = \<lparr>fvnode = None, fflags = 0, foffset = 0, in_use = False\<rparr>"

definition vfs_init :: "'w vfs" where
  "vfs_init = \<lparr>devices = replicate VFS_MAX_DEVICES zero_vnode, device_count = 0,
     fd_table = replicate VFS_MAX_FDS zero_file, fd_pool = id_pool_init\<rparr>"

text \<open>\<open>strncpy\<close> of at most 31 bytes and a terminating zero keep the first 31 characters of the name.\<close>

definition vfs_register_device :: "u8 list \<Rightarrow> vnode_type \<Rightarrow> 'w file_ops \<Rightarrow> u64 \<Rightarrow> 'w vfs \<Rightarrow> 'w vfs \<times> int" where
  "vfs_register_device name type ops private v =
     (if VFS_MAX_DEVICES \<le> device_count v then (v, - ENOSPC)
      else (v\<lparr>devices := (devices v)[device_count v :=
                \<lparr>vname = take (VN_NAME_MAX - 1) name, vtype = type, vops = Some ops, private_data = private, refcount = 0\<rparr>],
              device_count := device_count v + 1\<rparr>, 0))"

definition vfs_lookup :: "'w vfs \<Rightarrow> u8 list \<Rightarrow> nat option" where
  "vfs_lookup v name = List.find (\<lambda>i. vname (devices v ! i) = name) [0..<device_count v]"

definition add_ref :: "nat \<Rightarrow> u32 \<Rightarrow> 'w vfs \<Rightarrow> 'w vfs" where
  "add_ref vn d v = v\<lparr>devices := (devices v)[vn := (devices v ! vn)\<lparr>refcount := refcount (devices v ! vn) + d\<rparr>]\<rparr>"

definition vfs_open :: "u8 list \<Rightarrow> int \<Rightarrow> 'w vfs \<Rightarrow> 'w \<Rightarrow> ('w vfs \<times> 'w \<times> int) res" where
  "vfs_open path flags v w =
     (case vfs_lookup v path of None \<Rightarrow> Inr (v, w, - ENOENT)
      | Some vn \<Rightarrow>
        (case id_alloc (fd_pool v) of (pool, fd) \<Rightarrow>
           let v1 = v\<lparr>fd_pool := pool\<rparr> in
           if fd < 0 \<or> int VFS_MAX_FDS \<le> fd then Inr (v1, w, - EMFILE)
           else
             let v2 = add_ref vn 1 (v1\<lparr>fd_table := (fd_table v1)[nat fd :=
                   \<lparr>fvnode = Some vn, fflags = flags, foffset = 0, in_use = True\<rparr>]\<rparr>)
             in case vops (devices v2 ! vn) of None \<Rightarrow> Inr (v2, w, fd)
                | Some ops \<Rightarrow>
                  (case f_open ops of None \<Rightarrow> Inr (v2, w, fd)
                   | Some op \<Rightarrow> bnd (op (private_data (devices v2 ! vn)) flags w) (\<lambda>(w', ret).
                       if ret < 0 then
                         let v3 = add_ref vn (-1) (v2\<lparr>fd_table := (fd_table v2)[nat fd := (fd_table v2 ! nat fd)\<lparr>in_use := False\<rparr>]\<rparr>)
                         in Inr (v3\<lparr>fd_pool := id_free (fd_pool v3) fd\<rparr>, w', - EIO)
                       else Inr (v2, w', fd)))))"

definition vfs_close :: "int \<Rightarrow> 'w vfs \<Rightarrow> 'w \<Rightarrow> ('w vfs \<times> 'w \<times> int) res" where
  "vfs_close fd v w =
     (if fd < 0 \<or> int VFS_MAX_FDS \<le> fd then Inr (v, w, - EBADF)
      else if \<not> in_use (fd_table v ! nat fd) then Inr (v, w, - EBADF)
      else case fvnode (fd_table v ! nat fd) of None \<Rightarrow> Inl Fault
        | Some vn \<Rightarrow>
          let v1 = add_ref vn (-1) (v\<lparr>fd_table := (fd_table v)[nat fd := (fd_table v ! nat fd)\<lparr>in_use := False, fvnode := None\<rparr>]\<rparr>);
              v2 = v1\<lparr>fd_pool := id_free (fd_pool v1) fd\<rparr>
          in case vops (devices v2 ! vn) of None \<Rightarrow> Inr (v2, w, 0)
             | Some ops \<Rightarrow> (case f_close ops of None \<Rightarrow> Inr (v2, w, 0)
                | Some op \<Rightarrow> bnd (op (private_data (devices v2 ! vn)) w) (\<lambda>(w', ret). Inr (v2, w', 0))))"

text \<open>The open file behind a descriptor, as the three dispatching functions look it up.\<close>

definition fd_vnode :: "int \<Rightarrow> 'w vfs \<Rightarrow> (int + 'w vnode) res" where
  "fd_vnode fd v =
     (if fd < 0 \<or> int VFS_MAX_FDS \<le> fd then Inr (Inl (- EBADF))
      else if \<not> in_use (fd_table v ! nat fd) then Inr (Inl (- EBADF))
      else case fvnode (fd_table v ! nat fd) of None \<Rightarrow> Inl Fault | Some vn \<Rightarrow> Inr (Inr (devices v ! vn)))"

definition vfs_read :: "int \<Rightarrow> u8 list \<Rightarrow> u64 \<Rightarrow> 'w vfs \<Rightarrow> 'w \<Rightarrow> ('w \<times> u8 list \<times> int) res" where
  "vfs_read fd buf count v w =
     bnd (fd_vnode fd v) (\<lambda>r. case r of Inl e \<Rightarrow> Inr (w, buf, e)
       | Inr vn \<Rightarrow> (case Option.bind (vops vn) f_read of None \<Rightarrow> Inr (w, buf, - ENOTSUP)
           | Some op \<Rightarrow> op (private_data vn) buf count w))"

definition vfs_write :: "int \<Rightarrow> u8 list \<Rightarrow> u64 \<Rightarrow> 'w vfs \<Rightarrow> 'w \<Rightarrow> ('w \<times> int) res" where
  "vfs_write fd buf count v w =
     bnd (fd_vnode fd v) (\<lambda>r. case r of Inl e \<Rightarrow> Inr (w, e)
       | Inr vn \<Rightarrow> (case Option.bind (vops vn) f_write of None \<Rightarrow> Inr (w, - ENOTSUP)
           | Some op \<Rightarrow> op (private_data vn) buf count w))"

definition vfs_ioctl :: "int \<Rightarrow> u32 \<Rightarrow> u64 \<Rightarrow> 'w vfs \<Rightarrow> 'w \<Rightarrow> ('w \<times> int) res" where
  "vfs_ioctl fd cmd arg v w =
     bnd (fd_vnode fd v) (\<lambda>r. case r of Inl e \<Rightarrow> Inr (w, e)
       | Inr vn \<Rightarrow> (case Option.bind (vops vn) f_ioctl of None \<Rightarrow> Inr (w, - ENOTSUP)
           | Some op \<Rightarrow> op (private_data vn) cmd arg w))"

subsection \<open>The state of the tables\<close>

definition fd_used :: "'w vfs \<Rightarrow> nat \<Rightarrow> bool" where
  "fd_used v fd \<longleftrightarrow> fd < VFS_MAX_FDS \<and> in_use (fd_table v ! fd)"

definition fds_of :: "'w vfs \<Rightarrow> nat \<Rightarrow> nat set" where
  "fds_of v vn = {fd. fd_used v fd \<and> fvnode (fd_table v ! fd) = Some vn}"

text \<open>A descriptor is in use exactly when its identifier is taken; it refers to a registered
  device, and the reference count of a device counts its descriptors.\<close>

definition vfs_ok :: "'w vfs \<Rightarrow> bool" where
  "vfs_ok v \<longleftrightarrow> length (devices v) = VFS_MAX_DEVICES \<and> device_count v \<le> VFS_MAX_DEVICES \<and> length (fd_table v) = VFS_MAX_FDS \<and>
     (\<forall>fd < VFS_MAX_FDS. in_use (fd_table v ! fd) \<longleftrightarrow> fd \<notin> pool_avail (fd_pool v)) \<and>
     (\<forall>fd < VFS_MAX_FDS. in_use (fd_table v ! fd) \<longrightarrow> (\<exists>vn < device_count v. fvnode (fd_table v ! fd) = Some vn)) \<and>
     (\<forall>vn < device_count v. refcount (devices v ! vn) = of_nat (card (fds_of v vn)))"

lemma vfs_okD:
  assumes "vfs_ok v"
  shows "length (devices v) = VFS_MAX_DEVICES" "device_count v \<le> VFS_MAX_DEVICES" "length (fd_table v) = VFS_MAX_FDS"
    "fd < VFS_MAX_FDS \<Longrightarrow> in_use (fd_table v ! fd) \<longleftrightarrow> fd \<notin> pool_avail (fd_pool v)"
    "fd < VFS_MAX_FDS \<Longrightarrow> in_use (fd_table v ! fd) \<Longrightarrow> \<exists>vn < device_count v. fvnode (fd_table v ! fd) = Some vn"
    "vn < device_count v \<Longrightarrow> refcount (devices v ! vn) = of_nat (card (fds_of v vn))"
  using assms by (auto simp: vfs_ok_def)

lemma finite_fds_of [simp]: "finite (fds_of v vn)"
  by (rule finite_subset [of _ "{..<VFS_MAX_FDS}"]) (auto simp: fds_of_def fd_used_def)

lemma vfs_lookup_Some: "vfs_lookup v name = Some vn \<Longrightarrow> vn < device_count v \<and> vname (devices v ! vn) = name"
  by (auto simp: vfs_lookup_def find_upt_Some)

text \<open>Taking a descriptor for a device, and giving it back.\<close>

definition take_fd :: "nat \<Rightarrow> nat \<Rightarrow> int \<Rightarrow> id_pool \<Rightarrow> 'w vfs \<Rightarrow> 'w vfs" where
  "take_fd fd vn flags pool v = add_ref vn 1 (v\<lparr>fd_pool := pool, fd_table := (fd_table v)[fd :=
     \<lparr>fvnode = Some vn, fflags = flags, foffset = 0, in_use = True\<rparr>]\<rparr>)"

definition drop_fd :: "nat \<Rightarrow> nat \<Rightarrow> vfile \<Rightarrow> 'w vfs \<Rightarrow> 'w vfs" where
  "drop_fd fd vn f v = (let v1 = add_ref vn (-1) (v\<lparr>fd_table := (fd_table v)[fd := f]\<rparr>)
     in v1\<lparr>fd_pool := id_free (fd_pool v1) (int fd)\<rparr>)"

lemma take_fd_ok:
  assumes ok: "vfs_ok v" and fd: "fd < VFS_MAX_FDS" "\<not> in_use (fd_table v ! fd)" and vn: "vn < device_count v"
    and pool: "pool_avail pool = pool_avail (fd_pool v) - {fd}"
  shows "vfs_ok (take_fd fd vn flags pool v)" "fds_of (take_fd fd vn flags pool v) d = (if d = vn then insert fd (fds_of v d) else fds_of v d)"
proof -
  note V = vfs_okD [OF ok]
  let ?v = "take_fd fd vn flags pool v"
  have f: "fd_table ?v = (fd_table v)[fd := \<lparr>fvnode = Some vn, fflags = flags, foffset = 0, in_use = True\<rparr>]"
    "device_count ?v = device_count v" "fd_pool ?v = pool" "length (devices ?v) = length (devices v)"
    "devices ?v ! d = (if d = vn then (devices v ! d)\<lparr>refcount := refcount (devices v ! d) + 1\<rparr> else devices v ! d)" for d
    using vn V(1,2) by (simp_all add: take_fd_def add_ref_def)
  show s: "fds_of ?v d = (if d = vn then insert fd (fds_of v d) else fds_of v d)" for d
    using fd V(3) by (auto simp: fds_of_def fd_used_def f(1) nth_list_update)
  have c: "card (insert fd (fds_of v vn)) = Suc (card (fds_of v vn))" using fd(2) by (simp add: fds_of_def fd_used_def)
  have "refcount (devices ?v ! d) = of_nat (card (fds_of ?v d))" if "d < device_count v" for d
    using V(6) [OF that] c by (auto simp: f(5) s)
  then show "vfs_ok ?v" using V fd vn pool by (auto simp: vfs_ok_def f(1-4) nth_list_update)
qed

lemma drop_fd_ok:
  assumes ok: "vfs_ok v" and fd: "fd \<in> fds_of v vn" and f: "\<not> in_use f"
  shows "vfs_ok (drop_fd fd vn f v)" "fds_of (drop_fd fd vn f v) d = fds_of v d - {fd}"
proof -
  note V = vfs_okD [OF ok]
  have b: "fd < VFS_MAX_FDS" "in_use (fd_table v ! fd)" "fvnode (fd_table v ! fd) = Some vn" using fd by (auto simp: fds_of_def fd_used_def)
  then have vn: "vn < device_count v" using V(5) [of fd] by auto
  let ?v = "drop_fd fd vn f v"
  have g: "fd_table ?v = (fd_table v)[fd := f]" "device_count ?v = device_count v" "fd_pool ?v = id_free (fd_pool v) (int fd)"
    "length (devices ?v) = length (devices v)"
    "devices ?v ! d = (if d = vn then (devices v ! d)\<lparr>refcount := refcount (devices v ! d) - 1\<rparr> else devices v ! d)" for d
    using vn V(1,2) by (simp_all add: drop_fd_def add_ref_def Let_def)
  have pool: "pool_avail (fd_pool ?v) = insert fd (pool_avail (fd_pool v))"
    using b(1) by (simp add: g(3) pool.free_avail VFS_MAX_FDS_def)
  show s: "fds_of ?v d = fds_of v d - {fd}" for d
    using b V(3) f by (auto simp: fds_of_def fd_used_def g(1) nth_list_update)
  have c: "card (fds_of v vn) = Suc (card (fds_of v vn - {fd}))" by (simp only: card_Suc_Diff1 [OF finite_fds_of fd])
  have other: "d \<noteq> vn \<Longrightarrow> fds_of v d - {fd} = fds_of v d" for d using b(3) by (auto simp: fds_of_def)
  have "refcount (devices ?v ! d) = of_nat (card (fds_of ?v d))" if "d < device_count v" for d
    using V(6) [OF that] c other [of d] by (auto simp: g(5) s)
  then show "vfs_ok ?v" using V b f pool by (auto simp: vfs_ok_def g(1,2,4) nth_list_update)
qed

subsection \<open>Descriptors\<close>

lemma id_alloc_lowest:
  shows "pool_avail p = {} \<Longrightarrow> id_alloc p = (p, -1)"
    "pool_avail p \<noteq> {} \<Longrightarrow> \<exists>p'. id_alloc p = (p', int (Min (pool_avail p))) \<and> pool_avail p' = pool_avail p - {Min (pool_avail p)}"
proof -
  show "pool_avail p = {} \<Longrightarrow> id_alloc p = (p, -1)" by (simp add: pool_avail_empty id_alloc_def)
  assume "pool_avail p \<noteq> {}"
  then obtain p' where "pool_alloc p = (p', Some (Min (pool_avail p)))" "pool_avail p' = pool_avail p - {Min (pool_avail p)}"
    using pool.alloc_Some by blast
  then show "\<exists>p'. id_alloc p = (p', int (Min (pool_avail p))) \<and> pool_avail p' = pool_avail p - {Min (pool_avail p)}"
    by (cases "id_alloc p") (auto simp: pool_alloc_def split: if_splits)
qed

definition lowest_fd :: "'w vfs \<Rightarrow> nat \<Rightarrow> bool" where
  "lowest_fd v fd \<longleftrightarrow> fd < VFS_MAX_FDS \<and> \<not> fd_used v fd \<and> (\<forall>j < fd. fd_used v j)"

lemma alloc_fd:
  assumes ok: "vfs_ok v"
  obtains (full) pool fd where "\<forall>j < VFS_MAX_FDS. fd_used v j" "id_alloc (fd_pool v) = (pool, fd)" "fd < 0 \<or> int VFS_MAX_FDS \<le> fd"
      "vfs_ok (v\<lparr>fd_pool := pool\<rparr>)"
  | (free) pool fd where "lowest_fd v fd" "id_alloc (fd_pool v) = (pool, int fd)" "pool_avail pool = pool_avail (fd_pool v) - {fd}"
proof -
  note V = vfs_okD [OF ok]
  have av: "fd_used v j \<longleftrightarrow> j \<notin> pool_avail (fd_pool v)" if "j < VFS_MAX_FDS" for j using V(4) [OF that] that by (simp add: fd_used_def)
  show thesis
  proof (cases "pool_avail (fd_pool v) = {}")
    case True
    then show thesis using full [OF _ id_alloc_lowest(1) [OF True]] av ok by simp
  next
    case False
    define m where "m = Min (pool_avail (fd_pool v))"
    obtain pool where p: "id_alloc (fd_pool v) = (pool, int m)" "pool_avail pool = pool_avail (fd_pool v) - {m}"
      using id_alloc_lowest(2) [OF False] m_def by blast
    have m: "m \<in> pool_avail (fd_pool v)" "\<And>j. j < m \<Longrightarrow> j \<notin> pool_avail (fd_pool v)"
      using Min_in [OF pool.finite_avail False] Min_le [OF pool.finite_avail, of _ "fd_pool v"] by (auto simp: m_def leD)
    show thesis
    proof (cases "m < VFS_MAX_FDS")
      case True
      then show thesis by (intro free [OF _ p]) (use m av in \<open>simp add: lowest_fd_def\<close>)
    next
      case False
      then have "\<forall>j < VFS_MAX_FDS. fd_used v j" using m av by simp
      moreover have "vfs_ok (v\<lparr>fd_pool := pool\<rparr>)"
        using ok False p(2) by (auto simp: vfs_ok_def fds_of_def fd_used_def)
      ultimately show thesis using full [OF _ p(1)] False by simp
    qed
  qed
qed

text \<open>The state after descriptor \<open>fd\<close> is opened on device \<open>vn\<close>.\<close>

definition opened :: "'w vfs \<Rightarrow> nat \<Rightarrow> nat \<Rightarrow> int \<Rightarrow> 'w vfs \<Rightarrow> bool" where
  "opened v vn fd flags v' \<longleftrightarrow> vfs_ok v' \<and> fds_of v' = (fds_of v)(vn := insert fd (fds_of v vn)) \<and>
     fd_table v' ! fd = \<lparr>fvnode = Some vn, fflags = flags, foffset = 0, in_use = True\<rparr>"

definition dev_op :: "('w file_ops \<Rightarrow> 'a option) \<Rightarrow> 'w vfs \<Rightarrow> nat \<Rightarrow> 'a option" where
  "dev_op sel v vn = Option.bind (vops (devices v ! vn)) sel"

lemma vfs_open_free:
  assumes ok: "vfs_ok v" and l: "vfs_lookup v path = Some vn" and low: "lowest_fd v fd"
    and p: "id_alloc (fd_pool v) = (pool, int fd)" "pool_avail pool = pool_avail (fd_pool v) - {fd}"
    and v2_def: "v2 = take_fd fd vn flags pool v"
  shows "opened v vn fd flags v2"
    "vfs_open path flags v w = (case dev_op f_open v vn of None \<Rightarrow> Inr (v2, w, int fd)
       | Some op \<Rightarrow> bnd (op (private_data (devices v ! vn)) flags w) (\<lambda>(w', ret).
           if ret < 0 then Inr (drop_fd fd vn ((fd_table v2 ! fd)\<lparr>in_use := False\<rparr>) v2, w', - EIO) else Inr (v2, w', int fd)))"
proof -
  note V = vfs_okD [OF ok]
  have vn: "vn < device_count v" using vfs_lookup_Some [OF l] by simp
  have fd: "fd < VFS_MAX_FDS" "\<not> in_use (fd_table v ! fd)" using low by (auto simp: lowest_fd_def fd_used_def)
  note T = take_fd_ok [OF ok fd vn p(2), of flags, folded v2_def]
  show "opened v vn fd flags v2" using T V(3) fd by (auto simp: opened_def fun_eq_iff v2_def take_fd_def add_ref_def)
  have d: "vops (devices v2 ! vn) = vops (devices v ! vn)" "private_data (devices v2 ! vn) = private_data (devices v ! vn)"
    using vn V(1,2) by (simp_all add: v2_def take_fd_def add_ref_def)
  have nf: "\<not> (int fd < 0 \<or> int VFS_MAX_FDS \<le> int fd)" using fd by simp
  have e: "add_ref vn 1 (v\<lparr>fd_pool := pool, fd_table := (fd_table (v\<lparr>fd_pool := pool\<rparr>))[fd := \<lparr>fvnode = Some vn, fflags = flags, foffset = 0, in_use = True\<rparr>]\<rparr>) = v2"
    by (simp add: v2_def take_fd_def)
  show "vfs_open path flags v w = (case dev_op f_open v vn of None \<Rightarrow> Inr (v2, w, int fd)
       | Some op \<Rightarrow> bnd (op (private_data (devices v ! vn)) flags w) (\<lambda>(w', ret).
           if ret < 0 then Inr (drop_fd fd vn ((fd_table v2 ! fd)\<lparr>in_use := False\<rparr>) v2, w', - EIO) else Inr (v2, w', int fd)))"
    unfolding vfs_open_def l option.case p(1) prod.case Let_def if_not_P [OF nf] e nat_int drop_fd_def
    by (simp add: d dev_op_def split: option.splits)
qed

lemma find_append: "List.find P (xs @ ys) = (case List.find P xs of None \<Rightarrow> List.find P ys | Some x \<Rightarrow> Some x)"
  by (induction xs) simp_all

lemma vfs_init_ok: "vfs_ok vfs_init"
  by (auto simp: vfs_ok_def vfs_init_def zero_file_def VFS_MAX_FDS_def VFS_MAX_DEVICES_def pool_init_avail)

lemma register_ok:
  assumes ok: "vfs_ok v"
    and v'_def: "v' = fst (vfs_register_device name type ops priv v)"
  shows "vfs_ok v'" "fds_of v' = fds_of v"
proof -
  note V = vfs_okD [OF ok]
  show f: "fds_of v' = fds_of v" by (simp add: fds_of_def fd_used_def v'_def vfs_register_device_def fun_eq_iff)
  show "vfs_ok v'"
  proof (cases "VFS_MAX_DEVICES \<le> device_count v")
    case False
    let ?n = "device_count v"
    have d: "devices v' ! i = (if i = ?n then devices v' ! ?n else devices v ! i)" "refcount (devices v' ! ?n) = 0" for i
      using False V(1) by (simp_all add: v'_def vfs_register_device_def nth_list_update)
    have none: "fds_of v ?n = {}" using V(5) by (fastforce simp: fds_of_def fd_used_def)
    have "refcount (devices v' ! i) = of_nat (card (fds_of v' i))" if "i < ?n + 1" for i
      using V(6) [of i] that none d(1) [of i] d(2) by (auto simp: f less_Suc_eq split: if_splits)
    moreover have "\<exists>i < ?n + 1. fvnode (fd_table v ! fd) = Some i" if "fd < VFS_MAX_FDS" "in_use (fd_table v ! fd)" for fd
      using V(5) [OF that] by (auto intro: less_SucI)
    ultimately show ?thesis using V(1-4) False by (simp add: vfs_ok_def v'_def vfs_register_device_def)
  qed (simp add: v'_def vfs_register_device_def ok)
qed

definition no_ops :: "'w file_ops" where
  "no_ops = \<lparr>f_open = None, f_close = None, f_read = None, f_write = None, f_ioctl = None\<rparr>"

text \<open>A system with one device, named by one letter, and with a descriptor open on it.\<close>

definition one_device :: "unit vfs" where
  "one_device = fst (vfs_register_device [97] VN_CHARDEV no_ops 0 vfs_init)"

definition one_open :: "unit vfs" where
  "one_open = take_fd 0 0 1 (fst (id_alloc id_pool_init)) one_device"

lemma one_device_facts:
  "vfs_ok one_device" "vfs_lookup one_device [97] = Some 0" "dev_op f_open one_device 0 = None" "\<not> fd_used one_device 0"
  "vfs_ok one_open" "fd_used one_open 0" "0 \<in> fds_of one_open vn \<longleftrightarrow> vn = 0" "dev_op f_close one_open 0 = None"
proof -
  show ok: "vfs_ok one_device" unfolding one_device_def by (rule register_ok [OF vfs_init_ok refl])
  have d: "device_count one_device = 1" "devices one_device ! 0 = \<lparr>vname = [97], vtype = VN_CHARDEV, vops = Some no_ops, private_data = 0, refcount = 0\<rparr>"
    "fd_table one_device = replicate 16 zero_file" "fd_pool one_device = id_pool_init"
    by (simp_all add: one_device_def vfs_register_device_def vfs_init_def VFS_MAX_DEVICES_def VFS_MAX_FDS_def VN_NAME_MAX_def)
  then show "vfs_lookup one_device [97] = Some 0" by (simp add: vfs_lookup_def)
  show "dev_op f_open one_device 0 = None" using d by (simp add: dev_op_def no_ops_def)
  show n: "\<not> fd_used one_device 0" using d by (simp add: fd_used_def zero_file_def)
  have m: "Min (pool_avail id_pool_init) = 0" unfolding pool_init_avail by (intro Min_eqI) simp_all
  have ne: "pool_avail id_pool_init \<noteq> {}" unfolding pool_init_avail by (simp add: lessThan_empty_iff)
  have p: "pool_avail (fst (id_alloc id_pool_init)) = pool_avail (fd_pool one_device) - {0}"
  proof -
    obtain q where "id_alloc id_pool_init = (q, int (Min (pool_avail id_pool_init)))"
        "pool_avail q = pool_avail id_pool_init - {Min (pool_avail id_pool_init)}"
      using id_alloc_lowest(2) [OF ne] by blast
    then show ?thesis by (simp only: m d(4) fst_conv)
  qed
  show "vfs_ok one_open" unfolding one_open_def
    by (rule take_fd_ok [OF ok _ _ _ p]) (use n d in \<open>simp_all add: fd_used_def VFS_MAX_FDS_def\<close>)
  show "fd_used one_open 0" "0 \<in> fds_of one_open vn \<longleftrightarrow> vn = 0" "dev_op f_close one_open 0 = None"
    using vfs_okD(1) [OF ok]
    by (auto simp: one_open_def take_fd_def add_ref_def fds_of_def fd_used_def d dev_op_def no_ops_def VFS_MAX_FDS_def VFS_MAX_DEVICES_def)
qed

subsection \<open>Properties\<close>

text \<open>Registering a device. With a free place in the table the device gets it, the tables stay
  consistent, no earlier device changes, and looking the name up finds the device unless an earlier
  one has the same name; a name longer than 31 characters is stored cut and not found again under
  its full name. A full table is refused unchanged.\<close>

theorem vfs_register_correct:
  assumes "vfs_ok v"
  shows "if VFS_MAX_DEVICES \<le> device_count v then vfs_register_device name type ops priv v = (v, - ENOSPC)
    else \<exists>v'. vfs_register_device name type ops priv v = (v', 0) \<and> vfs_ok v' \<and> device_count v' = device_count v + 1 \<and>
      fds_of v' = fds_of v \<and> (\<forall>i < device_count v. devices v' ! i = devices v ! i) \<and>
      devices v' ! device_count v = \<lparr>vname = take 31 name, vtype = type, vops = Some ops, private_data = priv, refcount = 0\<rparr> \<and>
      vfs_lookup v' (take 31 name) = (case vfs_lookup v (take 31 name) of Some i \<Rightarrow> Some i | None \<Rightarrow> Some (device_count v)) \<and>
      (31 < length name \<longrightarrow> vfs_lookup v' name = vfs_lookup v name)"
proof (cases "VFS_MAX_DEVICES \<le> device_count v")
  case True
  then show ?thesis by (simp add: vfs_register_device_def)
next
  case False
  note V = vfs_okD [OF assms]
  let ?n = "device_count v" and ?d = "\<lparr>vname = take 31 name, vtype = type, vops = Some ops, private_data = priv, refcount = 0\<rparr>"
  define v' where "v' = v\<lparr>devices := (devices v)[?n := ?d], device_count := ?n + 1\<rparr>"
  have e: "vfs_register_device name type ops priv v = (v', 0)"
    using False by (simp add: vfs_register_device_def v'_def VN_NAME_MAX_def)
  have n: "devices v' ! i = (if i = ?n then ?d else devices v ! i)" for i
    using False V(1) by (simp add: v'_def nth_list_update)
  note R = register_ok [OF assms, of v' name type ops priv, unfolded e fst_conv, OF refl]
  have look: "vfs_lookup v' nm = (case vfs_lookup v nm of Some i \<Rightarrow> Some i | None \<Rightarrow> if take 31 name = nm then Some ?n else None)" for nm
  proof -
    have "List.find (\<lambda>i. vname (devices v' ! i) = nm) [0..<?n] = List.find (\<lambda>i. vname (devices v ! i) = nm) [0..<?n]"
      by (rule find_cong) (auto simp: n)
    then show ?thesis by (simp add: vfs_lookup_def v'_def [THEN arg_cong, of device_count] n find_append split: option.splits)
  qed
  have "take 31 name \<noteq> name" if "31 < length name" using that by (metis length_take min.absorb4 nat_neq_iff)
  then show ?thesis using False e R n look [of "take 31 name"] look [of name]
    by (auto simp: v'_def [THEN arg_cong, of device_count] split: option.splits)
qed

text \<open>C32: opening. An unknown name is refused. With all sixteen descriptors in use the call fails and
  no descriptor and no device changes. Otherwise the lowest descriptor that is not in use is taken:
  if the device has no open function, or it agrees, the descriptor refers to the device and the
  tables are consistent; if it refuses, the descriptors are as before and an input/output error is
  returned.\<close>

theorem vfs_open_correct:
  assumes "vfs_ok v"
  shows "case vfs_lookup v path of None \<Rightarrow> vfs_open path flags v w = Inr (v, w, - ENOENT)
    | Some vn \<Rightarrow>
      if \<forall>fd < VFS_MAX_FDS. fd_used v fd
      then \<exists>v'. vfs_open path flags v w = Inr (v', w, - EMFILE) \<and> vfs_ok v' \<and> fd_table v' = fd_table v \<and> devices v' = devices v
      else \<exists>fd v'. lowest_fd v fd \<and> opened v vn fd flags v' \<and>
        (case dev_op f_open v vn of None \<Rightarrow> vfs_open path flags v w = Inr (v', w, int fd)
         | Some op \<Rightarrow> (case op (private_data (devices v ! vn)) flags w of Inl e \<Rightarrow> vfs_open path flags v w = Inl e
             | Inr (w', ret) \<Rightarrow>
               if ret < 0 then \<exists>v''. vfs_open path flags v w = Inr (v'', w', - EIO) \<and> vfs_ok v'' \<and> fds_of v'' = fds_of v
               else vfs_open path flags v w = Inr (v', w', int fd)))"
proof (cases "vfs_lookup v path")
  case None
  then show ?thesis by (simp add: vfs_open_def)
next
  case (Some vn)
  show ?thesis using assms
  proof (cases rule: alloc_fd)
    case (full pool fd)
    then have "vfs_open path flags v w = Inr (v\<lparr>fd_pool := pool\<rparr>, w, - EMFILE)" using Some by (simp add: vfs_open_def Let_def)
    then show ?thesis using full Some by simp
  next
    case (free pool fd)
    define v2 where "v2 = take_fd fd vn flags pool v"
    note F = vfs_open_free [OF assms Some free v2_def]
    have nf: "\<not> (\<forall>fd < VFS_MAX_FDS. fd_used v fd)" using free(1) by (auto simp: lowest_fd_def)
    let ?f = "(fd_table v2 ! fd)\<lparr>in_use := False\<rparr>"
    have opn: "vfs_ok v2" "fds_of v2 = (fds_of v)(vn := insert fd (fds_of v vn))" using F(1) by (simp_all add: opened_def)
    have undo: "vfs_ok (drop_fd fd vn ?f v2)" "fds_of (drop_fd fd vn ?f v2) d = fds_of v d" for d
    proof -
      have "fd \<in> fds_of v2 vn" using opn(2) by simp
      note D = drop_fd_ok [OF opn(1) this, of ?f]
      show "vfs_ok (drop_fd fd vn ?f v2)" using D(1) by simp
      have "fd \<notin> fds_of v d" using free(1) by (auto simp: lowest_fd_def fds_of_def)
      then show "fds_of (drop_fd fd vn ?f v2) d = fds_of v d" using D(2) [of d] opn(2) by auto
    qed
    then have "fds_of (drop_fd fd vn ?f v2) = fds_of v" by (simp add: fun_eq_iff)
    then show ?thesis unfolding Some option.case if_not_P [OF nf]
      by (intro exI [of _ fd] exI [of _ v2]) (use free(1) F undo(1) in \<open>simp split: option.splits sum.splits\<close>)
  qed
qed

text \<open>C33: closing. A number that is no open descriptor is refused. Closing an open one frees exactly
  that descriptor, lowers the reference count of its device with it, and calls the close function of
  the device if there is one; the tables stay consistent.\<close>

theorem vfs_close_correct:
  assumes "vfs_ok v"
  shows "if fd < 0 \<or> \<not> fd_used v (nat fd) then vfs_close fd v w = Inr (v, w, - EBADF)
    else \<exists>vn v'. nat fd \<in> fds_of v vn \<and> vfs_ok v' \<and> (\<forall>d. fds_of v' d = fds_of v d - {nat fd}) \<and>
      (case dev_op f_close v vn of None \<Rightarrow> vfs_close fd v w = Inr (v', w, 0)
       | Some op \<Rightarrow> vfs_close fd v w = bnd (op (private_data (devices v ! vn)) w) (\<lambda>(w', ret). Inr (v', w', 0)))"
proof (cases "fd < 0 \<or> \<not> fd_used v (nat fd)")
  case True
  then show ?thesis by (auto simp: vfs_close_def fd_used_def)
next
  case False
  note V = vfs_okD [OF assms]
  from False have b: "0 \<le> fd" "nat fd < VFS_MAX_FDS" "in_use (fd_table v ! nat fd)" by (auto simp: fd_used_def)
  then obtain vn where vn: "vn < device_count v" "fvnode (fd_table v ! nat fd) = Some vn" using V(5) by blast
  then have m: "nat fd \<in> fds_of v vn" using b by (simp add: fds_of_def fd_used_def)
  let ?f = "(fd_table v ! nat fd)\<lparr>in_use := False, fvnode := None\<rparr>"
  define v' where "v' = drop_fd (nat fd) vn ?f v"
  have D: "vfs_ok v'" "\<forall>d. fds_of v' d = fds_of v d - {nat fd}" using drop_fd_ok [OF assms m, of ?f] by (simp_all add: v'_def)
  have d: "vops (devices v' ! vn) = vops (devices v ! vn)" "private_data (devices v' ! vn) = private_data (devices v ! vn)"
    using vn V(1,2) by (simp_all add: v'_def drop_fd_def add_ref_def Let_def)
  let ?v1 = "add_ref vn (-1) (v\<lparr>fd_table := (fd_table v)[nat fd := ?f]\<rparr>)"
  have e: "?v1\<lparr>fd_pool := id_free (fd_pool ?v1) fd\<rparr> = v'"
    using b(1) by (simp add: v'_def drop_fd_def Let_def)
  have nf: "\<not> (fd < 0 \<or> int VFS_MAX_FDS \<le> fd)" "\<not> \<not> in_use (fd_table v ! nat fd)" using b by auto
  have "vfs_close fd v w = (case dev_op f_close v vn of None \<Rightarrow> Inr (v', w, 0)
       | Some op \<Rightarrow> bnd (op (private_data (devices v ! vn)) w) (\<lambda>(w', ret). Inr (v', w', 0)))"
    unfolding vfs_close_def if_not_P [OF nf(1)] if_not_P [OF nf(2)] vn(2) option.case Let_def e
    by (simp add: d dev_op_def split: option.splits)
  then show ?thesis unfolding if_not_P [OF False]
    by (intro exI [of _ vn] exI [of _ v']) (use m D in \<open>simp split: option.splits\<close>)
qed

theorem vfs_register_correct_witness:
  "\<exists>v'. vfs_register_device [97] VN_CHARDEV no_ops 0 (vfs_init :: unit vfs) = (v', 0) \<and> vfs_ok v' \<and> vfs_lookup v' [97] = Some 0"
proof -
  have "vfs_lookup (vfs_init :: unit vfs) [97] = None" "device_count (vfs_init :: unit vfs) = 0"
    by (simp_all add: vfs_lookup_def vfs_init_def)
  then show ?thesis using vfs_register_correct [OF vfs_init_ok, of "[97]" VN_CHARDEV "no_ops :: unit file_ops" 0]
    by (auto simp: VFS_MAX_DEVICES_def)
qed

theorem vfs_open_correct_witness: "\<exists>v'. vfs_open [97] 1 one_device () = Inr (v', (), 0) \<and> vfs_ok v'"
proof -
  have nf: "\<not> (\<forall>fd < VFS_MAX_FDS. fd_used one_device fd)" using one_device_facts(4) by (metis VFS_MAX_FDS_def zero_less_numeral)
  have "fd = 0" if "lowest_fd one_device fd" for fd using that one_device_facts(4) by (auto simp: lowest_fd_def)
  then show ?thesis using vfs_open_correct [OF one_device_facts(1), of "[97]" 1 "()"]
    unfolding one_device_facts(2) option.case if_not_P [OF nf] one_device_facts(3) by (auto simp: opened_def)
qed

theorem vfs_close_correct_witness: "\<exists>v'. vfs_close 0 one_open () = Inr (v', (), 0) \<and> vfs_ok v' \<and> 0 \<notin> fds_of v' 0"
  using vfs_close_correct [OF one_device_facts(5), of 0 "()"] one_device_facts(6-8) by auto

end
