(* ===== verification/Ext2.thy ===== *)
theory Ext2
  imports Vfs Kprintf
begin

text \<open>
  The read-only ext2 file system of \<open>kernel/ext2.c\<close> over a ramdisk image: mounting, reading an
  inode, listing a directory, reading a file, and the device it registers with the file system layer.

  The image is the list of its bytes, and a pointer into it is an offset. Reading outside the image,
  writing outside the caller's buffer, dividing by zero and shifting by 32 or more are the value
  \<open>Inl Fault\<close>. A negative \<open>int\<close> result is an error number. The log lines of the functions are left out.
\<close>

definition EXT2_SUPER_MAGIC :: u16 where "EXT2_SUPER_MAGIC = 0xEF53"
definition EXT2_SUPERBLOCK_OFFSET :: nat where "EXT2_SUPERBLOCK_OFFSET = 1024"
definition EXT2_S_IFREG :: u16 where "EXT2_S_IFREG = 0x8000"
definition EXT2_S_IFDIR :: u16 where "EXT2_S_IFDIR = 0x4000"
definition EXT2_S_IFMT :: u16 where "EXT2_S_IFMT = 0xF000"
definition EXT2_ROOT_INO :: u32 where "EXT2_ROOT_INO = 2"
definition EXT2_NDIR_BLOCKS :: nat where "EXT2_NDIR_BLOCKS = 12"

subsection \<open>Bytes of the image\<close>

definition rd_bytes :: "u8 list \<Rightarrow> nat \<Rightarrow> nat \<Rightarrow> u8 list res" where
  "rd_bytes d off n = (if off + n \<le> length d then Inr (take n (drop off d)) else Inl Fault)"

definition write_buf :: "u8 list \<Rightarrow> nat \<Rightarrow> u8 list \<Rightarrow> u8 list res" where
  "write_buf dst at bs = (if at + length bs \<le> length dst then Inr (take at dst @ bs @ drop (at + length bs) dst) else Inl Fault)"

text \<open>Little-endian numbers.\<close>

fun le_nat :: "u8 list \<Rightarrow> nat" where
  "le_nat [] = 0"
| "le_nat (b # bs) = unat b + 256 * le_nat bs"

definition field :: "u8 list \<Rightarrow> nat \<Rightarrow> nat \<Rightarrow> 'a :: len word" where
  "field bs off n = of_nat (le_nat (take n (drop off bs)))"

definition rd_le :: "u8 list \<Rightarrow> nat \<Rightarrow> nat \<Rightarrow> nat res" where
  "rd_le d off n = bnd (rd_bytes d off n) (\<lambda>bs. Inr (le_nat bs))"

subsection \<open>Structures\<close>

record ext2_superblock =
  s_inodes_count :: u32
  s_blocks_count :: u32
  s_r_blocks_count :: u32
  s_free_blocks_count :: u32
  s_free_inodes_count :: u32
  s_first_data_block :: u32
  s_log_block_size :: u32
  s_blocks_per_group :: u32
  s_inodes_per_group :: u32
  s_magic :: u16
  s_rev_level :: u32
  s_inode_size :: u16

text \<open>The fields of the packed structure of 92 bytes that the code reads; the others are skipped.\<close>

definition superblock_of :: "u8 list \<Rightarrow> ext2_superblock" where
  "superblock_of bs = \<lparr>s_inodes_count = field bs 0 4, s_blocks_count = field bs 4 4, s_r_blocks_count = field bs 8 4,
     s_free_blocks_count = field bs 12 4, s_free_inodes_count = field bs 16 4, s_first_data_block = field bs 20 4,
     s_log_block_size = field bs 24 4, s_blocks_per_group = field bs 32 4, s_inodes_per_group = field bs 40 4,
     s_magic = field bs 56 2, s_rev_level = field bs 76 4, s_inode_size = field bs 88 2\<rparr>"

definition sizeof_superblock :: nat where "sizeof_superblock = 92"
definition sizeof_group_desc :: nat where "sizeof_group_desc = 32"
definition sizeof_inode :: nat where "sizeof_inode = 128"

record ext2_inode =
  i_mode :: u16
  i_size :: u32
  i_block :: "u32 list"

definition inode_of :: "u8 list \<Rightarrow> ext2_inode" where
  "inode_of bs = \<lparr>i_mode = field bs 0 2, i_size = field bs 4 4, i_block = map (\<lambda>i. field bs (40 + 4 * i) 4) [0..<15]\<rparr>"

record ext2_fs =
  disk :: "u8 list"
  disk_size :: u64
  sb :: ext2_superblock
  block_size :: u32
  groups_count :: u32
  inode_size :: u32
  gdt :: nat
  ext2_mounted :: bool

subsection \<open>Blocks\<close>

definition ext2_block_ptr :: "ext2_fs \<Rightarrow> u32 \<Rightarrow> nat option" where
  "ext2_block_ptr fs block_num =
     (let offset = ucast block_num * ucast (block_size fs) :: u64
      in if disk_size fs < offset + ucast (block_size fs) then None else Some (unat offset))"

subsection \<open>Inodes\<close>

definition ext2_read_inode :: "ext2_fs \<Rightarrow> u32 \<Rightarrow> (int + ext2_inode) res" where
  "ext2_read_inode fs ino =
     (if \<not> ext2_mounted fs then Inr (Inl (- EIO))
      else if ino = 0 \<or> s_inodes_count (sb fs) < ino then Inr (Inl (- EINVAL))
      else if s_inodes_per_group (sb fs) = 0 then Inl Fault
      else
        let group = (ino - 1) div s_inodes_per_group (sb fs); index = (ino - 1) mod s_inodes_per_group (sb fs) in
        if groups_count fs \<le> group then Inr (Inl (- EINVAL))
        else bnd (rd_le (disk fs) (gdt fs + sizeof_group_desc * unat group + 8) 4) (\<lambda>table.
          let inode_offset = of_nat table * ucast (block_size fs) + ucast index * ucast (inode_size fs) :: u64 in
          if disk_size fs < inode_offset + of_nat sizeof_inode then Inr (Inl (- EIO))
          else bnd (rd_bytes (disk fs) (unat inode_offset) sizeof_inode) (\<lambda>bs. Inr (Inr (inode_of bs)))))"

subsection \<open>Directories\<close>

type_synonym 'c dir_callback = "nat \<Rightarrow> u32 \<Rightarrow> u32 \<Rightarrow> u8 \<Rightarrow> 'c \<Rightarrow> 'c res"

text \<open>The entries of one block. The callback gets the offset and length of the name, the inode number
  and the type.\<close>

function entry_loop :: "u8 list \<Rightarrow> 'c dir_callback \<Rightarrow> nat \<Rightarrow> nat \<Rightarrow> nat \<Rightarrow> 'c \<Rightarrow> 'c res" where
  "entry_loop d callback data remaining offset ctx =
     (if offset < remaining then
        bnd (rd_le d (data + offset + 4) 2) (\<lambda>rec_len.
          if rec_len = 0 \<or> remaining - offset < rec_len then Inr ctx
          else bnd (rd_le d (data + offset) 4) (\<lambda>ino. bnd (rd_le d (data + offset + 6) 1) (\<lambda>name_len.
            bnd (if ino \<noteq> 0 \<and> 0 < name_len
                 then bnd (rd_le d (data + offset + 7) 1) (\<lambda>ft.
                   callback (data + offset + 8) (of_nat name_len) (of_nat ino) (of_nat ft) ctx)
                 else Inr ctx)
              (\<lambda>ctx'. entry_loop d callback data remaining (offset + rec_len) ctx'))))
      else Inr ctx)"
  by pat_completeness auto
termination
  by (relation "measure (\<lambda>(d, cb, data, r, off, c). r - off)") auto

declare entry_loop.simps [simp del]

function block_loop :: "ext2_fs \<Rightarrow> ext2_inode \<Rightarrow> 'c dir_callback \<Rightarrow> nat \<Rightarrow> nat \<Rightarrow> 'c \<Rightarrow> ('c \<times> int) res" where
  "block_loop fs inode callback i bytes_read ctx =
     (if i < EXT2_NDIR_BLOCKS \<and> bytes_read < unat (i_size inode) then
        let block = i_block inode ! i in
        if block = 0 then block_loop fs inode callback (i + 1) bytes_read ctx
        else (case ext2_block_ptr fs block of None \<Rightarrow> Inr (ctx, - EIO)
          | Some data \<Rightarrow>
            let remaining = min (unat (i_size inode) - bytes_read) (unat (block_size fs)) in
            bnd (entry_loop (disk fs) callback data remaining 0 ctx) (\<lambda>ctx'.
              block_loop fs inode callback (i + 1) (bytes_read + remaining) ctx'))
      else Inr (ctx, 0))"
  by pat_completeness auto
termination
  by (relation "measure (\<lambda>(fs, n, cb, i, r, c). EXT2_NDIR_BLOCKS - i)") auto

declare block_loop.simps [simp del]

definition ext2_list_dir :: "ext2_fs \<Rightarrow> u32 \<Rightarrow> 'c dir_callback option \<Rightarrow> 'c \<Rightarrow> ('c \<times> int) res" where
  "ext2_list_dir fs dir_ino callback ctx =
     (if \<not> ext2_mounted fs then Inr (ctx, - EIO)
      else case callback of None \<Rightarrow> Inr (ctx, - EINVAL)
        | Some cb \<Rightarrow> bnd (ext2_read_inode fs dir_ino) (\<lambda>r. case r of Inl ret \<Rightarrow> Inr (ctx, ret)
            | Inr inode \<Rightarrow>
              if i_mode inode AND EXT2_S_IFMT \<noteq> EXT2_S_IFDIR then Inr (ctx, - EINVAL)
              else block_loop fs inode cb 0 0 ctx))"

subsection \<open>Files\<close>

lemma chunk_progress:
  fixes n r p :: nat and s :: u32
  assumes "r < n" "s \<noteq> 0"
  shows "n - (r + min (unat s - p mod unat s) (n - r)) < n - r"
proof -
  have "p mod unat s < unat s" using assms(2) by (simp add: unat_gt_0)
  then show ?thesis using assms(1) by linarith
qed

function file_loop :: "ext2_fs \<Rightarrow> ext2_inode \<Rightarrow> nat \<Rightarrow> nat \<Rightarrow> nat \<Rightarrow> u8 list \<Rightarrow> (u8 list \<times> int) res" where
  "file_loop fs inode offset count bytes_read dst =
     (if bytes_read < count then
        if block_size fs = 0 then Inl Fault
        else
          let current_pos = (offset + bytes_read) mod 2 ^ 64;
              block_index = (current_pos div unat (block_size fs)) mod 2 ^ 32;
              block_offset = current_pos mod unat (block_size fs);
              chunk = min (unat (block_size fs) - block_offset) (count - bytes_read) in
          if EXT2_NDIR_BLOCKS \<le> block_index then Inr (dst, int bytes_read)
          else if i_block inode ! block_index = 0 then
            bnd (write_buf dst bytes_read (replicate chunk 0)) (\<lambda>dst'. file_loop fs inode offset count (bytes_read + chunk) dst')
          else (case ext2_block_ptr fs (i_block inode ! block_index) of None \<Rightarrow> Inr (dst, - EIO)
            | Some data \<Rightarrow> bnd (rd_bytes (disk fs) (data + block_offset) chunk) (\<lambda>bs.
                bnd (write_buf dst bytes_read bs) (\<lambda>dst'. file_loop fs inode offset count (bytes_read + chunk) dst')))
      else Inr (dst, int bytes_read))"
  by pat_completeness auto
termination
proof (relation "measure (\<lambda>(fs, inode, offset, count, bytes_read, dst). count - bytes_read)", goal_cases)
  case (2 fs inode offset count bytes_read dst x xa xb xc xd)
  show ?case unfolding in_measure prod.case 2(5,6) by (rule chunk_progress [OF 2(1,2)])
next
  case (3 fs inode offset count bytes_read dst x xa xb xc x2 xd xe)
  show ?case unfolding in_measure prod.case 3(5,6) by (rule chunk_progress [OF 3(1,2)])
qed simp

declare file_loop.simps [simp del]

definition ext2_read_file :: "ext2_fs \<Rightarrow> u32 \<Rightarrow> u8 list option \<Rightarrow> u64 \<Rightarrow> u64 \<Rightarrow> (u8 list option \<times> int) res" where
  "ext2_read_file fs ino dest offset count =
     (if \<not> ext2_mounted fs then Inr (dest, - EIO)
      else case dest of None \<Rightarrow> Inr (dest, - EINVAL)
        | Some dst \<Rightarrow> bnd (ext2_read_inode fs ino) (\<lambda>r. case r of Inl ret \<Rightarrow> Inr (dest, ret)
            | Inr inode \<Rightarrow>
              if i_mode inode AND EXT2_S_IFMT \<noteq> EXT2_S_IFREG then Inr (dest, - EINVAL)
              else
                let file_size = ucast (i_size inode) in
                if file_size \<le> offset then Inr (dest, 0)
                else
                  let count1 = (if file_size < offset + count then file_size - offset else count)
                  in bnd (file_loop fs inode (unat offset) (unat count1) 0 dst) (\<lambda>(dst', ret). Inr (Some dst', ret))))"

subsection \<open>The device\<close>

text \<open>\<open>get\<close> selects the mounted file system from the world of the devices.\<close>

definition ext2_vfs_read :: "('w \<Rightarrow> ext2_fs) \<Rightarrow> u64 \<Rightarrow> u8 list \<Rightarrow> u64 \<Rightarrow> 'w \<Rightarrow> ('w \<times> u8 list \<times> int) res" where
  "ext2_vfs_read get private dst count w =
     (if private = 0 then Inr (w, dst, - EINVAL)
      else bnd (ext2_read_file (get w) (ucast private) (Some dst) 0 count) (\<lambda>(b, ret).
        Inr (w, (case b of None \<Rightarrow> dst | Some b' \<Rightarrow> b'), ret)))"

definition ext2_file_ops :: "('w \<Rightarrow> ext2_fs) \<Rightarrow> 'w file_ops" where
  "ext2_file_ops get = \<lparr>f_open = None, f_close = None, f_read = Some (ext2_vfs_read get), f_write = None, f_ioctl = None\<rparr>"

definition str :: "string \<Rightarrow> u8 list" where
  "str cs = map (\<lambda>c. of_nat (of_char c)) cs"

definition ext2_register_vfs :: "('w \<Rightarrow> ext2_fs) \<Rightarrow> 'w vfs \<Rightarrow> 'w vfs" where
  "ext2_register_vfs get v = fst (vfs_register_device (str ''ext2'') VN_BLOCKDEV (ext2_file_ops get) (ucast EXT2_ROOT_INO) v)"

subsection \<open>Mounting\<close>

definition ext2_init :: "('w \<Rightarrow> ext2_fs) \<Rightarrow> u8 list option \<Rightarrow> u64 \<Rightarrow> ext2_fs \<Rightarrow> 'w vfs \<Rightarrow> (ext2_fs \<times> 'w vfs \<times> int) res" where
  "ext2_init get base rsize fs v =
     (case base of None \<Rightarrow> Inr (fs, v, - EINVAL)
      | Some img \<Rightarrow>
        if rsize < of_nat (EXT2_SUPERBLOCK_OFFSET + sizeof_superblock) then Inr (fs, v, - EINVAL)
        else
          let fs1 = fs\<lparr>disk := img, disk_size := rsize\<rparr> in
          bnd (rd_bytes (disk fs1) EXT2_SUPERBLOCK_OFFSET sizeof_superblock) (\<lambda>bs.
            let fs2 = fs1\<lparr>sb := superblock_of bs\<rparr> in
            if s_magic (sb fs2) \<noteq> EXT2_SUPER_MAGIC then Inr (fs2, v, - EINVAL)
            else if 32 \<le> s_log_block_size (sb fs2) \<or> s_blocks_per_group (sb fs2) = 0 then Inl Fault
            else
              let fs3 = fs2\<lparr>block_size := push_bit (unat (s_log_block_size (sb fs2))) 1024,
                    inode_size := (if 1 \<le> s_rev_level (sb fs2) \<and> 0 < s_inode_size (sb fs2) then ucast (s_inode_size (sb fs2)) else 128),
                    groups_count := (s_blocks_count (sb fs2) + s_blocks_per_group (sb fs2) - 1) div s_blocks_per_group (sb fs2)\<rparr>
              in case ext2_block_ptr fs3 (if block_size fs3 = 1024 then 2 else 1) of
                   None \<Rightarrow> Inr (fs3, v, - EIO)
                 | Some g \<Rightarrow> Inr (fs3\<lparr>gdt := g, ext2_mounted := True\<rparr>, ext2_register_vfs get v, 0)))"

subsection \<open>Printing a directory\<close>

definition type_str :: "u8 \<Rightarrow> string" where
  "type_str ft = (if ft = 1 then ''FILE'' else if ft = 2 then ''DIR'' else if ft = 7 then ''LINK'' else ''????'')"

primrec print_name :: "u8 list \<Rightarrow> printer \<Rightarrow> printer res" where
  "print_name [] p = Inr p"
| "print_name (c # cs) p = bnd (kprintf p (str ''%c'') [VInt (scast c)]) (print_name cs)"

definition print_dir_entry :: "u8 list \<Rightarrow> printer dir_callback" where
  "print_dir_entry d name name_len inode ft p =
     bnd (kprintf p (str ''  [%4s] inode=%u  '') [VStr (Some (str (type_str ft))), VInt (ucast inode)]) (\<lambda>p1.
       bnd (rd_bytes d name (unat name_len)) (\<lambda>cs. bnd (print_name cs p1) (\<lambda>p2. kprintf p2 [10] [])))"

definition ext2_list_root :: "ext2_fs \<Rightarrow> printer \<Rightarrow> printer res" where
  "ext2_list_root fs p =
     (if \<not> ext2_mounted fs then Inr p
      else bnd (kprintf p (10 # str ''--- ext2 Root Directory (inode %u) ---'' @ [10]) [VInt (ucast EXT2_ROOT_INO)]) (\<lambda>p1.
        bnd (ext2_list_dir fs EXT2_ROOT_INO (Some (print_dir_entry (disk fs))) p1) (\<lambda>(p2, ret). Inr p2)))"

end
