(* ===== verification/Ext2_Spec.thy ===== *)
theory Ext2_Spec
  imports Ext2
begin

text \<open>
  Properties of the ext2 reader: a file read returns the bytes of the file's blocks, holes as
  zeros; listing a directory visits its entries in order; mounting accepts exactly the images with
  the magic number and a group table inside the image.
\<close>

subsection \<open>Pieces of the image\<close>

text \<open>The bytes \<open>bs\<close> stand at offset \<open>off\<close>.\<close>

definition stands :: "u8 list \<Rightarrow> nat \<Rightarrow> u8 list \<Rightarrow> bool" where
  "stands d off bs \<longleftrightarrow> off + length bs \<le> length d \<and> take (length bs) (drop off d) = bs"

lemma stands_append: "stands d off (xs @ ys) \<longleftrightarrow> stands d off xs \<and> stands d (off + length xs) ys"
proof (cases "off + length xs + length ys \<le> length d")
  case True
  have "take (length xs + length ys) (drop off d) = take (length xs) (drop off d) @ take (length ys) (drop (off + length xs) d)"
    by (simp add: take_add add.commute)
  then show ?thesis using True by (auto simp: stands_def)
qed (auto simp: stands_def)

lemma stands_rd: "stands d off bs \<Longrightarrow> n = length bs \<Longrightarrow> rd_bytes d off n = Inr bs"
  by (simp add: stands_def rd_bytes_def)

lemma stands_nth:
  assumes "stands d off bs" "i < length bs"
  shows "d ! (off + i) = bs ! i"
proof -
  have "bs ! i = take (length bs) (drop off d) ! i" using assms(1) by (simp add: stands_def)
  also have "\<dots> = drop off d ! i" using assms(2) by (rule nth_take)
  also have "\<dots> = d ! (off + i)" by (rule nth_drop) (use assms in \<open>simp add: stands_def\<close>)
  finally show ?thesis by simp
qed

lemma stands_rd_le: "stands d off bs \<Longrightarrow> n = length bs \<Longrightarrow> rd_le d off n = Inr (le_nat bs)"
  by (simp add: rd_le_def stands_rd)

lemma unat_less_32: "unat (w :: u32) < 2 ^ 32"
  using unsigned_less [of w, where ?'a = nat] by simp

lemma unat_ucast_32_64: "unat (ucast (w :: u32) :: u64) = unat w"
  by (simp add: unsigned_ucast_eq take_bit_nat_eq_self unat_less_32 [THEN less_trans])

lemma block_ptr_iff:
  "ext2_block_ptr fs b =
     (if unat b * unat (block_size fs) + unat (block_size fs) \<le> unat (disk_size fs) then Some (unat b * unat (block_size fs)) else None)"
proof -
  let ?b = "unat b" and ?s = "unat (block_size fs)"
  have "?b * ?s + ?s = (?b + 1) * ?s" by simp
  also have "\<dots> \<le> 2 ^ 32 * ?s" using unat_less_32 [of b] by (intro mult_right_mono) auto
  also have "\<dots> < 2 ^ 32 * 2 ^ 32" using unat_less_32 [of "block_size fs"] by simp
  finally have l: "?b * ?s + ?s < 2 ^ 64" by simp
  have m: "unat (ucast b * ucast (block_size fs) :: u64) = ?b * ?s"
    using l by (simp add: unat_word_ariths unat_ucast_32_64)
  then have "unat (ucast b * ucast (block_size fs) + ucast (block_size fs) :: u64) = ?b * ?s + ?s"
    using l by (subst unat_add_u64) (simp_all add: unat_ucast_32_64)
  then show ?thesis using m by (auto simp: ext2_block_ptr_def Let_def word_less_nat_alt)
qed

subsection \<open>Files\<close>

text \<open>The byte at position \<open>p\<close> of a file, and whether the block that holds it is readable.\<close>

definition file_byte :: "ext2_fs \<Rightarrow> ext2_inode \<Rightarrow> nat \<Rightarrow> u8" where
  "file_byte fs inode p =
     (let b = i_block inode ! (p div unat (block_size fs)) in
      if b = 0 then 0 else disk fs ! (unat b * unat (block_size fs) + p mod unat (block_size fs)))"

definition byte_readable :: "ext2_fs \<Rightarrow> ext2_inode \<Rightarrow> nat \<Rightarrow> bool" where
  "byte_readable fs inode p \<longleftrightarrow>
     (let b = i_block inode ! (p div unat (block_size fs)) in b = 0 \<or> ext2_block_ptr fs b \<noteq> None)"

lemma chunk_index:
  fixes p k s :: nat
  assumes "0 < s" "k < s - p mod s"
  shows "(p + k) div s = p div s" "(p + k) mod s = p mod s + k"
proof -
  have e: "p + k = p div s * s + (p mod s + k)" by (simp add: add.assoc [symmetric] div_mult_mod_eq)
  have lt: "p mod s + k < s" using assms by linarith
  have "(p + k) div s = (p div s * s + (p mod s + k)) div s" by (rule arg_cong [OF e])
  also have "\<dots> = p div s" using lt assms(1) by (simp only: div_mult_self3 div_less add_0_right neq0_conv)
  finally show "(p + k) div s = p div s" .
  have "(p + k) mod s = (p div s * s + (p mod s + k)) mod s" by (rule arg_cong [OF e])
  also have "\<dots> = p mod s + k" using lt by (simp only: mod_mult_self3 mod_less)
  finally show "(p + k) mod s = p mod s + k" .
qed

lemma chunk_bytes:
  assumes s: "0 < unat (block_size fs)" and k: "n \<le> unat (block_size fs) - p mod unat (block_size fs)"
    and d: "unat (disk_size fs) = length (disk fs)"
    and b: "i_block inode ! (p div unat (block_size fs)) \<noteq> 0" "ext2_block_ptr fs (i_block inode ! (p div unat (block_size fs))) = Some data"
  shows "rd_bytes (disk fs) (data + p mod unat (block_size fs)) n = Inr (map (file_byte fs inode) [p..<p + n])"
proof -
  let ?s = "unat (block_size fs)" and ?b = "i_block inode ! (p div unat (block_size fs))"
  have "data = unat ?b * ?s" "unat ?b * ?s + ?s \<le> length (disk fs)" using b(2) d by (auto simp: block_ptr_iff split: if_splits)
  moreover have "p mod ?s + n \<le> ?s" using k s by (metis add.commute le_diff_conv2 mod_le_divisor)
  ultimately have data: "data = unat ?b * ?s" "data + p mod ?s + n \<le> length (disk fs)" by simp_all
  have "take n (drop (data + p mod ?s) (disk fs)) = map (file_byte fs inode) [p..<p + n]"
  proof (rule nth_equalityI)
    fix i assume "i < length (take n (drop (data + p mod ?s) (disk fs)))"
    then have i: "i < n" using data by simp
    then have "(p + i) div ?s = p div ?s" "(p + i) mod ?s = p mod ?s + i" using chunk_index [OF s, of i p] k by simp_all
    then show "take n (drop (data + p mod ?s) (disk fs)) ! i = map (file_byte fs inode) [p..<p + n] ! i"
      using i data b(1) by (simp add: file_byte_def Let_def add.assoc)
  qed (use data in simp)
  then show ?thesis using data by (simp add: rd_bytes_def)
qed

lemma hole_bytes:
  assumes s: "0 < unat (block_size fs)" and k: "n \<le> unat (block_size fs) - p mod unat (block_size fs)"
    and b: "i_block inode ! (p div unat (block_size fs)) = 0"
  shows "replicate n 0 = map (file_byte fs inode) [p..<p + n]"
proof (rule nth_equalityI)
  fix i assume "i < length (replicate n (0 :: u8))"
  then have "i < n" by simp
  then show "replicate n 0 ! i = map (file_byte fs inode) [p..<p + n] ! i"
    using chunk_index(1) [OF s, of i p] k b by (simp add: file_byte_def Let_def)
qed simp

lemma write_buf_at:
  assumes "r + length bs \<le> length dst"
  shows "write_buf dst r bs = Inr (take r dst @ bs @ drop (r + length bs) dst)"
  using assms by (simp add: write_buf_def)

lemma file_loop_step:
  assumes lt: "r < n" and s: "0 < unat (block_size fs)" and d: "unat (disk_size fs) = length (disk fs)"
    and small: "offset + n < 2 ^ 32" and room: "n \<le> length dst"
    and idx: "(offset + r) div unat (block_size fs) < EXT2_NDIR_BLOCKS" and ok: "byte_readable fs inode (offset + r)"
  defines "k \<equiv> min (unat (block_size fs) - (offset + r) mod unat (block_size fs)) (n - r)"
  shows "file_loop fs inode offset n r dst =
    file_loop fs inode offset n (r + k) (take r dst @ map (file_byte fs inode) [offset + r..<offset + r + k] @ drop (r + k) dst)"
proof -
  let ?s = "unat (block_size fs)" and ?p = "offset + r"
  have p: "?p mod 2 ^ 64 = ?p" using small lt by simp
  have i: "?p div ?s mod 2 ^ 32 = ?p div ?s" using idx by (simp add: EXT2_NDIR_BLOCKS_def)
  have bs: "block_size fs \<noteq> 0" using s by auto
  have ni: "\<not> EXT2_NDIR_BLOCKS \<le> ?p div ?s" using idx by simp
  have k: "k \<le> ?s - ?p mod ?s" "r + k \<le> length dst" using lt room by (auto simp: k_def)
  have unf: "file_loop fs inode offset n r dst =
     (if i_block inode ! (?p div ?s) = 0 then
        bnd (write_buf dst r (replicate k 0)) (\<lambda>dst'. file_loop fs inode offset n (r + k) dst')
      else (case ext2_block_ptr fs (i_block inode ! (?p div ?s)) of None \<Rightarrow> Inr (dst, - EIO)
        | Some data \<Rightarrow> bnd (rd_bytes (disk fs) (data + ?p mod ?s) k) (\<lambda>bs.
            bnd (write_buf dst r bs) (\<lambda>dst'. file_loop fs inode offset n (r + k) dst'))))"
    by (subst file_loop.simps) (simp only: lt bs ni p i Let_def if_True if_False k_def)
  show ?thesis
  proof (cases "i_block inode ! (?p div ?s) = 0")
    case True
    have "write_buf dst r (replicate k 0) = Inr (take r dst @ map (file_byte fs inode) [?p..<?p + k] @ drop (r + k) dst)"
      using write_buf_at [of r "replicate k 0" dst] k(2) hole_bytes [OF s k(1) True] by simp
    then show ?thesis unfolding unf by (simp add: True)
  next
    case False
    then obtain data where data: "ext2_block_ptr fs (i_block inode ! (?p div ?s)) = Some data"
      using ok by (auto simp: byte_readable_def Let_def)
    have "write_buf dst r (map (file_byte fs inode) [?p..<?p + k]) =
        Inr (take r dst @ map (file_byte fs inode) [?p..<?p + k] @ drop (r + k) dst)"
      using write_buf_at [of r "map (file_byte fs inode) [?p..<?p + k]" dst] k(2) by simp
    then show ?thesis unfolding unf by (simp add: False data chunk_bytes [OF s k(1) d False data])
  qed
qed

lemma file_loop_stop:
  assumes "r < n" "0 < unat (block_size fs)" "offset + n < 2 ^ 32"
  shows "EXT2_NDIR_BLOCKS \<le> (offset + r) div unat (block_size fs) \<Longrightarrow> file_loop fs inode offset n r dst = Inr (dst, int r)"
    "(offset + r) div unat (block_size fs) < EXT2_NDIR_BLOCKS \<Longrightarrow> \<not> byte_readable fs inode (offset + r) \<Longrightarrow>
      file_loop fs inode offset n r dst = Inr (dst, - EIO)"
proof -
  let ?s = "unat (block_size fs)" and ?p = "offset + r"
  have p: "?p mod 2 ^ 64 = ?p" using assms by simp
  have "?p div ?s \<le> ?p" by simp
  then have "?p div ?s < 2 ^ 32" using assms by linarith
  then have i: "?p div ?s mod 2 ^ 32 = ?p div ?s" by (rule mod_less)
  have bs: "block_size fs \<noteq> 0" using assms(2) by auto
  show "file_loop fs inode offset n r dst = Inr (dst, int r)" if "EXT2_NDIR_BLOCKS \<le> ?p div ?s"
    by (subst file_loop.simps) (simp only: assms(1) bs that p i Let_def if_True if_False)
  show "file_loop fs inode offset n r dst = Inr (dst, - EIO)" if "?p div ?s < EXT2_NDIR_BLOCKS" "\<not> byte_readable fs inode ?p"
  proof -
    have "\<not> EXT2_NDIR_BLOCKS \<le> ?p div ?s" "i_block inode ! (?p div ?s) \<noteq> 0" "ext2_block_ptr fs (i_block inode ! (?p div ?s)) = None"
      using that by (auto simp: byte_readable_def Let_def)
    then show ?thesis by (subst file_loop.simps) (simp only: assms(1) bs p i Let_def if_True if_False option.case)
  qed
qed

text \<open>How many bytes a read of \<open>n\<close> bytes inside the file reaches: the twelve direct blocks bound it.\<close>

definition reach :: "ext2_fs \<Rightarrow> nat \<Rightarrow> nat \<Rightarrow> nat" where
  "reach fs offset n = min n (EXT2_NDIR_BLOCKS * unat (block_size fs) - offset)"

lemma file_loop_result:
  assumes s: "0 < unat (block_size fs)" and d: "unat (disk_size fs) = length (disk fs)"
    and small: "offset + n < 2 ^ 32" and room: "n \<le> length dst" and r: "r \<le> reach fs offset n"
  shows "if \<forall>p \<in> {offset + r..<offset + reach fs offset n}. byte_readable fs inode p
    then file_loop fs inode offset n r dst = Inr (take r dst @ map (file_byte fs inode) [offset + r..<offset + reach fs offset n] @
      drop (reach fs offset n) dst, int (reach fs offset n))
    else \<exists>dst'. file_loop fs inode offset n r dst = Inr (dst', - EIO) \<and> length dst' = length dst \<and> drop n dst' = drop n dst"
  using room r
proof (induction "n - r" arbitrary: r dst rule: less_induct)
  case less
  let ?s = "unat (block_size fs)" and ?p = "offset + r" and ?m = "reach fs offset n"
  have mn: "?m \<le> n" by (simp add: reach_def)
  show ?case
  proof (cases "r < n \<and> ?p div ?s < EXT2_NDIR_BLOCKS")
    case False
    have "?m \<le> r"
    proof (cases "r < n")
      case True
      then have "EXT2_NDIR_BLOCKS * ?s \<le> ?p" using False s by (meson div_times_less_eq_dividend le_trans mult_le_mono1 not_less)
      then show ?thesis by (simp add: reach_def)
    qed (use mn in simp)
    then have e: "r = ?m" using less.prems(2) by simp
    have "file_loop fs inode offset n r dst = Inr (dst, int r)"
    proof (cases "r < n")
      case True
      then show ?thesis using file_loop_stop(1) [OF True s small] False by simp
    qed (simp add: file_loop.simps [of fs inode offset n r dst])
    then show ?thesis using e by simp
  next
    case True
    then have lt: "r < n" and idx: "?p div ?s < EXT2_NDIR_BLOCKS" by simp_all
    then have "?p < EXT2_NDIR_BLOCKS * ?s" using s by (simp add: div_less_iff_less_mult)
    then have rm: "r < ?m" using lt by (simp add: reach_def)
    show ?thesis
    proof (cases "byte_readable fs inode ?p")
      case False
      then have nb: "\<not> (\<forall>p \<in> {?p..<offset + ?m}. byte_readable fs inode p)" using rm by auto
      show ?thesis unfolding if_not_P [OF nb] using file_loop_stop(2) [OF lt s small idx False] by simp
    next
      case ok: True
      define k where "k = min (?s - ?p mod ?s) (n - r)"
      let ?dst = "take r dst @ map (file_byte fs inode) [?p..<?p + k] @ drop (r + k) dst"
      have kp: "0 < k" "k \<le> ?s - ?p mod ?s" "r + k \<le> n" using lt s by (auto simp: k_def)
      have step: "file_loop fs inode offset n r dst = file_loop fs inode offset n (r + k) ?dst"
        unfolding k_def by (rule file_loop_step [OF lt s d small less.prems(1) idx ok])
      have same: "byte_readable fs inode p" if "?p \<le> p" "p < ?p + k" for p
        using ok chunk_index(1) [OF s, of "p - ?p" ?p] that kp(2) by (simp add: byte_readable_def)
      have "?p + k \<le> EXT2_NDIR_BLOCKS * ?s"
      proof -
        have "?p + k \<le> ?p div ?s * ?s + ?s" using kp(2) mod_less_divisor [OF s, of ?p] div_mult_mod_eq [of ?p ?s] by linarith
        also have "\<dots> = Suc (?p div ?s) * ?s" by simp
        also have "\<dots> \<le> EXT2_NDIR_BLOCKS * ?s" using idx by (intro mult_le_mono1) simp
        finally show ?thesis .
      qed
      then have rk: "r + k \<le> ?m" using kp(3) by (simp add: reach_def)
      have len: "length ?dst = length dst" "n \<le> length ?dst" using less.prems(1) kp by auto
      have tk: "take (r + k) ?dst = take r dst @ map (file_byte fs inode) [?p..<?p + k]" using less.prems(1) kp by simp
      have dr: "drop m ?dst = drop m dst" if "r + k \<le> m" for m using that less.prems(1) kp by simp
      have all: "(\<forall>p \<in> {?p..<offset + ?m}. byte_readable fs inode p) \<longleftrightarrow> (\<forall>p \<in> {offset + (r + k)..<offset + ?m}. byte_readable fs inode p)"
        using same by (auto simp: add.assoc not_less)
      have up: "[?p..<offset + ?m] = [?p..<?p + k] @ [offset + (r + k)..<offset + ?m]"
        using rk upt_add_eq_append [of ?p "?p + k" "?m - (r + k)"] by (simp add: add.assoc)
      have "n - (r + k) < n - r" using kp(1) lt by simp
      note IH = less.hyps [OF this len(2) rk, unfolded tk len(1) dr [OF rk] dr [OF kp(3)]]
      show ?thesis unfolding step all up map_append using IH by (simp only: append_assoc)
    qed
  qed
qed

subsection \<open>Directory entries\<close>

record dirent =
  d_inode :: u32
  d_type :: u8
  d_name :: "u8 list"
  d_pad :: "u8 list"

fun le_bytes :: "nat \<Rightarrow> nat \<Rightarrow> u8 list" where
  "le_bytes 0 v = []"
| "le_bytes (Suc n) v = of_nat v # le_bytes n (v div 256)"

definition rec_len :: "dirent \<Rightarrow> nat" where
  "rec_len e = 8 + length (d_name e) + length (d_pad e)"

definition encode_dirent :: "dirent \<Rightarrow> u8 list" where
  "encode_dirent e = le_bytes 4 (unat (d_inode e)) @ le_bytes 2 (rec_len e) @ [of_nat (length (d_name e))] @ [d_type e] @ d_name e @ d_pad e"

definition dirent_ok :: "dirent \<Rightarrow> bool" where
  "dirent_ok e \<longleftrightarrow> length (d_name e) < 256 \<and> rec_len e < 2 ^ 16"

definition live :: "dirent \<Rightarrow> bool" where
  "live e \<longleftrightarrow> d_inode e \<noteq> 0 \<and> d_name e \<noteq> []"

lemma length_le_bytes [simp]: "length (le_bytes n v) = n"
  by (induction n arbitrary: v) simp_all

lemma le_nat_bytes: "le_nat (le_bytes n v) = v mod 256 ^ n"
proof (induction n arbitrary: v)
  case (Suc n)
  have "unat (of_nat v :: u8) = v mod 256" by (simp add: unat_of_nat take_bit_eq_mod)
  moreover have "v mod 256 ^ Suc n = v mod 256 + 256 * (v div 256 mod 256 ^ n)" by (simp add: mod_mult2_eq)
  ultimately show ?case using Suc by simp
qed simp

lemma length_encode_dirent: "length (encode_dirent e) = rec_len e"
  by (simp add: encode_dirent_def rec_len_def)

text \<open>A callback that keeps what it is given.\<close>

definition collect :: "u8 list \<Rightarrow> (u8 list \<times> u32 \<times> u8) list dir_callback" where
  "collect d name name_len ino ft acc = bnd (rd_bytes d name (unat name_len)) (\<lambda>nm. Inr (acc @ [(nm, ino, ft)]))"

definition entry_view :: "dirent \<Rightarrow> u8 list \<times> u32 \<times> u8" where
  "entry_view e = (d_name e, d_inode e, d_type e)"

lemma entry_fields:
  assumes "stands d off (encode_dirent e)" "dirent_ok e"
  shows "rd_le d (off + 4) 2 = Inr (rec_len e)" "rd_le d off 4 = Inr (unat (d_inode e))"
    "rd_le d (off + 6) 1 = Inr (length (d_name e))" "rd_le d (off + 7) 1 = Inr (unat (d_type e))"
    "rd_bytes d (off + 8) (length (d_name e)) = Inr (d_name e)"
proof -
  have st: "stands d off (le_bytes 4 (unat (d_inode e)))" "stands d (off + 4) (le_bytes 2 (rec_len e))"
    "stands d (off + 6) [of_nat (length (d_name e))]" "stands d (off + 7) [d_type e]" "stands d (off + 8) (d_name e)"
    using assms(1) by (simp_all add: encode_dirent_def stands_append ac_simps del: append_Cons append.simps(2))
  have n: "unat (of_nat (length (d_name e)) :: u8) = length (d_name e)"
    using assms(2) by (simp add: dirent_ok_def unat_of_nat take_bit_nat_eq_self)
  show "rd_le d (off + 4) 2 = Inr (rec_len e)"
    using stands_rd_le [OF st(2), of 2] assms(2) by (simp add: le_nat_bytes dirent_ok_def)
  show "rd_le d off 4 = Inr (unat (d_inode e))"
    using stands_rd_le [OF st(1), of 4] unat_less_32 [of "d_inode e"] by (simp add: le_nat_bytes)
  show "rd_le d (off + 6) 1 = Inr (length (d_name e))" using stands_rd_le [OF st(3), of 1] n by simp
  show "rd_le d (off + 7) 1 = Inr (unat (d_type e))" using stands_rd_le [OF st(4), of 1] by simp
  show "rd_bytes d (off + 8) (length (d_name e)) = Inr (d_name e)" using stands_rd [OF st(5)] by simp
qed

lemma entry_loop_collects:
  assumes "stands d (data + off) (concat (map encode_dirent es))" "\<forall>e \<in> set es. dirent_ok e"
    "off + length (concat (map encode_dirent es)) = remaining"
  shows "entry_loop d (collect d) data remaining off acc = Inr (acc @ map entry_view (filter live es))"
  using assms
proof (induction es arbitrary: off acc)
  case Nil
  then show ?case by (subst entry_loop.simps) simp
next
  case (Cons e es)
  have st: "stands d (data + off) (encode_dirent e)" "stands d (data + (off + rec_len e)) (concat (map encode_dirent es))"
    using Cons.prems(1) by (simp_all add: stands_append length_encode_dirent add.assoc)
  have ok: "dirent_ok e" using Cons.prems(2) by simp
  note F = entry_fields [OF st(1) ok]
  have rem: "off + rec_len e + length (concat (map encode_dirent es)) = remaining"
    using Cons.prems(3) by (simp add: length_encode_dirent)
  have c: "off < remaining" "rec_len e \<noteq> 0" "\<not> remaining - off < rec_len e" using rem by (auto simp: rec_len_def)
  let ?acc = "if live e then acc @ [entry_view e] else acc"
  have len: "unat (of_nat (length (d_name e)) :: u32) = length (d_name e)"
    using ok by (simp add: dirent_ok_def unat_of_nat take_bit_nat_eq_self)
  have cb: "collect d (data + off + 8) (of_nat (length (d_name e))) (of_nat (unat (d_inode e))) (of_nat (unat (d_type e))) acc = Inr (acc @ [entry_view e])"
    unfolding collect_def len F(5) by (simp add: entry_view_def)
  have g: "(unat (d_inode e) \<noteq> 0 \<and> 0 < length (d_name e)) = live e" by (simp add: live_def unat_eq_zero)
  have "entry_loop d (collect d) data remaining off acc =
      bnd (if live e then Inr (acc @ [entry_view e]) else Inr acc) (entry_loop d (collect d) data remaining (off + rec_len e))"
    by (subst entry_loop.simps) (simp only: c F cb g bnd_simps if_True if_False simp_thms)
  also have "\<dots> = entry_loop d (collect d) data remaining (off + rec_len e) ?acc" by simp
  also have "\<dots> = Inr (?acc @ map entry_view (filter live es))" using Cons.IH [OF st(2)] Cons.prems(2) rem by simp
  finally show ?case by simp
qed

text \<open>A directory of whole blocks without holes: \<open>bss\<close> are the entries of each block. Of the blocks behind the
  twelfth, which only indirect blocks lead to, nothing is said.\<close>

definition dir_layout :: "ext2_fs \<Rightarrow> ext2_inode \<Rightarrow> dirent list list \<Rightarrow> bool" where
  "dir_layout fs inode bss \<longleftrightarrow> unat (i_size inode) = length bss * unat (block_size fs) \<and>
     (\<forall>i < length (take EXT2_NDIR_BLOCKS bss). i_block inode ! i \<noteq> 0 \<and>
        unat (i_block inode ! i) * unat (block_size fs) + unat (block_size fs) \<le> unat (disk_size fs) \<and>
        stands (disk fs) (unat (i_block inode ! i) * unat (block_size fs)) (concat (map encode_dirent (bss ! i))) \<and>
        length (concat (map encode_dirent (bss ! i))) = unat (block_size fs) \<and> (\<forall>e \<in> set (bss ! i). dirent_ok e))"

lemma block_loop_collects:
  assumes l: "dir_layout fs inode bss" and s: "0 < unat (block_size fs)" and i: "i \<le> length (take EXT2_NDIR_BLOCKS bss)"
  shows "block_loop fs inode (collect (disk fs)) i (i * unat (block_size fs)) acc =
    Inr (acc @ map entry_view (filter live (concat (drop i (take EXT2_NDIR_BLOCKS bss)))), 0)"
  using i
proof (induction "length (take EXT2_NDIR_BLOCKS bss) - i" arbitrary: i acc)
  case 0
  then have e: "i = length (take EXT2_NDIR_BLOCKS bss)" by linarith
  have "unat (i_size inode) = length bss * unat (block_size fs)" using l by (simp add: dir_layout_def)
  then have "\<not> (i < EXT2_NDIR_BLOCKS \<and> i * unat (block_size fs) < unat (i_size inode))" using e by auto
  then show ?case by (subst block_loop.simps) (use e in \<open>simp only: if_False drop_all order_refl concat.simps filter.simps list.map append_Nil2\<close>)
next
  case (Suc k)
  let ?s = "unat (block_size fs)" and ?b = "i_block inode ! i"
  have lt: "i < length (take EXT2_NDIR_BLOCKS bss)" using Suc.hyps(2) by linarith
  then have L: "?b \<noteq> 0" "unat ?b * ?s + ?s \<le> unat (disk_size fs)" "stands (disk fs) (unat ?b * ?s) (concat (map encode_dirent (bss ! i)))"
    "length (concat (map encode_dirent (bss ! i))) = ?s" "\<forall>e \<in> set (bss ! i). dirent_ok e"
    and sz: "unat (i_size inode) = length bss * ?s" and lim: "i < EXT2_NDIR_BLOCKS"
    using l by (auto simp: dir_layout_def)
  have lb: "i < length bss" using lt by simp
  then have "Suc i * ?s \<le> length bss * ?s" by (intro mult_le_mono1) simp
  then have m: "min (unat (i_size inode) - i * ?s) ?s = ?s" "i * ?s < unat (i_size inode)" using sz s lb by auto
  have c: "i < EXT2_NDIR_BLOCKS \<and> i * ?s < unat (i_size inode)" using lim m(2) by simp
  have ptr: "ext2_block_ptr fs ?b = Some (unat ?b * ?s)" using L(2) by (simp add: block_ptr_iff)
  have E: "entry_loop (disk fs) (collect (disk fs)) (unat ?b * ?s) ?s 0 acc = Inr (acc @ map entry_view (filter live (bss ! i)))"
    using entry_loop_collects [of "disk fs" "unat ?b * ?s" 0 "bss ! i" ?s acc] L(3-5) by simp
  have "block_loop fs inode (collect (disk fs)) i (i * ?s) acc =
      block_loop fs inode (collect (disk fs)) (i + 1) (i * ?s + ?s) (acc @ map entry_view (filter live (bss ! i)))"
    by (subst block_loop.simps) (simp only: if_P [OF c] L(1) ptr m(1) E Let_def if_False option.case bnd_simps)
  also have "i * ?s + ?s = (i + 1) * ?s" by simp
  also have "block_loop fs inode (collect (disk fs)) (i + 1) ((i + 1) * ?s) (acc @ map entry_view (filter live (bss ! i))) =
      Inr (acc @ map entry_view (filter live (bss ! i)) @ map entry_view (filter live (concat (drop (i + 1) (take EXT2_NDIR_BLOCKS bss)))), 0)"
    using Suc.hyps(1) [of "i + 1"] Suc.hyps(2) lt by simp
  also have "bss ! i = take EXT2_NDIR_BLOCKS bss ! i" using lim by simp
  finally show ?case using Cons_nth_drop_Suc [OF lt] by (metis Suc_eq_plus1 concat.simps(2) filter_append map_append)
qed

subsection \<open>Properties\<close>

definition fs_ok :: "ext2_fs \<Rightarrow> bool" where
  "fs_ok fs \<longleftrightarrow> ext2_mounted fs \<and> block_size fs \<noteq> 0 \<and> unat (disk_size fs) = length (disk fs)"

text \<open>C34: reading a file. On a mounted image, reading \<open>count\<close> bytes at \<open>offset\<close> of a regular file
  delivers the bytes of the file from \<open>offset\<close>, holes as zeros, up to the requested count, the end of
  the file or the end of the twelve direct blocks, whichever is first, leaves the rest of the buffer
  alone and returns the number of bytes; if a block of that range lies outside the image the result
  is an input/output error and no byte past the requested range of the buffer changes.\<close>

theorem ext2_read_file_correct:
  assumes "fs_ok fs" "ext2_read_inode fs ino = Inr (Inr inode)" "i_mode inode AND EXT2_S_IFMT = EXT2_S_IFREG"
    "unat count \<le> length dst" "unat offset + unat count < 2 ^ 64"
  shows "let n = min (unat count) (unat (i_size inode) - unat offset); m = reach fs (unat offset) n in
    if \<forall>p \<in> {unat offset..<unat offset + m}. byte_readable fs inode p
    then ext2_read_file fs ino (Some dst) offset count =
      Inr (Some (map (file_byte fs inode) [unat offset..<unat offset + m] @ drop m dst), int m)
    else \<exists>dst'. ext2_read_file fs ino (Some dst) offset count = Inr (Some dst', - EIO) \<and>
      length dst' = length dst \<and> drop n dst' = drop n dst"
proof -
  let ?o = "unat offset" and ?z = "ucast (i_size inode) :: u64"
  let ?n = "min (unat count) (unat (i_size inode) - ?o)"
  have s: "0 < unat (block_size fs)" and d: "unat (disk_size fs) = length (disk fs)" and mt: "ext2_mounted fs"
    using assms(1) by (auto simp: fs_ok_def unat_gt_0)
  note z = unat_ucast_32_64 [of "i_size inode"]
  define c1 where "c1 = (if ?z < offset + count then ?z - offset else count)"
  have rf: "ext2_read_file fs ino (Some dst) offset count =
      (if ?z \<le> offset then Inr (Some dst, 0) else bnd (file_loop fs inode ?o (unat c1) 0 dst) (\<lambda>(dst', ret). Inr (Some dst', ret)))"
    using assms(2,3) mt by (simp add: ext2_read_file_def c1_def Let_def)
  show ?thesis
  proof (cases "?z \<le> offset")
    case True
    then have "?n = 0" using z by (simp add: word_le_nat_alt)
    then show ?thesis using rf True by (simp add: reach_def)
  next
    case False
    then have lt: "?o < unat (i_size inode)" using z by (simp add: word_le_nat_alt not_le)
    have "unat (offset + count) = ?o + unat count" using assms(5) by (rule unat_add_u64)
    then have c: "unat c1 = ?n"
      using False lt z by (auto simp: c1_def word_less_nat_alt word_le_nat_alt unat_sub)
    have small: "?o + ?n < 2 ^ 32" using lt unat_less_32 [of "i_size inode"] by linarith
    have room: "?n \<le> length dst" using assms(4) by simp
    note R = file_loop_result [OF s d small room, of 0 inode, simplified]
    show ?thesis unfolding Let_def rf if_not_P [OF False] c
      using R by (auto split: if_splits)
  qed
qed

text \<open>C35: listing a directory. For a directory of whole blocks without holes, whose directly linked blocks (the first
  twelve) lie on the disk and hold well-formed entries, the listing visits exactly the entries of the first twelve blocks that have an
  inode and a name, in the order in which they stand on the disk, with their name, inode number and type, and
  returns success. A directory of at most twelve blocks is therefore listed completely; from a larger one the entries
  behind the twelfth block are left out, and the return value does not say so.\<close>

theorem ext2_list_dir_correct:
  assumes "fs_ok fs" "ext2_read_inode fs ino = Inr (Inr inode)" "i_mode inode AND EXT2_S_IFMT = EXT2_S_IFDIR"
    "dir_layout fs inode bss"
  shows "ext2_list_dir fs ino (Some (collect (disk fs))) acc = Inr (acc @ map entry_view (filter live (concat (take 12 bss))), 0)"
proof -
  have "0 < unat (block_size fs)" using assms(1) by (simp add: fs_ok_def unat_gt_0)
  from block_loop_collects [OF assms(4) this, of 0 acc] show ?thesis
    using assms by (simp add: ext2_list_dir_def fs_ok_def EXT2_NDIR_BLOCKS_def)
qed

lemma unat_block_size:
  assumes "l < 22"
  shows "unat (push_bit l (1024 :: u32)) = 1024 * 2 ^ l"
proof -
  have "(2 :: nat) ^ l \<le> 2 ^ 21" using assms by (intro power_increasing) auto
  then have lt: "1024 * 2 ^ l < (2 :: nat) ^ 32" by simp
  have "unat (push_bit l (1024 :: u32)) = take_bit LENGTH(32) (push_bit l (unat (1024 :: u32)))"
    by (rule unsigned_push_bit_eq)
  also have "\<dots> = 1024 * 2 ^ l" using lt by (simp add: push_bit_eq_mult take_bit_nat_eq_self mult.commute)
  finally show ?thesis .
qed

text \<open>Mounting. When mounting an image returns success, the image has the magic number, the file
  system is mounted over the whole image, and, for block sizes below four gigabytes, the block size
  is 1024 shifted by the logarithm in the superblock and the block of group descriptors lies
  inside the image; the device is registered. A refused image leaves the mount flag and the devices
  as they were.\<close>

theorem ext2_init_correct:
  assumes "ext2_init get (Some img) rsize fs v = Inr (fs', v', ret)" "unat rsize = length img"
  shows "if ret = 0 then disk fs' = img \<and> sb fs' = superblock_of (take 92 (drop 1024 img)) \<and> s_magic (sb fs') = EXT2_SUPER_MAGIC \<and>
      v' = ext2_register_vfs get v \<and>
      (s_log_block_size (sb fs') < 22 \<longrightarrow> fs_ok fs' \<and> unat (block_size fs') = 1024 * 2 ^ unat (s_log_block_size (sb fs')) \<and>
        gdt fs' + unat (block_size fs') \<le> length img)
    else ret \<in> {- EINVAL, - EIO} \<and> ext2_mounted fs' = ext2_mounted fs \<and> v' = v"
proof (cases "rsize < of_nat (EXT2_SUPERBLOCK_OFFSET + sizeof_superblock)")
  case True
  then show ?thesis using assms(1) by (auto simp: ext2_init_def errno_defs)
next
  case False
  then have l: "1024 + 92 \<le> length img"
    using assms(2) by (simp add: word_less_nat_alt EXT2_SUPERBLOCK_OFFSET_def sizeof_superblock_def)
  define sb1 where "sb1 = superblock_of (take 92 (drop 1024 img))"
  define fs3 where "fs3 = fs\<lparr>disk := img, disk_size := rsize, sb := sb1, block_size := push_bit (unat (s_log_block_size sb1)) 1024,
    inode_size := (if 1 \<le> s_rev_level sb1 \<and> 0 < s_inode_size sb1 then ucast (s_inode_size sb1) else 128),
    groups_count := (s_blocks_count sb1 + s_blocks_per_group sb1 - 1) div s_blocks_per_group sb1\<rparr>"
  define g where "g = ext2_block_ptr fs3 (if block_size fs3 = 1024 then 2 else 1)"
  have rd: "rd_bytes img EXT2_SUPERBLOCK_OFFSET sizeof_superblock = Inr (take 92 (drop 1024 img))"
    using l by (simp add: rd_bytes_def EXT2_SUPERBLOCK_OFFSET_def sizeof_superblock_def)
  have I: "ext2_init get (Some img) rsize fs v =
      (if s_magic sb1 \<noteq> EXT2_SUPER_MAGIC then Inr (fs\<lparr>disk := img, disk_size := rsize, sb := sb1\<rparr>, v, - EINVAL)
       else if 32 \<le> s_log_block_size sb1 \<or> s_blocks_per_group sb1 = 0 then Inl Fault
       else case g of None \<Rightarrow> Inr (fs3, v, - EIO)
         | Some x \<Rightarrow> Inr (fs3\<lparr>gdt := x, ext2_mounted := True\<rparr>, ext2_register_vfs get v, 0))"
    unfolding ext2_init_def option.case if_not_P [OF False]
    by (simp add: rd sb1_def [symmetric] Let_def g_def fs3_def cong: option.case_cong if_cong)
  have F: "disk fs3 = img" "disk_size fs3 = rsize" "sb fs3 = sb1" "ext2_mounted fs3 = ext2_mounted fs"
    "block_size fs3 = push_bit (unat (s_log_block_size sb1)) 1024" by (simp_all add: fs3_def)
  have big: "unat (block_size fs3) = 1024 * 2 ^ unat (s_log_block_size sb1)" if "s_log_block_size sb1 < 22"
    unfolding F by (rule unat_block_size) (use that in \<open>simp add: word_less_nat_alt\<close>)
  have nz: "block_size fs3 \<noteq> 0" if "s_log_block_size sb1 < 22" using big [OF that] by (metis mult_eq_0_iff power_eq_0_iff unsigned_0 zero_neq_numeral)
  have in_img: "x + unat (block_size fs3) \<le> length img" if "g = Some x" for x
    using that assms(2) F(2) by (auto simp: g_def block_ptr_iff split: if_splits)
  consider (err) "ret \<in> {- EINVAL, - EIO}" "ext2_mounted fs' = ext2_mounted fs" "v' = v"
    | (ok) x where "g = Some x" "fs' = fs3\<lparr>gdt := x, ext2_mounted := True\<rparr>" "v' = ext2_register_vfs get v" "ret = 0" "s_magic sb1 = EXT2_SUPER_MAGIC"
    using assms(1) F(4) unfolding I by (auto split: if_splits option.splits)
  then show ?thesis
  proof cases
    case err
    then show ?thesis by (auto simp: errno_defs)
  next
    case ok
    then show ?thesis using F(1-3) big nz in_img [OF ok(1)] assms(2) sb1_def by (auto simp: fs_ok_def)
  qed
qed

text \<open>The device that the mount registers stands for the root directory, which is no regular file:
  reading it always fails.\<close>

lemma ext2_device_read_fails:
  assumes "fs_ok (get w)" "ext2_read_inode (get w) EXT2_ROOT_INO = Inr (Inr inode)" "i_mode inode AND EXT2_S_IFMT = EXT2_S_IFDIR"
  shows "ext2_vfs_read get (ucast EXT2_ROOT_INO) dst count w = Inr (w, dst, - EINVAL)"
  using assms by (simp add: ext2_vfs_read_def ext2_read_file_def fs_ok_def EXT2_ROOT_INO_def EXT2_S_IFDIR_def EXT2_S_IFREG_def)

subsection \<open>A small image\<close>

text \<open>Blocks of 64 bytes: a file of 70 bytes with a hole after its first block, and a directory.\<close>

definition demo_inode :: "nat \<Rightarrow> nat \<Rightarrow> nat \<Rightarrow> u8 list" where
  "demo_inode mode len b = le_bytes 2 mode @ [0, 0] @ le_bytes 4 len @ replicate 32 0 @ le_bytes 4 b @ replicate 84 0"

definition demo_entries :: "dirent list" where
  "demo_entries = [\<lparr>d_inode = 1, d_type = 1, d_name = [97], d_pad = [0, 0, 0]\<rparr>, \<lparr>d_inode = 0, d_type = 1, d_name = [98], d_pad = replicate 43 0\<rparr>]"

definition demo_fs :: ext2_fs where
  "demo_fs = \<lparr>disk = replicate 8 0 @ [1, 0, 0, 0] @ replicate 52 0 @ demo_inode 0x8000 70 5 @ demo_inode 0x4000 64 6 @
       replicate 64 9 @ concat (map encode_dirent demo_entries), disk_size = 448,
     sb = (superblock_of [])\<lparr>s_inodes_count := 2, s_inodes_per_group := 2\<rparr>, block_size = 64, groups_count = 1, inode_size = 128,
     gdt = 0, ext2_mounted = True\<rparr>"

lemma le_nat_zeros: "le_nat (replicate n 0) = 0"
  by (induction n) simp_all

lemma demo_layout:
  "length (disk demo_fs) = 448" "stands (disk demo_fs) 8 [1, 0, 0, 0]"
  "stands (disk demo_fs) 64 (demo_inode 0x8000 70 5)" "stands (disk demo_fs) 192 (demo_inode 0x4000 64 6)"
  "stands (disk demo_fs) 320 (replicate 64 9)" "stands (disk demo_fs) 384 (concat (map encode_dirent demo_entries))"
proof -
  have n: "length (demo_inode m len b) = 128" for m len b by (simp add: demo_inode_def)
  have e: "length (concat (map encode_dirent demo_entries)) = 64" by (simp add: demo_entries_def length_encode_dirent rec_len_def)
  show len: "length (disk demo_fs) = 448" unfolding demo_fs_def by (simp add: n e)
  have "stands (disk demo_fs) 0 (disk demo_fs)" by (simp add: stands_def)
  then have "stands (disk demo_fs) 0 (replicate 8 0 @ [1, 0, 0, 0] @ replicate 52 0 @ demo_inode 0x8000 70 5 @ demo_inode 0x4000 64 6 @
       replicate 64 9 @ concat (map encode_dirent demo_entries))" by (simp add: demo_fs_def)
  then show "stands (disk demo_fs) 8 [1, 0, 0, 0]"
    "stands (disk demo_fs) 64 (demo_inode 0x8000 70 5)" "stands (disk demo_fs) 192 (demo_inode 0x4000 64 6)"
    "stands (disk demo_fs) 320 (replicate 64 9)" "stands (disk demo_fs) 384 (concat (map encode_dirent demo_entries))"
    by (simp_all only: stands_append n length_replicate list.size add_0) simp_all
qed

lemma demo_fs_ok: "fs_ok demo_fs"
  using demo_layout(1) by (simp add: fs_ok_def) (simp add: demo_fs_def)

lemma field_stands: "stands bs off p \<Longrightarrow> n = length p \<Longrightarrow> field bs off n = of_nat (le_nat p)"
  by (simp add: field_def stands_def)

lemma field_zeros:
  assumes "stands bs off (replicate k 0)" "off \<le> p" "p + n \<le> off + k"
  shows "field bs p n = 0"
proof -
  have "k = (p - off) + (n + (off + k - (p + n)))" using assms(2,3) by simp
  then have "replicate k (0 :: u8) = replicate (p - off) 0 @ replicate n 0 @ replicate (off + k - (p + n)) 0"
    by (metis replicate_add)
  then have "stands bs p (replicate n 0)" using assms(1,2) by (simp add: stands_append)
  then show ?thesis using field_stands [of bs p "replicate n 0" n] by (simp add: le_nat_zeros)
qed

lemma demo_inode_view:
  assumes "m < 2 ^ 16" "len < 2 ^ 32" "b < 2 ^ 32"
  shows "inode_of (demo_inode m len b) = \<lparr>i_mode = of_nat m, i_size = of_nat len, i_block = of_nat b # replicate 14 0\<rparr>"
proof -
  let ?d = "demo_inode m len b"
  have "stands ?d 0 ?d" by (simp add: stands_def)
  then have "stands ?d 0 (le_bytes 2 m @ [0, 0] @ le_bytes 4 len @ replicate 32 0 @ le_bytes 4 b @ replicate 84 0)"
    by (simp add: demo_inode_def)
  then have st: "stands ?d 0 (le_bytes 2 m)" "stands ?d 4 (le_bytes 4 len)" "stands ?d 40 (le_bytes 4 b)" "stands ?d 44 (replicate 84 0)"
    by (simp_all only: stands_append length_replicate length_le_bytes list.size add_0) simp_all
  have f: "field ?d 0 2 = (of_nat m :: u16)" "field ?d 4 4 = (of_nat len :: u32)" "field ?d 40 4 = (of_nat b :: u32)"
    using field_stands [OF st(1), of 2] field_stands [OF st(2), of 4] field_stands [OF st(3), of 4] assms by (simp_all add: le_nat_bytes)
  have z: "field ?d (40 + 4 * i) 4 = (0 :: u32)" if "i \<in> set [1..<15]" for i
    using field_zeros [OF st(4), of "40 + 4 * i" 4] that by simp
  have "map (\<lambda>i. field ?d (40 + 4 * i) 4 :: u32) [0..<15] = of_nat b # map (\<lambda>i. field ?d (40 + 4 * i) 4) [1..<15]"
    using f(3) upt_conv_Cons [of 0 15] by simp
  also have "map (\<lambda>i. field ?d (40 + 4 * i) 4 :: u32) [1..<15] = map (\<lambda>i. 0) [1..<15]" by (rule map_cong) (use z in simp_all)
  finally have "map (\<lambda>i. field ?d (40 + 4 * i) 4 :: u32) [0..<15] = of_nat b # replicate 14 0" by (simp add: map_replicate_const)
  then show ?thesis using f by (simp add: inode_of_def)
qed

lemma demo_read_inode:
  "ext2_read_inode demo_fs 1 = Inr (Inr \<lparr>i_mode = 0x8000, i_size = 70, i_block = 5 # replicate 14 0\<rparr>)"
  "ext2_read_inode demo_fs 2 = Inr (Inr \<lparr>i_mode = 0x4000, i_size = 64, i_block = 6 # replicate 14 0\<rparr>)"
proof -
  have c: "ext2_mounted demo_fs" "s_inodes_count (sb demo_fs) = 2" "s_inodes_per_group (sb demo_fs) = 2" "groups_count demo_fs = 1"
    "gdt demo_fs = 0" "block_size demo_fs = 64" "inode_size demo_fs = 128" "disk_size demo_fs = 448"
    by (simp_all add: demo_fs_def)
  have t: "rd_le (disk demo_fs) 8 4 = Inr 1" using stands_rd_le [OF demo_layout(2), of 4] by simp
  have n: "length (demo_inode m len b) = 128" for m len b by (simp add: demo_inode_def)
  have r: "rd_bytes (disk demo_fs) 64 128 = Inr (demo_inode 0x8000 70 5)" "rd_bytes (disk demo_fs) 192 128 = Inr (demo_inode 0x4000 64 6)"
    using stands_rd [OF demo_layout(3)] stands_rd [OF demo_layout(4)] n by simp_all
  show "ext2_read_inode demo_fs 1 = Inr (Inr \<lparr>i_mode = 0x8000, i_size = 70, i_block = 5 # replicate 14 0\<rparr>)"
    using t r demo_inode_view [of "0x8000" 70 5] by (simp add: ext2_read_inode_def c sizeof_inode_def Let_def)
  show "ext2_read_inode demo_fs 2 = Inr (Inr \<lparr>i_mode = 0x4000, i_size = 64, i_block = 6 # replicate 14 0\<rparr>)"
    using t r demo_inode_view [of "0x4000" 64 6] by (simp add: ext2_read_inode_def c sizeof_inode_def Let_def)
qed

theorem ext2_read_file_correct_witness:
  "ext2_read_file demo_fs 1 (Some (replicate 10 1)) 60 8 = Inr (Some ([9, 9, 9, 9, 0, 0, 0, 0] @ [1, 1]), 8)"
proof -
  let ?n = "\<lparr>i_mode = 0x8000, i_size = 70, i_block = 5 # replicate 14 0\<rparr> :: ext2_inode"
  have c: "unat (block_size demo_fs) = 64" "unat (disk_size demo_fs) = 448" by (simp_all add: demo_fs_def)
  have m: "reach demo_fs 60 8 = 8" by (simp add: reach_def c EXT2_NDIR_BLOCKS_def)
  have set: "{60..<68 :: nat} = {60, 61, 62, 63, 64, 65, 66, 67}" by auto
  have rd: "\<forall>p \<in> {60..<68}. byte_readable demo_fs ?n p"
    by (simp add: set byte_readable_def block_ptr_iff c)
  have nine: "disk demo_fs ! (320 + i) = 9" if "i < 64" for i
    using stands_nth [OF demo_layout(5), of i] that by simp
  have bts: "map (file_byte demo_fs ?n) [60..<68] = [9, 9, 9, 9, 0, 0, 0, 0]"
    using nine [of 60] nine [of 61] nine [of 62] nine [of 63] by (simp add: upt_rec file_byte_def c)
  have n: "min 8 (unat (i_size ?n) - 60) = 8" by simp
  have u: "unat (60 :: u64) = 60" "unat (8 :: u64) = 8" by simp_all
  have dr: "drop 8 (replicate 10 (1 :: u8)) = [1, 1]" by (simp add: numeral_eq_Suc)
  have g: "i_mode ?n AND EXT2_S_IFMT = EXT2_S_IFREG" by (simp add: EXT2_S_IFMT_def EXT2_S_IFREG_def)
  have len: "unat (8 :: u64) \<le> length (replicate 10 (1 :: u8))" "unat (60 :: u64) + unat (8 :: u64) < 2 ^ 64" by simp_all
  have s68: "60 + 8 = (68 :: nat)" by simp
  show ?thesis
    using ext2_read_file_correct [OF demo_fs_ok demo_read_inode(1) g len] unfolding Let_def n u m s68 if_P [OF rd] bts dr
    by simp
qed

lemma demo_dir_layout: "dir_layout demo_fs \<lparr>i_mode = 0x4000, i_size = 64, i_block = 6 # replicate 14 0\<rparr> [demo_entries]"
proof -
  have "length (concat (map encode_dirent demo_entries)) = 64" by (simp add: demo_entries_def length_encode_dirent rec_len_def)
  moreover have "\<forall>e \<in> set demo_entries. dirent_ok e" by (simp add: demo_entries_def dirent_ok_def rec_len_def)
  moreover have "unat (block_size demo_fs) = 64" "unat (disk_size demo_fs) = 448" by (simp_all add: demo_fs_def)
  ultimately show ?thesis using demo_layout(6) by (simp add: dir_layout_def EXT2_NDIR_BLOCKS_def)
qed

theorem ext2_list_dir_correct_witness: "ext2_list_dir demo_fs 2 (Some (collect (disk demo_fs))) [] = Inr ([([97], 1, 1)], 0)"
  using ext2_list_dir_correct [OF demo_fs_ok demo_read_inode(2) _ demo_dir_layout, of "[]"]
  by (simp add: EXT2_S_IFMT_def EXT2_S_IFDIR_def demo_entries_def live_def entry_view_def)

text \<open>An empty file system of three blocks of 1024 bytes.\<close>

definition demo_super :: "u8 list" where
  "demo_super = replicate 32 0 @ [1, 0, 0, 0] @ replicate 20 0 @ [0x53, 0xEF] @ replicate 34 0"

definition demo_image :: "u8 list" where
  "demo_image = replicate 1024 0 @ demo_super @ replicate 1956 0"

lemma demo_image_facts:
  "length demo_image = 3072" "rd_bytes demo_image 1024 92 = Inr demo_super" "s_magic (superblock_of demo_super) = EXT2_SUPER_MAGIC"
  "s_log_block_size (superblock_of demo_super) = 0" "s_blocks_per_group (superblock_of demo_super) = 1"
proof -
  have l: "length demo_super = 92" by (simp add: demo_super_def)
  show len: "length demo_image = 3072" by (simp add: demo_image_def l)
  have "stands demo_image 0 (replicate 1024 0 @ demo_super @ replicate 1956 0)" by (simp add: stands_def demo_image_def)
  then have "stands demo_image 1024 demo_super" by (simp_all only: stands_append length_replicate add_0)
  then show "rd_bytes demo_image 1024 92 = Inr demo_super" by (rule stands_rd) (simp add: l)
  have "stands demo_super 0 (replicate 32 0 @ [1, 0, 0, 0] @ replicate 20 0 @ [0x53, 0xEF] @ replicate 34 0)"
    by (simp add: stands_def demo_super_def)
  then have st: "stands demo_super 0 (replicate 32 0)" "stands demo_super 32 [1, 0, 0, 0]" "stands demo_super 56 [0x53, 0xEF]"
    by (simp_all only: stands_append length_replicate list.size add_0) simp_all
  show "s_magic (superblock_of demo_super) = EXT2_SUPER_MAGIC"
    using field_stands [OF st(3), of 2] by (simp add: superblock_of_def EXT2_SUPER_MAGIC_def)
  show "s_log_block_size (superblock_of demo_super) = 0" using field_zeros [OF st(1), of 24 4] by (simp add: superblock_of_def)
  show "s_blocks_per_group (superblock_of demo_super) = 1" using field_stands [OF st(2), of 4] by (simp add: superblock_of_def)
qed

theorem ext2_init_correct_witness:
  "\<exists>fs' v'. ext2_init (\<lambda>w. w) (Some demo_image) 3072 demo_fs vfs_init = Inr (fs', v', 0) \<and> fs_ok fs'"
proof -
  have ok: "\<exists>fs' v'. ext2_init (\<lambda>w. w) (Some demo_image) 3072 demo_fs vfs_init = Inr (fs', v', 0) \<and> sb fs' = superblock_of demo_super"
    using demo_image_facts
    by (simp add: ext2_init_def EXT2_SUPERBLOCK_OFFSET_def sizeof_superblock_def Let_def block_ptr_iff)
  then obtain fs' v' where f: "ext2_init (\<lambda>w. w) (Some demo_image) 3072 demo_fs vfs_init = Inr (fs', v', 0)" "sb fs' = superblock_of demo_super"
    by blast
  have "unat (3072 :: u64) = length demo_image" using demo_image_facts(1) by simp
  from ext2_init_correct [OF f(1) this] show ?thesis using f demo_image_facts(4) by auto
qed

end
