(* ===== verification/Keyboard.thy ===== *)
theory Keyboard
  imports Ringbuf
begin

text \<open>
  The PS/2 keyboard driver of \<open>kernel/kb.c\<close>: the scan code tables, the modifier state and
  the 64-slot key buffer, one slot of which stays empty. The interrupt handler takes the scan
  code it reads from port 0x60 as an argument.
\<close>

definition sc_lower :: "u8 list" where
  "sc_lower = [0, 27, 49, 50, 51, 52, 53, 54, 55, 56, 57, 48, 45, 61, 8,
     9, 113, 119, 101, 114, 116, 121, 117, 105, 111, 112, 91, 93, 10,
     0, 97, 115, 100, 102, 103, 104, 106, 107, 108, 59, 39, 96,
     0, 92, 122, 120, 99, 118, 98, 110, 109, 44, 46, 47, 0,
     42, 0, 32] @ replicate 70 0"

definition sc_upper :: "u8 list" where
  "sc_upper = [0, 27, 33, 64, 35, 36, 37, 94, 38, 42, 40, 41, 95, 43, 8,
     9, 81, 87, 69, 82, 84, 89, 85, 73, 79, 80, 123, 125, 10,
     0, 65, 83, 68, 70, 71, 72, 74, 75, 76, 58, 34, 126,
     0, 124, 90, 88, 67, 86, 66, 78, 77, 60, 62, 63, 0,
     42, 0, 32] @ replicate 70 0"

record kb_state =
  shift_held :: u8
  caps_on :: u8
  kb_buffer :: "u8 list"
  kb_head :: u8
  kb_tail :: u8

definition KB_BUF_SIZE :: nat where
  "KB_BUF_SIZE = 64"

definition kb_start :: kb_state where
  "kb_start = \<lparr>shift_held = 0, caps_on = 0, kb_buffer = replicate 64 0, kb_head = 0, kb_tail = 0\<rparr>"

definition kb_buf_push :: "kb_state \<Rightarrow> u8 \<Rightarrow> kb_state" where
  "kb_buf_push s c =
     (let nxt = of_nat ((unat (kb_head s) + 1) mod KB_BUF_SIZE) in
      if nxt = kb_tail s then s
      else s\<lparr>kb_buffer := (kb_buffer s)[unat (kb_head s) := c], kb_head := nxt\<rparr>)"

definition kb_irq_handler :: "kb_state \<Rightarrow> u8 \<Rightarrow> kb_state" where
  "kb_irq_handler s scancode =
     (if scancode = 0x2A \<or> scancode = 0x36 then s\<lparr>shift_held := 1\<rparr>
      else if scancode = 0xAA \<or> scancode = 0xB6 then s\<lparr>shift_held := 0\<rparr>
      else if scancode = 0x3A then s\<lparr>caps_on := (if caps_on s = 0 then 1 else 0)\<rparr>
      else if scancode AND 0x80 \<noteq> 0 then s
      else if scancode = 0xE0 \<or> scancode = 0xE1 then s
      else
        let use_upper = shift_held s XOR caps_on s;
            c = (if use_upper \<noteq> 0 then sc_upper ! unat scancode else sc_lower ! unat scancode)
        in if c \<noteq> 0 then kb_buf_push s c else s)"

definition kb_getchar :: "kb_state \<Rightarrow> u8 \<times> kb_state" where
  "kb_getchar s =
     (if kb_head s = kb_tail s then (0, s)
      else (kb_buffer s ! unat (kb_tail s),
            s\<lparr>kb_tail := of_nat ((unat (kb_tail s) + 1) mod KB_BUF_SIZE)\<rparr>))"

definition kb_has_input :: "kb_state \<Rightarrow> bool" where
  "kb_has_input s = (kb_head s \<noteq> kb_tail s)"

subsection \<open>Contents of the key buffer\<close>

definition kb_inv :: "kb_state \<Rightarrow> bool" where
  "kb_inv s \<longleftrightarrow> unat (kb_head s) < KB_BUF_SIZE \<and> unat (kb_tail s) < KB_BUF_SIZE \<and>
     length (kb_buffer s) = KB_BUF_SIZE \<and> shift_held s \<in> {0, 1} \<and> caps_on s \<in> {0, 1}"

definition kb_count :: "kb_state \<Rightarrow> nat" where
  "kb_count s = (unat (kb_head s) + KB_BUF_SIZE - unat (kb_tail s)) mod KB_BUF_SIZE"

definition kb_contents :: "kb_state \<Rightarrow> u8 list" where
  "kb_contents s = map (\<lambda>i. kb_buffer s ! ((unat (kb_tail s) + i) mod KB_BUF_SIZE)) [0..<kb_count s]"

lemma kb_mod:
  assumes "h < 64" "t < (64 :: nat)"
  shows "(h + 64 - t) mod 64 = (if t \<le> h then h - t else h + 64 - t)"
    "(h + 1) mod 64 = (if h = 63 then 0 else h + 1)" 
  using assms by (auto simp: mod_if)

lemma kb_ring_sum:
  assumes "h < 64" "t < (64 :: nat)"
  shows "(t + (h + 64 - t) mod 64) mod 64 = h"
  using assms unfolding kb_mod[OF assms] by (auto simp: mod_if)

lemma kb_ring_cmp:
  assumes "h < 64" "t < (64 :: nat)"
  shows "(h + 64 - t) mod 64 = 0 \<longleftrightarrow> h = t"
    "(h + 1) mod 64 = t \<longleftrightarrow> (h + 64 - t) mod 64 = 63"
  using assms unfolding kb_mod[OF assms] by auto

lemma kb_ring_push:
  assumes "h < 64" "t < (64 :: nat)" "(h + 1) mod 64 \<noteq> t"
  shows "((h + 1) mod 64 + 64 - t) mod 64 = Suc ((h + 64 - t) mod 64)"
proof (cases "h = 63")
  case True
  then show ?thesis using assms by (auto simp: mod_if)
next
  case False
  then have "h + 1 < 64" "(h + 1) mod 64 = h + 1" using assms by simp_all
  then show ?thesis using assms kb_mod(1) [of "h + 1" t] kb_mod(1) [of h t] by (auto split: if_splits)
qed

lemma kb_ring_pop:
  assumes "h < 64" "t < (64 :: nat)" "h \<noteq> t"
  shows "(h + 64 - (t + 1) mod 64) mod 64 = (h + 64 - t) mod 64 - 1"
proof (cases "t = 63")
  case True
  then show ?thesis using assms by (auto simp: mod_if)
next
  case False
  then have "t + 1 < 64" "(t + 1) mod 64 = t + 1" using assms by simp_all
  then show ?thesis using assms kb_mod(1) [of h "t + 1"] kb_mod(1) [of h t] by (auto split: if_splits)
qed

lemmas kb_ring_arith = kb_ring_sum kb_ring_cmp kb_ring_push kb_ring_pop

lemma unat_small_u8: "n < 64 \<Longrightarrow> unat (of_nat n :: u8) = n"
  by (simp add: unat_of_nat)

lemma kb_push_spec:
  assumes inv: "kb_inv s"
  shows "kb_inv (kb_buf_push s c)"
    "kb_contents (kb_buf_push s c) = (if length (kb_contents s) < 63 then kb_contents s @ [c] else kb_contents s)"
    "shift_held (kb_buf_push s c) = shift_held s" "caps_on (kb_buf_push s c) = caps_on s"
proof -
  let ?h = "unat (kb_head s)" and ?t = "unat (kb_tail s)"
  have b: "?h < 64" "?t < 64" "length (kb_buffer s) = 64" using inv by (auto simp: kb_inv_def KB_BUF_SIZE_def)
  note ar = kb_ring_arith [OF b(1,2)]
  have n: "unat (of_nat ((?h + 1) mod 64) :: u8) = (?h + 1) mod 64" by (rule unat_small_u8) simp
  then have full: "(of_nat ((?h + 1) mod 64) :: u8) = kb_tail s \<longleftrightarrow> kb_count s = 63"
    using ar(3) by (simp add: word_unat_eq_iff kb_count_def KB_BUF_SIZE_def)
  have le: "kb_count s \<le> 63" by (simp add: kb_count_def KB_BUF_SIZE_def less_Suc_eq_le [symmetric])
  show "kb_inv (kb_buf_push s c)" "shift_held (kb_buf_push s c) = shift_held s"
    "caps_on (kb_buf_push s c) = caps_on s"
    using inv n by (auto simp: kb_buf_push_def kb_inv_def Let_def KB_BUF_SIZE_def)
  show "kb_contents (kb_buf_push s c) = (if length (kb_contents s) < 63 then kb_contents s @ [c] else kb_contents s)"
  proof (cases "kb_count s = 63")
    case True
    then show ?thesis using full by (simp add: kb_buf_push_def KB_BUF_SIZE_def kb_contents_def)
  next
    case False
    let ?s = "kb_buf_push s c"
    have s: "?s = s\<lparr>kb_buffer := (kb_buffer s)[?h := c], kb_head := of_nat ((?h + 1) mod 64)\<rparr>"
      using False full by (simp add: kb_buf_push_def KB_BUF_SIZE_def)
    have cnt: "kb_count ?s = Suc (kb_count s)"
      using ar(3,4) n False by (simp add: s kb_count_def KB_BUF_SIZE_def)
    have hd: "(?t + kb_count s) mod 64 = ?h" using ar(1) by (simp add: kb_count_def KB_BUF_SIZE_def)
    have ne: "(?t + i) mod 64 \<noteq> ?h" if "i < kb_count s" for i
      using mod_add_inj [of i 64 "kb_count s" ?t] that le hd by auto
    have "map (\<lambda>i. (kb_buffer s)[?h := c] ! ((?t + i) mod 64)) [0..<kb_count s] =
        map (\<lambda>i. kb_buffer s ! ((?t + i) mod 64)) [0..<kb_count s]"
      by (rule map_cong) (auto simp: nth_upd dest: ne)
    then show ?thesis
      using False le cnt hd b by (simp add: kb_contents_def s KB_BUF_SIZE_def)
  qed
qed

lemma kb_getchar_spec:
  assumes inv: "kb_inv s"
  shows "kb_contents s = [] \<Longrightarrow> kb_getchar s = (0, s)"
    "kb_contents s = c # cs \<Longrightarrow> fst (kb_getchar s) = c \<and> kb_inv (snd (kb_getchar s)) \<and>
      kb_contents (snd (kb_getchar s)) = cs"
    "kb_has_input s \<longleftrightarrow> kb_contents s \<noteq> []"
proof -
  let ?h = "unat (kb_head s)" and ?t = "unat (kb_tail s)"
  have b: "?h < 64" "?t < 64" "length (kb_buffer s) = 64" using inv by (auto simp: kb_inv_def KB_BUF_SIZE_def)
  note ar = kb_ring_arith [OF b(1,2)]
  have eq: "kb_head s = kb_tail s \<longleftrightarrow> kb_count s = 0"
    using ar(2) by (simp add: word_unat_eq_iff kb_count_def KB_BUF_SIZE_def)
  have emp: "kb_contents s = [] \<longleftrightarrow> kb_count s = 0" by (simp add: kb_contents_def)
  then show "kb_has_input s \<longleftrightarrow> kb_contents s \<noteq> []" by (simp add: kb_has_input_def eq)
  show "kb_contents s = [] \<Longrightarrow> kb_getchar s = (0, s)" using emp eq by (simp add: kb_getchar_def)
  assume c: "kb_contents s = c # cs"
  then obtain n where n: "kb_count s = Suc n" using emp by (cases "kb_count s") auto
  have un: "unat (of_nat ((?t + 1) mod 64) :: u8) = (?t + 1) mod 64" by (rule unat_small_u8) simp
  let ?s = "s\<lparr>kb_tail := of_nat ((?t + 1) mod 64)\<rparr>"
  have g: "kb_getchar s = (kb_buffer s ! ?t, ?s)" using n eq by (simp add: kb_getchar_def KB_BUF_SIZE_def)
  have cnt: "kb_count ?s = n"
    using ar(5) n eq un by (simp add: kb_count_def KB_BUF_SIZE_def word_unat_eq_iff)
  have "kb_contents s = kb_buffer s ! (?t mod 64) # map (\<lambda>i. kb_buffer s ! ((?t + Suc i) mod 64)) [0..<n]"
    unfolding kb_contents_def n KB_BUF_SIZE_def
    by (simp add: upt_conv_Cons map_Suc_upt [symmetric] del: upt_Suc)
  moreover have "((?t + 1) mod 64 + i) mod 64 = (?t + Suc i) mod 64" for i
    by (simp add: mod_add_left_eq)
  ultimately show "fst (kb_getchar s) = c \<and> kb_inv (snd (kb_getchar s)) \<and> kb_contents (snd (kb_getchar s)) = cs"
    using c b cnt un inv by (simp add: g kb_contents_def kb_inv_def KB_BUF_SIZE_def)
qed

subsection \<open>The key buffer as a bounded queue\<close>

definition kb_put :: "kb_state \<Rightarrow> u8 \<Rightarrow> kb_state option" where
  "kb_put s c = (if kb_count s < 63 then Some (kb_buf_push s c) else None)"

definition kb_get :: "kb_state \<Rightarrow> (u8 \<times> kb_state) option" where
  "kb_get s = (if kb_has_input s then Some (kb_getchar s) else None)"

lemma length_kb_contents [simp]: "length (kb_contents s) = kb_count s"
  by (simp add: kb_contents_def)

interpretation kb: bounded_fifo kb_inv kb_contents "\<lambda>_. 63" kb_put kb_get
proof
  fix s x assume inv: "kb_inv s"
  show "length (kb_contents s) \<le> 63"
    by (simp add: kb_count_def KB_BUF_SIZE_def less_Suc_eq_le [symmetric])
  show "\<exists>q'. kb_put s x = Some q' \<and> kb_inv q' \<and> 63 = 63 \<and> kb_contents q' = kb_contents s @ [x]"
    if "length (kb_contents s) < 63"
    using kb_push_spec [OF inv, of x] that by (simp add: kb_put_def)
  show "kb_put s x = None" if "length (kb_contents s) = 63"
    using that by (simp add: kb_put_def)
next
  fix s x xs assume inv: "kb_inv s"
  note G = kb_getchar_spec [OF inv]
  show "kb_get s = None" if "kb_contents s = []" using G(3) that by (simp add: kb_get_def)
  show "\<exists>q'. kb_get s = Some (x, q') \<and> kb_inv q' \<and> 63 = 63 \<and> kb_contents q' = xs"
    if "kb_contents s = x # xs"
    using G(2) [OF that] G(3) that by (cases "kb_getchar s") (simp add: kb_get_def)
qed

subsection \<open>Typing\<close>

text \<open>What a sequence of scan codes means, with no buffer in it: the modifiers are booleans
  and the output is the list of characters.\<close>

fun decode :: "bool \<Rightarrow> bool \<Rightarrow> u8 list \<Rightarrow> u8 list" where
  "decode shift caps [] = []"
| "decode shift caps (sc # scs) =
     (if sc \<in> {0x2A, 0x36} then decode True caps scs
      else if sc \<in> {0xAA, 0xB6} then decode False caps scs
      else if sc = 0x3A then decode shift (\<not> caps) scs
      else if 128 \<le> sc then decode shift caps scs
      else (let c = (if shift = caps then sc_lower else sc_upper) ! unat sc
            in (if c = 0 then [] else [c]) @ decode shift caps scs))"

lemma bit7: "(sc :: u8) AND 0x80 \<noteq> 0 \<longleftrightarrow> 128 \<le> sc"
proof -
  have "sc AND 2 ^ 7 = 0 \<longleftrightarrow> \<not> bit sc 7" by (simp only: and_exp_eq_0_iff_not_bit)
  moreover have "bit sc 7 \<longleftrightarrow> odd (unat sc div 2 ^ 7)" 
  proof -
    have "bit (unat sc) 7 \<longleftrightarrow> bit sc 7" by (simp add: bit_unsigned_iff)
    then show ?thesis by (simp only: bit_iff_odd [of "unat sc"])
  qed
  moreover have "unat sc < 256" using unsigned_less [of sc, where ?'a = nat] by simp
  moreover have "odd (n div 2 ^ 7) \<longleftrightarrow> 128 \<le> n" if "n < 256" for n :: nat
  proof (cases "n < 128")
    case False
    then have "n div 128 = 1" using that by (intro div_nat_eqI) auto
    then show ?thesis using False by simp
  qed simp
  ultimately show ?thesis by (simp add: word_le_nat_alt)
qed

lemma kb_irq_steps:
  assumes inv: "kb_inv s"
  shows "kb_inv (kb_irq_handler s sc) \<and>
    take 63 (kb_contents (kb_irq_handler s sc) @ decode (shift_held (kb_irq_handler s sc) \<noteq> 0)
        (caps_on (kb_irq_handler s sc) \<noteq> 0) scs) =
    take 63 (kb_contents s @ decode (shift_held s \<noteq> 0) (caps_on s \<noteq> 0) (sc # scs))"
proof -
  have fr: "kb_contents (s\<lparr>shift_held := v\<rparr>) = kb_contents s" "kb_contents (s\<lparr>caps_on := v\<rparr>) = kb_contents s" for v
    by (simp_all add: kb_contents_def kb_count_def)
  have e: "\<not> 128 \<le> sc \<Longrightarrow> sc \<noteq> 0xE0 \<and> sc \<noteq> 0xE1" by auto
  have x: "shift_held s XOR caps_on s \<noteq> 0 \<longleftrightarrow> (shift_held s \<noteq> 0) \<noteq> (caps_on s \<noteq> 0)"
    using inv by (auto simp: kb_inv_def)
  have tk: "take 63 (xs @ c # ys) = take 63 (xs @ ys)" if "\<not> length xs < 63" for xs ys and c :: u8
    using that by simp
  note P = kb_push_spec [OF inv]
  consider (shift) "sc \<in> {0x2A, 0x36, 0xAA, 0xB6, 0x3A}" | (up) "sc \<notin> {0x2A, 0x36, 0xAA, 0xB6, 0x3A}" "128 \<le> sc"
    | (key) "sc \<notin> {0x2A, 0x36, 0xAA, 0xB6, 0x3A}" "\<not> 128 \<le> sc" by blast
  then show ?thesis
  proof cases
    case shift
    then consider "sc = 0x2A" | "sc = 0x36" | "sc = 0xAA" | "sc = 0xB6" | "sc = 0x3A" by blast
    then show ?thesis
      by cases (use inv fr in \<open>simp_all add: kb_irq_handler_def kb_inv_def\<close>)
  next
    case up
    then have "kb_irq_handler s sc = s" using bit7 [of sc] by (auto simp: kb_irq_handler_def)
    then show ?thesis using inv up by auto
  next
    case key
    define c where "c = (if (shift_held s \<noteq> 0) = (caps_on s \<noteq> 0) then sc_lower else sc_upper) ! unat sc"
    have h: "kb_irq_handler s sc = (if c \<noteq> 0 then kb_buf_push s c else s)"
      using key bit7 [of sc] e x by (auto simp: kb_irq_handler_def c_def Let_def)
    have d: "decode (shift_held s \<noteq> 0) (caps_on s \<noteq> 0) (sc # scs) =
        (if c = 0 then [] else [c]) @ decode (shift_held s \<noteq> 0) (caps_on s \<noteq> 0) scs"
      using key by (simp add: c_def)
    show ?thesis using P inv unfolding h d by (simp del: take_append length_kb_contents add: tk)
  qed
qed

lemma kb_irq_sequence:
  assumes "kb_inv s"
  shows "kb_contents (foldl kb_irq_handler s scs) =
    take 63 (kb_contents s @ decode (shift_held s \<noteq> 0) (caps_on s \<noteq> 0) scs)"
  using assms
proof (induction scs arbitrary: s)
  case Nil
  then show ?case using kb.within [OF Nil] by simp
next
  case (Cons sc scs)
  note st = kb_irq_steps [OF Cons.prems, of sc scs]
  then have inv: "kb_inv (kb_irq_handler s sc)" by blast
  show ?case
    using Cons.IH [OF inv] conjunct2 [OF st] by (simp only: foldl.simps)
qed

subsection \<open>Properties\<close>

text \<open>Typing. Starting from an empty buffer, the characters the keyboard interrupts leave in
  it are the first 63 characters that the scan codes mean under Shift and Caps Lock, in the
  order typed; later ones are dropped, earlier ones are never overwritten. Reading returns them
  in that order.\<close>

theorem kb_typing_correct:
  "kb_contents (foldl kb_irq_handler kb_start scs) = take 63 (decode False False scs) \<and>
   (\<exists>q. gets kb_get (foldl kb_irq_handler kb_start scs) (length (take 63 (decode False False scs))) =
     Some (take 63 (decode False False scs), q) \<and> \<not> kb_has_input q)"
proof -
  have inv: "kb_inv kb_start" "kb_contents kb_start = []"
    by (simp_all add: kb_inv_def kb_start_def KB_BUF_SIZE_def kb_contents_def kb_count_def)
  have fl: "shift_held kb_start = 0" "caps_on kb_start = 0" by (simp_all add: kb_start_def)
  have c: "kb_contents (foldl kb_irq_handler kb_start scs) = take 63 (decode False False scs)"
    using kb_irq_sequence [OF inv(1), of scs] unfolding inv(2) fl by simp
  have "kb_inv (foldl kb_irq_handler s scs)" if "kb_inv s" for s
    using that
  proof (induction scs arbitrary: s)
    case (Cons sc scs)
    then show ?case using kb_irq_steps [OF Cons.prems, of sc "[]"] by simp
  qed simp
  from kb.gets_prefix [OF this [OF inv(1)], of "take 63 (decode False False scs)" "[]"] c
  show ?thesis using kb_getchar_spec(3) by auto
qed

end
