(* ===== verification/Devfs.thy ===== *)
theory Devfs
  imports Ext2_Spec Keyboard
begin

text \<open>
  The devices behind the file system layer: \<open>kernel/devfs.c\<close> (serial line, console, keyboard, null
  and zero) and the ramdisk of \<open>kernel/ramdisk.c\<close>.

  The world of the devices holds the bytes handed to the serial line and to the console, the bytes
  that wait in the serial receiver, the keyboard driver, the ramdisk and the mounted file system.
  The module list that the boot loader passes is an argument.
\<close>

record ramdisk =
  rd_base :: "u8 list"
  rd_size :: u64
  rd_loaded :: bool

record dev_world =
  printed :: printer
  uart_rx :: "u8 list"
  kbd :: kb_state
  rdisk :: ramdisk
  ext2fs :: ext2_fs

subsection \<open>Devices\<close>

definition serial_write :: "u64 \<Rightarrow> u8 list \<Rightarrow> u64 \<Rightarrow> dev_world \<Rightarrow> (dev_world \<times> int) res" where
  "serial_write private src count w =
     bnd (rd_bytes src 0 (unat count)) (\<lambda>bs.
       Inr (w\<lparr>printed := (printed w)\<lparr>uart_out := uart_out (printed w) @ bs\<rparr>\<rparr>, sint count))"

definition uart_getc :: "u8 list \<Rightarrow> u8 \<times> u8 list" where
  "uart_getc rx = (case rx of [] \<Rightarrow> (0, []) | c # cs \<Rightarrow> (c, cs))"

text \<open>The read loop of the serial line and the keyboard: it stops at the first zero character.\<close>

fun read_chars :: "('s \<Rightarrow> u8 \<times> 's) \<Rightarrow> nat \<Rightarrow> 's \<Rightarrow> u8 list \<times> 's" where
  "read_chars getc 0 s = ([], s)"
| "read_chars getc (Suc n) s =
     (case getc s of (c, s') \<Rightarrow> if c = 0 then ([], s') else (case read_chars getc n s' of (cs, s'') \<Rightarrow> (c # cs, s'')))"

definition serial_read :: "u64 \<Rightarrow> u8 list \<Rightarrow> u64 \<Rightarrow> dev_world \<Rightarrow> (dev_world \<times> u8 list \<times> int) res" where
  "serial_read private dst count w =
     (case read_chars uart_getc (unat count) (uart_rx w) of (cs, rx) \<Rightarrow>
        bnd (write_buf dst 0 cs) (\<lambda>dst'. Inr (w\<lparr>uart_rx := rx\<rparr>, dst', int (length cs))))"

definition console_write_vfs :: "u64 \<Rightarrow> u8 list \<Rightarrow> u64 \<Rightarrow> dev_world \<Rightarrow> (dev_world \<times> int) res" where
  "console_write_vfs private src count w =
     bnd (rd_bytes src 0 (unat count)) (\<lambda>bs.
       Inr (w\<lparr>printed := (printed w)\<lparr>console_out := console_out (printed w) @ bs\<rparr>\<rparr>, sint count))"

definition keyboard_read :: "u64 \<Rightarrow> u8 list \<Rightarrow> u64 \<Rightarrow> dev_world \<Rightarrow> (dev_world \<times> u8 list \<times> int) res" where
  "keyboard_read private dst count w =
     (case read_chars kb_getchar (unat count) (kbd w) of (cs, k) \<Rightarrow>
        bnd (write_buf dst 0 cs) (\<lambda>dst'. Inr (w\<lparr>kbd := k\<rparr>, dst', int (length cs))))"

definition null_write :: "u64 \<Rightarrow> u8 list \<Rightarrow> u64 \<Rightarrow> dev_world \<Rightarrow> (dev_world \<times> int) res" where
  "null_write private src count w = Inr (w, sint count)"

definition null_read :: "u64 \<Rightarrow> u8 list \<Rightarrow> u64 \<Rightarrow> dev_world \<Rightarrow> (dev_world \<times> u8 list \<times> int) res" where
  "null_read private dst count w = Inr (w, dst, 0)"

definition zero_read :: "u64 \<Rightarrow> u8 list \<Rightarrow> u64 \<Rightarrow> dev_world \<Rightarrow> (dev_world \<times> u8 list \<times> int) res" where
  "zero_read private dst count w = bnd (write_buf dst 0 (replicate (unat count) 0)) (\<lambda>dst'. Inr (w, dst', sint count))"

definition serial_ops :: "dev_world file_ops" where
  "serial_ops = \<lparr>f_open = None, f_close = None, f_read = Some serial_read, f_write = Some serial_write, f_ioctl = None\<rparr>"

definition console_ops :: "dev_world file_ops" where
  "console_ops = \<lparr>f_open = None, f_close = None, f_read = None, f_write = Some console_write_vfs, f_ioctl = None\<rparr>"

definition keyboard_ops :: "dev_world file_ops" where
  "keyboard_ops = \<lparr>f_open = None, f_close = None, f_read = Some keyboard_read, f_write = None, f_ioctl = None\<rparr>"

definition null_ops :: "dev_world file_ops" where
  "null_ops = \<lparr>f_open = None, f_close = None, f_read = Some null_read, f_write = Some null_write, f_ioctl = None\<rparr>"

definition zero_ops :: "dev_world file_ops" where
  "zero_ops = \<lparr>f_open = None, f_close = None, f_read = Some zero_read, f_write = Some null_write, f_ioctl = None\<rparr>"

definition register_all :: "(u8 list \<times> dev_world file_ops) list \<Rightarrow> dev_world vfs \<Rightarrow> dev_world vfs" where
  "register_all ds v = foldl (\<lambda>v (name, ops). fst (vfs_register_device name VN_CHARDEV ops 0 v)) v ds"

definition devfs_init :: "dev_world vfs \<Rightarrow> dev_world vfs" where
  "devfs_init v = register_all [(str ''serial'', serial_ops), (str ''console'', console_ops), (str ''keyboard'', keyboard_ops),
     (str ''null'', null_ops), (str ''zero'', zero_ops)] v"

subsection \<open>The ramdisk\<close>

definition ramdisk_vfs_read :: "u64 \<Rightarrow> u8 list \<Rightarrow> u64 \<Rightarrow> dev_world \<Rightarrow> (dev_world \<times> u8 list \<times> int) res" where
  "ramdisk_vfs_read private dst count w =
     (let rd = rdisk w in
      if \<not> rd_loaded rd then Inr (w, dst, - EIO)
      else
        let count1 = (if rd_size rd < count then rd_size rd else count) in
        bnd (rd_bytes (rd_base rd) 0 (unat count1)) (\<lambda>bs. bnd (write_buf dst 0 bs) (\<lambda>dst'. Inr (w, dst', sint count1))))"

definition ramdisk_ops :: "dev_world file_ops" where
  "ramdisk_ops = \<lparr>f_open = None, f_close = None, f_read = Some ramdisk_vfs_read, f_write = None, f_ioctl = None\<rparr>"

definition ramdisk_read :: "ramdisk \<Rightarrow> u64 \<Rightarrow> u8 list option \<Rightarrow> u64 \<Rightarrow> (u8 list option \<times> int) res" where
  "ramdisk_read rd offset dest count =
     (if \<not> rd_loaded rd then Inr (dest, - EIO)
      else case dest of None \<Rightarrow> Inr (dest, - EINVAL)
        | Some dst \<Rightarrow>
          if rd_size rd \<le> offset then Inr (dest, 0)
          else
            let count1 = (if rd_size rd < offset + count then rd_size rd - offset else count) in
            bnd (rd_bytes (rd_base rd) (unat offset) (unat count1)) (\<lambda>bs.
              bnd (write_buf dst 0 bs) (\<lambda>dst'. Inr (Some dst', sint count1))))"

definition ramdisk_get_base :: "ramdisk \<Rightarrow> u8 list option" where
  "ramdisk_get_base rd = (if rd_loaded rd then Some (rd_base rd) else None)"

definition ramdisk_get_size :: "ramdisk \<Rightarrow> u64" where
  "ramdisk_get_size rd = (if rd_loaded rd then rd_size rd else 0)"

text \<open>A module of the boot loader: its bytes, if it has an address, and its size.\<close>

record boot_module =
  mod_address :: "u8 list option"
  mod_size :: u64

definition ramdisk_init :: "boot_module option list option \<Rightarrow> dev_world vfs \<Rightarrow> dev_world \<Rightarrow> (dev_world vfs \<times> dev_world) res" where
  "ramdisk_init response v w =
     (case response of None \<Rightarrow> Inr (v, w)
      | Some [] \<Rightarrow> Inr (v, w)
      | Some (None # _) \<Rightarrow> Inr (v, w)
      | Some (Some m # _) \<Rightarrow>
        (case mod_address m of None \<Rightarrow> Inr (v, w)
         | Some bs \<Rightarrow>
           if mod_size m = 0 then Inr (v, w)
           else
             let w1 = w\<lparr>rdisk := \<lparr>rd_base = bs, rd_size = mod_size m, rd_loaded = True\<rparr>\<rparr>;
                 v1 = fst (vfs_register_device (str ''ramdisk'') VN_BLOCKDEV ramdisk_ops 0 v)
             in bnd (ext2_init ext2fs (Some bs) (mod_size m) (ext2fs w1) v1) (\<lambda>(fs, v2, ret).
                  let w2 = w1\<lparr>ext2fs := fs\<rparr> in
                  if ret = 0 then bnd (ext2_list_root fs (printed w2)) (\<lambda>p. Inr (v2, w2\<lparr>printed := p\<rparr>))
                  else Inr (v2, w2))))"

subsection \<open>Reading typed text\<close>

lemma decode_nonzero: "0 \<notin> set (decode shift caps scs)"
  by (induction shift caps scs rule: decode.induct) (auto simp: Let_def)

lemma kb_inv_typing: "kb_inv s \<Longrightarrow> kb_inv (foldl kb_irq_handler s scs)"
proof (induction scs arbitrary: s)
  case (Cons sc scs)
  then show ?case using kb_irq_steps [of s sc "[]"] by simp
qed simp

lemma read_chars_kb:
  assumes "kb_inv s" "0 \<notin> set (kb_contents s)"
  shows "\<exists>s'. read_chars kb_getchar n s = (take n (kb_contents s), s') \<and> kb_inv s' \<and> kb_contents s' = drop n (kb_contents s)"
  using assms
proof (induction n arbitrary: s)
  case (Suc n)
  note G = kb_getchar_spec [OF Suc.prems(1)]
  show ?case
  proof (cases "kb_contents s")
    case Nil
    then show ?thesis using G(1) Suc.prems by simp
  next
    case (Cons c cs)
    obtain s1 where s1: "kb_getchar s = (c, s1)" "kb_inv s1" "kb_contents s1 = cs" using G(2) [OF Cons] by (cases "kb_getchar s") auto
    moreover have "c \<noteq> 0" "0 \<notin> set cs" using Suc.prems(2) Cons by auto
    ultimately show ?thesis using Suc.IH [of s1] Cons by auto
  qed
qed simp

lemma register_all_ok: "vfs_ok v \<Longrightarrow> vfs_ok (register_all ds v)"
proof (induction ds arbitrary: v)
  case (Cons d ds)
  obtain name ops where "d = (name, ops)" by (rule prod.exhaust)
  then show ?case using Cons register_ok(1) [OF Cons.prems refl] by (simp add: register_all_def)
qed (simp add: register_all_def)

lemma devfs_tables:
  "vfs_ok (devfs_init vfs_init)" "vfs_lookup (devfs_init vfs_init) (str ''keyboard'') = Some 2"
  "vops (devices (devfs_init vfs_init) ! 2) = Some keyboard_ops" "fd_table (devfs_init vfs_init) = replicate 16 zero_file"
  "fd_pool (devfs_init vfs_init) = id_pool_init" "length (devices (devfs_init vfs_init)) = 16"
proof -
  show "vfs_ok (devfs_init vfs_init)" unfolding devfs_init_def by (rule register_all_ok [OF vfs_init_ok])
  have n: "str ''serial'' \<noteq> str ''keyboard''" "str ''console'' \<noteq> str ''keyboard''" "length (str ''keyboard'') \<le> 31"
    "length (str ''serial'') \<le> 31" "length (str ''console'') \<le> 31"
    by (simp_all add: str_def)
  have d: "device_count (devfs_init vfs_init) = 5"
    "vname (devices (devfs_init vfs_init) ! 0) = take 31 (str ''serial'')" "vname (devices (devfs_init vfs_init) ! 1) = take 31 (str ''console'')"
    "vname (devices (devfs_init vfs_init) ! 2) = take 31 (str ''keyboard'')"
    "vops (devices (devfs_init vfs_init) ! 2) = Some keyboard_ops" "fd_table (devfs_init vfs_init) = replicate 16 zero_file"
    "fd_pool (devfs_init vfs_init) = id_pool_init" "length (devices (devfs_init vfs_init)) = 16"
    by (simp_all add: devfs_init_def register_all_def vfs_register_device_def vfs_init_def VFS_MAX_DEVICES_def VFS_MAX_FDS_def VN_NAME_MAX_def numeral_2_eq_2)
  show "vfs_lookup (devfs_init vfs_init) (str ''keyboard'') = Some 2"
    using n d(1-4) by (simp add: vfs_lookup_def upt_rec flip: numeral_2_eq_2)
  show "vops (devices (devfs_init vfs_init) ! 2) = Some keyboard_ops" "fd_table (devfs_init vfs_init) = replicate 16 zero_file"
    "fd_pool (devfs_init vfs_init) = id_pool_init" "length (devices (devfs_init vfs_init)) = 16" by (fact d)+
qed

lemma init_pool_alloc: "\<exists>p. id_alloc id_pool_init = (p, 0) \<and> pool_avail p = pool_avail id_pool_init - {0}"
proof -
  have m: "Min (pool_avail id_pool_init) = 0" unfolding pool_init_avail by (intro Min_eqI) simp_all
  have "pool_avail id_pool_init \<noteq> {}" unfolding pool_init_avail by (simp add: lessThan_empty_iff)
  then obtain q where "id_alloc id_pool_init = (q, int (Min (pool_avail id_pool_init)))"
      "pool_avail q = pool_avail id_pool_init - {Min (pool_avail id_pool_init)}"
    using id_alloc_lowest(2) by blast
  then have "id_alloc id_pool_init = (q, 0)" "pool_avail q = pool_avail id_pool_init - {0}" unfolding m by simp_all
  then show ?thesis by blast
qed

lemma sint_small:
  assumes "unat (x :: u64) < 2 ^ 63"
  shows "sint x = int (unat x)"
proof -
  have "int (unat x) < int (2 ^ 63)" using assms by (simp only: of_nat_less_iff)
  then have "- (2 ^ 63) \<le> uint x" "uint x < 2 ^ 63" by (simp_all add: order_trans [OF _ uint_nonnegative])
  then have "signed_take_bit 63 (uint x) = uint x" by (rule signed_take_bit_int_eq_self)
  then show ?thesis by (simp add: sint_uint)
qed

subsection \<open>Properties\<close>

text \<open>C36: from the keys to the reader. After boot the keyboard can be opened by its name as
  descriptor 0. The key buffer holds at most 63 characters: of the characters that the scan codes typed before a read mean, the
  first 63 are kept and every later one is dropped. A read returns the kept characters, in order, as
  many as were asked for and are there; the others of them stay for the next read, and the rest of the
  reader's buffer is not touched. The reader's buffer must have room for the requested count.\<close>

theorem devfs_typed_text:
  assumes "unat count \<le> length dst"
  shows "\<exists>v. vfs_open (str ''keyboard'') flags (devfs_init vfs_init) w = Inr (v, w, 0) \<and> vfs_ok v \<and>
    (let typed = take 63 (decode False False scs); w1 = w\<lparr>kbd := foldl kb_irq_handler kb_start scs\<rparr> in
     \<exists>k. vfs_read 0 dst count v w1 =
         Inr (w1\<lparr>kbd := k\<rparr>, take (unat count) typed @ drop (length (take (unat count) typed)) dst, int (length (take (unat count) typed))) \<and>
       kb_contents k = drop (unat count) typed)"
proof -
  let ?v = "devfs_init vfs_init" and ?typed = "take 63 (decode False False scs)" and ?s = "foldl kb_irq_handler kb_start scs"
  let ?w1 = "w\<lparr>kbd := ?s\<rparr>" and ?t = "take (unat count) (take 63 (decode False False scs))"
  note T = devfs_tables
  obtain p where p: "id_alloc (fd_pool ?v) = (p, int 0)" "pool_avail p = pool_avail (fd_pool ?v) - {0}"
    using init_pool_alloc T(5) by auto
  have low: "lowest_fd ?v 0" using T(4) by (simp add: lowest_fd_def fd_used_def zero_file_def VFS_MAX_FDS_def)
  define v where "v = take_fd 0 2 flags p ?v"
  note O = vfs_open_free [OF T(1,2) low p v_def]
  have op: "vfs_open (str ''keyboard'') flags ?v w = Inr (v, w, 0)"
    using O(2) T(3) by (simp add: dev_op_def keyboard_ops_def)
  have ok: "vfs_ok v" using O(1) by (simp add: opened_def)
  have f: "fd_table v ! 0 = \<lparr>fvnode = Some 2, fflags = flags, foffset = 0, in_use = True\<rparr>" using O(1) by (simp add: opened_def)
  have vo: "vops (devices v ! 2) = Some keyboard_ops" using T(3,6) by (simp add: v_def take_fd_def add_ref_def)
  have inv: "kb_inv kb_start" "kb_contents kb_start = []" "shift_held kb_start = 0" "caps_on kb_start = 0"
    by (simp_all add: kb_inv_def kb_start_def KB_BUF_SIZE_def kb_contents_def kb_count_def)
  have c: "kb_contents ?s = ?typed" using kb_irq_sequence [OF inv(1), of scs] inv(2-4) by simp
  have nz: "0 \<notin> set (kb_contents ?s)" unfolding c using decode_nonzero [of False False scs] by (auto dest: in_set_takeD)
  obtain k where k: "read_chars kb_getchar (unat count) ?s = (?t, k)" "kb_contents k = drop (unat count) ?typed"
    using read_chars_kb [OF kb_inv_typing [OF inv(1)] nz, of "unat count"] unfolding c by blast
  have wb: "write_buf dst 0 ?t = Inr (?t @ drop (length ?t) dst)" using assms by (simp add: write_buf_def)
  have "vfs_read 0 dst count v ?w1 = keyboard_read (private_data (devices v ! 2)) dst count ?w1"
    by (simp add: vfs_read_def fd_vnode_def f vo VFS_MAX_FDS_def keyboard_ops_def)
  also have "\<dots> = Inr (?w1\<lparr>kbd := k\<rparr>, ?t @ drop (length ?t) dst, int (length ?t))"
    unfolding keyboard_read_def using k(1) wb by simp
  finally have "vfs_read 0 dst count v ?w1 = Inr (?w1\<lparr>kbd := k\<rparr>, ?t @ drop (length ?t) dst, int (length ?t))" .
  then show ?thesis unfolding Let_def using op ok k(2) by blast
qed

theorem devfs_typed_text_witness:
  "\<forall>w. \<exists>v k. vfs_open (str ''keyboard'') 1 (devfs_init vfs_init) w = Inr (v, w, 0) \<and> kb_contents k = [] \<and>
     vfs_read 0 [7, 7, 7] 3 v (w\<lparr>kbd := foldl kb_irq_handler kb_start [30]\<rparr>) = Inr (w\<lparr>kbd := k\<rparr>, [97, 7, 7], 1)"
proof
  fix w :: dev_world
  have d: "decode False False [30] = [97]" by (simp add: sc_lower_def)
  show "\<exists>v k. vfs_open (str ''keyboard'') 1 (devfs_init vfs_init) w = Inr (v, w, 0) \<and> kb_contents k = [] \<and>
     vfs_read 0 [7, 7, 7] 3 v (w\<lparr>kbd := foldl kb_irq_handler kb_start [30]\<rparr>) = Inr (w\<lparr>kbd := k\<rparr>, [97, 7, 7], 1)"
    using devfs_typed_text [of 3 "[7, 7, 7]" 1 w "[30]"] unfolding d by (auto simp: Let_def)
qed

text \<open>Reading the ramdisk. With a loaded image and a position and count whose sum does not wrap,
  \<open>ramdisk_read\<close> returns the bytes of the image from that position, cut at its end, leaves the rest of
  the buffer alone and returns their number; no image and no buffer are errors. When the sum wraps
  around to a value inside the image, the cut is skipped and the copy leaves the image.\<close>

theorem ramdisk_read_correct:
  assumes "unat (rd_size rd) = length (rd_base rd)" "length (rd_base rd) < 2 ^ 63" "unat count \<le> length dst"
  shows "ramdisk_read rd offset (Some dst) count =
    (if \<not> rd_loaded rd then Inr (Some dst, - EIO)
     else if unat offset + unat count < 2 ^ 64 \<or> rd_size rd \<le> offset then
       (let bs = take (unat count) (drop (unat offset) (rd_base rd)) in Inr (Some (bs @ drop (length bs) dst), int (length bs)))
     else if offset + count \<le> rd_size rd then Inl Fault
     else Inr (Some (drop (unat offset) (rd_base rd) @ drop (length (rd_base rd) - unat offset) dst), int (length (rd_base rd) - unat offset)))"
proof (cases "\<not> rd_loaded rd \<or> rd_size rd \<le> offset")
  case True
  then show ?thesis using assms(1) by (auto simp: ramdisk_read_def word_le_nat_alt Let_def)
next
  case False
  let ?o = "unat offset" and ?n = "length (rd_base rd)"
  have lt: "?o < ?n" and ld: "rd_loaded rd" and no: "\<not> rd_size rd \<le> offset" using False assms(1) by (auto simp: word_le_nat_alt)
  define c1 where "c1 = (if rd_size rd < offset + count then rd_size rd - offset else count)"
  have R: "ramdisk_read rd offset (Some dst) count =
      bnd (rd_bytes (rd_base rd) ?o (unat c1)) (\<lambda>bs. bnd (write_buf dst 0 bs) (\<lambda>dst'. Inr (Some dst', sint c1)))"
    using ld no by (simp add: ramdisk_read_def c1_def Let_def)
  have good: "ramdisk_read rd offset (Some dst) count =
      Inr (Some (take (unat c1) (drop ?o (rd_base rd)) @ drop (unat c1) dst), int (unat c1))"
    if "?o + unat c1 \<le> ?n" "unat c1 \<le> length dst"
  proof -
    have "sint c1 = int (unat c1)" using that assms(2) by (intro sint_small) simp
    then show ?thesis using R that by (simp add: rd_bytes_def write_buf_def)
  qed
  show ?thesis
  proof (cases "?o + unat count < 2 ^ 64")
    case True
    then have u: "unat (offset + count) = ?o + unat count" by (rule unat_add_u64)
    have c: "unat c1 = min (unat count) (?n - ?o)"
      using u lt assms(1) by (auto simp: c1_def word_less_nat_alt unat_sub word_le_nat_alt)
    have "?o + unat c1 \<le> ?n" "unat c1 \<le> length dst" using c lt assms(3) by auto
    note g = good [OF this]
    have "take (min (unat count) (?n - ?o)) (drop ?o (rd_base rd)) = take (unat count) (drop ?o (rd_base rd))" by (simp add: min_def)
    then show ?thesis using g True ld c by (simp add: Let_def min.commute)
  next
    case wrap: False
    then have u: "unat (offset + count) = ?o + unat count - 2 ^ 64"
      using unat_less_64 [of offset] unat_less_64 [of count] by (simp add: unat_word_ariths le_mod_geq)
    show ?thesis
    proof (cases "offset + count \<le> rd_size rd")
      case True
      then have "c1 = count" by (simp add: c1_def not_less [symmetric])
      moreover have "\<not> ?o + unat count \<le> ?n" using wrap assms(2) by simp
      ultimately show ?thesis using R wrap no ld True by (simp add: rd_bytes_def)
    next
      case False
      then have c: "unat c1 = ?n - ?o" using assms(1) lt by (simp add: c1_def unat_sub word_le_nat_alt word_less_nat_alt)
      have "unat c1 \<le> length dst" using c wrap assms(2,3) by simp
      from good [OF _ this] show ?thesis using c lt wrap no ld False by simp
    qed
  qed
qed

theorem ramdisk_read_correct_witness:
  "ramdisk_read \<lparr>rd_base = [1, 2, 3], rd_size = 3, rd_loaded = True\<rparr> 1 (Some [9, 9, 9]) 3 = Inr (Some [2, 3, 9], 2)"
  using ramdisk_read_correct [of "\<lparr>rd_base = [1, 2, 3], rd_size = 3, rd_loaded = True\<rparr>" 3 "[9, 9, 9]" 1] by (simp add: Let_def)

end
