(* ===== verification/String_Lib.thy ===== *)
theory String_Lib
  imports Prelude
begin

text \<open>
  The freestanding memory and string functions of \<open>kernel/string.c\<close> over a byte-addressed
  memory. Addresses are natural numbers (no object of the kernel wraps around the top of the
  address space); pointers returned are addresses, \<open>NULL\<close> is \<open>None\<close>. The string
  instructions \<open>rep stosb/stosq/movsb/movsq\<close> are recursions on the count register; the
  quadword forms move eight bytes at a time. Loops that run until a terminating NUL are partial
  functions: \<open>None\<close> means that the loop never ends.
\<close>

type_synonym mem = "nat \<Rightarrow> u8"

subsection \<open>String instructions\<close>

primrec rep_stosb :: "mem \<Rightarrow> nat \<Rightarrow> nat \<Rightarrow> u8 \<Rightarrow> mem" where
  "rep_stosb m d 0 v = m"
| "rep_stosb m d (Suc c) v = rep_stosb (m(d := v)) (d + 1) c v"

definition bytes8 :: "u64 \<Rightarrow> u8 list" where
  "bytes8 q = map (\<lambda>i. ucast (drop_bit (8 * i) q)) [0..<8]"

fun store_bytes :: "mem \<Rightarrow> nat \<Rightarrow> u8 list \<Rightarrow> mem" where
  "store_bytes m d [] = m"
| "store_bytes m d (b # bs) = store_bytes (m(d := b)) (d + 1) bs"

definition load_bytes :: "mem \<Rightarrow> nat \<Rightarrow> nat \<Rightarrow> u8 list" where
  "load_bytes m s n = map (\<lambda>i. m (s + i)) [0..<n]"

primrec rep_stosq :: "mem \<Rightarrow> nat \<Rightarrow> nat \<Rightarrow> u64 \<Rightarrow> mem" where
  "rep_stosq m d 0 q = m"
| "rep_stosq m d (Suc c) q = rep_stosq (store_bytes m d (bytes8 q)) (d + 8) c q"

primrec rep_movsb :: "mem \<Rightarrow> nat \<Rightarrow> nat \<Rightarrow> nat \<Rightarrow> mem" where
  "rep_movsb m d s 0 = m"
| "rep_movsb m d s (Suc c) = rep_movsb (m(d := m s)) (d + 1) (s + 1) c"

primrec rep_movsq :: "mem \<Rightarrow> nat \<Rightarrow> nat \<Rightarrow> nat \<Rightarrow> mem" where
  "rep_movsq m d s 0 = m"
| "rep_movsq m d s (Suc c) = rep_movsq (store_bytes m d (load_bytes m s 8)) (d + 8) (s + 8) c"

text \<open>With the direction flag set the pointers move down; \<open>d\<close> and \<open>s\<close> are the ends
  (one past the last byte) of what is still to be copied.\<close>

primrec std_movsb :: "mem \<Rightarrow> nat \<Rightarrow> nat \<Rightarrow> nat \<Rightarrow> mem" where
  "std_movsb m d s 0 = m"
| "std_movsb m d s (Suc c) = std_movsb (m(d - 1 := m (s - 1))) (d - 1) (s - 1) c"

primrec std_movsq :: "mem \<Rightarrow> nat \<Rightarrow> nat \<Rightarrow> nat \<Rightarrow> mem" where
  "std_movsq m d s 0 = m"
| "std_movsq m d s (Suc c) =
     std_movsq (store_bytes m (d - 8) (load_bytes m (s - 8) 8)) (d - 8) (s - 8) c"

subsection \<open>Block operations\<close>

definition broadcast :: "u8 \<Rightarrow> u64" where
  "broadcast v =
     (let q0 = ucast v; q1 = q0 OR push_bit 8 q0; q2 = q1 OR push_bit 16 q1
      in q2 OR push_bit 32 q2)"

definition memset :: "mem \<Rightarrow> nat \<Rightarrow> u32 \<Rightarrow> nat \<Rightarrow> mem" where
  "memset m dest val n =
     (let v = ucast val in
      if 8 \<le> n then
        let qwords = n div 8; remain = n mod 8;
            m1 = rep_stosq m dest qwords (broadcast v)
        in if remain \<noteq> 0 then rep_stosb m1 (dest + 8 * qwords) remain v else m1
      else rep_stosb m dest n v)"

definition memcpy :: "mem \<Rightarrow> nat \<Rightarrow> nat \<Rightarrow> nat \<Rightarrow> mem" where
  "memcpy m dest src n =
     (if 8 \<le> n then
        let qwords = n div 8; remain = n mod 8;
            m1 = rep_movsq m dest src qwords
        in if remain \<noteq> 0 then rep_movsb m1 (dest + 8 * qwords) (src + 8 * qwords) remain else m1
      else rep_movsb m dest src n)"

definition memmove :: "mem \<Rightarrow> nat \<Rightarrow> nat \<Rightarrow> nat \<Rightarrow> mem" where
  "memmove m d s n =
     (if d = s \<or> n = 0 then m
      else if d < s \<or> s + n \<le> d then memcpy m d s n
      else if 8 \<le> n then
        let qwords = n div 8; remain = n mod 8;
            m1 = std_movsb m (d + n) (s + n) remain
        in std_movsq m1 (d + n - remain) (s + n - remain) qwords
      else std_movsb m (d + n) (s + n) n)"

fun memcmp :: "mem \<Rightarrow> nat \<Rightarrow> nat \<Rightarrow> nat \<Rightarrow> int" where
  "memcmp m pa pb 0 = 0"
| "memcmp m pa pb (Suc n) =
     (if m pa \<noteq> m pb then int (unat (m pa)) - int (unat (m pb)) else memcmp m (pa + 1) (pb + 1) n)"

fun memchr_loop :: "mem \<Rightarrow> nat \<Rightarrow> u8 \<Rightarrow> nat \<Rightarrow> nat option" where
  "memchr_loop m p c 0 = None"
| "memchr_loop m p c (Suc n) = (if m p = c then Some p else memchr_loop m (p + 1) c n)"

definition memchr :: "mem \<Rightarrow> nat \<Rightarrow> u32 \<Rightarrow> nat \<Rightarrow> nat option" where
  "memchr m s c n = memchr_loop m s (ucast c) n"

subsection \<open>Strings\<close>

partial_function (option) strlen_loop :: "mem \<Rightarrow> nat \<Rightarrow> nat \<Rightarrow> nat option" where
  "strlen_loop m s len = (if m (s + len) \<noteq> 0 then strlen_loop m s (len + 1) else Some len)"

definition strlen :: "mem \<Rightarrow> nat \<Rightarrow> nat option" where
  "strlen m s = strlen_loop m s 0"

partial_function (option) strcmp :: "mem \<Rightarrow> nat \<Rightarrow> nat \<Rightarrow> int option" where
  "strcmp m a b = (if m a \<noteq> 0 \<and> m a = m b then strcmp m (a + 1) (b + 1)
                   else Some (int (unat (m a)) - int (unat (m b))))"

fun strncmp :: "mem \<Rightarrow> nat \<Rightarrow> nat \<Rightarrow> nat \<Rightarrow> int" where
  "strncmp m a b 0 = 0"
| "strncmp m a b (Suc n) =
     (if m a \<noteq> m b then int (unat (m a)) - int (unat (m b))
      else if m a = 0 then 0
      else strncmp m (a + 1) (b + 1) n)"

fun strncpy_copy :: "mem \<Rightarrow> nat \<Rightarrow> nat \<Rightarrow> nat \<Rightarrow> mem \<times> nat \<times> nat" where
  "strncpy_copy m d s 0 = (m, d, 0)"
| "strncpy_copy m d s (Suc n) =
     (if m s \<noteq> 0 then strncpy_copy (m(d := m s)) (d + 1) (s + 1) n else (m, d, Suc n))"

definition strncpy :: "mem \<Rightarrow> nat \<Rightarrow> nat \<Rightarrow> nat \<Rightarrow> mem" where
  "strncpy m dest src n = (case strncpy_copy m dest src n of (m1, d, left) \<Rightarrow> rep_stosb m1 d left 0)"

partial_function (option) strcat_copy :: "mem \<Rightarrow> nat \<Rightarrow> nat \<Rightarrow> mem option" where
  "strcat_copy m d s = (let m1 = m(d := m s) in
     if m1 d \<noteq> 0 then strcat_copy m1 (d + 1) (s + 1) else Some m1)"

definition strcat :: "mem \<Rightarrow> nat \<Rightarrow> nat \<Rightarrow> mem option" where
  "strcat m dest src = (case strlen m dest of None \<Rightarrow> None | Some l \<Rightarrow> strcat_copy m (dest + l) src)"

partial_function (option) strchr :: "mem \<Rightarrow> nat \<Rightarrow> u32 \<Rightarrow> nat option option" where
  "strchr m s c =
     (if m s \<noteq> 0 then (if m s = ucast c then Some (Some s) else strchr m (s + 1) c)
      else Some (if c = 0 then Some s else None))"

partial_function (option) strstr_at :: "mem \<Rightarrow> nat \<Rightarrow> nat \<Rightarrow> nat option" where
  "strstr_at m h n = (if m h \<noteq> 0 \<and> m n \<noteq> 0 \<and> m h = m n then strstr_at m (h + 1) (n + 1) else Some n)"

partial_function (option) strstr_loop :: "mem \<Rightarrow> nat \<Rightarrow> nat \<Rightarrow> nat option option" where
  "strstr_loop m hay needle =
     (if m hay \<noteq> 0 then
        Option.bind (strstr_at m hay needle)
          (\<lambda>n. if m n = 0 then Some (Some hay) else strstr_loop m (hay + 1) needle)
      else Some None)"

definition strstr :: "mem \<Rightarrow> nat \<Rightarrow> nat \<Rightarrow> nat option option" where
  "strstr m hay needle = (if m needle = 0 then Some (Some hay) else strstr_loop m hay needle)"

subsection \<open>The block instructions as functions on memory\<close>

definition blit :: "mem \<Rightarrow> nat \<Rightarrow> nat \<Rightarrow> nat \<Rightarrow> mem" where
  "blit m d s n = (\<lambda>a. if d \<le> a \<and> a < d + n then m (s + (a - d)) else m a)"

definition fill :: "mem \<Rightarrow> nat \<Rightarrow> nat \<Rightarrow> u8 \<Rightarrow> mem" where
  "fill m d n v = (\<lambda>a. if d \<le> a \<and> a < d + n then v else m a)"

lemma store_bytes_eq:
  "store_bytes m d bs = (\<lambda>a. if d \<le> a \<and> a < d + length bs then bs ! (a - d) else m a)"
proof (induction bs arbitrary: m d)
  case (Cons b bs)
  have "bs ! (a - Suc d) = (b # bs) ! (a - d)" if "d < a" for a
    using that by (cases "a - d") (simp_all add: Suc_diff_Suc [symmetric])
  then show ?case using Cons by (auto simp: fun_eq_iff)
qed (auto simp: fun_eq_iff)

lemma store_load: "store_bytes m d (load_bytes m s n) = blit m d s n"
  by (auto simp: store_bytes_eq load_bytes_def blit_def fun_eq_iff)

lemma rep_stosb_fill: "rep_stosb m d c v = fill m d c v"
  by (induction c arbitrary: m d) (auto simp: fill_def fun_eq_iff)

lemma or_shift_mod:
  fixes q :: u64
  assumes q: "\<And>k. bit q k \<longleftrightarrow> k < w \<and> bit v (k mod 8)" and w: "w mod 8 = 0" "2 * w \<le> 64"
  shows "bit (q OR push_bit w q) k \<longleftrightarrow> k < 2 * w \<and> bit v (k mod 8)"
proof (cases "w \<le> k")
  case True
  then obtain j where k: "k = w + j" using le_iff_add by blast
  have m: "k mod 8 = j mod 8" unfolding k using w(1) by (simp add: mod_add_eq [symmetric, of w])
  have "bit (push_bit w q) k \<longleftrightarrow> k < 64 \<and> bit q j" by (simp add: bit_push_bit_iff k)
  then show ?thesis using q [of k] q [of j] w(2) True unfolding m by (auto simp: bit_or_iff k)
next
  case False
  then show ?thesis using q [of k] by (auto simp: bit_or_iff bit_push_bit_iff)
qed

lemma bit_broadcast: "bit (broadcast v) k \<longleftrightarrow> k < 64 \<and> bit v (k mod 8)"
proof -
  define q0 :: u64 where "q0 = ucast v"
  define q1 where "q1 = q0 OR push_bit 8 q0"
  define q2 where "q2 = q1 OR push_bit 16 q1"
  have 0: "bit q0 k \<longleftrightarrow> k < 8 \<and> bit v (k mod 8)" for k
    using bit_imp_le_length [of v k] by (auto simp: q0_def bit_ucast_iff)
  have 1: "bit q1 k \<longleftrightarrow> k < 16 \<and> bit v (k mod 8)" for k
    using or_shift_mod [OF 0] by (simp add: q1_def)
  have 2: "bit q2 k \<longleftrightarrow> k < 32 \<and> bit v (k mod 8)" for k
    using or_shift_mod [OF 1] by (simp add: q2_def)
  show ?thesis
    using or_shift_mod [OF 2] by (simp add: broadcast_def Let_def q0_def q1_def q2_def)
qed

lemma bytes8_broadcast: "bytes8 (broadcast v) = replicate 8 v"
proof (rule nth_equalityI)
  fix i assume "i < length (bytes8 (broadcast v))"
  then have i: "i < 8" by (simp add: bytes8_def)
  have "ucast (drop_bit (8 * i) (broadcast v)) = v"
  proof (rule bit_word_eqI)
    fix n assume "n < LENGTH(8)"
    then have n: "n < 8" by simp
    show "bit (ucast (drop_bit (8 * i) (broadcast v)) :: u8) n = bit v n"
      using n i by (simp add: bit_ucast_iff bit_drop_bit_eq bit_broadcast)
  qed
  then show "bytes8 (broadcast v) ! i = replicate 8 v ! i" using i by (simp add: bytes8_def)
qed (simp add: bytes8_def)

lemma rep_stosq_fill: "rep_stosq m d c (broadcast v) = fill m d (8 * c) v"
  by (induction c arbitrary: m d)
    (auto simp: bytes8_broadcast store_bytes_eq fill_def fun_eq_iff nth_replicate)

lemma fill_fill: "fill (fill m d a v) (d + a) b v = fill m d (a + b) v"
  by (auto simp: fill_def fun_eq_iff)

lemma blit_step:
  assumes "d < s \<or> s + (a + b) \<le> d \<or> d = s"
  shows "blit (blit m d s a) (d + a) (s + a) b = blit m d s (a + b)"
  using assms by (auto simp: blit_def fun_eq_iff)

lemma rep_movsb_blit: "d \<le> s \<or> s + c \<le> d \<Longrightarrow> rep_movsb m d s c = blit m d s c"
proof (induction c arbitrary: m d s)
  case (Suc c)
  have "d + 1 \<le> s + 1 \<or> s + 1 + c \<le> d + 1" using Suc.prems by auto
  from Suc.IH [OF this] have "rep_movsb m d s (Suc c) = blit (m(d := m s)) (d + 1) (s + 1) c"
    by (simp only: rep_movsb.simps)
  also have "\<dots> = blit m d s (Suc c)"
  proof
    fix a
    have "s + 1 + (a - (d + 1)) = s + (a - d)" if "d + 1 \<le> a" using that by linarith
    moreover have "s + (a - d) \<noteq> d" if "d + 1 \<le> a" "a < d + Suc c" using that Suc.prems by auto
    ultimately show "blit (m(d := m s)) (d + 1) (s + 1) c a = blit m d s (Suc c) a"
      by (auto simp: blit_def)
  qed
  finally show ?case .
qed (auto simp: blit_def fun_eq_iff)

lemma rep_movsq_blit: "d \<le> s \<or> s + 8 * c \<le> d \<Longrightarrow> rep_movsq m d s c = blit m d s (8 * c)"
proof (induction c arbitrary: m d s)
  case (Suc c)
  have "rep_movsq m d s (Suc c) = blit (blit m d s 8) (d + 8) (s + 8) (8 * c)"
    using Suc.IH [of "d + 8" "s + 8" "blit m d s 8"] Suc.prems by (auto simp: store_load)
  also have "\<dots> = blit m d s (8 + 8 * c)"
    using Suc.prems by (intro blit_step) auto
  finally show ?case by simp
qed (auto simp: blit_def fun_eq_iff)

lemma memset_fill: "memset m d v n = fill m d n (ucast v)"
  using fill_fill [of m d "8 * (n div 8)" "ucast v" "n mod 8"]
  by (auto simp: memset_def Let_def rep_stosb_fill rep_stosq_fill mult.commute [of 8])

lemma memcpy_blit:
  assumes "d \<le> s \<or> s + n \<le> d"
  shows "memcpy m d s n = blit m d s n"
proof (cases "8 \<le> n")
  case False
  then show ?thesis using rep_movsb_blit [OF assms] by (simp add: memcpy_def)
next
  case True
  have n: "8 * (n div 8) + n mod 8 = n" "8 * (n div 8) \<le> n" by simp_all
  have q: "rep_movsq m d s (n div 8) = blit m d s (8 * (n div 8))"
    by (rule rep_movsq_blit) (use assms n in linarith)
  have "rep_movsb (blit m d s (8 * (n div 8))) (d + 8 * (n div 8)) (s + 8 * (n div 8)) (n mod 8)
      = blit (blit m d s (8 * (n div 8))) (d + 8 * (n div 8)) (s + 8 * (n div 8)) (n mod 8)"
    by (rule rep_movsb_blit) (use assms n in linarith)
  also have "\<dots> = blit m d s (8 * (n div 8) + n mod 8)"
    by (rule blit_step) (use assms n in linarith)
  finally have r: "rep_movsb (blit m d s (8 * (n div 8))) (d + 8 * (n div 8)) (s + 8 * (n div 8)) (n mod 8)
      = blit m d s n" by (simp only: n)
  have "n = 8 * (n div 8)" if "n mod 8 = 0" using that n(1) by simp
  then show ?thesis unfolding memcpy_def Let_def q r using True by auto
qed

text \<open>The descending copies.\<close>

lemma blit_down:
  assumes "s \<le> d"
  shows "blit (blit m (d + a) (s + a) b) d s a = blit m d s (a + b)"
  using assms by (auto simp: blit_def fun_eq_iff)

lemma std_movsb_blit:
  "s \<le> d \<Longrightarrow> c \<le> n \<Longrightarrow> std_movsb m (d + n) (s + n) c = blit m (d + (n - c)) (s + (n - c)) c"
proof (induction c arbitrary: m n)
  case (Suc c)
  then obtain n' where n: "n = Suc n'" "c \<le> n'" by (cases n) auto
  have b: "m(d + n' := m (s + n')) = blit m (d + n') (s + n') 1" by (auto simp: blit_def fun_eq_iff)
  have "std_movsb m (d + n) (s + n) (Suc c) =
      blit (blit m (d + n') (s + n') 1) (d + (n' - c)) (s + (n' - c)) c"
    using Suc.IH [OF Suc.prems(1) n(2), of "blit m (d + n') (s + n') 1"] by (simp add: n b)
  also have "\<dots> = blit m (d + (n' - c)) (s + (n' - c)) (c + 1)"
    using blit_down [of "s + (n' - c)" "d + (n' - c)" m c 1] Suc.prems(1) n(2) by simp
  finally show ?case by (simp add: n)
qed (auto simp: blit_def fun_eq_iff)

lemma std_movsq_blit:
  "s \<le> d \<Longrightarrow> std_movsq m (d + 8 * c) (s + 8 * c) c = blit m d s (8 * c)"
proof (induction c arbitrary: m)
  case (Suc c)
  have "std_movsq m (d + 8 * Suc c) (s + 8 * Suc c) (Suc c) =
      blit (blit m (d + 8 * c) (s + 8 * c) 8) d s (8 * c)"
    using Suc.IH [OF Suc.prems] by (simp add: store_load)
  also have "\<dots> = blit m d s (8 * c + 8)" by (rule blit_down [OF Suc.prems])
  finally show ?case by (simp add: add.commute)
qed (auto simp: blit_def fun_eq_iff)

lemma memmove_blit: "memmove m d s n = blit m d s n"
proof -
  have triv: "blit m d d n = m" "blit m d s 0 = m" by (auto simp: blit_def fun_eq_iff)
  show ?thesis
  proof (cases "d = s \<or> n = 0 \<or> d < s \<or> s + n \<le> d")
    case True
    then show ?thesis using triv memcpy_blit [of d s n m] by (auto simp: memmove_def)
  next
    case False
    then have sd: "s \<le> d" by simp
    let ?q = "8 * (n div 8)" and ?r = "n mod 8"
    have n: "n - ?r = ?q" "?q + ?r = n" "?r \<le> n" "d + n - ?r = d + ?q" "s + n - ?r = s + ?q"
      using minus_mod_eq_mult_div [of n 8] by (simp_all add: mod_less_eq_dividend)
    show ?thesis
    proof (cases "8 \<le> n")
      case True
      have "memmove m d s n = std_movsq (blit m (d + ?q) (s + ?q) ?r) (d + ?q) (s + ?q) (n div 8)"
        using False True n std_movsb_blit [OF sd n(3), of m] by (simp add: memmove_def Let_def)
      also have "\<dots> = blit m d s n"
        using std_movsq_blit [OF sd] blit_down [OF sd, of m ?q ?r] n(2) by simp
      finally show ?thesis .
    next
      case small: False
      then show ?thesis
        using False std_movsb_blit [OF sd order_refl, of m n] by (simp add: memmove_def)
    qed
  qed
qed

subsection \<open>C strings\<close>

primrec cstr :: "mem \<Rightarrow> nat \<Rightarrow> u8 list \<Rightarrow> bool" where
  "cstr m s [] \<longleftrightarrow> m s = 0"
| "cstr m s (c # cs) \<longleftrightarrow> c \<noteq> 0 \<and> m s = c \<and> cstr m (s + 1) cs"

lemma cstr_nonzero: "cstr m s xs \<Longrightarrow> 0 \<notin> set xs"
  by (induction xs arbitrary: s) auto

lemma cstr_nth: "cstr m s xs \<Longrightarrow> i \<le> length xs \<Longrightarrow> m (s + i) = (if i < length xs then xs ! i else 0)"
proof (induction xs arbitrary: s i)
  case (Cons x xs)
  then show ?case by (cases i) fastforce+
qed simp

lemma cstr_frame: "cstr m s xs \<Longrightarrow> (\<And>i. i \<le> length xs \<Longrightarrow> m' (s + i) = m (s + i)) \<Longrightarrow> cstr m' s xs"
proof (induction xs arbitrary: s)
  case (Cons x xs)
  have "m' s = x" "x \<noteq> 0" using Cons.prems(2) [of 0] Cons.prems(1) by auto
  moreover have "cstr m' (s + 1) xs"
    using Cons.prems(1) Cons.prems(2) [of "Suc i" for i] by (intro Cons.IH) auto
  ultimately show ?case by simp
qed fastforce

lemma strlen_cstr: "cstr m s xs \<Longrightarrow> strlen m s = Some (length xs)"
proof -
  have "cstr m (s + k) xs \<Longrightarrow> strlen_loop m s k = Some (k + length xs)" for k
    by (induction xs arbitrary: k) (subst strlen_loop.simps, fastforce)+
  from this [of 0] show "cstr m s xs \<Longrightarrow> strlen m s = Some (length xs)" by (simp add: strlen_def)
qed

lemma strcmp_cstr:
  assumes "cstr m a xs" "cstr m b ys"
  obtains r where "strcmp m a b = Some r" "r = 0 \<longleftrightarrow> xs = ys"
proof -
  have "\<exists>r. strcmp m a b = Some r \<and> (r = 0 \<longleftrightarrow> xs = ys)"
    using assms
  proof (induction xs arbitrary: a b ys)
    case Nil
    then show ?case by (subst strcmp.simps) (cases ys; auto simp: uint_0_iff)
  next
    case (Cons x xs)
    show ?case
    proof (cases ys)
      case Nil
      then show ?thesis using Cons.prems by (subst strcmp.simps) (auto simp: uint_0_iff)
    next
      case (Cons y ys')
      then show ?thesis
        using Cons.prems Cons.IH [of "a + 1" "b + 1" ys']
        by (subst strcmp.simps) (auto simp: word_uint_eq_iff)
    qed
  qed
  then show thesis using that by blast
qed

lemma strchr_cstr:
  assumes "cstr m s xs" "ucast c \<noteq> (0 :: u8)"
  shows "strchr m s c = Some (case List.find (\<lambda>i. xs ! i = ucast c) [0..<length xs] of
    None \<Rightarrow> None | Some i \<Rightarrow> Some (s + i))"
  using assms(1)
proof (induction xs arbitrary: s)
  case Nil
  then show ?case using assms(2) by (subst strchr.simps) auto
next
  case (Cons x xs)
  have up: "[0..<length (x # xs)] = 0 # map Suc [0..<length xs]"
    by (simp only: list.size upt_conv_Cons map_Suc_upt) (simp add: upt_conv_Cons)
  have f: "List.find P (map Suc js) = map_option Suc (List.find (P \<circ> Suc) js)" for P js
    by (induction js) auto
  show ?case
    using Cons.prems Cons.IH [of "s + 1"] unfolding up
    by (subst strchr.simps) (auto simp: f comp_def split: option.splits)
qed

lemma strncpy_spec:
  assumes "cstr m s xs" "\<And>i. i \<le> length xs \<Longrightarrow> s + i < d \<or> d + n \<le> s + i"
  shows "strncpy m d s n =
    (\<lambda>a. if d \<le> a \<and> a < d + n then (if a - d < length xs then xs ! (a - d) else 0) else m a)"
  using assms
proof (induction n arbitrary: m d s xs)
  case 0
  then show ?case by (auto simp: strncpy_def fun_eq_iff)
next
  case (Suc n)
  show ?case
  proof (cases xs)
    case Nil
    then show ?thesis
      using Suc.prems(1) by (auto simp: strncpy_def rep_stosb_fill fill_def fun_eq_iff)
  next
    case (Cons x xs')
    let ?m = "m(d := x)"
    have x: "m s = x" "x \<noteq> 0" "cstr m (s + 1) xs'" using Suc.prems(1) Cons by auto
    have d: "s + 1 + i < d + 1 \<or> d + 1 + n \<le> s + 1 + i" "s + 1 + i \<noteq> d" if "i \<le> length xs'" for i
      using Suc.prems(2) [of "Suc i"] that Cons by auto
    have "cstr ?m (s + 1) xs'" using d(2) by (intro cstr_frame [OF x(3)]) auto
    then have "strncpy ?m (d + 1) (s + 1) n =
      (\<lambda>a. if d + 1 \<le> a \<and> a < d + 1 + n then (if a - (d + 1) < length xs' then xs' ! (a - (d + 1)) else 0)
           else ?m a)"
      by (rule Suc.IH [OF _ d(1)])
    moreover have "strncpy m d s (Suc n) = strncpy ?m (d + 1) (s + 1) n"
      using x by (simp add: strncpy_def)
    moreover have "xs' ! (a - Suc d) = xs ! (a - d)" "a - Suc d < length xs' \<longleftrightarrow> a - d < length xs"
      if "d < a" for a
      using that Cons by (auto simp: nth_Cons Suc_diff_Suc [symmetric] split: nat.splits)
    ultimately show ?thesis using Cons by (auto simp: fun_eq_iff)
  qed
qed

lemma strcat_copy_spec:
  assumes "cstr m s ys" "\<And>i j. i \<le> length ys \<Longrightarrow> j \<le> length ys \<Longrightarrow> s + i \<noteq> d + j"
  shows "\<exists>m'. strcat_copy m d s = Some m' \<and> cstr m' d ys \<and>
    (\<forall>a. a < d \<or> d + length ys < a \<longrightarrow> m' a = m a)"
  using assms
proof (induction ys arbitrary: m d s)
  case Nil
  then show ?case by (subst strcat_copy.simps) auto
next
  case (Cons y ys)
  let ?m = "m(d := y)"
  have y: "m s = y" "y \<noteq> 0" "cstr m (s + 1) ys" using Cons.prems(1) by auto
  have dj: "s + 1 + i \<noteq> d + 1 + j" if "i \<le> length ys" "j \<le> length ys" for i j
    using Cons.prems(2) [of "Suc i" "Suc j"] that by auto
  have "cstr ?m (s + 1) ys"
    using Cons.prems(2) [of "Suc i" 0 for i] by (intro cstr_frame [OF y(3)]) fastforce
  from Cons.IH [OF this dj] obtain m' where m': "strcat_copy ?m (d + 1) (s + 1) = Some m'"
    "cstr m' (d + 1) ys" "\<forall>a. a < d + 1 \<or> d + 1 + length ys < a \<longrightarrow> m' a = ?m a" by blast
  have "strcat_copy m d s = Some m'" using m'(1) y by (subst strcat_copy.simps) simp
  then show ?case using m' y(2) by auto
qed

lemma cstr_append:
  "cstr m s (xs @ ys) \<longleftrightarrow> 0 \<notin> set xs \<and> (\<forall>i < length xs. m (s + i) = xs ! i) \<and> cstr m (s + length xs) ys"
proof (induction xs arbitrary: s)
  case (Cons x xs)
  have "(\<forall>i < length (x # xs). m (s + i) = (x # xs) ! i) \<longleftrightarrow>
      m s = x \<and> (\<forall>i < length xs. m (s + 1 + i) = xs ! i)"
    by (auto simp: less_Suc_eq_0_disj)
  then show ?case using Cons [of "s + 1"] by auto
qed simp

lemma strcat_spec:
  assumes d: "cstr m d xs" and s: "cstr m s ys"
    and sep: "\<And>i j. i \<le> length ys \<Longrightarrow> j \<le> length ys \<Longrightarrow> s + i \<noteq> d + length xs + j"
  shows "\<exists>m'. strcat m d s = Some m' \<and> cstr m' d (xs @ ys) \<and>
    (\<forall>a. a < d + length xs \<or> d + length xs + length ys < a \<longrightarrow> m' a = m a)"
proof -
  obtain m' where m': "strcat_copy m (d + length xs) s = Some m'" "cstr m' (d + length xs) ys"
    "\<forall>a. a < d + length xs \<or> d + length xs + length ys < a \<longrightarrow> m' a = m a"
    using strcat_copy_spec [OF s sep] by blast
  have "cstr m' d (xs @ ys)"
    unfolding cstr_append using m'(2,3) cstr_nth [OF d] cstr_nonzero [OF d] by auto
  then show ?thesis using m' by (simp add: strcat_def strlen_cstr [OF d])
qed

lemma strstr_at_spec:
  assumes "cstr m h xs" "cstr m n ys"
  shows "\<exists>k. strstr_at m h n = Some k \<and> (m k = 0 \<longleftrightarrow> take (length ys) xs = ys)"
  using assms
proof (induction ys arbitrary: h n xs)
  case Nil
  then show ?case by (subst strstr_at.simps) auto
next
  case (Cons y ys)
  show ?case
  proof (cases "xs \<noteq> [] \<and> hd xs = y")
    case True
    then obtain xs' where xs: "xs = y # xs'" by (cases xs) auto
    have "strstr_at m h n = strstr_at m (h + 1) (n + 1)"
      using Cons.prems xs by (subst strstr_at.simps) auto
    then show ?thesis using Cons.IH [of "h + 1" xs' "n + 1"] Cons.prems xs by auto
  next
    case False
    have "strstr_at m h n = Some n"
      using Cons.prems False by (subst strstr_at.simps) (cases xs; auto)
    then show ?thesis using Cons.prems False by (cases xs) auto
  qed
qed

lemma strstr_loop_spec:
  assumes "cstr m h xs" "cstr m n ys" "ys \<noteq> []"
  shows "strstr_loop m h n = Some (case List.find (\<lambda>i. take (length ys) (drop i xs) = ys) [0..<length xs] of
    None \<Rightarrow> None | Some i \<Rightarrow> Some (h + i))"
  using assms(1)
proof (induction xs arbitrary: h)
  case Nil
  then show ?case by (subst strstr_loop.simps) simp
next
  case (Cons x xs)
  have up: "[0..<length (x # xs)] = 0 # map Suc [0..<length xs]"
    by (simp only: list.size upt_conv_Cons map_Suc_upt) (simp add: upt_conv_Cons)
  have f: "List.find P (map Suc js) = map_option Suc (List.find (P \<circ> Suc) js)" for P js
    by (induction js) auto
  obtain k where k: "strstr_at m h n = Some k" "m k = 0 \<longleftrightarrow> take (length ys) (x # xs) = ys"
    using strstr_at_spec [OF Cons.prems assms(2)] by blast
  have "strstr_loop m h n = (if m k = 0 then Some (Some h) else strstr_loop m (h + 1) n)"
    using Cons.prems k(1) by (subst strstr_loop.simps) simp
  then show ?case
    using Cons.prems Cons.IH [of "h + 1"] k(2) unfolding up
    by (auto simp: f comp_def split: option.splits)
qed

lemma memcmp_spec: "memcmp m a b n = 0 \<longleftrightarrow> (\<forall>i < n. m (a + i) = m (b + i))"
proof (induction n arbitrary: a b)
  case (Suc n)
  then show ?case by (auto simp: less_Suc_eq_0_disj word_uint_eq_iff)
qed simp

lemma memchr_spec:
  "memchr m s c n = map_option (\<lambda>i. s + i) (List.find (\<lambda>i. m (s + i) = ucast c) [0..<n])"
proof -
  have up: "[0..<Suc n] = 0 # map Suc [0..<n]" for n by (simp add: map_Suc_upt upt_conv_Cons del: upt_Suc)
  have f: "List.find P (map Suc js) = map_option Suc (List.find (P \<circ> Suc) js)" for P js
    by (induction js) auto
  have "memchr_loop m s b n = map_option (\<lambda>i. s + i) (List.find (\<lambda>i. m (s + i) = b) [0..<n])" for b
  proof (induction n arbitrary: s)
    case (Suc n)
    show ?case
      using Suc [of "Suc s"]
      by (cases "List.find (\<lambda>i. m (Suc (s + i)) = b) [0..<n]")
        (simp_all add: up f comp_def del: upt_Suc)
  qed simp
  then show ?thesis by (simp add: memchr_def)
qed

lemma strncmp_cstr:
  assumes "cstr m a xs" "cstr m b ys"
  shows "strncmp m a b n = 0 \<longleftrightarrow> take n xs = take n ys"
  using assms
proof (induction n arbitrary: a b xs ys)
  case (Suc n)
  show ?case
  proof (cases xs; cases ys)
    fix x xs' y ys' assume "xs = x # xs'" "ys = y # ys'"
    then show ?thesis using Suc.prems Suc.IH [of "a + 1" xs' "b + 1" ys'] by (auto simp: word_uint_eq_iff)
  qed (use Suc.prems in \<open>auto simp: uint_0_iff\<close>)
qed simp

subsection \<open>Properties\<close>

text \<open>C18: \<open>memmove\<close> copies the source range as it was before the call, for every pair of
  ranges, overlapping or not: the choice between the ascending quadword copy and the
  descending one with the direction flag, with their byte remainders, is right in all cases.\<close>

theorem memmove_correct:
  "memmove m d s n a = (if d \<le> a \<and> a < d + n then m (s + (a - d)) else m a)"
  by (simp add: memmove_blit blit_def)

text \<open>\<open>memset\<close> writes the low byte of its argument to each of the \<open>n\<close> bytes and to
  nothing else: the quadword broadcast with its byte remainder equals the byte loop.\<close>

theorem memset_correct:
  "memset m d v n a = (if d \<le> a \<and> a < d + n then ucast v else m a)"
  by (simp add: memset_fill fill_def)

text \<open>\<open>strcat\<close> on two terminated strings, the source not overlapping the bytes that are
  written, ends, leaves the concatenation as a terminated string at the destination, and
  changes no byte outside the appended part.\<close>

theorem strcat_correct:
  assumes "cstr m d xs" "cstr m s ys"
    "\<And>i j. i \<le> length ys \<Longrightarrow> j \<le> length ys \<Longrightarrow> s + i \<noteq> d + length xs + j"
  shows "\<exists>m'. strcat m d s = Some m' \<and> cstr m' d (xs @ ys) \<and>
    (\<forall>a. a < d + length xs \<or> d + length xs + length ys < a \<longrightarrow> m' a = m a)"
  by (rule strcat_spec [OF assms])

theorem strcat_correct_witness:
  "\<exists>m'. strcat (store_bytes (\<lambda>_. 0) 0 [97, 98, 0, 0, 0, 99, 0]) 0 5 = Some m' \<and> cstr m' 0 [97, 98, 99]"
proof -
  let ?m = "store_bytes (\<lambda>_. 0) 0 [97, 98, 0, 0, 0, 99, 0 :: u8]"
  have "cstr ?m 0 [97, 98]" "cstr ?m 5 [99]" by simp_all
  from strcat_correct [OF this] show ?thesis by auto
qed

text \<open>\<open>strstr\<close> on terminated strings ends and returns the address of the first
  occurrence of the needle in the haystack, the haystack itself for an empty needle, and
  \<open>NULL\<close> when there is none.\<close>

theorem strstr_correct:
  assumes "cstr m h xs" "cstr m n ys"
  shows "strstr m h n = Some (if ys = [] then Some h else
    map_option (\<lambda>i. h + i) (List.find (\<lambda>i. take (length ys) (drop i xs) = ys) [0..<length xs]))"
proof (cases ys)
  case Nil
  then show ?thesis using assms(2) by (simp add: strstr_def)
next
  case (Cons y ys')
  then have "m n \<noteq> 0" "ys \<noteq> []" using assms(2) by auto
  then show ?thesis using strstr_loop_spec [OF assms] by (simp add: strstr_def map_option_case)
qed

theorem strstr_correct_witness:
  "strstr (store_bytes (\<lambda>_. 0) 0 [97, 98, 97, 99, 0, 97, 99, 0]) 0 5 = Some (Some 2)"
proof -
  let ?m = "store_bytes (\<lambda>_. 0) 0 [97, 98, 97, 99, 0, 97, 99, 0 :: u8]"
  have "cstr ?m 0 [97, 98, 97, 99]" "cstr ?m 5 [97, 99]" by simp_all
  from strstr_correct [OF this] show ?thesis by (simp add: upt_conv_Cons)
qed

end
