(* ===== verification/Console.thy ===== *)
theory Console
  imports Font
begin

text \<open>
  The framebuffer text console of \<open>kernel/console.c\<close>: glyphs, scrolling, colours by escape
  sequences, and the cursor.

  The framebuffer is the array of its 32-bit pixels; the model covers pitches that are a multiple of
  the pixel size. A store outside the array and the overflow of the escape parameter are the value
  \<open>Inl Fault\<close>. The pixel index is computed in 32 bits, as in the code.
\<close>

datatype ansi = ANSI_STATE_NORMAL | ANSI_STATE_ESC | ANSI_STATE_BRACKET

record console =
  fb :: "u32 list"
  fb_width :: u64
  fb_height :: u64
  fb_pitch :: u64
  fb_ready :: bool
  cursor_x :: u32
  cursor_y :: u32
  cols :: u32
  rows :: u32
  fg_color :: u32
  ansi_state :: ansi
  ansi_param :: int

definition FONT_W :: u32 where "FONT_W = 8"
definition FONT_H :: u32 where "FONT_H = 16"
definition COL_BG :: u32 where "COL_BG = 0x00101010"
definition COL_WHITE :: u32 where "COL_WHITE = 0x00E0E0E0"
definition COL_RED :: u32 where "COL_RED = 0x00FF4444"
definition COL_GREEN :: u32 where "COL_GREEN = 0x0044FF44"
definition COL_YELLOW :: u32 where "COL_YELLOW = 0x00FFFF44"
definition COL_BLUE :: u32 where "COL_BLUE = 0x006666FF"
definition COL_MAGENTA :: u32 where "COL_MAGENTA = 0x00FF44FF"
definition COL_CYAN :: u32 where "COL_CYAN = 0x0044FFFF"

text \<open>Stores into the framebuffer, in order.\<close>

fun draw_list :: "(nat \<times> u32) list \<Rightarrow> u32 list \<Rightarrow> u32 list res" where
  "draw_list [] f = Inr f"
| "draw_list ((i, v) # ps) f = (if i < length f then draw_list ps (f[i := v]) else Inl Fault)"

subsection \<open>Glyphs\<close>

definition glyph_of :: "u8 \<Rightarrow> u8 list" where
  "glyph_of c = (let idx = sint c - 32 in font_data ! (if idx < 0 \<or> 95 \<le> idx then 0 else nat idx))"

definition ppitch :: "console \<Rightarrow> u32" where
  "ppitch con = ucast (fb_pitch con div 4)"

definition glyph_pixels :: "console \<Rightarrow> u32 \<Rightarrow> u32 \<Rightarrow> u8 \<Rightarrow> (nat \<times> u32) list" where
  "glyph_pixels con px py c =
     concat (map (\<lambda>y. map (\<lambda>x. (unat ((py + of_nat y) * ppitch con + px) + x,
         if glyph_of c ! y AND drop_bit x 0x80 \<noteq> 0 then fg_color con else COL_BG)) [0..<8]) [0..<16])"

definition draw_glyph :: "console \<Rightarrow> u32 \<Rightarrow> u32 \<Rightarrow> u8 \<Rightarrow> console res" where
  "draw_glyph con px py c = bnd (draw_list (glyph_pixels con px py c) (fb con)) (\<lambda>f. Inr (con\<lparr>fb := f\<rparr>))"

subsection \<open>Scrolling and clearing\<close>

text \<open>\<open>memmove\<close> of the lines below the first, and \<open>memset\<close> of the last line to bytes 0x10; sizes in
  bytes, four to a pixel.\<close>

definition scroll_up :: "console \<Rightarrow> console res" where
  "scroll_up con =
     (let line_bytes = ucast (fb_pitch con * 16) :: u32; total = ucast (fb_pitch con * fb_height con) :: u32;
          n = unat (total - line_bytes) div 4; l = unat line_bytes div 4 in
      if fb_pitch con mod 4 \<noteq> 0 \<or> total < line_bytes \<or> length (fb con) < l + n then Inl Fault
      else Inr (con\<lparr>fb := take n (drop l (fb con)) @ replicate l 0x10101010 @ drop (n + l) (fb con)\<rparr>))"

definition clear_pixels :: "console \<Rightarrow> (nat \<times> u32) list" where
  "clear_pixels con =
     concat (map (\<lambda>y. map (\<lambda>x. (unat (of_nat y * ucast (ppitch con) + of_nat x :: u64), COL_BG)) [0..<unat (fb_width con)])
       [0..<unat (fb_height con)])"

definition console_clear :: "console \<Rightarrow> console res" where
  "console_clear con =
     (if \<not> fb_ready con then Inr con
      else bnd (draw_list (clear_pixels con) (fb con)) (\<lambda>f. Inr (con\<lparr>fb := f, cursor_x := 0, cursor_y := 0\<rparr>)))"

definition console_init :: "u32 list option \<Rightarrow> u64 \<Rightarrow> u64 \<Rightarrow> u64 \<Rightarrow> u16 \<Rightarrow> console \<Rightarrow> console res" where
  "console_init fb_addr width height pitch bpp con =
     (case fb_addr of None \<Rightarrow> Inr con
      | Some mem \<Rightarrow>
        if bpp \<noteq> 32 then Inr con
        else console_clear (con\<lparr>fb := mem, fb_width := width, fb_height := height, fb_pitch := pitch,
               cols := ucast (width div 8), rows := ucast (height div 16), cursor_x := 0, cursor_y := 0, fb_ready := True\<rparr>))"

subsection \<open>Characters\<close>

definition ansi_set_color :: "int \<Rightarrow> console \<Rightarrow> console" where
  "ansi_set_color code con =
     (if code = 0 then con\<lparr>fg_color := COL_WHITE\<rparr>
      else if code = 31 then con\<lparr>fg_color := COL_RED\<rparr>
      else if code = 32 then con\<lparr>fg_color := COL_GREEN\<rparr>
      else if code = 33 then con\<lparr>fg_color := COL_YELLOW\<rparr>
      else if code = 34 then con\<lparr>fg_color := COL_BLUE\<rparr>
      else if code = 35 then con\<lparr>fg_color := COL_MAGENTA\<rparr>
      else if code = 36 then con\<lparr>fg_color := COL_CYAN\<rparr>
      else if code = 37 then con\<lparr>fg_color := COL_WHITE\<rparr>
      else con)"

definition move_or_draw :: "console \<Rightarrow> u8 \<Rightarrow> console res" where
  "move_or_draw con c =
     (if c = 10 then Inr (con\<lparr>cursor_x := 0, cursor_y := cursor_y con + 1\<rparr>)
      else if c = 13 then Inr (con\<lparr>cursor_x := 0\<rparr>)
      else if c = 8 then
        if 0 < cursor_x con then
          let con1 = con\<lparr>cursor_x := cursor_x con - 1\<rparr>
          in draw_glyph con1 (cursor_x con1 * FONT_W) (cursor_y con1 * FONT_H) 32
        else Inr con
      else if c = 9 then Inr (con\<lparr>cursor_x := (cursor_x con + 4) AND NOT 3\<rparr>)
      else if 32 \<le> c \<and> c < 127 then
        bnd (draw_glyph con (cursor_x con * FONT_W) (cursor_y con * FONT_H) c) (\<lambda>con1. Inr (con1\<lparr>cursor_x := cursor_x con1 + 1\<rparr>))
      else Inr con)"

definition wrap_line :: "console \<Rightarrow> console" where
  "wrap_line con = (if cols con \<le> cursor_x con then con\<lparr>cursor_x := 0, cursor_y := cursor_y con + 1\<rparr> else con)"

definition scroll_if :: "console \<Rightarrow> console res" where
  "scroll_if con = (if rows con \<le> cursor_y con then bnd (scroll_up con) (\<lambda>con1. Inr (con1\<lparr>cursor_y := rows con1 - 1\<rparr>)) else Inr con)"

definition put_plain :: "console \<Rightarrow> u8 \<Rightarrow> console res" where
  "put_plain con c =
     (if c = 27 then Inr (con\<lparr>ansi_state := ANSI_STATE_ESC\<rparr>)
      else bnd (move_or_draw con c) (\<lambda>con1. scroll_if (wrap_line con1)))"

definition console_putchar :: "console \<Rightarrow> u8 \<Rightarrow> console res" where
  "console_putchar con c =
     (if \<not> fb_ready con then Inr con
      else case ansi_state con of
        ANSI_STATE_NORMAL \<Rightarrow> put_plain con c
      | ANSI_STATE_ESC \<Rightarrow>
          if c = 91 then Inr (con\<lparr>ansi_state := ANSI_STATE_BRACKET, ansi_param := 0\<rparr>)
          else put_plain (con\<lparr>ansi_state := ANSI_STATE_NORMAL\<rparr>) c
      | ANSI_STATE_BRACKET \<Rightarrow>
          if 48 \<le> c \<and> c \<le> 57 then
            let p = ansi_param con * 10 + int (unat (c - 48)) in if p < 2 ^ 31 then Inr (con\<lparr>ansi_param := p\<rparr>) else Inl Fault
          else if c = 109 then Inr ((ansi_set_color (ansi_param con) con)\<lparr>ansi_state := ANSI_STATE_NORMAL\<rparr>)
          else Inr (con\<lparr>ansi_state := ANSI_STATE_NORMAL\<rparr>))"

primrec console_puts :: "console \<Rightarrow> u8 list \<Rightarrow> console res" where
  "console_puts con [] = Inr con"
| "console_puts con (c # cs) = bnd (console_putchar con c) (\<lambda>con1. console_puts con1 cs)"

definition console_available :: "console \<Rightarrow> bool" where
  "console_available con = fb_ready con"

end
