(* ===== verification/Console_Spec.thy ===== *)
theory Console_Spec
  imports Console
begin

text \<open>
  Properties of the console: no character draws outside the framebuffer, the cursor stays inside the
  text area, and a printable character sets exactly the pixels of its cell.
\<close>

subsection \<open>Geometry\<close>

definition geometry :: "console \<Rightarrow> bool" where
  "geometry con \<longleftrightarrow> fb_ready con \<and> unat (fb_pitch con) mod 4 = 0 \<and> unat (fb_pitch con) * unat (fb_height con) < 2 ^ 32 \<and>
     4 * unat (fb_width con) \<le> unat (fb_pitch con) \<and> 8 \<le> unat (fb_width con) \<and> 16 \<le> unat (fb_height con) \<and>
     unat (fb_pitch con) * unat (fb_height con) \<le> 4 * length (fb con) \<and>
     cols con = ucast (fb_width con div 8) \<and> rows con = ucast (fb_height con div 16)"

definition con_ok :: "console \<Rightarrow> bool" where
  "con_ok con \<longleftrightarrow> geometry con \<and> cursor_x con < cols con \<and> cursor_y con < rows con \<and> 0 \<le> ansi_param con"

lemma unat_ucast_64_32: "unat (w :: u64) < 2 ^ 32 \<Longrightarrow> unat (ucast w :: u32) = unat w"
  by (simp add: unsigned_ucast_eq take_bit_nat_eq_self)

lemma unat_add_32: "unat (a :: u32) + unat b < 2 ^ 32 \<Longrightarrow> unat (a + b) = unat a + unat b"
  by (simp add: unat_word_ariths)

lemma geometry_facts:
  assumes "geometry con"
  defines "P \<equiv> unat (fb_pitch con) div 4" and "W \<equiv> unat (fb_width con)" and "H \<equiv> unat (fb_height con)"
  shows "unat (fb_pitch con) = 4 * P" "W \<le> P" "8 \<le> W" "16 \<le> H" "P * H < 2 ^ 30" "P * H \<le> length (fb con)"
    "unat (ppitch con) = P" "unat (cols con) = W div 8" "unat (rows con) = H div 16"
proof -
  show p: "unat (fb_pitch con) = 4 * P" using assms(1) by (simp add: P_def geometry_def mult.commute mod_0_imp_dvd dvd_mult_div_cancel)
  show w: "W \<le> P" "8 \<le> W" and h: "16 \<le> H" using assms(1) p by (auto simp: geometry_def W_def H_def)
  define q where "q = P * H"
  have "4 * q < 2 ^ 32" "4 * q \<le> 4 * length (fb con)" unfolding q_def using assms(1) p by (auto simp: geometry_def H_def mult.assoc)
  then show ph: "P * H < 2 ^ 30" and "P * H \<le> length (fb con)" unfolding q_def [symmetric] by simp_all
  have le: "P \<le> P * H" "H \<le> P * H" using h w by auto
  have pl: "P < 2 ^ 30" by (rule le_less_trans [OF le(1) ph])
  have hl: "H < 2 ^ 30" by (rule le_less_trans [OF le(2) ph])
  have d: "unat (fb_pitch con div 4) = P" by (simp add: unat_div P_def)
  show "unat (ppitch con) = P" unfolding ppitch_def using unat_ucast_64_32 [of "fb_pitch con div 4"] d pl by simp
  have "unat (fb_width con div 8) = W div 8" by (simp add: unat_div W_def)
  moreover have "W div 8 < 2 ^ 32" using w(1) pl div_le_dividend [of W 8] by simp
  ultimately show "unat (cols con) = W div 8" using assms(1) unat_ucast_64_32 [of "fb_width con div 8"] by (simp add: geometry_def)
  have "unat (fb_height con div 16) = H div 16" by (simp add: unat_div H_def)
  moreover have "H div 16 < 2 ^ 32" using hl div_le_dividend [of H 16] by simp
  ultimately show "unat (rows con) = H div 16" using assms(1) unat_ucast_64_32 [of "fb_height con div 16"] by (simp add: geometry_def)
qed

text \<open>The index of the pixel in row \<open>y\<close> of the cell in column \<open>cx\<close> and line \<open>cy\<close>.\<close>

lemma cell_index:
  assumes g: "geometry con" and c: "cx < cols con" "cy < rows con" and y: "y < 16"
  defines "P \<equiv> unat (fb_pitch con) div 4"
  shows "unat ((cy * FONT_H + of_nat y) * ppitch con + cx * FONT_W) = (16 * unat cy + y) * P + 8 * unat cx"
    "(16 * unat cy + y) * P + 8 * unat cx + 8 \<le> P * unat (fb_height con)" "8 * unat cx + 8 \<le> P"
proof -
  note G = geometry_facts [OF g, folded P_def]
  have cx: "unat cx + 1 \<le> unat (fb_width con) div 8" and cy: "unat cy + 1 \<le> unat (fb_height con) div 16"
    using c G(8,9) by (auto simp: word_less_nat_alt)
  show x8: "8 * unat cx + 8 \<le> P" using cx G(2) by linarith
  have y16: "16 * unat cy + y + 1 \<le> unat (fb_height con)" using cy y by linarith
  have "(16 * unat cy + y) * P + P = (16 * unat cy + y + 1) * P" by simp
  also have "\<dots> \<le> unat (fb_height con) * P" using y16 by (rule mult_le_mono1)
  finally show le: "(16 * unat cy + y) * P + 8 * unat cx + 8 \<le> P * unat (fb_height con)" using x8 by (simp add: mult.commute)
  have hb: "16 * unat cy + y < 2 ^ 32"
  proof -
    have "1 * unat (fb_height con) \<le> P * unat (fb_height con)" using G(2,3) by (intro mult_le_mono1) simp
    then have "unat (fb_height con) < 2 ^ 30" using G(5) by (simp only: mult_1 le_less_trans)
    then show ?thesis using y16 by simp
  qed
  have a: "unat (cy * FONT_H) = unat cy * 16" using hb by (simp add: unat_word_ariths FONT_H_def)
  have b: "unat (cy * FONT_H + of_nat y) = 16 * unat cy + y"
    using a hb y by (simp add: unat_word_ariths unat_of_nat take_bit_nat_eq_self)
  have m: "unat ((cy * FONT_H + of_nat y) * ppitch con) = (16 * unat cy + y) * P"
    using b G(5,7) le by (simp add: unat_word_ariths)
  have xx: "unat (cx * FONT_W) = 8 * unat cx" using x8 le G(5) by (simp add: unat_word_ariths FONT_W_def)
  show "unat ((cy * FONT_H + of_nat y) * ppitch con + cx * FONT_W) = (16 * unat cy + y) * P + 8 * unat cx"
    using m xx le G(5) by (subst unat_add_32) simp_all
qed

subsection \<open>Stores\<close>

lemma draw_list_ok:
  "\<forall>p \<in> set ps. fst p < length f \<Longrightarrow> \<exists>f'. draw_list ps f = Inr f' \<and> length f' = length f"
  by (induction ps f rule: draw_list.induct) auto

lemma draw_list_nth:
  assumes "draw_list ps f = Inr f'" "\<forall>v. (j, v) \<in> set ps \<longrightarrow> v = w"
  shows "f' ! j = (if j \<in> fst ` set ps then w else f ! j)"
  using assms
proof (induction ps f rule: draw_list.induct)
  case (2 i v ps f)
  then have i: "i < length f" and d: "draw_list ps (f[i := v]) = Inr f'" by (auto split: if_splits)
  then show ?case using 2 by (cases "i = j") (auto simp: nth_list_update)
qed simp

text \<open>The glyph of one cell.\<close>

definition cell_pixel :: "console \<Rightarrow> u32 \<Rightarrow> u32 \<Rightarrow> nat \<Rightarrow> nat \<Rightarrow> nat" where
  "cell_pixel con cx cy x y = (16 * unat cy + y) * (unat (fb_pitch con) div 4) + 8 * unat cx + x"

lemma glyph_pixels_cell:
  assumes "geometry con" "cx < cols con" "cy < rows con"
  shows "set (glyph_pixels con (cx * FONT_W) (cy * FONT_H) c) =
    {(cell_pixel con cx cy x y, if glyph_of c ! y AND drop_bit x 0x80 \<noteq> 0 then fg_color con else COL_BG) | x y. x < 8 \<and> y < 16}"
proof -
  have "unat ((cy * FONT_H + of_nat y) * ppitch con + cx * FONT_W) + x = cell_pixel con cx cy x y" if "y < 16" for x y
    using cell_index(1) [OF assms that] by (simp add: cell_pixel_def)
  then show ?thesis unfolding glyph_pixels_def by (auto simp: image_iff) fastforce+
qed

lemma cell_pixel_inj:
  assumes g: "geometry con" and c: "cx < cols con" "cy < rows con"
    and xy: "x < 8" "y < 16" "x' < 8" "y' < 16" and eq: "cell_pixel con cx cy x y = cell_pixel con cx cy x' y'"
  shows "x = x' \<and> y = y'"
proof -
  let ?P = "unat (fb_pitch con) div 4"
  have x8: "8 * unat cx + 8 \<le> ?P" by (rule cell_index(3) [OF g c, of 0]) simp
  have r: "8 * unat cx + x < ?P" "8 * unat cx + x' < ?P" using x8 xy by simp_all
  have e: "(16 * unat cy + y) * ?P + (8 * unat cx + x) = (16 * unat cy + y') * ?P + (8 * unat cx + x')"
    using eq by (simp add: cell_pixel_def add.assoc)
  have "((16 * unat cy + y) * ?P + (8 * unat cx + x)) div ?P = 16 * unat cy + y" using r(1) by simp
  moreover have "((16 * unat cy + y') * ?P + (8 * unat cx + x')) div ?P = 16 * unat cy + y'" using r(2) by simp
  ultimately have "y = y'" using e by simp
  then show ?thesis using e by simp
qed

lemma draw_glyph_cell:
  assumes g: "geometry con" and c: "cx < cols con" "cy < rows con"
  shows "\<exists>f. draw_glyph con (cx * FONT_W) (cy * FONT_H) ch = Inr (con\<lparr>fb := f\<rparr>) \<and> length f = length (fb con) \<and>
    (\<forall>x < 8. \<forall>y < 16. f ! cell_pixel con cx cy x y = (if glyph_of ch ! y AND drop_bit x 0x80 \<noteq> 0 then fg_color con else COL_BG)) \<and>
    (\<forall>j. (\<forall>x < 8. \<forall>y < 16. j \<noteq> cell_pixel con cx cy x y) \<longrightarrow> f ! j = fb con ! j)"
proof -
  let ?ps = "glyph_pixels con (cx * FONT_W) (cy * FONT_H) ch"
  note S = glyph_pixels_cell [OF g c, of ch]
  have "cell_pixel con cx cy x y < length (fb con)" if "x < 8" "y < 16" for x y
    using cell_index(2) [OF g c that(2)] geometry_facts(6) [OF g] that(1) by (simp add: cell_pixel_def)
  then have "\<forall>p \<in> set ?ps. fst p < length (fb con)" unfolding S by auto
  then obtain f where f: "draw_list ?ps (fb con) = Inr f" "length f = length (fb con)" using draw_list_ok by blast
  have in_cell: "f ! cell_pixel con cx cy x y = (if glyph_of ch ! y AND drop_bit x 0x80 \<noteq> 0 then fg_color con else COL_BG)"
    if xy: "x < 8" "y < 16" for x y
  proof -
    let ?w = "if glyph_of ch ! y AND drop_bit x 0x80 \<noteq> 0 then fg_color con else COL_BG"
    have "\<forall>v. (cell_pixel con cx cy x y, v) \<in> set ?ps \<longrightarrow> v = ?w" unfolding S using cell_pixel_inj [OF g c xy] by blast
    moreover have "cell_pixel con cx cy x y \<in> fst ` set ?ps" unfolding S
      by (rule image_eqI [of _ fst "(cell_pixel con cx cy x y, ?w)"]) (use xy in auto)
    ultimately show ?thesis using draw_list_nth [OF f(1)] by simp
  qed
  have "f ! j = fb con ! j" if "\<forall>x < 8. \<forall>y < 16. j \<noteq> cell_pixel con cx cy x y" for j
  proof -
    have "j \<notin> fst ` set ?ps"
    proof
      assume "j \<in> fst ` set ?ps"
      then obtain x y where "x < 8" "y < 16" "j = cell_pixel con cx cy x y" unfolding S by auto
      then show False using that by blast
    qed
    then show ?thesis using draw_list_nth [OF f(1), of j 0] by (force simp: image_iff)
  qed
  then show ?thesis using f in_cell by (intro exI [of _ f]) (simp add: draw_glyph_def)
qed

subsection \<open>Characters\<close>

lemma scroll_up_ok:
  assumes "geometry con"
  shows "\<exists>f. scroll_up con = Inr (con\<lparr>fb := f\<rparr>) \<and> length f = length (fb con)"
proof -
  define P H where "P = unat (fb_pitch con) div 4" and "H = unat (fb_height con)"
  note G = geometry_facts [OF assms, folded P_def H_def]
  have pl: "P * 16 \<le> P * H" using G(4) by (rule mult_le_mono2)
  have p16: "P * 16 < 2 ^ 30" by (rule le_less_trans [OF pl G(5)])
  have lb: "unat (fb_pitch con * 16) = 64 * P" using G(1) p16 by (simp add: unat_word_ariths)
  have big: "4 * q mod 2 ^ 64 = 4 * q" if "q < 2 ^ 30" for q :: nat using that by simp
  have "unat (fb_pitch con * fb_height con) = 4 * (P * H) mod 2 ^ 64" using G(1) by (simp add: unat_word_ariths H_def [symmetric] mult.assoc)
  then have tt: "unat (fb_pitch con * fb_height con) = 4 * (P * H)" by (simp only: big [OF G(5)])
  have l: "unat (ucast (fb_pitch con * 16) :: u32) = 64 * P" using unat_ucast_64_32 [of "fb_pitch con * 16"] lb p16 by simp
  have "4 * q < 2 ^ 32" if "q < 2 ^ 30" for q :: nat using that by simp
  from this [OF G(5)] have t: "unat (ucast (fb_pitch con * fb_height con) :: u32) = 4 * (P * H)"
    using unat_ucast_64_32 [of "fb_pitch con * fb_height con"] unfolding tt by blast
  have le: "(ucast (fb_pitch con * 16) :: u32) \<le> ucast (fb_pitch con * fb_height con)" using l t pl by (simp add: word_le_nat_alt)
  have n: "unat ((ucast (fb_pitch con * fb_height con) :: u32) - ucast (fb_pitch con * 16)) div 4 = P * H - 16 * P"
    using unat_sub [OF le] l t by simp
  have m: "fb_pitch con mod 4 = 0" using assms by (simp add: geometry_def word_unat_eq_iff unat_mod)
  have c: "\<not> (fb_pitch con mod 4 \<noteq> 0 \<or> (ucast (fb_pitch con * fb_height con) :: u32) < ucast (fb_pitch con * 16) \<or>
      length (fb con) < unat (ucast (fb_pitch con * 16) :: u32) div 4 +
        unat ((ucast (fb_pitch con * fb_height con) :: u32) - ucast (fb_pitch con * 16)) div 4)"
    using m le G(6) pl unfolding n l by (simp add: not_less)
  have len: "length (take n (drop l f) @ replicate l v @ drop (n + l) f) = length f" if "l + n \<le> length f" for n l and f :: "u32 list" and v
    using that by simp
  have room: "64 * P div 4 + (P * H - 16 * P) \<le> length (fb con)" using G(6) pl by simp
  show ?thesis unfolding scroll_up_def Let_def if_not_P [OF c] unfolding n l
    by (intro exI conjI, rule refl, rule len [OF room])
qed

lemma geometry_fb: "geometry con \<Longrightarrow> length f = length (fb con) \<Longrightarrow> geometry (con\<lparr>fb := f\<rparr>)"
  by (simp add: geometry_def)

lemma geometry_cursor [simp]:
  "geometry (con\<lparr>cursor_x := x\<rparr>) = geometry con" "geometry (con\<lparr>cursor_y := y\<rparr>) = geometry con"
  "geometry (con\<lparr>ansi_state := st\<rparr>) = geometry con" "geometry (con\<lparr>ansi_param := p\<rparr>) = geometry con" "geometry (con\<lparr>fg_color := k\<rparr>) = geometry con"
  by (simp_all add: geometry_def)

lemma text_area_pos:
  assumes "geometry con"
  shows "0 < cols con" "0 < rows con"
proof -
  note G = geometry_facts [OF assms]
  have "0 < unat (cols con)" "0 < unat (rows con)" using G(3,4,8,9) by (simp_all add: div_greater_zero_iff)
  then show "0 < cols con" "0 < rows con" by (simp_all add: word_less_nat_alt)
qed

text \<open>After a character the cursor is at most one line below the text area.\<close>

lemma wrap_scroll_ok:
  assumes g: "geometry con" and p: "0 \<le> ansi_param con"
    and y: "cursor_y con < rows con \<or> cursor_y con \<le> rows con \<and> cursor_x con < cols con"
  shows "\<exists>con'. scroll_if (wrap_line con) = Inr con' \<and> con_ok con'"
proof -
  let ?w = "wrap_line con"
  note A = text_area_pos [OF g]
  have w: "geometry ?w" "cursor_x ?w < cols ?w" "0 \<le> ansi_param ?w" "cols ?w = cols con" "rows ?w = rows con"
    using g p A by (auto simp: wrap_line_def not_le)
  show ?thesis
  proof (cases "rows ?w \<le> cursor_y ?w")
    case True
    obtain f where f: "scroll_up ?w = Inr (?w\<lparr>fb := f\<rparr>)" "length f = length (fb ?w)" using scroll_up_ok [OF w(1)] by blast
    have "rows con - 1 < rows con" using A(2) by (simp add: word_less_nat_alt unat_sub word_le_nat_alt)
    then have "con_ok (?w\<lparr>fb := f, cursor_y := rows ?w - 1\<rparr>)" using w f(2) geometry_fb [OF w(1) f(2)] by (simp add: con_ok_def)
    then show ?thesis using True f by (simp add: scroll_if_def)
  next
    case False
    show ?thesis unfolding scroll_if_def if_not_P [OF False] using w False by (simp add: con_ok_def not_le)
  qed
qed

lemma put_plain_ok:
  assumes "con_ok con"
  shows "\<exists>con'. put_plain con c = Inr con' \<and> con_ok con'"
proof (cases "c = 27")
  case True
  then show ?thesis using assms by (simp add: put_plain_def con_ok_def)
next
  case False
  have g: "geometry con" and x: "cursor_x con < cols con" and y: "cursor_y con < rows con" and p: "0 \<le> ansi_param con"
    using assms by (simp_all add: con_ok_def)
  have y1: "cursor_y con + 1 \<le> rows con" using y by (rule inc_le)
  have "\<exists>con1. move_or_draw con c = Inr con1 \<and> geometry con1 \<and> 0 \<le> ansi_param con1 \<and>
    (cursor_y con1 < rows con1 \<or> cursor_y con1 \<le> rows con1 \<and> cursor_x con1 < cols con1)"
  proof -
    consider (nl) "c = 10" | (bs) "c = 8" "0 < cursor_x con" | (print) "32 \<le> c" "c < 127"
      | (other) "c \<noteq> 10" "c \<noteq> 8 \<or> cursor_x con = 0" "\<not> (32 \<le> c \<and> c < 127)"
      using word_neq_0_conv [of "cursor_x con"] by blast
    then show ?thesis
    proof cases
      case nl
      then show ?thesis using g p y1 text_area_pos [OF g] by (simp add: move_or_draw_def)
    next
      case bs
      let ?c = "con\<lparr>cursor_x := cursor_x con - 1\<rparr>"
      have "cursor_x con - 1 < cols con" using x bs(2) by (simp add: word_less_nat_alt unat_sub word_le_nat_alt)
      then obtain f where "draw_glyph ?c ((cursor_x con - 1) * FONT_W) (cursor_y con * FONT_H) 32 = Inr (?c\<lparr>fb := f\<rparr>)" "length f = length (fb ?c)"
        using draw_glyph_cell [of ?c "cursor_x con - 1" "cursor_y con" 32] g y by auto
      then show ?thesis using bs g p y geometry_fb [of ?c f] by (simp add: move_or_draw_def)
    next
      case print
      then have n: "c \<noteq> 10" "c \<noteq> 13" "c \<noteq> 8" "c \<noteq> 9" by auto
      obtain f where "draw_glyph con (cursor_x con * FONT_W) (cursor_y con * FONT_H) c = Inr (con\<lparr>fb := f\<rparr>)" "length f = length (fb con)"
        using draw_glyph_cell [OF g x y, of c] by blast
      then show ?thesis using print n g p y geometry_fb [OF g, of f] by (simp add: move_or_draw_def)
    next
      case other
      then show ?thesis using g p y by (auto simp: move_or_draw_def)
    qed
  qed
  then obtain con1 where c1: "move_or_draw con c = Inr con1" "geometry con1" "0 \<le> ansi_param con1"
    "cursor_y con1 < rows con1 \<or> cursor_y con1 \<le> rows con1 \<and> cursor_x con1 < cols con1" by blast
  from wrap_scroll_ok [OF c1(2-4)] show ?thesis using False c1(1) by (simp add: put_plain_def)
qed

lemma ansi_set_color_ok: "con_ok (ansi_set_color k con) = con_ok con"
  by (simp add: ansi_set_color_def con_ok_def)

subsection \<open>Properties\<close>

text \<open>C39: the console never draws outside the framebuffer. On a screen of at least one character cell,
  every character, printable or not and in every state of the escape parser, is handled without a
  store outside the framebuffer, and the cursor is inside the text area again afterwards; a colour
  parameter in an escape sequence must stay in the range of \<open>int\<close>.\<close>

theorem console_putchar_safe:
  assumes "con_ok con" "ansi_param con < 2 ^ 27"
  shows "\<exists>con'. console_putchar con c = Inr con' \<and> con_ok con'"
proof (cases "ansi_state con")
  case ANSI_STATE_NORMAL
  then show ?thesis using put_plain_ok [OF assms(1), of c] assms(1) by (simp add: console_putchar_def con_ok_def geometry_def)
next
  case ANSI_STATE_ESC
  have "con_ok (con\<lparr>ansi_state := ANSI_STATE_NORMAL\<rparr>)" "con_ok (con\<lparr>ansi_state := ANSI_STATE_BRACKET, ansi_param := 0\<rparr>)"
    using assms(1) by (simp_all add: con_ok_def)
  then show ?thesis using put_plain_ok [of "con\<lparr>ansi_state := ANSI_STATE_NORMAL\<rparr>" c] ANSI_STATE_ESC assms(1) by (simp add: console_putchar_def)
next
  case ANSI_STATE_BRACKET
  have "uint (c - 48) < 256" using unsigned_less [of "c - 48", where ?'a = int] by simp
  then have p: "ansi_param con * 10 + int (unat (c - 48)) < 2 ^ 31" using assms(2) by simp
  have "con_ok (con\<lparr>ansi_param := ansi_param con * 10 + int (unat (c - 48))\<rparr>)" "con_ok (con\<lparr>ansi_state := ANSI_STATE_NORMAL\<rparr>)"
    "con_ok ((ansi_set_color (ansi_param con) con)\<lparr>ansi_state := ANSI_STATE_NORMAL\<rparr>)"
    using assms(1) ansi_set_color_ok [of "ansi_param con" con] by (simp_all add: con_ok_def)
  then show ?thesis using p ANSI_STATE_BRACKET unfolding console_putchar_def Let_def ansi.case if_P [OF p]
    by (cases "fb_ready con") (simp_all add: assms(1))
qed

text \<open>Printing a character. A printable character inside a line sets the 128 pixels of the cell under
  the cursor to the foreground colour where its glyph has a bit and to the background elsewhere,
  changes no other pixel, and moves the cursor one column on.\<close>

theorem console_putchar_draws:
  assumes "con_ok con" "ansi_state con = ANSI_STATE_NORMAL" "32 \<le> c" "c < 127" "cursor_x con + 1 < cols con"
  shows "\<exists>f. console_putchar con c = Inr (con\<lparr>fb := f, cursor_x := cursor_x con + 1\<rparr>) \<and> length f = length (fb con) \<and>
    (\<forall>x < 8. \<forall>y < 16. f ! cell_pixel con (cursor_x con) (cursor_y con) x y =
       (if font_data ! (unat c - 32) ! y AND drop_bit x 0x80 \<noteq> 0 then fg_color con else COL_BG)) \<and>
    (\<forall>j. (\<forall>x < 8. \<forall>y < 16. j \<noteq> cell_pixel con (cursor_x con) (cursor_y con) x y) \<longrightarrow> f ! j = fb con ! j)"
proof -
  have g: "geometry con" and x: "cursor_x con < cols con" and y: "cursor_y con < rows con"
    using assms(1) by (simp_all add: con_ok_def)
  have rd: "fb_ready con" using g by (simp add: geometry_def)
  have n: "c \<noteq> 27" "c \<noteq> 10" "c \<noteq> 13" "c \<noteq> 8" "c \<noteq> 9" using assms(3,4) by auto
  have u: "32 \<le> unat c" "unat c < 127" using assms(3,4) by (simp_all add: word_le_nat_alt word_less_nat_alt)
  have "signed_take_bit 7 (uint c) = uint c"
    by (rule signed_take_bit_int_eq_self) (use assms(4) in \<open>simp_all add: word_less_def order_trans [OF _ uint_nonnegative]\<close>)
  then have s: "sint c = int (unat c)" by (simp add: sint_uint)
  have "\<not> (sint c - 32 < 0 \<or> 95 \<le> sint c - 32)" "nat (sint c - 32) = unat c - 32" unfolding s using u by linarith+
  then have gl: "glyph_of c = font_data ! (unat c - 32)" by (simp only: glyph_of_def Let_def if_False)
  obtain f where f: "draw_glyph con (cursor_x con * FONT_W) (cursor_y con * FONT_H) c = Inr (con\<lparr>fb := f\<rparr>)" "length f = length (fb con)"
    "\<forall>x < 8. \<forall>y < 16. f ! cell_pixel con (cursor_x con) (cursor_y con) x y =
       (if font_data ! (unat c - 32) ! y AND drop_bit x 0x80 \<noteq> 0 then fg_color con else COL_BG)"
    "\<forall>j. (\<forall>x < 8. \<forall>y < 16. j \<noteq> cell_pixel con (cursor_x con) (cursor_y con) x y) \<longrightarrow> f ! j = fb con ! j"
    using draw_glyph_cell [OF g x y, of c] unfolding gl by blast
  let ?c = "con\<lparr>fb := f, cursor_x := cursor_x con + 1\<rparr>"
  have "move_or_draw con c = Inr ?c" using n assms(3,4) f(1) by (simp add: move_or_draw_def)
  moreover have "scroll_if (wrap_line ?c) = Inr ?c"
    using assms(5) y by (simp add: wrap_line_def scroll_if_def not_le [symmetric])
  ultimately have "console_putchar con c = Inr ?c" using rd assms(2) n(1) by (simp add: console_putchar_def put_plain_def)
  then show ?thesis using f(2-4) by blast
qed

text \<open>A screen of two columns and two lines.\<close>

definition small_screen :: console where
  "small_screen = \<lparr>fb = replicate 512 0, fb_width = 16, fb_height = 32, fb_pitch = 64, fb_ready = True, cursor_x = 0, cursor_y = 0,
     cols = 2, rows = 2, fg_color = COL_WHITE, ansi_state = ANSI_STATE_NORMAL, ansi_param = 0\<rparr>"

lemma small_screen_ok: "con_ok small_screen"
  by (simp add: con_ok_def geometry_def small_screen_def)

theorem console_putchar_safe_witness: "\<exists>con'. console_putchar small_screen 10 = Inr con' \<and> con_ok con'"
  by (rule console_putchar_safe [OF small_screen_ok]) (simp add: small_screen_def)

theorem console_putchar_draws_witness:
  "\<exists>f. console_putchar small_screen 65 = Inr (small_screen\<lparr>fb := f, cursor_x := 1\<rparr>) \<and> f ! cell_pixel small_screen 0 0 0 0 = COL_BG"
proof -
  have s: "ansi_state small_screen = ANSI_STATE_NORMAL" "cursor_x small_screen = 0" "cursor_y small_screen = 0" "cols small_screen = 2"
    by (simp_all add: small_screen_def)
  have "font_data ! 33 ! 0 = 0" by (simp add: font_data_def)
  then show ?thesis using console_putchar_draws [OF small_screen_ok s(1), of 65] s by auto
qed

end
