(* ===== verification/Workqueue.thy ===== *)
theory Workqueue
  imports Prelude
begin

text \<open>
  The deferred-work queue of \<open>kernel/workqueue_def.c\<close>. A work item is an entry of a store indexed by
  its address; the queue is the list of the linked items. Each section under the queue's lock is one
  step. The function of an item is a parameter that may change the rest of the machine and schedule
  more work, so processing takes fuel: the number of items it may run.
\<close>

record work =
  w_func :: nat
  w_arg :: u64
  w_pending :: bool

record workqueue =
  wq_items :: "nat list"
  wq_processed :: u64
  works :: "nat \<Rightarrow> work"

definition work_init :: "nat \<Rightarrow> u64 \<Rightarrow> work" where
  "work_init fn arg = \<lparr>w_func = fn, w_arg = arg, w_pending = False\<rparr>"

definition workqueue_init :: "(nat \<Rightarrow> work) \<Rightarrow> workqueue" where
  "workqueue_init ws = \<lparr>wq_items = [], wq_processed = 0, works = ws\<rparr>"

definition set_pending :: "nat \<Rightarrow> bool \<Rightarrow> workqueue \<Rightarrow> workqueue" where
  "set_pending w b q = q\<lparr>works := (works q)(w := (works q w)\<lparr>w_pending := b\<rparr>)\<rparr>"

definition workqueue_schedule :: "nat \<Rightarrow> workqueue \<Rightarrow> workqueue" where
  "workqueue_schedule w q =
     (if \<not> w_pending (works q w) then (set_pending w True q)\<lparr>wq_items := wq_items q @ [w]\<rparr> else q)"

definition workqueue_pending :: "workqueue \<Rightarrow> bool" where
  "workqueue_pending q = (wq_items q \<noteq> [])"

text \<open>The function of a work item acts on the queue and the rest of the machine.\<close>

type_synonym 'm work_fn = "nat \<Rightarrow> u64 \<Rightarrow> workqueue \<times> 'm \<Rightarrow> workqueue \<times> 'm"

fun workqueue_process :: "nat \<Rightarrow> 'm work_fn \<Rightarrow> workqueue \<times> 'm \<Rightarrow> (workqueue \<times> 'm) option" where
  "workqueue_process fuel call (q, m) =
     (case wq_items q of [] \<Rightarrow> Some (q, m)
      | w # ws \<Rightarrow>
        (case fuel of 0 \<Rightarrow> None
         | Suc n \<Rightarrow>
           let q1 = (set_pending w False q)\<lparr>wq_items := ws, wq_processed := wq_processed q + 1\<rparr>
           in workqueue_process n call (call (w_func (works q1 w)) (w_arg (works q1 w)) (q1, m))))"

declare workqueue_process.simps [simp del]

definition workqueue_process_system :: "nat \<Rightarrow> 'm work_fn \<Rightarrow> workqueue \<times> 'm \<Rightarrow> (workqueue \<times> 'm) option" where
  "workqueue_process_system fuel call system_wq = workqueue_process fuel call system_wq"

subsection \<open>The state of the queue\<close>

text \<open>An item is pending exactly when it is in the queue, and it is there once.\<close>

definition wq_ok :: "workqueue \<Rightarrow> bool" where
  "wq_ok q \<longleftrightarrow> distinct (wq_items q) \<and> (\<forall>w. w_pending (works q w) \<longleftrightarrow> w \<in> set (wq_items q))"

lemma schedule_ok: "wq_ok q \<Longrightarrow> wq_ok (workqueue_schedule w q)"
  by (auto simp: wq_ok_def workqueue_schedule_def set_pending_def)

definition next_item :: "workqueue \<Rightarrow> workqueue" where
  "next_item q = (set_pending (hd (wq_items q)) False q)\<lparr>wq_items := tl (wq_items q), wq_processed := wq_processed q + 1\<rparr>"

lemma next_item_ok: "wq_ok q \<Longrightarrow> wq_items q \<noteq> [] \<Longrightarrow> wq_ok (next_item q)"
  by (cases "wq_items q") (auto simp: wq_ok_def next_item_def set_pending_def)

text \<open>Functions that do not touch the queue.\<close>

definition leaves_queue :: "'m work_fn \<Rightarrow> (nat \<Rightarrow> u64 \<Rightarrow> 'm \<Rightarrow> 'm) \<Rightarrow> bool" where
  "leaves_queue call act \<longleftrightarrow> (\<forall>f a q m. call f a (q, m) = (q, act f a m))"

lemma process_all:
  assumes c: "leaves_queue call act" and ok: "wq_ok q" and fuel: "length (wq_items q) \<le> fuel"
  shows "\<exists>q'. workqueue_process fuel call (q, m) =
      Some (q', fold (\<lambda>w. act (w_func (works q w)) (w_arg (works q w))) (wq_items q) m) \<and>
    wq_ok q' \<and> wq_items q' = [] \<and> wq_processed q' = wq_processed q + of_nat (length (wq_items q)) \<and>
    (\<forall>w. w_func (works q' w) = w_func (works q w) \<and> w_arg (works q' w) = w_arg (works q w))"
  using ok fuel
proof (induction "wq_items q" arbitrary: q m fuel)
  case Nil
  then show ?case by (subst workqueue_process.simps) (auto simp: Nil(1) [symmetric])
next
  case (Cons w ws)
  then obtain n where n: "fuel = Suc n" by (cases fuel) (auto simp: Cons.hyps(2) [symmetric])
  let ?q = "next_item q"
  have q: "wq_items ?q = ws" "wq_processed ?q = wq_processed q + 1" "w_func (works ?q v) = w_func (works q v)" "w_arg (works ?q v) = w_arg (works q v)" for v
    by (simp_all add: next_item_def set_pending_def Cons.hyps(2) [symmetric])
  have ok: "wq_ok ?q" by (rule next_item_ok [OF Cons.prems(1)]) (simp add: Cons.hyps(2) [symmetric])
  have st: "workqueue_process fuel call (q, m) = workqueue_process n call (?q, act (w_func (works q w)) (w_arg (works q w)) m)"
    using c q(3,4) [of w] by (subst workqueue_process.simps)
      (simp add: n Cons.hyps(2) [symmetric] Let_def leaves_queue_def next_item_def set_pending_def)
  have "\<exists>q'. workqueue_process n call (?q, act (w_func (works q w)) (w_arg (works q w)) m) =
      Some (q', fold (\<lambda>w. act (w_func (works ?q w)) (w_arg (works ?q w))) (wq_items ?q) (act (w_func (works q w)) (w_arg (works q w)) m)) \<and>
    wq_ok q' \<and> wq_items q' = [] \<and> wq_processed q' = wq_processed ?q + of_nat (length (wq_items ?q)) \<and>
    (\<forall>w. w_func (works q' w) = w_func (works ?q w) \<and> w_arg (works q' w) = w_arg (works ?q w))"
    by (rule Cons.hyps(1) [OF q(1) [symmetric] ok]) (use Cons.prems(2) n q(1) in \<open>simp add: Cons.hyps(2) [symmetric]\<close>)
  then show ?case unfolding st q using Cons.hyps(2) [symmetric] by (auto simp: add.assoc)
qed

text \<open>The items of a sequence at their first occurrence, without those already seen.\<close>

fun firsts :: "nat set \<Rightarrow> nat list \<Rightarrow> nat list" where
  "firsts seen [] = []"
| "firsts seen (w # ws) = (if w \<in> seen then firsts seen ws else w # firsts (insert w seen) ws)"

lemma schedule_all:
  assumes "wq_ok q"
  shows "wq_ok (fold workqueue_schedule ws q) \<and> wq_items (fold workqueue_schedule ws q) = wq_items q @ firsts (set (wq_items q)) ws \<and>
    wq_processed (fold workqueue_schedule ws q) = wq_processed q \<and>
    (\<forall>w. w_func (works (fold workqueue_schedule ws q) w) = w_func (works q w) \<and> w_arg (works (fold workqueue_schedule ws q) w) = w_arg (works q w))"
  using assms
proof (induction ws arbitrary: q)
  case (Cons w ws)
  let ?q = "workqueue_schedule w q"
  have q: "wq_items ?q = (if w \<in> set (wq_items q) then wq_items q else wq_items q @ [w])" "wq_processed ?q = wq_processed q"
    "w_func (works ?q v) = w_func (works q v)" "w_arg (works ?q v) = w_arg (works q v)" for v
    using Cons.prems by (auto simp: wq_ok_def workqueue_schedule_def set_pending_def)
  show ?case using Cons.IH [OF schedule_ok [OF Cons.prems, of w]] q by (simp add: insert_commute)
qed simp

subsection \<open>Properties\<close>

text \<open>C40: deferred work. However often and in whatever order items are scheduled on an idle queue, processing
  it runs the function of every scheduled item exactly once, in the order in which the items were
  first scheduled, ends with an empty queue and no pending item, and counts the items; fuel for the
  number of items is enough. The functions are taken not to schedule work themselves.\<close>

theorem workqueue_runs_once:
  assumes "leaves_queue call act" "\<forall>w. \<not> w_pending (ws w)" "length (firsts {} sched) \<le> fuel"
  shows "\<exists>q'. workqueue_process fuel call (fold workqueue_schedule sched (workqueue_init ws), m) =
      Some (q', fold (\<lambda>w. act (w_func (ws w)) (w_arg (ws w))) (firsts {} sched) m) \<and>
    \<not> workqueue_pending q' \<and> (\<forall>w. \<not> w_pending (works q' w)) \<and> wq_processed q' = of_nat (length (firsts {} sched))"
proof -
  let ?q = "fold workqueue_schedule sched (workqueue_init ws)"
  have "wq_ok (workqueue_init ws)" using assms(2) by (simp add: wq_ok_def workqueue_init_def)
  then have S: "wq_ok ?q" "wq_items ?q = firsts {} sched" "wq_processed ?q = 0"
    "\<And>w. w_func (works ?q w) = w_func (ws w)" "\<And>w. w_arg (works ?q w) = w_arg (ws w)"
    using schedule_all [of "workqueue_init ws" sched] by (simp_all add: workqueue_init_def)
  have le: "length (wq_items ?q) \<le> fuel" using assms(3) S(2) by simp
  obtain q' where q': "workqueue_process fuel call (?q, m) = Some (q', fold (\<lambda>w. act (w_func (works ?q w)) (w_arg (works ?q w))) (wq_items ?q) m)"
      "wq_ok q'" "wq_items q' = []" "wq_processed q' = wq_processed ?q + of_nat (length (wq_items ?q))"
    using process_all [OF assms(1) S(1) le, of m] by blast
  then show ?thesis unfolding S by (auto simp: workqueue_pending_def wq_ok_def)
qed

theorem workqueue_runs_once_witness:
  "\<exists>q'. workqueue_process 2 (\<lambda>f a (q, m). (q, m @ [f])) (fold workqueue_schedule [5, 6, 5] (workqueue_init (\<lambda>w. work_init w 0)), []) = Some (q', [5, 6])"
proof -
  have "leaves_queue (\<lambda>f a (q, m). (q, m @ [f])) (\<lambda>f a m. m @ [f])" by (simp add: leaves_queue_def)
  from workqueue_runs_once [OF this, of "\<lambda>w. work_init w 0" "[5, 6, 5]" 2 "[]"] show ?thesis by (auto simp: work_init_def)
qed

end
