(* ===== verification/Mempressure.thy ===== *)
theory Mempressure
  imports Pmm_Spec Errno
begin

text \<open>
  The memory-pressure monitor of \<open>kernel/mempressure.c\<close> over the page counts of the page allocator.
  The registered callbacks are the list of their functions; what a function does to the rest of the
  machine is a parameter.
\<close>

datatype mem_pressure_level = MEM_PRESSURE_NORMAL | MEM_PRESSURE_WARNING | MEM_PRESSURE_CRITICAL

definition MEM_THRESHOLD_WARNING :: u64 where "MEM_THRESHOLD_WARNING = 75"
definition MEM_THRESHOLD_CRITICAL :: u64 where "MEM_THRESHOLD_CRITICAL = 25"
definition MAX_PRESSURE_CALLBACKS :: nat where "MAX_PRESSURE_CALLBACKS = 8"

record mempressure =
  mp_callbacks :: "nat list"
  last_level :: mem_pressure_level

definition mempressure_init :: mempressure where
  "mempressure_init = \<lparr>mp_callbacks = [], last_level = MEM_PRESSURE_NORMAL\<rparr>"

definition mempressure_register :: "nat \<Rightarrow> mempressure \<Rightarrow> mempressure \<times> int" where
  "mempressure_register fn mp =
     (if MAX_PRESSURE_CALLBACKS \<le> length (mp_callbacks mp) then (mp, - ENOSPC)
      else (mp\<lparr>mp_callbacks := mp_callbacks mp @ [fn]\<rparr>, int (length (mp_callbacks mp))))"

definition mempressure_name :: "mem_pressure_level \<Rightarrow> string" where
  "mempressure_name l = (case l of MEM_PRESSURE_NORMAL \<Rightarrow> ''NORMAL'' | MEM_PRESSURE_WARNING \<Rightarrow> ''WARNING'' | MEM_PRESSURE_CRITICAL \<Rightarrow> ''CRITICAL'')"

definition level_of :: "u64 \<Rightarrow> mem_pressure_level" where
  "level_of free_pct =
     (if free_pct < MEM_THRESHOLD_CRITICAL then MEM_PRESSURE_CRITICAL
      else if free_pct < MEM_THRESHOLD_WARNING then MEM_PRESSURE_WARNING
      else MEM_PRESSURE_NORMAL)"

definition mempressure_check :: "(nat \<Rightarrow> mem_pressure_level \<Rightarrow> 'w \<Rightarrow> 'w) \<Rightarrow> pmm_state \<Rightarrow> mempressure \<Rightarrow> 'w \<Rightarrow> mempressure \<times> 'w \<times> mem_pressure_level" where
  "mempressure_check call pm mp w =
     (let free_pg = pmm_free_count pm; used_pg = pmm_used_count pm; total = free_pg + used_pg in
      if total = 0 then (mp, w, MEM_PRESSURE_NORMAL)
      else
        let level = level_of (free_pg * 100 div total) in
        if level \<noteq> last_level mp
        then (mp\<lparr>last_level := level\<rparr>, fold (\<lambda>fn. call fn level) (mp_callbacks mp) w, level)
        else (mp, w, level))"

text \<open>The level that the share of free pages means.\<close>

definition true_level :: "nat \<Rightarrow> nat \<Rightarrow> mem_pressure_level" where
  "true_level f u =
     (if 4 * f < f + u then MEM_PRESSURE_CRITICAL else if 4 * f < 3 * (f + u) then MEM_PRESSURE_WARNING else MEM_PRESSURE_NORMAL)"

lemma percent_less:
  fixes f t k :: nat
  assumes "0 < t"
  shows "f * 100 div t < k \<longleftrightarrow> f * 100 < k * t"
  using assms by (simp add: div_less_iff_less_mult)

lemma level_of_counts:
  assumes "0 < unat f + unat u" "unat f + unat u < 2 ^ 57"
  shows "level_of (f * 100 div (f + u)) = true_level (unat f) (unat u)"
proof -
  have t: "unat (f + u) = unat f + unat u" using assms(2) by (intro unat_add_u64) simp
  have m: "unat (f * 100) = unat f * 100" using assms(2) by (simp add: unat_word_ariths)
  have d: "unat (f * 100 div (f + u)) = unat f * 100 div (unat f + unat u)" by (simp add: unat_div t m)
  show ?thesis
    using assms(1) by (simp add: level_of_def true_level_def word_less_nat_alt d percent_less MEM_THRESHOLD_CRITICAL_def MEM_THRESHOLD_WARNING_def)
qed

text \<open>Memory pressure. While fewer than \<open>2 ^ 57\<close> pages exist, a check reports critical below one
  quarter of free pages, a warning below three quarters and normal otherwise; exactly when the level
  differs from the last one, every registered callback is told the new level, once and in the order
  of registration; an empty machine counts as normal.\<close>

theorem mempressure_check_correct:
  assumes "unat (pmm_free_count pm) + unat (pmm_used_count pm) < 2 ^ 57"
  shows "let f = unat (pmm_free_count pm); u = unat (pmm_used_count pm); l = true_level f u in
    mempressure_check call pm mp w =
      (if f + u = 0 then (mp, w, MEM_PRESSURE_NORMAL)
       else if l = last_level mp then (mp, w, l)
       else (mp\<lparr>last_level := l\<rparr>, fold (\<lambda>fn. call fn l) (mp_callbacks mp) w, l))"
proof -
  let ?f = "pmm_free_count pm" and ?u = "pmm_used_count pm"
  have t: "unat (?f + ?u) = unat ?f + unat ?u" using assms by (intro unat_add_u64) simp
  then have z: "?f + ?u = 0 \<longleftrightarrow> unat ?f + unat ?u = 0" by (metis unat_eq_zero)
  show ?thesis
  proof (cases "unat ?f + unat ?u = 0")
    case True
    then show ?thesis using z by (simp add: mempressure_check_def)
  next
    case False
    then have "level_of (?f * 100 div (?f + ?u)) = true_level (unat ?f) (unat ?u)" by (intro level_of_counts [OF _ assms]) simp
    then show ?thesis using False z by (auto simp: mempressure_check_def Let_def)
  qed
qed

theorem mempressure_check_correct_witness:
  "mempressure_check (\<lambda>fn l w. w @ [(fn, l)]) ((pmm_reset 0 0)\<lparr>free_pages := 1, used_pages := 9\<rparr>)
     (fst (mempressure_register 3 mempressure_init)) [] =
   (\<lparr>mp_callbacks = [3], last_level = MEM_PRESSURE_CRITICAL\<rparr>, [(3, MEM_PRESSURE_CRITICAL)], MEM_PRESSURE_CRITICAL)"
  using mempressure_check_correct [of "(pmm_reset 0 0)\<lparr>free_pages := 1, used_pages := 9\<rparr>" "\<lambda>fn l w. w @ [(fn, l)]"
     "fst (mempressure_register 3 mempressure_init)" "[]"]
  by (simp add: pmm_free_count_def pmm_used_count_def true_level_def mempressure_register_def mempressure_init_def MAX_PRESSURE_CALLBACKS_def)

end
