(* ===== verification/Pic.thy ===== *)
theory Pic
  imports Errno
begin

text \<open>
  The interrupt controller, the interval timer and the interrupt tables of \<open>kernel/pic.c\<close>.

  The machine's ports are the two mask registers, which the driver reads back, and the sequence of
  bytes written to ports. Handlers and callbacks are parameters that act on the rest of the machine.
  A shift by 32 or more and a division by zero are the value \<open>Inl Fault\<close>.
\<close>

record ports =
  imr1 :: u8
  imr2 :: u8
  port_log :: "(u16 \<times> u8) list"

definition PIC1_CMD :: u16 where "PIC1_CMD = 0x20"
definition PIC1_DATA :: u16 where "PIC1_DATA = 0x21"
definition PIC2_CMD :: u16 where "PIC2_CMD = 0xA0"
definition PIC2_DATA :: u16 where "PIC2_DATA = 0xA1"
definition PIC_EOI :: u8 where "PIC_EOI = 0x20"
definition ICW1_INIT :: u8 where "ICW1_INIT = 0x11"
definition ICW4_8086 :: u8 where "ICW4_8086 = 0x01"
definition PIC_IRQ_BASE_MASTER :: u8 where "PIC_IRQ_BASE_MASTER = 0x20"
definition PIC_IRQ_BASE_SLAVE :: u8 where "PIC_IRQ_BASE_SLAVE = 0x28"
definition PIT_CHANNEL0 :: u16 where "PIT_CHANNEL0 = 0x40"
definition PIT_CMD :: u16 where "PIT_CMD = 0x43"
definition PIT_BASE_FREQ :: nat where "PIT_BASE_FREQ = 1193182"
definition MAX_TIMER_CALLBACKS :: nat where "MAX_TIMER_CALLBACKS = 8"

definition outb :: "u16 \<Rightarrow> u8 \<Rightarrow> ports \<Rightarrow> ports" where
  "outb port v p = p\<lparr>port_log := port_log p @ [(port, v)]\<rparr>"

text \<open>A write to a data port outside the initialisation sequence sets the mask register.\<close>

definition out_mask :: "u16 \<Rightarrow> u8 \<Rightarrow> ports \<Rightarrow> ports" where
  "out_mask port v p =
     (let p1 = outb port v p in if port = PIC1_DATA then p1\<lparr>imr1 := v\<rparr> else if port = PIC2_DATA then p1\<lparr>imr2 := v\<rparr> else p1)"

definition in_mask :: "u16 \<Rightarrow> ports \<Rightarrow> u8" where
  "in_mask port p = (if port = PIC1_DATA then imr1 p else imr2 p)"

definition io_wait :: "ports \<Rightarrow> ports" where
  "io_wait p = outb 0x80 0 p"

subsection \<open>The controller\<close>

definition pic_init :: "ports \<Rightarrow> ports" where
  "pic_init p =
     (let send = (\<lambda>port v q. io_wait (outb port v q));
          p1 = send PIC2_CMD ICW1_INIT (send PIC1_CMD ICW1_INIT p);
          p2 = send PIC2_DATA PIC_IRQ_BASE_SLAVE (send PIC1_DATA PIC_IRQ_BASE_MASTER p1);
          p3 = send PIC2_DATA 0x02 (send PIC1_DATA 0x04 p2);
          p4 = send PIC2_DATA ICW4_8086 (send PIC1_DATA ICW4_8086 p3)
      in out_mask PIC2_DATA 0xFF (out_mask PIC1_DATA 0xFF p4))"

definition pic_eoi :: "u8 \<Rightarrow> ports \<Rightarrow> ports" where
  "pic_eoi irq p = (let p1 = (if 8 \<le> irq then outb PIC2_CMD PIC_EOI p else p) in outb PIC1_CMD PIC_EOI p1)"

text \<open>The port and the line number on that controller.\<close>

definition irq_line :: "u8 \<Rightarrow> u16 \<times> u8" where
  "irq_line irq = (if irq < 8 then (PIC1_DATA, irq) else (PIC2_DATA, irq - 8))"

definition pic_unmask :: "u8 \<Rightarrow> ports \<Rightarrow> ports res" where
  "pic_unmask irq p =
     (case irq_line irq of (port, line) \<Rightarrow>
        if 31 < line then Inl Fault
        else Inr (out_mask port (in_mask port p AND NOT (push_bit (unat line) 1)) p))"

definition pic_mask :: "u8 \<Rightarrow> ports \<Rightarrow> ports res" where
  "pic_mask irq p =
     (case irq_line irq of (port, line) \<Rightarrow>
        if 31 < line then Inl Fault
        else Inr (out_mask port (in_mask port p OR push_bit (unat line) 1) p))"

subsection \<open>The timer\<close>

record timer_cb =
  cb_fn :: nat
  cb_interval :: u32
  cb_counter :: u32

record pit =
  pit_ticks :: u64
  pit_freq :: u32
  pit_oneshot_mode :: int
  pit_idle_count :: u64
  timer_cbs :: "timer_cb list"
  pit_ports :: ports

definition send_count :: "u8 \<Rightarrow> u16 \<Rightarrow> ports \<Rightarrow> ports" where
  "send_count cmd n p = outb PIT_CHANNEL0 (ucast (drop_bit 8 n)) (outb PIT_CHANNEL0 (ucast n) (outb PIT_CMD cmd p))"

definition pit_init :: "u32 \<Rightarrow> pit \<Rightarrow> pit res" where
  "pit_init frequency_hz s =
     (if frequency_hz = 0 then Inl Fault
      else Inr (s\<lparr>pit_freq := frequency_hz, pit_oneshot_mode := 0,
             pit_ports := send_count 0x34 (of_nat (PIT_BASE_FREQ div unat frequency_hz)) (pit_ports s)\<rparr>))"

definition pit_set_oneshot :: "u32 \<Rightarrow> pit \<Rightarrow> pit" where
  "pit_set_oneshot ticks s =
     (let t1 = (if ticks = 0 then 1 else ticks); t2 = (if 65535 < t1 then 65535 else t1)
      in s\<lparr>pit_ports := send_count 0x30 (ucast t2) (pit_ports s), pit_oneshot_mode := 1\<rparr>)"

definition pit_stop :: "pit \<Rightarrow> pit" where
  "pit_stop s = s\<lparr>pit_ports := send_count 0x30 0xFFFF (pit_ports s), pit_oneshot_mode := 2\<rparr>"

definition pit_is_tickless :: "pit \<Rightarrow> int" where "pit_is_tickless s = pit_oneshot_mode s"

definition pit_idle_ticks :: "pit \<Rightarrow> u64" where "pit_idle_ticks s = pit_idle_count s"

definition pit_get_ticks :: "pit \<Rightarrow> u64" where "pit_get_ticks s = pit_ticks s"

definition pit_resume_periodic :: "pit \<Rightarrow> pit res" where
  "pit_resume_periodic s = (if pit_oneshot_mode s \<noteq> 0 \<and> 0 < pit_freq s then pit_init (pit_freq s) s else Inr s)"

text \<open>One callback: it counts the tick and fires when its interval is reached.\<close>

definition run_cb :: "(nat \<Rightarrow> 'w \<Rightarrow> 'w) \<Rightarrow> timer_cb \<Rightarrow> 'w \<Rightarrow> timer_cb \<times> 'w" where
  "run_cb call k w =
     (let n = cb_counter k + 1 in
      if cb_interval k \<le> n then (k\<lparr>cb_counter := 0\<rparr>, call (cb_fn k) w) else (k\<lparr>cb_counter := n\<rparr>, w))"

fun run_cbs :: "(nat \<Rightarrow> 'w \<Rightarrow> 'w) \<Rightarrow> timer_cb list \<Rightarrow> 'w \<Rightarrow> timer_cb list \<times> 'w" where
  "run_cbs call [] w = ([], w)"
| "run_cbs call (k # ks) w =
     (case run_cb call k w of (k', w1) \<Rightarrow> (case run_cbs call ks w1 of (ks', w2) \<Rightarrow> (k' # ks', w2)))"

definition pit_tick :: "(nat \<Rightarrow> 'w \<Rightarrow> 'w) \<Rightarrow> pit \<Rightarrow> 'w \<Rightarrow> (pit \<times> 'w) res" where
  "pit_tick call s w =
     (let s1 = s\<lparr>pit_ticks := pit_ticks s + 1\<rparr> in
      bnd (if pit_oneshot_mode s1 \<noteq> 0 then pit_resume_periodic (s1\<lparr>pit_idle_count := pit_idle_count s1 + 1\<rparr>) else Inr s1) (\<lambda>s2.
        case run_cbs call (timer_cbs s2) w of (ks, w') \<Rightarrow> Inr (s2\<lparr>timer_cbs := ks\<rparr>, w')))"

definition timer_register :: "nat \<Rightarrow> u32 \<Rightarrow> pit \<Rightarrow> pit \<times> int" where
  "timer_register fn interval_ticks s =
     (if MAX_TIMER_CALLBACKS \<le> length (timer_cbs s) then (s, - ENOSPC)
      else (s\<lparr>timer_cbs := timer_cbs s @ [\<lparr>cb_fn = fn, cb_interval = interval_ticks, cb_counter = 0\<rparr>]\<rparr>, 0))"

subsection \<open>Interrupt handlers\<close>

definition irq_register :: "u8 \<Rightarrow> nat option \<Rightarrow> nat option list \<Rightarrow> nat option list \<times> nat option" where
  "irq_register irq handler hs = (if 16 \<le> irq then (hs, None) else (hs[unat irq := handler], hs ! unat irq))"

definition irq_dispatch :: "(nat \<Rightarrow> u8 \<Rightarrow> 'w \<Rightarrow> 'w) \<Rightarrow> u8 \<Rightarrow> nat option list \<Rightarrow> 'w \<Rightarrow> 'w" where
  "irq_dispatch call irq hs w = (if irq < 16 then (case hs ! unat irq of None \<Rightarrow> w | Some h \<Rightarrow> call h irq w) else w)"

subsection \<open>Masks\<close>

definition irq_masked :: "ports \<Rightarrow> nat \<Rightarrow> bool" where
  "irq_masked p i = (if i < 8 then bit (imr1 p) i else bit (imr2 p) (i - 8))"

lemma bit_push_8: "bit (push_bit n (1 :: u8)) i \<longleftrightarrow> i = n \<and> n < 8"
  by (auto simp: bit_exp_iff)

lemma ports_distinct: "PIC1_DATA \<noteq> PIC2_DATA"
  by (simp add: PIC1_DATA_def PIC2_DATA_def)

text \<open>Masking. Unmasking one of the sixteen interrupt lines enables that line and masking disables
  it; in both cases no other line changes.\<close>

theorem pic_mask_correct:
  assumes "irq < 16"
  shows "\<exists>p' p''. pic_unmask irq p = Inr p' \<and> pic_mask irq p = Inr p'' \<and>
    (\<forall>i < 16. irq_masked p' i = (if i = unat irq then False else irq_masked p i) \<and>
      irq_masked p'' i = (if i = unat irq then True else irq_masked p i))"
proof -
  have u: "unat irq < 16" using assms by (simp add: word_less_nat_alt)
  show ?thesis
  proof (cases "irq < 8")
    case True
    then have l: "irq_line irq = (PIC1_DATA, irq)" "unat irq < 8" "\<not> 31 < irq" by (simp_all add: irq_line_def word_less_nat_alt)
    show ?thesis unfolding pic_unmask_def pic_mask_def l(1) prod.case if_not_P [OF l(3)]
      using l(2) by (auto simp: irq_masked_def out_mask_def in_mask_def outb_def Let_def bit_simps bit_push_8)
  next
    case False
    then have "unat (irq - 8) = unat irq - 8" by (simp add: unat_sub word_le_nat_alt word_less_nat_alt)
    then have l: "irq_line irq = (PIC2_DATA, irq - 8)" "8 \<le> unat irq" "\<not> 31 < irq - 8" "unat (irq - 8) = unat irq - 8"
      using False u by (simp_all add: irq_line_def word_less_nat_alt)
    show ?thesis unfolding pic_unmask_def pic_mask_def l(1) prod.case if_not_P [OF l(3)]
      using l(2,4) u ports_distinct by (auto simp: irq_masked_def out_mask_def in_mask_def outb_def Let_def bit_simps bit_push_8)
  qed
qed

theorem pic_mask_correct_witness: "\<exists>p'. pic_unmask 9 \<lparr>imr1 = 0xFF, imr2 = 0xFF, port_log = []\<rparr> = Inr p' \<and> \<not> irq_masked p' 9 \<and> irq_masked p' 1"
proof -
  have "\<And>P. (\<forall>i < 16. P i) \<Longrightarrow> P (9 :: nat) \<and> P 1" by simp
  moreover have "irq_masked \<lparr>imr1 = 0xFF, imr2 = 0xFF, port_log = []\<rparr> 1" by (simp add: irq_masked_def)
  ultimately show ?thesis using pic_mask_correct [of 9 "\<lparr>imr1 = 0xFF, imr2 = 0xFF, port_log = []\<rparr>"] by auto
qed

subsection \<open>Periodic callbacks\<close>

fun pit_run :: "(nat \<Rightarrow> 'w \<Rightarrow> 'w) \<Rightarrow> nat \<Rightarrow> pit \<Rightarrow> 'w \<Rightarrow> (pit \<times> 'w) res" where
  "pit_run call 0 s w = Inr (s, w)"
| "pit_run call (Suc n) s w = bnd (pit_run call n s w) (\<lambda>(s', w'). pit_tick call s' w')"

text \<open>A world that counts the calls of every function.\<close>

definition count_call :: "nat \<Rightarrow> (nat \<Rightarrow> nat) \<Rightarrow> nat \<Rightarrow> nat" where
  "count_call f w = w(f := w f + 1)"

definition after_ticks :: "nat \<Rightarrow> timer_cb \<Rightarrow> timer_cb" where
  "after_ticks n k = k\<lparr>cb_counter := of_nat (n mod unat (cb_interval k))\<rparr>"

lemma run_cb_step:
  assumes "cb_interval k \<noteq> 0"
  shows "run_cb call (after_ticks n k) w =
    (after_ticks (Suc n) k, if Suc n mod unat (cb_interval k) = 0 then call (cb_fn k) w else w)"
proof -
  let ?i = "unat (cb_interval k)"
  have i: "0 < ?i" "?i < 2 ^ 32" using assms unsigned_less [of "cb_interval k", where ?'a = nat] by (simp_all add: unat_gt_0)
  have m: "n mod ?i < ?i" using i(1) by simp
  have c: "of_nat (n mod ?i) + 1 = (of_nat (Suc (n mod ?i)) :: u32)" by simp
  have u: "unat (of_nat (Suc (n mod ?i)) :: u32) = Suc (n mod ?i)" using m i(2) by (simp add: unat_of_nat take_bit_nat_eq_self del: of_nat_Suc)
  have e: "cb_interval k \<le> of_nat (Suc (n mod ?i)) \<longleftrightarrow> Suc (n mod ?i) = ?i" using m u by (auto simp: word_le_nat_alt)
  show ?thesis
    using e unfolding run_cb_def after_ticks_def Let_def by (simp add: c mod_Suc del: of_nat_Suc)
qed

lemma run_cbs_step:
  assumes "\<forall>k \<in> set ks. cb_interval k \<noteq> 0" "distinct (map cb_fn ks)"
  shows "\<exists>w'. run_cbs count_call (map (after_ticks n) ks) w = (map (after_ticks (Suc n)) ks, w') \<and>
    (\<forall>k \<in> set ks. w' (cb_fn k) = w (cb_fn k) + (if Suc n mod unat (cb_interval k) = 0 then 1 else 0)) \<and>
    (\<forall>f. f \<notin> cb_fn ` set ks \<longrightarrow> w' f = w f)"
  using assms
proof (induction ks arbitrary: w)
  case (Cons k ks)
  let ?w = "if Suc n mod unat (cb_interval k) = 0 then count_call (cb_fn k) w else w"
  have st: "run_cb count_call (after_ticks n k) w = (after_ticks (Suc n) k, ?w)" using Cons.prems(1) by (intro run_cb_step) simp
  obtain w' where w': "run_cbs count_call (map (after_ticks n) ks) ?w = (map (after_ticks (Suc n)) ks, w')"
      "\<forall>k \<in> set ks. w' (cb_fn k) = ?w (cb_fn k) + (if Suc n mod unat (cb_interval k) = 0 then 1 else 0)"
      "\<forall>f. f \<notin> cb_fn ` set ks \<longrightarrow> w' f = ?w f"
    using Cons.IH [of ?w] Cons.prems by auto
  have other: "?w f = w f" if "f \<noteq> cb_fn k" for f using that by (simp add: count_call_def)
  have here: "?w (cb_fn k) = w (cb_fn k) + (if Suc n mod unat (cb_interval k) = 0 then 1 else 0)" by (simp add: count_call_def)
  have nk: "cb_fn k \<notin> cb_fn ` set ks" using Cons.prems(2) by simp
  have "w' (cb_fn j) = w (cb_fn j) + (if Suc n mod unat (cb_interval j) = 0 then 1 else 0)" if "j \<in> set (k # ks)" for j
  proof (cases "j = k")
    case True
    then show ?thesis using w'(3) nk here by simp
  next
    case False
    then have "j \<in> set ks" using that by simp
    moreover have "cb_fn j \<noteq> cb_fn k" using nk calculation by (metis imageI)
    ultimately show ?thesis using w'(2) other by metis
  qed
  moreover have "w' f = w f" if "f \<notin> cb_fn ` set (k # ks)" for f using that w'(3) other by simp
  ultimately show ?case using st w'(1) by (intro exI [of _ w']) simp
qed simp

lemma pit_tick_step:
  "pit_tick call s w = (case run_cbs call (timer_cbs s) w of (ks, w') \<Rightarrow>
     Inr ((if pit_oneshot_mode s = 0 then s
           else (if 0 < pit_freq s
             then s\<lparr>pit_oneshot_mode := 0, pit_ports := send_count 0x34 (of_nat (PIT_BASE_FREQ div unat (pit_freq s))) (pit_ports s)\<rparr>
             else s)\<lparr>pit_idle_count := pit_idle_count s + 1\<rparr>)\<lparr>pit_ticks := pit_ticks s + 1, timer_cbs := ks\<rparr>, w'))"
  by (cases "run_cbs call (timer_cbs s) w") (auto simp: pit_tick_def pit_resume_periodic_def pit_init_def Let_def word_neq_0_conv)

text \<open>Periodic callbacks. Starting with fresh counters, over any number of timer interrupts every
  registered callback is called exactly once per interval, the tick counter advances by one each
  time, and after the first interrupt a tickless timer runs periodically again.\<close>

theorem pit_callbacks_periodic:
  assumes "distinct (map cb_fn (timer_cbs s))" "\<forall>k \<in> set (timer_cbs s). cb_counter k = 0 \<and> cb_interval k \<noteq> 0" "pit_freq s \<noteq> 0"
  shows "\<exists>s' w'. pit_run count_call n s w = Inr (s', w') \<and> pit_get_ticks s' = pit_get_ticks s + of_nat n \<and>
    (0 < n \<longrightarrow> pit_is_tickless s' = 0) \<and>
    (\<forall>k \<in> set (timer_cbs s). w' (cb_fn k) = w (cb_fn k) + n div unat (cb_interval k))"
proof -
  have "\<exists>s' w'. pit_run count_call n s w = Inr (s', w') \<and> pit_ticks s' = pit_ticks s + of_nat n \<and> pit_freq s' = pit_freq s \<and>
    (0 < n \<longrightarrow> pit_oneshot_mode s' = 0) \<and> timer_cbs s' = map (after_ticks n) (timer_cbs s) \<and>
    (\<forall>k \<in> set (timer_cbs s). w' (cb_fn k) = w (cb_fn k) + n div unat (cb_interval k))"
  proof (induction n)
    case 0
    have "after_ticks 0 k = k" if "k \<in> set (timer_cbs s)" for k using assms(2) that by (simp add: after_ticks_def)
    then show ?case by (simp add: map_idI)
  next
    case (Suc n)
    then obtain s1 w1 where h: "pit_run count_call n s w = Inr (s1, w1)" "pit_ticks s1 = pit_ticks s + of_nat n" "pit_freq s1 = pit_freq s"
        "timer_cbs s1 = map (after_ticks n) (timer_cbs s)"
        "\<forall>k \<in> set (timer_cbs s). w1 (cb_fn k) = w (cb_fn k) + n div unat (cb_interval k)" by blast
    obtain w2 where w2: "run_cbs count_call (timer_cbs s1) w1 = (map (after_ticks (Suc n)) (timer_cbs s), w2)"
        "\<forall>k \<in> set (timer_cbs s). w2 (cb_fn k) = w1 (cb_fn k) + (if Suc n mod unat (cb_interval k) = 0 then 1 else 0)"
      using run_cbs_step [of "timer_cbs s" n w1] assms(1,2) unfolding h(4) by blast
    have "w2 (cb_fn k) = w (cb_fn k) + Suc n div unat (cb_interval k)" if "k \<in> set (timer_cbs s)" for k
      using w2(2) h(5) that by (simp add: div_Suc)
    then show ?case using h(1-3) w2(1) assms(3) by (simp add: pit_tick_step word_neq_0_conv)
  qed
  then show ?thesis by (auto simp: pit_get_ticks_def pit_is_tickless_def)
qed

theorem pit_callbacks_periodic_witness:
  "\<exists>s' w'. pit_run count_call 7 \<lparr>pit_ticks = 0, pit_freq = 100, pit_oneshot_mode = 2, pit_idle_count = 0,
       timer_cbs = [\<lparr>cb_fn = 4, cb_interval = 3, cb_counter = 0\<rparr>], pit_ports = \<lparr>imr1 = 0, imr2 = 0, port_log = []\<rparr>\<rparr> (\<lambda>_. 0) = Inr (s', w') \<and>
     pit_get_ticks s' = 7 \<and> w' 4 = 2"
  using pit_callbacks_periodic [of "\<lparr>pit_ticks = 0, pit_freq = 100, pit_oneshot_mode = 2, pit_idle_count = 0,
       timer_cbs = [\<lparr>cb_fn = 4, cb_interval = 3, cb_counter = 0\<rparr>], pit_ports = \<lparr>imr1 = 0, imr2 = 0, port_log = []\<rparr>\<rparr>" 7 "\<lambda>_. 0"]
  by (auto simp: pit_get_ticks_def)

end
