(* ===== verification/Interrupts.thy ===== *)
theory Interrupts
  imports Sched_Spec Ktimer Pic Keyboard
begin

text \<open>
  The watchdog of \<open>kernel/watchdog.c\<close> and the interrupt handler \<open>irq_handler_c\<close> of
  \<open>kernel/idt.c\<close>, which drives the interval timer, the timer wheel, the scheduler, the watchdog and
  the keyboard.

  The machine is the states of these components side by side. The scheduler and the timer wheel read
  the tick counter of the interval timer, so the scheduler's view of it is refreshed when it changes.
  Callbacks and device handlers are parameters that act on the rest of the world. A walk over a timer
  slot that does not end is the value \<open>Inl Deadlock\<close>. When the handler ends with \<open>schedule\<close> the
  state that is returned is the one in which the next task runs.
\<close>

definition WATCHDOG_THRESHOLD :: u32 where "WATCHDOG_THRESHOLD = 500"
definition IRQ_TIMER :: u8 where "IRQ_TIMER = 0"
definition IRQ_KEYBOARD :: u8 where "IRQ_KEYBOARD = 1"

definition watchdog_init :: u32 where "watchdog_init = 0"

text \<open>The scheduler and the number of warnings so far.\<close>

definition watchdog_check :: "sched \<Rightarrow> u32 \<Rightarrow> sched \<times> u32" where
  "watchdog_check s watchdog_warnings =
     (case current s of
        None \<Rightarrow> (s, watchdog_warnings)
      | Some c \<Rightarrow>
          if WATCHDOG_THRESHOLD \<le> watchdog_ticks (task_pool s ! c)
          then (upd_task s c (\<lambda>k. k\<lparr>watchdog_ticks := 0\<rparr>), watchdog_warnings + 1)
          else (s, watchdog_warnings))"

record 'w machine =
  m_pit :: pit
  m_timers :: timers
  m_sched :: sched
  m_kb :: kb_state
  m_handlers :: "nat option list"
  m_warnings :: u32
  m_world :: 'w

record 'w callbacks =
  timer_fn :: "nat \<Rightarrow> 'w \<Rightarrow> 'w"
  ktimer_fn :: "nat \<Rightarrow> u64 \<Rightarrow> 'w \<Rightarrow> 'w"
  irq_fn :: "nat \<Rightarrow> u8 \<Rightarrow> 'w \<Rightarrow> 'w"

definition set_ticks :: "u64 \<Rightarrow> sched \<Rightarrow> sched" where
  "set_ticks n s = s\<lparr>sched.pit_ticks := n\<rparr>"

definition eoi :: "u8 \<Rightarrow> pit \<Rightarrow> pit" where
  "eoi irq p = p\<lparr>pit_ports := pic_eoi irq (pit_ports p)\<rparr>"

text \<open>The timer interrupt up to the acknowledgement.\<close>

definition timer_work :: "'w callbacks \<Rightarrow> 'w machine \<Rightarrow> 'w machine res" where
  "timer_work fs m =
     bnd (pit_tick (timer_fn fs) (m_pit m) (m_world m)) (\<lambda>(p, w1).
       case ktimer_tick (ktimer_fn fs) (pit_get_ticks p) (m_timers m) w1 of
         None \<Rightarrow> Inl Deadlock
       | Some (tw, w2) \<Rightarrow>
           bnd (sched_tick (set_ticks (pit_get_ticks p) (m_sched m))) (\<lambda>s1.
             case watchdog_check s1 (m_warnings m) of (s2, n) \<Rightarrow>
               Inr (m\<lparr>m_pit := eoi IRQ_TIMER p, m_timers := tw, m_sched := s2, m_warnings := n, m_world := w2\<rparr>)))"

definition irq_handler_c :: "'w callbacks \<Rightarrow> u8 \<Rightarrow> u64 \<Rightarrow> 'w machine \<Rightarrow> 'w machine res" where
  "irq_handler_c fs scancode vector m =
     (let irq = (ucast (vector - ucast PIC_IRQ_BASE_MASTER) :: u8) in
      if irq = IRQ_TIMER then
        bnd (timer_work fs m) (\<lambda>m1.
          if sched_need_resched (m_sched m1) then bnd (schedule (m_sched m1)) (\<lambda>s. Inr (m1\<lparr>m_sched := s\<rparr>))
          else Inr m1)
      else if irq = IRQ_KEYBOARD then
        Inr (m\<lparr>m_kb := kb_irq_handler (m_kb m) scancode, m_pit := eoi irq (m_pit m)\<rparr>)
      else Inr (m\<lparr>m_world := irq_dispatch (irq_fn fs) irq (m_handlers m) (m_world m), m_pit := eoi irq (m_pit m)\<rparr>))"

subsection \<open>The watchdog counters\<close>

definition watched :: "sched \<Rightarrow> bool" where
  "watched s \<longleftrightarrow> (\<forall>t. watchdog_ticks (task_pool s ! t) < WATCHDOG_THRESHOLD \<or> 64 \<le> t)"

definition wd_le :: "sched \<Rightarrow> sched \<Rightarrow> bool" where
  "wd_le s s' \<longleftrightarrow> length (task_pool s') = length (task_pool s) \<and>
     (\<forall>t < length (task_pool s). watchdog_ticks (task_pool s' ! t) \<in> {watchdog_ticks (task_pool s ! t), 0})"

lemma wd_le_trans: "wd_le a b \<Longrightarrow> wd_le b c \<Longrightarrow> wd_le a c"
  unfolding wd_le_def by fastforce

lemma wd_le_pool: "task_pool s' = task_pool s \<Longrightarrow> wd_le s s'"
  by (simp add: wd_le_def)

lemma wd_le_upd: "(\<And>k. watchdog_ticks (f k) \<in> {watchdog_ticks k, 0}) \<Longrightarrow> wd_le s (upd_task s t f)"
  by (auto simp: wd_le_def task_upd_task)

lemma enqueue_pool [simp]: "task_pool (bitmap_enqueue s t) = task_pool s"
  by (simp add: bitmap_enqueue_def deadline_enqueue_def Let_def)

lemma wd_le_ready: "wd_le s (bitmap_enqueue (upd_task s t (\<lambda>k. k\<lparr>state := x\<rparr>)) u)"
  by (rule wd_le_trans [OF wd_le_upd [where f = "\<lambda>k. k\<lparr>state := x\<rparr>"] wd_le_pool]) simp_all

lemma wd_le_wake: "wd_le s (wake_one_sleeper now s t)"
  using wd_le_trans [OF wd_le_pool wd_le_ready] unfolding wake_one_sleeper_def Let_def by (simp add: wd_le_pool)

lemma wd_le_sleepers: "wd_le s (wake_sleepers s)"
proof -
  have "wd_le a (foldl (wake_one_sleeper n) a ts)" for a n ts
    by (induction ts arbitrary: a) (auto simp: wd_le_pool intro: wd_le_trans [OF wd_le_wake])
  then show ?thesis by (simp add: wake_sleepers_def)
qed

lemma wd_le_switch: "wd_le s (switch_to s a b)"
proof -
  define s1 where "s1 = (if state (task_pool s ! a) = TASK_RUNNING
    then bitmap_enqueue (upd_task s a (\<lambda>k. k\<lparr>state := TASK_READY\<rparr>)) a else s)"
  define s2 where "s2 = (upd_task s1 b (\<lambda>k. k\<lparr>state := TASK_RUNNING\<rparr>))\<lparr>current := Some b\<rparr>"
  have "wd_le s s1" unfolding s1_def using wd_le_ready by (simp add: wd_le_pool)
  moreover have "wd_le s1 s2" unfolding s2_def
    using wd_le_trans [OF wd_le_upd [of "\<lambda>k. k\<lparr>state := TASK_RUNNING\<rparr>" s1 b] wd_le_pool] by simp
  moreover have "wd_le s2 (upd_task s2 b (\<lambda>k. k\<lparr>watchdog_ticks := 0\<rparr>))" by (rule wd_le_upd) simp
  moreover have "switch_to s a b = upd_task s2 b (\<lambda>k. k\<lparr>watchdog_ticks := 0\<rparr>)"
    unfolding switch_to_def Let_def s1_def s2_def ..
  ultimately show ?thesis by (metis wd_le_trans)
qed

lemma pick_next_pool: "pick_next s = Inr (s', n) \<Longrightarrow> task_pool s' = task_pool s"
  by (auto simp: pick_next_def edf_pick_def bitmap_dequeue_def split: list.splits option.splits if_splits)

lemma schedule_watchdog:
  assumes "schedule s = Inr s'"
  shows "wd_le s s'"
proof -
  from assms obtain s1 c where s1: "lock_sched s = Inr s1" "current s1 = Some c"
    by (auto simp: schedule_def bnd_def split: sum.splits option.splits)
  define s2 where "s2 = wake_sleepers (s1\<lparr>need_resched := False\<rparr>)"
  from assms s1 obtain s3 n where s3: "pick_next s2 = Inr (s3, n)"
    "s' = (if n = c then unlock_sched s3 else unlock_sched (switch_to s3 c n))"
    by (auto simp: schedule_def bnd_def kassert_def s2_def Let_def split: sum.splits if_splits)
  have "wd_le s (s1\<lparr>need_resched := False\<rparr>)"
    using s1(1) by (intro wd_le_pool) (auto simp: lock_sched_def bnd_def split: sum.splits)
  then have "wd_le s s2" unfolding s2_def using wd_le_trans wd_le_sleepers by blast
  then have "wd_le s s3" using wd_le_trans wd_le_pool [OF pick_next_pool [OF s3(1)]] by blast
  then show ?thesis using s3(2) wd_le_trans [OF wd_le_switch wd_le_pool] wd_le_trans wd_le_pool [of "unlock_sched s3" s3]
    by (metis unlock_sel(8) wd_le_pool)
qed

lemma wd_le_watched:
  assumes "wd_le s s'" "length (task_pool s) = 64" "watched s"
  shows "watched s'"
  unfolding watched_def
proof
  fix t
  have "watchdog_ticks (task_pool s' ! t) = watchdog_ticks (task_pool s ! t) \<or> watchdog_ticks (task_pool s' ! t) = 0" if "t < 64"
    using assms(1,2) that unfolding wd_le_def by auto
  moreover have "watchdog_ticks (task_pool s ! t) < WATCHDOG_THRESHOLD \<or> 64 \<le> t" using assms(3) unfolding watched_def by blast
  ultimately show "watchdog_ticks (task_pool s' ! t) < WATCHDOG_THRESHOLD \<or> 64 \<le> t"
    by (cases "t < 64") (auto simp: WATCHDOG_THRESHOLD_def)
qed

subsection \<open>One tick of the scheduler\<close>

definition ticked :: "task \<Rightarrow> task" where
  "ticked k = k\<lparr>ticks_used := ticks_used k + 1,
     watchdog_ticks := (if watchdog_ticks k + 1 < WATCHDOG_THRESHOLD then watchdog_ticks k + 1 else 0)\<rparr>"

definition quantum_over :: "task \<Rightarrow> bool" where
  "quantum_over k \<longleftrightarrow> (ticks_used k + 1) mod task_quantum k = 0"

text \<open>As long as every counter is below the threshold the tick of the scheduler does not reach the
  limit at which it would end the running task, and the check that follows resets the counter.\<close>

lemma tick_and_watch:
  assumes "watched s" "current s = Some c" "c < 64" "c < length (task_pool s)"
  shows "\<exists>s1 x n. sched_tick s = Inr s1 \<and> watchdog_check s1 w = ((upd_task s c ticked)\<lparr>need_resched := x\<rparr>, n) \<and>
    x = (need_resched s \<or> quantum_over (task_pool s ! c)) \<and>
    n = w + (if watchdog_ticks (task_pool s ! c) = WATCHDOG_THRESHOLD - 1 then 1 else 0)"
proof -
  let ?k = "task_pool s ! c"
  let ?t = "\<lambda>k. k\<lparr>ticks_used := ticks_used k + 1, watchdog_ticks := watchdog_ticks k + 1\<rparr>"
  have lt: "watchdog_ticks ?k < 500" using assms(1,3) unfolding watched_def WATCHDOG_THRESHOLD_def by (metis not_le)
  then have u: "unat (watchdog_ticks ?k + 1) = unat (watchdog_ticks ?k) + 1" by (simp add: word_less_nat_alt unat_word_ariths)
  have lim: "\<not> WATCHDOG_LIMIT \<le> watchdog_ticks ?k + 1" using lt u by (simp add: WATCHDOG_LIMIT_def word_le_nat_alt word_less_nat_alt)
  have thr: "WATCHDOG_THRESHOLD \<le> watchdog_ticks ?k + 1 \<longleftrightarrow> watchdog_ticks ?k = WATCHDOG_THRESHOLD - 1"
    using lt u by (auto simp: WATCHDOG_THRESHOLD_def word_le_nat_alt word_less_nat_alt word_unat_eq_iff)
  define s1 where "s1 = (upd_task s c ?t)\<lparr>need_resched := need_resched s \<or> quantum_over ?k\<rparr>"
  have q: "task_quantum (?t ?k) = task_quantum ?k" by (simp add: task_quantum_def)
  have k1: "task_pool (upd_task s c ?t) ! c = ?t ?k" using assms(4) by (simp add: task_upd_task)
  have nr: "need_resched (upd_task s c ?t) = need_resched s" by (simp add: upd_task_def)
  have "sched_tick s = Inr s1"
    unfolding sched_tick_def assms(2) option.case Let_def k1 q s1_def quantum_over_def using lim
    by (cases "need_resched s") (simp_all add: upd_task_def)
  moreover have "watchdog_check s1 w = ((upd_task s c ticked)\<lparr>need_resched := need_resched s \<or> quantum_over ?k\<rparr>,
      w + (if watchdog_ticks ?k = WATCHDOG_THRESHOLD - 1 then 1 else 0))"
    unfolding watchdog_check_def s1_def using assms(2,4) thr k1
    by (auto simp: upd_task_def ticked_def not_less not_le)
  ultimately show ?thesis by blast
qed

subsection \<open>The machine between interrupts\<close>

definition machine_ok :: "nat \<Rightarrow> (nat \<Rightarrow> place) \<Rightarrow> 'w machine \<Rightarrow> bool" where
  "machine_ok b pl m \<longleftrightarrow> sched_inv (m_sched m) pl \<and> watched (m_sched m) \<and>
     (\<forall>t. pl t \<noteq> Unused \<longrightarrow> stack_canary_ok (m_sched m) t) \<and>
     sched.pit_ticks (m_sched m) = pit_get_ticks (m_pit m) \<and>
     wheel_ok (pit_get_ticks (m_pit m)) (m_timers m) \<and>
     (\<forall>u \<in> pending (m_timers m). unat (interval (tm (m_timers m) u)) \<le> b)"

text \<open>Acknowledgements sent to the first controller.\<close>

definition eois :: "'w machine \<Rightarrow> nat" where
  "eois m = count_list (port_log (pit_ports (m_pit m))) (PIC1_CMD, PIC_EOI)"

lemma sched_inv_fields:
  assumes "sched_inv s pl"
  shows "sched_inv (s\<lparr>need_resched := x\<rparr>) pl" "sched_inv (set_ticks n s) pl"
proof -
  have "queues_ok (s\<lparr>need_resched := x\<rparr>) pl" "queues_ok (set_ticks n s) pl" if "queues_ok s pl"
    using that by (rule queues_ok_cong; simp add: set_ticks_def)+
  then show "sched_inv (s\<lparr>need_resched := x\<rparr>) pl" "sched_inv (set_ticks n s) pl"
    using assms unfolding sched_inv_def sched_pre_def by (auto simp: lock_free_def set_ticks_def)
qed

lemma sched_inv_current:
  assumes "sched_inv s pl"
  obtains c where "current s = Some c"
  using assms unfolding sched_inv_def sched_pre_def by blast

lemma pit_tick_eoi:
  obtains p w' where "pit_tick f p0 w = Inr (p, w')" "pit_get_ticks p = pit_get_ticks p0 + 1"
    "count_list (port_log (pit_ports (eoi IRQ_TIMER p))) (PIC1_CMD, PIC_EOI) = count_list (port_log (pit_ports p0)) (PIC1_CMD, PIC_EOI) + 1"
proof -
  obtain ks w' where r: "run_cbs f (timer_cbs p0) w = (ks, w')" by (cases "run_cbs f (timer_cbs p0) w")
  note e = pit_tick_step [of f p0 w, unfolded r prod.case]
  show thesis
    by (rule that [OF e]) (auto simp: pit_get_ticks_def eoi_def pic_eoi_def outb_def send_count_def IRQ_TIMER_def
        PIC1_CMD_def PIT_CMD_def PIT_CHANNEL0_def Let_def)
qed

lemma timer_work_ok:
  assumes ok: "machine_ok b pl m" and c: "current (m_sched m) = Some c" and b: "unat (pit_get_ticks (m_pit m)) + 1 + b < 2 ^ 64"
  defines "s0 \<equiv> set_ticks (pit_get_ticks (m_pit m) + 1) (m_sched m)"
  shows "\<exists>m1. timer_work fs m = Inr m1 \<and> machine_ok b pl m1 \<and> pit_get_ticks (m_pit m1) = pit_get_ticks (m_pit m) + 1 \<and>
    eois m1 = eois m + 1 \<and>
    m_sched m1 = (upd_task s0 c ticked)\<lparr>need_resched := need_resched (m_sched m) \<or> quantum_over (task_pool (m_sched m) ! c)\<rparr>"
proof -
  let ?n = "pit_get_ticks (m_pit m)"
  note O = ok [unfolded machine_ok_def]
  note V = sched_invD [OF conjunct1 [OF O] c]
  have s0: "sched_inv s0 pl" "current s0 = Some c" "watched s0" "c < length (task_pool s0)" "task_pool s0 = task_pool (m_sched m)"
    "need_resched s0 = need_resched (m_sched m)" "sched.pit_ticks s0 = ?n + 1"
    using O c V(8) sched_inv_fields(2) by (auto simp: s0_def set_ticks_def watched_def)
  obtain p w1 where p: "pit_tick (timer_fn fs) (m_pit m) (m_world m) = Inr (p, w1)" "pit_get_ticks p = ?n + 1"
    "count_list (port_log (pit_ports (eoi IRQ_TIMER p))) (PIC1_CMD, PIC_EOI) = eois m + 1"
    unfolding eois_def by (rule pit_tick_eoi)
  have wh: "wheel_ok ?n (m_timers m)" "\<forall>u \<in> pending (m_timers m). unat (interval (tm (m_timers m) u)) \<le> b" using O by blast+
  obtain tw ts where tw: "ktimer_tick (ktimer_fn fs) (?n + 1) (m_timers m) w1 =
        Some (tw, fold (\<lambda>t. ktimer_fn fs (callback (tm (m_timers m) t)) (targ (tm (m_timers m) t))) ts w1)"
      "set ts = {t \<in> pending (m_timers m). expires (tm (m_timers m) t) = ?n + 1}" "wheel_ok (?n + 1) tw"
      "\<forall>t. tm tw t = (if t \<in> set ts then fired (?n + 1) (tm (m_timers m) t) else tm (m_timers m) t)"
      "\<forall>u \<in> pending tw. unat (interval (tm tw u)) \<le> b" "unat (?n + 1) = unat ?n + 1"
    by (rule bounded_tick [OF wh b])
  obtain s1 n where s1: "sched_tick s0 = Inr s1"
      "watchdog_check s1 (m_warnings m) = ((upd_task s0 c ticked)\<lparr>need_resched := need_resched (m_sched m) \<or> quantum_over (task_pool (m_sched m) ! c)\<rparr>, n)"
    using tick_and_watch [OF s0(3,2) V(7) s0(4), of "m_warnings m"] s0(5,6) by auto
  let ?s = "(upd_task s0 c ticked)\<lparr>need_resched := need_resched (m_sched m) \<or> quantum_over (task_pool (m_sched m) ! c)\<rparr>"
  let ?m = "m\<lparr>m_pit := eoi IRQ_TIMER p, m_timers := tw, m_sched := ?s, m_warnings := n,
    m_world := fold (\<lambda>t. ktimer_fn fs (callback (tm (m_timers m) t)) (targ (tm (m_timers m) t))) ts w1\<rparr>"
  have run: "timer_work fs m = Inr ?m" unfolding timer_work_def using p(1,2) tw(1) s1 by (simp add: s0_def)
  have tk: "pit_get_ticks (eoi IRQ_TIMER p) = ?n + 1" using p(2) by (simp add: eoi_def pit_get_ticks_def)
  have inv: "sched_inv ?s pl"
    by (intro sched_inv_fields(1) sched_inv_running [OF s0(1,2)])
      (use queues_okD(12) [OF V(2) V(7)] queues_okD(13) [OF V(2) V(7)] V(4) s0(5) in \<open>simp_all add: ticked_def\<close>)
  have wd: "watched ?s" using s0(3) unfolding watched_def by (auto simp: task_upd_task ticked_def WATCHDOG_THRESHOLD_def)
  have can: "stack_canary_ok ?s t = stack_canary_ok (m_sched m) t" for t
  proof (rule canary_cong)
    show "stack_phys (task_pool ?s ! t) = stack_phys (task_pool (m_sched m) ! t)" by (simp add: task_upd_task ticked_def s0(5))
    show "stack_word ?s = stack_word (m_sched m)" by (simp add: s0_def set_ticks_def upd_task_def)
  qed
  have "sched.pit_ticks ?s = ?n + 1" using s0(7) by (simp add: upd_task_def)
  then have "machine_ok b pl ?m" unfolding machine_ok_def using inv wd can O tw(3,5) tk by simp
  then show ?thesis using run tk p(3) by (intro exI [of _ ?m]) (simp add: eois_def)
qed

lemma best_choice_cong:
  "idle s' = idle s \<Longrightarrow> (\<And>t. deadline (task_pool s' ! t) = deadline (task_pool s ! t)) \<Longrightarrow> best_choice s' pl n = best_choice s pl n"
  by (simp add: best_choice_def)

lemma waked_cong:
  "sched.pit_ticks s' = sched.pit_ticks s \<Longrightarrow> (\<And>t. sleep_until (task_pool s' ! t) = sleep_until (task_pool s ! t)) \<Longrightarrow>
   (\<And>t. deadline (task_pool s' ! t) = deadline (task_pool s ! t)) \<Longrightarrow> (\<And>t. priority (task_pool s' ! t) = priority (task_pool s ! t)) \<Longrightarrow>
   waked s' pl = waked s pl"
  by (auto simp: waked_def dest_def fun_eq_iff)

lemma machine_schedule:
  assumes ok: "machine_ok b pl m" and c: "current (m_sched m) = Some c"
  shows "\<exists>s n pl'. schedule (m_sched m) = Inr s \<and> current s = Some n \<and> best_choice (m_sched m) (waked (m_sched m) pl) n \<and>
    machine_ok b pl' (m\<lparr>m_sched := s\<rparr>) \<and> dead_queue s = dead_queue (m_sched m)"
proof -
  let ?s = "m_sched m"
  note O = ok [unfolded machine_ok_def]
  note V = sched_invD [OF conjunct1 [OF O] c]
  have can: "stack_canary_ok ?s c" using O V(4) by simp
  obtain s n where s: "schedule ?s = Inr s" "current s = Some n" "best_choice ?s (waked ?s pl) n"
    "sched_inv s ((waked ?s pl)(c := dest ?s c, n := Running))" "kept ?s s"
    using schedule_spec [OF V(1) can] V(4) by auto
  let ?pl = "(waked ?s pl)(c := dest ?s c, n := Running)"
  have u: "?pl t = Unused \<longleftrightarrow> pl t = Unused" for t
    using queues_okD(9) [OF V(2), of t] queues_okD(9) [OF sched_invD(2) [OF s(4,2)], of t] s(5) by (simp add: kept_def)
  have "stack_canary_ok s t = stack_canary_ok ?s t" for t
    by (rule canary_cong) (use s(5) kept_fields(4) [OF s(5)] in \<open>simp_all add: kept_def\<close>)
  then have "\<forall>t. ?pl t \<noteq> Unused \<longrightarrow> stack_canary_ok s t" using O u by simp
  moreover have "watched s" using wd_le_watched [OF schedule_watchdog [OF s(1)] queues_okD(2) [OF V(2)]] O by blast
  moreover have "sched.pit_ticks s = sched.pit_ticks ?s" "dead_queue s = dead_queue ?s" using s(5) by (simp_all add: kept_def)
  ultimately have "machine_ok b ?pl (m\<lparr>m_sched := s\<rparr>)" "dead_queue s = dead_queue ?s"
    using O s(4) unfolding machine_ok_def by simp_all
  then show ?thesis using s(1-3) by blast
qed

text \<open>What the current task is after the interrupt.\<close>

definition next_task :: "'w machine \<Rightarrow> (nat \<Rightarrow> place) \<Rightarrow> nat \<Rightarrow> nat \<Rightarrow> bool" where
  "next_task m pl c n \<longleftrightarrow>
     (if need_resched (m_sched m) \<or> quantum_over (task_pool (m_sched m) ! c)
      then (let s = set_ticks (pit_get_ticks (m_pit m) + 1) (m_sched m) in best_choice s (waked s pl) n)
      else n = c)"

lemma timer_interrupt_step:
  assumes ok: "machine_ok b pl m" and c: "current (m_sched m) = Some c" and b: "unat (pit_get_ticks (m_pit m)) + 1 + b < 2 ^ 64"
  shows "\<exists>m' pl' n. irq_handler_c fs sc 32 m = Inr m' \<and> machine_ok b pl' m' \<and>
    pit_get_ticks (m_pit m') = pit_get_ticks (m_pit m) + 1 \<and> eois m' = eois m + 1 \<and>
    dead_queue (m_sched m') = dead_queue (m_sched m) \<and> current (m_sched m') = Some n \<and> next_task m pl c n"
proof -
  define s0 where "s0 = set_ticks (pit_get_ticks (m_pit m) + 1) (m_sched m)"
  let ?r = "need_resched (m_sched m) \<or> quantum_over (task_pool (m_sched m) ! c)"
  obtain m1 where m1: "timer_work fs m = Inr m1" "machine_ok b pl m1" "pit_get_ticks (m_pit m1) = pit_get_ticks (m_pit m) + 1"
    "eois m1 = eois m + 1" "m_sched m1 = (upd_task s0 c ticked)\<lparr>need_resched := ?r\<rparr>"
    using timer_work_ok [OF ok c b, of fs] unfolding s0_def by blast
  have f: "current (m_sched m1) = Some c" "need_resched (m_sched m1) = ?r" "dead_queue (m_sched m1) = dead_queue (m_sched m)"
    "idle (m_sched m1) = idle s0" "sched.pit_ticks (m_sched m1) = sched.pit_ticks s0"
    using c by (simp_all add: m1(5) s0_def set_ticks_def upd_task_def)
  have d: "deadline (task_pool (m_sched m1) ! t) = deadline (task_pool s0 ! t)" "sleep_until (task_pool (m_sched m1) ! t) = sleep_until (task_pool s0 ! t)"
    "priority (task_pool (m_sched m1) ! t) = priority (task_pool s0 ! t)" for t
    by (simp_all add: m1(5) task_upd_task ticked_def)
  have nr: "sched_need_resched (m_sched m1) = ?r" using f(1,2) by (simp add: sched_need_resched_def)
  have irq: "(ucast ((32 :: u64) - ucast PIC_IRQ_BASE_MASTER) :: u8) = IRQ_TIMER" by (simp add: PIC_IRQ_BASE_MASTER_def IRQ_TIMER_def)
  have run: "irq_handler_c fs sc 32 m = (if ?r then bnd (schedule (m_sched m1)) (\<lambda>s. Inr (m1\<lparr>m_sched := s\<rparr>)) else Inr m1)"
    unfolding irq_handler_c_def Let_def irq using m1(1) nr by simp
  show ?thesis
  proof (cases ?r)
    case True
    obtain s n pl' where s: "schedule (m_sched m1) = Inr s" "current s = Some n" "best_choice (m_sched m1) (waked (m_sched m1) pl) n"
      "machine_ok b pl' (m1\<lparr>m_sched := s\<rparr>)" "dead_queue s = dead_queue (m_sched m1)" using machine_schedule [OF m1(2) f(1)] by blast
    have "next_task m pl c n"
      using s(3) True waked_cong [OF f(5) d(2,1,3), of pl] best_choice_cong [OF f(4) d(1)] unfolding next_task_def s0_def by (simp add: Let_def)
    then show ?thesis using run True s m1(3,4) f(3) by (intro exI [of _ "m1\<lparr>m_sched := s\<rparr>"] exI [of _ pl'] exI [of _ n]) (simp add: eois_def)
  next
    case False
    then have "next_task m pl c c" unfolding next_task_def by simp
    then show ?thesis using run False m1(2-4) f(1,3) by auto
  qed
qed

text \<open>Interrupts of the other lines leave the scheduler and the timers alone: the keyboard handler or
  the registered handler of the line runs, and the controllers that raised the line are acknowledged.\<close>

lemma irq_device:
  assumes "1 \<le> k" "k < (16 :: nat)"
  shows "irq_handler_c fs sc (32 + of_nat k) m =
    Inr ((if k = 1 then m\<lparr>m_kb := kb_irq_handler (m_kb m) sc\<rparr>
          else m\<lparr>m_world := (case m_handlers m ! k of None \<Rightarrow> m_world m | Some h \<Rightarrow> irq_fn fs h (of_nat k) (m_world m))\<rparr>)
         \<lparr>m_pit := (m_pit m)\<lparr>pit_ports := (pit_ports (m_pit m))\<lparr>port_log := port_log (pit_ports (m_pit m)) @
            (if k < 8 then [] else [(PIC2_CMD, PIC_EOI)]) @ [(PIC1_CMD, PIC_EOI)]\<rparr>\<rparr>\<rparr>)"
proof -
  have u: "unat (of_nat k :: u8) = k" "unat (of_nat k :: u64) = k" using assms by (simp_all add: unat_of_nat take_bit_nat_eq_self)
  have "unat (ucast (of_nat k :: u64) :: u8) = k" using u(2) assms by (simp add: unsigned_ucast_eq take_bit_nat_eq_self)
  then have i: "(ucast ((32 + of_nat k :: u64) - ucast PIC_IRQ_BASE_MASTER) :: u8) = of_nat k"
    using u(1) by (simp add: PIC_IRQ_BASE_MASTER_def word_unat_eq_iff)
  have c: "(of_nat k :: u8) \<noteq> IRQ_TIMER" "(of_nat k :: u8) = IRQ_KEYBOARD \<longleftrightarrow> k = 1" "(8 :: u8) \<le> of_nat k \<longleftrightarrow> 8 \<le> k" "(of_nat k :: u8) < 16"
    using u(1) assms by (simp_all add: IRQ_TIMER_def IRQ_KEYBOARD_def word_unat_eq_iff word_le_nat_alt word_less_nat_alt)
  have c1: "\<not> (8 :: u8) \<le> 1" by (simp add: word_le_nat_alt)
  show ?thesis unfolding irq_handler_c_def Let_def i
    using c c1 by (simp add: irq_dispatch_def u(1) eoi_def pic_eoi_def outb_def Let_def split: option.split)
qed

fun timer_irqs :: "'w callbacks \<Rightarrow> nat \<Rightarrow> 'w machine \<Rightarrow> 'w machine res" where
  "timer_irqs fs 0 m = Inr m"
| "timer_irqs fs (Suc n) m = bnd (timer_irqs fs n m) (irq_handler_c fs 0 32)"

text \<open>C9: the timer interrupt. Between interrupts the scheduler satisfies its invariant and agrees with
  the interval timer on the time, the timer wheel is well formed for that time, every stack canary is
  intact and every watchdog counter is below its threshold. Then the interrupt returns, the tick
  counter has advanced by one, the controller has been acknowledged exactly once before the next task
  runs, and all of this holds again. The processor goes to the best ready task if a reschedule was
  requested or the quantum of the running task is over, and otherwise stays with it.\<close>

theorem timer_interrupt_correct:
  assumes "machine_ok b pl m" "current (m_sched m) = Some c" "unat (pit_get_ticks (m_pit m)) + 1 + b < 2 ^ 64"
  shows "\<exists>m' pl' n. irq_handler_c fs sc 32 m = Inr m' \<and> machine_ok b pl' m' \<and>
    pit_get_ticks (m_pit m') = pit_get_ticks (m_pit m) + 1 \<and> eois m' = eois m + 1 \<and>
    current (m_sched m') = Some n \<and> next_task m pl c n"
  using timer_interrupt_step [OF assms] by blast

lemma timer_irqs_ok:
  assumes "machine_ok b pl m" "unat (pit_get_ticks (m_pit m)) + n + b < 2 ^ 64"
  shows "\<exists>m' pl'. timer_irqs fs n m = Inr m' \<and> machine_ok b pl' m' \<and> unat (pit_get_ticks (m_pit m')) = unat (pit_get_ticks (m_pit m)) + n \<and>
    eois m' = eois m + n \<and> dead_queue (m_sched m') = dead_queue (m_sched m)"
  using assms
proof (induction n)
  case (Suc n)
  then obtain m1 pl1 where m1: "timer_irqs fs n m = Inr m1" "machine_ok b pl1 m1"
    "unat (pit_get_ticks (m_pit m1)) = unat (pit_get_ticks (m_pit m)) + n" "eois m1 = eois m + n" "dead_queue (m_sched m1) = dead_queue (m_sched m)"
    by auto
  obtain c where c: "current (m_sched m1) = Some c" using m1(2) sched_inv_current unfolding machine_ok_def by blast
  have b: "unat (pit_get_ticks (m_pit m1)) + 1 + b < 2 ^ 64" using m1(3) Suc.prems(2) by simp
  obtain m' pl' where m': "irq_handler_c fs 0 32 m1 = Inr m'" "machine_ok b pl' m'" "pit_get_ticks (m_pit m') = pit_get_ticks (m_pit m1) + 1"
    "eois m' = eois m1 + 1" "dead_queue (m_sched m') = dead_queue (m_sched m1)"
    using timer_interrupt_step [OF m1(2) c b, of fs 0] by blast
  have "unat (pit_get_ticks (m_pit m1) + 1) = unat (pit_get_ticks (m_pit m1)) + 1" using small_wait(2) [of "pit_get_ticks (m_pit m1)" 1 1] b by simp
  then show ?case using m1 m' by (intro exI [of _ m'] exI [of _ pl']) simp
qed auto

text \<open>C10: the watchdog. However many timer interrupts follow one another, each of them returns and is
  acknowledged once, and no task is ever ended by the watchdog limit of \<open>sched_tick\<close>: the check that
  runs in the same interrupt resets the counter at a twentieth of that limit, so the dead queue does
  not change.\<close>

theorem watchdog_never_kills:
  assumes "machine_ok b pl m" "unat (pit_get_ticks (m_pit m)) + n + b < 2 ^ 64"
  shows "\<exists>m'. timer_irqs fs n m = Inr m' \<and> dead_queue (m_sched m') = dead_queue (m_sched m) \<and> eois m' = eois m + n \<and>
    unat (pit_get_ticks (m_pit m')) = unat (pit_get_ticks (m_pit m)) + n \<and> watched (m_sched m')"
  using timer_irqs_ok [OF assms, of fs] unfolding machine_ok_def by blast

text \<open>A machine on which two tasks can run.\<close>

definition demo_machine :: "pmm_state \<Rightarrow> unit machine" where
  "demo_machine pm = \<lparr>m_pit = \<lparr>pit_ticks = 0, pit_freq = 100, pit_oneshot_mode = 0, pit_idle_count = 0, timer_cbs = [],
       pit_ports = \<lparr>imr1 = 0xFC, imr2 = 0xFF, port_log = []\<rparr>\<rparr>,
     m_timers = boot_timers, m_sched = sched_demo pm 0, m_kb = kb_start, m_handlers = replicate 16 None, m_warnings = 0, m_world = ()\<rparr>"

lemma demo_machine_ok: "machine_ok 0 demo_places (demo_machine pm)"
proof -
  have "watchdog_ticks (task_pool (sched_demo pm 0) ! t) < WATCHDOG_THRESHOLD \<or> 64 \<le> t" for t
    by (cases "t < 64") (simp_all add: demo_nth empty_task_def WATCHDOG_THRESHOLD_def)
  moreover have "stack_canary_ok (sched_demo pm 0) t" if "demo_places t \<noteq> Unused" for t
    using that placed_bound [OF demo_queues that] by (simp add: stack_canary_ok_def demo_nth empty_task_def)
  ultimately show ?thesis
    unfolding machine_ok_def watched_def using demo_inv demo_facts(6) boot_timers_ok
    by (simp add: demo_machine_def pit_get_ticks_def)
qed

lemma demo_best:
  assumes "next_task (demo_machine pm) demo_places 0 n"
  shows "n = 2"
proof -
  let ?s = "set_ticks 1 (sched_demo pm 0)"
  have "task_pool (sched_demo pm 0) ! 0 = empty_task\<lparr>state := TASK_RUNNING, priority := 40\<rparr>" by (simp add: demo_nth)
  then have q: "quantum_over (task_pool (sched_demo pm 0) ! 0)"
    by (simp add: quantum_over_def task_quantum_def empty_task_def QOS_COUNT_def qos_quantum_def)
  have "waked ?s demo_places = demo_places" by (auto simp: waked_def demo_places_def fun_eq_iff)
  then have b: "best_choice ?s demo_places n" using assms q by (simp add: next_task_def demo_machine_def pit_get_ticks_def Let_def)
  have "\<exists>t p. demo_places t = Ready p" by (intro exI [of _ 2] exI [of _ 32]) (simp add: demo_places_def)
  moreover have "demo_places t \<noteq> EDF" for t by (simp add: demo_places_def)
  ultimately obtain p where "demo_places n = Ready p" using b unfolding best_choice_def by (auto split: if_splits)
  then show ?thesis by (auto simp: demo_places_def split: if_splits)
qed

theorem timer_interrupt_correct_witness:
  "\<forall>pm fs. \<exists>m'. irq_handler_c fs 0 32 (demo_machine pm) = Inr m' \<and> current (m_sched m') = Some 2 \<and> eois m' = 1"
proof (intro allI)
  fix pm fs
  have f: "current (m_sched (demo_machine pm)) = Some 0" "unat (pit_get_ticks (m_pit (demo_machine pm))) + 1 + 0 < 2 ^ 64" "eois (demo_machine pm) = 0"
    using demo_facts(1) by (simp_all add: demo_machine_def pit_get_ticks_def eois_def)
  show "\<exists>m'. irq_handler_c fs 0 32 (demo_machine pm) = Inr m' \<and> current (m_sched m') = Some 2 \<and> eois m' = 1"
    using timer_interrupt_correct [OF demo_machine_ok f(1,2), of fs 0] f(3) demo_best by fastforce
qed

theorem watchdog_never_kills_witness:
  "\<forall>pm fs. \<exists>m'. timer_irqs fs 100000 (demo_machine pm) = Inr m' \<and> dead_queue (m_sched m') = [4] \<and> eois m' = 100000"
proof (intro allI)
  fix pm fs
  have "dead_queue (m_sched (demo_machine pm)) = [4]" "eois (demo_machine pm) = 0" "unat (pit_get_ticks (m_pit (demo_machine pm))) = 0"
    using demo_facts(8) by (simp_all add: demo_machine_def pit_get_ticks_def eois_def)
  then show "\<exists>m'. timer_irqs fs 100000 (demo_machine pm) = Inr m' \<and> dead_queue (m_sched m') = [4] \<and> eois m' = 100000"
    using watchdog_never_kills [OF demo_machine_ok, of pm 100000 fs] by auto
qed

end
