(* ===== verification/Descriptors.thy ===== *)
theory Descriptors
  imports Prelude
begin

text \<open>
  The segment descriptors and the task state segment of \<open>kernel/gdt.c\<close>, and the gates of
  \<open>kernel/idt.c\<close>.

  The packed structures are records of their fields. The addresses of the two boot stacks, of the
  task state segment, of the tables and of the assembly stubs are given by the linker and are
  arguments. Loading the tables and reloading the segment registers is the value \<open>cpu_regs\<close> that
  \<open>gdt_init\<close> and \<open>idt_init\<close> return. The functions \<open>seg_base\<close>, \<open>seg_limit\<close> and \<open>gate_offset\<close> read
  a descriptor the way the processor does.
\<close>

subsection \<open>Segment descriptors\<close>

definition GDT_NULL :: u16 where "GDT_NULL = 0x00"
definition GDT_KERNEL_CODE :: u16 where "GDT_KERNEL_CODE = 0x08"
definition GDT_KERNEL_DATA :: u16 where "GDT_KERNEL_DATA = 0x10"
definition GDT_USER_CODE :: u16 where "GDT_USER_CODE = 0x18"
definition GDT_USER_DATA :: u16 where "GDT_USER_DATA = 0x20"
definition GDT_TSS :: u16 where "GDT_TSS = 0x28"

record gdt_entry =
  limit_low :: u16
  base_low :: u16
  base_mid :: u8
  access :: u8
  granularity :: u8
  base_high :: u8

record table_pointer =
  tp_limit :: u16
  tp_base :: u64

record tss =
  reserved0 :: u32
  rsp0 :: u64
  rsp1 :: u64
  rsp2 :: u64
  reserved1 :: u64
  ist :: "u64 list"
  reserved2 :: u64
  reserved3 :: u16
  iopb_offset :: u16

text \<open>The packed structure: four bytes, four and seven and one words of eight bytes, twice two bytes.\<close>

definition sizeof_tss :: nat where "sizeof_tss = 4 + 4 * 8 + 7 * 8 + 8 + 2 + 2"

definition zero_tss :: tss where
  "zero_tss = \<lparr>reserved0 = 0, rsp0 = 0, rsp1 = 0, rsp2 = 0, reserved1 = 0, ist = replicate 7 0, reserved2 = 0, reserved3 = 0, iopb_offset = 0\<rparr>"

definition zero_entry :: gdt_entry where
  "zero_entry = \<lparr>limit_low = 0, base_low = 0, base_mid = 0, access = 0, granularity = 0, base_high = 0\<rparr>"

definition gdt_set_entry :: "nat \<Rightarrow> u8 \<Rightarrow> u8 \<Rightarrow> gdt_entry list \<Rightarrow> gdt_entry list" where
  "gdt_set_entry idx acc flags g =
     g[idx := \<lparr>limit_low = 0xFFFF, base_low = 0, base_mid = 0, access = acc, granularity = (flags AND 0xF0) OR 0x0F, base_high = 0\<rparr>]"

text \<open>The two words stored over the second half of a system descriptor, as fields of that entry.\<close>

definition entry_of_words :: "u32 \<Rightarrow> u32 \<Rightarrow> gdt_entry" where
  "entry_of_words lo hi =
     \<lparr>limit_low = ucast lo, base_low = ucast (drop_bit 16 lo), base_mid = ucast hi, access = ucast (drop_bit 8 hi),
      granularity = ucast (drop_bit 16 hi), base_high = ucast (drop_bit 24 hi)\<rparr>"

definition gdt_set_tss :: "nat \<Rightarrow> u64 \<Rightarrow> gdt_entry list \<Rightarrow> gdt_entry list" where
  "gdt_set_tss idx base g =
     (let limit = (of_nat sizeof_tss - 1 :: u32);
          g1 = g[idx := \<lparr>limit_low = ucast (limit AND 0xFFFF), base_low = ucast (base AND 0xFFFF), base_mid = ucast (drop_bit 16 base AND 0xFF),
                 access = 0x89, granularity = ucast (drop_bit 16 limit AND 0x0F), base_high = ucast (drop_bit 24 base AND 0xFF)\<rparr>]
      in g1[idx + 1 := entry_of_words (ucast (drop_bit 32 base AND 0xFFFFFFFF)) 0])"

text \<open>What the table loads leave in the processor.\<close>

record cpu_regs =
  gdtr :: table_pointer
  cs_reg :: u16
  ds_reg :: u16
  fs_reg :: u16
  tr_reg :: u16

definition gdt_init :: "u64 \<Rightarrow> u64 \<Rightarrow> u64 \<Rightarrow> u64 \<Rightarrow> tss \<times> gdt_entry list \<times> cpu_regs" where
  "gdt_init temp_rsp0_stack temp_ist1_stack tss_ptr gdt_ptr =
     (let t = zero_tss\<lparr>rsp0 := temp_rsp0_stack + 4096, ist := (ist zero_tss)[0 := temp_ist1_stack + 2048], iopb_offset := of_nat sizeof_tss\<rparr>;
          g0 = (replicate 7 zero_entry)[0 := zero_entry];
          g1 = gdt_set_entry 1 0x9A 0x20 g0;
          g2 = gdt_set_entry 2 0x92 0x00 g1;
          g3 = gdt_set_entry 3 0xFA 0x20 g2;
          g4 = gdt_set_entry 4 0xF2 0x00 g3;
          g5 = gdt_set_tss 5 tss_ptr g4
      in (t, g5, \<lparr>gdtr = \<lparr>tp_limit = of_nat (8 * length g5) - 1, tp_base = gdt_ptr\<rparr>, cs_reg = GDT_KERNEL_CODE,
            ds_reg = GDT_KERNEL_DATA, fs_reg = 0, tr_reg = GDT_TSS\<rparr>))"

definition tss_set_rsp0 :: "u64 \<Rightarrow> tss \<Rightarrow> tss" where
  "tss_set_rsp0 v t = t\<lparr>rsp0 := v\<rparr>"

definition tss_set_ist1 :: "u64 \<Rightarrow> tss \<Rightarrow> tss" where
  "tss_set_ist1 v t = t\<lparr>ist := (ist t)[0 := v]\<rparr>"

subsection \<open>Gates\<close>

record idt_entry =
  offset_low :: u16
  selector :: u16
  gate_ist :: u8
  type_attr :: u8
  offset_mid :: u16
  offset_high :: u32
  gate_reserved :: u32

definition zero_gate :: idt_entry where
  "zero_gate = \<lparr>offset_low = 0, selector = 0, gate_ist = 0, type_attr = 0, offset_mid = 0, offset_high = 0, gate_reserved = 0\<rparr>"

definition idt_set_gate :: "nat \<Rightarrow> u64 \<Rightarrow> u8 \<Rightarrow> idt_entry list \<Rightarrow> idt_entry list" where
  "idt_set_gate vector addr i t =
     t[vector := \<lparr>offset_low = ucast (addr AND 0xFFFF), selector = GDT_KERNEL_CODE, gate_ist = i, type_attr = 0x8E,
         offset_mid = ucast (drop_bit 16 addr AND 0xFFFF), offset_high = ucast (drop_bit 32 addr AND 0xFFFFFFFF), gate_reserved = 0\<rparr>]"

text \<open>The vectors of the stubs, in the order in which they are installed, with their stack number.\<close>

definition installed :: "(nat \<times> u8) list" where
  "installed = [(0, 0), (6, 0), (7, 0), (8, 1), (13, 0), (14, 0), (16, 0), (32, 0), (33, 0), (253, 0), (254, 0)]"

definition idt_init :: "(nat \<Rightarrow> u64) \<Rightarrow> u64 \<Rightarrow> idt_entry list \<times> table_pointer" where
  "idt_init isr_stub idt_ptr =
     (let t = fold (\<lambda>(v, i). idt_set_gate v (isr_stub v) i) installed (replicate 256 zero_gate)
      in (t, \<lparr>tp_limit = of_nat (16 * length t - 1), tp_base = idt_ptr\<rparr>))"

subsection \<open>What the processor reads\<close>

definition seg_limit :: "gdt_entry \<Rightarrow> u32" where
  "seg_limit e = ucast (limit_low e) OR push_bit 16 (ucast (granularity e AND 0x0F))"

definition seg_base :: "gdt_entry \<Rightarrow> u64" where
  "seg_base e = ucast (base_low e) OR push_bit 16 (ucast (base_mid e)) OR push_bit 24 (ucast (base_high e))"

text \<open>A system descriptor takes two entries; the upper one holds bits 32 to 63 of the base.\<close>

definition system_base :: "gdt_entry list \<Rightarrow> nat \<Rightarrow> u64" where
  "system_base g i = seg_base (g ! i) OR push_bit 32 (ucast (limit_low (g ! (i + 1)))) OR push_bit 48 (ucast (base_low (g ! (i + 1))))"

definition seg_present :: "gdt_entry \<Rightarrow> bool" where "seg_present e = bit (access e) 7"
definition seg_dpl :: "gdt_entry \<Rightarrow> u8" where "seg_dpl e = drop_bit 5 (access e) AND 3"
definition seg_code :: "gdt_entry \<Rightarrow> bool" where "seg_code e = (bit (access e) 4 \<and> bit (access e) 3)"
definition seg_data :: "gdt_entry \<Rightarrow> bool" where "seg_data e = (bit (access e) 4 \<and> \<not> bit (access e) 3)"
definition seg_long :: "gdt_entry \<Rightarrow> bool" where "seg_long e = (bit (granularity e) 5 \<and> \<not> bit (granularity e) 6)"

definition entry_of :: "u16 \<Rightarrow> nat" where "entry_of sel = unat (drop_bit 3 sel)"

definition gate_present :: "idt_entry \<Rightarrow> bool" where "gate_present e = bit (type_attr e) 7"

definition gate_offset :: "idt_entry \<Rightarrow> u64" where
  "gate_offset e = ucast (offset_low e) OR push_bit 16 (ucast (offset_mid e)) OR push_bit 32 (ucast (offset_high e))"

lemma gate_offset_split:
  "gate_offset \<lparr>offset_low = ucast (a AND 0xFFFF), selector = s, gate_ist = i, type_attr = y,
     offset_mid = ucast (drop_bit 16 a AND 0xFFFF), offset_high = ucast (drop_bit 32 a AND 0xFFFFFFFF), gate_reserved = r\<rparr> = a"
proof -
  have m: "0xFFFF = (mask 16 :: u64)" "0xFFFFFFFF = (mask 32 :: u64)" by (simp_all add: mask_eq_exp_minus_1)
  show ?thesis
    unfolding gate_offset_def idt_entry.select_convs m
  proof (rule bit_eqI)
    fix n assume "possible_bit TYPE(u64) n"
    then have "n < 64" by simp
    then consider "n < 16" | "16 \<le> n" "n < 32" | "32 \<le> n" "n < 64" by fastforce
    then show "bit (ucast (ucast (a AND mask 16) :: u16) OR push_bit 16 (ucast (ucast (drop_bit 16 a AND mask 16) :: u16)) OR
        push_bit 32 (ucast (ucast (drop_bit 32 a AND mask 32) :: u32)) :: u64) n = bit a n"
      by cases (auto simp: bit_simps)
  qed
qed

lemma idt_set_gate_nth:
  assumes "v < length t"
  shows "gate_offset (idt_set_gate v a i t ! v) = a" "gate_ist (idt_set_gate v a i t ! v) = i"
    "gate_present (idt_set_gate v a i t ! v)" "selector (idt_set_gate v a i t ! v) = GDT_KERNEL_CODE"
    "w \<noteq> v \<Longrightarrow> idt_set_gate v a i t ! w = t ! w" "length (idt_set_gate v a i t) = length t"
  using assms by (simp_all add: idt_set_gate_def gate_offset_split gate_present_def)

abbreviation gates :: "(nat \<Rightarrow> u64) \<Rightarrow> (nat \<times> u8) list \<Rightarrow> idt_entry list \<Rightarrow> idt_entry list" where
  "gates stub \<equiv> fold (\<lambda>(v, i). idt_set_gate v (stub v) i)"

lemma gates_other: "w \<notin> fst ` set vs \<Longrightarrow> gates stub vs t ! w = t ! w" "length (gates stub vs t) = length t"
  by (induction vs arbitrary: t) (auto simp: idt_set_gate_def)

lemma gates_nth:
  assumes "distinct (map fst vs)" "w < length t" "(w, i) \<in> set vs"
  shows "gate_present (gates stub vs t ! w) \<and> gate_offset (gates stub vs t ! w) = stub w \<and> gate_ist (gates stub vs t ! w) = i \<and>
    selector (gates stub vs t ! w) = GDT_KERNEL_CODE"
  using assms
proof (induction vs arbitrary: t)
  case (Cons x vs)
  obtain v j where x: "x = (v, j)" by (cases x)
  show ?case
  proof (cases "(w, i) = x")
    case True
    then show ?thesis using gates_other(1) [of w vs] idt_set_gate_nth(1-4) [of w t "stub w" i] Cons.prems x by simp
  next
    case False
    then show ?thesis using Cons.IH [of "idt_set_gate v (stub v) j t"] Cons.prems x gates_other(2) [of stub "[(v, j)]" t] by auto
  qed
qed simp

text \<open>C38: the interrupt table. After \<open>idt_init\<close> exactly the eleven installed vectors are present; the
  processor reads from each of them the address of its own stub and the kernel code selector, and
  only the double fault runs on a stack of its own. Every other vector is not present, so that of
  the sixteen lines of the interrupt controller only the timer and the keyboard can be served.\<close>

theorem idt_init_correct:
  "let t = fst (idt_init stub p) in length t = 256 \<and>
     (\<forall>v < 256. gate_present (t ! v) \<longleftrightarrow> v \<in> {0, 6, 7, 8, 13, 14, 16, 32, 33, 253, 254}) \<and>
     (\<forall>v < 256. gate_present (t ! v) \<longrightarrow> gate_offset (t ! v) = stub v \<and> selector (t ! v) = GDT_KERNEL_CODE \<and>
        gate_ist (t ! v) = (if v = 8 then 1 else 0))"
proof -
  let ?t = "fst (idt_init stub p)"
  have t: "?t = fold (\<lambda>(v, i). idt_set_gate v (stub v) i) installed (replicate 256 zero_gate)"
    by (simp add: idt_init_def Let_def)
  have i: "distinct (map fst installed)" "\<forall>v \<in> fst ` set installed. v < length (replicate 256 zero_gate)"
    "fst ` set installed = {0, 6, 7, 8, 13, 14, 16, 32, 33, 253, 254}"
    by (simp_all add: installed_def)
  have off: "\<not> gate_present (?t ! v)" if "v < 256" "v \<notin> fst ` set installed" for v
    using gates_other(1) [OF that(2), of stub "replicate 256 zero_gate"] that(1) by (simp add: t gate_present_def zero_gate_def)
  have on: "gate_present (?t ! v) \<and> gate_offset (?t ! v) = stub v \<and> selector (?t ! v) = GDT_KERNEL_CODE \<and>
      gate_ist (?t ! v) = (if v = 8 then 1 else 0)" if "v \<in> fst ` set installed" for v
  proof -
    have "(v, if v = 8 then 1 else 0) \<in> set installed" using that by (auto simp: installed_def)
    from gates_nth [OF i(1) _ this, of "replicate 256 zero_gate" stub] i(2) that show ?thesis unfolding t by blast
  qed
  have "length ?t = 256" unfolding t gates_other(2) by simp
  moreover have "\<forall>v < 256. gate_present (?t ! v) \<longleftrightarrow> v \<in> {0, 6, 7, 8, 13, 14, 16, 32, 33, 253, 254}"
    using off on unfolding i(3) by blast
  moreover have "\<forall>v < 256. gate_present (?t ! v) \<longrightarrow> gate_offset (?t ! v) = stub v \<and> selector (?t ! v) = GDT_KERNEL_CODE \<and>
      gate_ist (?t ! v) = (if v = 8 then 1 else 0)"
    using off on by blast
  ultimately show ?thesis unfolding Let_def by blast
qed

theorem idt_init_correct_witness:
  "gate_offset (fst (idt_init (\<lambda>v. 0xFFFFFFFF80001000 + of_nat (16 * v)) 0) ! 8) = 0xFFFFFFFF80001080"
proof -
  have "gate_present (fst (idt_init (\<lambda>v. 0xFFFFFFFF80001000 + of_nat (16 * v)) 0) ! 8) \<and>
    gate_offset (fst (idt_init (\<lambda>v. 0xFFFFFFFF80001000 + of_nat (16 * v)) 0) ! 8) = 0xFFFFFFFF80001000 + of_nat (16 * 8)"
    using idt_init_correct [of "\<lambda>v. 0xFFFFFFFF80001000 + of_nat (16 * v)" 0, unfolded Let_def] by simp
  then show ?thesis by simp
qed

lemma system_base_split:
  "g ! i = \<lparr>limit_low = l, base_low = ucast (a AND 0xFFFF), base_mid = ucast (drop_bit 16 a AND 0xFF),
      access = x, granularity = y, base_high = ucast (drop_bit 24 a AND 0xFF)\<rparr> \<Longrightarrow>
   g ! (i + 1) = entry_of_words (ucast (drop_bit 32 a AND 0xFFFFFFFF)) 0 \<Longrightarrow> system_base g i = a"
proof -
  have m: "0xFFFF = (mask 16 :: u64)" "0xFFFFFFFF = (mask 32 :: u64)" "0xFF = (mask 8 :: u64)" by (simp_all add: mask_eq_exp_minus_1)
  assume g: "g ! i = \<lparr>limit_low = l, base_low = ucast (a AND 0xFFFF), base_mid = ucast (drop_bit 16 a AND 0xFF),
      access = x, granularity = y, base_high = ucast (drop_bit 24 a AND 0xFF)\<rparr>"
    "g ! (i + 1) = entry_of_words (ucast (drop_bit 32 a AND 0xFFFFFFFF)) 0"
  show ?thesis
    unfolding system_base_def seg_base_def g entry_of_words_def gdt_entry.select_convs m
  proof (rule bit_eqI)
    fix n assume "possible_bit TYPE(u64) n"
    then have "n < 64" by simp
    then consider "n < 16" | "16 \<le> n" "n < 24" | "24 \<le> n" "n < 32" | "32 \<le> n" "n < 48" | "48 \<le> n" "n < 64" by fastforce
    then show "bit ((ucast (ucast (a AND mask 16) :: u16) OR push_bit 16 (ucast (ucast (drop_bit 16 a AND mask 8) :: u8)) OR
        push_bit 24 (ucast (ucast (drop_bit 24 a AND mask 8) :: u8))) OR
        push_bit 32 (ucast (ucast (ucast (drop_bit 32 a AND mask 32) :: u32) :: u16)) OR
        push_bit 48 (ucast (ucast (drop_bit 16 (ucast (drop_bit 32 a AND mask 32) :: u32)) :: u16)) :: u64) n = bit a n"
      by cases (auto simp: bit_simps)
  qed
qed

text \<open>The segment table. After \<open>gdt_init\<close> the loaded selectors name a present 64-bit code segment and
  a present data segment of ring 0, the user selectors the same of ring 3, and the task register
  names a present system descriptor whose base is the address of the task state segment and whose
  limit is the last byte of it; the table limit is the last byte of its seven entries. The two
  stacks in the task state segment are the tops of the boot stacks.\<close>

theorem gdt_init_correct:
  assumes "gdt_init r i tp gp = (t, g, cpu)"
  shows "let seg = (\<lambda>sel. g ! entry_of sel) in
    seg_present (seg (cs_reg cpu)) \<and> seg_code (seg (cs_reg cpu)) \<and> seg_long (seg (cs_reg cpu)) \<and> seg_dpl (seg (cs_reg cpu)) = 0 \<and>
    seg_present (seg (ds_reg cpu)) \<and> seg_data (seg (ds_reg cpu)) \<and> seg_dpl (seg (ds_reg cpu)) = 0 \<and>
    seg_present (seg GDT_USER_CODE) \<and> seg_code (seg GDT_USER_CODE) \<and> seg_long (seg GDT_USER_CODE) \<and> seg_dpl (seg GDT_USER_CODE) = 3 \<and>
    seg_present (seg GDT_USER_DATA) \<and> seg_data (seg GDT_USER_DATA) \<and> seg_dpl (seg GDT_USER_DATA) = 3 \<and>
    \<not> seg_present (seg GDT_NULL) \<and>
    seg_present (seg (tr_reg cpu)) \<and> access (seg (tr_reg cpu)) AND 0x1F = 9 \<and> system_base g (entry_of (tr_reg cpu)) = tp \<and>
    seg_limit (seg (tr_reg cpu)) = of_nat (sizeof_tss - 1) \<and>
    gdtr cpu = \<lparr>tp_limit = of_nat (8 * length g - 1), tp_base = gp\<rparr> \<and> rsp0 t = r + 4096 \<and> ist t = (i + 2048) # replicate 6 0"
proof -
  have e: "t = fst (gdt_init r i tp gp)" "g = fst (snd (gdt_init r i tp gp))" "cpu = snd (snd (gdt_init r i tp gp))" using assms by simp_all
  note D = gdt_init_def gdt_set_entry_def gdt_set_tss_def Let_def sizeof_tss_def
  have n: "entry_of GDT_NULL = 0" "entry_of GDT_KERNEL_CODE = 1" "entry_of GDT_KERNEL_DATA = 2" "entry_of GDT_USER_CODE = 3"
    "entry_of GDT_USER_DATA = 4" "entry_of GDT_TSS = 5"
    by (simp_all add: entry_of_def GDT_NULL_def GDT_KERNEL_CODE_def GDT_KERNEL_DATA_def GDT_USER_CODE_def GDT_USER_DATA_def GDT_TSS_def)
  have r: "cs_reg cpu = GDT_KERNEL_CODE" "ds_reg cpu = GDT_KERNEL_DATA" "tr_reg cpu = GDT_TSS"
    "gdtr cpu = \<lparr>tp_limit = of_nat (8 * length g - 1), tp_base = gp\<rparr>" unfolding e by (simp_all add: D)
  have s: "g ! 0 = zero_entry" "access (g ! 1) = 0x9A" "granularity (g ! 1) = 0x2F" "access (g ! 2) = 0x92" "access (g ! 3) = 0xFA"
    "granularity (g ! 3) = 0x2F" "access (g ! 4) = 0xF2" "access (g ! 5) = 0x89"
    unfolding e by (simp_all add: D)
  have b: "system_base g 5 = tp" by (rule system_base_split) (simp_all add: e D)
  have l: "seg_limit (g ! 5) = of_nat (sizeof_tss - 1)" unfolding e by (simp add: D seg_limit_def)
  have z: "rsp0 t = r + 4096" "ist t = (i + 2048) # replicate 6 0" unfolding e by (simp_all add: D zero_tss_def numeral_eq_Suc)
  show ?thesis
    unfolding Let_def r n seg_present_def seg_code_def seg_data_def seg_long_def seg_dpl_def s b l z
    by (intro conjI) (simp_all add: zero_entry_def bit_simps)
qed

theorem gdt_init_correct_witness:
  "system_base (fst (snd (gdt_init 0x1000 0x3000 0xFFFFFFFF80123450 0x5000))) 5 = 0xFFFFFFFF80123450"
proof -
  obtain t g cpu where g: "gdt_init 0x1000 0x3000 0xFFFFFFFF80123450 0x5000 = (t, g, cpu)" by (cases "gdt_init 0x1000 0x3000 0xFFFFFFFF80123450 0x5000") auto
  have "tr_reg cpu = GDT_TSS" using arg_cong [OF g, of "\<lambda>x. tr_reg (snd (snd x))"] by (simp add: gdt_init_def Let_def)
  moreover have "entry_of GDT_TSS = 5" by (simp add: entry_of_def GDT_TSS_def)
  ultimately show ?thesis using gdt_init_correct [OF g] g by (simp add: Let_def)
qed

end
