(* ===== verification/Pci.thy ===== *)
theory Pci
  imports Errno
begin

text \<open>
  The PCI configuration space of \<open>kernel/pci.c\<close> and \<open>kernel/pci.h\<close>.

  The hardware is a function that gives the word at a configuration address; a write is the pair of
  words sent to the address and to the data port. The loops over buses, devices and functions are
  recursions over the numbers they run through, and a \<open>break\<close> ends the recursion of its loop.
\<close>

type_synonym pci_config = "u32 \<Rightarrow> u32"

definition PCI_CONFIG_ADDR :: u16 where "PCI_CONFIG_ADDR = 0xCF8"
definition PCI_CONFIG_DATA :: u16 where "PCI_CONFIG_DATA = 0xCFC"
definition PCI_VENDOR_ID :: u8 where "PCI_VENDOR_ID = 0x00"
definition PCI_DEVICE_ID :: u8 where "PCI_DEVICE_ID = 0x02"
definition PCI_PROG_IF :: u8 where "PCI_PROG_IF = 0x09"
definition PCI_SUBCLASS :: u8 where "PCI_SUBCLASS = 0x0A"
definition PCI_CLASS :: u8 where "PCI_CLASS = 0x0B"
definition PCI_HEADER_TYPE :: u8 where "PCI_HEADER_TYPE = 0x0E"
definition PCI_BAR0 :: u8 where "PCI_BAR0 = 0x10"
definition PCI_VENDOR_INVALID :: u16 where "PCI_VENDOR_INVALID = 0xFFFF"

record pci_device =
  d_bus :: u8
  d_device :: u8
  d_function :: u8
  vendor_id :: u16
  device_id :: u16
  class_code :: u8
  sub_class :: u8
  prog_if :: u8
  header_type :: u8
  bar :: "u32 list"

definition pci_config_addr :: "u8 \<Rightarrow> u8 \<Rightarrow> u8 \<Rightarrow> u8 \<Rightarrow> u32" where
  "pci_config_addr bus dev func offset =
     push_bit 31 1 OR push_bit 16 (ucast bus) OR push_bit 11 (ucast (dev AND 0x1F)) OR push_bit 8 (ucast (func AND 0x07)) OR
     ucast (offset AND 0xFC)"

definition pci_read32 :: "pci_config \<Rightarrow> u8 \<Rightarrow> u8 \<Rightarrow> u8 \<Rightarrow> u8 \<Rightarrow> u32" where
  "pci_read32 cfg bus dev func offset = cfg (pci_config_addr bus dev func offset)"

definition pci_read16 :: "pci_config \<Rightarrow> u8 \<Rightarrow> u8 \<Rightarrow> u8 \<Rightarrow> u8 \<Rightarrow> u16" where
  "pci_read16 cfg bus dev func offset =
     (let val = pci_read32 cfg bus dev func (offset AND 0xFC) in ucast (drop_bit (unat (offset AND 2) * 8) val))"

definition pci_read8 :: "pci_config \<Rightarrow> u8 \<Rightarrow> u8 \<Rightarrow> u8 \<Rightarrow> u8 \<Rightarrow> u8" where
  "pci_read8 cfg bus dev func offset =
     (let val = pci_read32 cfg bus dev func (offset AND 0xFC) in ucast (drop_bit (unat (offset AND 3) * 8) val))"

definition pci_write32 :: "u8 \<Rightarrow> u8 \<Rightarrow> u8 \<Rightarrow> u8 \<Rightarrow> u32 \<Rightarrow> (u16 \<times> u32) list" where
  "pci_write32 bus dev func offset val = [(PCI_CONFIG_ADDR, pci_config_addr bus dev func offset), (PCI_CONFIG_DATA, val)]"

text \<open>The function at a place of the scan, and the test that skips it.\<close>

definition no_function :: "pci_config \<Rightarrow> u8 \<Rightarrow> u8 \<Rightarrow> u8 \<Rightarrow> bool" where
  "no_function cfg bus dev func =
     (let vendor = pci_read16 cfg bus dev func PCI_VENDOR_ID in vendor = PCI_VENDOR_INVALID \<or> vendor = 0)"

definition single_function :: "pci_config \<Rightarrow> u8 \<Rightarrow> u8 \<Rightarrow> u8 \<Rightarrow> bool" where
  "single_function cfg bus dev func = (pci_read8 cfg bus dev func PCI_HEADER_TYPE AND 0x80 = 0)"

definition fill_device :: "pci_config \<Rightarrow> u8 \<Rightarrow> u8 \<Rightarrow> u8 \<Rightarrow> pci_device" where
  "fill_device cfg bus dev func =
     \<lparr>d_bus = bus, d_device = dev, d_function = func, vendor_id = pci_read16 cfg bus dev func PCI_VENDOR_ID,
      device_id = pci_read16 cfg bus dev func PCI_DEVICE_ID, class_code = pci_read8 cfg bus dev func PCI_CLASS,
      sub_class = pci_read8 cfg bus dev func PCI_SUBCLASS, prog_if = pci_read8 cfg bus dev func PCI_PROG_IF,
      header_type = pci_read8 cfg bus dev func PCI_HEADER_TYPE,
      bar = map (\<lambda>i. pci_read32 cfg bus dev func (PCI_BAR0 + of_nat (i * 4))) [0..<6]\<rparr>"

definition class_matches :: "pci_config \<Rightarrow> u8 \<Rightarrow> u8 \<Rightarrow> u8 \<Rightarrow> u8 \<Rightarrow> u8 \<Rightarrow> u8 \<Rightarrow> bool" where
  "class_matches cfg cls sub pif bus dev func =
     (pci_read8 cfg bus dev func PCI_CLASS = cls \<and> pci_read8 cfg bus dev func PCI_SUBCLASS = sub \<and> pci_read8 cfg bus dev func PCI_PROG_IF = pif)"

fun find_func :: "pci_config \<Rightarrow> u8 \<Rightarrow> u8 \<Rightarrow> u8 \<Rightarrow> u8 \<Rightarrow> u8 \<Rightarrow> nat list \<Rightarrow> pci_device option" where
  "find_func cfg cls sub pif bus dev [] = None"
| "find_func cfg cls sub pif bus dev (f # fs) =
     (let func = of_nat f in
      if no_function cfg bus dev func then (if func = 0 then None else find_func cfg cls sub pif bus dev fs)
      else if class_matches cfg cls sub pif bus dev func then Some (fill_device cfg bus dev func)
      else if func = 0 \<and> single_function cfg bus dev func then None
      else find_func cfg cls sub pif bus dev fs)"

fun find_dev :: "pci_config \<Rightarrow> u8 \<Rightarrow> u8 \<Rightarrow> u8 \<Rightarrow> u8 \<Rightarrow> nat list \<Rightarrow> pci_device option" where
  "find_dev cfg cls sub pif bus [] = None"
| "find_dev cfg cls sub pif bus (d # ds) =
     (case find_func cfg cls sub pif bus (of_nat d) [0..<8] of Some x \<Rightarrow> Some x | None \<Rightarrow> find_dev cfg cls sub pif bus ds)"

fun find_bus :: "pci_config \<Rightarrow> u8 \<Rightarrow> u8 \<Rightarrow> u8 \<Rightarrow> nat list \<Rightarrow> pci_device option" where
  "find_bus cfg cls sub pif [] = None"
| "find_bus cfg cls sub pif (b # bs) =
     (case find_dev cfg cls sub pif (of_nat b) [0..<32] of Some x \<Rightarrow> Some x | None \<Rightarrow> find_bus cfg cls sub pif bs)"

text \<open>The device that is written to a non-null result pointer, and the status.\<close>

definition pci_find_device :: "pci_config \<Rightarrow> u8 \<Rightarrow> u8 \<Rightarrow> u8 \<Rightarrow> pci_device option \<times> int" where
  "pci_find_device cfg cls sub pif =
     (case find_bus cfg cls sub pif [0..<256] of Some x \<Rightarrow> (Some x, 0) | None \<Rightarrow> (None, - ENOENT))"

text \<open>The enumeration: the lines printed so far and the counter are threaded through the three loops.\<close>

type_synonym pci_line = "u8 \<times> u8 \<times> u8 \<times> u16 \<times> u16 \<times> u8 \<times> u8 \<times> u8"

definition enum_line :: "pci_config \<Rightarrow> u8 \<Rightarrow> u8 \<Rightarrow> u8 \<Rightarrow> pci_line" where
  "enum_line cfg bus dev func =
     (bus, dev, func, pci_read16 cfg bus dev func PCI_VENDOR_ID, pci_read16 cfg bus dev func PCI_DEVICE_ID,
      pci_read8 cfg bus dev func PCI_CLASS, pci_read8 cfg bus dev func PCI_SUBCLASS, pci_read8 cfg bus dev func PCI_PROG_IF)"

fun enum_func :: "pci_config \<Rightarrow> u8 \<Rightarrow> u8 \<Rightarrow> nat list \<Rightarrow> pci_line list \<times> u32 \<Rightarrow> pci_line list \<times> u32" where
  "enum_func cfg bus dev [] st = st"
| "enum_func cfg bus dev (f # fs) (ls, count) =
     (let func = of_nat f in
      if no_function cfg bus dev func then (if func = 0 then (ls, count) else enum_func cfg bus dev fs (ls, count))
      else
        let ls1 = ls @ [enum_line cfg bus dev func]; count1 = count + 1
        in if func = 0 \<and> single_function cfg bus dev func then (ls1, count1) else enum_func cfg bus dev fs (ls1, count1))"

definition pci_enumerate :: "pci_config \<Rightarrow> pci_line list \<times> u32" where
  "pci_enumerate cfg =
     fold (\<lambda>b. fold (\<lambda>d. enum_func cfg (of_nat b) (of_nat d) [0..<8]) [0..<32]) [0..<256] ([], 0)"

text \<open>The lines of one device.\<close>

fun func_lines :: "pci_config \<Rightarrow> u8 \<Rightarrow> u8 \<Rightarrow> nat list \<Rightarrow> pci_line list" where
  "func_lines cfg bus dev [] = []"
| "func_lines cfg bus dev (f # fs) =
     (let func = of_nat f in
      if no_function cfg bus dev func then (if func = 0 then [] else func_lines cfg bus dev fs)
      else enum_line cfg bus dev func # (if func = 0 \<and> single_function cfg bus dev func then [] else func_lines cfg bus dev fs))"

lemma enum_func_lines:
  "enum_func cfg bus dev fs (ls, n) = (ls @ func_lines cfg bus dev fs, n + of_nat (length (func_lines cfg bus dev fs)))"
  by (induction fs arbitrary: ls n) (simp_all add: Let_def add.assoc)

lemma fold_lines:
  assumes "\<And>x ls n. g x (ls, n) = (ls @ h x, n + of_nat (length (h x)))"
  shows "fold g xs (ls, n) = (ls @ concat (map h xs), n + of_nat (length (concat (map h xs))))"
  using assms by (induction xs arbitrary: ls n) (simp_all add: add.assoc)

lemma pci_enumerate_lines:
  "pci_enumerate cfg = (let ls = concat (map (\<lambda>b. concat (map (\<lambda>d. func_lines cfg (of_nat b) (of_nat d) [0..<8]) [0..<32])) [0..<256])
     in (ls, of_nat (length ls)))"
proof -
  have d: "fold (\<lambda>d. enum_func cfg b (of_nat d) [0..<8]) ds (ls, n) =
      (ls @ concat (map (\<lambda>d. func_lines cfg b (of_nat d) [0..<8]) ds),
       n + of_nat (length (concat (map (\<lambda>d. func_lines cfg b (of_nat d) [0..<8]) ds))))" for b ds ls n
    by (rule fold_lines) (rule enum_func_lines)
  show ?thesis unfolding pci_enumerate_def Let_def
    by (subst fold_lines [where h = "\<lambda>b. concat (map (\<lambda>d. func_lines cfg (of_nat b) (of_nat d) [0..<8]) [0..<32])"], rule d)
      (simp only: append_Nil add_0)
qed

subsection \<open>Configuration addresses\<close>

lemma bit_config_addr:
  "bit (pci_config_addr bus dev func off) n \<longleftrightarrow>
     n = 31 \<or> 16 \<le> n \<and> n < 24 \<and> bit bus (n - 16) \<or> 11 \<le> n \<and> n < 16 \<and> bit dev (n - 11) \<or>
     8 \<le> n \<and> n < 11 \<and> bit func (n - 8) \<or> 2 \<le> n \<and> n < 8 \<and> bit off n"
proof -
  have m: "0x1F = (mask 5 :: u8)" "0x07 = (mask 3 :: u8)" "0xFC = (NOT (mask 2) :: u8)" by (simp_all add: mask_eq_exp_minus_1)
  have e: "bit (push_bit 31 1 :: u32) n \<longleftrightarrow> n = 31" using bit_push_bit_iff [of 31 "1 :: u32" n] bit_1_iff [of "n - 31", where ?'a = u32] by auto
  have p: "bit (push_bit k (ucast w :: u32)) n \<longleftrightarrow> k \<le> n \<and> n < 32 \<and> bit w (n - k)" if "k < 24" for k and w :: u8
    using that bit_imp_le_length [of w "n - k"] by (auto simp: bit_push_bit_iff bit_unsigned_iff)
  have off': "bit (ucast (off AND NOT (mask 2)) :: u32) n \<longleftrightarrow> 2 \<le> n \<and> n < 8 \<and> bit off n"
    using bit_imp_le_length [of off n] by (auto simp: bit_unsigned_iff bit_and_iff bit_not_iff bit_mask_iff)
  have l: "bit bus (n - 16) \<Longrightarrow> n < 24" using bit_imp_le_length [of bus "n - 16"] by simp
  have c: "bit (dev AND mask 5) (n - 11) \<longleftrightarrow> bit dev (n - 11) \<and> n - 11 < 5" "bit (func AND mask 3) (n - 8) \<longleftrightarrow> bit func (n - 8) \<and> n - 8 < 3"
    by (auto simp: bit_and_iff bit_mask_iff dest: bit_imp_le_length)
  note P = p [of 16 bus, simplified] p [of 11 "dev AND mask 5", unfolded c(1), simplified] p [of 8 "func AND mask 3", unfolded c(2), simplified]
  consider "n < 8" | "8 \<le> n" "n < 11" | "11 \<le> n" "n < 16" | "16 \<le> n" "n < 24" | "24 \<le> n" "n \<noteq> 31" | "n = 31" by linarith
  then show ?thesis
    unfolding pci_config_addr_def m bit_or_iff e off' P using l by cases auto
qed

lemma bit_exp_mod:
  "n < 8 \<Longrightarrow> bit (pci_config_addr bus dev func off) (n + 16) = bit bus n"
  "n < 5 \<Longrightarrow> bit (pci_config_addr bus dev func off) (n + 11) = bit dev n"
  "n < 3 \<Longrightarrow> bit (pci_config_addr bus dev func off) (n + 8) = bit func n"
  "2 \<le> n \<Longrightarrow> n < 8 \<Longrightarrow> bit (pci_config_addr bus dev func off) n = bit off n"
  by (auto simp: bit_config_addr)

text \<open>Configuration addresses. The address has the enable bit, and its fields are the bus, the five
  low bits of the device, the three low bits of the function and the word the offset lies in; so the
  registers of two different functions never share an address.\<close>

theorem pci_config_addr_correct:
  "bit (pci_config_addr bus dev func off) 31 \<and> pci_config_addr bus dev func off AND 3 = 0 \<and>
   (pci_config_addr bus dev func off = pci_config_addr bus' dev' func' off' \<longleftrightarrow>
     bus = bus' \<and> take_bit 5 dev = take_bit 5 dev' \<and> take_bit 3 func = take_bit 3 func' \<and> drop_bit 2 off = drop_bit 2 off')"
  (is "_ \<and> _ \<and> (?a = ?b \<longleftrightarrow> ?r)")
proof -
  have "?a AND 3 = 0"
  proof (rule bit_eqI)
    fix n assume "possible_bit TYPE(u32) n"
    have m: "(3 :: u32) = mask 2" by (simp add: mask_eq_exp_minus_1)
    show "bit (?a AND 3) n = bit (0 :: u32) n" unfolding m bit_and_iff bit_mask_iff by (auto simp: bit_config_addr)
  qed
  moreover have "?r" if "?a = ?b"
  proof -
    have b: "bit ?a n = bit ?b n" for n using that by simp
    have "bit bus n = bit bus' n" if "n < 8" for n using b [of "n + 16"] bit_exp_mod(1) that by simp
    then have "bus = bus'" by (intro bit_eqI) simp
    moreover have "bit dev n = bit dev' n" if "n < 5" for n using b [of "n + 11"] bit_exp_mod(2) that by simp
    then have "take_bit 5 dev = take_bit 5 dev'" by (intro bit_eqI) (auto simp: bit_take_bit_iff)
    moreover have "bit func n = bit func' n" if "n < 3" for n using b [of "n + 8"] bit_exp_mod(3) that by simp
    then have "take_bit 3 func = take_bit 3 func'" by (intro bit_eqI) (auto simp: bit_take_bit_iff)
    moreover have "drop_bit 2 off = drop_bit 2 off'"
    proof (rule bit_eqI)
      fix n assume "possible_bit TYPE(u8) n"
      show "bit (drop_bit 2 off) n = bit (drop_bit 2 off') n"
        using b [of "2 + n"] bit_exp_mod(4) [of "2 + n"] by (cases "2 + n < 8") (auto simp: bit_simps dest: bit_imp_le_length)
    qed
    ultimately show ?thesis by blast
  qed
  moreover have "?a = ?b" if ?r
  proof -
    have r: "bus = bus'" "take_bit 5 dev = take_bit 5 dev'" "take_bit 3 func = take_bit 3 func'" "drop_bit 2 off = drop_bit 2 off'" using that by simp_all
    have d: "11 \<le> n \<and> n < 16 \<and> bit dev (n - 11) \<longleftrightarrow> 11 \<le> n \<and> n < 16 \<and> bit dev' (n - 11)" for n
      using arg_cong [OF r(2), of "\<lambda>w. bit w (n - 11)"] by (auto simp: bit_take_bit_iff)
    have f: "8 \<le> n \<and> n < 11 \<and> bit func (n - 8) \<longleftrightarrow> 8 \<le> n \<and> n < 11 \<and> bit func' (n - 8)" for n
      using arg_cong [OF r(3), of "\<lambda>w. bit w (n - 8)"] by (auto simp: bit_take_bit_iff)
    have e: "2 \<le> n \<and> n < 8 \<and> bit off n \<longleftrightarrow> 2 \<le> n \<and> n < 8 \<and> bit off' n" for n
    proof (cases "2 \<le> n")
      case True
      then have "2 + (n - 2) = n" by simp
      then show ?thesis using arg_cong [OF r(4), of "\<lambda>w. bit w (n - 2)"] unfolding bit_drop_bit_eq comp_def by metis
    qed simp
    show ?thesis by (rule bit_eqI) (simp only: bit_config_addr r(1) d f e)
  qed
  moreover have "bit ?a 31" unfolding bit_config_addr by simp
  ultimately show ?thesis by blast
qed

subsection \<open>The scan\<close>

text \<open>The functions a scan can see, in its order: a function exists if its vendor is valid, and the
  functions after the first count only if the first exists and says that there are several.\<close>

definition visible :: "pci_config \<Rightarrow> u8 \<Rightarrow> u8 \<Rightarrow> u8 \<Rightarrow> bool" where
  "visible cfg b d f \<longleftrightarrow> \<not> no_function cfg b d f \<and> (f = 0 \<or> \<not> no_function cfg b d 0 \<and> \<not> single_function cfg b d 0)"

definition device_functions :: "pci_config \<Rightarrow> u8 \<Rightarrow> u8 \<Rightarrow> (u8 \<times> u8 \<times> u8) list" where
  "device_functions cfg b d = map (\<lambda>f. (b, d, f)) (filter (visible cfg b d) (map of_nat [0..<8]))"

definition bus_functions :: "pci_config \<Rightarrow> u8 \<Rightarrow> (u8 \<times> u8 \<times> u8) list" where
  "bus_functions cfg b = concat (map (\<lambda>d. device_functions cfg b (of_nat d)) [0..<32])"

definition pci_functions :: "pci_config \<Rightarrow> (u8 \<times> u8 \<times> u8) list" where
  "pci_functions cfg = concat (map (\<lambda>b. bus_functions cfg (of_nat b)) [0..<256])"

definition first_match :: "pci_config \<Rightarrow> u8 \<Rightarrow> u8 \<Rightarrow> u8 \<Rightarrow> (u8 \<times> u8 \<times> u8) list \<Rightarrow> pci_device option" where
  "first_match cfg cls sub pif xs =
     map_option (\<lambda>(b, d, f). fill_device cfg b d f) (find (\<lambda>(b, d, f). class_matches cfg cls sub pif b d f) xs)"

lemma first_match_simps [simp]:
  "first_match cfg cls sub pif [] = None"
  "first_match cfg cls sub pif ((b, d, f) # xs) =
     (if class_matches cfg cls sub pif b d f then Some (fill_device cfg b d f) else first_match cfg cls sub pif xs)"
  by (simp_all add: first_match_def)

lemma first_match_append:
  "first_match cfg cls sub pif (xs @ ys) =
     (case first_match cfg cls sub pif xs of Some x \<Rightarrow> Some x | None \<Rightarrow> first_match cfg cls sub pif ys)"
  by (induction xs) auto

text \<open>Past function 0 the loop has no break.\<close>

lemma later_functions:
  assumes "\<forall>f \<in> set fs. (of_nat f :: u8) \<noteq> 0"
  shows "find_func cfg cls sub pif b d fs =
      first_match cfg cls sub pif (map (\<lambda>f. (b, d, f)) (filter (\<lambda>f. \<not> no_function cfg b d f) (map of_nat fs)))"
    "func_lines cfg b d fs = map (enum_line cfg b d) (filter (\<lambda>f. \<not> no_function cfg b d f) (map of_nat fs))"
  using assms by (induction fs) (auto simp: Let_def)

lemma upt_8: "[0..<8] = 0 # [1..<8]"
  by (simp add: upt_conv_Cons)

lemma later_nonzero: "\<forall>f \<in> set [1..<8]. (of_nat f :: u8) \<noteq> 0"
  by (simp add: upt_conv_Cons)

lemma device_functions_later:
  "filter (visible cfg b d) (map of_nat [1..<8]) =
     (if no_function cfg b d 0 \<or> single_function cfg b d 0 then [] else filter (\<lambda>f. \<not> no_function cfg b d f) (map of_nat [1..<8]))"
proof -
  have "visible cfg b d f \<longleftrightarrow> \<not> no_function cfg b d f \<and> \<not> no_function cfg b d 0 \<and> \<not> single_function cfg b d 0"
    if "f \<in> set (map of_nat [1..<8])" for f using that later_nonzero by (auto simp: visible_def)
  then have "filter (visible cfg b d) (map of_nat [1..<8]) =
      filter (\<lambda>f. \<not> no_function cfg b d f \<and> \<not> no_function cfg b d 0 \<and> \<not> single_function cfg b d 0) (map of_nat [1..<8])"
    by (rule filter_cong [OF refl])
  then show ?thesis by simp
qed

lemma device_scan:
  "find_func cfg cls sub pif b d [0..<8] = first_match cfg cls sub pif (device_functions cfg b d)"
  "func_lines cfg b d [0..<8] = map (\<lambda>(b, d, f). enum_line cfg b d f) (device_functions cfg b d)"
  unfolding upt_8 device_functions_def list.map filter.simps device_functions_later find_func.simps func_lines.simps
  using later_functions(1) [OF later_nonzero, of cfg cls sub pif b d] later_functions(2) [OF later_nonzero, of cfg b d]
  by (simp_all only: Let_def of_nat_0) (auto simp: visible_def comp_def)

lemma find_dev_scan: "find_dev cfg cls sub pif b ds = first_match cfg cls sub pif (concat (map (\<lambda>d. device_functions cfg b (of_nat d)) ds))"
  by (induction ds) (simp_all add: device_scan(1) first_match_append split: option.split)

lemma find_bus_scan: "find_bus cfg cls sub pif bs = first_match cfg cls sub pif (concat (map (\<lambda>b. bus_functions cfg (of_nat b)) bs))"
  by (induction bs) (simp_all add: find_dev_scan bus_functions_def first_match_append split: option.split)

text \<open>C37: the scan. Searching for a class returns the first visible function, in the order of bus, device
  and function, whose class codes are the ones asked for, with its registers, or reports that there is
  none; the enumeration lists exactly the visible functions and counts them.\<close>

theorem pci_scan_correct:
  "pci_find_device cfg cls sub pif =
     (case find (\<lambda>(b, d, f). class_matches cfg cls sub pif b d f) (pci_functions cfg) of
        None \<Rightarrow> (None, - ENOENT)
      | Some (b, d, f) \<Rightarrow> (Some (fill_device cfg b d f), 0)) \<and>
   fst (pci_enumerate cfg) = map (\<lambda>(b, d, f). enum_line cfg b d f) (pci_functions cfg) \<and>
   unat (snd (pci_enumerate cfg)) = length (pci_functions cfg)"
proof -
  have f: "find_bus cfg cls sub pif [0..<256] = first_match cfg cls sub pif (pci_functions cfg)"
    unfolding find_bus_scan pci_functions_def ..
  have e: "fst (pci_enumerate cfg) = map (\<lambda>(b, d, f). enum_line cfg b d f) (pci_functions cfg)"
    unfolding pci_enumerate_lines pci_functions_def bus_functions_def device_scan(2) by (simp only: Let_def fst_conv map_concat map_map comp_def)
  have d: "length (device_functions cfg b d) \<le> 8" for b d
    unfolding device_functions_def using length_filter_le [of "visible cfg b d" "map of_nat [0..<8]"] by simp
  have "length (bus_functions cfg b) \<le> 256" for b
  proof -
    have "length (bus_functions cfg b) = (\<Sum>x \<leftarrow> [0..<32]. length (device_functions cfg b (of_nat x)))"
      unfolding bus_functions_def length_concat map_map comp_def ..
    also have "\<dots> \<le> (\<Sum>x \<leftarrow> [0..<32]. 8)" by (rule sum_list_mono) (rule d)
    finally show ?thesis by (simp add: sum_list_triv)
  qed
  then have "(\<Sum>x \<leftarrow> [0..<256]. length (bus_functions cfg (of_nat x))) \<le> (\<Sum>x \<leftarrow> [0..<256]. 256)" by (intro sum_list_mono) simp
  then have l: "length (pci_functions cfg) \<le> 65536" unfolding pci_functions_def length_concat map_map comp_def by (simp add: sum_list_triv)
  have "snd (pci_enumerate cfg) = of_nat (length (fst (pci_enumerate cfg)))" by (simp only: pci_enumerate_lines Let_def fst_conv snd_conv)
  then have "unat (snd (pci_enumerate cfg)) = length (pci_functions cfg)" unfolding e using l by (simp add: unat_of_nat take_bit_nat_eq_self)
  then show ?thesis unfolding pci_find_device_def f first_match_def using e by (auto split: option.split)
qed

end
