(* ===== verification/Lapic.thy ===== *)
theory Lapic
  imports Prelude
begin

text \<open>
  The local interrupt controller of \<open>kernel/lapic.c\<close> and \<open>kernel/lapic.h\<close>.

  What the hardware answers is a parameter: \<open>hw k reg\<close> is the value of the \<open>k\<close>-th register read and
  \<open>p61 k\<close> the byte of the \<open>k\<close>-th read of port 0x61. The registers that the driver writes are the log of
  its writes. The wait for the command register to become idle has fuel and is \<open>None\<close> when the hardware
  stays busy for that many reads; a division by zero is \<open>Inl Fault\<close>.
\<close>

definition LAPIC_BASE_PHYS :: u64 where "LAPIC_BASE_PHYS = 0xFEE00000"
definition LAPIC_REG_ID :: u32 where "LAPIC_REG_ID = 0x020"
definition LAPIC_REG_TPR :: u32 where "LAPIC_REG_TPR = 0x080"
definition LAPIC_REG_EOI :: u32 where "LAPIC_REG_EOI = 0x0B0"
definition LAPIC_REG_LDR :: u32 where "LAPIC_REG_LDR = 0x0D0"
definition LAPIC_REG_DFR :: u32 where "LAPIC_REG_DFR = 0x0E0"
definition LAPIC_REG_SVR :: u32 where "LAPIC_REG_SVR = 0x0F0"
definition LAPIC_REG_VERSION :: u32 where "LAPIC_REG_VERSION = 0x030"
definition LAPIC_REG_ESR :: u32 where "LAPIC_REG_ESR = 0x280"
definition LAPIC_REG_ICR_LOW :: u32 where "LAPIC_REG_ICR_LOW = 0x300"
definition LAPIC_REG_ICR_HIGH :: u32 where "LAPIC_REG_ICR_HIGH = 0x310"
definition LAPIC_REG_TIMER_LVT :: u32 where "LAPIC_REG_TIMER_LVT = 0x320"
definition LAPIC_REG_THERMAL_LVT :: u32 where "LAPIC_REG_THERMAL_LVT = 0x330"
definition LAPIC_REG_PERFCNT_LVT :: u32 where "LAPIC_REG_PERFCNT_LVT = 0x340"
definition LAPIC_REG_LINT0_LVT :: u32 where "LAPIC_REG_LINT0_LVT = 0x350"
definition LAPIC_REG_LINT1_LVT :: u32 where "LAPIC_REG_LINT1_LVT = 0x360"
definition LAPIC_REG_ERROR_LVT :: u32 where "LAPIC_REG_ERROR_LVT = 0x370"
definition LAPIC_REG_TIMER_ICR :: u32 where "LAPIC_REG_TIMER_ICR = 0x380"
definition LAPIC_REG_TIMER_CCR :: u32 where "LAPIC_REG_TIMER_CCR = 0x390"
definition LAPIC_REG_TIMER_DCR :: u32 where "LAPIC_REG_TIMER_DCR = 0x3E0"
definition LAPIC_SVR_ENABLE :: u32 where "LAPIC_SVR_ENABLE = 0x100"
definition LAPIC_ICR_PENDING :: u32 where "LAPIC_ICR_PENDING = 0x1000"
definition LAPIC_ICR_ASSERT :: u32 where "LAPIC_ICR_ASSERT = 0x4000"
definition LAPIC_ICR_DEST_ALL_EX :: u32 where "LAPIC_ICR_DEST_ALL_EX = 0xC0000"
definition LAPIC_TIMER_PERIODIC :: u32 where "LAPIC_TIMER_PERIODIC = 0x20000"
definition LAPIC_TIMER_MASKED :: u32 where "LAPIC_TIMER_MASKED = 0x10000"
definition LAPIC_TIMER_DIV_16 :: u32 where "LAPIC_TIMER_DIV_16 = 0x03"
definition LAPIC_TIMER_VECTOR :: u32 where "LAPIC_TIMER_VECTOR = 0xFD"
definition LAPIC_SPURIOUS_VECTOR :: u32 where "LAPIC_SPURIOUS_VECTOR = 0xFF"

lemmas lapic_regs = LAPIC_REG_ID_def LAPIC_REG_TPR_def LAPIC_REG_EOI_def LAPIC_REG_LDR_def LAPIC_REG_DFR_def LAPIC_REG_SVR_def
  LAPIC_REG_VERSION_def LAPIC_REG_ESR_def LAPIC_REG_ICR_LOW_def LAPIC_REG_ICR_HIGH_def LAPIC_REG_TIMER_LVT_def
  LAPIC_REG_THERMAL_LVT_def LAPIC_REG_PERFCNT_LVT_def LAPIC_REG_LINT0_LVT_def LAPIC_REG_LINT1_LVT_def LAPIC_REG_ERROR_LVT_def
  LAPIC_REG_TIMER_ICR_def LAPIC_REG_TIMER_CCR_def LAPIC_REG_TIMER_DCR_def

type_synonym lapic_hw = "nat \<Rightarrow> u32 \<Rightarrow> u32"

record lapic =
  lapic_enabled :: bool
  lapic_ticks_per_sec :: u32
  lapic_timer_freq :: u32
  lapic_timer_ticks :: u64
  reg_writes :: "(u32 \<times> u32) list"
  reg_reads :: nat
  lapic_ports :: "(u16 \<times> u8) list"
  port_reads :: nat
  apic_base_msr :: "u32 \<times> u32"

definition lapic_read :: "lapic_hw \<Rightarrow> u32 \<Rightarrow> lapic \<Rightarrow> u32 \<times> lapic" where
  "lapic_read hw reg s = (hw (reg_reads s) reg, s\<lparr>reg_reads := reg_reads s + 1\<rparr>)"

definition lapic_write :: "u32 \<Rightarrow> u32 \<Rightarrow> lapic \<Rightarrow> lapic" where
  "lapic_write reg v s = s\<lparr>reg_writes := reg_writes s @ [(reg, v)]\<rparr>"

definition lapic_get_id :: "lapic_hw \<Rightarrow> lapic \<Rightarrow> u32 \<times> lapic" where
  "lapic_get_id hw s = (case lapic_read hw LAPIC_REG_ID s of (v, s1) \<Rightarrow> (drop_bit 24 v AND 0xFF, s1))"

definition lapic_is_enabled :: "lapic \<Rightarrow> bool" where
  "lapic_is_enabled s = lapic_enabled s"

definition lapic_eoi :: "lapic \<Rightarrow> lapic" where
  "lapic_eoi s = lapic_write LAPIC_REG_EOI 0 s"

subsection \<open>Interrupts between processors\<close>

fun lapic_wait_icr_idle :: "nat \<Rightarrow> lapic_hw \<Rightarrow> lapic \<Rightarrow> lapic option" where
  "lapic_wait_icr_idle 0 hw s = None"
| "lapic_wait_icr_idle (Suc fuel) hw s =
     (case lapic_read hw LAPIC_REG_ICR_LOW s of (v, s1) \<Rightarrow>
        if v AND LAPIC_ICR_PENDING \<noteq> 0 then lapic_wait_icr_idle fuel hw s1 else Some s1)"

definition lapic_send_ipi :: "nat \<Rightarrow> lapic_hw \<Rightarrow> u8 \<Rightarrow> u8 \<Rightarrow> lapic \<Rightarrow> lapic option" where
  "lapic_send_ipi fuel hw target_apic_id vector s =
     (case lapic_wait_icr_idle fuel hw s of
        None \<Rightarrow> None
      | Some s1 \<Rightarrow>
          let s2 = lapic_write LAPIC_REG_ICR_HIGH (push_bit 24 (ucast target_apic_id)) s1
          in Some (lapic_write LAPIC_REG_ICR_LOW (ucast vector OR LAPIC_ICR_ASSERT) s2))"

definition lapic_send_ipi_all :: "nat \<Rightarrow> lapic_hw \<Rightarrow> u8 \<Rightarrow> lapic \<Rightarrow> lapic option" where
  "lapic_send_ipi_all fuel hw vector s =
     (case lapic_wait_icr_idle fuel hw s of
        None \<Rightarrow> None
      | Some s1 \<Rightarrow>
          let s2 = lapic_write LAPIC_REG_ICR_HIGH 0 s1
          in Some (lapic_write LAPIC_REG_ICR_LOW (ucast vector OR LAPIC_ICR_ASSERT OR LAPIC_ICR_DEST_ALL_EX) s2))"

subsection \<open>Calibration\<close>

definition CALIBRATION_PIT_TICKS :: u16 where "CALIBRATION_PIT_TICKS = 11932"
definition PIT_TIMEOUT :: nat where "PIT_TIMEOUT = 0xFFFFFF"

definition lapic_outb :: "u16 \<Rightarrow> u8 \<Rightarrow> lapic \<Rightarrow> lapic" where
  "lapic_outb port v s = s\<lparr>lapic_ports := lapic_ports s @ [(port, v)]\<rparr>"

definition lapic_inb :: "(nat \<Rightarrow> u8) \<Rightarrow> lapic \<Rightarrow> u8 \<times> lapic" where
  "lapic_inb p61 s = (p61 (port_reads s), s\<lparr>port_reads := port_reads s + 1\<rparr>)"

text \<open>The wait for the second timer channel: the time left, 0 when it ran out.\<close>

fun pit_wait :: "(nat \<Rightarrow> u8) \<Rightarrow> nat \<Rightarrow> lapic \<Rightarrow> nat \<times> lapic" where
  "pit_wait p61 0 s = (0, s)"
| "pit_wait p61 (Suc timeout) s =
     (case lapic_inb p61 s of (v, s1) \<Rightarrow>
        if v AND 0x20 \<noteq> 0 then (Suc timeout, s1) else if 0 < timeout then pit_wait p61 timeout s1 else (0, s1))"

definition lapic_calibrate_timer :: "lapic_hw \<Rightarrow> (nat \<Rightarrow> u8) \<Rightarrow> lapic \<Rightarrow> u32 \<times> lapic" where
  "lapic_calibrate_timer hw p61 s =
     (let s1 = lapic_write LAPIC_REG_TIMER_LVT LAPIC_TIMER_MASKED (lapic_write LAPIC_REG_TIMER_DCR LAPIC_TIMER_DIV_16 s) in
      case lapic_inb p61 s1 of (g1, s2) \<Rightarrow>
      let s3 = lapic_outb 0x61 ((g1 AND 0xFD) OR 0x01) s2;
          s4 = lapic_outb 0x42 (ucast (drop_bit 8 CALIBRATION_PIT_TICKS)) (lapic_outb 0x42 (ucast CALIBRATION_PIT_TICKS) (lapic_outb 0x43 0xB0 s3))
      in case lapic_inb p61 s4 of (g2, s5) \<Rightarrow>
      let s6 = lapic_outb 0x61 (g2 OR 0x01) (lapic_outb 0x61 (g2 AND 0xFE) s5);
          s7 = lapic_write LAPIC_REG_TIMER_ICR 0xFFFFFFFF s6
      in case pit_wait p61 PIT_TIMEOUT s7 of (pit_timeout, s8) \<Rightarrow>
         case lapic_read hw LAPIC_REG_TIMER_CCR s8 of (remaining, s9) \<Rightarrow>
           let elapsed = (if pit_timeout = 0 then 100000 else 0xFFFFFFFF - remaining)
           in (elapsed * 100, lapic_write LAPIC_REG_TIMER_LVT LAPIC_TIMER_MASKED s9))"

subsection \<open>Initialisation and the timer\<close>

text \<open>The machine register that enables the controller: set the enable bit if it is clear.\<close>

definition lapic_check_msr :: "lapic \<Rightarrow> lapic" where
  "lapic_check_msr s = (case apic_base_msr s of (lo, hi) \<Rightarrow> if bit lo 11 then s else s\<lparr>apic_base_msr := (set_bit 11 lo, hi)\<rparr>)"

definition lapic_init :: "lapic_hw \<Rightarrow> (nat \<Rightarrow> u8) \<Rightarrow> lapic \<Rightarrow> lapic" where
  "lapic_init hw p61 s =
     (let s0 = snd (lapic_read hw LAPIC_REG_VERSION (lapic_check_msr s));
          s1 = lapic_write LAPIC_REG_DFR 0xFFFFFFFF (lapic_write LAPIC_REG_TPR 0 s0)
      in case lapic_get_id hw s1 of (i, s2) \<Rightarrow>
      let ldr_bit = (if i < 8 then push_bit (unat i) 1 else 1);
          s3 = lapic_write LAPIC_REG_LDR (push_bit 24 ldr_bit) s2;
          s4 = lapic_write LAPIC_REG_SVR (LAPIC_SVR_ENABLE OR LAPIC_SPURIOUS_VECTOR) s3;
          s5 = lapic_write LAPIC_REG_ESR 0 (lapic_write LAPIC_REG_ESR 0 s4);
          s6 = fold (\<lambda>r. lapic_write r LAPIC_TIMER_MASKED) [LAPIC_REG_THERMAL_LVT, LAPIC_REG_PERFCNT_LVT, LAPIC_REG_LINT0_LVT,
                 LAPIC_REG_LINT1_LVT, LAPIC_REG_ERROR_LVT, LAPIC_REG_TIMER_LVT] s5;
          s7 = lapic_eoi s6
      in case lapic_calibrate_timer hw p61 s7 of (t, s8) \<Rightarrow>
         snd (lapic_get_id hw (s8\<lparr>lapic_ticks_per_sec := t, lapic_enabled := True\<rparr>)))"

definition lapic_timer_init :: "u32 \<Rightarrow> lapic \<Rightarrow> lapic res" where
  "lapic_timer_init frequency s =
     (if \<not> lapic_enabled s then Inr s
      else if lapic_ticks_per_sec s = 0 then Inr s
      else if frequency = 0 then Inl Fault
      else let initial_count = lapic_ticks_per_sec s div frequency in
        if initial_count = 0 then Inr s
        else Inr (lapic_write LAPIC_REG_TIMER_ICR initial_count
               (lapic_write LAPIC_REG_TIMER_LVT (LAPIC_TIMER_VECTOR OR LAPIC_TIMER_PERIODIC)
               (lapic_write LAPIC_REG_TIMER_DCR LAPIC_TIMER_DIV_16 (s\<lparr>lapic_timer_freq := frequency\<rparr>)))))"

definition lapic_timer_stop :: "lapic \<Rightarrow> lapic" where
  "lapic_timer_stop s = lapic_write LAPIC_REG_TIMER_ICR 0 (lapic_write LAPIC_REG_TIMER_LVT LAPIC_TIMER_MASKED s)"

definition lapic_timer_handler_c :: "lapic \<Rightarrow> lapic" where
  "lapic_timer_handler_c s = lapic_eoi (s\<lparr>lapic_timer_ticks := lapic_timer_ticks s + 1\<rparr>)"

definition lapic_timer_get_ticks :: "lapic \<Rightarrow> u64" where
  "lapic_timer_get_ticks s = lapic_timer_ticks s"

subsection \<open>Register contents\<close>

text \<open>The value last written to a register.\<close>

definition written :: "lapic \<Rightarrow> u32 \<Rightarrow> u32 option" where
  "written s r = map_of (rev (reg_writes s)) r"

lemma written_write [simp]: "written (lapic_write r v s) q = (if q = r then Some v else written s q)"
  by (simp add: written_def lapic_write_def)

lemma written_upd [simp]:
  "written (s\<lparr>lapic_ports := x\<rparr>) = written s" "written (s\<lparr>port_reads := n\<rparr>) = written s" "written (s\<lparr>reg_reads := n\<rparr>) = written s"
  "written (s\<lparr>lapic_ticks_per_sec := t, lapic_enabled := b\<rparr>) = written s" "written (s\<lparr>apic_base_msr := m\<rparr>) = written s"
  "written (s\<lparr>lapic_timer_freq := f\<rparr>) = written s" "written (lapic_outb p v s) = written s"
  by (simp_all add: written_def lapic_outb_def fun_eq_iff)

lemma pit_wait_spec:
  "\<exists>n. snd (pit_wait p61 (Suc t) s) = s\<lparr>port_reads := n\<rparr> \<and>
    (fst (pit_wait p61 (Suc t) s) = 0 \<longleftrightarrow> (\<forall>i < Suc t. p61 (port_reads s + i) AND 0x20 = 0))"
proof (induction t arbitrary: s)
  case 0
  show ?case by (auto simp: lapic_inb_def)
next
  case (Suc t)
  let ?s = "s\<lparr>port_reads := port_reads s + 1\<rparr>"
  obtain n where n: "snd (pit_wait p61 (Suc t) ?s) = ?s\<lparr>port_reads := n\<rparr>"
    "fst (pit_wait p61 (Suc t) ?s) = 0 \<longleftrightarrow> (\<forall>i < Suc t. p61 (port_reads ?s + i) AND 0x20 = 0)" using Suc.IH by blast
  have all: "(\<forall>i < Suc (Suc t). p61 (port_reads s + i) AND 0x20 = 0) \<longleftrightarrow>
      p61 (port_reads s) AND 0x20 = 0 \<and> (\<forall>i < Suc t. p61 (port_reads ?s + i) AND 0x20 = 0)"
    unfolding All_less_Suc2 [of "Suc t"] by simp
  show ?case
  proof (cases "p61 (port_reads s) AND 0x20 = 0")
    case True
    then have "pit_wait p61 (Suc (Suc t)) s = pit_wait p61 (Suc t) ?s" by (subst pit_wait.simps(2)) (simp add: lapic_inb_def)
    then show ?thesis using n all True by auto
  next
    case False
    then have "pit_wait p61 (Suc (Suc t)) s = (Suc (Suc t), ?s)" by (simp add: lapic_inb_def)
    then show ?thesis unfolding all using False by (intro exI [of _ "port_reads s + 1"]) simp
  qed
qed

lemma wait_idle_spec:
  assumes "hw (reg_reads s + k) LAPIC_REG_ICR_LOW AND LAPIC_ICR_PENDING = 0" "k < fuel"
  shows "\<exists>n. lapic_wait_icr_idle fuel hw s = Some (s\<lparr>reg_reads := n\<rparr>)"
  using assms
proof (induction fuel arbitrary: s k)
  case (Suc fuel)
  show ?case
  proof (cases "hw (reg_reads s) LAPIC_REG_ICR_LOW AND LAPIC_ICR_PENDING = 0")
    case False
    then obtain j where j: "k = Suc j" using Suc.prems(1) by (cases k) auto
    let ?s = "s\<lparr>reg_reads := reg_reads s + 1\<rparr>"
    have "hw (reg_reads ?s + j) LAPIC_REG_ICR_LOW AND LAPIC_ICR_PENDING = 0" "j < fuel" using Suc.prems j by simp_all
    then show ?thesis using Suc.IH [of ?s j] False by (auto simp: lapic_read_def)
  qed (auto simp: lapic_read_def)
qed simp

text \<open>The second timer channel reports its end before the timeout.\<close>

definition pit_answers :: "(nat \<Rightarrow> u8) \<Rightarrow> lapic \<Rightarrow> bool" where
  "pit_answers p61 s \<longleftrightarrow> (\<exists>i < PIT_TIMEOUT. p61 (port_reads s + 2 + i) AND 0x20 \<noteq> 0)"

lemma calibrate_spec:
  obtains s1 where "lapic_calibrate_timer hw p61 s =
      ((if pit_answers p61 s then 0xFFFFFFFF - hw (reg_reads s) LAPIC_REG_TIMER_CCR else 100000) * 100, s1)"
    "written s1 = (written s)(LAPIC_REG_TIMER_DCR \<mapsto> LAPIC_TIMER_DIV_16, LAPIC_REG_TIMER_ICR \<mapsto> 0xFFFFFFFF, LAPIC_REG_TIMER_LVT \<mapsto> LAPIC_TIMER_MASKED)"
proof -
  define g1 where "g1 = p61 (port_reads s)"
  define g2 where "g2 = p61 (port_reads s + 1)"
  define s7 where "s7 = lapic_write LAPIC_REG_TIMER_ICR 0xFFFFFFFF
    (lapic_outb 0x61 (g2 OR 0x01) (lapic_outb 0x61 (g2 AND 0xFE)
     ((lapic_outb 0x42 (ucast (drop_bit 8 CALIBRATION_PIT_TICKS)) (lapic_outb 0x42 (ucast CALIBRATION_PIT_TICKS) (lapic_outb 0x43 0xB0
       (lapic_outb 0x61 ((g1 AND 0xFD) OR 0x01)
         ((lapic_write LAPIC_REG_TIMER_LVT LAPIC_TIMER_MASKED (lapic_write LAPIC_REG_TIMER_DCR LAPIC_TIMER_DIV_16 s))\<lparr>port_reads := port_reads s + 1\<rparr>)))))
      \<lparr>port_reads := port_reads s + 2\<rparr>)))"
  have f: "port_reads s7 = port_reads s + 2" "reg_reads s7 = reg_reads s"
    "written s7 = (written s)(LAPIC_REG_TIMER_DCR \<mapsto> LAPIC_TIMER_DIV_16, LAPIC_REG_TIMER_LVT \<mapsto> LAPIC_TIMER_MASKED, LAPIC_REG_TIMER_ICR \<mapsto> 0xFFFFFFFF)"
    by (simp_all add: s7_def fun_eq_iff) (simp_all add: lapic_write_def lapic_outb_def)
  have "PIT_TIMEOUT = Suc 0xFFFFFE" by (simp add: PIT_TIMEOUT_def)
  then obtain n where n: "snd (pit_wait p61 PIT_TIMEOUT s7) = s7\<lparr>port_reads := n\<rparr>"
    "fst (pit_wait p61 PIT_TIMEOUT s7) = 0 \<longleftrightarrow> \<not> pit_answers p61 s"
    using pit_wait_spec [of p61 "0xFFFFFE" s7] f(1) unfolding pit_answers_def by metis
  have e: "lapic_calibrate_timer hw p61 s = (case pit_wait p61 PIT_TIMEOUT s7 of (pit_timeout, s8) \<Rightarrow>
      case lapic_read hw LAPIC_REG_TIMER_CCR s8 of (remaining, s9) \<Rightarrow>
        let elapsed = (if pit_timeout = 0 then 100000 else 0xFFFFFFFF - remaining)
        in (elapsed * 100, lapic_write LAPIC_REG_TIMER_LVT LAPIC_TIMER_MASKED s9))"
    unfolding lapic_calibrate_timer_def Let_def lapic_inb_def prod.case s7_def g1_def g2_def
    by (simp add: lapic_write_def lapic_outb_def)
  obtain to where to: "pit_wait p61 PIT_TIMEOUT s7 = (to, s7\<lparr>port_reads := n\<rparr>)" "to = 0 \<longleftrightarrow> \<not> pit_answers p61 s" using n by (cases "pit_wait p61 PIT_TIMEOUT s7") auto
  let ?s1 = "lapic_write LAPIC_REG_TIMER_LVT LAPIC_TIMER_MASKED (s7\<lparr>port_reads := n, reg_reads := reg_reads s7 + 1\<rparr>)"
  have "lapic_calibrate_timer hw p61 s = ((if pit_answers p61 s then 0xFFFFFFFF - hw (reg_reads s) LAPIC_REG_TIMER_CCR else 100000) * 100, ?s1)"
    unfolding e to(1) prod.case lapic_read_def Let_def to(2) by (simp add: f(2))
  moreover have "written ?s1 = (written s)(LAPIC_REG_TIMER_DCR \<mapsto> LAPIC_TIMER_DIV_16, LAPIC_REG_TIMER_ICR \<mapsto> 0xFFFFFFFF, LAPIC_REG_TIMER_LVT \<mapsto> LAPIC_TIMER_MASKED)"
    using f(3) by (auto simp: fun_eq_iff lapic_regs)
  ultimately show thesis by (rule that)
qed

text \<open>Interrupts between processors. If the hardware becomes idle within the reads allowed, both
  functions write the destination before the command, the command carries the vector with fixed
  delivery, and its destination is the processor named or, for the broadcast, all others.\<close>

theorem lapic_send_ipi_correct:
  assumes "hw (reg_reads s + k) LAPIC_REG_ICR_LOW AND LAPIC_ICR_PENDING = 0" "k < fuel"
  shows "\<exists>s1 s2. lapic_send_ipi fuel hw i v s = Some s1 \<and> lapic_send_ipi_all fuel hw v s = Some s2 \<and>
    (\<exists>hi lo. reg_writes s1 = reg_writes s @ [(LAPIC_REG_ICR_HIGH, hi), (LAPIC_REG_ICR_LOW, lo)] \<and>
       drop_bit 24 hi = ucast i \<and> take_bit 8 lo = ucast v \<and> drop_bit 8 lo AND 7 = 0 \<and> drop_bit 18 lo AND 3 = 0) \<and>
    (\<exists>hi lo. reg_writes s2 = reg_writes s @ [(LAPIC_REG_ICR_HIGH, hi), (LAPIC_REG_ICR_LOW, lo)] \<and>
       take_bit 8 lo = ucast v \<and> drop_bit 8 lo AND 7 = 0 \<and> drop_bit 18 lo AND 3 = 3)"
proof -
  obtain n where n: "lapic_wait_icr_idle fuel hw s = Some (s\<lparr>reg_reads := n\<rparr>)" using wait_idle_spec [of hw s, OF assms] by blast
  let ?lo = "ucast v OR LAPIC_ICR_ASSERT" and ?la = "ucast v OR LAPIC_ICR_ASSERT OR LAPIC_ICR_DEST_ALL_EX"
  have d: "drop_bit 24 (push_bit 24 (ucast i :: u32)) = ucast i"
    by (rule bit_eqI) (auto simp: bit_simps dest: bit_imp_le_length)
  have v: "take_bit 8 (ucast v :: u32) = ucast v" "drop_bit 8 (ucast v :: u32) = 0" "drop_bit 18 (ucast v :: u32) = 0"
    by (rule bit_eqI; auto simp: bit_simps dest: bit_imp_le_length)+
  have b: "take_bit 8 ?lo = ucast v" "drop_bit 8 ?lo AND 7 = 0" "drop_bit 18 ?lo AND 3 = 0"
    "take_bit 8 ?la = ucast v" "drop_bit 8 ?la AND 7 = 0" "drop_bit 18 ?la AND 3 = 3"
    by (simp_all add: LAPIC_ICR_ASSERT_def LAPIC_ICR_DEST_ALL_EX_def v drop_bit_or take_bit_or)
  show ?thesis
    unfolding lapic_send_ipi_def lapic_send_ipi_all_def n option.case Let_def using d b by (simp add: lapic_write_def)
qed

theorem lapic_send_ipi_correct_witness:
  "\<exists>s2. lapic_send_ipi_all 3 (\<lambda>n r. if n < 2 then 0x1000 else 0) 0xFE
     \<lparr>lapic_enabled = True, lapic_ticks_per_sec = 0, lapic_timer_freq = 0, lapic_timer_ticks = 0, reg_writes = [], reg_reads = 0,
      lapic_ports = [], port_reads = 0, apic_base_msr = (0, 0)\<rparr> = Some s2"
  using lapic_send_ipi_correct [of "\<lambda>n r. if n < 2 then 0x1000 else 0" "\<lparr>lapic_enabled = True, lapic_ticks_per_sec = 0,
      lapic_timer_freq = 0, lapic_timer_ticks = 0, reg_writes = [], reg_reads = 0, lapic_ports = [], port_reads = 0, apic_base_msr = (0, 0)\<rparr>"
      2 3 0 "0xFE"] by (simp add: LAPIC_ICR_PENDING_def) blast

lemma written_fold: "written (fold (\<lambda>r. lapic_write r v) rs s) q = (if q \<in> set rs then Some v else written s q)"
  by (induction rs arbitrary: s) auto

lemma write_counts [simp]:
  "port_reads (lapic_write r v s) = port_reads s" "reg_reads (lapic_write r v s) = reg_reads s"
  "lapic_enabled (lapic_write r v s) = lapic_enabled s" "lapic_ticks_per_sec (lapic_write r v s) = lapic_ticks_per_sec s"
  by (simp_all add: lapic_write_def)

definition lvt_registers :: "u32 list" where
  "lvt_registers = [LAPIC_REG_THERMAL_LVT, LAPIC_REG_PERFCNT_LVT, LAPIC_REG_LINT0_LVT, LAPIC_REG_LINT1_LVT, LAPIC_REG_ERROR_LVT, LAPIC_REG_TIMER_LVT]"

lemma lapic_init_spec:
  obtains s' where "lapic_init hw p61 s = s'" "lapic_enabled s'"
    "lapic_ticks_per_sec s' = (if pit_answers p61 s then 0xFFFFFFFF - hw (reg_reads s + 2) LAPIC_REG_TIMER_CCR else 100000) * 100"
    "written s' LAPIC_REG_SVR = Some 0x1FF" "written s' LAPIC_REG_TPR = Some 0" "\<forall>r \<in> set lvt_registers. written s' r = Some LAPIC_TIMER_MASKED"
proof -
  let ?s0 = "snd (lapic_read hw LAPIC_REG_VERSION (lapic_check_msr s))"
  have c0: "port_reads ?s0 = port_reads s" "reg_reads ?s0 = reg_reads s + 1"
    by (simp_all add: lapic_read_def lapic_check_msr_def split: prod.split)
  define s2 where "s2 = snd (lapic_get_id hw (lapic_write LAPIC_REG_DFR 0xFFFFFFFF (lapic_write LAPIC_REG_TPR 0 ?s0)))"
  define i where "i = fst (lapic_get_id hw (lapic_write LAPIC_REG_DFR 0xFFFFFFFF (lapic_write LAPIC_REG_TPR 0 ?s0)))"
  have c2: "port_reads s2 = port_reads s" "reg_reads s2 = reg_reads s + 2" "written s2 LAPIC_REG_TPR = Some 0"
    using c0 by (simp_all add: s2_def lapic_get_id_def lapic_read_def) (simp add: lapic_regs)
  define s6 where "s6 = fold (\<lambda>r. lapic_write r LAPIC_TIMER_MASKED) lvt_registers
    (lapic_write LAPIC_REG_ESR 0 (lapic_write LAPIC_REG_ESR 0 (lapic_write LAPIC_REG_SVR (LAPIC_SVR_ENABLE OR LAPIC_SPURIOUS_VECTOR)
      (lapic_write LAPIC_REG_LDR (push_bit 24 (if i < 8 then push_bit (unat i) 1 else 1)) s2))))"
  have c6: "port_reads s6 = port_reads s" "reg_reads s6 = reg_reads s + 2" using c2 by (simp_all add: s6_def lvt_registers_def)
  have "set lvt_registers \<inter> {LAPIC_REG_SVR, LAPIC_REG_TPR} = {}" by (simp add: lvt_registers_def lapic_regs)
  then have w6: "written s6 LAPIC_REG_SVR = Some 0x1FF" "written s6 LAPIC_REG_TPR = Some 0" "\<forall>r \<in> set lvt_registers. written s6 r = Some LAPIC_TIMER_MASKED"
    using c2(3) unfolding s6_def by (auto simp: written_fold LAPIC_SVR_ENABLE_def LAPIC_SPURIOUS_VECTOR_def) (simp_all add: lapic_regs)
  have pa: "pit_answers p61 (lapic_eoi s6) = pit_answers p61 s" using c6 by (simp add: pit_answers_def lapic_eoi_def)
  obtain s8 where s8: "lapic_calibrate_timer hw p61 (lapic_eoi s6) =
      ((if pit_answers p61 (lapic_eoi s6) then 0xFFFFFFFF - hw (reg_reads (lapic_eoi s6)) LAPIC_REG_TIMER_CCR else 100000) * 100, s8)"
    "written s8 = (written (lapic_eoi s6))(LAPIC_REG_TIMER_DCR \<mapsto> LAPIC_TIMER_DIV_16, LAPIC_REG_TIMER_ICR \<mapsto> 0xFFFFFFFF, LAPIC_REG_TIMER_LVT \<mapsto> LAPIC_TIMER_MASKED)"
    by (rule calibrate_spec)
  have r8: "reg_reads (lapic_eoi s6) = reg_reads s + 2" using c6 by (simp add: lapic_eoi_def)
  let ?t = "(if pit_answers p61 s then 0xFFFFFFFF - hw (reg_reads s + 2) LAPIC_REG_TIMER_CCR else 100000) * 100"
  let ?s' = "snd (lapic_get_id hw (s8\<lparr>lapic_ticks_per_sec := ?t, lapic_enabled := True\<rparr>))"
  have run: "lapic_init hw p61 s = ?s'"
    unfolding lapic_init_def Let_def case_prod_beta s2_def [symmetric] i_def [symmetric] lvt_registers_def [symmetric] s6_def [symmetric]
    by (simp add: s8(1) pa r8)
  have "written ?s' = written s8" by (simp add: lapic_get_id_def lapic_read_def)
  moreover have "\<forall>r \<in> set lvt_registers. r \<noteq> LAPIC_REG_TIMER_DCR \<and> r \<noteq> LAPIC_REG_TIMER_ICR \<and> r \<noteq> LAPIC_REG_EOI" by (simp add: lvt_registers_def lapic_regs)
  moreover have "{LAPIC_REG_SVR, LAPIC_REG_TPR} \<inter> {LAPIC_REG_TIMER_DCR, LAPIC_REG_TIMER_ICR, LAPIC_REG_TIMER_LVT, LAPIC_REG_EOI} = {}" by (simp add: lapic_regs)
  ultimately have w: "written ?s' LAPIC_REG_SVR = Some 0x1FF" "written ?s' LAPIC_REG_TPR = Some 0" "\<forall>r \<in> set lvt_registers. written ?s' r = Some LAPIC_TIMER_MASKED"
    using w6 s8(2) by (auto simp: lapic_eoi_def)
  show thesis by (rule that [OF run]) (use w in \<open>simp_all add: lapic_get_id_def lapic_read_def\<close>)
qed

text \<open>Setting up the timer. Initialisation always ends: it enables the controller with the spurious
  vector 0xFF, accepts all priorities, leaves every local interrupt masked, and measures the timer
  rate from the count at the end of a 10 ms wait, or assumes ten million ticks per second when the
  reference timer does not answer. Starting the timer at a frequency then unmasks only the timer
  entry, in periodic mode with vector 0xFD, and loads the rate divided by the frequency; a frequency
  above the rate changes nothing.\<close>

theorem lapic_timer_setup_correct:
  fixes hw :: lapic_hw and s :: lapic
  assumes "rate = (if pit_answers p61 s then 0xFFFFFFFF - hw (reg_reads s + 2) LAPIC_REG_TIMER_CCR else 100000) * 100"
  shows "let s1 = lapic_init hw p61 s in lapic_is_enabled s1 \<and> lapic_ticks_per_sec s1 = rate \<and>
    written s1 LAPIC_REG_SVR = Some 0x1FF \<and> written s1 LAPIC_REG_TPR = Some 0 \<and>
    (\<forall>r \<in> set lvt_registers. written s1 r = Some LAPIC_TIMER_MASKED) \<and>
    (\<forall>f. 0 < f \<longrightarrow> (\<exists>s2. lapic_timer_init f s1 = Inr s2 \<and>
       (if unat rate < unat f then s2 = s1
        else written s2 LAPIC_REG_TIMER_LVT = Some 0x200FD \<and> unat (the (written s2 LAPIC_REG_TIMER_ICR)) = unat rate div unat f \<and>
          lapic_timer_freq s2 = f \<and> (\<forall>r \<in> set lvt_registers. r \<noteq> LAPIC_REG_TIMER_LVT \<longrightarrow> written s2 r = Some LAPIC_TIMER_MASKED))))"
proof -
  obtain s1 where s1: "lapic_init hw p61 s = s1" "lapic_enabled s1" "lapic_ticks_per_sec s1 = rate"
    "written s1 LAPIC_REG_SVR = Some 0x1FF" "written s1 LAPIC_REG_TPR = Some 0" "\<forall>r \<in> set lvt_registers. written s1 r = Some LAPIC_TIMER_MASKED"
    using lapic_init_spec [of hw p61 s] assms by metis
  have "\<exists>s2. lapic_timer_init f s1 = Inr s2 \<and>
       (if unat rate < unat f then s2 = s1
        else written s2 LAPIC_REG_TIMER_LVT = Some 0x200FD \<and> unat (the (written s2 LAPIC_REG_TIMER_ICR)) = unat rate div unat f \<and>
          lapic_timer_freq s2 = f \<and> (\<forall>r \<in> set lvt_registers. r \<noteq> LAPIC_REG_TIMER_LVT \<longrightarrow> written s2 r = Some LAPIC_TIMER_MASKED))" if f: "0 < f" for f
  proof -
    have d: "unat (rate div f) = unat rate div unat f" by (simp add: unat_div)
    have "0 < unat f" using f by (simp add: word_less_nat_alt)
    then have z: "rate div f = 0 \<longleftrightarrow> unat rate < unat f" using d by (simp add: word_unat_eq_iff div_eq_0_iff)
    show ?thesis
    proof (cases "unat rate < unat f")
      case True
      moreover have "f \<noteq> 0" using f by auto
      ultimately show ?thesis using s1(2,3) z by (simp add: lapic_timer_init_def Let_def)
    next
      case False
      then have nz: "rate \<noteq> 0" "rate div f \<noteq> 0" "f \<noteq> 0" using z f by auto
      have "\<forall>r \<in> set lvt_registers. r \<noteq> LAPIC_REG_TIMER_DCR \<and> r \<noteq> LAPIC_REG_TIMER_ICR" by (simp add: lvt_registers_def lapic_regs)
      moreover have "LAPIC_REG_TIMER_LVT \<noteq> LAPIC_REG_TIMER_ICR" by (simp add: lapic_regs)
      ultimately show ?thesis
        unfolding lapic_timer_init_def s1(3) Let_def using s1(2,6) nz d False
        by (simp add: LAPIC_TIMER_VECTOR_def LAPIC_TIMER_PERIODIC_def) (simp add: lapic_write_def)
    qed
  qed
  then show ?thesis unfolding Let_def s1(1) lapic_is_enabled_def using s1(2-) by blast
qed

definition off_lapic :: lapic where
  "off_lapic = \<lparr>lapic_enabled = False, lapic_ticks_per_sec = 0, lapic_timer_freq = 0, lapic_timer_ticks = 0, reg_writes = [], reg_reads = 0,
     lapic_ports = [], port_reads = 0, apic_base_msr = (0xFEE00000, 0)\<rparr>"

text \<open>A reference timer that answers at once and a count of 624 in ten milliseconds.\<close>

theorem lapic_timer_setup_correct_witness:
  "\<exists>s2. lapic_timer_init 100 (lapic_init (\<lambda>n r. 0xFFFFFFFF - 624) (\<lambda>n. 0x20) off_lapic) = Inr s2 \<and>
     written s2 LAPIC_REG_TIMER_LVT = Some 0x200FD \<and> unat (the (written s2 LAPIC_REG_TIMER_ICR)) = 624"
proof -
  have a: "pit_answers (\<lambda>n. 0x20) off_lapic" unfolding pit_answers_def PIT_TIMEOUT_def by (intro exI [of _ 0]) simp
  have r: "62400 = (if pit_answers (\<lambda>n. 0x20) off_lapic then 0xFFFFFFFF - (0xFFFFFFFF - 624) else 100000) * (100 :: u32)" using a by simp
  have "(0 :: u32) < 100" "\<not> unat (62400 :: u32) < unat (100 :: u32)" by simp_all
  then show ?thesis using lapic_timer_setup_correct [of 62400 "\<lambda>n. 0x20" off_lapic "\<lambda>n r. 0xFFFFFFFF - 624", OF r, unfolded Let_def] by fastforce
qed

end
