(* ===== verification/Shootdown.thy ===== *)
theory Shootdown
  imports Spinlock Lapic
begin

text \<open>
  The shootdown of translation buffers of \<open>kernel/tlb_shootdown.c\<close>.

  The shared state is the record of the source. The sender holds its lock, with interrupts off, from
  the first store to the end of the wait; the wait is a sequence of polls. Every other processor runs
  the handler in three steps: it reads the address, drops its cached translation of it, and
  acknowledges. The step relation interleaves the polls with the handlers of the other processors. A
  processor's cache is the set of addresses for which it still holds the old translation.
\<close>

definition IPI_TLB_SHOOTDOWN :: u8 where "IPI_TLB_SHOOTDOWN = 0xFE"
definition POLL_LIMIT :: nat where "POLL_LIMIT = 1000000"

record tlb_shootdown_state =
  target_addr :: u64
  pending_cpus :: u32
  ack_count :: u32
  sd_lock :: spinlock

definition tlb_sd_init :: tlb_shootdown_state where
  "tlb_sd_init = \<lparr>target_addr = 0, pending_cpus = 0, ack_count = 0, sd_lock = SPINLOCK_INIT\<rparr>"

text \<open>The number of processors at boot; nothing in the kernel increases it.\<close>

definition active_cpus :: u32 where "active_cpus = 1"

definition tlb_shootdown_cpu_count :: "u32 \<Rightarrow> u32" where
  "tlb_shootdown_cpu_count cpus = cpus"

text \<open>The sender up to the wait. With one processor there is nothing to do. The interrupt is sent only
  if the controller is enabled, and the flag says whether it was.\<close>

definition tlb_publish :: "u32 \<Rightarrow> u64 \<Rightarrow> tlb_shootdown_state \<Rightarrow> tlb_shootdown_state" where
  "tlb_publish cpus virt s = s\<lparr>target_addr := virt, pending_cpus := cpus - 1, ack_count := 0\<rparr>"

definition tlb_shootdown_send :: "nat \<Rightarrow> lapic_hw \<Rightarrow> u32 \<Rightarrow> u64 \<Rightarrow> tlb_shootdown_state \<times> lapic \<Rightarrow> (tlb_shootdown_state \<times> lapic) option res" where
  "tlb_shootdown_send fuel hw cpus virt st =
     (if cpus \<le> 1 then Inr None
      else case st of (s, l) \<Rightarrow>
        bnd (spin_lock (sd_lock s)) (\<lambda>k.
          let s1 = tlb_publish cpus virt (s\<lparr>sd_lock := k\<rparr>) in
          if lapic_is_enabled l then
            (case lapic_send_ipi_all fuel hw IPI_TLB_SHOOTDOWN l of None \<Rightarrow> Inl Deadlock | Some l1 \<Rightarrow> Inr (Some (s1, l1)))
          else Inr (Some (s1, l))))"

text \<open>One pass of the wait with the number of passes so far: go on, or stop, and then whether by timeout.\<close>

datatype poll = Go nat | Stop bool

definition tlb_poll :: "nat \<Rightarrow> tlb_shootdown_state \<Rightarrow> poll" where
  "tlb_poll timeout s =
     (if ack_count s < pending_cpus s then (if POLL_LIMIT < timeout + 1 then Stop True else Go (timeout + 1)) else Stop False)"

definition tlb_shootdown_end :: "tlb_shootdown_state \<Rightarrow> tlb_shootdown_state" where
  "tlb_shootdown_end s = s\<lparr>sd_lock := spin_unlock (sd_lock s)\<rparr>"

text \<open>The handler of the other processors.\<close>

definition ipi_read :: "tlb_shootdown_state \<Rightarrow> u64" where
  "ipi_read s = target_addr s"

definition ipi_ack :: "tlb_shootdown_state \<Rightarrow> tlb_shootdown_state" where
  "ipi_ack s = s\<lparr>ack_count := ack_count s + 1\<rparr>"

text \<open>The whole handler on a processor that is not interrupted by other steps: the shared state, the
  cache and the controller of that processor.\<close>

definition tlb_shootdown_ipi_handler :: "tlb_shootdown_state \<times> u64 set \<times> lapic \<Rightarrow> tlb_shootdown_state \<times> u64 set \<times> lapic" where
  "tlb_shootdown_ipi_handler st = (case st of (s, cache, l) \<Rightarrow> (ipi_ack s, cache - {ipi_read s}, lapic_eoi l))"

subsection \<open>One sender and many receivers\<close>

datatype handler = Quiet | Raised | Read u64 | Dropped

datatype sender = Waiting nat | Finished bool

record sd_sys =
  shared :: tlb_shootdown_state
  sender :: sender
  handlers :: "nat \<Rightarrow> handler"
  caches :: "nat \<Rightarrow> u64 set"

text \<open>The processors are the numbers below \<open>n\<close>, and 0 is the sender. After the send every other
  processor has the interrupt pending.\<close>

definition sd_start :: "nat \<Rightarrow> u64 \<Rightarrow> tlb_shootdown_state \<Rightarrow> (nat \<Rightarrow> u64 set) \<Rightarrow> sd_sys" where
  "sd_start n virt s c =
     \<lparr>shared = tlb_publish (of_nat n) virt s, sender = Waiting 0,
      handlers = (\<lambda>i. if 0 < i \<and> i < n then Raised else Quiet), caches = c\<rparr>"

inductive sd_step :: "sd_sys \<Rightarrow> sd_sys \<Rightarrow> bool" where
  poll_on: "sender y = Waiting k \<Longrightarrow> tlb_poll k (shared y) = Go k' \<Longrightarrow> sd_step y (y\<lparr>sender := Waiting k'\<rparr>)"
| poll_end: "sender y = Waiting k \<Longrightarrow> tlb_poll k (shared y) = Stop b \<Longrightarrow>
     sd_step y (y\<lparr>sender := Finished b, shared := tlb_shootdown_end (shared y)\<rparr>)"
| enter: "handlers y i = Raised \<Longrightarrow> sd_step y (y\<lparr>handlers := (handlers y)(i := Read (ipi_read (shared y)))\<rparr>)"
| drop: "handlers y i = Read a \<Longrightarrow>
     sd_step y (y\<lparr>handlers := (handlers y)(i := Dropped), caches := (caches y)(i := caches y i - {a})\<rparr>)"
| ack: "handlers y i = Dropped \<Longrightarrow> sd_step y (y\<lparr>handlers := (handlers y)(i := Quiet), shared := ipi_ack (shared y)\<rparr>)"

inductive sd_reachable :: "sd_sys \<Rightarrow> sd_sys \<Rightarrow> bool" for y0 where
  start: "sd_reachable y0 y0"
| step: "sd_reachable y0 y \<Longrightarrow> sd_step y z \<Longrightarrow> sd_reachable y0 z"

text \<open>As long as the sender has not given up, the acknowledgements count the processors whose handler
  is done, and these no longer have the old translation.\<close>

definition acked :: "nat \<Rightarrow> sd_sys \<Rightarrow> nat set" where
  "acked n y = {i. 0 < i \<and> i < n \<and> handlers y i = Quiet}"

definition sd_inv :: "nat \<Rightarrow> u64 \<Rightarrow> sd_sys \<Rightarrow> bool" where
  "sd_inv n virt y \<longleftrightarrow> target_addr (shared y) = virt \<and> pending_cpus (shared y) = of_nat (n - 1) \<and>
     ack_count (shared y) = of_nat (card (acked n y)) \<and>
     (\<forall>i. handlers y i \<noteq> Quiet \<longrightarrow> 0 < i \<and> i < n) \<and> (\<forall>i a. handlers y i = Read a \<longrightarrow> a = virt) \<and>
     (\<forall>i. 0 < i \<and> i < n \<and> handlers y i \<in> {Quiet, Dropped} \<longrightarrow> virt \<notin> caches y i) \<and>
     (sender y = Finished False \<longrightarrow> acked n y = {0<..<n}) \<and> (\<forall>k. sender y = Waiting k \<longrightarrow> k \<le> POLL_LIMIT)"

lemma acked_finite: "finite (acked n y)" "acked n y \<subseteq> {0<..<n}" "card (acked n y) \<le> n - 1"
proof -
  show s: "acked n y \<subseteq> {0<..<n}" by (auto simp: acked_def)
  then show "finite (acked n y)" "card (acked n y) \<le> n - 1"
    using finite_subset card_mono [of "{0<..<n}" "acked n y"] by auto
qed

lemma sd_start_inv:
  assumes "1 < n" "n < 2 ^ 32"
  shows "sd_inv n virt (sd_start n virt s c)"
proof -
  have "acked n (sd_start n virt s c) = {}" by (auto simp: acked_def sd_start_def)
  moreover have "(of_nat n :: u32) - 1 = of_nat (n - 1)" using assms(1) by (simp add: of_nat_diff)
  moreover have "handlers (sd_start n virt s c) i = (if 0 < i \<and> i < n then Raised else Quiet)" for i by (simp add: sd_start_def)
  moreover have "target_addr (shared (sd_start n virt s c)) = virt" "pending_cpus (shared (sd_start n virt s c)) = of_nat n - 1"
    "ack_count (shared (sd_start n virt s c)) = 0" "sender (sd_start n virt s c) = Waiting 0"
    by (simp_all add: sd_start_def tlb_publish_def)
  ultimately show ?thesis unfolding sd_inv_def by auto
qed

lemma sd_inv_step:
  assumes "sd_step y z" "sd_inv n virt y" "n < 2 ^ 32"
  shows "sd_inv n virt z"
  using assms(1)
proof (cases rule: sd_step.cases)
  case (poll_on k k')
  then have "k' \<le> POLL_LIMIT" by (simp add: tlb_poll_def split: if_splits)
  then show ?thesis using poll_on assms(2) by (simp add: sd_inv_def acked_def)
next
  case (poll_end k b)
  have "acked n y = {0<..<n}" if "\<not> b"
  proof -
    have c: "card (acked n y) < 2 ^ 32" "n - 1 < 2 ^ 32" using acked_finite(3) [of n y] assms(3) by simp_all
    have "\<not> ack_count (shared y) < pending_cpus (shared y)" using poll_end that by (auto simp: tlb_poll_def split: if_splits)
    then have "n - 1 \<le> card (acked n y)"
      using assms(2) c by (simp add: sd_inv_def word_less_nat_alt unat_of_nat take_bit_nat_eq_self)
    then show ?thesis using acked_finite(2) [of n y] by (intro card_subset_eq) (use acked_finite(3) [of n y] in auto)
  qed
  then show ?thesis using poll_end assms(2) by (auto simp: sd_inv_def acked_def tlb_shootdown_end_def)
next
  case (enter i)
  have "acked n z = acked n y" using enter by (auto simp: acked_def)
  then show ?thesis using enter assms(2) by (auto simp: sd_inv_def ipi_read_def)
next
  case (drop i a)
  have a: "a = virt" using drop assms(2) by (simp add: sd_inv_def)
  have h: "handlers z k = (if k = i then Dropped else handlers y k)" "caches z k = (if k = i then caches y i - {virt} else caches y k)"
    "shared z = shared y" "sender z = sender y" for k using drop a by simp_all
  have e: "acked n z = acked n y" using drop by (auto simp: acked_def)
  have q: "handlers z k = Quiet \<longleftrightarrow> handlers y k = Quiet" "handlers z k = Read b \<Longrightarrow> handlers y k = Read b" for k b
    using drop h(1) by (simp_all split: if_splits)
  have v: "virt \<notin> caches z k" if "0 < k \<and> k < n \<and> handlers z k \<in> {Quiet, Dropped}" for k
    using that assms(2) h(1,2) unfolding sd_inv_def by (cases "k = i") auto
  note D = assms(2) [unfolded sd_inv_def]
  show ?thesis unfolding sd_inv_def h(3,4) e q(1)
  proof (intro conjI)
    show "\<forall>k b. handlers z k = Read b \<longrightarrow> b = virt" using q(2) D by blast
    show "\<forall>k. 0 < k \<and> k < n \<and> handlers z k \<in> {Quiet, Dropped} \<longrightarrow> virt \<notin> caches z k" using v by blast
  qed (use D in blast)+
next
  case (ack i)
  have i: "0 < i" "i < n" "i \<notin> acked n y" using ack assms(2) by (auto simp: sd_inv_def acked_def)
  have "acked n z = insert i (acked n y)" using ack i by (auto simp: acked_def)
  then have c: "card (acked n z) = card (acked n y) + 1" "acked n y = {0<..<n} \<Longrightarrow> acked n z = {0<..<n}"
    using i acked_finite(1) by auto
  note D = assms(2) [unfolded sd_inv_def]
  have h: "handlers z k = (if k = i then Quiet else handlers y k)" "caches z = caches y" "sender z = sender y"
    "target_addr (shared z) = target_addr (shared y)" "pending_cpus (shared z) = pending_cpus (shared y)"
    "ack_count (shared z) = ack_count (shared y) + 1" for k using ack by (simp_all add: ipi_ack_def)
  show ?thesis unfolding sd_inv_def h(2-6)
  proof (intro conjI)
    show "ack_count (shared y) + 1 = of_nat (card (acked n z))" using c(1) D by simp
    show "\<forall>k. handlers z k \<noteq> Quiet \<longrightarrow> 0 < k \<and> k < n" "\<forall>k b. handlers z k = Read b \<longrightarrow> b = virt" using D h(1) by simp_all
    show "\<forall>k. 0 < k \<and> k < n \<and> handlers z k \<in> {Quiet, Dropped} \<longrightarrow> virt \<notin> caches y k" using D h(1) ack by auto
  qed (use D c(2) in blast)+
qed

lemma sd_inv_reachable:
  assumes "sd_reachable (sd_start n virt s c) y" "1 < n" "n < 2 ^ 32"
  shows "sd_inv n virt y"
  using assms(1) by (induction rule: sd_reachable.induct) (use sd_start_inv sd_inv_step assms(2,3) in blast)+

text \<open>C12: the shootdown. Suppose that no handler is still running from an earlier shootdown that timed out (otherwise the
  promise fails, \<open>late_ack_stale\<close>), and there are at least two processors. Then, however the handlers of the other
  processors interleave with the wait of the sender: if the sender ends without a timeout, no other processor still
  holds the old translation of the address; and every unsuccessful poll adds one to a counter that never passes a
  million, so that the sender ends after at most a million and one polls.\<close>

theorem tlb_shootdown_complete:
  assumes "sd_reachable (sd_start n virt s c) y" "1 < n" "n < 2 ^ 32"
  shows "(sender y = Finished False \<longrightarrow> (\<forall>i. 0 < i \<and> i < n \<longrightarrow> virt \<notin> caches y i)) \<and>
    (\<forall>k. sender y = Waiting k \<longrightarrow> k \<le> 1000000 \<and> (\<forall>k'. tlb_poll k (shared y) = Go k' \<longrightarrow> k' = k + 1 \<and> k' \<le> 1000000))"
proof -
  note I = sd_inv_reachable [OF assms, unfolded sd_inv_def]
  have "virt \<notin> caches y i" if "sender y = Finished False" "0 < i" "i < n" for i
  proof -
    have "i \<in> acked n y" using I that by auto
    then show ?thesis using I that by (simp add: acked_def)
  qed
  moreover have "k' = k + 1 \<and> k' \<le> POLL_LIMIT" if "tlb_poll k (shared y) = Go k'" for k k'
    using that by (simp add: tlb_poll_def split: if_splits)
  ultimately show ?thesis using I unfolding POLL_LIMIT_def by blast
qed

text \<open>Two processors: the handler runs, then the sender finds its acknowledgement.\<close>

theorem tlb_shootdown_complete_witness:
  "\<exists>y. sd_reachable (sd_start 2 0x1000 tlb_sd_init (\<lambda>_. {0x1000, 0x2000})) y \<and> sender y = Finished False \<and> 0x1000 \<notin> caches y 1"
proof -
  let ?y0 = "sd_start 2 0x1000 tlb_sd_init (\<lambda>_. {0x1000, 0x2000})"
  let ?y1 = "?y0\<lparr>handlers := (handlers ?y0)(1 := Read (ipi_read (shared ?y0)))\<rparr>"
  let ?y2 = "?y1\<lparr>handlers := (handlers ?y1)(1 := Dropped), caches := (caches ?y1)(1 := caches ?y1 1 - {ipi_read (shared ?y0)})\<rparr>"
  let ?y3 = "?y2\<lparr>handlers := (handlers ?y2)(1 := Quiet), shared := ipi_ack (shared ?y2)\<rparr>"
  let ?y4 = "?y3\<lparr>sender := Finished False, shared := tlb_shootdown_end (shared ?y3)\<rparr>"
  have "sd_step ?y0 ?y1" by (rule sd_step.enter) (simp add: sd_start_def)
  moreover have "sd_step ?y1 ?y2" by (rule sd_step.drop) simp
  moreover have "sd_step ?y2 ?y3" by (rule sd_step.ack) simp
  moreover have "sd_step ?y3 ?y4" by (rule sd_step.poll_end [of _ 0]) (simp_all add: sd_start_def tlb_publish_def ipi_ack_def tlb_poll_def)
  ultimately have r: "sd_reachable ?y0 ?y4" by (meson sd_reachable.intros)
  moreover have "sender ?y4 = Finished False" by simp
  moreover have "(0 :: nat) < 1 \<and> 1 < (2 :: nat)" by simp
  ultimately show ?thesis using tlb_shootdown_complete [OF r] by fastforce
qed

text \<open>After a timeout the promise is gone: a handler that read the address of the first shootdown can
  acknowledge during the second one, which then ends while the old translation is still there.\<close>

definition late_ack :: sd_sys where
  "late_ack = \<lparr>shared = tlb_publish 2 0x2000 tlb_sd_init, sender = Waiting 0, handlers = (\<lambda>i. if i = 1 then Read 0x1000 else Quiet),
     caches = (\<lambda>_. {0x1000, 0x2000})\<rparr>"

lemma late_ack_stale: "\<exists>y. sd_reachable late_ack y \<and> sender y = Finished False \<and> 0x2000 \<in> caches y 1"
proof -
  let ?y0 = late_ack
  let ?y2 = "?y0\<lparr>handlers := (handlers ?y0)(1 := Dropped), caches := (caches ?y0)(1 := caches ?y0 1 - {0x1000})\<rparr>"
  let ?y3 = "?y2\<lparr>handlers := (handlers ?y2)(1 := Quiet), shared := ipi_ack (shared ?y2)\<rparr>"
  let ?y4 = "?y3\<lparr>sender := Finished False, shared := tlb_shootdown_end (shared ?y3)\<rparr>"
  have "sd_step ?y0 ?y2" by (rule sd_step.drop) (simp add: late_ack_def)
  moreover have "sd_step ?y2 ?y3" by (rule sd_step.ack) simp
  moreover have "sd_step ?y3 ?y4" by (rule sd_step.poll_end [of _ 0]) (simp_all add: late_ack_def tlb_publish_def ipi_ack_def tlb_poll_def)
  ultimately have "sd_reachable ?y0 ?y4" by (meson sd_reachable.intros)
  then show ?thesis by (intro exI [of _ ?y4]) (simp add: late_ack_def)
qed

end
