(* ===== verification/Main_Loop.thy ===== *)
theory Main_Loop
  imports Interrupts Workqueue Mempressure Console_Spec
begin

text \<open>
  The loop of the init task at the end of \<open>_start\<close> in \<open>kernel/main.c\<close>, with the idle accounting of
  \<open>kernel/cpuidle.c\<close>.

  One pass reaps dead tasks, runs deferred work, checks the memory pressure, arms the interval timer
  for one shot, idles and echoes the typed characters on the console. While the processor idles,
  interrupts arrive and other tasks run: that is a parameter, a function on the machine. The work
  functions and the callbacks are parameters too. Fuel bounds the deferred work and the characters of
  one pass; running out of it is \<open>Inl Deadlock\<close>.
\<close>

record 'w system =
  y_machine :: "'w machine"
  y_work :: workqueue
  y_pressure :: mempressure
  y_console :: console
  total_idle_ticks :: u64
  has_mwait :: bool
  deepest_state :: nat

text \<open>\<open>cpuidle_init\<close> reads the feature bits of processor leaf 1 (the argument).\<close>

definition IDLE_HLT :: nat where "IDLE_HLT = 1"
definition IDLE_MWAIT :: nat where "IDLE_MWAIT = 2"

definition cpuidle_init :: "u32 \<Rightarrow> 'w system \<Rightarrow> 'w system" where
  "cpuidle_init ecx y =
     (if ecx AND push_bit 3 1 \<noteq> 0 then y\<lparr>has_mwait := True, deepest_state := IDLE_MWAIT\<rparr>
      else y\<lparr>has_mwait := False, deepest_state := IDLE_HLT\<rparr>)"

definition cpuidle_deepest_state :: "'w system \<Rightarrow> nat" where
  "cpuidle_deepest_state y = deepest_state y"

definition cpuidle_has_mwait :: "'w system \<Rightarrow> bool" where
  "cpuidle_has_mwait y = has_mwait y"

text \<open>\<open>cpu_idle\<close> measures how many ticks pass while the processor waits, by one instruction or the other.\<close>

definition cpu_idle :: "(bool \<Rightarrow> 'w machine \<Rightarrow> 'w machine res) \<Rightarrow> 'w system \<Rightarrow> 'w system res" where
  "cpu_idle wait y =
     (let start = pit_get_ticks (m_pit (y_machine y)) in
      bnd (wait (has_mwait y) (y_machine y)) (\<lambda>m.
        Inr (y\<lparr>y_machine := m, total_idle_ticks := total_idle_ticks y + (pit_get_ticks (m_pit m) - start)\<rparr>)))"

definition cpuidle_total_idle :: "'w system \<Rightarrow> u64" where
  "cpuidle_total_idle y = total_idle_ticks y"

fun echo_keys :: "nat \<Rightarrow> kb_state \<Rightarrow> console \<Rightarrow> (kb_state \<times> console) res" where
  "echo_keys fuel kb con =
     (case kb_getchar kb of (c, kb1) \<Rightarrow>
        if c = 0 then Inr (kb1, con)
        else (case fuel of 0 \<Rightarrow> Inl Deadlock
          | Suc n \<Rightarrow> bnd (if console_available con then console_putchar con c else Inr con) (\<lambda>con1. echo_keys n kb1 con1)))"

declare echo_keys.simps [simp del]

definition arm_oneshot :: "pit \<Rightarrow> pit" where
  "arm_oneshot p = (if pit_is_tickless p = 0 then pit_set_oneshot (of_nat (PIT_BASE_FREQ div 100)) p else p)"

definition idle_pass ::
  "nat \<Rightarrow> 'w work_fn \<Rightarrow> (nat \<Rightarrow> mem_pressure_level \<Rightarrow> 'w \<Rightarrow> 'w) \<Rightarrow> (bool \<Rightarrow> 'w machine \<Rightarrow> 'w machine res) \<Rightarrow> 'w system \<Rightarrow> 'w system res" where
  "idle_pass fuel wfn pfn wait y =
     (let m = y_machine y in
      bnd (sched_reap_dead (m_sched m)) (\<lambda>s.
        case workqueue_process_system fuel wfn (y_work y, m_world m) of
          None \<Rightarrow> Inl Deadlock
        | Some (q, w1) \<Rightarrow>
            (case mempressure_check pfn (pmm s) (y_pressure y) w1 of (mp, w2, lvl) \<Rightarrow>
               let m1 = m\<lparr>m_sched := s, m_world := w2, m_pit := arm_oneshot (m_pit m)\<rparr> in
               bnd (cpu_idle wait (y\<lparr>y_machine := m1, y_work := q, y_pressure := mp\<rparr>)) (\<lambda>y1.
                 bnd (echo_keys fuel (m_kb (y_machine y1)) (y_console y1)) (\<lambda>(kb, con).
                   Inr (y1\<lparr>y_machine := (y_machine y1)\<lparr>m_kb := kb\<rparr>, y_console := con\<rparr>))))))"

subsection \<open>Echoing\<close>

lemma draw_ready: "draw_glyph con x y c = Inr con' \<Longrightarrow> fb_ready con' = fb_ready con"
  by (auto simp: draw_glyph_def bnd_def split: sum.splits)

lemma move_ready: "move_or_draw con c = Inr con' \<Longrightarrow> fb_ready con' = fb_ready con"
  by (auto simp: move_or_draw_def bnd_def Let_def dest!: draw_ready split: sum.splits if_splits)

lemma scroll_ready: "scroll_if con = Inr con' \<Longrightarrow> fb_ready con' = fb_ready con"
  by (auto simp: scroll_if_def scroll_up_def bnd_def Let_def split: sum.splits if_splits)

lemma plain_ready: "put_plain con c = Inr con' \<Longrightarrow> fb_ready con' = fb_ready con"
  by (auto simp: put_plain_def wrap_line_def bnd_def dest!: move_ready scroll_ready split: sum.splits if_splits)

lemma putchar_ready: "console_putchar con c = Inr con' \<Longrightarrow> fb_ready con' = fb_ready con"
  by (auto simp: console_putchar_def ansi_set_color_def Let_def dest!: plain_ready split: ansi.splits if_splits)

lemma kb_start_ok: "kb_inv kb_start" "kb_contents kb_start = []"
  by (simp_all add: kb_inv_def kb_start_def KB_BUF_SIZE_def kb_contents_def kb_count_def)

text \<open>What is written: the characters, or nothing when there is no framebuffer.\<close>

definition echoed :: "console \<Rightarrow> u8 list \<Rightarrow> console res" where
  "echoed con cs = (if fb_ready con then console_puts con cs else Inr con)"

lemma echoed_Cons:
  "echoed con (c # cs) = bnd (if fb_ready con then console_putchar con c else Inr con) (\<lambda>con1. echoed con1 cs)"
  using putchar_ready [of con c] by (cases "console_putchar con c") (auto simp: echoed_def)

lemma echo_keys_spec:
  assumes "kb_inv kb" "0 \<notin> set (kb_contents kb)" "length (kb_contents kb) \<le> fuel"
  shows "\<exists>kb'. kb_inv kb' \<and> kb_contents kb' = [] \<and>
    echo_keys fuel kb con = bnd (echoed con (kb_contents kb)) (\<lambda>con'. Inr (kb', con'))"
  using assms
proof (induction "kb_contents kb" arbitrary: kb fuel con)
  case Nil
  then have "kb_getchar kb = (0, kb)" using kb_getchar_spec(1) by simp
  then have "echo_keys fuel kb con = Inr (kb, con)" by (subst echo_keys.simps) simp
  then show ?case using Nil by (intro exI [of _ kb]) (simp add: Nil.hyps [symmetric] echoed_def)
next
  case (Cons c cs)
  then obtain n where n: "fuel = Suc n" by (cases fuel) (auto simp: Cons.hyps(2) [symmetric])
  obtain kb1 where g: "kb_getchar kb = (c, kb1)" "kb_inv kb1" "kb_contents kb1 = cs"
    using kb_getchar_spec(2) [OF Cons.prems(1) Cons.hyps(2) [symmetric]] by (cases "kb_getchar kb") auto
  have c: "c \<noteq> 0" using Cons.prems(2) by (auto simp: Cons.hyps(2) [symmetric])
  let ?one = "if fb_ready con then console_putchar con c else Inr con"
  have st: "echo_keys fuel kb con = bnd ?one (echo_keys n kb1)"
    using g(1) c n by (subst echo_keys.simps) (simp add: console_available_def)
  show ?case
  proof (cases ?one)
    case (Inl e)
    then show ?thesis unfolding st Cons.hyps(2) [symmetric] echoed_Cons Inl
      using kb_start_ok by (intro exI [of _ kb_start]) simp
  next
    case (Inr con1)
    have "0 \<notin> set (kb_contents kb1)" "length (kb_contents kb1) \<le> n"
      using Cons.prems(2,3) n g(3) by (auto simp: Cons.hyps(2) [symmetric])
    from Cons.hyps(1) [OF g(3) [symmetric] g(2) this, of con1] show ?thesis
      unfolding st Cons.hyps(2) [symmetric] echoed_Cons Inr using g(3) by simp
  qed
qed

subsection \<open>One pass\<close>

text \<open>What the queued items do, each once and in the order of the queue, when the function \<open>f\<close> with argument
  \<open>x\<close> has the effect \<open>act f x\<close>.\<close>

definition ran_work :: "(nat \<Rightarrow> u64 \<Rightarrow> 'w \<Rightarrow> 'w) \<Rightarrow> workqueue \<Rightarrow> 'w \<Rightarrow> 'w" where
  "ran_work act q = fold (\<lambda>w. act (w_func (works q w)) (w_arg (works q w))) (wq_items q)"

text \<open>The machine that is handed to the idle processor: no dead task is left, the freed stacks are back
  in the page allocator, every queued work item and then the memory-pressure callbacks have run, and the interval
  timer is in one-shot mode.\<close>

definition tidy :: "(nat \<Rightarrow> place) \<Rightarrow> block set \<Rightarrow> (nat \<Rightarrow> u64 \<Rightarrow> 'w \<Rightarrow> 'w) \<Rightarrow> (nat \<Rightarrow> mem_pressure_level \<Rightarrow> 'w \<Rightarrow> 'w) \<Rightarrow>
    'w system \<Rightarrow> 'w machine \<Rightarrow> bool" where
  "tidy pl A act pfn y m1 \<longleftrightarrow> (let m = y_machine y in
     sched_inv (m_sched m1) (\<lambda>t. if pl t = Dead then Unused else pl t) \<and> dead_queue (m_sched m1) = [] \<and>
     (\<exists>f. (\<forall>t. pl t = Dead \<longrightarrow> stack_phys (task_pool (m_sched m) ! t) = pfn_to_phys (f t) \<and> (f t, 2) \<in> A) \<and>
        pmm_owns (pmm (m_sched m1)) (A - (\<lambda>t. (f t, 2)) ` {t. pl t = Dead})) \<and>
     m_world m1 = fst (snd (mempressure_check pfn (pmm (m_sched m1)) (y_pressure y) (ran_work act (y_work y) (m_world m)))) \<and>
     pit_is_tickless (m_pit m1) \<noteq> 0 \<and> m_timers m1 = m_timers m \<and> m_kb m1 = m_kb m)"

text \<open>C11: one pass of the main loop. If every dead task owns its stack and no work function schedules
  more work, the pass reaps all dead tasks, runs every queued work item once and in order, then the callbacks of a
  change of the memory pressure, and hands the processor a machine with the timer armed. When the processor comes
  back with typed characters in the key buffer, the pass writes exactly these to the console, in order (none when there
  is no framebuffer; if the console fails on one of them, an overflowing escape parameter, the pass fails so), and
  empties the buffer; the ticks that went by are added to the idle time. Fuel for the queued items and the 63
  characters of the buffer is enough.\<close>

theorem idle_pass_correct:
  assumes "sched_inv (m_sched (y_machine y)) pl" "pmm_owns (pmm (m_sched (y_machine y))) A" "dead_stacks (m_sched (y_machine y)) A"
    "wq_ok (y_work y)" "leaves_queue wfn act" "length (wq_items (y_work y)) \<le> fuel" "63 \<le> fuel"
    "\<forall>m1. tidy pl A act pfn y m1 \<longrightarrow> (\<exists>m2. wait (has_mwait y) m1 = Inr m2 \<and> kb_inv (m_kb m2) \<and> 0 \<notin> set (kb_contents (m_kb m2)))"
  shows "\<exists>m1 m2 q mp kb. tidy pl A act pfn y m1 \<and> wait (has_mwait y) m1 = Inr m2 \<and> wq_items q = [] \<and>
    wq_processed q = wq_processed (y_work y) + of_nat (length (wq_items (y_work y))) \<and> kb_contents kb = [] \<and>
    mp = fst (mempressure_check pfn (pmm (m_sched m1)) (y_pressure y) (ran_work act (y_work y) (m_world (y_machine y)))) \<and>
    idle_pass fuel wfn pfn wait y = bnd (echoed (y_console y) (kb_contents (m_kb m2))) (\<lambda>con.
      Inr (y\<lparr>y_machine := m2\<lparr>m_kb := kb\<rparr>, y_work := q, y_pressure := mp, y_console := con,
        total_idle_ticks := total_idle_ticks y + (pit_get_ticks (m_pit m2) - pit_get_ticks (m_pit m1))\<rparr>))"
proof -
  let ?m = "y_machine y"
  obtain c where c: "current (m_sched ?m) = Some c" using assms(1) by (rule sched_inv_current)
  have d: "set (dead_queue (m_sched ?m)) = {t. pl t = Dead}"
    using queues_okD(7) [OF sched_invD(2) [OF assms(1) c]] by (simp add: queue_ok_def)
  obtain s f where s: "sched_reap_dead (m_sched ?m) = Inr s" "sched_inv s (\<lambda>t. if pl t = Dead then Unused else pl t)" "dead_queue s = []"
      "\<forall>t. pl t = Dead \<longrightarrow> stack_phys (task_pool (m_sched ?m) ! t) = pfn_to_phys (f t) \<and> (f t, 2) \<in> A"
      "pmm_owns (pmm s) (A - (\<lambda>t. (f t, 2)) ` {t. pl t = Dead})"
    using reap_all_spec [OF assms(1-3) refl] unfolding sched_reap_dead_def d by auto
  define w1 where "w1 = ran_work act (y_work y) (m_world ?m)"
  obtain q where q: "workqueue_process_system fuel wfn (y_work y, m_world ?m) = Some (q, w1)" "wq_items q = []"
      "wq_processed q = wq_processed (y_work y) + of_nat (length (wq_items (y_work y)))"
    using process_all [OF assms(5,4,6), of "m_world ?m"] unfolding workqueue_process_system_def w1_def ran_work_def by blast
  obtain mp w2 lvl where mp: "mempressure_check pfn (pmm s) (y_pressure y) w1 = (mp, w2, lvl)"
    by (cases "mempressure_check pfn (pmm s) (y_pressure y) w1")
  define m1 where "m1 = ?m\<lparr>m_sched := s, m_world := w2, m_pit := arm_oneshot (m_pit ?m)\<rparr>"
  have e: "m_sched m1 = s" by (simp add: m1_def)
  have "pit_is_tickless (arm_oneshot (m_pit ?m)) \<noteq> 0" by (simp add: arm_oneshot_def pit_is_tickless_def pit_set_oneshot_def Let_def)
  then have t: "tidy pl A act pfn y m1" unfolding tidy_def Let_def m1_def w1_def [symmetric] using s(2-5) mp by auto
  obtain m2 where m2: "wait (has_mwait y) m1 = Inr m2" "kb_inv (m_kb m2)" "0 \<notin> set (kb_contents (m_kb m2))" using assms(8) t by blast
  have l: "length (kb_contents (m_kb m2)) \<le> fuel" using kb.within [OF m2(2)] assms(7) by simp
  obtain kb where kb: "kb_contents kb = []" "echo_keys fuel (m_kb m2) (y_console y) =
      bnd (echoed (y_console y) (kb_contents (m_kb m2))) (\<lambda>con'. Inr (kb, con'))"
    using echo_keys_spec [OF m2(2,3) l] by blast
  have "idle_pass fuel wfn pfn wait y = bnd (echoed (y_console y) (kb_contents (m_kb m2))) (\<lambda>con.
      Inr (y\<lparr>y_machine := m2\<lparr>m_kb := kb\<rparr>, y_work := q, y_pressure := mp, y_console := con,
        total_idle_ticks := total_idle_ticks y + (pit_get_ticks (m_pit m2) - pit_get_ticks (m_pit m1))\<rparr>))"
    unfolding idle_pass_def Let_def using s(1) q(1) mp m2(1) kb(2)
    by (cases "echoed (y_console y) (kb_contents (m_kb m2))") (simp_all add: cpu_idle_def m1_def)
  then show ?thesis using t m2(1) q(2,3) kb(1) mp unfolding w1_def [symmetric] e [symmetric]
    by (intro exI [of _ m1] exI [of _ m2] exI [of _ q] exI [of _ mp] exI [of _ kb]) simp
qed

text \<open>Two work items are queued that write their function's number down, the key A is pressed while the processor
  idles, and one task of the demonstration system is dead.\<close>

definition press_a :: "bool \<Rightarrow> 'w machine \<Rightarrow> 'w machine res" where
  "press_a mw m = Inr (m\<lparr>m_kb := kb_irq_handler kb_start 30\<rparr>)"

definition demo_system :: "pmm_state \<Rightarrow> u64 \<Rightarrow> nat list system" where
  "demo_system pm a = \<lparr>y_machine = \<lparr>m_pit = m_pit (demo_machine pm), m_timers = boot_timers, m_sched = sched_demo pm a, m_kb = kb_start,
       m_handlers = replicate 16 None, m_warnings = 0, m_world = []\<rparr>,
     y_work = fold workqueue_schedule [5, 6] (workqueue_init (\<lambda>w. work_init w 0)),
     y_pressure = mempressure_init, y_console = small_screen, total_idle_ticks = 0,
     has_mwait = False, deepest_state = IDLE_HLT\<rparr>"

lemma press_a_contents: "kb_inv (kb_irq_handler kb_start 30)" "kb_contents (kb_irq_handler kb_start 30) = [97]"
proof -
  show "kb_inv (kb_irq_handler kb_start 30)" using kb_irq_steps [OF kb_start_ok(1), of 30 "[]"] by blast
  have "decode False False [30] = [97]" by (simp add: sc_lower_def)
  moreover have "shift_held kb_start = 0" "caps_on kb_start = 0" by (simp_all add: kb_start_def)
  ultimately show "kb_contents (kb_irq_handler kb_start 30) = [97]"
    using kb_irq_sequence [OF kb_start_ok(1), of "[30]"] kb_start_ok(2) by (simp only: foldl.simps) simp
qed

theorem idle_pass_correct_witness:
  "\<exists>pm p y'. pmm_owns pm {(p, 2)} \<and>
     idle_pass 63 (\<lambda>f a (q, m). (q, m @ [f])) (\<lambda>f l w. w) press_a (demo_system pm (pfn_to_phys p)) = Inr y' \<and>
     m_world (y_machine y') = [5, 6] \<and> wq_items (y_work y') = [] \<and> console_puts small_screen [97] = Inr (y_console y') \<and>
     kb_contents (m_kb (y_machine y')) = [] \<and> dead_queue (m_sched (y_machine y')) = []"
proof -
  obtain pm F p where m: "pmm_inv pm F {(p, 2)} ({2..<9} \<union> {10..<11})" using demo_alloc by blast
  then have ow: "pmm_owns pm {(p, 2)}"
    unfolding pmm_owns_def by (intro exI [of _ F] exI [of _ "{2..<9} \<union> {10..<11}"]) simp
  let ?y = "demo_system pm (pfn_to_phys p)" and ?s = "sched_demo pm (pfn_to_phys p)" and ?f = "\<lambda>f a (q, m). (q, m @ [f])"
  let ?q = "fold workqueue_schedule [5, 6] (workqueue_init (\<lambda>w. work_init w 0))"
  have y: "m_sched (y_machine ?y) = ?s" "y_console ?y = small_screen" "y_work ?y = ?q" "m_world (y_machine ?y) = []"
    "y_pressure ?y = mempressure_init" by (simp_all add: demo_system_def)
  have k: "task_pool ?s ! 4 = empty_task\<lparr>state := TASK_DEAD, stack_phys := pfn_to_phys p\<rparr>" by (simp add: demo_nth)
  have "pfn_to_phys p \<noteq> 0" by (rule pmm_owned_nonzero [OF ow]) simp
  then have ds: "dead_stacks ?s {(p, 2)}" unfolding dead_stacks_def demo_facts(8) using k by auto
  have "wq_ok (workqueue_init (\<lambda>w. work_init w 0))" by (simp add: wq_ok_def workqueue_init_def work_init_def)
  then have wq: "wq_ok ?q" using schedule_all by blast
  have qi: "wq_items ?q = [5, 6]" "w_func (works ?q v) = v" for v
    by (auto simp: workqueue_init_def workqueue_schedule_def set_pending_def work_init_def)
  have rd: "fb_ready small_screen" "ansi_state small_screen = ANSI_STATE_NORMAL" by (simp_all add: small_screen_def)
  obtain con where con: "console_puts small_screen [97] = Inr con"
    using put_plain_ok [OF small_screen_ok, of 97] rd by (auto simp: console_putchar_def)
  have lv: "leaves_queue ?f (\<lambda>f a m. m @ [f])" by (simp add: leaves_queue_def)
  have ownp: "pmm_owns (pmm ?s) {(p, 2)}" using ow by (simp add: demo_facts)
  have w: "\<forall>m1. tidy demo_places {(p, 2)} (\<lambda>f a m. m @ [f]) (\<lambda>f l w. w) ?y m1 \<longrightarrow>
      (\<exists>m2. press_a (has_mwait ?y) m1 = Inr m2 \<and> kb_inv (m_kb m2) \<and> 0 \<notin> set (kb_contents (m_kb m2)))"
    using press_a_contents by (auto simp: press_a_def)
  have h: "sched_inv (m_sched (y_machine ?y)) demo_places" "pmm_owns (pmm (m_sched (y_machine ?y))) {(p, 2)}"
    "dead_stacks (m_sched (y_machine ?y)) {(p, 2)}" "wq_ok (y_work ?y)" "length (wq_items (y_work ?y)) \<le> 63"
    unfolding y using demo_inv ownp ds wq qi(1) by simp_all
  obtain m1 m2 q mp kb where r: "tidy demo_places {(p, 2)} (\<lambda>f a m. m @ [f]) (\<lambda>f l w. w) ?y m1" "press_a (has_mwait ?y) m1 = Inr m2"
    "wq_items q = []" "kb_contents kb = []"
    "idle_pass 63 ?f (\<lambda>f l w. w) press_a ?y = bnd (echoed (y_console ?y) (kb_contents (m_kb m2))) (\<lambda>con.
      Inr (?y\<lparr>y_machine := m2\<lparr>m_kb := kb\<rparr>, y_work := q, y_pressure := mp, y_console := con,
        total_idle_ticks := total_idle_ticks ?y + (pit_get_ticks (m_pit m2) - pit_get_ticks (m_pit m1))\<rparr>))"
    using idle_pass_correct [where wait = press_a and pfn = "\<lambda>f l w. w", OF h(1-4) lv h(5) order_refl w] by blast
  have m2: "kb_contents (m_kb m2) = [97]" "m_sched m2 = m_sched m1" "m_world m2 = m_world m1"
    using r(2) press_a_contents(2) by (auto simp: press_a_def)
  have "m_world m1 = [5, 6]"
    using r(1) unfolding tidy_def Let_def y ran_work_def qi by (simp add: mempressure_check_def mempressure_init_def Let_def)
  moreover have "dead_queue (m_sched m1) = []" using r(1) by (simp add: tidy_def Let_def)
  ultimately show ?thesis using ow con r(3-5) m2 rd(1) y(2) by (intro exI [of _ pm] exI [of _ p]) (simp add: echoed_def)
qed

end
