(* ===== verification/Poll.thy ===== *)
theory Poll
  imports Prelude
begin

text \<open>
  Waiting for hardware with a bound. The drivers read a status register until it has the value they
  wait for, and decrement a timeout after every read that has not. \<open>poll ok t n\<close> is such a loop when
  \<open>t\<close> reads are left and the next one is the \<open>n\<close>-th read of that device: whether the awaited value came
  in time, and the number of the next read.
\<close>

fun poll :: "(nat \<Rightarrow> bool) \<Rightarrow> nat \<Rightarrow> nat \<Rightarrow> bool \<times> nat" where
  "poll ok 0 n = (False, n)"
| "poll ok (Suc t) n = (if ok n then (True, Suc n) else poll ok t (Suc n))"

lemma poll_bound: "snd (poll ok t n) \<le> n + t"
  by (induction ok t n rule: poll.induct) auto

lemma poll_success: "fst (poll ok t n) \<longleftrightarrow> (\<exists>i < t. ok (n + i))"
proof (induction t arbitrary: n)
  case (Suc t)
  show ?case unfolding Ex_less_Suc2 using Suc.IH [of "Suc n"] by simp
qed simp

text \<open>The last read of a wait that succeeds has the awaited value.\<close>

lemma poll_last: "poll ok t n = (True, m) \<Longrightarrow> n < m \<and> ok (m - 1)"
  by (induction ok t n rule: poll.induct) (auto split: if_splits)

end
