(* ===== verification/Uart.thy ===== *)
theory Uart
  imports Kprintf_Spec Poll
begin

text \<open>
  The serial port of \<open>kernel/uart.c\<close>. What the hardware answers is a parameter: the byte the scratch
  register gives back, and the value of the \<open>k\<close>-th read of the line status register. Writes to the
  ports are logged; the bytes sent are those written to the transmit register after initialisation.
\<close>

definition COM1_BASE :: u16 where "COM1_BASE = 0x3F8"
definition REG_THR :: u16 where "REG_THR = COM1_BASE + 0"
definition REG_DLL :: u16 where "REG_DLL = COM1_BASE + 0"
definition REG_DLH :: u16 where "REG_DLH = COM1_BASE + 1"
definition REG_IER :: u16 where "REG_IER = COM1_BASE + 1"
definition REG_FCR :: u16 where "REG_FCR = COM1_BASE + 2"
definition REG_LCR :: u16 where "REG_LCR = COM1_BASE + 3"
definition REG_MCR :: u16 where "REG_MCR = COM1_BASE + 4"
definition LCR_DLAB :: u8 where "LCR_DLAB = 0x80"
definition LCR_8N1 :: u8 where "LCR_8N1 = 0x03"
definition LSR_THRE :: u8 where "LSR_THRE = 0x20"
definition FCR_ENABLE :: u8 where "FCR_ENABLE = 0x07"
definition MCR_OUT2 :: u8 where "MCR_OUT2 = 0x08"
definition MCR_RTS_DTR :: u8 where "MCR_RTS_DTR = 0x03"
definition BAUD_DIVISOR :: u16 where "BAUD_DIVISOR = 1"
definition UART_TIMEOUT :: nat where "UART_TIMEOUT = 100000"

record uart =
  uart_available :: bool
  uart_writes :: "(u16 \<times> u8) list"
  uart_reads :: nat

definition uart_out :: "u16 \<Rightarrow> u8 \<Rightarrow> uart \<Rightarrow> uart" where
  "uart_out port v s = s\<lparr>uart_writes := uart_writes s @ [(port, v)]\<rparr>"

definition uart_init :: "u8 \<Rightarrow> uart \<Rightarrow> uart" where
  "uart_init scratch s =
     (let s1 = uart_out (COM1_BASE + 7) 0xAE s in
      if scratch \<noteq> 0xAE then s1\<lparr>uart_available := False\<rparr>
      else fold (\<lambda>(p, v). uart_out p v)
        [(REG_IER, 0), (REG_LCR, LCR_DLAB), (REG_DLL, ucast BAUD_DIVISOR), (REG_DLH, ucast (drop_bit 8 BAUD_DIVISOR)),
         (REG_LCR, LCR_8N1), (REG_FCR, FCR_ENABLE), (REG_MCR, MCR_RTS_DTR OR MCR_OUT2)] (s1\<lparr>uart_available := True\<rparr>))"

text \<open>The wait for the transmitter: whether it became empty before the timeout.\<close>

definition tx_wait :: "(nat \<Rightarrow> u8) \<Rightarrow> uart \<Rightarrow> bool \<times> uart" where
  "tx_wait lsr s =
     (case poll (\<lambda>k. lsr k AND LSR_THRE \<noteq> 0) UART_TIMEOUT (uart_reads s) of (ready, n) \<Rightarrow> (ready, s\<lparr>uart_reads := n\<rparr>))"

definition uart_putc :: "(nat \<Rightarrow> u8) \<Rightarrow> u8 \<Rightarrow> uart \<Rightarrow> uart" where
  "uart_putc lsr c s =
     (if \<not> uart_available s then s
      else case tx_wait lsr s of (ready, s1) \<Rightarrow> if ready then uart_out REG_THR c s1 else s1)"

fun uart_puts :: "(nat \<Rightarrow> u8) \<Rightarrow> u8 list \<Rightarrow> uart \<Rightarrow> uart" where
  "uart_puts lsr [] s = s"
| "uart_puts lsr (c # cs) s = uart_puts lsr cs (uart_putc lsr c (if c = 10 then uart_putc lsr 13 s else s))"

text \<open>The loop of \<open>uart_put_hex\<close>, with \<open>k\<close> half bytes to go.\<close>

fun hex_loop :: "u64 \<Rightarrow> nat \<Rightarrow> bool \<Rightarrow> u8 list" where
  "hex_loop v 0 started = []"
| "hex_loop v (Suc k) started =
     (let nibble = unat (drop_bit (4 * k) v AND 0xF) in
      if nibble \<noteq> 0 \<or> started \<or> k = 0 then digits_lower ! nibble # hex_loop v k True else hex_loop v k started)"

definition uart_put_hex :: "(nat \<Rightarrow> u8) \<Rightarrow> u64 \<Rightarrow> uart \<Rightarrow> uart" where
  "uart_put_hex lsr v s = fold (uart_putc lsr) (hex_loop v 16 False) (uart_puts lsr [48, 120] s)"

definition uart_data_ready :: "(nat \<Rightarrow> u8) \<Rightarrow> uart \<Rightarrow> u8 \<times> uart" where
  "uart_data_ready lsr s = (lsr (uart_reads s) AND 0x01, s\<lparr>uart_reads := uart_reads s + 1\<rparr>)"

subsection \<open>Hexadecimal digits\<close>

lemma nibble: "unat (drop_bit (4 * k) (v :: u64) AND 0xF) = unat v div 16 ^ k mod 16"
proof -
  have m: "(0xF :: u64) = mask 4" by (simp add: mask_eq_exp_minus_1)
  have "unat (drop_bit (4 * k) v AND 0xF) = unat (drop_bit (4 * k) v) mod 2 ^ 4"
    unfolding m take_bit_eq_mask [symmetric] by (simp add: take_bit_eq_mod unat_mod)
  also have "unat (drop_bit (4 * k) v) = unat v div 2 ^ (4 * k)" 
    using unsigned_less [of v, where ?'a = nat] unfolding unsigned_drop_bit_eq by (simp add: drop_bit_eq_div take_bit_nat_eq_self)
  finally show ?thesis by (simp add: power_mult)
qed

lemma hex_started: "hex_loop v k True = map (\<lambda>i. digits_lower ! (unat v div 16 ^ i mod 16)) (rev [0..<k])"
  by (induction k) (simp_all add: nibble Let_def)

lemma digits_rev:
  assumes "16 ^ k \<le> n" "n < 16 ^ Suc k"
  shows "rev (digit_loop ds 16 n) = map (\<lambda>i. ds ! (n div 16 ^ i mod 16)) (rev [0..<Suc k])"
  using assms
proof (induction k arbitrary: n)
  case 0
  then show ?case by (simp add: digit_loop.simps [of ds 16 n] digit_loop.simps [of ds 16 0])
next
  case (Suc k)
  have b: "16 ^ k \<le> n div 16" "n div 16 < 16 ^ Suc k"
    using Suc.prems by (simp_all add: less_eq_div_iff_mult_less_eq div_less_iff_less_mult mult.commute)
  have "n \<noteq> 0" using Suc.prems(1) by (metis le_zero_eq power_not_zero zero_neq_numeral)
  then have "rev (digit_loop ds 16 n) = rev (digit_loop ds 16 (n div 16)) @ [ds ! (n mod 16)]" by (simp add: digit_loop.simps [of ds 16 n])
  also have "\<dots> = map (\<lambda>i. ds ! (n div 16 ^ Suc i mod 16)) (rev [0..<Suc k]) @ [ds ! (n mod 16)]"
    unfolding Suc.IH [OF b] by (simp add: div_mult2_eq)
  also have "\<dots> = map (\<lambda>i. ds ! (n div 16 ^ i mod 16)) (rev [0..<Suc (Suc k)])"
  proof -
    have "[0..<Suc (Suc k)] = 0 # map Suc [0..<Suc k]" 
      using map_Suc_upt [of 0 "Suc k"] upt_conv_Cons [of 0 "Suc (Suc k)"] by (simp del: upt_Suc)
    then have "rev [0..<Suc (Suc k)] = map Suc (rev [0..<Suc k]) @ [0]" by (simp only: rev.simps rev_map)
    then show ?thesis by (simp only: map_append map_map comp_def list.map) simp
  qed
  finally show ?case .
qed

lemma hex_fresh:
  assumes "unat v < 16 ^ Suc k"
  shows "hex_loop v (Suc k) False = rev (unsigned_buf v 16 False)"
  using assms
proof (induction k)
  case 0
  have "unat (v AND 0xF) = unat v mod 16" using nibble [of 0 v] by simp
  then have n: "unat (v AND 0xF) = unat v" using 0 by simp
  have "hex_loop v (Suc 0) False = [digits_lower ! unat v]" by (simp add: Let_def n)
  also have "\<dots> = rev (unsigned_buf v 16 False)"
    using 0 by (cases "unat v = 0") (simp_all add: unsigned_buf_def digit_loop.simps [of _ 16 "unat v"] digit_loop.simps [of _ 16 0] digits_lower_def unat_eq_zero)
  finally show ?case .
next
  case (Suc k)
  show ?case
  proof (cases "unat v < 16 ^ Suc k")
    case True
    then have "unat v div 16 ^ Suc k mod 16 = 0" by (simp only: div_less)
    then have "hex_loop v (Suc (Suc k)) False = hex_loop v (Suc k) False" by (subst hex_loop.simps(2)) (simp only: nibble Let_def, simp)
    then show ?thesis using Suc.IH [OF True] by simp
  next
    case False
    then have g: "16 ^ Suc k \<le> unat v" by simp
    then have d: "unat v div 16 ^ Suc k \<noteq> 0" by (simp only: div_eq_0_iff) simp
    have "unat v div 16 ^ Suc k < 16" using Suc.prems by (simp add: div_less_iff_less_mult)
    then have nz: "unat v div 16 ^ Suc k mod 16 \<noteq> 0" using d by simp
    have "hex_loop v (Suc (Suc k)) False = hex_loop v (Suc (Suc k)) True" by (subst (1 2) hex_loop.simps(2)) (simp only: nibble Let_def nz, simp)
    also have "\<dots> = rev (digit_loop digits_lower 16 (unat v))" unfolding hex_started digits_rev [OF g Suc.prems] ..
    also have "\<dots> = rev (unsigned_buf v 16 False)" using g by (auto simp: unsigned_buf_def)
    finally show ?thesis .
  qed
qed

subsection \<open>Sending\<close>

definition crlf :: "u8 list \<Rightarrow> u8 list" where
  "crlf cs = concat (map (\<lambda>c. if c = 10 then [13, 10] else [c]) cs)"

definition sent :: "uart \<Rightarrow> uart \<Rightarrow> u8 list \<Rightarrow> bool" where
  "sent s s' cs \<longleftrightarrow> uart_writes s' = uart_writes s @ map (\<lambda>c. (REG_THR, c)) cs \<and> uart_available s' = uart_available s"

lemma sent_trans: "sent a b xs \<Longrightarrow> sent b c ys \<Longrightarrow> sent a c (xs @ ys)"
  by (simp add: sent_def)

lemma sent_refl: "sent s s []"
  by (simp add: sent_def)

text \<open>The transmitter becomes empty within the timeout, whenever it is asked.\<close>

definition responsive :: "(nat \<Rightarrow> u8) \<Rightarrow> bool" where
  "responsive lsr \<longleftrightarrow> (\<forall>n. \<exists>i < UART_TIMEOUT. lsr (n + i) AND LSR_THRE \<noteq> 0)"

lemma tx_wait_spec:
  "\<exists>n. snd (tx_wait lsr s) = s\<lparr>uart_reads := n\<rparr> \<and> n \<le> uart_reads s + UART_TIMEOUT \<and>
    (fst (tx_wait lsr s) \<longleftrightarrow> (\<exists>i < UART_TIMEOUT. lsr (uart_reads s + i) AND LSR_THRE \<noteq> 0))"
  using poll_bound poll_success [of "\<lambda>k. lsr k AND LSR_THRE \<noteq> 0" UART_TIMEOUT "uart_reads s"]
  by (intro exI [of _ "snd (poll (\<lambda>k. lsr k AND LSR_THRE \<noteq> 0) UART_TIMEOUT (uart_reads s))"]) (simp add: tx_wait_def split_beta)

lemma putc_sent: "responsive lsr \<Longrightarrow> uart_available s \<Longrightarrow> sent s (uart_putc lsr c s) [c]"
proof -
  assume r: "responsive lsr" "uart_available s"
  obtain n where "snd (tx_wait lsr s) = s\<lparr>uart_reads := n\<rparr>" "fst (tx_wait lsr s)"
    using tx_wait_spec [of lsr s] r(1) unfolding responsive_def by metis
  then show ?thesis using r(2) by (cases "tx_wait lsr s") (simp add: uart_putc_def sent_def uart_out_def)
qed

lemma puts_sent: "responsive lsr \<Longrightarrow> uart_available s \<Longrightarrow> sent s (uart_puts lsr cs s) (crlf cs)"
proof (induction cs arbitrary: s)
  case (Cons c cs)
  define s1 where "s1 = (if c = 10 then uart_putc lsr 13 s else s)"
  have a: "sent s s1 (if c = 10 then [13] else [])" using putc_sent [OF Cons.prems] by (simp add: s1_def sent_refl)
  have b: "sent s1 (uart_putc lsr c s1) [c]" using putc_sent [OF Cons.prems(1)] a Cons.prems(2) by (simp add: sent_def)
  have "sent (uart_putc lsr c s1) (uart_puts lsr cs (uart_putc lsr c s1)) (crlf cs)"
    using Cons.IH [OF Cons.prems(1)] a b Cons.prems(2) by (simp add: sent_def)
  from sent_trans [OF sent_trans [OF a b] this] show ?case by (cases "c = 10") (simp_all add: s1_def crlf_def)
qed (simp add: sent_refl crlf_def)

lemma fold_sent: "responsive lsr \<Longrightarrow> uart_available s \<Longrightarrow> sent s (fold (uart_putc lsr) cs s) cs"
proof (induction cs arbitrary: s)
  case (Cons c cs)
  have a: "sent s (uart_putc lsr c s) [c]" by (rule putc_sent [OF Cons.prems])
  then have "sent (uart_putc lsr c s) (fold (uart_putc lsr) cs (uart_putc lsr c s)) cs"
    using Cons.IH [OF Cons.prems(1)] Cons.prems(2) by (simp add: sent_def)
  from sent_trans [OF a this] show ?case by simp
qed (simp add: sent_refl)

text \<open>The serial port. With a transmitter that empties before the timeout, a string goes out whole with
  every line feed preceded by a carriage return, and a number goes out as \<open>0x\<close> followed by exactly the
  digits that \<open>kprintf\<close> prints for it in base 16. A character always ends after at most 100000 reads of
  the line status, and is dropped if the transmitter stays busy or the port is absent.\<close>

theorem uart_output_correct:
  "(uart_available s \<and> responsive lsr \<longrightarrow> sent s (uart_puts lsr cs s) (crlf cs) \<and>
      sent s (uart_put_hex lsr v s) ([48, 120] @ kprint_unsigned v 16 0 32 False)) \<and>
   uart_reads (uart_putc lsr c s) \<le> uart_reads s + 100000 \<and>
   (\<not> uart_available s \<or> (\<forall>n. lsr n AND LSR_THRE = 0) \<longrightarrow> uart_writes (uart_putc lsr c s) = uart_writes s)"
proof -
  obtain n where n: "snd (tx_wait lsr s) = s\<lparr>uart_reads := n\<rparr>" "n \<le> uart_reads s + 100000"
    "fst (tx_wait lsr s) \<longleftrightarrow> (\<exists>i < UART_TIMEOUT. lsr (uart_reads s + i) AND LSR_THRE \<noteq> 0)"
    using tx_wait_spec [of lsr s] UART_TIMEOUT_def by metis
  have h: "unat v < 16 ^ Suc 15" using unsigned_less [of v, where ?'a = nat] by simp
  have k: "hex_loop v 16 False = kprint_unsigned v 16 0 32 False"
    using hex_fresh [OF h] by (simp add: kprint_unsigned_def Let_def pad_loop_eq del: hex_loop.simps)
  have "sent s (uart_put_hex lsr v s) ([48, 120] @ kprint_unsigned v 16 0 32 False)" if "uart_available s" "responsive lsr"
  proof -
    have a: "sent s (uart_puts lsr [48, 120] s) [48, 120]" using puts_sent [OF that(2,1), of "[48, 120]"] by (simp add: crlf_def)
    then have "uart_available (uart_puts lsr [48, 120] s)" using that(1) by (simp add: sent_def)
    from sent_trans [OF a fold_sent [OF that(2) this]] show ?thesis unfolding uart_put_hex_def k .
  qed
  moreover have "uart_reads (uart_putc lsr c s) \<le> uart_reads s + 100000"
    using n(1,2) by (cases "tx_wait lsr s") (simp add: uart_putc_def uart_out_def)
  moreover have "uart_writes (uart_putc lsr c s) = uart_writes s" if "\<not> uart_available s \<or> (\<forall>n. lsr n AND LSR_THRE = 0)"
    using that n(1,3) by (cases "tx_wait lsr s") (auto simp: uart_putc_def)
  ultimately show ?thesis using puts_sent by blast
qed

theorem uart_output_correct_witness:
  "sent \<lparr>uart_available = True, uart_writes = [], uart_reads = 0\<rparr>
     (uart_put_hex (\<lambda>n. if even n then 0 else 0x20) 0xBEEF \<lparr>uart_available = True, uart_writes = [], uart_reads = 0\<rparr>)
     ([48, 120] @ kprint_unsigned 0xBEEF 16 0 32 False)"
proof -
  have "\<exists>i < UART_TIMEOUT. (if even (n + i) then 0 else 0x20 :: u8) AND LSR_THRE \<noteq> 0" for n :: nat
    by (rule exI [of _ "if even n then 1 else 0"]) (simp add: LSR_THRE_def UART_TIMEOUT_def)
  then have "responsive (\<lambda>n. if even n then 0 else 0x20)" by (simp add: responsive_def)
  then show ?thesis
    using uart_output_correct [of "\<lparr>uart_available = True, uart_writes = [], uart_reads = 0\<rparr>" "\<lambda>n. if even n then 0 else 0x20" "[]" "0xBEEF" 0] by simp
qed

end
