(* ===== verification/Kref.thy ===== *)
theory Kref
  imports Prelude
begin

text \<open>
  The atomic integers of \<open>kernel/atomics.h\<close> and the reference counts of \<open>kernel/kref.h\<close>.

  An atomic integer is its 64 bits, and arithmetic wraps around. Every operation is one step, so what
  several processors do to one integer is a sequence of operations. \<open>__atomic_test_and_set\<close> and
  \<open>__atomic_clear\<close> act on the lowest byte of the integer only. The release function is a parameter.
\<close>

type_synonym atomic_t = u64

definition atomic_read :: "atomic_t \<Rightarrow> u64" where
  "atomic_read a = a"

definition atomic_set :: "u64 \<Rightarrow> atomic_t \<Rightarrow> atomic_t" where
  "atomic_set v a = v"

definition atomic_add :: "u64 \<Rightarrow> atomic_t \<Rightarrow> u64 \<times> atomic_t" where
  "atomic_add v a = (a + v, a + v)"

definition atomic_sub :: "u64 \<Rightarrow> atomic_t \<Rightarrow> u64 \<times> atomic_t" where
  "atomic_sub v a = (a - v, a - v)"

definition atomic_inc :: "atomic_t \<Rightarrow> u64 \<times> atomic_t" where
  "atomic_inc a = atomic_add 1 a"

definition atomic_dec :: "atomic_t \<Rightarrow> u64 \<times> atomic_t" where
  "atomic_dec a = atomic_sub 1 a"

text \<open>The result, the new value of the location \<open>expected\<close> points to and that of the integer.\<close>

definition atomic_cas :: "u64 \<Rightarrow> u64 \<Rightarrow> atomic_t \<Rightarrow> bool \<times> u64 \<times> atomic_t" where
  "atomic_cas expected desired a = (if a = expected then (True, expected, desired) else (False, a, a))"

definition atomic_xchg :: "u64 \<Rightarrow> atomic_t \<Rightarrow> u64 \<times> atomic_t" where
  "atomic_xchg v a = (a, v)"

definition atomic_test_and_set :: "atomic_t \<Rightarrow> bool \<times> atomic_t" where
  "atomic_test_and_set a = (a AND 0xFF \<noteq> 0, a AND NOT 0xFF OR 1)"

definition atomic_clear :: "atomic_t \<Rightarrow> atomic_t" where
  "atomic_clear a = a AND NOT 0xFF"

record kref =
  refcount :: atomic_t

definition kref_init :: "kref \<Rightarrow> kref" where
  "kref_init r = r\<lparr>refcount := atomic_set 1 (refcount r)\<rparr>"

definition kref_get :: "kref \<Rightarrow> kref" where
  "kref_get r = r\<lparr>refcount := snd (atomic_inc (refcount r))\<rparr>"

definition kref_put :: "(kref \<Rightarrow> 'w \<Rightarrow> 'w) \<Rightarrow> kref \<Rightarrow> 'w \<Rightarrow> bool \<times> kref \<times> 'w" where
  "kref_put release r w =
     (case atomic_dec (refcount r) of (v, a) \<Rightarrow>
        let r1 = r\<lparr>refcount := a\<rparr> in if v = 0 then (True, r1, release r1 w) else (False, r1, w))"

text \<open>The count is read as an \<open>int\<close>: only its low 32 bits are left.\<close>

definition kref_read :: "kref \<Rightarrow> int" where
  "kref_read r = sint (ucast (atomic_read (refcount r)) :: u32)"

subsection \<open>Owners\<close>

datatype ref_op = Ref_Get | Ref_Put

primrec ref_step :: "(kref \<Rightarrow> 'w \<Rightarrow> 'w) \<Rightarrow> ref_op \<Rightarrow> kref \<times> 'w \<Rightarrow> kref \<times> 'w" where
  "ref_step release Ref_Get = (\<lambda>(r, w). (kref_get r, w))"
| "ref_step release Ref_Put = (\<lambda>(r, w). snd (kref_put release r w))"

definition ref_run :: "(kref \<Rightarrow> 'w \<Rightarrow> 'w) \<Rightarrow> ref_op list \<Rightarrow> kref \<times> 'w \<Rightarrow> kref \<times> 'w" where
  "ref_run release = fold (ref_step release)"

text \<open>How many references are out after a sequence of operations that starts with \<open>n\<close> of them. Only
  the owner of a reference may use the object: \<open>None\<close> if an operation comes when there is none left.\<close>

fun owners :: "nat \<Rightarrow> ref_op list \<Rightarrow> nat option" where
  "owners n [] = Some n"
| "owners 0 (x # xs) = None"
| "owners (Suc n) (Ref_Get # xs) = owners (Suc (Suc n)) xs"
| "owners (Suc n) (Ref_Put # xs) = owners n xs"

lemma owners_none: "owners 0 xs = Some n \<Longrightarrow> xs = [] \<and> n = 0"
  by (cases xs) auto

lemma owners_bound: "owners m xs = Some n \<Longrightarrow> n \<le> m + length xs"
proof (induction m xs rule: owners.induct)
  case (3 n xs)
  then show ?case by fastforce
next
  case (4 n xs)
  then show ?case by fastforce
qed auto

lemma put_steps:
  assumes "refcount r = of_nat (Suc n)" "Suc n < 2 ^ 64"
  shows "ref_step release Ref_Put (r, w) =
    (r\<lparr>refcount := of_nat n\<rparr>, if n = 0 then release (r\<lparr>refcount := 0\<rparr>) w else w)"
proof -
  have a: "refcount r - 1 = of_nat n" using assms(1) by simp
  have "(of_nat n :: u64) = 0 \<longleftrightarrow> n = 0" using assms(2) by (simp add: word_of_nat_eq_0_iff dvd_eq_mod_eq_0)
  then show ?thesis unfolding ref_step.simps prod.case kref_put_def atomic_dec_def atomic_sub_def a Let_def by (cases "n = 0") simp_all
qed

lemma get_steps: "ref_step release Ref_Get (r, w) = (r\<lparr>refcount := refcount r + 1\<rparr>, w)"
  by (simp add: kref_get_def atomic_inc_def atomic_add_def)

lemma run_live:
  assumes "owners m xs = Some n" "0 < m" "m + length xs < 2 ^ 64" "refcount r = of_nat m"
  shows "ref_run release xs (r, w) =
    (r\<lparr>refcount := of_nat n\<rparr>, if n = 0 then release (r\<lparr>refcount := 0\<rparr>) w else w)"
  using assms
proof (induction m xs arbitrary: r rule: owners.induct)
  case (1 n)
  then show ?case by (simp add: ref_run_def)
next
  case (3 m xs)
  let ?r = "r\<lparr>refcount := refcount r + 1\<rparr>"
  have "refcount ?r = of_nat (Suc (Suc m))" using 3 by simp
  then have "ref_run release xs (?r, w) = (?r\<lparr>refcount := of_nat n\<rparr>, if n = 0 then release (?r\<lparr>refcount := 0\<rparr>) w else w)"
    using 3 by (intro "3.IH") simp_all
  then show ?case by (simp add: ref_run_def get_steps del: ref_step.simps)
next
  case (4 m xs)
  let ?r = "r\<lparr>refcount := of_nat m\<rparr>"
  have p: "ref_step release Ref_Put (r, w) = (?r, if m = 0 then release (r\<lparr>refcount := 0\<rparr>) w else w)"
    using 4 by (intro put_steps) simp_all
  show ?case
  proof (cases "m = 0")
    case True
    then show ?thesis using 4 p owners_none [of xs n] by (simp add: ref_run_def del: ref_step.simps)
  next
    case False
    then have "ref_run release xs (?r, w) = (?r\<lparr>refcount := of_nat n\<rparr>, if n = 0 then release (?r\<lparr>refcount := 0\<rparr>) w else w)"
      using 4 by (intro "4.IH") simp_all
    then show ?thesis using p False by (simp add: ref_run_def del: ref_step.simps)
  qed
qed simp

text \<open>References are released exactly once. From the initial reference, whatever gets and puts the
  owners of the references do in whatever order: the count is the number of references that are out, and
  the release function has been called once if and only if the last one was given back, with the object
  as that put left it.\<close>

theorem kref_release_once:
  assumes "owners 1 xs = Some n" "length xs < 2 ^ 31 - 1"
  shows "ref_run release xs (kref_init r, w) =
      ((kref_init r)\<lparr>refcount := of_nat n\<rparr>, if n = 0 then release (r\<lparr>refcount := 0\<rparr>) w else w) \<and>
    kref_read (fst (ref_run release xs (kref_init r, w))) = int n"
proof -
  have r: "ref_run release xs (kref_init r, w) =
      ((kref_init r)\<lparr>refcount := of_nat n\<rparr>, if n = 0 then release ((kref_init r)\<lparr>refcount := 0\<rparr>) w else w)"
    using assms by (intro run_live [of 1]) (simp_all add: kref_init_def atomic_set_def)
  have "n < 2 ^ 31" using owners_bound [OF assms(1)] assms(2) by simp
  then have "sint (ucast (of_nat n :: u64) :: u32) = int n"
    by (simp add: unsigned_of_nat take_bit_nat_eq_self sint_uint signed_take_bit_int_eq_self)
  then show ?thesis unfolding r by (simp add: kref_read_def atomic_read_def kref_init_def)
qed

theorem kref_release_once_witness:
  "ref_run (\<lambda>r. Suc) [Ref_Get, Ref_Put, Ref_Get, Ref_Put, Ref_Put] (kref_init \<lparr>refcount = 77\<rparr>, 0 :: nat) = (\<lparr>refcount = 0\<rparr>, 1)"
proof -
  have "owners 1 [Ref_Get, Ref_Put, Ref_Get, Ref_Put, Ref_Put] = Some 0" by (simp add: One_nat_def)
  then show ?thesis using kref_release_once [of "[Ref_Get, Ref_Put, Ref_Get, Ref_Put, Ref_Put]" 0 "\<lambda>r. Suc" "\<lparr>refcount = 77\<rparr>" 0] by (simp add: kref_init_def)
qed

text \<open>A flag is taken by one processor only until it is cleared, whatever the upper bytes hold.\<close>

lemma flag_taken_once:
  "fst (atomic_test_and_set (snd (atomic_test_and_set a)))" "\<not> fst (atomic_test_and_set (atomic_clear a))"
proof -
  have "(a AND NOT 0xFF OR 1) AND 0xFF = (1 :: u64)" by (rule bit_eqI) (auto simp: bit_simps)
  then show "fst (atomic_test_and_set (snd (atomic_test_and_set a)))" by (simp add: atomic_test_and_set_def)
  have "(a AND NOT 0xFF) AND 0xFF = (0 :: u64)" by (simp add: ac_simps)
  then show "\<not> fst (atomic_test_and_set (atomic_clear a))" by (simp add: atomic_test_and_set_def atomic_clear_def)
qed

end
