(* ===== verification/Xhci.thy ===== *)
theory Xhci
  imports Pci Poll
begin

text \<open>
  The detection of a USB host controller, \<open>kernel/xhci.c\<close> and \<open>kernel/xhci.h\<close>.

  What the hardware answers is a parameter: the PCI configuration space, the capability registers, and
  \<open>hw k a\<close>, the word that the \<open>k\<close>-th read of an operational register gives at address \<open>a\<close>. Writes to the
  operational registers are logged with their addresses; writes to the configuration space are the
  second component of the result of \<open>xhci_init\<close>. What is printed is its first component.
\<close>

definition PCI_COMMAND :: u8 where "PCI_COMMAND = 0x04"
definition PCI_CLASS_SERIAL_BUS :: u8 where "PCI_CLASS_SERIAL_BUS = 0x0C"
definition PCI_SUBCLASS_USB :: u8 where "PCI_SUBCLASS_USB = 0x03"
definition PCI_PROGIF_XHCI :: u8 where "PCI_PROGIF_XHCI = 0x30"
definition XHCI_CMD_RUN :: u32 where "XHCI_CMD_RUN = 0x1"
definition XHCI_CMD_HCRST :: u32 where "XHCI_CMD_HCRST = 0x2"
definition XHCI_STS_HCH :: u32 where "XHCI_STS_HCH = 0x1"
definition XHCI_STS_CNR :: u32 where "XHCI_STS_CNR = 0x800"
definition XHCI_PORTSC_CCS :: u32 where "XHCI_PORTSC_CCS = 0x1"
definition XHCI_PORTSC_SPEED_MASK :: u32 where "XHCI_PORTSC_SPEED_MASK = push_bit 10 0xF"
definition XHCI_OP_USBCMD :: u32 where "XHCI_OP_USBCMD = 0x00"
definition XHCI_OP_USBSTS :: u32 where "XHCI_OP_USBSTS = 0x04"

definition XHCI_OP_PORTSC :: "u32 \<Rightarrow> u32" where
  "XHCI_OP_PORTSC n = 0x400 + n * 0x10"

record xhci_cap_regs =
  caplength :: u8
  cap_reserved :: u8
  hci_version :: u16
  hcsparams1 :: u32
  hcsparams2 :: u32
  hcsparams3 :: u32
  hccparams1 :: u32
  dboff :: u32
  rtsoff :: u32
  hccparams2 :: u32

definition XHCI_MAX_SLOTS :: "u32 \<Rightarrow> u32" where "XHCI_MAX_SLOTS p1 = p1 AND 0xFF"
definition XHCI_MAX_INTRS :: "u32 \<Rightarrow> u32" where "XHCI_MAX_INTRS p1 = drop_bit 8 p1 AND 0x7FF"
definition XHCI_MAX_PORTS :: "u32 \<Rightarrow> u32" where "XHCI_MAX_PORTS p1 = drop_bit 24 p1 AND 0xFF"

record xhci =
  xhci_base :: u64
  xhci_cap_length :: u8
  op_writes :: "(u64 \<times> u32) list"
  op_reads :: nat

type_synonym xhci_hw = "nat \<Rightarrow> u64 \<Rightarrow> u32"

definition op_addr :: "xhci \<Rightarrow> u32 \<Rightarrow> u64" where
  "op_addr s off = xhci_base s + ucast (xhci_cap_length s) + ucast off"

definition xhci_op_read32 :: "xhci_hw \<Rightarrow> u32 \<Rightarrow> xhci \<Rightarrow> u32 \<times> xhci" where
  "xhci_op_read32 hw off s = (hw (op_reads s) (op_addr s off), s\<lparr>op_reads := op_reads s + 1\<rparr>)"

definition xhci_op_write32 :: "u32 \<Rightarrow> u32 \<Rightarrow> xhci \<Rightarrow> xhci" where
  "xhci_op_write32 off v s = s\<lparr>op_writes := op_writes s @ [(op_addr s off, v)]\<rparr>"

definition xhci_speed_str :: "u32 \<Rightarrow> string" where
  "xhci_speed_str speed =
     (if speed = 1 then ''Full-Speed (12 Mbps)'' else if speed = 2 then ''Low-Speed (1.5 Mbps)''
      else if speed = 3 then ''High-Speed (480 Mbps)'' else if speed = 4 then ''SuperSpeed (5 Gbps)'' else ''Unknown speed'')"

text \<open>The three waits of the reset: whether the register had the awaited value before the timeout.\<close>

definition op_wait :: "xhci_hw \<Rightarrow> u32 \<Rightarrow> (u32 \<Rightarrow> bool) \<Rightarrow> nat \<Rightarrow> xhci \<Rightarrow> bool \<times> xhci" where
  "op_wait hw off ok t s = (case poll (\<lambda>k. ok (hw k (op_addr s off))) t (op_reads s) of (b, n) \<Rightarrow> (b, s\<lparr>op_reads := n\<rparr>))"

definition xhci_reset :: "xhci_hw \<Rightarrow> xhci \<Rightarrow> int \<times> xhci" where
  "xhci_reset hw s =
     (case xhci_op_read32 hw XHCI_OP_USBCMD s of (cmd, s1) \<Rightarrow>
      case op_wait hw XHCI_OP_USBSTS (\<lambda>v. v AND XHCI_STS_HCH \<noteq> 0) 100000 (xhci_op_write32 XHCI_OP_USBCMD (cmd AND NOT XHCI_CMD_RUN) s1) of (halted, s2) \<Rightarrow>
      if \<not> halted then (- 1, s2)
      else
      case xhci_op_read32 hw XHCI_OP_USBCMD s2 of (cmd, s3) \<Rightarrow>
      case op_wait hw XHCI_OP_USBCMD (\<lambda>v. v AND XHCI_CMD_HCRST = 0) 1000000 (xhci_op_write32 XHCI_OP_USBCMD (cmd OR XHCI_CMD_HCRST) s3) of (done_reset, s4) \<Rightarrow>
      if \<not> done_reset then (- 1, s4)
      else
      case op_wait hw XHCI_OP_USBSTS (\<lambda>v. v AND XHCI_STS_CNR = 0) 1000000 s4 of (ready, s5) \<Rightarrow>
      if \<not> ready then (- 1, s5) else (0, s5))"

text \<open>The loop over the ports: the lines it prints, with the port number and the speed.\<close>

fun port_loop :: "xhci_hw \<Rightarrow> nat list \<Rightarrow> xhci \<Rightarrow> (nat \<times> string) list \<times> xhci" where
  "port_loop hw [] s = ([], s)"
| "port_loop hw (p # ps) s =
     (case xhci_op_read32 hw (XHCI_OP_PORTSC (of_nat p)) s of (portsc, s1) \<Rightarrow>
      case port_loop hw ps s1 of (ls, s2) \<Rightarrow>
        (if portsc AND XHCI_PORTSC_CCS \<noteq> 0
         then (p + 1, xhci_speed_str (drop_bit 10 (portsc AND XHCI_PORTSC_SPEED_MASK))) # ls else ls, s2))"

definition xhci_enumerate_ports :: "xhci_hw \<Rightarrow> u32 \<Rightarrow> xhci \<Rightarrow> ((nat \<times> string) list \<times> nat) \<times> xhci" where
  "xhci_enumerate_ports hw max_ports s =
     (case port_loop hw [0..<unat max_ports] s of (ls, s1) \<Rightarrow> ((ls, length ls), s1))"

datatype xhci_report = No_Controller | Bar_Is_IO | Bar_Is_Null | Reset_Failed | Devices "(nat \<times> string) list" nat

definition bar_address :: "u32 list \<Rightarrow> u64" where
  "bar_address bars =
     (let phys = ucast (bars ! 0 AND 0xFFFFFFF0) in
      if bars ! 0 AND 0x06 = 0x04 then phys OR push_bit 32 (ucast (bars ! 1)) else phys)"

definition xhci_init ::
  "pci_config \<Rightarrow> u64 \<Rightarrow> xhci_cap_regs \<Rightarrow> xhci_hw \<Rightarrow> xhci \<Rightarrow> xhci_report \<times> (u16 \<times> u32) list \<times> xhci" where
  "xhci_init cfg hhdm_offset caps hw s =
     (case pci_find_device cfg PCI_CLASS_SERIAL_BUS PCI_SUBCLASS_USB PCI_PROGIF_XHCI of
        (None, ret) \<Rightarrow> (No_Controller, [], s)
      | (Some d, ret) \<Rightarrow>
        if bar d ! 0 AND 1 \<noteq> 0 then (Bar_Is_IO, [], s)
        else let mmio_phys = bar_address (bar d) in
        if mmio_phys = 0 then (Bar_Is_Null, [], s)
        else let cmd = pci_read16 cfg (d_bus d) (d_device d) (d_function d) PCI_COMMAND;
          ws = pci_write32 (d_bus d) (d_device d) (d_function d) PCI_COMMAND (ucast (cmd OR 0x06));
          s1 = s\<lparr>xhci_base := mmio_phys + hhdm_offset, xhci_cap_length := caplength caps\<rparr>
        in case xhci_reset hw s1 of (ret, s2) \<Rightarrow>
           if ret < 0 then (Reset_Failed, ws, s2)
           else case xhci_enumerate_ports hw (XHCI_MAX_PORTS (hcsparams1 caps)) s2 of ((ls, found), s3) \<Rightarrow> (Devices ls found, ws, s3))"

subsection \<open>The reset\<close>

lemma op_addr_reads [simp]: "op_addr (s\<lparr>op_reads := n\<rparr>) = op_addr s" "op_addr (s\<lparr>op_writes := ws\<rparr>) = op_addr s"
  by (simp_all add: op_addr_def fun_eq_iff)

lemma op_wait_steps:
  assumes "op_wait hw off ok t s = (b, s')"
  shows "\<exists>n. s' = s\<lparr>op_reads := n\<rparr> \<and> n \<le> op_reads s + t \<and> (b \<longleftrightarrow> (\<exists>i < t. ok (hw (op_reads s + i) (op_addr s off)))) \<and>
    (b \<longrightarrow> op_reads s < n \<and> ok (hw (n - 1) (op_addr s off)))"
proof -
  let ?ok = "\<lambda>k. ok (hw k (op_addr s off))"
  obtain n where n: "poll ?ok t (op_reads s) = (b, n)" "s' = s\<lparr>op_reads := n\<rparr>" using assms by (auto simp: op_wait_def split: prod.splits)
  have "n \<le> op_reads s + t" "b \<longleftrightarrow> (\<exists>i < t. ?ok (op_reads s + i))"
    using poll_bound [of ?ok t "op_reads s"] poll_success [of ?ok t "op_reads s"] n(1) by simp_all
  moreover have "b \<longrightarrow> op_reads s < n \<and> ?ok (n - 1)" using poll_last [of ?ok t "op_reads s" n] n(1) by (cases b) simp_all
  ultimately show ?thesis using n(2) by blast
qed

text \<open>What a reset does: it stops after the halt, after the reset or with the controller ready.\<close>

definition reset_stops :: "xhci_hw \<Rightarrow> xhci \<Rightarrow> int \<times> xhci \<Rightarrow> bool" where
  "reset_stops hw s res \<longleftrightarrow>
     (let a = op_addr s XHCI_OP_USBCMD; b = op_addr s XHCI_OP_USBSTS; n = op_reads s; w1 = (a, hw n a AND NOT XHCI_CMD_RUN);
        halts = (\<exists>i < 100000. hw (n + 1 + i) b AND XHCI_STS_HCH \<noteq> 0) in
      (\<not> halts \<and> (\<exists>k \<le> n + 100001. res = (- 1, s\<lparr>op_reads := k, op_writes := op_writes s @ [w1]\<rparr>))) \<or>
      (halts \<and> (\<exists>m > n. hw (m - 1) b AND XHCI_STS_HCH \<noteq> 0 \<and> m \<le> n + 100001 \<and>
        (\<exists>r k. res = (r, s\<lparr>op_reads := k, op_writes := op_writes s @ [w1, (a, hw m a OR XHCI_CMD_HCRST)]\<rparr>) \<and> k \<le> m + 2000001 \<and>
          (let clears = (\<exists>i < 1000000. hw (m + 1 + i) a AND XHCI_CMD_HCRST = 0) in
           (\<not> clears \<and> r = - 1) \<or>
           (clears \<and> (\<exists>j > m. hw (j - 1) a AND XHCI_CMD_HCRST = 0 \<and>
              (r = - 1 \<and> \<not> (\<exists>i < 1000000. hw (j + i) b AND XHCI_STS_CNR = 0) \<or>
               r = 0 \<and> j < k \<and> hw (k - 1) b AND XHCI_STS_CNR = 0))))))))"

lemma reset_steps: "reset_stops hw s (xhci_reset hw s)"
proof -
  define a b n where "a = op_addr s XHCI_OP_USBCMD" and "b = op_addr s XHCI_OP_USBSTS" and "n = op_reads s"
  define w1 where "w1 = (a, hw n a AND NOT XHCI_CMD_RUN)"
  let ?s1 = "s\<lparr>op_reads := n + 1, op_writes := op_writes s @ [w1]\<rparr>"
  obtain h s2 where w: "op_wait hw XHCI_OP_USBSTS (\<lambda>v. v AND XHCI_STS_HCH \<noteq> 0) 100000 ?s1 = (h, s2)" by (cases "op_wait hw XHCI_OP_USBSTS (\<lambda>v. v AND XHCI_STS_HCH \<noteq> 0) 100000 ?s1")
  obtain m where m: "s2 = ?s1\<lparr>op_reads := m\<rparr>" "m \<le> n + 1 + 100000" "h \<longleftrightarrow> (\<exists>i < 100000. hw (n + 1 + i) b AND XHCI_STS_HCH \<noteq> 0)"
    "h \<longrightarrow> n + 1 < m \<and> hw (m - 1) b AND XHCI_STS_HCH \<noteq> 0"
    using op_wait_steps [OF w] by (auto simp: b_def)
  have r1: "xhci_reset hw s = (if \<not> h then (- 1, s2) else
      case xhci_op_read32 hw XHCI_OP_USBCMD s2 of (cmd, s3) \<Rightarrow>
      case op_wait hw XHCI_OP_USBCMD (\<lambda>v. v AND XHCI_CMD_HCRST = 0) 1000000 (xhci_op_write32 XHCI_OP_USBCMD (cmd OR XHCI_CMD_HCRST) s3) of (done_reset, s4) \<Rightarrow>
      if \<not> done_reset then (- 1, s4)
      else
      case op_wait hw XHCI_OP_USBSTS (\<lambda>v. v AND XHCI_STS_CNR = 0) 1000000 s4 of (ready, s5) \<Rightarrow>
      if \<not> ready then (- 1, s5) else (0, s5))"
  proof -
    have e: "xhci_op_write32 XHCI_OP_USBCMD (hw (op_reads s) (op_addr s XHCI_OP_USBCMD) AND NOT XHCI_CMD_RUN) (s\<lparr>op_reads := op_reads s + 1\<rparr>) = ?s1"
      by (simp add: xhci_op_write32_def a_def n_def w1_def)
    show ?thesis unfolding xhci_reset_def xhci_op_read32_def [of hw XHCI_OP_USBCMD s] prod.case e w by (rule refl)
  qed
  show ?thesis
  proof (cases h)
    case False
    have r: "xhci_reset hw s = (- 1, s\<lparr>op_reads := m, op_writes := op_writes s @ [w1]\<rparr>)" unfolding r1 m(1) using False by simp
    have "m \<le> n + 100001" using m(2) by simp
    then show ?thesis
      unfolding reset_stops_def Let_def a_def [symmetric] b_def [symmetric] n_def [symmetric] w1_def [symmetric] m(3) [symmetric] r
      using False by blast
  next
    case True
    let ?s3 = "s\<lparr>op_reads := m + 1, op_writes := op_writes s @ [w1, (a, hw m a OR XHCI_CMD_HCRST)]\<rparr>"
    obtain c s4 where w2: "op_wait hw XHCI_OP_USBCMD (\<lambda>v. v AND XHCI_CMD_HCRST = 0) 1000000 ?s3 = (c, s4)" by (cases "op_wait hw XHCI_OP_USBCMD (\<lambda>v. v AND XHCI_CMD_HCRST = 0) 1000000 ?s3")
    obtain j where j: "s4 = ?s3\<lparr>op_reads := j\<rparr>" "j \<le> m + 1 + 1000000" "c \<longleftrightarrow> (\<exists>i < 1000000. hw (m + 1 + i) a AND XHCI_CMD_HCRST = 0)"
      "c \<longrightarrow> m + 1 < j \<and> hw (j - 1) a AND XHCI_CMD_HCRST = 0"
      using op_wait_steps [OF w2] by (auto simp: a_def)
    obtain d s5 where w3: "op_wait hw XHCI_OP_USBSTS (\<lambda>v. v AND XHCI_STS_CNR = 0) 1000000 s4 = (d, s5)" by (cases "op_wait hw XHCI_OP_USBSTS (\<lambda>v. v AND XHCI_STS_CNR = 0) 1000000 s4")
    obtain k where k: "s5 = s4\<lparr>op_reads := k\<rparr>" "k \<le> j + 1000000" "d \<longleftrightarrow> (\<exists>i < 1000000. hw (j + i) b AND XHCI_STS_CNR = 0)"
      "d \<longrightarrow> j < k \<and> hw (k - 1) b AND XHCI_STS_CNR = 0"
      using op_wait_steps [OF w3] by (auto simp: b_def j(1))
    have r2: "xhci_reset hw s = (if \<not> c then (- 1, s4) else if \<not> d then (- 1, s5) else (0, s5))"
    proof -
      have e: "xhci_op_read32 hw XHCI_OP_USBCMD s2 = (hw m a, s2\<lparr>op_reads := m + 1\<rparr>)"
        "xhci_op_write32 XHCI_OP_USBCMD (hw m a OR XHCI_CMD_HCRST) (s2\<lparr>op_reads := m + 1\<rparr>) = ?s3"
        by (simp_all add: xhci_op_read32_def xhci_op_write32_def a_def m(1))
      show ?thesis unfolding r1 e prod.case w2 w3 using True by simp
    qed
    have s: "s4 = s\<lparr>op_reads := j, op_writes := op_writes s @ [w1, (a, hw m a OR XHCI_CMD_HCRST)]\<rparr>"
      "s5 = s\<lparr>op_reads := k, op_writes := op_writes s @ [w1, (a, hw m a OR XHCI_CMD_HCRST)]\<rparr>" using j(1) k(1) by simp_all
    define r k' where "r = (if c \<and> d then 0 else - 1 :: int)" and "k' = (if c then k else j)"
    have r: "xhci_reset hw s = (r, s\<lparr>op_reads := k', op_writes := op_writes s @ [w1, (a, hw m a OR XHCI_CMD_HCRST)]\<rparr>)"
      unfolding r2 s r_def k'_def by simp
    have b: "k' \<le> m + 2000001" "n < m" "m \<le> n + 100001" using m(2,4) j(2) k(2) True by (simp_all add: k'_def)
    have f: "(\<not> c \<and> r = - 1) \<or> (c \<and> (\<exists>j > m. hw (j - 1) a AND XHCI_CMD_HCRST = 0 \<and>
        (r = - 1 \<and> \<not> (\<exists>i < 1000000. hw (j + i) b AND XHCI_STS_CNR = 0) \<or> r = 0 \<and> j < k' \<and> hw (k' - 1) b AND XHCI_STS_CNR = 0)))"
    proof (cases c)
      case True
      then have "m < j" "hw (j - 1) a AND XHCI_CMD_HCRST = 0" "k' = k" "r = (if d then 0 else - 1)" using j(4) by (simp_all add: r_def k'_def)
      then show ?thesis using True k(3,4) by (cases d) auto
    qed (simp add: r_def)
    show ?thesis
      unfolding reset_stops_def Let_def a_def [symmetric] b_def [symmetric] n_def [symmetric] w1_def [symmetric] m(3) [symmetric] r
      using True m(4) b f unfolding j(3) by blast
  qed
qed

text \<open>The hardware obeys within the timeouts, whenever it is asked.\<close>

definition obeys :: "xhci_hw \<Rightarrow> u64 \<Rightarrow> u64 \<Rightarrow> bool" where
  "obeys hw a b \<longleftrightarrow> (\<forall>n. (\<exists>i < 100000. hw (n + i) b AND XHCI_STS_HCH \<noteq> 0) \<and>
     (\<exists>i < 1000000. hw (n + i) a AND XHCI_CMD_HCRST = 0) \<and> (\<exists>i < 1000000. hw (n + i) b AND XHCI_STS_CNR = 0))"

text \<open>The order of a reset that succeeds: a status read shows the controller halted, only then the reset
  bit is set; it is read back clear, and the last read shows the controller ready.\<close>

definition reset_order :: "xhci_hw \<Rightarrow> u64 \<Rightarrow> u64 \<Rightarrow> nat \<Rightarrow> nat \<Rightarrow> (u64 \<times> u32) list \<Rightarrow> bool" where
  "reset_order hw a b n k ws \<longleftrightarrow>
     (\<exists>m j. n < m \<and> m < j \<and> j < k \<and> hw (m - 1) b AND XHCI_STS_HCH \<noteq> 0 \<and> hw (j - 1) a AND XHCI_CMD_HCRST = 0 \<and>
        hw (k - 1) b AND XHCI_STS_CNR = 0 \<and> ws = [(a, hw n a AND NOT XHCI_CMD_RUN), (a, hw m a OR XHCI_CMD_HCRST)])"

lemma reset_result:
  assumes "xhci_reset hw s = (r, s')"
  defines "a \<equiv> op_addr s XHCI_OP_USBCMD" and "b \<equiv> op_addr s XHCI_OP_USBSTS"
  shows "\<exists>k ws. s' = s\<lparr>op_reads := k, op_writes := op_writes s @ ws\<rparr> \<and> k \<le> op_reads s + 2100002 \<and>
    (r = 0 \<and> reset_order hw a b (op_reads s) k ws \<or> r = - 1 \<and> \<not> obeys hw a b)"
proof -
  have st: "reset_stops hw s (r, s')" using reset_steps [of hw s] assms(1) by simp
  consider k where "\<not> (\<exists>i < 100000. hw (op_reads s + 1 + i) b AND XHCI_STS_HCH \<noteq> 0)" "k \<le> op_reads s + 100001" "r = - 1"
      "s' = s\<lparr>op_reads := k, op_writes := op_writes s @ [(a, hw (op_reads s) a AND NOT XHCI_CMD_RUN)]\<rparr>"
    | m k where "op_reads s < m" "hw (m - 1) b AND XHCI_STS_HCH \<noteq> 0" "m \<le> op_reads s + 100001" "k \<le> m + 2000001"
      "s' = s\<lparr>op_reads := k, op_writes := op_writes s @ [(a, hw (op_reads s) a AND NOT XHCI_CMD_RUN), (a, hw m a OR XHCI_CMD_HCRST)]\<rparr>"
      "(\<not> (\<exists>i < 1000000. hw (m + 1 + i) a AND XHCI_CMD_HCRST = 0) \<and> r = - 1) \<or>
       (\<exists>j > m. hw (j - 1) a AND XHCI_CMD_HCRST = 0 \<and> (r = - 1 \<and> \<not> (\<exists>i < 1000000. hw (j + i) b AND XHCI_STS_CNR = 0) \<or>
               r = 0 \<and> j < k \<and> hw (k - 1) b AND XHCI_STS_CNR = 0))"
    using st unfolding reset_stops_def Let_def a_def [symmetric] b_def [symmetric] by blast
  then show ?thesis
  proof cases
    case 1
    moreover have "\<not> obeys hw a b" using 1(1) unfolding obeys_def by blast
    moreover have "k \<le> op_reads s + 2100002" using 1(2) by simp
    ultimately show ?thesis by blast
  next
    case 2
    have k: "k \<le> op_reads s + 2100002" using 2(3,4) by simp
    have "r = 0 \<and> reset_order hw a b (op_reads s) k [(a, hw (op_reads s) a AND NOT XHCI_CMD_RUN), (a, hw m a OR XHCI_CMD_HCRST)] \<or>
        r = - 1 \<and> \<not> obeys hw a b"
      using 2(1,2,6) unfolding obeys_def reset_order_def by blast
    then show ?thesis using 2(5) k by blast
  qed
qed

lemma port_loop_lines:
  "port_loop hw [i..<i + n] s = (map (\<lambda>p. (p + 1, xhci_speed_str (drop_bit 10 (hw (op_reads s + p - i) (op_addr s (XHCI_OP_PORTSC (of_nat p))) AND XHCI_PORTSC_SPEED_MASK))))
     (filter (\<lambda>p. hw (op_reads s + p - i) (op_addr s (XHCI_OP_PORTSC (of_nat p))) AND XHCI_PORTSC_CCS \<noteq> 0) [i..<i + n]), s\<lparr>op_reads := op_reads s + n\<rparr>)"
proof (induction n arbitrary: i s)
  case (Suc n)
  have "[i..<i + Suc n] = i # [Suc i..<Suc i + n]" by (simp add: upt_rec)
  moreover have "op_reads s + 1 + p - Suc i = op_reads s + p - i" for p by simp
  ultimately show ?case using Suc.IH [of "Suc i" "s\<lparr>op_reads := op_reads s + 1\<rparr>"] by (simp add: xhci_op_read32_def)
qed simp

text \<open>The devices that the controller reports at its ports, when the first port is read as the \<open>k\<close>-th.\<close>

definition connected :: "xhci_hw \<Rightarrow> xhci \<Rightarrow> nat \<Rightarrow> nat \<Rightarrow> (nat \<times> string) list" where
  "connected hw s k n =
     map (\<lambda>p. (p + 1, xhci_speed_str (drop_bit 10 (hw (k + p) (op_addr s (XHCI_OP_PORTSC (of_nat p))) AND XHCI_PORTSC_SPEED_MASK))))
       (filter (\<lambda>p. hw (k + p) (op_addr s (XHCI_OP_PORTSC (of_nat p))) AND XHCI_PORTSC_CCS \<noteq> 0) [0..<n])"

lemma enumerate_lines:
  "xhci_enumerate_ports hw m s =
     ((connected hw s (op_reads s) (unat m), length (connected hw s (op_reads s) (unat m))), s\<lparr>op_reads := op_reads s + unat m\<rparr>)"
  using port_loop_lines [of hw 0 "unat m" s] by (simp add: xhci_enumerate_ports_def connected_def)

text \<open>The detection of a controller with a memory address. Its memory space and bus mastering are
  switched on and no other command bit changes; every wait ends, after at most 2100002 reads in all; a
  device report comes only after the controller was seen halted, then reset, then ready, in this order,
  and it names exactly the ports that show a connection, with their speeds; and with hardware that obeys
  within the timeouts there is a device report.\<close>

theorem xhci_init_correct:
  fixes s :: xhci and hhdm :: u64 and caps :: xhci_cap_regs
  assumes "pci_find_device cfg PCI_CLASS_SERIAL_BUS PCI_SUBCLASS_USB PCI_PROGIF_XHCI = (Some d, ret)"
    and "bar d ! 0 AND 1 = 0" and "bar_address (bar d) \<noteq> 0"
  defines "cmd \<equiv> pci_read16 cfg (d_bus d) (d_device d) (d_function d) PCI_COMMAND"
    and "s1 \<equiv> s\<lparr>xhci_base := bar_address (bar d) + hhdm, xhci_cap_length := caplength caps\<rparr>"
    and "ports \<equiv> unat (XHCI_MAX_PORTS (hcsparams1 caps))"
  shows "\<exists>report k ws n. xhci_init cfg hhdm caps hw s =
      (report, [(PCI_CONFIG_ADDR, pci_config_addr (d_bus d) (d_device d) (d_function d) PCI_COMMAND), (PCI_CONFIG_DATA, ucast (cmd OR 6))],
       s1\<lparr>op_reads := n, op_writes := op_writes s @ ws\<rparr>) \<and> k \<le> op_reads s + 2100002 \<and>
    (report = Devices (connected hw s1 k ports) (length (connected hw s1 k ports)) \<and> n = k + ports \<and>
       reset_order hw (op_addr s1 XHCI_OP_USBCMD) (op_addr s1 XHCI_OP_USBSTS) (op_reads s) k ws \<or>
     report = Reset_Failed \<and> n = k \<and> \<not> obeys hw (op_addr s1 XHCI_OP_USBCMD) (op_addr s1 XHCI_OP_USBSTS))"
proof -
  obtain r s2 where r: "xhci_reset hw s1 = (r, s2)" by (cases "xhci_reset hw s1")
  let ?a = "op_addr s1 XHCI_OP_USBCMD" and ?b = "op_addr s1 XHCI_OP_USBSTS"
  have s1: "op_reads s1 = op_reads s" "op_writes s1 = op_writes s" by (simp_all add: s1_def)
  obtain k ws where k: "s2 = s1\<lparr>op_reads := k, op_writes := op_writes s @ ws\<rparr>" "k \<le> op_reads s + 2100002"
    "r = 0 \<and> reset_order hw ?a ?b (op_reads s) k ws \<or> r = - 1 \<and> \<not> obeys hw ?a ?b"
    using reset_result [OF r] unfolding s1 by blast
  let ?w = "[(PCI_CONFIG_ADDR, pci_config_addr (d_bus d) (d_device d) (d_function d) PCI_COMMAND), (PCI_CONFIG_DATA, ucast (cmd OR 6))]"
  have i: "xhci_init cfg hhdm caps hw s = (if r < 0 then (Reset_Failed, ?w, s2)
      else case xhci_enumerate_ports hw (XHCI_MAX_PORTS (hcsparams1 caps)) s2 of ((ls, found), s3) \<Rightarrow> (Devices ls found, ?w, s3))"
    unfolding xhci_init_def assms(1) prod.case option.case Let_def s1_def [symmetric] r using assms(2,3) by (simp add: pci_write32_def cmd_def)
  from k(3) show ?thesis
  proof (elim disjE conjE)
    assume z: "r = 0" "reset_order hw ?a ?b (op_reads s) k ws"
    have c: "connected hw s2 (op_reads s2) ports = connected hw s1 k ports" by (simp add: k(1) connected_def)
    have "xhci_init cfg hhdm caps hw s = (Devices (connected hw s1 k ports) (length (connected hw s1 k ports)), ?w, s2\<lparr>op_reads := k + ports\<rparr>)"
      unfolding i enumerate_lines ports_def [symmetric] c using z(1) by (simp add: k(1))
    moreover have "s2\<lparr>op_reads := k + ports\<rparr> = s1\<lparr>op_reads := k + ports, op_writes := op_writes s @ ws\<rparr>" by (simp add: k(1))
    ultimately show ?thesis using z(2) k(2) by (metis (no_types))
  next
    assume z: "r = - 1" "\<not> obeys hw ?a ?b"
    have "xhci_init cfg hhdm caps hw s = (Reset_Failed, ?w, s1\<lparr>op_reads := k, op_writes := op_writes s @ ws\<rparr>)"
      unfolding i using z(1) k(1) by simp
    then show ?thesis using z(2) k(2) by blast
  qed
qed

text \<open>A controller at the first place of the first bus, with a fast device at the second of its two ports.\<close>

definition usb_config :: pci_config where
  "usb_config x =
     (if x = pci_config_addr 0 0 0 0 then 0x00011B36 else if x = pci_config_addr 0 0 0 4 then 0x00100003
      else if x = pci_config_addr 0 0 0 8 then 0x0C033000 else if x = pci_config_addr 0 0 0 0x10 then 0xFEB00004
      else if x = pci_config_addr 0 0 0 0x14 then 0x8 else 0)"

definition usb_caps :: xhci_cap_regs where
  "usb_caps = \<lparr>caplength = 0x20, cap_reserved = 0, hci_version = 0x100, hcsparams1 = 0x02000140, hcsparams2 = 0, hcsparams3 = 0,
     hccparams1 = 0, dboff = 0, rtsoff = 0, hccparams2 = 0\<rparr>"

definition usb_regs :: xhci_hw where
  "usb_regs k x = (if x = 0xFFFF8008FEB00024 then 1 else if x = 0xFFFF8008FEB00430 then 0xC03 else 0)"

definition usb_found :: pci_device where
  "usb_found = fill_device usb_config 0 0 0"

lemma usb_scan: "pci_find_device usb_config PCI_CLASS_SERIAL_BUS PCI_SUBCLASS_USB PCI_PROGIF_XHCI = (Some usb_found, 0)"
proof -
  have u: "[0..<8] = 0 # [1..<8]" "[0..<32] = 0 # [1..<32]" "[0..<256] = 0 # [1..<256::nat]" by (simp_all only: upt_conv_Cons [of 0] zero_less_numeral One_nat_def)
  have "\<not> no_function usb_config 0 0 0" "class_matches usb_config PCI_CLASS_SERIAL_BUS PCI_SUBCLASS_USB PCI_PROGIF_XHCI 0 0 0"
    by code_simp+
  then show ?thesis
    unfolding pci_find_device_def u find_bus.simps find_dev.simps find_func.simps by (simp add: usb_found_def Let_def)
qed

theorem xhci_init_correct_witness:
  "\<exists>ws s'. xhci_init usb_config 0xFFFF800000000000 usb_caps usb_regs \<lparr>xhci_base = 0, xhci_cap_length = 0, op_writes = [], op_reads = 0\<rparr> =
     (Devices [(2, ''High-Speed (480 Mbps)'')] 1, ws, s')"
proof -
  let ?s = "\<lparr>xhci_base = 0, xhci_cap_length = 0, op_writes = [], op_reads = 0\<rparr>"
  let ?s1 = "?s\<lparr>xhci_base := bar_address (bar usb_found) + 0xFFFF800000000000, xhci_cap_length := caplength usb_caps\<rparr>"
  have h: "bar usb_found ! 0 AND 1 = 0" "bar_address (bar usb_found) \<noteq> 0" by code_simp+
  have a: "op_addr ?s1 XHCI_OP_USBCMD = 0xFFFF8008FEB00020" "op_addr ?s1 XHCI_OP_USBSTS = 0xFFFF8008FEB00024" by code_simp+
  have c: "connected usb_regs ?s1 k (unat (XHCI_MAX_PORTS (hcsparams1 usb_caps))) = [(2, ''High-Speed (480 Mbps)'')]" for k
  proof -
    have "connected usb_regs ?s1 k (unat (XHCI_MAX_PORTS (hcsparams1 usb_caps))) = connected usb_regs ?s1 0 (unat (XHCI_MAX_PORTS (hcsparams1 usb_caps)))"
      by (simp add: connected_def usb_regs_def)
    also have "\<dots> = [(2, ''High-Speed (480 Mbps)'')]" by code_simp
    finally show ?thesis .
  qed
  have "obeys usb_regs 0xFFFF8008FEB00020 0xFFFF8008FEB00024" 
    by (simp add: obeys_def usb_regs_def XHCI_STS_HCH_def XHCI_STS_CNR_def) (intro conjI exI [of _ 0]; simp)
  then show ?thesis using xhci_init_correct [OF usb_scan h, of "0xFFFF800000000000" usb_caps usb_regs ?s] unfolding a c by fastforce
qed

end
