(* ===== verification/Spec2Isabelle.thy ===== *)
theory Spec2Isabelle
  imports Bitmap_Alloc Pmm_Spec Sched_Spec Sync_Spec Msgqueue Vmm_Init Vma Kmalloc_Spec Kprintf_Spec Ktimer Devfs Ringbuf String_Lib Ilist Console_Spec Workqueue Mempressure
    Interrupts Descriptors Pci Shootdown Main_Loop Uart Kref Xhci
begin

text \<open>
  \<^bold>\<open>A verification library for the kernel under \<open>src/kernel\<close>.\<close>

  The kernel runs on one processor with preemption by the timer interrupt. At boot \<open>_start\<close> brings up
  the page allocator, the page tables, the heap, the drivers and the scheduler, and ends in the loop of
  the init task. From then on the timer interrupt drives the interval timer, the timer wheel, the
  watchdog and the scheduler; tasks block on semaphores, mutexes, events and message queues, which keep
  their sleepers on wait queues of the scheduler; the keyboard interrupt fills the key buffer, which the
  main loop echoes on the console and the device layer hands to readers of the file system layer.

  \<^bold>\<open>How code is modelled.\<close> A structure is a record and an enumeration a datatype, with the names of the
  source; integers are words of their width, so that they wrap around as in the code; counters of loops
  and indices into arrays of fixed size are natural numbers. An operation takes the state and returns the
  new one. What stops the machine is the left side of the type \<open>'a res\<close>: \<open>KAssert\<close> is a failed assertion
  or a panic, \<open>Deadlock\<close> is a loop that never ends (a lock taken twice), \<open>Fault\<close> is an access the C
  program must not make. Errors that the code returns are values, with the negated numbers of \<open>errno.h\<close>.

  \<^item> An operation that runs under its lock is one step; the lock itself, and the sender and receivers of
    a shootdown, are step relations in which processors interleave.
  \<^item> A blocking loop (semaphore, mutex, message queue) is one pass: the caller acquires, or it is put to
    sleep and another task runs. Theorems about them are over all sequences of such passes. The code
    releases the lock of the object between queueing the caller and calling \<open>schedule\<close>. For the
    semaphore the two are separate steps and interrupts come in between; for mutexes, events, message
    queues and \<open>wq_wait\<close> a pass is not interrupted there.
  \<^item> Intrusive lists are lists of the indices of their members; \<open>Ilist\<close> proves the pointer operations of
    \<open>list.h\<close> to do what the list operations do. The free lists of the page allocator keep their links.
  \<^item> The heap sees memory as typed views: slab headers and the words of free lists, and the bytes.
  \<^item> Answers of the hardware, boot loader data, callbacks and the code that runs while a task is switched
    out are parameters; what a theorem needs of them is a hypothesis.

  \<^bold>\<open>Theories, by component.\<close>

  \<^item> Shared: \<open>Prelude\<close> (words, results, bit scan, aligned blocks), \<open>Memory\<close> (\<open>memory.h\<close>), \<open>Errno\<close>,
    \<open>Fifo\<close> (the contract \<open>bounded_fifo\<close>) and \<open>Poll\<close> (waiting for hardware with a timeout).
  \<^item> Page allocator (\<open>pmm.c\<close>): \<open>Pmm\<close> has the operations. \<open>Pmm_Lists\<close>, \<open>Pmm_Steps\<close>, \<open>Pmm_Buddy\<close>,
    \<open>Pmm_Heap\<close>, \<open>Pmm_Proofs\<close> and \<open>Pmm_Init\<close> build its invariant: free and allocated blocks are disjoint,
    aligned, maximally merged and cover the managed memory, and the counters agree. \<open>Pmm_Spec\<close> has the
    contract \<open>page_allocator\<close>, its interpretation and the properties.
  \<^item> Identifier pool (\<open>bitmap_alloc.h\<close>): \<open>Bitmap_Alloc\<close>, with the contract \<open>slot_allocator\<close>.
  \<^item> Scheduler (\<open>sched.c\<close>, \<open>task.h\<close>, \<open>qos.h\<close>, \<open>waitqueue.c\<close>): \<open>Sched\<close> has the operations,
    \<open>Sched_Proofs\<close> and \<open>Sched_Ops\<close> the invariant that every task is in exactly the queue of its place,
    \<open>Sched_Queues\<close> the order of the queues around \<open>schedule\<close>, \<open>Sched_Spec\<close> the properties of every
    operation.
  \<^item> Locks: \<open>Spinlock\<close> (\<open>spinlock.h\<close>, \<open>rwlock.h\<close>). Blocking primitives: \<open>Sync\<close> and \<open>Sync_Spec\<close>
    (\<open>semaphore.c\<close>, \<open>mutex.c\<close>, \<open>adaptive_mutex.h\<close>, \<open>kevent.h\<close>) over the contract \<open>wait_queues\<close>, which
    the scheduler provides; \<open>Msgqueue\<close> (\<open>msgqueue.c\<close>).
  \<^item> Page tables (\<open>vmm.c\<close>): \<open>Vmm\<close>, \<open>Vmm_Proofs\<close> (the tables are a tree), \<open>Vmm_Spec\<close>, \<open>Vmm_Wx\<close> (write
    xor execute), \<open>Vmm_Init\<close>. Regions (\<open>vma.c\<close>): \<open>Vma\<close>.
  \<^item> Heap (\<open>kmalloc.c\<close>): \<open>Kmalloc\<close>, \<open>Kmalloc_Proofs\<close>, \<open>Kmalloc_Ops\<close>, \<open>Kmalloc_Spec\<close>.
  \<^item> Output: \<open>Kprintf\<close>, \<open>Kprintf_Spec\<close> (\<open>kprintf.c\<close>), \<open>Font\<close>, \<open>Console\<close>, \<open>Console_Spec\<close>
    (\<open>console.c\<close>), \<open>Uart\<close> (\<open>uart.c\<close>), \<open>Ringbuf\<close> (\<open>ringbuf.h\<close>, \<open>klog.c\<close>), \<open>String_Lib\<close> (\<open>string.c\<close>).
  \<^item> Files: \<open>Vfs\<close> (\<open>vfs.c\<close>), \<open>Devfs\<close> (\<open>devfs.c\<close>, \<open>ramdisk.c\<close>), \<open>Keyboard\<close> (\<open>kb.c\<close>), \<open>Ext2\<close> and
    \<open>Ext2_Spec\<close> (\<open>ext2.c\<close>).
  \<^item> Time and interrupts: \<open>Ktimer\<close> (\<open>ktimer.c\<close>), \<open>Pic\<close> (\<open>pic.c\<close>), \<open>Lapic\<close> (\<open>lapic.c\<close>), \<open>Descriptors\<close>
    (\<open>gdt.c\<close> and the gates of \<open>idt.c\<close>), \<open>Interrupts\<close> (the handler of \<open>idt.c\<close> and \<open>watchdog.c\<close>).
  \<^item> Others: \<open>Workqueue\<close> (\<open>workqueue_def.c\<close>), \<open>Mempressure\<close> (\<open>mempressure.c\<close>), \<open>Shootdown\<close>
    (\<open>tlb_shootdown.c\<close>), \<open>Pci\<close> (\<open>pci.c\<close>), \<open>Xhci\<close> (\<open>xhci.c\<close>), \<open>Kref\<close> (\<open>atomics.h\<close>, \<open>kref.h\<close>),
    \<open>Ilist\<close> (\<open>list.h\<close>), \<open>Main_Loop\<close> (the loop of \<open>main.c\<close> and \<open>cpuidle.c\<close>).

  \<^bold>\<open>What is shown.\<close> Memory: every block the page allocator or the heap hands out is disjoint from all
  others and keeps its contents, freeing merges back to the same free memory, and running out of memory is
  reported exactly when no block is large enough. Tasks: no operation loses a task or puts it into two
  queues, the task with the earliest deadline or else the first of the highest priority runs, and ended tasks
  give their stacks back. Locks exclude and serve in order; a semaphore's units are matched by woken tasks
  while others sleep; messages arrive once, in order and unaltered. Mapping a page changes the translation of that page only, and no page becomes both
  writable and executable. Timers fire at their tick. Files are read as their blocks say. Printed numbers
  read back, and no buffer or framebuffer is overrun. Two theorems compose components: a timer interrupt
  through interval timer, timer wheel, watchdog and scheduler, and one pass of the main loop through
  reaping, deferred work, memory pressure, idling and echo.

  Where the code falls short, a lemma states what it does: an ending task that is joined spins on a lock
  it holds (\<open>task_exit_deadlock\<close>), a wake-up between queueing and \<open>schedule\<close> can lose the task
  (\<open>lost_wakeup_result\<close>),
  the watchdog never kills (\<open>watchdog_never_kills\<close>), a second boost forgets the owner's priority
  (\<open>adaptive_second_boost\<close>), a late acknowledgement leaves a stale translation (\<open>late_ack_stale\<close>), and
  the device of the file system cannot be read (\<open>ext2_device_read_fails\<close>).

  \<^bold>\<open>Interfaces.\<close> Each contract is a locale, interpreted on the definitions of its providers:
  \<open>slot_allocator\<close> on the identifier pool and the task pool, \<open>bounded_fifo\<close> on the byte ring, the key buffer and the message
  store, \<open>page_allocator\<close> on the page allocator, \<open>wait_queues\<close> on the scheduler.

  \<^bold>\<open>Fuel.\<close> A loop whose end depends on a callback or on hardware has fuel. A tick of the timer wheel gets
  twice the length of the slot, which is enough as each timer in it is visited once and rearmed at most
  once. A pass of the work queue needs as many steps as there are items when work functions queue none.
  The echo loop needs 63 steps, the capacity of the key buffer, when no key arrives meanwhile. The wait
  for the interrupt command register has no bound in the code; its fuel is a parameter and running out is
  reported. The other waits count down a timeout of the code, which is their recursion.

  \<^bold>\<open>Not modelled.\<close> The boot sequence before the main loop (calls of initialisers, prints, and boot loader
  structures that are not in the repository); exceptions and panic (print and halt); \<open>cpuid.c\<close> (prints);
  the per-processor block (a segment register), the tables of function pointers of \<open>hal.c\<close>, the stack
  protector, logging macros; the assembly files, whose effect is the change of the current task and the
  call of the C handlers; statistics that are only printed; self tests.
\<close>

end
